(* ===== verification/Prelude.thy ===== *)
theory Prelude
  imports Main "HOL-Library.Word" "HOL-Library.Monad_Syntax"
begin

unbundle bit_operations_syntax

text \<open>
  Shared vocabulary of the development.

  The firmware is C, so every component is a set of functions over explicit state in the
  \<open>option\<close> monad: \<open>Some\<close> is a normal return, \<open>None\<close> is the loss of defined behaviour
  (an access outside an array, a NULL dereference), a call that never returns (the endless
  loop of \<open>__aeabi_assert\<close>, a recursion that exceeds every stack depth). Theorems that a
  function returns are therefore stated as \<open>\<exists>r. f x = Some r\<close>, and give memory safety and
  the absence of failed assertions at once.

  Held here: the names of the machine integers, checked array accesses, a counting loop with
  its total-correctness rule, big-endian and little-endian byte codes, and the bit lemmas that
  the register banks use, and the interface of bounded queues.
\<close>

named_theorems byte_code \<open>reading back multi-byte encodings\<close>
named_theorems checked \<open>checked array accesses inside their bounds\<close>

type_synonym u8 = "8 word"
type_synonym u16 = "16 word"
type_synonym u32 = "32 word"
type_synonym u64 = "64 word"
type_synonym buffer = "8 word list"

text \<open>Results of lwIP (\<^verbatim>\<open>err_t\<close>).\<close>

abbreviation (input) ERR_OK :: int where "ERR_OK \<equiv> 0"
abbreviation (input) ERR_MEM :: int where "ERR_MEM \<equiv> - 1"

section \<open>Checked arrays\<close>

definition rd :: "'a list \<Rightarrow> nat \<Rightarrow> 'a option" where
  "rd xs i = (if i < length xs then Some (xs ! i) else None)"

definition wr :: "'a list \<Rightarrow> nat \<Rightarrow> 'a \<Rightarrow> 'a list option" where
  "wr xs i v = (if i < length xs then Some (xs[i := v]) else None)"

definition assert_c :: "bool \<Rightarrow> unit option" where
  "assert_c b = (if b then Some () else None)"

lemma rd_in [checked, simp]: "i < length xs \<Longrightarrow> rd xs i = Some (xs ! i)"
  by (simp add: rd_def)

lemma rd_out [simp]: "length xs \<le> i \<Longrightarrow> rd xs i = None"
  by (simp add: rd_def)

lemma wr_in [checked, simp]: "i < length xs \<Longrightarrow> wr xs i v = Some (xs[i := v])"
  by (simp add: wr_def)

lemma wr_out [simp]: "length xs \<le> i \<Longrightarrow> wr xs i v = None"
  by (simp add: wr_def)

lemma wr_SomeD: "wr xs i v = Some ys \<Longrightarrow> i < length xs \<and> ys = xs[i := v]"
  by (auto simp: wr_def split: if_splits)

lemma assert_c_simps [simp]: "assert_c True = Some ()" "assert_c False = None"
  by (simp_all add: assert_c_def)

text \<open>\<open>memcpy\<close> of \<open>n\<close> bytes between two distinct arrays, each given with an offset.\<close>

definition memcpy :: "'a list \<Rightarrow> nat \<Rightarrow> 'a list \<Rightarrow> nat \<Rightarrow> nat \<Rightarrow> 'a list option" where
  "memcpy dst d src s n =
     (if d + n \<le> length dst \<and> s + n \<le> length src
      then Some (take d dst @ take n (drop s src) @ drop (d + n) dst) else None)"

definition memset :: "'a list \<Rightarrow> nat \<Rightarrow> 'a \<Rightarrow> nat \<Rightarrow> 'a list option" where
  "memset dst d v n =
     (if d + n \<le> length dst then Some (take d dst @ replicate n v @ drop (d + n) dst) else None)"

lemma memset_SomeI:
  "d + n \<le> length dst \<Longrightarrow>
   \<exists>r. memset dst d v n = Some r \<and> length r = length dst \<and>
     (\<forall>i < length dst. r ! i = (if d \<le> i \<and> i < d + n then v else dst ! i))"
  by (auto simp: memset_def nth_append)

lemma memcpy_SomeI:
  "d + n \<le> length dst \<Longrightarrow> s + n \<le> length src \<Longrightarrow>
   memcpy dst d src s n = Some (take d dst @ take n (drop s src) @ drop (d + n) dst)"
  by (simp add: memcpy_def)

lemma memcpy_length: "memcpy dst d src s n = Some r \<Longrightarrow> length r = length dst"
  by (auto simp: memcpy_def split: if_splits)

lemma memcpy_nth:
  assumes "memcpy dst d src s n = Some r" "i < length dst"
  shows "r ! i = (if d \<le> i \<and> i < d + n then src ! (s + i - d) else dst ! i)"
  using assms by (auto simp: memcpy_def nth_append split: if_splits)

section \<open>Counting loops\<close>

text \<open>
  \<open>for_range lo n body\<close> is \<^verbatim>\<open>for (i = lo; i < lo + n; i++) body\<close>; the loop stops with \<open>None\<close>
  as soon as a body does.
\<close>

fun for_range :: "nat \<Rightarrow> nat \<Rightarrow> (nat \<Rightarrow> 's \<Rightarrow> 's option) \<Rightarrow> 's \<Rightarrow> 's option" where
  "for_range i 0 body s = Some s"
| "for_range i (Suc n) body s = body i s \<bind> for_range (Suc i) n body"

lemma for_range_rule:
  assumes "I lo s"
    and "\<And>i s. lo \<le> i \<Longrightarrow> i < lo + n \<Longrightarrow> I i s \<Longrightarrow> \<exists>s'. body i s = Some s' \<and> I (Suc i) s'"
  shows "\<exists>s'. for_range lo n body s = Some s' \<and> I (lo + n) s'"
  using assms
proof (induction n arbitrary: lo s)
  case 0
  then show ?case by simp
next
  case (Suc n)
  from Suc.prems(1) Suc.prems(2)[of lo s] obtain s1 where
    s1: "body lo s = Some s1" "I (Suc lo) s1" by auto
  have "\<exists>s'. for_range (Suc lo) n body s1 = Some s' \<and> I (Suc lo + n) s'"
    by (rule Suc.IH[OF s1(2)]) (use Suc.prems(2) in auto)
  with s1 show ?case by simp
qed

lemma for_range_rule0:
  assumes "\<And>i s. i < n \<Longrightarrow> I i s \<Longrightarrow> \<exists>s'. body i s = Some s' \<and> I (Suc i) s'" and "I 0 s"
  shows "\<exists>s'. for_range 0 n body s = Some s' \<and> I n s'"
  using for_range_rule[of I 0 s n body] assms by auto

lemma for_range_Suc:
  "for_range lo (Suc n) body s = for_range lo n body s \<bind> body (lo + n)"
proof (induction n arbitrary: lo s)
  case 0
  show ?case by (cases "body lo s") auto
next
  case (Suc n)
  show ?case
  proof (cases "body lo s")
    case None
    then show ?thesis by simp
  next
    case (Some s1)
    then show ?thesis using Suc.IH[of "Suc lo" s1] by simp
  qed
qed

section \<open>Multi-byte codes\<close>

definition be16 :: "u8 \<Rightarrow> u8 \<Rightarrow> u16" where
  "be16 hi lo = push_bit 8 (ucast hi) OR ucast lo"

definition hi8 :: "u16 \<Rightarrow> u8" where "hi8 w = ucast (drop_bit 8 w)"
definition lo8 :: "u16 \<Rightarrow> u8" where "lo8 w = ucast (w AND 0xFF)"

lemma bit_be16: "bit (be16 h l) n \<longleftrightarrow> (if n < 8 then bit l n else n < 16 \<and> bit h (n - 8))"
  by (auto simp: be16_def bit_simps dest: bit_imp_le_length)

lemma bit_hi8: "bit (hi8 w) n \<longleftrightarrow> n < 8 \<and> bit w (8 + n)"
  by (auto simp: hi8_def bit_simps)

lemma bit_255: "bit (255 :: 'a::len word) n \<longleftrightarrow> n < LENGTH('a) \<and> n < 8"
proof -
  have "bit (mask 8 :: 'a word) n \<longleftrightarrow> n < LENGTH('a) \<and> n < 8"
    by (auto simp: bit_mask_iff)
  then show ?thesis by (simp add: mask_eq_exp_minus_1)
qed

lemma bit_lo8: "bit (lo8 w) n \<longleftrightarrow> n < 8 \<and> bit w n"
  by (simp only: lo8_def bit_ucast_iff bit_and_iff bit_255) auto

lemma hi8_be16 [simp, byte_code]: "hi8 (be16 h l) = h"
  by (rule bit_eqI) (auto simp: bit_hi8 bit_be16 dest: bit_imp_le_length)

lemma lo8_be16 [simp, byte_code]: "lo8 (be16 h l) = l"
  by (rule bit_eqI) (auto simp: bit_lo8 bit_be16 dest: bit_imp_le_length)

lemma be16_hi8_lo8 [simp, byte_code]: "be16 (hi8 w) (lo8 w) = w"
  by (rule bit_eqI) (auto simp: bit_be16 bit_hi8 bit_lo8 dest: bit_imp_le_length)

lemma be16_inj: "be16 a b = be16 c d \<longleftrightarrow> a = c \<and> b = d"
  by (metis hi8_be16 lo8_be16)

lemma bit_below_exp: "bit (w :: 'a::len word) j \<Longrightarrow> unat w < 2 ^ n \<Longrightarrow> j < n"
proof (rule ccontr)
  assume b: "bit w j" and l: "unat w < 2 ^ n" and "\<not> j < n"
  then have "(2::nat) ^ n \<le> 2 ^ j" by simp
  with l have "unat w < 2 ^ j" by (rule less_le_trans)
  then have "unat w div 2 ^ j = 0" by (rule div_less)
  then have "\<not> bit (unat w) j" by (simp add: bit_nat_def)
  with b show False by (simp add: bit_unsigned_iff)
qed

definition le32_of :: "u8 \<Rightarrow> u8 \<Rightarrow> u8 \<Rightarrow> u8 \<Rightarrow> u32" where
  "le32_of b0 b1 b2 b3 = ucast b0 OR push_bit 8 (ucast b1) OR push_bit 16 (ucast b2) OR push_bit 24 (ucast b3)"

lemma bit_le32_of:
  "bit (le32_of b0 b1 b2 b3) n \<longleftrightarrow>
     (if n < 8 then bit b0 n else if n < 16 then bit b1 (n - 8) else if n < 24 then bit b2 (n - 16) else n < 32 \<and> bit b3 (n - 24))"
  by (auto simp: le32_of_def bit_simps dest: bit_imp_le_length)

lemma le32_of_bytes [byte_code]:
  "ucast (le32_of b0 b1 b2 b3) = b0" "ucast (drop_bit 8 (le32_of b0 b1 b2 b3)) = b1"
  "ucast (drop_bit 16 (le32_of b0 b1 b2 b3)) = b2" "ucast (drop_bit 24 (le32_of b0 b1 b2 b3)) = b3"
  by (rule bit_word_eqI, simp add: bit_ucast_iff bit_drop_bit_eq bit_le32_of)+

definition le32_bytes :: "u32 \<Rightarrow> u8 list" where
  "le32_bytes w = [ucast w, ucast (drop_bit 8 w), ucast (drop_bit 16 w), ucast (drop_bit 24 w)]"

fun le32_read :: "u8 list \<Rightarrow> u32" where
  "le32_read [b0, b1, b2, b3] = le32_of b0 b1 b2 b3"
| "le32_read bs = 0"

lemma length_le32_bytes [simp]: "length (le32_bytes w) = 4"
  by (simp add: le32_bytes_def)

lemma le32_read_bytes [simp, byte_code]: "le32_read (le32_bytes w) = w"
  by (rule bit_word_eqI) (auto simp: le32_bytes_def bit_le32_of bit_simps)

section \<open>Bits of byte arrays\<close>

text \<open>Bit \<open>k\<close> of a packed bit array, least significant bit of byte 0 first.\<close>

definition bit_at :: "buffer \<Rightarrow> nat \<Rightarrow> bool" where
  "bit_at bs k \<longleftrightarrow> bit (bs ! (k div 8)) (k mod 8)"

lemma and_one_bit_nonzero [simp]:
  fixes w :: "'a::len word"
  assumes "k < LENGTH('a)"
  shows "w AND 2 ^ k = 0 \<longleftrightarrow> \<not> bit w k"
  using assms by (simp add: bit_iff_and_push_bit_not_eq_0)

lemma bit_set_one:
  fixes w :: "'a::len word"
  assumes "k < LENGTH('a)"
  shows "bit (w OR 2 ^ k) j \<longleftrightarrow> bit w j \<or> j = k"
  using assms by (auto simp: bit_simps)

lemma bit_clear_one:
  fixes w :: "'a::len word"
  assumes "k < LENGTH('a)"
  shows "bit (w AND NOT (2 ^ k)) j \<longleftrightarrow> bit w j \<and> j \<noteq> k"
  using assms by (auto simp: bit_simps dest: bit_imp_le_length)

lemma div_mod_8_eq_iff: "(a::nat) div 8 = b div 8 \<and> a mod 8 = b mod 8 \<longleftrightarrow> a = b"
  by (metis div_mult_mod_eq)

lemma ceil_8_bound: "n \<le> 8 * ((n + 7) div 8)" for n :: nat
  by presburger

lemma bit_at_update_set:
  assumes "k div 8 < length bs"
  shows "bit_at (bs[k div 8 := bs ! (k div 8) OR 2 ^ (k mod 8)]) j \<longleftrightarrow>
         bit_at bs j \<or> j = k"
  using assms div_mod_8_eq_iff[of j k]
  by (cases "j div 8 = k div 8") (auto simp: bit_at_def bit_set_one nth_list_update)

lemma bit_at_update_clear:
  assumes "k div 8 < length bs"
  shows "bit_at (bs[k div 8 := bs ! (k div 8) AND NOT (2 ^ (k mod 8))]) j \<longleftrightarrow>
         bit_at bs j \<and> j \<noteq> k"
  using assms div_mod_8_eq_iff[of j k]
  by (cases "j div 8 = k div 8") (auto simp: bit_at_def bit_clear_one nth_list_update)

section \<open>Bounded queues\<close>

text \<open>The interface of a queue with room for \<open>cap\<close> elements, as the receive ring and the descriptor rings implement it.\<close>

datatype 'b fifo_op = FPut 'b | FGet

fun fifo_puts :: "'b fifo_op list \<Rightarrow> 'b list" where
  "fifo_puts [] = []"
| "fifo_puts (FPut b # ops) = b # fifo_puts ops"
| "fifo_puts (FGet # ops) = fifo_puts ops"

text \<open>Starting with \<open>n\<close> elements, no put of the sequence meets a full queue.\<close>

fun fifo_room :: "nat \<Rightarrow> nat \<Rightarrow> 'b fifo_op list \<Rightarrow> bool" where
  "fifo_room cap n [] \<longleftrightarrow> True"
| "fifo_room cap n (FPut b # ops) \<longleftrightarrow> n < cap \<and> fifo_room cap (Suc n) ops"
| "fifo_room cap n (FGet # ops) \<longleftrightarrow> fifo_room cap (n - 1) ops"

locale bounded_fifo =
  fixes cap :: nat
    and elem :: "'b \<Rightarrow> bool"
    and inv :: "'s \<Rightarrow> bool"
    and abs :: "'s \<Rightarrow> 'b list"
    and put :: "'b \<Rightarrow> 's \<Rightarrow> 's option"
    and get :: "'s \<Rightarrow> ('b option \<times> 's) option"
  assumes put_room: "inv s \<Longrightarrow> elem b \<Longrightarrow> length (abs s) < cap \<Longrightarrow>
      \<exists>s'. put b s = Some s' \<and> inv s' \<and> abs s' = abs s @ [b]"
    and get_nonempty: "inv s \<Longrightarrow> abs s = b # bs \<Longrightarrow>
      \<exists>s'. get s = Some (Some b, s') \<and> inv s' \<and> abs s' = bs"
    and get_empty: "inv s \<Longrightarrow> abs s = [] \<Longrightarrow> \<exists>s'. get s = Some (None, s') \<and> inv s' \<and> abs s' = []"
begin

fun get_n :: "nat \<Rightarrow> 's \<Rightarrow> ('b list \<times> 's) option" where
  "get_n 0 s = Some ([], s)"
| "get_n (Suc n) s = do {
     (b, s) \<leftarrow> get s;
     (bs, s) \<leftarrow> get_n n s;
     Some (case b of None \<Rightarrow> bs | Some x \<Rightarrow> x # bs, s)
   }"

lemma get_n_prefix:
  "inv s \<Longrightarrow> n \<le> length (abs s) \<Longrightarrow>
   \<exists>s'. get_n n s = Some (take n (abs s), s') \<and> inv s' \<and> abs s' = drop n (abs s)"
proof (induction n arbitrary: s)
  case (Suc n)
  then obtain b bs where a: "abs s = b # bs" by (cases "abs s") auto
  then obtain s1 where "get s = Some (Some b, s1)" "inv s1" "abs s1 = bs"
    using get_nonempty Suc.prems by blast
  with Suc.IH[of s1] Suc.prems a show ?case by auto
qed simp

text \<open>Puts and gets in any order: what comes out, followed by what is left, is what was there, followed by what went in.\<close>

fun run :: "'b fifo_op list \<Rightarrow> 's \<Rightarrow> ('b list \<times> 's) option" where
  "run [] s = Some ([], s)"
| "run (FPut b # ops) s = put b s \<bind> run ops"
| "run (FGet # ops) s = do {
     (b, s) \<leftarrow> get s;
     (bs, s) \<leftarrow> run ops s;
     Some (case b of None \<Rightarrow> bs | Some x \<Rightarrow> x # bs, s)
   }"

lemma run_fifo:
  assumes "inv s" "\<forall>b \<in> set (fifo_puts ops). elem b" "fifo_room cap (length (abs s)) ops"
  shows "\<exists>out s'. run ops s = Some (out, s') \<and> inv s' \<and> out @ abs s' = abs s @ fifo_puts ops"
  using assms
proof (induction ops arbitrary: s rule: fifo_puts.induct)
  case (2 b ops)
  then obtain s1 where "put b s = Some s1" "inv s1" "abs s1 = abs s @ [b]" using put_room[of s b] by auto
  with 2(1)[of s1] 2(2-4) show ?case by auto
next
  case (3 ops)
  show ?case
  proof (cases "abs s")
    case Nil
    then obtain s1 where "get s = Some (None, s1)" "inv s1" "abs s1 = []" using get_empty 3(2) by blast
    with 3(1)[of s1] 3(2-4) Nil show ?thesis by auto
  next
    case (Cons b bs)
    then obtain s1 where "get s = Some (Some b, s1)" "inv s1" "abs s1 = bs" using get_nonempty 3(2) by blast
    with 3(1)[of s1] 3(2-4) Cons show ?thesis by fastforce
  qed
qed simp

end

end
