(* ===== verification/Mb_Types.thy ===== *)
theory Mb_Types
  imports Prelude
begin

text \<open>
  The enumerations and constants of the Modbus stack (\<^verbatim>\<open>mb.h\<close>, \<^verbatim>\<open>mbproto.h\<close>, \<^verbatim>\<open>mbframe.h\<close>,
  \<^verbatim>\<open>mbport.h\<close>), the conversion of register errors into Modbus exceptions and the bit-field
  utilities of \<^verbatim>\<open>functions/mbutils.c\<close>.
\<close>

datatype eMBMode = MB_RTU | MB_ASCII | MB_TCP

datatype eMBRegisterMode = MB_REG_READ | MB_REG_WRITE

datatype eMBErrorCode =
    MB_ENOERR | MB_ENOREG | MB_EINVAL | MB_EPORTERR | MB_ENORES | MB_EIO | MB_EILLSTATE
  | MB_ETIMEDOUT

datatype eMBEventType = EV_READY | EV_FRAME_RECEIVED | EV_EXECUTE | EV_FRAME_SENT

datatype eMBParity = MB_PAR_NONE | MB_PAR_ODD | MB_PAR_EVEN

datatype eMBException =
    MB_EX_NONE | MB_EX_ILLEGAL_FUNCTION | MB_EX_ILLEGAL_DATA_ADDRESS | MB_EX_ILLEGAL_DATA_VALUE
  | MB_EX_SLAVE_DEVICE_FAILURE | MB_EX_ACKNOWLEDGE | MB_EX_SLAVE_BUSY | MB_EX_MEMORY_PARITY_ERROR
  | MB_EX_GATEWAY_PATH_FAILED | MB_EX_GATEWAY_TGT_FAILED

text \<open>The numeric codes of the exceptions, as they are written into an error frame.\<close>

fun ex_code :: "eMBException \<Rightarrow> u8" where
  "ex_code MB_EX_NONE = 0x00"
| "ex_code MB_EX_ILLEGAL_FUNCTION = 0x01"
| "ex_code MB_EX_ILLEGAL_DATA_ADDRESS = 0x02"
| "ex_code MB_EX_ILLEGAL_DATA_VALUE = 0x03"
| "ex_code MB_EX_SLAVE_DEVICE_FAILURE = 0x04"
| "ex_code MB_EX_ACKNOWLEDGE = 0x05"
| "ex_code MB_EX_SLAVE_BUSY = 0x06"
| "ex_code MB_EX_MEMORY_PARITY_ERROR = 0x08"
| "ex_code MB_EX_GATEWAY_PATH_FAILED = 0x0A"
| "ex_code MB_EX_GATEWAY_TGT_FAILED = 0x0B"

abbreviation (input) MB_ADDRESS_BROADCAST :: u8 where "MB_ADDRESS_BROADCAST \<equiv> 0"
abbreviation (input) MB_ADDRESS_MIN :: u8 where "MB_ADDRESS_MIN \<equiv> 1"
abbreviation (input) MB_ADDRESS_MAX :: u8 where "MB_ADDRESS_MAX \<equiv> 247"

abbreviation (input) MB_FUNC_READ_COILS :: u8 where "MB_FUNC_READ_COILS \<equiv> 1"
abbreviation (input) MB_FUNC_READ_DISCRETE_INPUTS :: u8 where "MB_FUNC_READ_DISCRETE_INPUTS \<equiv> 2"
abbreviation (input) MB_FUNC_WRITE_SINGLE_COIL :: u8 where "MB_FUNC_WRITE_SINGLE_COIL \<equiv> 5"
abbreviation (input) MB_FUNC_WRITE_MULTIPLE_COILS :: u8 where "MB_FUNC_WRITE_MULTIPLE_COILS \<equiv> 15"
abbreviation (input) MB_FUNC_READ_HOLDING_REGISTER :: u8 where "MB_FUNC_READ_HOLDING_REGISTER \<equiv> 3"
abbreviation (input) MB_FUNC_READ_INPUT_REGISTER :: u8 where "MB_FUNC_READ_INPUT_REGISTER \<equiv> 4"
abbreviation (input) MB_FUNC_WRITE_REGISTER :: u8 where "MB_FUNC_WRITE_REGISTER \<equiv> 6"
abbreviation (input) MB_FUNC_WRITE_MULTIPLE_REGISTERS :: u8 where "MB_FUNC_WRITE_MULTIPLE_REGISTERS \<equiv> 16"
abbreviation (input) MB_FUNC_READWRITE_MULTIPLE_REGISTERS :: u8
  where "MB_FUNC_READWRITE_MULTIPLE_REGISTERS \<equiv> 23"
abbreviation (input) MB_FUNC_OTHER_REPORT_SLAVEID :: u8 where "MB_FUNC_OTHER_REPORT_SLAVEID \<equiv> 17"
abbreviation (input) MB_FUNC_ERROR :: u8 where "MB_FUNC_ERROR \<equiv> 128"

abbreviation (input) MB_PDU_SIZE_MIN :: nat where "MB_PDU_SIZE_MIN \<equiv> 1"
abbreviation (input) MB_PDU_SIZE_MAX :: nat where "MB_PDU_SIZE_MAX \<equiv> 253"

text \<open>\<^verbatim>\<open>prveMBError2Exception\<close>\<close>

fun prveMBError2Exception :: "eMBErrorCode \<Rightarrow> eMBException" where
  "prveMBError2Exception MB_ENOERR = MB_EX_NONE"
| "prveMBError2Exception MB_ENOREG = MB_EX_ILLEGAL_DATA_ADDRESS"
| "prveMBError2Exception MB_ETIMEDOUT = MB_EX_SLAVE_BUSY"
| "prveMBError2Exception _ = MB_EX_SLAVE_DEVICE_FAILURE"

lemma error2exception_none_iff [simp]: "prveMBError2Exception e = MB_EX_NONE \<longleftrightarrow> e = MB_ENOERR"
  by (cases e) simp_all

lemma ex_code_zero_iff [simp]: "ex_code e = 0 \<longleftrightarrow> e = MB_EX_NONE"
  by (cases e) simp_all

section \<open>Bit fields across byte borders\<close>

text \<open>
  \<^verbatim>\<open>xMBUtilSetBits\<close> and \<^verbatim>\<open>xMBUtilGetBits\<close>. All intermediate values are 16 bits wide, as the
  \<^verbatim>\<open>USHORT\<close> locals are; the shifts of \<^verbatim>\<open>1 << ucNBits\<close> happen in \<^verbatim>\<open>int\<close> and are cut to 16 bits
  (a shift that leaves \<^verbatim>\<open>int\<close> is undefined and gives \<open>None\<close>).
\<close>

definition xMBUtilSetBits :: "buffer \<Rightarrow> u16 \<Rightarrow> u8 \<Rightarrow> u8 \<Rightarrow> buffer option" where
  "xMBUtilSetBits ucByteBuf usBitOffset ucNBits ucValue = do {
     assert_c (ucNBits \<le> 8);
     let usByteOffset = unat usBitOffset div 8;
     let usNPreBits = unat usBitOffset - usByteOffset * 8;
     let usValue = push_bit usNPreBits (ucast ucValue :: u16);
     let usMask = push_bit usNPreBits (mask (unat ucNBits) :: u16);
     b0 \<leftarrow> rd ucByteBuf usByteOffset;
     b1 \<leftarrow> rd ucByteBuf (usByteOffset + 1);
     let usWordBuf = be16 b1 b0;
     let usWordBuf = (usWordBuf AND NOT usMask) OR usValue;
     buf \<leftarrow> wr ucByteBuf usByteOffset (lo8 usWordBuf);
     wr buf (usByteOffset + 1) (hi8 usWordBuf)
   }"

definition xMBUtilGetBits :: "buffer \<Rightarrow> u16 \<Rightarrow> u8 \<Rightarrow> u8 option" where
  "xMBUtilGetBits ucByteBuf usBitOffset ucNBits = do {
     assert_c (ucNBits < 31);
     let usByteOffset = unat usBitOffset div 8;
     let usNPreBits = unat usBitOffset - usByteOffset * 8;
     let usMask = (mask (unat ucNBits) :: u16);
     b0 \<leftarrow> rd ucByteBuf usByteOffset;
     b1 \<leftarrow> rd ucByteBuf (usByteOffset + 1);
     let usWordBuf = be16 b1 b0;
     let usWordBuf = drop_bit usNPreBits usWordBuf;
     Some (ucast (usWordBuf AND usMask))
   }"

lemma bit_at_be16:
  assumes "j < 16"
  shows "bit_at bs (8 * q + j) \<longleftrightarrow> bit (be16 (bs ! Suc q) (bs ! q)) j"
proof (cases "j < 8")
  case True
  then have "(8 * q + j) div 8 = q" "(8 * q + j) mod 8 = j" by simp_all
  with True show ?thesis by (simp add: bit_at_def bit_be16)
next
  case False
  with assms obtain i where i: "j = 8 + i" "i < 8"
    by (metis add_less_cancel_left le_Suc_ex linorder_not_less numeral_Bit0)
  then have "(8 * q + j) div 8 = Suc q" "(8 * q + j) mod 8 = i" by simp_all
  with i show ?thesis by (simp add: bit_at_def bit_be16)
qed

text \<open>The bits of a two-byte window after it has been rewritten.\<close>

lemma bit_at_window:
  assumes "Suc q < length bs"
  shows "bit_at (bs[q := lo8 w, Suc q := hi8 w]) k \<longleftrightarrow>
    (if 8 * q \<le> k \<and> k < 8 * q + 16 then bit w (k - 8 * q) else bit_at bs k)"
proof (cases "8 * q \<le> k \<and> k < 8 * q + 16")
  case True
  then obtain j where "k = 8 * q + j" "j < 16"
    by (metis le_Suc_ex nat_add_left_cancel_less)
  with assms show ?thesis by (simp add: bit_at_be16)
next
  case False
  then have "k div 8 \<noteq> q \<and> k div 8 \<noteq> Suc q" by linarith
  then show ?thesis using False by (auto simp: bit_at_def)
qed

lemma setbits_window:
  assumes "ucNBits \<le> 8" "unat off div 8 + 1 < length buf"
  shows "xMBUtilSetBits buf off ucNBits v =
    (let q = unat off div 8; r = unat off mod 8;
         w = (be16 (buf ! Suc q) (buf ! q) AND NOT (push_bit r (mask (unat ucNBits))))
             OR push_bit r (ucast v)
     in Some (buf[q := lo8 w, Suc q := hi8 w]))"
  using assms
  by (simp add: xMBUtilSetBits_def Let_def minus_div_mult_eq_mod mult.commute[of 8])

lemma setbits_bits:
  assumes n: "ucNBits \<le> 8" and l: "unat off div 8 + 1 < length buf" and v: "unat v < 2 ^ unat ucNBits"
    and s: "xMBUtilSetBits buf off ucNBits v = Some buf'"
  shows "bit_at buf' k \<longleftrightarrow>
    (if unat off \<le> k \<and> k < unat off + unat ucNBits then bit v (k - unat off) else bit_at buf k)"
proof -
  let ?q = "unat off div 8" and ?r = "unat off mod 8" and ?n = "unat ucNBits"
  let ?w = "(be16 (buf ! Suc ?q) (buf ! ?q) AND NOT (push_bit ?r (mask ?n))) OR push_bit ?r (ucast v)"
  have b: "buf' = buf[?q := lo8 ?w, Suc ?q := hi8 ?w]"
    using s setbits_window[OF n l, of v] by (simp add: Let_def)
  have off: "unat off = 8 * ?q + ?r" and r: "?r < 8" by simp_all
  have n8: "?n \<le> 8" using n by (simp add: word_le_nat_alt)
  have vb: "bit v j \<Longrightarrow> j < ?n" for j
    using bit_below_exp[OF _ v] .
  show ?thesis
  proof (cases "8 * ?q \<le> k \<and> k < 8 * ?q + 16")
    case True
    then obtain j where j: "k = 8 * ?q + j" "j < 16"
      by (metis le_Suc_ex nat_add_left_cancel_less)
    have "bit ?w j \<longleftrightarrow> (if ?r \<le> j \<and> j < ?r + ?n then bit v (j - ?r) else bit (be16 (buf ! Suc ?q) (buf ! ?q)) j)"
      using j(2) r n8 vb[of "j - ?r"] by (auto simp: bit_simps)
    moreover have "unat off \<le> k \<and> k < unat off + ?n \<longleftrightarrow> ?r \<le> j \<and> j < ?r + ?n" "k - unat off = j - ?r"
      using j(1) off by linarith+
    moreover have "bit_at buf k \<longleftrightarrow> bit (be16 (buf ! Suc ?q) (buf ! ?q)) j" "k - 8 * ?q = j"
      using j by (simp_all add: bit_at_be16)
    ultimately show ?thesis unfolding b bit_at_window[OF l[simplified]] by (simp only: True if_True simp_thms)
  next
    case False
    then show ?thesis unfolding b bit_at_window[OF l[simplified]] using off r n8 by auto
  qed
qed

lemma setbits_total:
  assumes "ucNBits \<le> 8" "unat off div 8 + 1 < length buf"
  shows "\<exists>buf'. xMBUtilSetBits buf off ucNBits v = Some buf' \<and> length buf' = length buf"
  using setbits_window[OF assms, of v] by (simp add: Let_def)

lemma getbits_bits:
  assumes n: "ucNBits \<le> 8" and l: "unat off div 8 + 1 < length buf"
  shows "\<exists>w. xMBUtilGetBits buf off ucNBits = Some w \<and>
    (\<forall>j. bit w j \<longleftrightarrow> j < unat ucNBits \<and> bit_at buf (unat off + j))"
proof -
  let ?q = "unat off div 8" and ?r = "unat off mod 8" and ?n = "unat ucNBits"
  let ?w = "ucast (drop_bit ?r (be16 (buf ! Suc ?q) (buf ! ?q)) AND mask ?n) :: u8"
  have n8: "?n \<le> 8" using n by (simp add: word_le_nat_alt)
  then have "ucNBits < 31" by (simp add: word_less_nat_alt)
  then have "xMBUtilGetBits buf off ucNBits = Some ?w"
    using l by (simp add: xMBUtilGetBits_def Let_def minus_div_mult_eq_mod mult.commute[of 8])
  moreover have "bit ?w j \<longleftrightarrow> j < ?n \<and> bit_at buf (unat off + j)" for j
  proof (cases "j < ?n")
    case True
    have "unat off + j = 8 * ?q + (?r + j)" by simp
    moreover have "?r + j < 16" using True n8 by (simp add: less_le_trans add_less_le_mono)
    ultimately have "bit_at buf (unat off + j) \<longleftrightarrow> bit (be16 (buf ! Suc ?q) (buf ! ?q)) (?r + j)"
      by (metis bit_at_be16)
    with True n8 show ?thesis by (simp add: bit_simps)
  qed (simp add: bit_simps)
  ultimately show ?thesis by blast
qed

text \<open>
  \<^verbatim>\<open>xMBUtilSetBits\<close> followed by \<^verbatim>\<open>xMBUtilGetBits\<close> at the same place returns the value written,
  for every bit offset and every width up to 8 that can hold the value, also across a byte
  border; every bit outside the field keeps its value, and both calls stay inside the buffer.
\<close>

theorem mbutil_set_get_roundtrip:
  assumes "ucNBits \<le> 8" "unat off div 8 + 1 < length buf" "unat v < 2 ^ unat ucNBits"
  shows "\<exists>buf'. xMBUtilSetBits buf off ucNBits v = Some buf' \<and> length buf' = length buf \<and>
    xMBUtilGetBits buf' off ucNBits = Some v \<and>
    (\<forall>k. k < unat off \<or> unat off + unat ucNBits \<le> k \<longrightarrow> bit_at buf' k = bit_at buf k)"
proof -
  obtain buf' where s: "xMBUtilSetBits buf off ucNBits v = Some buf'" and l: "length buf' = length buf"
    using setbits_total[OF assms(1,2)] by blast
  note b = setbits_bits[OF assms s]
  obtain w where w: "xMBUtilGetBits buf' off ucNBits = Some w"
    "\<And>j. bit w j \<longleftrightarrow> j < unat ucNBits \<and> bit_at buf' (unat off + j)"
    using getbits_bits[of ucNBits off buf'] assms(1,2) l by auto
  have "w = v"
    by (rule bit_eqI) (auto simp: w(2) b dest: bit_below_exp[OF _ assms(3)])
  with s l w(1) b show ?thesis by auto
qed

theorem mbutil_set_get_roundtrip_witness:
  "\<exists>buf'. xMBUtilSetBits [0xFF, 0, 0] 6 4 5 = Some buf' \<and> length buf' = length [0xFF, 0, 0 :: u8] \<and>
    xMBUtilGetBits buf' 6 4 = Some 5 \<and>
    (\<forall>k. k < unat (6 :: u16) \<or> unat (6 :: u16) + unat (4 :: u8) \<le> k \<longrightarrow>
      bit_at buf' k = bit_at [0xFF, 0, 0] k)"
  by (rule mbutil_set_get_roundtrip) simp_all

end
