(* ===== verification/Mb_Regs.thy ===== *)
theory Mb_Regs
  imports Mb_Types
begin

text \<open>
  The register banks of \<^verbatim>\<open>FreeModbus/mb_callback.c\<close>: 128 coils and 128 discrete inputs as packed
  bits, 256 holding and 256 input registers, the four callbacks the Modbus stack calls and the
  functions the application calls. A callback's \<^verbatim>\<open>pucRegBuffer\<close> is an array and an offset into it.

  Two interfaces describe what the stack relies on: \<open>bit_bank\<close> (coils, discrete inputs) and
  \<open>word_bank\<close> (holding, input registers). Both are interpreted on the code's two banks.
\<close>

section \<open>The code\<close>

abbreviation (input) MB_COILS_MAX :: nat where "MB_COILS_MAX \<equiv> 128"
abbreviation (input) MB_DISCRETE_MAX :: nat where "MB_DISCRETE_MAX \<equiv> 128"
abbreviation (input) MB_HOLDING_MAX :: nat where "MB_HOLDING_MAX \<equiv> 256"
abbreviation (input) MB_INPUT_MAX :: nat where "MB_INPUT_MAX \<equiv> 256"

record mb_regs =
  coils :: buffer
  discrete_inputs :: buffer
  holding_regs :: "u16 list"
  input_regs :: "u16 list"

definition mb_regs_init :: mb_regs where
  "mb_regs_init = \<lparr> coils = replicate 17 0, discrete_inputs = replicate 17 0,
     holding_regs = replicate 256 0, input_regs = replicate 256 0 \<rparr>"

definition mb_regs_ok :: "mb_regs \<Rightarrow> bool" where
  "mb_regs_ok r \<longleftrightarrow> length (coils r) = 17 \<and> length (discrete_inputs r) = 17 \<and>
     length (holding_regs r) = 256 \<and> length (input_regs r) = 256"

text \<open>One round of the loop that copies bank bits into the reply.\<close>

definition bits_read_body :: "buffer \<Rightarrow> nat \<Rightarrow> nat \<Rightarrow> nat \<Rightarrow> buffer \<Rightarrow> buffer option" where
  "bits_read_body bank off usAddress i buf = do {
     let coil_addr = (usAddress + i) mod 2 ^ 16;
     c \<leftarrow> rd bank (coil_addr div 8);
     if c AND push_bit (coil_addr mod 8) 1 \<noteq> 0
     then do {
       b \<leftarrow> rd buf (off + i div 8);
       wr buf (off + i div 8) (b OR push_bit (i mod 8) 1)
     }
     else Some buf
   }"

text \<open>One round of the loop that copies request bits into the coils.\<close>

definition bits_write_body :: "buffer \<Rightarrow> nat \<Rightarrow> nat \<Rightarrow> nat \<Rightarrow> buffer \<Rightarrow> buffer option" where
  "bits_write_body buf off usAddress i bank = do {
     let coil_addr = (usAddress + i) mod 2 ^ 16;
     b \<leftarrow> rd buf (off + i div 8);
     c \<leftarrow> rd bank (coil_addr div 8);
     if b AND push_bit (i mod 8) 1 \<noteq> 0
     then wr bank (coil_addr div 8) (c OR push_bit (coil_addr mod 8) 1)
     else wr bank (coil_addr div 8) (c AND NOT (push_bit (coil_addr mod 8) 1))
   }"

definition eMBRegCoilsCB ::
  "mb_regs \<Rightarrow> buffer \<Rightarrow> nat \<Rightarrow> u16 \<Rightarrow> u16 \<Rightarrow> eMBRegisterMode \<Rightarrow> (eMBErrorCode \<times> buffer \<times> mb_regs) option"
where
  "eMBRegCoilsCB r buf off usAddress usNCoils eMode =
     (if unat usAddress + unat usNCoils > MB_COILS_MAX then Some (MB_ENOREG, buf, r)
      else case eMode of
        MB_REG_READ \<Rightarrow> do {
          buf \<leftarrow> memset buf off 0 ((unat usNCoils + 7) div 8);
          buf \<leftarrow> for_range 0 (unat usNCoils) (bits_read_body (coils r) off (unat usAddress)) buf;
          Some (MB_ENOERR, buf, r)
        }
      | MB_REG_WRITE \<Rightarrow> do {
          cs \<leftarrow> for_range 0 (unat usNCoils) (bits_write_body buf off (unat usAddress)) (coils r);
          Some (MB_ENOERR, buf, r\<lparr>coils := cs\<rparr>)
        })"

definition eMBRegDiscreteCB ::
  "mb_regs \<Rightarrow> buffer \<Rightarrow> nat \<Rightarrow> u16 \<Rightarrow> u16 \<Rightarrow> (eMBErrorCode \<times> buffer \<times> mb_regs) option"
where
  "eMBRegDiscreteCB r buf off usAddress usNDiscrete =
     (if unat usAddress + unat usNDiscrete > MB_DISCRETE_MAX then Some (MB_ENOREG, buf, r)
      else do {
        buf \<leftarrow> memset buf off 0 ((unat usNDiscrete + 7) div 8);
        buf \<leftarrow> for_range 0 (unat usNDiscrete)
                 (bits_read_body (discrete_inputs r) off (unat usAddress)) buf;
        Some (MB_ENOERR, buf, r)
      })"

definition words_read_body :: "u16 list \<Rightarrow> nat \<Rightarrow> nat \<Rightarrow> nat \<Rightarrow> buffer \<Rightarrow> buffer option" where
  "words_read_body bank off usAddress i buf = do {
     w \<leftarrow> rd bank (usAddress + i);
     buf \<leftarrow> wr buf (off + i * 2) (hi8 w);
     wr buf (off + i * 2 + 1) (lo8 w)
   }"

definition words_write_body :: "buffer \<Rightarrow> nat \<Rightarrow> nat \<Rightarrow> nat \<Rightarrow> u16 list \<Rightarrow> u16 list option" where
  "words_write_body buf off usAddress i bank = do {
     h \<leftarrow> rd buf (off + i * 2);
     l \<leftarrow> rd buf (off + i * 2 + 1);
     wr bank (usAddress + i) (be16 h l)
   }"

definition eMBRegHoldingCB ::
  "mb_regs \<Rightarrow> buffer \<Rightarrow> nat \<Rightarrow> u16 \<Rightarrow> u16 \<Rightarrow> eMBRegisterMode \<Rightarrow> (eMBErrorCode \<times> buffer \<times> mb_regs) option"
where
  "eMBRegHoldingCB r buf off usAddress usNRegs eMode =
     (if unat usAddress + unat usNRegs > MB_HOLDING_MAX then Some (MB_ENOREG, buf, r)
      else case eMode of
        MB_REG_READ \<Rightarrow> do {
          buf \<leftarrow> for_range 0 (unat usNRegs) (words_read_body (holding_regs r) off (unat usAddress)) buf;
          Some (MB_ENOERR, buf, r)
        }
      | MB_REG_WRITE \<Rightarrow> do {
          hs \<leftarrow> for_range 0 (unat usNRegs) (words_write_body buf off (unat usAddress)) (holding_regs r);
          Some (MB_ENOERR, buf, r\<lparr>holding_regs := hs\<rparr>)
        })"

definition eMBRegInputCB ::
  "mb_regs \<Rightarrow> buffer \<Rightarrow> nat \<Rightarrow> u16 \<Rightarrow> u16 \<Rightarrow> (eMBErrorCode \<times> buffer \<times> mb_regs) option"
where
  "eMBRegInputCB r buf off usAddress usNRegs =
     (if unat usAddress + unat usNRegs > MB_INPUT_MAX then Some (MB_ENOREG, buf, r)
      else do {
        buf \<leftarrow> for_range 0 (unat usNRegs) (words_read_body (input_regs r) off (unat usAddress)) buf;
        Some (MB_ENOERR, buf, r)
      })"

text \<open>The functions the application calls.\<close>

definition set_bank_bit :: "buffer \<Rightarrow> nat \<Rightarrow> u8 \<Rightarrow> buffer option" where
  "set_bank_bit bank addr v = do {
     c \<leftarrow> rd bank (addr div 8);
     if v \<noteq> 0 then wr bank (addr div 8) (c OR push_bit (addr mod 8) 1)
     else wr bank (addr div 8) (c AND NOT (push_bit (addr mod 8) 1))
   }"

definition mb_set_coil :: "mb_regs \<Rightarrow> u16 \<Rightarrow> u8 \<Rightarrow> mb_regs option" where
  "mb_set_coil r addr v =
     (if unat addr < MB_COILS_MAX
      then do { cs \<leftarrow> set_bank_bit (coils r) (unat addr) v; Some (r\<lparr>coils := cs\<rparr>) } else Some r)"

definition mb_get_coil :: "mb_regs \<Rightarrow> u16 \<Rightarrow> u8 option" where
  "mb_get_coil r addr =
     (if unat addr < MB_COILS_MAX
      then do { c \<leftarrow> rd (coils r) (unat addr div 8); Some (drop_bit (unat addr mod 8) c AND 1) }
      else Some 0)"

definition mb_set_discrete_input :: "mb_regs \<Rightarrow> u16 \<Rightarrow> u8 \<Rightarrow> mb_regs option" where
  "mb_set_discrete_input r addr v =
     (if unat addr < MB_DISCRETE_MAX
      then do { ds \<leftarrow> set_bank_bit (discrete_inputs r) (unat addr) v;
                Some (r\<lparr>discrete_inputs := ds\<rparr>) } else Some r)"

definition mb_set_holding_reg :: "mb_regs \<Rightarrow> u16 \<Rightarrow> u16 \<Rightarrow> mb_regs option" where
  "mb_set_holding_reg r addr v =
     (if unat addr < MB_HOLDING_MAX
      then do { hs \<leftarrow> wr (holding_regs r) (unat addr) v; Some (r\<lparr>holding_regs := hs\<rparr>) } else Some r)"

definition mb_get_holding_reg :: "mb_regs \<Rightarrow> u16 \<Rightarrow> u16 option" where
  "mb_get_holding_reg r addr =
     (if unat addr < MB_HOLDING_MAX then rd (holding_regs r) (unat addr) else Some 0)"

definition mb_set_input_reg :: "mb_regs \<Rightarrow> u16 \<Rightarrow> u16 \<Rightarrow> mb_regs option" where
  "mb_set_input_reg r addr v =
     (if unat addr < MB_INPUT_MAX
      then do { is \<leftarrow> wr (input_regs r) (unat addr) v; Some (r\<lparr>input_regs := is\<rparr>) } else Some r)"

definition mb_get_input_reg :: "mb_regs \<Rightarrow> u16 \<Rightarrow> u16 option" where
  "mb_get_input_reg r addr =
     (if unat addr < MB_INPUT_MAX then rd (input_regs r) (unat addr) else Some 0)"

definition mb_set_holding_regs :: "mb_regs \<Rightarrow> u16 \<Rightarrow> u16 list \<Rightarrow> u16 \<Rightarrow> mb_regs option" where
  "mb_set_holding_regs r start_addr values count =
     (if unat start_addr + unat count \<le> MB_HOLDING_MAX
      then do { hs \<leftarrow> memcpy (holding_regs r) (unat start_addr) values 0 (unat count);
                Some (r\<lparr>holding_regs := hs\<rparr>) } else Some r)"

definition mb_get_holding_regs :: "mb_regs \<Rightarrow> u16 \<Rightarrow> u16 list \<Rightarrow> u16 \<Rightarrow> u16 list option" where
  "mb_get_holding_regs r start_addr values count =
     (if unat start_addr + unat count \<le> MB_HOLDING_MAX
      then memcpy values 0 (holding_regs r) (unat start_addr) (unat count) else Some values)"

definition mb_set_input_regs :: "mb_regs \<Rightarrow> u16 \<Rightarrow> u16 list \<Rightarrow> u16 \<Rightarrow> mb_regs option" where
  "mb_set_input_regs r start_addr values count =
     (if unat start_addr + unat count \<le> MB_INPUT_MAX
      then do { is \<leftarrow> memcpy (input_regs r) (unat start_addr) values 0 (unat count);
                Some (r\<lparr>input_regs := is\<rparr>) } else Some r)"

definition mb_get_input_regs :: "mb_regs \<Rightarrow> u16 \<Rightarrow> u16 list \<Rightarrow> u16 \<Rightarrow> u16 list option" where
  "mb_get_input_regs r start_addr values count =
     (if unat start_addr + unat count \<le> MB_INPUT_MAX
      then memcpy values 0 (input_regs r) (unat start_addr) (unat count) else Some values)"

section \<open>The copy loops\<close>

lemma bits_read_loop:
  assumes "addr + n \<le> 8 * length bank" "addr + n \<le> 2 ^ 16" "8 * off + n \<le> 8 * length buf"
  shows "\<exists>b. for_range 0 n (bits_read_body bank off addr) buf = Some b \<and> length b = length buf \<and>
    (\<forall>k. bit_at b k \<longleftrightarrow>
      bit_at buf k \<or> (8 * off \<le> k \<and> k < 8 * off + n \<and> bit_at bank (addr + (k - 8 * off))))"
proof -
  let ?I = "\<lambda>i b. length b = length buf \<and> (\<forall>k. bit_at b k \<longleftrightarrow>
      bit_at buf k \<or> (8 * off \<le> k \<and> k < 8 * off + i \<and> bit_at bank (addr + (k - 8 * off))))"
  have "\<exists>b'. bits_read_body bank off addr i b = Some b' \<and> ?I (Suc i) b'"
    if i: "i < n" and I: "?I i b" for i b
  proof -
    let ?k = "8 * off + i"
    have q: "off + i div 8 = ?k div 8" "i mod 8 = ?k mod 8" by simp_all
    have l: "?k div 8 < length b" "(addr + i) div 8 < length bank" using i I assms by auto
    have a: "(addr + i) mod 65536 = addr + i" using i assms(2) by simp
    define b' where "b' = b[?k div 8 := b ! (?k div 8) OR 2 ^ (?k mod 8)]"
    have s: "bit_at b' k \<longleftrightarrow> bit_at b k \<or> k = ?k" "length b' = length b" for k
      unfolding b'_def by (rule bit_at_update_set[OF l(1)], simp)
    show ?thesis
    proof (cases "bit_at bank (addr + i)")
      case True
      then have r: "bits_read_body bank off addr i b = Some b'"
        unfolding bits_read_body_def q b'_def using l a by (simp add: Let_def bit_at_def)
      have "bit_at b' k \<longleftrightarrow> bit_at buf k \<or>
          (8 * off \<le> k \<and> k < 8 * off + Suc i \<and> bit_at bank (addr + (k - 8 * off)))" for k
        using I True by (cases "k = ?k") (simp_all add: s less_Suc_eq)
      then have "?I (Suc i) b'" using I s(2) by simp
      with r show ?thesis by blast
    next
      case False
      then have "bits_read_body bank off addr i b = Some b"
        unfolding bits_read_body_def q using l a by (simp add: Let_def bit_at_def)
      moreover have "bit_at b k \<longleftrightarrow> bit_at buf k \<or>
          (8 * off \<le> k \<and> k < 8 * off + Suc i \<and> bit_at bank (addr + (k - 8 * off)))" for k
        using I False by (cases "k = ?k") (simp_all add: less_Suc_eq)
      ultimately show ?thesis using I by blast
    qed
  qed
  then show ?thesis by (rule for_range_rule0[where I = ?I]) auto
qed

lemma bits_write_loop:
  assumes "addr + n \<le> 8 * length bank" "addr + n \<le> 2 ^ 16" "8 * off + n \<le> 8 * length buf"
  shows "\<exists>c. for_range 0 n (bits_write_body buf off addr) bank = Some c \<and> length c = length bank \<and>
    (\<forall>k. bit_at c k \<longleftrightarrow>
      (if addr \<le> k \<and> k < addr + n then bit_at buf (8 * off + (k - addr)) else bit_at bank k))"
proof -
  let ?I = "\<lambda>i c. length c = length bank \<and> (\<forall>k. bit_at c k \<longleftrightarrow>
      (if addr \<le> k \<and> k < addr + i then bit_at buf (8 * off + (k - addr)) else bit_at bank k))"
  have "\<exists>c'. bits_write_body buf off addr i c = Some c' \<and> ?I (Suc i) c'"
    if i: "i < n" and I: "?I i c" for i c
  proof -
    let ?j = "8 * off + i" and ?k = "addr + i"
    have q: "off + i div 8 = ?j div 8" "i mod 8 = ?j mod 8" by simp_all
    have l: "?j div 8 < length buf" "?k div 8 < length c" using i I assms by auto
    have a: "?k mod 65536 = ?k" using i assms(2) by simp
    note s = bit_at_update_set[OF l(2)] bit_at_update_clear[OF l(2)]
    show ?thesis
    proof (cases "bit_at buf ?j")
      case True
      then have "bits_write_body buf off addr i c = Some (c[?k div 8 := c ! (?k div 8) OR 2 ^ (?k mod 8)])"
        unfolding bits_write_body_def q using l a by (simp add: Let_def bit_at_def)
      with I True show ?thesis by (auto simp: s less_Suc_eq)
    next
      case False
      then have "bits_write_body buf off addr i c =
          Some (c[?k div 8 := c ! (?k div 8) AND NOT (2 ^ (?k mod 8))])"
        unfolding bits_write_body_def q using l a by (simp add: Let_def bit_at_def)
      with I False show ?thesis by (auto simp: s less_Suc_eq)
    qed
  qed
  then show ?thesis by (rule for_range_rule0[where I = ?I]) auto
qed

lemma words_read_loop:
  assumes "addr + n \<le> length bank" "off + 2 * n \<le> length buf"
  shows "\<exists>b. for_range 0 n (words_read_body bank off addr) buf = Some b \<and> length b = length buf \<and>
    (\<forall>i < n. b ! (off + 2 * i) = hi8 (bank ! (addr + i)) \<and>
             b ! (off + 2 * i + 1) = lo8 (bank ! (addr + i))) \<and>
    (\<forall>j. j < off \<or> off + 2 * n \<le> j \<longrightarrow> b ! j = buf ! j)"
proof -
  let ?I = "\<lambda>m b. length b = length buf \<and>
    (\<forall>i < m. b ! (off + 2 * i) = hi8 (bank ! (addr + i)) \<and>
             b ! (off + 2 * i + 1) = lo8 (bank ! (addr + i))) \<and>
    (\<forall>j. j < off \<or> off + 2 * m \<le> j \<longrightarrow> b ! j = buf ! j)"
  have "\<exists>b'. words_read_body bank off addr m b = Some b' \<and> ?I (Suc m) b'"
    if m: "m < n" and I: "?I m b" for m b
  proof -
    let ?w = "bank ! (addr + m)"
    let ?b = "b[off + 2 * m := hi8 ?w, off + 2 * m + 1 := lo8 ?w]"
    have l: "off + 2 * m + 1 < length b" using m I assms by auto
    have "words_read_body bank off addr m b = Some ?b"
      using l m assms(1) by (simp add: words_read_body_def mult.commute[of m])
    moreover have "?I (Suc m) ?b"
      using I l by (auto simp: nth_list_update less_Suc_eq)
    ultimately show ?thesis by blast
  qed
  then show ?thesis by (rule for_range_rule0[where I = ?I]) auto
qed

lemma words_write_loop:
  assumes "addr + n \<le> length bank" "off + 2 * n \<le> length buf"
  shows "\<exists>c. for_range 0 n (words_write_body buf off addr) bank = Some c \<and> length c = length bank \<and>
    (\<forall>k. c ! k = (if addr \<le> k \<and> k < addr + n
       then be16 (buf ! (off + 2 * (k - addr))) (buf ! (off + 2 * (k - addr) + 1)) else bank ! k))"
proof -
  let ?I = "\<lambda>m c. length c = length bank \<and>
    (\<forall>k. c ! k = (if addr \<le> k \<and> k < addr + m
       then be16 (buf ! (off + 2 * (k - addr))) (buf ! (off + 2 * (k - addr) + 1)) else bank ! k))"
  have "\<exists>c'. words_write_body buf off addr m c = Some c' \<and> ?I (Suc m) c'"
    if m: "m < n" and I: "?I m c" for m c
  proof -
    let ?c = "c[addr + m := be16 (buf ! (off + 2 * m)) (buf ! (off + 2 * m + 1))]"
    have "words_write_body buf off addr m c = Some ?c"
      using I m assms by (simp add: words_write_body_def mult.commute[of m])
    moreover have "?I (Suc m) ?c"
      using I m assms(1) by (auto simp: nth_list_update less_Suc_eq)
    ultimately show ?thesis by blast
  qed
  then show ?thesis by (rule for_range_rule0[where I = ?I]) auto
qed

section \<open>The bit banks\<close>

text \<open>
  What the stack relies on when it reads a bit bank, and what the application relies on when it
  sets a bit: \<open>bits r k\<close> is the bank's content. A read inside the bank packs bits
  \<open>usAddress\<close> to \<open>usAddress + n - 1\<close> into the buffer, pads the last byte with zeros and leaves the
  rest of the buffer and the bank alone; a read past the bank's end is refused.
\<close>

locale bit_bank =
  fixes cap :: nat
    and ok :: "'r \<Rightarrow> bool"
    and bits :: "'r \<Rightarrow> nat \<Rightarrow> bool"
    and readcb :: "'r \<Rightarrow> buffer \<Rightarrow> nat \<Rightarrow> u16 \<Rightarrow> u16 \<Rightarrow> (eMBErrorCode \<times> buffer \<times> 'r) option"
    and setbit :: "'r \<Rightarrow> u16 \<Rightarrow> u8 \<Rightarrow> 'r option"
  assumes read_in: "ok r \<Longrightarrow> unat a + unat n \<le> cap \<Longrightarrow> off + (unat n + 7) div 8 \<le> length buf \<Longrightarrow>
      \<exists>b. readcb r buf off a n = Some (MB_ENOERR, b, r) \<and> length b = length buf \<and>
        (\<forall>k. k < 8 * length buf \<longrightarrow> bit_at b k =
          (if 8 * off \<le> k \<and> k < 8 * (off + (unat n + 7) div 8)
           then k - 8 * off < unat n \<and> bits r (unat a + (k - 8 * off)) else bit_at buf k))"
    and read_out: "cap < unat a + unat n \<Longrightarrow> readcb r buf off a n = Some (MB_ENOREG, buf, r)"
    and set_in: "ok r \<Longrightarrow> unat a < cap \<Longrightarrow>
      \<exists>r'. setbit r a v = Some r' \<and> ok r' \<and> bits r' = (bits r)(unat a := v \<noteq> 0)"
    and set_out: "cap \<le> unat a \<Longrightarrow> setbit r a v = Some r"
begin

text \<open>A bit set by the application is the bit a later read reports, at its place in the reply.\<close>

lemma read_after_set:
  assumes "ok r" "unat a \<le> unat x" "unat x < unat a + unat n" "unat a + unat n \<le> cap"
    "off + (unat n + 7) div 8 \<le> length buf"
  shows "\<exists>r' b. setbit r x v = Some r' \<and> readcb r' buf off a n = Some (MB_ENOERR, b, r') \<and>
    bit_at b (8 * off + (unat x - unat a)) = (v \<noteq> 0)"
proof -
  obtain r' where r': "setbit r x v = Some r'" "ok r'" "bits r' = (bits r)(unat x := v \<noteq> 0)"
    using set_in[OF assms(1), of x v] assms(3,4) by auto
  obtain b where b: "readcb r' buf off a n = Some (MB_ENOERR, b, r')"
    "\<And>k. k < 8 * length buf \<Longrightarrow> bit_at b k =
       (if 8 * off \<le> k \<and> k < 8 * (off + (unat n + 7) div 8)
        then k - 8 * off < unat n \<and> bits r' (unat a + (k - 8 * off)) else bit_at buf k)"
    using read_in[OF r'(2) assms(4,5)] by blast
  have k: "8 * off + (unat x - unat a) < 8 * (off + (unat n + 7) div 8)" 
  proof -
    obtain q where "q = (unat n + 7) div 8" "unat n \<le> 8 * q" using ceil_8_bound by blast
    with assms(2,3) show ?thesis by simp
  qed
  with b(2)[of "8 * off + (unat x - unat a)"] assms(2,3,5) r'(3)
  have "bit_at b (8 * off + (unat x - unat a)) = (v \<noteq> 0)" by auto
  with r' b(1) show ?thesis by blast
qed

end

lemma bits_read_padded:
  assumes "addr + n \<le> 8 * length bank" "addr + n \<le> 2 ^ 16" "off + (n + 7) div 8 \<le> length buf"
  shows "\<exists>m b. memset buf off 0 ((n + 7) div 8) = Some m \<and>
    for_range 0 n (bits_read_body bank off addr) m = Some b \<and> length b = length buf \<and>
    (\<forall>k. k < 8 * length buf \<longrightarrow> bit_at b k =
      (if 8 * off \<le> k \<and> k < 8 * (off + (n + 7) div 8)
       then k - 8 * off < n \<and> bit_at bank (addr + (k - 8 * off)) else bit_at buf k))"
proof -
  obtain m where m: "memset buf off 0 ((n + 7) div 8) = Some m" "length m = length buf"
    "\<And>i. i < length buf \<Longrightarrow> m ! i = (if off \<le> i \<and> i < off + (n + 7) div 8 then 0 else buf ! i)"
    using memset_SomeI[OF assms(3), of 0] by blast
  have l: "8 * off + n \<le> 8 * length m" using assms(3) m(2) by linarith
  obtain b where b: "for_range 0 n (bits_read_body bank off addr) m = Some b" "length b = length m"
    "\<And>k. bit_at b k \<longleftrightarrow>
      bit_at m k \<or> (8 * off \<le> k \<and> k < 8 * off + n \<and> bit_at bank (addr + (k - 8 * off)))"
    using bits_read_loop[OF assms(1,2) l] by blast
  have "bit_at b k = (if 8 * off \<le> k \<and> k < 8 * (off + (n + 7) div 8)
       then k - 8 * off < n \<and> bit_at bank (addr + (k - 8 * off)) else bit_at buf k)"
    if k: "k < 8 * length buf" for k
  proof (cases "8 * off \<le> k \<and> k < 8 * (off + (n + 7) div 8)")
    case True
    then have "off \<le> k div 8" "k div 8 < off + (n + 7) div 8"
      by (simp_all add: less_eq_div_iff_mult_less_eq div_less_iff_less_mult mult.commute[of _ 8])
    with m(3)[of "k div 8"] k have "\<not> bit_at m k" by (simp add: bit_at_def)
    then show ?thesis using True by (auto simp: b(3))
  next
    case False
    then have "k div 8 < off \<or> off + (n + 7) div 8 \<le> k div 8"
      by (simp add: less_eq_div_iff_mult_less_eq div_less_iff_less_mult mult.commute[of _ 8]) linarith
    moreover from False have "\<not> (8 * off \<le> k \<and> k < 8 * off + n)"
      using ceil_8_bound[of n] by (simp add: distrib_left) linarith
    ultimately have "bit_at b k = bit_at m k" "m ! (k div 8) = buf ! (k div 8)"
      using m(3)[of "k div 8"] k by (auto simp: b(3))
    then show ?thesis unfolding if_not_P[OF False] by (simp add: bit_at_def)
  qed
  with m b show ?thesis by auto
qed

lemma set_bank_bit_spec:
  assumes "addr div 8 < length bank"
  shows "\<exists>c. set_bank_bit bank addr v = Some c \<and> length c = length bank \<and>
    (\<forall>k. bit_at c k = (if k = addr then v \<noteq> 0 else bit_at bank k))"
  using assms bit_at_update_set[OF assms] bit_at_update_clear[OF assms]
  by (auto simp: set_bank_bit_def)

definition coil_bits :: "mb_regs \<Rightarrow> nat \<Rightarrow> bool" where
  "coil_bits r k \<longleftrightarrow> k < MB_COILS_MAX \<and> bit_at (coils r) k"

definition discrete_bits :: "mb_regs \<Rightarrow> nat \<Rightarrow> bool" where
  "discrete_bits r k \<longleftrightarrow> k < MB_DISCRETE_MAX \<and> bit_at (discrete_inputs r) k"


lemma coils_read_in:
  assumes "mb_regs_ok r" "unat a + unat n \<le> MB_COILS_MAX" "off + (unat n + 7) div 8 \<le> length buf"
  shows "\<exists>b. eMBRegCoilsCB r buf off a n MB_REG_READ = Some (MB_ENOERR, b, r) \<and> length b = length buf \<and>
    (\<forall>k. k < 8 * length buf \<longrightarrow> bit_at b k =
      (if 8 * off \<le> k \<and> k < 8 * (off + (unat n + 7) div 8)
       then k - 8 * off < unat n \<and> coil_bits r (unat a + (k - 8 * off)) else bit_at buf k))"
proof -
  have l: "unat a + unat n \<le> 8 * length (coils r)" "unat a + unat n \<le> 2 ^ 16"
    using assms(1,2) by (auto simp: mb_regs_ok_def)
  show ?thesis using bits_read_padded[OF l assms(3)] assms(2)
    by (fastforce simp: eMBRegCoilsCB_def coil_bits_def)
qed

lemma discrete_read_in:
  assumes "mb_regs_ok r" "unat a + unat n \<le> MB_DISCRETE_MAX" "off + (unat n + 7) div 8 \<le> length buf"
  shows "\<exists>b. eMBRegDiscreteCB r buf off a n = Some (MB_ENOERR, b, r) \<and> length b = length buf \<and>
    (\<forall>k. k < 8 * length buf \<longrightarrow> bit_at b k =
      (if 8 * off \<le> k \<and> k < 8 * (off + (unat n + 7) div 8)
       then k - 8 * off < unat n \<and> discrete_bits r (unat a + (k - 8 * off)) else bit_at buf k))"
proof -
  have l: "unat a + unat n \<le> 8 * length (discrete_inputs r)" "unat a + unat n \<le> 2 ^ 16"
    using assms(1,2) by (auto simp: mb_regs_ok_def)
  show ?thesis using bits_read_padded[OF l assms(3)] assms(2)
    by (fastforce simp: eMBRegDiscreteCB_def discrete_bits_def)
qed

lemma coils_set_in:
  assumes "mb_regs_ok r" "unat a < MB_COILS_MAX"
  shows "\<exists>r'. mb_set_coil r a v = Some r' \<and> mb_regs_ok r' \<and> coil_bits r' = (coil_bits r)(unat a := v \<noteq> 0)"
proof -
  have "unat a div 8 < length (coils r)" using assms by (auto simp: mb_regs_ok_def)
  from set_bank_bit_spec[OF this, of v] show ?thesis using assms
    by (auto simp: mb_set_coil_def mb_regs_ok_def coil_bits_def fun_eq_iff)
qed

lemma discrete_set_in:
  assumes "mb_regs_ok r" "unat a < MB_DISCRETE_MAX"
  shows "\<exists>r'. mb_set_discrete_input r a v = Some r' \<and> mb_regs_ok r' \<and>
    discrete_bits r' = (discrete_bits r)(unat a := v \<noteq> 0)"
proof -
  have "unat a div 8 < length (discrete_inputs r)" using assms by (auto simp: mb_regs_ok_def)
  from set_bank_bit_spec[OF this, of v] show ?thesis using assms
    by (auto simp: mb_set_discrete_input_def mb_regs_ok_def discrete_bits_def fun_eq_iff)
qed

interpretation coil_bank: bit_bank MB_COILS_MAX mb_regs_ok coil_bits
  "\<lambda>r buf off a n. eMBRegCoilsCB r buf off a n MB_REG_READ" mb_set_coil
  by unfold_locales
     (rule coils_read_in coils_set_in | assumption | simp add: eMBRegCoilsCB_def mb_set_coil_def)+

interpretation discrete_bank: bit_bank MB_DISCRETE_MAX mb_regs_ok discrete_bits
  eMBRegDiscreteCB mb_set_discrete_input
  by unfold_locales
     (rule discrete_read_in discrete_set_in | assumption
      | simp add: eMBRegDiscreteCB_def mb_set_discrete_input_def)+

text \<open>Writing coils from a request.\<close>

lemma coils_write_in:
  assumes "mb_regs_ok r" "unat a + unat n \<le> MB_COILS_MAX" "8 * off + unat n \<le> 8 * length buf"
  shows "\<exists>r'. eMBRegCoilsCB r buf off a n MB_REG_WRITE = Some (MB_ENOERR, buf, r') \<and> mb_regs_ok r' \<and>
    (\<forall>k. coil_bits r' k = (if unat a \<le> k \<and> k < unat a + unat n
       then bit_at buf (8 * off + (k - unat a)) else coil_bits r k)) \<and>
    r' = r\<lparr>coils := coils r'\<rparr>"
proof -
  have l: "unat a + unat n \<le> 8 * length (coils r)" "unat a + unat n \<le> 2 ^ 16"
    using assms(1,2) by (auto simp: mb_regs_ok_def)
  obtain c where c: "for_range 0 (unat n) (bits_write_body buf off (unat a)) (coils r) = Some c"
    "length c = length (coils r)"
    "\<And>k. bit_at c k = (if unat a \<le> k \<and> k < unat a + unat n
       then bit_at buf (8 * off + (k - unat a)) else bit_at (coils r) k)"
    using bits_write_loop[OF l assms(3)] by blast
  let ?r = "r\<lparr>coils := c\<rparr>"
  have "eMBRegCoilsCB r buf off a n MB_REG_WRITE = Some (MB_ENOERR, buf, ?r)"
    using assms(2) c(1) by (simp add: eMBRegCoilsCB_def)
  moreover have "mb_regs_ok ?r" using assms(1) c(2) by (simp add: mb_regs_ok_def)
  moreover have "coil_bits ?r k = (if unat a \<le> k \<and> k < unat a + unat n
       then bit_at buf (8 * off + (k - unat a)) else coil_bits r k)" for k
    using assms(2) by (auto simp: coil_bits_def c(3))
  ultimately show ?thesis by (intro exI[of _ ?r]) simp
qed

section \<open>The word banks\<close>

text \<open>
  The same for registers: a read inside the bank stores each register high byte first and touches
  nothing else; a read past the end is refused; a register set by the application is the value
  the next read returns.
\<close>

locale word_bank =
  fixes cap :: nat
    and ok :: "'r \<Rightarrow> bool"
    and val :: "'r \<Rightarrow> nat \<Rightarrow> u16"
    and readcb :: "'r \<Rightarrow> buffer \<Rightarrow> nat \<Rightarrow> u16 \<Rightarrow> u16 \<Rightarrow> (eMBErrorCode \<times> buffer \<times> 'r) option"
    and setreg :: "'r \<Rightarrow> u16 \<Rightarrow> u16 \<Rightarrow> 'r option"
    and getreg :: "'r \<Rightarrow> u16 \<Rightarrow> u16 option"
  assumes read_in: "ok r \<Longrightarrow> unat a + unat n \<le> cap \<Longrightarrow> off + 2 * unat n \<le> length buf \<Longrightarrow>
      \<exists>b. readcb r buf off a n = Some (MB_ENOERR, b, r) \<and> length b = length buf \<and>
        (\<forall>i < unat n. b ! (off + 2 * i) = hi8 (val r (unat a + i)) \<and>
                      b ! (off + 2 * i + 1) = lo8 (val r (unat a + i))) \<and>
        (\<forall>j. j < off \<or> off + 2 * unat n \<le> j \<longrightarrow> b ! j = buf ! j)"
    and read_out: "cap < unat a + unat n \<Longrightarrow> readcb r buf off a n = Some (MB_ENOREG, buf, r)"
    and set_in: "ok r \<Longrightarrow> unat a < cap \<Longrightarrow>
      \<exists>r'. setreg r a v = Some r' \<and> ok r' \<and> (\<forall>k < cap. val r' k = (if k = unat a then v else val r k))"
    and set_out: "cap \<le> unat a \<Longrightarrow> setreg r a v = Some r"
    and get_in: "ok r \<Longrightarrow> unat a < cap \<Longrightarrow> getreg r a = Some (val r (unat a))"
begin

text \<open>The registers a reply carries, decoded the way a master decodes them.\<close>

lemma read_decodes:
  assumes "ok r" "unat a + unat n \<le> cap" "off + 2 * unat n \<le> length buf"
  shows "\<exists>b. readcb r buf off a n = Some (MB_ENOERR, b, r) \<and> length b = length buf \<and>
    (\<forall>i < unat n. be16 (b ! (off + 2 * i)) (b ! (off + 2 * i + 1)) = val r (unat a + i))"
  using read_in[OF assms] by fastforce

lemma get_after_set:
  assumes "ok r" "unat a < cap"
  shows "\<exists>r'. setreg r a v = Some r' \<and> getreg r' a = Some v"
  using set_in[OF assms, of v] get_in assms(2) by fastforce

end

lemma holding_read_in:
  assumes "mb_regs_ok r" "unat a + unat n \<le> MB_HOLDING_MAX" "off + 2 * unat n \<le> length buf"
  shows "\<exists>b. eMBRegHoldingCB r buf off a n MB_REG_READ = Some (MB_ENOERR, b, r) \<and> length b = length buf \<and>
    (\<forall>i < unat n. b ! (off + 2 * i) = hi8 (holding_regs r ! (unat a + i)) \<and>
                  b ! (off + 2 * i + 1) = lo8 (holding_regs r ! (unat a + i))) \<and>
    (\<forall>j. j < off \<or> off + 2 * unat n \<le> j \<longrightarrow> b ! j = buf ! j)"
  using words_read_loop[of "unat a" "unat n" "holding_regs r" off buf] assms
  by (auto simp: eMBRegHoldingCB_def mb_regs_ok_def)

lemma input_read_in:
  assumes "mb_regs_ok r" "unat a + unat n \<le> MB_INPUT_MAX" "off + 2 * unat n \<le> length buf"
  shows "\<exists>b. eMBRegInputCB r buf off a n = Some (MB_ENOERR, b, r) \<and> length b = length buf \<and>
    (\<forall>i < unat n. b ! (off + 2 * i) = hi8 (input_regs r ! (unat a + i)) \<and>
                  b ! (off + 2 * i + 1) = lo8 (input_regs r ! (unat a + i))) \<and>
    (\<forall>j. j < off \<or> off + 2 * unat n \<le> j \<longrightarrow> b ! j = buf ! j)"
  using words_read_loop[of "unat a" "unat n" "input_regs r" off buf] assms
  by (auto simp: eMBRegInputCB_def mb_regs_ok_def)

interpretation holding_bank: word_bank MB_HOLDING_MAX mb_regs_ok "\<lambda>r k. holding_regs r ! k"
  "\<lambda>r buf off a n. eMBRegHoldingCB r buf off a n MB_REG_READ" mb_set_holding_reg mb_get_holding_reg
  by unfold_locales
     (rule holding_read_in, assumption+,
      auto simp: eMBRegHoldingCB_def mb_set_holding_reg_def mb_get_holding_reg_def mb_regs_ok_def
        nth_list_update)

interpretation input_bank: word_bank MB_INPUT_MAX mb_regs_ok "\<lambda>r k. input_regs r ! k"
  eMBRegInputCB mb_set_input_reg mb_get_input_reg
  by unfold_locales
     (rule input_read_in, assumption+,
      auto simp: eMBRegInputCB_def mb_set_input_reg_def mb_get_input_reg_def mb_regs_ok_def
        nth_list_update)

lemma holding_write_in:
  assumes "mb_regs_ok r" "unat a + unat n \<le> MB_HOLDING_MAX" "off + 2 * unat n \<le> length buf"
  shows "\<exists>r'. eMBRegHoldingCB r buf off a n MB_REG_WRITE = Some (MB_ENOERR, buf, r') \<and> mb_regs_ok r' \<and>
    (\<forall>k. holding_regs r' ! k = (if unat a \<le> k \<and> k < unat a + unat n
       then be16 (buf ! (off + 2 * (k - unat a))) (buf ! (off + 2 * (k - unat a) + 1))
       else holding_regs r ! k)) \<and>
    r' = r\<lparr>holding_regs := holding_regs r'\<rparr>"
proof -
  obtain c where c: "for_range 0 (unat n) (words_write_body buf off (unat a)) (holding_regs r) = Some c"
    "length c = length (holding_regs r)"
    "\<forall>k. c ! k = (if unat a \<le> k \<and> k < unat a + unat n
       then be16 (buf ! (off + 2 * (k - unat a))) (buf ! (off + 2 * (k - unat a) + 1))
       else holding_regs r ! k)"
    using words_write_loop[of "unat a" "unat n" "holding_regs r" off buf] assms
    by (auto simp: mb_regs_ok_def)
  then show ?thesis using assms
    by (intro exI[of _ "r\<lparr>holding_regs := c\<rparr>"]) (simp add: eMBRegHoldingCB_def mb_regs_ok_def)
qed

end
