(* ===== verification/Mb_Func.thy ===== *)
theory Mb_Func
  imports Mb_Regs
begin

text \<open>
  The function handlers of \<^verbatim>\<open>FreeModbus/modbus/functions\<close>. A handler gets the PDU in place: the
  frame is the receive buffer from the function code on (\<^verbatim>\<open>&ucRTUBuf[MB_SER_PDU_PDU_OFF]\<close>), which
  is 255 bytes long, and \<^verbatim>\<open>usLen\<close> is the length of the request; it returns the exception, the
  frame and the length of the response. \<^verbatim>\<open>eMBRegFileCB\<close> has no definition in the repository, so
  the file record handlers take it as an argument.
\<close>

section \<open>The code\<close>

record mb_data =
  regs :: mb_regs
  ucMBSlaveID :: buffer
  usMBSlaveIDLen :: u16

definition mb_data_ok :: "mb_data \<Rightarrow> bool" where
  "mb_data_ok d \<longleftrightarrow> mb_regs_ok (regs d) \<and> length (ucMBSlaveID d) = 32 \<and> usMBSlaveIDLen d \<le> 32"

definition mb_data_init :: mb_data where
  "mb_data_init = \<lparr> regs = mb_regs_init, ucMBSlaveID = replicate 32 0, usMBSlaveIDLen = 0 \<rparr>"

type_synonym handler = "buffer \<Rightarrow> u16 \<Rightarrow> mb_data \<Rightarrow> (eMBException \<times> buffer \<times> u16 \<times> mb_data) option"

text \<open>The 16-bit field at \<open>off\<close>: high byte first.\<close>

definition rd16 :: "buffer \<Rightarrow> nat \<Rightarrow> u16 option" where
  "rd16 f off = do { h \<leftarrow> rd f off; l \<leftarrow> rd f (off + 1); Some (be16 h l) }"

text \<open>The number of bytes that hold \<open>n\<close> bits, as an \<^verbatim>\<open>UCHAR\<close>.\<close>

definition bit_bytes :: "u16 \<Rightarrow> u8" where
  "bit_bytes n = (if n AND 0x0007 \<noteq> 0 then ucast (n div 8 + 1) else ucast (n div 8))"

definition eMBFuncReadCoils :: handler where
  "eMBFuncReadCoils pucFrame usLen d =
     (if usLen = 4 + 1 then do {
        a \<leftarrow> rd16 pucFrame 1;
        let usRegAddress = a + 1;
        usCoilCount \<leftarrow> rd16 pucFrame 3;
        if usCoilCount \<ge> 1 \<and> usCoilCount < 0x07D0 then do {
          f \<leftarrow> wr pucFrame 0 MB_FUNC_READ_COILS;
          let ucNBytes = bit_bytes usCoilCount;
          f \<leftarrow> wr f 1 ucNBytes;
          (eRegStatus, f, r) \<leftarrow> eMBRegCoilsCB (regs d) f 2 usRegAddress usCoilCount MB_REG_READ;
          if eRegStatus \<noteq> MB_ENOERR
          then Some (prveMBError2Exception eRegStatus, f, 2, d\<lparr>regs := r\<rparr>)
          else Some (MB_EX_NONE, f, 2 + ucast ucNBytes, d\<lparr>regs := r\<rparr>)
        }
        else Some (MB_EX_ILLEGAL_DATA_VALUE, pucFrame, usLen, d)
      }
      else Some (MB_EX_ILLEGAL_DATA_VALUE, pucFrame, usLen, d))"

definition eMBFuncWriteCoil :: handler where
  "eMBFuncWriteCoil pucFrame usLen d =
     (if usLen = 4 + 1 then do {
        a \<leftarrow> rd16 pucFrame 1;
        let usRegAddress = a + 1;
        v1 \<leftarrow> rd pucFrame 4;
        v0 \<leftarrow> rd pucFrame 3;
        if v1 = 0x00 \<and> (v0 = 0xFF \<or> v0 = 0x00) then do {
          let ucBuf = [if v0 = 0xFF then 1 else 0, 0];
          (eRegStatus, _, r) \<leftarrow> eMBRegCoilsCB (regs d) ucBuf 0 usRegAddress 1 MB_REG_WRITE;
          if eRegStatus \<noteq> MB_ENOERR
          then Some (prveMBError2Exception eRegStatus, pucFrame, usLen, d\<lparr>regs := r\<rparr>)
          else Some (MB_EX_NONE, pucFrame, usLen, d\<lparr>regs := r\<rparr>)
        }
        else Some (MB_EX_ILLEGAL_DATA_VALUE, pucFrame, usLen, d)
      }
      else Some (MB_EX_ILLEGAL_DATA_VALUE, pucFrame, usLen, d))"

definition eMBFuncWriteMultipleCoils :: handler where
  "eMBFuncWriteMultipleCoils pucFrame usLen d =
     (if usLen > 4 + 1 then do {
        a \<leftarrow> rd16 pucFrame 1;
        let usRegAddress = a + 1;
        usCoilCnt \<leftarrow> rd16 pucFrame 3;
        ucByteCount \<leftarrow> rd pucFrame 5;
        let ucByteCountVerify = bit_bytes usCoilCnt;
        if usCoilCnt \<ge> 1 \<and> usCoilCnt \<le> 0x07B0 \<and> ucByteCountVerify = ucByteCount then do {
          (eRegStatus, f, r) \<leftarrow> eMBRegCoilsCB (regs d) pucFrame 6 usRegAddress usCoilCnt MB_REG_WRITE;
          if eRegStatus \<noteq> MB_ENOERR
          then Some (prveMBError2Exception eRegStatus, f, usLen, d\<lparr>regs := r\<rparr>)
          else Some (MB_EX_NONE, f, 5, d\<lparr>regs := r\<rparr>)
        }
        else Some (MB_EX_ILLEGAL_DATA_VALUE, pucFrame, usLen, d)
      }
      else Some (MB_EX_ILLEGAL_DATA_VALUE, pucFrame, usLen, d))"

definition eMBFuncReadDiscreteInputs :: handler where
  "eMBFuncReadDiscreteInputs pucFrame usLen d =
     (if usLen = 4 + 1 then do {
        a \<leftarrow> rd16 pucFrame 1;
        let usRegAddress = a + 1;
        usDiscreteCnt \<leftarrow> rd16 pucFrame 3;
        if usDiscreteCnt \<ge> 1 \<and> usDiscreteCnt < 0x07D0 then do {
          f \<leftarrow> wr pucFrame 0 MB_FUNC_READ_DISCRETE_INPUTS;
          let ucNBytes = bit_bytes usDiscreteCnt;
          f \<leftarrow> wr f 1 ucNBytes;
          (eRegStatus, f, r) \<leftarrow> eMBRegDiscreteCB (regs d) f 2 usRegAddress usDiscreteCnt;
          if eRegStatus \<noteq> MB_ENOERR
          then Some (prveMBError2Exception eRegStatus, f, 2, d\<lparr>regs := r\<rparr>)
          else Some (MB_EX_NONE, f, 2 + ucast ucNBytes, d\<lparr>regs := r\<rparr>)
        }
        else Some (MB_EX_ILLEGAL_DATA_VALUE, pucFrame, usLen, d)
      }
      else Some (MB_EX_ILLEGAL_DATA_VALUE, pucFrame, usLen, d))"

definition eMBFuncWriteHoldingRegister :: handler where
  "eMBFuncWriteHoldingRegister pucFrame usLen d =
     (if usLen = 4 + 1 then do {
        a \<leftarrow> rd16 pucFrame 1;
        let usRegAddress = a + 1;
        (eRegStatus, f, r) \<leftarrow> eMBRegHoldingCB (regs d) pucFrame 3 usRegAddress 1 MB_REG_WRITE;
        if eRegStatus \<noteq> MB_ENOERR
        then Some (prveMBError2Exception eRegStatus, f, usLen, d\<lparr>regs := r\<rparr>)
        else Some (MB_EX_NONE, f, usLen, d\<lparr>regs := r\<rparr>)
      }
      else Some (MB_EX_ILLEGAL_DATA_VALUE, pucFrame, usLen, d))"

definition eMBFuncWriteMultipleHoldingRegister :: handler where
  "eMBFuncWriteMultipleHoldingRegister pucFrame usLen d =
     (if usLen \<ge> 5 + 1 then do {
        a \<leftarrow> rd16 pucFrame 1;
        let usRegAddress = a + 1;
        usRegCount \<leftarrow> rd16 pucFrame 3;
        ucRegByteCount \<leftarrow> rd pucFrame 5;
        if usRegCount \<ge> 1 \<and> usRegCount \<le> 0x0078 \<and> ucRegByteCount = ucast (2 * usRegCount) \<and>
           ucRegByteCount = ucast (usLen - 1 - 5) then do {
          (eRegStatus, f, r) \<leftarrow> eMBRegHoldingCB (regs d) pucFrame 6 usRegAddress usRegCount MB_REG_WRITE;
          if eRegStatus \<noteq> MB_ENOERR
          then Some (prveMBError2Exception eRegStatus, f, usLen, d\<lparr>regs := r\<rparr>)
          else Some (MB_EX_NONE, f, 5, d\<lparr>regs := r\<rparr>)
        }
        else Some (MB_EX_ILLEGAL_DATA_VALUE, pucFrame, usLen, d)
      }
      else Some (MB_EX_ILLEGAL_DATA_VALUE, pucFrame, usLen, d))"

definition eMBFuncReadHoldingRegister :: handler where
  "eMBFuncReadHoldingRegister pucFrame usLen d =
     (if usLen = 4 + 1 then do {
        a \<leftarrow> rd16 pucFrame 1;
        let usRegAddress = a + 1;
        usRegCount \<leftarrow> rd16 pucFrame 3;
        if usRegCount \<ge> 1 \<and> usRegCount \<le> 0x007D then do {
          f \<leftarrow> wr pucFrame 0 MB_FUNC_READ_HOLDING_REGISTER;
          f \<leftarrow> wr f 1 (ucast (usRegCount * 2));
          (eRegStatus, f, r) \<leftarrow> eMBRegHoldingCB (regs d) f 2 usRegAddress usRegCount MB_REG_READ;
          if eRegStatus \<noteq> MB_ENOERR
          then Some (prveMBError2Exception eRegStatus, f, 2, d\<lparr>regs := r\<rparr>)
          else Some (MB_EX_NONE, f, 2 + usRegCount * 2, d\<lparr>regs := r\<rparr>)
        }
        else Some (MB_EX_ILLEGAL_DATA_VALUE, pucFrame, usLen, d)
      }
      else Some (MB_EX_ILLEGAL_DATA_VALUE, pucFrame, usLen, d))"

definition eMBFuncReadWriteMultipleHoldingRegister :: handler where
  "eMBFuncReadWriteMultipleHoldingRegister pucFrame usLen d =
     (if usLen \<ge> 9 + 1 then do {
        ra \<leftarrow> rd16 pucFrame 1;
        let usRegReadAddress = ra + 1;
        usRegReadCount \<leftarrow> rd16 pucFrame 3;
        wa \<leftarrow> rd16 pucFrame 5;
        let usRegWriteAddress = wa + 1;
        usRegWriteCount \<leftarrow> rd16 pucFrame 7;
        ucRegWriteByteCount \<leftarrow> rd pucFrame 9;
        if usRegReadCount \<ge> 1 \<and> usRegReadCount \<le> 0x7D \<and> usRegWriteCount \<ge> 1 \<and> usRegWriteCount \<le> 0x79 \<and>
           2 * unat usRegWriteCount = unat ucRegWriteByteCount then do {
          (eRegStatus, f, r) \<leftarrow>
             eMBRegHoldingCB (regs d) pucFrame 10 usRegWriteAddress usRegWriteCount MB_REG_WRITE;
          if eRegStatus = MB_ENOERR then do {
            f \<leftarrow> wr f 0 MB_FUNC_READWRITE_MULTIPLE_REGISTERS;
            f \<leftarrow> wr f 1 (ucast (usRegReadCount * 2));
            (eRegStatus, f, r) \<leftarrow> eMBRegHoldingCB r f 2 usRegReadAddress usRegReadCount MB_REG_READ;
            if eRegStatus = MB_ENOERR
            then Some (MB_EX_NONE, f, 2 + 2 * usRegReadCount, d\<lparr>regs := r\<rparr>)
            else Some (prveMBError2Exception eRegStatus, f, 2, d\<lparr>regs := r\<rparr>)
          }
          else Some (prveMBError2Exception eRegStatus, f, usLen, d\<lparr>regs := r\<rparr>)
        }
        else Some (MB_EX_ILLEGAL_DATA_VALUE, pucFrame, usLen, d)
      }
      else Some (MB_EX_NONE, pucFrame, usLen, d))"

definition eMBFuncReadInputRegister :: handler where
  "eMBFuncReadInputRegister pucFrame usLen d =
     (if usLen = 4 + 1 then do {
        a \<leftarrow> rd16 pucFrame 1;
        let usRegAddress = a + 1;
        usRegCount \<leftarrow> rd16 pucFrame 3;
        if usRegCount \<ge> 1 \<and> usRegCount < 0x007D then do {
          f \<leftarrow> wr pucFrame 0 MB_FUNC_READ_INPUT_REGISTER;
          f \<leftarrow> wr f 1 (ucast (usRegCount * 2));
          (eRegStatus, f, r) \<leftarrow> eMBRegInputCB (regs d) f 2 usRegAddress usRegCount;
          if eRegStatus \<noteq> MB_ENOERR
          then Some (prveMBError2Exception eRegStatus, f, 2, d\<lparr>regs := r\<rparr>)
          else Some (MB_EX_NONE, f, 2 + usRegCount * 2, d\<lparr>regs := r\<rparr>)
        }
        else Some (MB_EX_ILLEGAL_DATA_VALUE, pucFrame, usLen, d)
      }
      else Some (MB_EX_ILLEGAL_DATA_VALUE, pucFrame, usLen, d))"

definition eMBSetSlaveID ::
  "u8 \<Rightarrow> bool \<Rightarrow> buffer \<Rightarrow> u16 \<Rightarrow> mb_data \<Rightarrow> (eMBErrorCode \<times> mb_data) option"
where
  "eMBSetSlaveID ucSlaveID xIsRunning pucAdditional usAdditionalLen d =
     (if unat usAdditionalLen + 2 \<le> 32 then do {
        s \<leftarrow> wr (ucMBSlaveID d) 0 ucSlaveID;
        s \<leftarrow> wr s 1 (if xIsRunning then 0xFF else 0x00);
        if usAdditionalLen > 0 then do {
          s \<leftarrow> memcpy s 2 pucAdditional 0 (unat usAdditionalLen);
          Some (MB_ENOERR, d\<lparr>ucMBSlaveID := s, usMBSlaveIDLen := 2 + usAdditionalLen\<rparr>)
        }
        else Some (MB_ENOERR, d\<lparr>ucMBSlaveID := s, usMBSlaveIDLen := 2\<rparr>)
      }
      else Some (MB_ENORES, d))"

definition eMBFuncReportSlaveID :: handler where
  "eMBFuncReportSlaveID pucFrame usLen d = do {
     f \<leftarrow> memcpy pucFrame 1 (ucMBSlaveID d) 0 (unat (usMBSlaveIDLen d));
     Some (MB_EX_NONE, f, 1 + usMBSlaveIDLen d, d)
   }"

type_synonym 's file_cb =
  "'s \<Rightarrow> buffer \<Rightarrow> nat \<Rightarrow> u16 \<Rightarrow> u16 \<Rightarrow> u16 \<Rightarrow> eMBRegisterMode \<Rightarrow> (eMBErrorCode \<times> buffer \<times> 's) option"

definition eMBFuncWriteFileRecord ::
  "'s file_cb \<Rightarrow> buffer \<Rightarrow> u16 \<Rightarrow> 's \<Rightarrow> (eMBException \<times> buffer \<times> u16 \<times> 's) option"
where
  "eMBFuncWriteFileRecord eMBRegFileCB pucFrame usLen s =
     (if usLen \<ge> 9 then do {
        ucFrameLen \<leftarrow> rd pucFrame 1;
        ucRefType \<leftarrow> rd pucFrame 2;
        usFileNum \<leftarrow> rd16 pucFrame 3;
        usFileRec \<leftarrow> rd16 pucFrame 5;
        usFileRecLen \<leftarrow> rd16 pucFrame 7;
        let usFileByteLen = usFileRecLen * 2;
        if usFileByteLen \<le> 246 \<and> unat ucFrameLen = 7 + unat usFileByteLen then do {
          (eRegStatus, f, s) \<leftarrow> eMBRegFileCB s pucFrame 9 usFileNum usFileRec usFileRecLen MB_REG_WRITE;
          if eRegStatus = MB_ENOERR then Some (MB_EX_NONE, f, usLen, s)
          else Some (prveMBError2Exception eRegStatus, f, usLen, s)
        }
        else Some (MB_EX_ILLEGAL_DATA_VALUE, pucFrame, usLen, s)
      }
      else Some (MB_EX_ILLEGAL_DATA_VALUE, pucFrame, usLen, s))"

definition eMBFuncReadFileRecord ::
  "'s file_cb \<Rightarrow> buffer \<Rightarrow> u16 \<Rightarrow> 's \<Rightarrow> (eMBException \<times> buffer \<times> u16 \<times> 's) option"
where
  "eMBFuncReadFileRecord eMBRegFileCB pucFrame usLen s =
     (if usLen = 9 then do {
        ucFrameLen \<leftarrow> rd pucFrame 1;
        ucRefType \<leftarrow> rd pucFrame 2;
        usFileNum \<leftarrow> rd16 pucFrame 3;
        usFileRec \<leftarrow> rd16 pucFrame 5;
        usFileRecLen \<leftarrow> rd16 pucFrame 7;
        let usFileByteLen = usFileRecLen * 2;
        if usFileByteLen \<le> 246 \<and> ucFrameLen = 7 then do {
          (eRegStatus, f, s) \<leftarrow> eMBRegFileCB s pucFrame 4 usFileNum usFileRec usFileRecLen MB_REG_READ;
          if eRegStatus = MB_ENOERR then do {
            f \<leftarrow> wr f 1 (2 + ucast usFileByteLen);
            f \<leftarrow> wr f 2 (1 + ucast usFileByteLen);
            f \<leftarrow> wr f 3 ucRefType;
            Some (MB_EX_NONE, f, 4 + usFileByteLen, s)
          }
          else Some (prveMBError2Exception eRegStatus, f, usLen, s)
        }
        else Some (MB_EX_ILLEGAL_DATA_VALUE, pucFrame, usLen, s)
      }
      else Some (MB_EX_ILLEGAL_DATA_VALUE, pucFrame, usLen, s))"

section \<open>Fields of a request\<close>

lemma rd16_in [checked]: "off + 1 < length f \<Longrightarrow> rd16 f off = Some (be16 (f ! off) (f ! (off + 1)))"
  by (simp add: rd16_def)

lemma rd16_1 [checked, simp]: "2 < length f \<Longrightarrow> rd16 f (Suc 0) = Some (be16 (f ! 1) (f ! 2))"
  using rd16_in[of 1 f] by (simp add: numeral_2_eq_2)

lemma rd16_numeral [checked, simp]:
  "numeral k + 1 < length f \<Longrightarrow> rd16 f (numeral k) = Some (be16 (f ! numeral k) (f ! (numeral k + 1)))"
  by (simp add: rd16_in)

lemma and_7: "unat (n AND 7) = unat n mod 8" for n :: u16
proof -
  have "n AND 7 = take_bit 3 n" by (simp add: take_bit_eq_mask mask_eq_exp_minus_1)
  then show ?thesis by (simp add: take_bit_eq_mod unat_mod)
qed

lemma bit_bytes_val:
  assumes "unat n < 2040"
  shows "unat (bit_bytes n) = (unat n + 7) div 8"
proof -
  have d: "unat (n div 8) = unat n div 8" by (simp add: unat_div)
  have s: "unat (n div 8 + 1) = unat n div 8 + 1"
    using assms by (subst unat_word_ariths) (simp add: d)
  have z: "n AND 7 = 0 \<longleftrightarrow> unat n mod 8 = 0" by (metis and_7 unat_0 word_unat_eq_iff)
  have "unat (bit_bytes n) = (if unat n mod 8 = 0 then unat n div 8 else unat n div 8 + 1)"
    using assms by (simp add: bit_bytes_def z s d unsigned_ucast_eq take_bit_eq_mod)
  also have "\<dots> = (unat n + 7) div 8" by presburger
  finally show ?thesis .
qed

lemma unat_add_small:
  fixes a b :: "'a::len word"
  assumes "unat a + unat b < 2 ^ LENGTH('a)"
  shows "unat (a + b) = unat a + unat b"
  using assms by (simp add: unat_word_ariths)

section \<open>Every handler returns\<close>

text \<open>
  What the dispatcher of \<^verbatim>\<open>mb.c\<close> relies on when it calls a handler through its table: on a frame of
  the receive buffer's size and a request length the RTU layer can deliver, the handler returns
  (so it stays inside the frame and the banks), the frame keeps its size, the response fits into
  a PDU, and the banks and the slave ID keep their well-formedness.
\<close>

abbreviation (input) FRAME_SIZE :: nat where "FRAME_SIZE \<equiv> 255"

definition pdu_len_ok :: "u16 \<Rightarrow> bool" where
  "pdu_len_ok n \<longleftrightarrow> MB_PDU_SIZE_MIN \<le> unat n \<and> unat n \<le> MB_PDU_SIZE_MAX"

definition handler_safe :: "(eMBException \<times> buffer \<times> u16 \<times> mb_data) option \<Rightarrow> bool" where
  "handler_safe r = (case r of None \<Rightarrow> False
     | Some (e, f, n, d) \<Rightarrow> length f = FRAME_SIZE \<and> pdu_len_ok n \<and> mb_data_ok d)"

locale mb_handler =
  fixes h :: handler
  assumes safe: "length f = FRAME_SIZE \<Longrightarrow> pdu_len_ok n \<Longrightarrow> mb_data_ok d \<Longrightarrow> handler_safe (h f n d)"
begin

lemma returns:
  assumes "length f = FRAME_SIZE" "pdu_len_ok n" "mb_data_ok d"
  obtains e f' n' d' where "h f n d = Some (e, f', n', d')" "length f' = FRAME_SIZE"
    "pdu_len_ok n'" "mb_data_ok d'"
  using safe[OF assms] by (auto simp: handler_safe_def split: option.splits)

end

lemma coils_read_cases:
  assumes "mb_regs_ok r" "off + (unat n + 7) div 8 \<le> length buf"
  obtains b where "eMBRegCoilsCB r buf off a n MB_REG_READ = Some (MB_ENOERR, b, r)" "length b = length buf"
    | "eMBRegCoilsCB r buf off a n MB_REG_READ = Some (MB_ENOREG, buf, r)"
  using coils_read_in[OF assms(1) _ assms(2), of a] coil_bank.read_out[of a n r buf off]
  by (cases "unat a + unat n \<le> MB_COILS_MAX") auto

lemma discrete_read_cases:
  assumes "mb_regs_ok r" "off + (unat n + 7) div 8 \<le> length buf"
  obtains b where "eMBRegDiscreteCB r buf off a n = Some (MB_ENOERR, b, r)" "length b = length buf"
    | "eMBRegDiscreteCB r buf off a n = Some (MB_ENOREG, buf, r)"
  using discrete_read_in[OF assms(1) _ assms(2), of a] discrete_bank.read_out[of a n r buf off]
  by (cases "unat a + unat n \<le> MB_DISCRETE_MAX") auto

lemma coils_write_cases:
  assumes "mb_regs_ok r" "8 * off + unat n \<le> 8 * length buf"
  obtains r' where "eMBRegCoilsCB r buf off a n MB_REG_WRITE = Some (MB_ENOERR, buf, r')" "mb_regs_ok r'"
    | "eMBRegCoilsCB r buf off a n MB_REG_WRITE = Some (MB_ENOREG, buf, r)"
  using coils_write_in[OF assms(1) _ assms(2), of a]
  by (cases "unat a + unat n \<le> MB_COILS_MAX") (auto simp: eMBRegCoilsCB_def)

lemma holding_read_cases:
  assumes "mb_regs_ok r" "off + 2 * unat n \<le> length buf"
  obtains b where "eMBRegHoldingCB r buf off a n MB_REG_READ = Some (MB_ENOERR, b, r)" "length b = length buf"
    | "eMBRegHoldingCB r buf off a n MB_REG_READ = Some (MB_ENOREG, buf, r)"
  using holding_read_in[OF assms(1) _ assms(2), of a] holding_bank.read_out[of a n r buf off]
  by (cases "unat a + unat n \<le> MB_HOLDING_MAX") auto

lemma input_read_cases:
  assumes "mb_regs_ok r" "off + 2 * unat n \<le> length buf"
  obtains b where "eMBRegInputCB r buf off a n = Some (MB_ENOERR, b, r)" "length b = length buf"
    | "eMBRegInputCB r buf off a n = Some (MB_ENOREG, buf, r)"
  using input_read_in[OF assms(1) _ assms(2), of a] input_bank.read_out[of a n r buf off]
  by (cases "unat a + unat n \<le> MB_INPUT_MAX") auto

lemma holding_write_cases:
  assumes "mb_regs_ok r" "off + 2 * unat n \<le> length buf"
  obtains r' where "eMBRegHoldingCB r buf off a n MB_REG_WRITE = Some (MB_ENOERR, buf, r')" "mb_regs_ok r'"
    | "eMBRegHoldingCB r buf off a n MB_REG_WRITE = Some (MB_ENOREG, buf, r)"
  using holding_write_in[OF assms(1) _ assms(2), of a]
  by (cases "unat a + unat n \<le> MB_HOLDING_MAX") (auto simp: eMBRegHoldingCB_def)

lemmas handler_simps = handler_safe_def mb_data_ok_def pdu_len_ok_def Let_def

lemma bits_reply_len:
  assumes "c < 2000"
  shows "unat (2 + ucast (bit_bytes c) :: u16) = 2 + (unat c + 7) div 8" "2 + (unat c + 7) div 8 \<le> 252"
proof -
  from assms have c: "unat c < 2000" by (simp add: word_less_nat_alt)
  then show "2 + (unat c + 7) div 8 \<le> 252" by simp
  show "unat (2 + ucast (bit_bytes c) :: u16) = 2 + (unat c + 7) div 8"
    using c bit_bytes_val[of c] by (subst unat_add_small) (simp_all add: unsigned_ucast_eq take_bit_eq_mod)
qed

lemma words_reply_len:
  fixes c :: u16
  assumes "c \<le> 125"
  shows "unat (2 + c * 2) = 2 + 2 * unat c" "unat (2 + 2 * c) = 2 + 2 * unat c" "2 + 2 * unat c \<le> 252"
  using assms by (simp_all add: word_le_nat_alt unat_word_ariths)

lemma read_coils_safe:
  assumes "length f = FRAME_SIZE" "pdu_len_ok n" "mb_data_ok d"
  shows "handler_safe (eMBFuncReadCoils f n d)"
proof -
  let ?c = "be16 (f ! 3) (f ! 4)"
  have r: "mb_regs_ok (regs d)" using assms(3) by (simp add: mb_data_ok_def)
  consider "n \<noteq> 5" | "n = 5" "\<not> (1 \<le> ?c \<and> ?c < 2000)" | "n = 5" "1 \<le> ?c" "?c < 2000" by blast
  then show ?thesis
  proof cases
    case 3
    note len = bits_reply_len[OF 3(3)]
    have l: "2 + (unat ?c + 7) div 8 \<le> length (f[0 := 1, 1 := bit_bytes ?c])"
      using assms(1) len(2) by simp
    show ?thesis
      by (rule coils_read_cases[OF r l, of "be16 (f ! 1) (f ! 2) + 1"])
         (use 3 assms len in \<open>simp_all add: eMBFuncReadCoils_def handler_simps\<close>)
  qed (use assms in \<open>auto simp: eMBFuncReadCoils_def handler_simps\<close>)
qed

lemma read_discrete_safe:
  assumes "length f = FRAME_SIZE" "pdu_len_ok n" "mb_data_ok d"
  shows "handler_safe (eMBFuncReadDiscreteInputs f n d)"
proof -
  let ?c = "be16 (f ! 3) (f ! 4)"
  have r: "mb_regs_ok (regs d)" using assms(3) by (simp add: mb_data_ok_def)
  consider "n \<noteq> 5" | "n = 5" "\<not> (1 \<le> ?c \<and> ?c < 2000)" | "n = 5" "1 \<le> ?c" "?c < 2000" by blast
  then show ?thesis
  proof cases
    case 3
    note len = bits_reply_len[OF 3(3)]
    have l: "2 + (unat ?c + 7) div 8 \<le> length (f[0 := 2, 1 := bit_bytes ?c])"
      using assms(1) len(2) by simp
    show ?thesis
      by (rule discrete_read_cases[OF r l, of "be16 (f ! 1) (f ! 2) + 1"])
         (use 3 assms len in \<open>simp_all add: eMBFuncReadDiscreteInputs_def handler_simps\<close>)
  qed (use assms in \<open>auto simp: eMBFuncReadDiscreteInputs_def handler_simps\<close>)
qed

lemma read_holding_safe:
  assumes "length f = FRAME_SIZE" "pdu_len_ok n" "mb_data_ok d"
  shows "handler_safe (eMBFuncReadHoldingRegister f n d)"
proof -
  let ?c = "be16 (f ! 3) (f ! 4)"
  have r: "mb_regs_ok (regs d)" using assms(3) by (simp add: mb_data_ok_def)
  consider "n \<noteq> 5" | "n = 5" "\<not> (1 \<le> ?c \<and> ?c \<le> 125)" | "n = 5" "1 \<le> ?c" "?c \<le> 125" by blast
  then show ?thesis
  proof cases
    case 3
    note len = words_reply_len[OF 3(3)]
    have l: "2 + 2 * unat ?c \<le> length (f[0 := 3, 1 := ucast (?c * 2)])"
      using assms(1) len(3) by simp
    show ?thesis
      by (rule holding_read_cases[OF r l, of "be16 (f ! 1) (f ! 2) + 1"])
         (use 3 assms len in \<open>simp_all add: eMBFuncReadHoldingRegister_def handler_simps\<close>)
  qed (use assms in \<open>auto simp: eMBFuncReadHoldingRegister_def handler_simps\<close>)
qed

lemma read_input_safe:
  assumes "length f = FRAME_SIZE" "pdu_len_ok n" "mb_data_ok d"
  shows "handler_safe (eMBFuncReadInputRegister f n d)"
proof -
  let ?c = "be16 (f ! 3) (f ! 4)"
  have r: "mb_regs_ok (regs d)" using assms(3) by (simp add: mb_data_ok_def)
  consider "n \<noteq> 5" | "n = 5" "\<not> (1 \<le> ?c \<and> ?c < 125)" | "n = 5" "1 \<le> ?c" "?c < 125" by blast
  then show ?thesis
  proof cases
    case 3
    from 3(3) have "?c \<le> 125" by simp
    note len = words_reply_len[OF this]
    have l: "2 + 2 * unat ?c \<le> length (f[0 := 4, 1 := ucast (?c * 2)])"
      using assms(1) len(3) by simp
    show ?thesis
      by (rule input_read_cases[OF r l, of "be16 (f ! 1) (f ! 2) + 1"])
         (use 3 assms len in \<open>simp_all add: eMBFuncReadInputRegister_def handler_simps\<close>)
  qed (use assms in \<open>auto simp: eMBFuncReadInputRegister_def handler_simps\<close>)
qed

lemma write_coil_safe:
  assumes "length f = FRAME_SIZE" "pdu_len_ok n" "mb_data_ok d"
  shows "handler_safe (eMBFuncWriteCoil f n d)"
proof -
  let ?b = "[if f ! 3 = 0xFF then 1 else 0, 0 :: u8]"
  have r: "mb_regs_ok (regs d)" using assms(3) by (simp add: mb_data_ok_def)
  consider "n \<noteq> 5 \<or> \<not> (f ! 4 = 0 \<and> (f ! 3 = 0xFF \<or> f ! 3 = 0))"
    | "n = 5" "f ! 4 = 0" "f ! 3 = 0xFF \<or> f ! 3 = 0" by blast
  then show ?thesis
  proof cases
    case 2
    have l: "8 * 0 + unat (1 :: u16) \<le> 8 * length ?b" by simp
    show ?thesis
      by (rule coils_write_cases[OF r l, of "be16 (f ! 1) (f ! 2) + 1"])
         (use 2 assms in \<open>simp_all add: eMBFuncWriteCoil_def handler_simps\<close>)
  qed (use assms in \<open>auto simp: eMBFuncWriteCoil_def handler_simps\<close>)
qed

lemma write_coils_safe:
  assumes "length f = FRAME_SIZE" "pdu_len_ok n" "mb_data_ok d"
  shows "handler_safe (eMBFuncWriteMultipleCoils f n d)"
proof -
  let ?c = "be16 (f ! 3) (f ! 4)"
  have r: "mb_regs_ok (regs d)" using assms(3) by (simp add: mb_data_ok_def)
  consider "\<not> n > 5 \<or> \<not> (1 \<le> ?c \<and> ?c \<le> 1968 \<and> bit_bytes ?c = f ! 5)"
    | "n > 5" "1 \<le> ?c" "?c \<le> 1968" "bit_bytes ?c = f ! 5" by blast
  then show ?thesis
  proof cases
    case 2
    have l: "8 * 6 + unat ?c \<le> 8 * length f" using assms(1) 2(3) by (simp add: word_le_nat_alt)
    show ?thesis
      by (rule coils_write_cases[OF r l, of "be16 (f ! 1) (f ! 2) + 1"])
         (use 2 assms in \<open>simp_all add: eMBFuncWriteMultipleCoils_def handler_simps\<close>)
  qed (use assms in \<open>auto simp: eMBFuncWriteMultipleCoils_def handler_simps\<close>)
qed

lemma write_holding_safe:
  assumes "length f = FRAME_SIZE" "pdu_len_ok n" "mb_data_ok d"
  shows "handler_safe (eMBFuncWriteHoldingRegister f n d)"
proof (cases "n = 5")
  case True
  have r: "mb_regs_ok (regs d)" using assms(3) by (simp add: mb_data_ok_def)
  have l: "3 + 2 * unat (1 :: u16) \<le> length f" using assms(1) by simp
  show ?thesis
    by (rule holding_write_cases[OF r l, of "be16 (f ! 1) (f ! 2) + 1"])
       (use True assms in \<open>simp_all add: eMBFuncWriteHoldingRegister_def handler_simps\<close>)
qed (use assms in \<open>auto simp: eMBFuncWriteHoldingRegister_def handler_simps\<close>)

lemma write_multiple_holding_safe:
  assumes "length f = FRAME_SIZE" "pdu_len_ok n" "mb_data_ok d"
  shows "handler_safe (eMBFuncWriteMultipleHoldingRegister f n d)"
proof -
  let ?c = "be16 (f ! 3) (f ! 4)"
  let ?g = "1 \<le> ?c \<and> ?c \<le> 120 \<and> f ! 5 = ucast (2 * ?c) \<and> f ! 5 = ucast (n - 1 - 5)"
  have r: "mb_regs_ok (regs d)" using assms(3) by (simp add: mb_data_ok_def)
  consider "\<not> n \<ge> 6 \<or> \<not> ?g" | "n \<ge> 6" "?g" by blast
  then show ?thesis
  proof cases
    case 2
    have l: "6 + 2 * unat ?c \<le> length f" using assms(1) 2(2) by (simp add: word_le_nat_alt)
    show ?thesis
      by (rule holding_write_cases[OF r l, of "be16 (f ! 1) (f ! 2) + 1"])
         (use 2 assms in \<open>simp_all add: eMBFuncWriteMultipleHoldingRegister_def handler_simps\<close>)
  qed (use assms in \<open>auto simp: eMBFuncWriteMultipleHoldingRegister_def handler_simps\<close>)
qed

lemma readwrite_safe:
  assumes "length f = FRAME_SIZE" "pdu_len_ok n" "mb_data_ok d"
  shows "handler_safe (eMBFuncReadWriteMultipleHoldingRegister f n d)"
proof -
  let ?rc = "be16 (f ! 3) (f ! 4)" and ?wc = "be16 (f ! 7) (f ! 8)"
  let ?g = "1 \<le> ?rc \<and> ?rc \<le> 125 \<and> 1 \<le> ?wc \<and> ?wc \<le> 121 \<and> 2 * unat ?wc = unat (f ! 9)"
  have r: "mb_regs_ok (regs d)" using assms(3) by (simp add: mb_data_ok_def)
  consider "\<not> n \<ge> 10 \<or> \<not> ?g" | "n \<ge> 10" "?g" by blast
  then show ?thesis
  proof cases
    case 2
    then have rc: "?rc \<le> 125" by simp
    note len = words_reply_len[OF rc]
    let ?f = "f[0 := 23, 1 := ucast (?rc * 2)]"
    have lw: "10 + 2 * unat ?wc \<le> length f" using assms(1) 2(2) by (simp add: word_le_nat_alt)
    have lr: "2 + 2 * unat ?rc \<le> length ?f" using assms(1) len(3) by simp
    show ?thesis
    proof (rule holding_write_cases[OF r lw, of "be16 (f ! 5) (f ! 6) + 1"])
      fix r' assume w: "eMBRegHoldingCB (regs d) f 10 (be16 (f ! 5) (f ! 6) + 1) ?wc MB_REG_WRITE =
          Some (MB_ENOERR, f, r')" "mb_regs_ok r'"
      show ?thesis
        by (rule holding_read_cases[OF w(2) lr, of "be16 (f ! 1) (f ! 2) + 1"])
           (use 2 assms len w in
             \<open>simp_all add: eMBFuncReadWriteMultipleHoldingRegister_def handler_simps\<close>)
    qed (use 2 assms in \<open>simp_all add: eMBFuncReadWriteMultipleHoldingRegister_def handler_simps\<close>)
  qed (use assms in \<open>auto simp: eMBFuncReadWriteMultipleHoldingRegister_def handler_simps\<close>)
qed

lemma report_slave_id_val:
  assumes "length f = FRAME_SIZE" "mb_data_ok d"
  shows "eMBFuncReportSlaveID f n d = Some (MB_EX_NONE,
    take 1 f @ take (unat (usMBSlaveIDLen d)) (ucMBSlaveID d) @ drop (1 + unat (usMBSlaveIDLen d)) f,
    1 + usMBSlaveIDLen d, d)"
  using assms by (simp add: eMBFuncReportSlaveID_def memcpy_def mb_data_ok_def word_le_nat_alt)

lemma report_slave_id_safe:
  assumes "length f = FRAME_SIZE" "pdu_len_ok n" "mb_data_ok d"
  shows "handler_safe (eMBFuncReportSlaveID f n d)"
proof -
  have l: "unat (usMBSlaveIDLen d) \<le> 32" using assms(3) by (simp add: mb_data_ok_def word_le_nat_alt)
  then have "unat (1 + usMBSlaveIDLen d) = 1 + unat (usMBSlaveIDLen d)"
    by (subst unat_add_small) simp_all
  with l show ?thesis using assms by (simp add: report_slave_id_val handler_simps)
qed

interpretation ReadCoils: mb_handler eMBFuncReadCoils by unfold_locales (rule read_coils_safe)
interpretation WriteCoil: mb_handler eMBFuncWriteCoil by unfold_locales (rule write_coil_safe)
interpretation WriteMultipleCoils: mb_handler eMBFuncWriteMultipleCoils
  by unfold_locales (rule write_coils_safe)
interpretation ReadDiscreteInputs: mb_handler eMBFuncReadDiscreteInputs
  by unfold_locales (rule read_discrete_safe)
interpretation WriteHoldingRegister: mb_handler eMBFuncWriteHoldingRegister
  by unfold_locales (rule write_holding_safe)
interpretation WriteMultipleHoldingRegister: mb_handler eMBFuncWriteMultipleHoldingRegister
  by unfold_locales (rule write_multiple_holding_safe)
interpretation ReadHoldingRegister: mb_handler eMBFuncReadHoldingRegister
  by unfold_locales (rule read_holding_safe)
interpretation ReadWriteMultiple: mb_handler eMBFuncReadWriteMultipleHoldingRegister
  by unfold_locales (rule readwrite_safe)
interpretation ReadInputRegister: mb_handler eMBFuncReadInputRegister
  by unfold_locales (rule read_input_safe)
interpretation ReportSlaveID: mb_handler eMBFuncReportSlaveID
  by unfold_locales (rule report_slave_id_safe)

section \<open>What the handlers compute\<close>

text \<open>A request PDU with two 16-bit fields in front of \<open>rest\<close>, padded to the receive buffer.\<close>

definition pdu2 :: "u8 \<Rightarrow> u16 \<Rightarrow> u16 \<Rightarrow> buffer \<Rightarrow> buffer" where
  "pdu2 fc a b rest = [fc, hi8 a, lo8 a, hi8 b, lo8 b] @ rest"

lemma pdu2_nth [simp]:
  "pdu2 fc a b rest ! 0 = fc" "pdu2 fc a b rest ! Suc 0 = hi8 a" "pdu2 fc a b rest ! 2 = lo8 a"
  "pdu2 fc a b rest ! 3 = hi8 b" "pdu2 fc a b rest ! 4 = lo8 b" "pdu2 fc a b rest ! 5 = rest ! 0"
  "pdu2 fc a b rest ! (5 + k) = rest ! k" "length (pdu2 fc a b rest) = 5 + length rest"
  by (simp_all add: pdu2_def nth_append numeral_2_eq_2 numeral_3_eq_3 eval_nat_numeral(2,3))

text \<open>
  \<^verbatim>\<open>eMBFuncReadHoldingRegister\<close> on a well-formed request (length 5, 1 to 125 registers): when the
  registers \<open>usAddress + 1 ..\<close> (the sum taken in 16 bits) lie inside the bank, the response is the
  function code, the byte count and the registers high byte first, nothing else changes and
  the length is \<open>2 + 2 n\<close>; otherwise it is the illegal-data-address exception. No register is
  changed in either case.
\<close>

theorem read_holding_functional:
  assumes "mb_data_ok d" "length rest = 250" "1 \<le> n" "n \<le> 125"
  shows "\<exists>f' len'.
    (if unat (a + 1) + unat n \<le> MB_HOLDING_MAX
     then eMBFuncReadHoldingRegister (pdu2 fc a n rest) 5 d = Some (MB_EX_NONE, f', len', d) \<and>
       unat len' = 2 + 2 * unat n \<and> f' ! 0 = MB_FUNC_READ_HOLDING_REGISTER \<and>
       unat (f' ! 1) = 2 * unat n \<and>
       (\<forall>i < unat n. be16 (f' ! (2 + 2 * i)) (f' ! (2 + 2 * i + 1)) =
          holding_regs (regs d) ! (unat (a + 1) + i))
     else eMBFuncReadHoldingRegister (pdu2 fc a n rest) 5 d =
       Some (MB_EX_ILLEGAL_DATA_ADDRESS, f', len', d))"
proof -
  let ?f = "(pdu2 fc a n rest)[0 := 3, 1 := ucast (n * 2)]"
  have r: "mb_regs_ok (regs d)" using assms(1) by (simp add: mb_data_ok_def)
  note len = words_reply_len[OF assms(4)]
  have l: "2 + 2 * unat n \<le> length ?f" using assms(2) len(3) by simp
  have b: "unat (ucast (n * 2) :: u8) = 2 * unat n"
    using assms(4) by (simp add: word_le_nat_alt unsigned_ucast_eq take_bit_eq_mod unat_word_ariths)
  show ?thesis
  proof (cases "unat (a + 1) + unat n \<le> MB_HOLDING_MAX")
    case True
    obtain f' where f': "eMBRegHoldingCB (regs d) ?f 2 (a + 1) n MB_REG_READ = Some (MB_ENOERR, f', regs d)"
      "\<forall>i < unat n. be16 (f' ! (2 + 2 * i)) (f' ! (2 + 2 * i + 1)) =
          holding_regs (regs d) ! (unat (a + 1) + i)"
      "f' ! 0 = ?f ! 0" "f' ! 1 = ?f ! 1"
      using holding_read_in[OF r True l] by fastforce
    show ?thesis unfolding if_P[OF True]
      by (rule exI[of _ f'], rule exI[of _ "2 + n * 2"])
         (use assms f' len b in \<open>simp add: eMBFuncReadHoldingRegister_def Let_def\<close>)
  next
    case False
    then have "eMBRegHoldingCB (regs d) ?f 2 (a + 1) n MB_REG_READ = Some (MB_ENOREG, ?f, regs d)"
      using holding_bank.read_out[of "a + 1" n] by simp
    with False show ?thesis
      using assms by (simp add: eMBFuncReadHoldingRegister_def Let_def)
  qed
qed

theorem read_holding_functional_witness:
  "\<exists>f' len'. eMBFuncReadHoldingRegister (pdu2 3 9 2 (replicate 250 0)) 5
      (mb_data_init\<lparr>regs := mb_regs_init\<lparr>holding_regs := (replicate 256 0)[10 := 0x1234]\<rparr>\<rparr>) =
        Some (MB_EX_NONE, f', len',
          mb_data_init\<lparr>regs := mb_regs_init\<lparr>holding_regs := (replicate 256 0)[10 := 0x1234]\<rparr>\<rparr>) \<and>
      unat len' = 6 \<and> be16 (f' ! 2) (f' ! 3) = 0x1234"
proof -
  let ?d = "mb_data_init\<lparr>regs := mb_regs_init\<lparr>holding_regs := (replicate 256 0)[10 := 0x1234]\<rparr>\<rparr>"
  have "mb_data_ok ?d" by (simp add: mb_data_ok_def mb_data_init_def mb_regs_init_def mb_regs_ok_def)
  from read_holding_functional[OF this, of "replicate 250 0" 2 9 3]
  obtain f' len' where "eMBFuncReadHoldingRegister (pdu2 3 9 2 (replicate 250 0)) 5 ?d =
      Some (MB_EX_NONE, f', len', ?d)" "unat len' = 6"
    "\<forall>i < 2. be16 (f' ! (2 + 2 * i)) (f' ! (2 + 2 * i + 1)) = holding_regs (regs ?d) ! (10 + i)"
    by auto
  from this(1,2) this(3)[rule_format, of 0] show ?thesis
    by (intro exI[of _ f'] exI[of _ len']) (simp add: numeral_2_eq_2 numeral_3_eq_3)
qed

lemma write_multiple_holding_effect:
  assumes "mb_data_ok d" "length f = FRAME_SIZE" "be16 (f ! 1) (f ! 2) = a" "be16 (f ! 3) (f ! 4) = n"
    "1 \<le> n" "n \<le> 120" "unat (f ! 5) = 2 * unat n" "unat len = 6 + 2 * unat n"
    "unat (a + 1) + unat n \<le> MB_HOLDING_MAX"
  shows "\<exists>d'. eMBFuncWriteMultipleHoldingRegister f len d = Some (MB_EX_NONE, f, 5, d') \<and> mb_data_ok d' \<and>
    (\<forall>k. holding_regs (regs d') ! k = (if unat (a + 1) \<le> k \<and> k < unat (a + 1) + unat n
       then be16 (f ! (6 + 2 * (k - unat (a + 1)))) (f ! (6 + 2 * (k - unat (a + 1)) + 1))
       else holding_regs (regs d) ! k))"
proof -
  have r: "mb_regs_ok (regs d)" using assms(1) by (simp add: mb_data_ok_def)
  have n: "unat n \<le> 120" using assms(6) by (simp add: word_le_nat_alt)
  have l: "6 + 2 * unat n \<le> length f" using n assms(2) by simp
  have c1: "f ! 5 = ucast (2 * n)"
    using n assms(7) by (simp add: word_unat_eq_iff unsigned_ucast_eq take_bit_eq_mod unat_word_ariths)
  have ge: "6 \<le> len" using assms(8) by (simp add: word_le_nat_alt)
  have "unat (len - 6) = 2 * unat n" using ge assms(8) by (simp add: unat_sub)
  then have c2: "ucast (2 * n) = (ucast (len - 6) :: u8)"
    using n by (simp add: word_unat_eq_iff unsigned_ucast_eq take_bit_eq_mod unat_word_ariths)
  obtain r' where r': "eMBRegHoldingCB (regs d) f 6 (a + 1) n MB_REG_WRITE = Some (MB_ENOERR, f, r')"
    "mb_regs_ok r'" "\<forall>k. holding_regs r' ! k = (if unat (a + 1) \<le> k \<and> k < unat (a + 1) + unat n
       then be16 (f ! (6 + 2 * (k - unat (a + 1)))) (f ! (6 + 2 * (k - unat (a + 1)) + 1))
       else holding_regs (regs d) ! k)"
    using holding_write_in[OF r assms(9) l] by blast
  have "eMBFuncWriteMultipleHoldingRegister f len d = Some (MB_EX_NONE, f, 5, d\<lparr>regs := r'\<rparr>)"
    using assms(2-6) r'(1) ge c1 c2 by (simp add: eMBFuncWriteMultipleHoldingRegister_def Let_def)
  with r' assms(1) show ?thesis by (intro exI[of _ "d\<lparr>regs := r'\<rparr>"]) (simp add: mb_data_ok_def)
qed

text \<open>
  C7. A master that writes up to 120 holding registers with function 16 and then reads the same
  range with function 3 gets back the data bytes it sent, in order: the write is acknowledged with
  the unchanged header of the request (length 5), and byte \<open>j\<close> of the register data of the
  second response is byte \<open>j\<close> of the register data of the first request. No other holding register
  changes.
\<close>

theorem holding_write_read_roundtrip:
  assumes "mb_data_ok d" "length f = FRAME_SIZE" "be16 (f ! 1) (f ! 2) = a" "be16 (f ! 3) (f ! 4) = n"
    "1 \<le> n" "n \<le> 120" "unat (f ! 5) = 2 * unat n" "unat len = 6 + 2 * unat n"
    "unat (a + 1) + unat n \<le> MB_HOLDING_MAX" "length rest = 250"
  shows "\<exists>d' g glen. eMBFuncWriteMultipleHoldingRegister f len d = Some (MB_EX_NONE, f, 5, d') \<and>
    (\<forall>k. k < unat (a + 1) \<or> unat (a + 1) + unat n \<le> k \<longrightarrow>
       holding_regs (regs d') ! k = holding_regs (regs d) ! k) \<and>
    eMBFuncReadHoldingRegister (pdu2 3 a n rest) 5 d' = Some (MB_EX_NONE, g, glen, d') \<and>
    unat glen = 2 + 2 * unat n \<and>
    (\<forall>i < unat n. g ! (2 + 2 * i) = f ! (6 + 2 * i) \<and> g ! (2 + 2 * i + 1) = f ! (6 + 2 * i + 1))"
proof -
  obtain d' where d': "eMBFuncWriteMultipleHoldingRegister f len d = Some (MB_EX_NONE, f, 5, d')" "mb_data_ok d'"
    "\<forall>k. holding_regs (regs d') ! k = (if unat (a + 1) \<le> k \<and> k < unat (a + 1) + unat n
       then be16 (f ! (6 + 2 * (k - unat (a + 1)))) (f ! (6 + 2 * (k - unat (a + 1)) + 1))
       else holding_regs (regs d) ! k)"
    using write_multiple_holding_effect[OF assms(1-9)] by blast
  let ?f = "(pdu2 3 a n rest)[0 := 3, 1 := ucast (n * 2)]"
  have r: "mb_regs_ok (regs d')" using d'(2) by (simp add: mb_data_ok_def)
  have n: "n \<le> 125" using assms(6) by (simp add: word_le_nat_alt)
  note len = words_reply_len[OF this]
  have l: "2 + 2 * unat n \<le> length ?f" using assms(10) len(3) by simp
  obtain g where g: "eMBRegHoldingCB (regs d') ?f 2 (a + 1) n MB_REG_READ = Some (MB_ENOERR, g, regs d')"
    "\<forall>i < unat n. g ! (2 + 2 * i) = hi8 (holding_regs (regs d') ! (unat (a + 1) + i)) \<and>
       g ! (2 + 2 * i + 1) = lo8 (holding_regs (regs d') ! (unat (a + 1) + i))"
    using holding_read_in[OF r assms(9) l] by blast
  have "eMBFuncReadHoldingRegister (pdu2 3 a n rest) 5 d' = Some (MB_EX_NONE, g, 2 + n * 2, d')"
    using assms(5,10) n g(1) by (simp add: eMBFuncReadHoldingRegister_def Let_def)
  with d'(1,3) g(2) len(1) show ?thesis by (intro exI[of _ d'] exI[of _ g] exI[of _ "2 + n * 2"]) simp
qed

theorem holding_write_read_roundtrip_witness:
  "\<exists>d' g glen. eMBFuncWriteMultipleHoldingRegister (pdu2 16 4 1 ([2, 0xAB, 0xCD] @ replicate 247 0)) 8 mb_data_init =
      Some (MB_EX_NONE, pdu2 16 4 1 ([2, 0xAB, 0xCD] @ replicate 247 0), 5, d') \<and>
    eMBFuncReadHoldingRegister (pdu2 3 4 1 (replicate 250 0)) 5 d' = Some (MB_EX_NONE, g, glen, d') \<and>
    g ! 2 = 0xAB \<and> g ! 3 = 0xCD"
proof -
  let ?f = "pdu2 16 4 1 ([2, 0xAB, 0xCD] @ replicate 247 0)"
  have i: "mb_data_ok mb_data_init"
    by (simp add: mb_data_ok_def mb_data_init_def mb_regs_init_def mb_regs_ok_def)
  have f: "?f ! 6 = 0xAB" "?f ! 7 = 0xCD" by (simp_all add: pdu2_def)
  show ?thesis
    using holding_write_read_roundtrip[OF i, of ?f 4 1 8 "replicate 250 0"] f by auto
qed

text \<open>
  The same for coils: after an accepted function-15 request for \<open>n\<close> coils, a function-1 request
  for the same range returns exactly the \<open>n\<close> bits of the request, and the unused bits of the last
  response byte are 0; coils outside the range keep their state.
\<close>

theorem coils_write_read_roundtrip:
  assumes "mb_data_ok d" "length f = FRAME_SIZE" "be16 (f ! 1) (f ! 2) = a" "be16 (f ! 3) (f ! 4) = n"
    "1 \<le> n" "f ! 5 = bit_bytes n" "5 < len" "unat (a + 1) + unat n \<le> MB_COILS_MAX" "length rest = 250"
  shows "\<exists>d' g glen. eMBFuncWriteMultipleCoils f len d = Some (MB_EX_NONE, f, 5, d') \<and>
    (\<forall>k. k < unat (a + 1) \<or> unat (a + 1) + unat n \<le> k \<longrightarrow> coil_bits (regs d') k = coil_bits (regs d) k) \<and>
    eMBFuncReadCoils (pdu2 1 a n rest) 5 d' = Some (MB_EX_NONE, g, glen, d') \<and>
    unat glen = 2 + (unat n + 7) div 8 \<and>
    (\<forall>j < 8 * ((unat n + 7) div 8). bit_at g (16 + j) = (j < unat n \<and> bit_at f (48 + j)))"
proof -
  have r: "mb_regs_ok (regs d)" using assms(1) by (simp add: mb_data_ok_def)
  have n128: "unat n \<le> 128" using assms(8) by simp
  then have n: "n \<le> 1968" "n < 2000" by (simp_all add: word_le_nat_alt word_less_nat_alt)
  note len = bits_reply_len[OF n(2)]
  have lw: "8 * 6 + unat n \<le> 8 * length f" using n128 assms(2) by simp
  obtain r' where r': "eMBRegCoilsCB (regs d) f 6 (a + 1) n MB_REG_WRITE = Some (MB_ENOERR, f, r')" "mb_regs_ok r'"
    "\<And>k. coil_bits r' k = (if unat (a + 1) \<le> k \<and> k < unat (a + 1) + unat n
       then bit_at f (48 + (k - unat (a + 1))) else coil_bits (regs d) k)"
    using coils_write_in[OF r assms(8) lw] by auto
  let ?d = "d\<lparr>regs := r'\<rparr>" and ?f = "(pdu2 1 a n rest)[0 := 1, 1 := bit_bytes n]"
  have w: "eMBFuncWriteMultipleCoils f len d = Some (MB_EX_NONE, f, 5, ?d)"
    using assms(2-7) n r'(1) by (simp add: eMBFuncWriteMultipleCoils_def Let_def)
  have lr: "2 + (unat n + 7) div 8 \<le> length ?f" using assms(9) len(2) by simp
  obtain g where g: "eMBRegCoilsCB r' ?f 2 (a + 1) n MB_REG_READ = Some (MB_ENOERR, g, r')"
    "\<And>k. k < 8 * length ?f \<Longrightarrow> bit_at g k = (if 8 * 2 \<le> k \<and> k < 8 * (2 + (unat n + 7) div 8)
       then k - 8 * 2 < unat n \<and> coil_bits r' (unat (a + 1) + (k - 8 * 2)) else bit_at ?f k)"
    using coils_read_in[OF r'(2) assms(8) lr] by blast
  have "eMBFuncReadCoils (pdu2 1 a n rest) 5 ?d = Some (MB_EX_NONE, g, 2 + ucast (bit_bytes n), ?d)"
    using assms(5,9) n g(1) by (simp add: eMBFuncReadCoils_def Let_def)
  moreover have "bit_at g (16 + j) = (j < unat n \<and> bit_at f (48 + j))" if "j < 8 * ((unat n + 7) div 8)" for j
    using g(2)[of "16 + j"] that lr by (auto simp: r'(3))
  ultimately show ?thesis using w r'(3) len(1)
    by (intro exI[of _ ?d] exI[of _ g] exI[of _ "2 + ucast (bit_bytes n)"]) simp
qed

theorem coils_write_read_roundtrip_witness:
  "\<exists>d' g glen. eMBFuncWriteMultipleCoils (pdu2 15 2 3 ([1, 5] @ replicate 248 0)) 7 mb_data_init =
      Some (MB_EX_NONE, pdu2 15 2 3 ([1, 5] @ replicate 248 0), 5, d') \<and>
    eMBFuncReadCoils (pdu2 1 2 3 (replicate 250 0)) 5 d' = Some (MB_EX_NONE, g, glen, d') \<and>
    bit_at g 16 \<and> \<not> bit_at g 17 \<and> bit_at g 18 \<and> \<not> bit_at g 19"
proof -
  let ?f = "pdu2 15 2 3 ([1, 5] @ replicate 248 0)"
  have i: "mb_data_ok mb_data_init"
    by (simp add: mb_data_ok_def mb_data_init_def mb_regs_init_def mb_regs_ok_def)
  have bb: "bit_bytes 3 = 1" by (simp add: bit_bytes_def)
  have f: "bit_at ?f 48" "\<not> bit_at ?f 49" "bit_at ?f 50" by (simp_all add: pdu2_def bit_at_def)
  from coils_write_read_roundtrip[OF i, of ?f 2 3 7 "replicate 250 0"] bb
  obtain d' g glen where w: "eMBFuncWriteMultipleCoils ?f 7 mb_data_init = Some (MB_EX_NONE, ?f, 5, d')"
    "eMBFuncReadCoils (pdu2 1 2 3 (replicate 250 0)) 5 d' = Some (MB_EX_NONE, g, glen, d')"
    and b: "\<And>j. j < 8 \<Longrightarrow> bit_at g (16 + j) = (j < 3 \<and> bit_at ?f (48 + j))"
    by auto
  show ?thesis using w f b[of 0] b[of 1] b[of 2] b[of 3] by auto
qed

text \<open>
  \<^verbatim>\<open>eMBSetSlaveID\<close> followed by \<^verbatim>\<open>eMBFuncReportSlaveID\<close>: with up to 30 additional bytes the response
  is the function code of the request, the ID, the run indicator and the additional bytes; with extra
  the call is refused with \<open>MB_ENORES\<close> and the stored ID stays.
\<close>

theorem slave_id_roundtrip:
  assumes "mb_data_ok d" "length f = FRAME_SIZE" "unat len \<le> length extra"
  shows "if unat len \<le> 30
    then \<exists>d' g. eMBSetSlaveID sid run extra len d = Some (MB_ENOERR, d') \<and> mb_data_ok d' \<and>
      eMBFuncReportSlaveID f n d' = Some (MB_EX_NONE, g, 3 + len, d') \<and>
      take (3 + unat len) g = [f ! 0, sid, if run then 0xFF else 0] @ take (unat len) extra
    else eMBSetSlaveID sid run extra len d = Some (MB_ENORES, d)"
proof (cases "unat len \<le> 30")
  case True
  let ?s = "[sid, if run then 0xFF else 0] @ take (unat len) extra @ drop (2 + unat len) (ucMBSlaveID d)"
  let ?d = "d\<lparr>ucMBSlaveID := ?s, usMBSlaveIDLen := 2 + len\<rparr>"
  have l: "length (ucMBSlaveID d) = 32" using assms(1) by (simp add: mb_data_ok_def)
  obtain x y xs where xs: "ucMBSlaveID d = x # y # xs"
    using l by (cases "ucMBSlaveID d"; cases "tl (ucMBSlaveID d)") auto
  have z: "len = 0 \<or> 0 < len" by (auto simp: word_less_nat_alt word_unat_eq_iff)
  have s: "eMBSetSlaveID sid run extra len d = Some (MB_ENOERR, ?d)"
    using True z assms(3) l unfolding xs by (auto simp: eMBSetSlaveID_def memcpy_def xs)
  have u: "unat (2 + len) = 2 + unat len" using True by (subst unat_add_small) simp_all
  have ok: "mb_data_ok ?d" using assms True l u by (simp add: mb_data_ok_def word_le_nat_alt)
  have t: "take (3 + unat len) (take 1 f @ take (2 + unat len) ?s @ drop (1 + (2 + unat len)) f) =
      [f ! 0, sid, if run then 0xFF else 0] @ take (unat len) extra"
    using assms(2,3) by (cases f) (simp_all add: numeral_3_eq_3)
  have "eMBFuncReportSlaveID f n ?d = Some (MB_EX_NONE,
      take 1 f @ take (2 + unat len) ?s @ drop (1 + (2 + unat len)) f, 3 + len, ?d)"
    using report_slave_id_val[OF assms(2) ok, of n] by (simp add: u add.assoc[symmetric])
  with t s ok have "\<exists>d' g. eMBSetSlaveID sid run extra len d = Some (MB_ENOERR, d') \<and> mb_data_ok d' \<and>
      eMBFuncReportSlaveID f n d' = Some (MB_EX_NONE, g, 3 + len, d') \<and>
      take (3 + unat len) g = [f ! 0, sid, if run then 0xFF else 0] @ take (unat len) extra"
    by blast
  then show ?thesis unfolding if_P[OF True] .
next
  case False
  then show ?thesis by (simp add: eMBSetSlaveID_def)
qed

theorem slave_id_roundtrip_witness:
  "\<exists>d' g. eMBSetSlaveID 0x34 True [0xAA, 0xBB] 2 mb_data_init = Some (MB_ENOERR, d') \<and>
    eMBFuncReportSlaveID (replicate 255 17) 1 d' = Some (MB_EX_NONE, g, 5, d') \<and>
    take 5 g = [17, 0x34, 0xFF, 0xAA, 0xBB]"
proof -
  have "mb_data_ok mb_data_init"
    by (simp add: mb_data_ok_def mb_data_init_def mb_regs_init_def mb_regs_ok_def)
  from slave_id_roundtrip[OF this, of "replicate 255 17" 2 "[0xAA, 0xBB]" "0x34" True 1]
  show ?thesis by auto
qed

text \<open>
  \<^verbatim>\<open>eMBFuncReadWriteMultipleHoldingRegister\<close> writes before it reads: for an accepted request the
  response carries, for every requested register, the value the request wrote when the register
  is in the write range and the old value otherwise.
\<close>

theorem readwrite_writes_first:
  assumes "mb_data_ok d" "length f = FRAME_SIZE" "10 \<le> len"
    "be16 (f ! 1) (f ! 2) = ra" "be16 (f ! 3) (f ! 4) = rn" "1 \<le> rn" "rn \<le> 125"
    "be16 (f ! 5) (f ! 6) = wa" "be16 (f ! 7) (f ! 8) = wn" "1 \<le> wn" "wn \<le> 121"
    "unat (f ! 9) = 2 * unat wn"
    "unat (ra + 1) + unat rn \<le> MB_HOLDING_MAX" "unat (wa + 1) + unat wn \<le> MB_HOLDING_MAX"
  shows "\<exists>d' g glen. eMBFuncReadWriteMultipleHoldingRegister f len d = Some (MB_EX_NONE, g, glen, d') \<and>
    unat glen = 2 + 2 * unat rn \<and>
    (\<forall>i < unat rn. be16 (g ! (2 + 2 * i)) (g ! (2 + 2 * i + 1)) =
      (let k = unat (ra + 1) + i in
       if unat (wa + 1) \<le> k \<and> k < unat (wa + 1) + unat wn
       then be16 (f ! (10 + 2 * (k - unat (wa + 1)))) (f ! (10 + 2 * (k - unat (wa + 1)) + 1))
       else holding_regs (regs d) ! k))"
proof -
  have r: "mb_regs_ok (regs d)" using assms(1) by (simp add: mb_data_ok_def)
  have lw: "10 + 2 * unat wn \<le> length f" using assms(2,11) by (simp add: word_le_nat_alt)
  note len = words_reply_len[OF assms(7)]
  obtain r' where r': "eMBRegHoldingCB (regs d) f 10 (wa + 1) wn MB_REG_WRITE = Some (MB_ENOERR, f, r')"
    "mb_regs_ok r'"
    "\<And>k. holding_regs r' ! k = (if unat (wa + 1) \<le> k \<and> k < unat (wa + 1) + unat wn
       then be16 (f ! (10 + 2 * (k - unat (wa + 1)))) (f ! (10 + 2 * (k - unat (wa + 1)) + 1))
       else holding_regs (regs d) ! k)"
    using holding_write_in[OF r assms(14) lw] by blast
  let ?f = "f[0 := 23, 1 := ucast (rn * 2)]"
  have lr: "2 + 2 * unat rn \<le> length ?f" using assms(2) len(3) by simp
  obtain g where g: "eMBRegHoldingCB r' ?f 2 (ra + 1) rn MB_REG_READ = Some (MB_ENOERR, g, r')"
    "\<And>i. i < unat rn \<Longrightarrow> be16 (g ! (2 + 2 * i)) (g ! (2 + 2 * i + 1)) = holding_regs r' ! (unat (ra + 1) + i)"
    using holding_bank.read_decodes[OF r'(2) assms(13) lr] by blast
  have "eMBFuncReadWriteMultipleHoldingRegister f len d =
      Some (MB_EX_NONE, g, 2 + 2 * rn, d\<lparr>regs := r'\<rparr>)"
    using assms(2-12) r'(1) g(1) by (simp add: eMBFuncReadWriteMultipleHoldingRegister_def Let_def)
  with g(2) len(2) show ?thesis
    by (intro exI[of _ "d\<lparr>regs := r'\<rparr>"] exI[of _ g] exI[of _ "2 + 2 * rn"]) (simp add: r'(3) Let_def)
qed

theorem readwrite_writes_first_witness:
  "\<exists>d' g glen. eMBFuncReadWriteMultipleHoldingRegister
      ([23, 0, 4, 0, 1, 0, 4, 0, 1, 2, 0xAB, 0xCD] @ replicate 243 0) 12 mb_data_init =
        Some (MB_EX_NONE, g, glen, d') \<and> unat glen = 4 \<and> be16 (g ! 2) (g ! 3) = 0xABCD"
proof -
  let ?f = "[23, 0, 4, 0, 1, 0, 4, 0, 1, 2, 0xAB, 0xCD] @ replicate 243 0 :: buffer"
  have i: "mb_data_ok mb_data_init"
    by (simp add: mb_data_ok_def mb_data_init_def mb_regs_init_def mb_regs_ok_def)
  have b: "be16 0 4 = 4" "be16 0 1 = 1" "be16 0xAB 0xCD = 0xABCD" by (simp_all add: be16_def)
  from readwrite_writes_first[OF i, of ?f 12 4 1 4 1] b show ?thesis by auto
qed

lemma readwrite_short_echo:
  assumes "len < 10"
  shows "eMBFuncReadWriteMultipleHoldingRegister f len d = Some (MB_EX_NONE, f, len, d)"
proof -
  have "\<not> 9 + 1 \<le> len" using assms by simp
  then show ?thesis by (simp only: eMBFuncReadWriteMultipleHoldingRegister_def if_False)
qed

text \<open>
  \<^verbatim>\<open>eMBFuncReadFileRecord\<close> for any \<^verbatim>\<open>eMBRegFileCB\<close> that does what \<^verbatim>\<open>mb.h\<close> asks of it: it returns, and
  it stores at most \<open>usRecordLength\<close> words at the place it is handed. For record lengths below
  \<open>0x8000\<close> the handler returns; a length above 123 words or a wrong frame length is refused without
  calling back; otherwise a successful response has \<open>4 + 2 n\<close> bytes, at most 250, and its header
  bytes hold the two remaining lengths and the reference type of the request.
\<close>

theorem read_file_record_response:
  fixes cb :: "'s file_cb"
  assumes cb: "\<And>s buf num rec len. 4 + 2 * unat len \<le> length buf \<Longrightarrow>
      \<exists>e buf' s'. cb s buf 4 num rec len MB_REG_READ = Some (e, buf', s') \<and> length buf' = length buf"
    and f: "length f = FRAME_SIZE" and n: "unat (be16 (f ! 7) (f ! 8)) < 0x8000"
  shows "\<exists>e f' n' s'. eMBFuncReadFileRecord cb f 9 s = Some (e, f', n', s') \<and> length f' = FRAME_SIZE \<and>
    (if unat (be16 (f ! 7) (f ! 8)) \<le> 123 \<and> f ! 1 = 7
     then e = MB_EX_NONE \<longrightarrow> unat n' = 4 + 2 * unat (be16 (f ! 7) (f ! 8)) \<and>
       unat (f' ! 1) = unat n' - 2 \<and> unat (f' ! 2) = unat n' - 3 \<and> f' ! 3 = f ! 2
     else e = MB_EX_ILLEGAL_DATA_VALUE \<and> f' = f \<and> s' = s)"
proof -
  let ?n = "be16 (f ! 7) (f ! 8)"
  have d: "unat (?n * 2) = 2 * unat ?n" using n by (simp add: unat_word_ariths)
  then have g: "?n * 2 \<le> 246 \<longleftrightarrow> unat ?n \<le> 123" by (simp add: word_le_nat_alt)
  show ?thesis
  proof (cases "unat ?n \<le> 123 \<and> f ! 1 = 7")
    case True
    have "4 + 2 * unat ?n \<le> length f" using True f by simp
    then obtain e b s' where c: "cb s f 4 (be16 (f ! 3) (f ! 4)) (be16 (f ! 5) (f ! 6)) ?n MB_REG_READ =
        Some (e, b, s')" "length b = length f" using cb by blast
    have u: "unat (4 + ?n * 2) = 4 + 2 * unat ?n" "unat (2 + ucast (?n * 2) :: u8) = 2 + 2 * unat ?n"
      "unat (1 + ucast (?n * 2) :: u8) = 1 + 2 * unat ?n"
      using True d by (simp_all add: unat_word_ariths unsigned_ucast_eq take_bit_eq_mod)
    show ?thesis
      using c f True g u by (cases "e = MB_ENOERR") (simp_all add: eMBFuncReadFileRecord_def Let_def)
  next
    case False
    with f g show ?thesis by (auto simp: eMBFuncReadFileRecord_def Let_def)
  qed
qed

text \<open>A callback that reads zeroes, and a request for two words.\<close>

theorem read_file_record_response_witness:
  "let f = [20, 7, 6, 0, 1, 0, 0, 0, 2] @ replicate 246 0;
       cb = (\<lambda>s buf off num rec len mode. do { b \<leftarrow> memset buf off 0 (2 * unat len); Some (MB_ENOERR, b, s) })
   in \<exists>e f' n' s'. eMBFuncReadFileRecord cb f 9 () = Some (e, f', n', s') \<and> length f' = FRAME_SIZE \<and>
     (e = MB_EX_NONE \<longrightarrow> unat n' = 8 \<and> unat (f' ! 1) = 6)"
proof -
  let ?f = "[20, 7, 6, 0, 1, 0, 0, 0, 2] @ replicate 246 0 :: buffer"
  let ?cb = "\<lambda>s buf off num rec len mode. do { b \<leftarrow> memset buf off 0 (2 * unat len); Some (MB_ENOERR, b, s) } :: (eMBErrorCode \<times> buffer \<times> unit) option"
  have cb: "\<exists>e buf' s'. ?cb s buf 4 num rec len MB_REG_READ = Some (e, buf', s') \<and> length buf' = length buf"
    if "4 + 2 * unat len \<le> length buf" for s buf and num rec len :: u16
    using memset_SomeI[OF that, of 0] by auto
  have b: "be16 0 2 = 2" by (simp add: be16_def)
  from read_file_record_response[of ?cb ?f "()", OF cb] b show ?thesis by (auto simp: Let_def)
qed

text \<open>The doubled record length is computed in 16 bits: a request for \<open>0x8000\<close> words passes the check.\<close>

lemma read_file_record_length_wraps:
  assumes "length f = FRAME_SIZE" "f ! 1 = 7" "be16 (f ! 7) (f ! 8) = 0x8000"
    "cb s f 4 (be16 (f ! 3) (f ! 4)) (be16 (f ! 5) (f ! 6)) 0x8000 MB_REG_READ = None"
  shows "eMBFuncReadFileRecord cb f 9 s = None"
  using assms by (simp add: eMBFuncReadFileRecord_def Let_def)

end
