(* ===== verification/Mb_Crc.thy ===== *)
theory Mb_Crc
  imports Prelude
begin

text \<open>
  The CRC-16 of \<^verbatim>\<open>FreeModbus/modbus/rtu/mbcrc.c\<close>: the two 256-entry tables, the byte loop over
  them, the bitwise CRC-16 with the reflected polynomial 0xA001 as the reference definition, the
  equality of the two, and what the frame check rests on: a frame followed by its own CRC has
  CRC 0, and any change confined to two neighbouring bytes changes the CRC.
\<close>

section \<open>The code\<close>

definition aucCRCHi :: "buffer" where
  "aucCRCHi =
    [0x00, 0xC1, 0x81, 0x40, 0x01, 0xC0, 0x80, 0x41, 0x01, 0xC0, 0x80, 0x41,
     0x00, 0xC1, 0x81, 0x40, 0x01, 0xC0, 0x80, 0x41, 0x00, 0xC1, 0x81, 0x40,
     0x00, 0xC1, 0x81, 0x40, 0x01, 0xC0, 0x80, 0x41, 0x01, 0xC0, 0x80, 0x41,
     0x00, 0xC1, 0x81, 0x40, 0x00, 0xC1, 0x81, 0x40, 0x01, 0xC0, 0x80, 0x41,
     0x00, 0xC1, 0x81, 0x40, 0x01, 0xC0, 0x80, 0x41, 0x01, 0xC0, 0x80, 0x41,
     0x00, 0xC1, 0x81, 0x40, 0x01, 0xC0, 0x80, 0x41, 0x00, 0xC1, 0x81, 0x40,
     0x00, 0xC1, 0x81, 0x40, 0x01, 0xC0, 0x80, 0x41, 0x00, 0xC1, 0x81, 0x40,
     0x01, 0xC0, 0x80, 0x41, 0x01, 0xC0, 0x80, 0x41, 0x00, 0xC1, 0x81, 0x40,
     0x00, 0xC1, 0x81, 0x40, 0x01, 0xC0, 0x80, 0x41, 0x01, 0xC0, 0x80, 0x41,
     0x00, 0xC1, 0x81, 0x40, 0x01, 0xC0, 0x80, 0x41, 0x00, 0xC1, 0x81, 0x40,
     0x00, 0xC1, 0x81, 0x40, 0x01, 0xC0, 0x80, 0x41, 0x01, 0xC0, 0x80, 0x41,
     0x00, 0xC1, 0x81, 0x40, 0x00, 0xC1, 0x81, 0x40, 0x01, 0xC0, 0x80, 0x41,
     0x00, 0xC1, 0x81, 0x40, 0x01, 0xC0, 0x80, 0x41, 0x01, 0xC0, 0x80, 0x41,
     0x00, 0xC1, 0x81, 0x40, 0x00, 0xC1, 0x81, 0x40, 0x01, 0xC0, 0x80, 0x41,
     0x01, 0xC0, 0x80, 0x41, 0x00, 0xC1, 0x81, 0x40, 0x01, 0xC0, 0x80, 0x41,
     0x00, 0xC1, 0x81, 0x40, 0x00, 0xC1, 0x81, 0x40, 0x01, 0xC0, 0x80, 0x41,
     0x00, 0xC1, 0x81, 0x40, 0x01, 0xC0, 0x80, 0x41, 0x01, 0xC0, 0x80, 0x41,
     0x00, 0xC1, 0x81, 0x40, 0x01, 0xC0, 0x80, 0x41, 0x00, 0xC1, 0x81, 0x40,
     0x00, 0xC1, 0x81, 0x40, 0x01, 0xC0, 0x80, 0x41, 0x01, 0xC0, 0x80, 0x41,
     0x00, 0xC1, 0x81, 0x40, 0x00, 0xC1, 0x81, 0x40, 0x01, 0xC0, 0x80, 0x41,
     0x00, 0xC1, 0x81, 0x40, 0x01, 0xC0, 0x80, 0x41, 0x01, 0xC0, 0x80, 0x41,
     0x00, 0xC1, 0x81, 0x40]"

definition aucCRCLo :: "buffer" where
  "aucCRCLo =
    [0x00, 0xC0, 0xC1, 0x01, 0xC3, 0x03, 0x02, 0xC2, 0xC6, 0x06, 0x07, 0xC7,
     0x05, 0xC5, 0xC4, 0x04, 0xCC, 0x0C, 0x0D, 0xCD, 0x0F, 0xCF, 0xCE, 0x0E,
     0x0A, 0xCA, 0xCB, 0x0B, 0xC9, 0x09, 0x08, 0xC8, 0xD8, 0x18, 0x19, 0xD9,
     0x1B, 0xDB, 0xDA, 0x1A, 0x1E, 0xDE, 0xDF, 0x1F, 0xDD, 0x1D, 0x1C, 0xDC,
     0x14, 0xD4, 0xD5, 0x15, 0xD7, 0x17, 0x16, 0xD6, 0xD2, 0x12, 0x13, 0xD3,
     0x11, 0xD1, 0xD0, 0x10, 0xF0, 0x30, 0x31, 0xF1, 0x33, 0xF3, 0xF2, 0x32,
     0x36, 0xF6, 0xF7, 0x37, 0xF5, 0x35, 0x34, 0xF4, 0x3C, 0xFC, 0xFD, 0x3D,
     0xFF, 0x3F, 0x3E, 0xFE, 0xFA, 0x3A, 0x3B, 0xFB, 0x39, 0xF9, 0xF8, 0x38,
     0x28, 0xE8, 0xE9, 0x29, 0xEB, 0x2B, 0x2A, 0xEA, 0xEE, 0x2E, 0x2F, 0xEF,
     0x2D, 0xED, 0xEC, 0x2C, 0xE4, 0x24, 0x25, 0xE5, 0x27, 0xE7, 0xE6, 0x26,
     0x22, 0xE2, 0xE3, 0x23, 0xE1, 0x21, 0x20, 0xE0, 0xA0, 0x60, 0x61, 0xA1,
     0x63, 0xA3, 0xA2, 0x62, 0x66, 0xA6, 0xA7, 0x67, 0xA5, 0x65, 0x64, 0xA4,
     0x6C, 0xAC, 0xAD, 0x6D, 0xAF, 0x6F, 0x6E, 0xAE, 0xAA, 0x6A, 0x6B, 0xAB,
     0x69, 0xA9, 0xA8, 0x68, 0x78, 0xB8, 0xB9, 0x79, 0xBB, 0x7B, 0x7A, 0xBA,
     0xBE, 0x7E, 0x7F, 0xBF, 0x7D, 0xBD, 0xBC, 0x7C, 0xB4, 0x74, 0x75, 0xB5,
     0x77, 0xB7, 0xB6, 0x76, 0x72, 0xB2, 0xB3, 0x73, 0xB1, 0x71, 0x70, 0xB0,
     0x50, 0x90, 0x91, 0x51, 0x93, 0x53, 0x52, 0x92, 0x96, 0x56, 0x57, 0x97,
     0x55, 0x95, 0x94, 0x54, 0x9C, 0x5C, 0x5D, 0x9D, 0x5F, 0x9F, 0x9E, 0x5E,
     0x5A, 0x9A, 0x9B, 0x5B, 0x99, 0x59, 0x58, 0x98, 0x88, 0x48, 0x49, 0x89,
     0x4B, 0x8B, 0x8A, 0x4A, 0x4E, 0x8E, 0x8F, 0x4F, 0x8D, 0x4D, 0x4C, 0x8C,
     0x44, 0x84, 0x85, 0x45, 0x87, 0x47, 0x46, 0x86, 0x82, 0x42, 0x43, 0x83,
     0x41, 0x81, 0x80, 0x40]"

fun crc_loop :: "buffer \<Rightarrow> nat \<Rightarrow> nat \<Rightarrow> u8 \<Rightarrow> u8 \<Rightarrow> (u8 \<times> u8) option" where
  "crc_loop pucFrame p 0 ucCRCHi ucCRCLo = Some (ucCRCHi, ucCRCLo)"
| "crc_loop pucFrame p (Suc usLen) ucCRCHi ucCRCLo = do {
     b \<leftarrow> rd pucFrame p;
     let iIndex = unat (ucCRCLo XOR b);
     hi \<leftarrow> rd aucCRCHi iIndex;
     lo \<leftarrow> rd aucCRCLo iIndex;
     crc_loop pucFrame (Suc p) usLen lo (ucCRCHi XOR hi)
   }"

definition usMBCRC16 :: "buffer \<Rightarrow> nat \<Rightarrow> u16 \<Rightarrow> u16 option" where
  "usMBCRC16 pucFrame p usLen = do {
     (ucCRCHi, ucCRCLo) \<leftarrow> crc_loop pucFrame p (unat usLen) 0xFF 0xFF;
     Some (push_bit 8 (ucast ucCRCHi) OR ucast ucCRCLo)
   }"

section \<open>The reference\<close>

definition crc_shift :: "u16 \<Rightarrow> u16" where
  "crc_shift c = (if bit c 0 then drop_bit 1 c XOR 0xA001 else drop_bit 1 c)"

definition crc_byte :: "u16 \<Rightarrow> u8 \<Rightarrow> u16" where
  "crc_byte c b = (crc_shift ^^ 8) (c XOR ucast b)"

definition crc16 :: "buffer \<Rightarrow> u16" where
  "crc16 bs = fold (\<lambda>b c. crc_byte c b) bs 0xFFFF"

section \<open>The tables are the shift register\<close>

lemma unat_u8_lt [simp]: "unat (w :: u8) < 256"
  using unsigned_less[of w] by simp

lemma crc_table_len [simp]: "length aucCRCHi = 256" "length aucCRCLo = 256"
  by (simp_all add: aucCRCHi_def aucCRCLo_def)

lemma funpow_8: "(f ^^ 8) x = f (f (f (f (f (f (f (f x)))))))"
  by (simp add: eval_nat_numeral)

lemma crc_shift_numeral:
  "crc_shift 0 = 0" "crc_shift 1 = 0xA001"
  "crc_shift (numeral (num.Bit0 n)) = drop_bit 1 (numeral (num.Bit0 n))"
  "crc_shift (numeral (num.Bit1 n)) = drop_bit 1 (numeral (num.Bit1 n)) XOR 0xA001"
  by (simp_all add: crc_shift_def bit_0)

lemma upt_256: "[0..<256] =
   [0, 1, 2, 3, 4, 5, 6, 7, 8, 9, 10, 11, 12, 13, 14, 15, 16, 17, 18, 19,
    20, 21, 22, 23, 24, 25, 26, 27, 28, 29, 30, 31, 32, 33, 34, 35, 36, 37, 38, 39,
    40, 41, 42, 43, 44, 45, 46, 47, 48, 49, 50, 51, 52, 53, 54, 55, 56, 57, 58, 59,
    60, 61, 62, 63, 64, 65, 66, 67, 68, 69, 70, 71, 72, 73, 74, 75, 76, 77, 78, 79,
    80, 81, 82, 83, 84, 85, 86, 87, 88, 89, 90, 91, 92, 93, 94, 95, 96, 97, 98, 99,
    100, 101, 102, 103, 104, 105, 106, 107, 108, 109, 110, 111, 112, 113, 114, 115, 116, 117, 118, 119,
    120, 121, 122, 123, 124, 125, 126, 127, 128, 129, 130, 131, 132, 133, 134, 135, 136, 137, 138, 139,
    140, 141, 142, 143, 144, 145, 146, 147, 148, 149, 150, 151, 152, 153, 154, 155, 156, 157, 158, 159,
    160, 161, 162, 163, 164, 165, 166, 167, 168, 169, 170, 171, 172, 173, 174, 175, 176, 177, 178, 179,
    180, 181, 182, 183, 184, 185, 186, 187, 188, 189, 190, 191, 192, 193, 194, 195, 196, 197, 198, 199,
    200, 201, 202, 203, 204, 205, 206, 207, 208, 209, 210, 211, 212, 213, 214, 215, 216, 217, 218, 219,
    220, 221, 222, 223, 224, 225, 226, 227, 228, 229, 230, 231, 232, 233, 234, 235, 236, 237, 238, 239,
    240, 241, 242, 243, 244, 245, 246, 247, 248, 249, 250, 251, 252, 253, 254, 255]"
  by (simp add: upt_conv_Cons)

lemma crc_shift_table:
  "map (\<lambda>i. (crc_shift ^^ 8) (of_nat i)) [0..<256] = map2 be16 aucCRCLo aucCRCHi"
  unfolding upt_256
  by (simp add: crc_shift_numeral funpow_8 be16_def aucCRCLo_def aucCRCHi_def)

lemma unsigned_of_nat_eq_ucast: "word_of_nat (unat w) = (ucast (w :: u8) :: u16)"
  by (rule bit_eqI) (simp add: bit_ucast_iff bit_unsigned_iff bit_of_nat_iff_bit)

lemma crc_table_entry:
  "be16 (aucCRCLo ! unat (w :: u8)) (aucCRCHi ! unat w) = (crc_shift ^^ 8) (ucast w)"
proof -
  have "map (\<lambda>i. (crc_shift ^^ 8) (of_nat i)) [0..<256] ! unat w = (crc_shift ^^ 8) (ucast w)"
    by (simp add: unsigned_of_nat_eq_ucast)
  then show ?thesis by (simp add: crc_shift_table)
qed

lemma crc_shift_push: "k < 8 \<Longrightarrow> crc_shift (push_bit (Suc k) (ucast (w :: u8))) = push_bit k (ucast w)"
  by (auto simp: crc_shift_def bit_simps intro!: bit_eqI dest: bit_imp_le_length simp del: push_bit_Suc)
     (drule bit_imp_le_length, simp)

lemma be16_high: "be16 w 0 = push_bit 8 (ucast w)"
  by (simp add: be16_def)

lemma crc_high_byte: "(crc_shift ^^ 8) (be16 w 0) = ucast w"
  using crc_shift_push[of 0 w] crc_shift_push[of 1 w] crc_shift_push[of 2 w] crc_shift_push[of 3 w]
    crc_shift_push[of 4 w] crc_shift_push[of 5 w] crc_shift_push[of 6 w] crc_shift_push[of 7 w]
  by (simp add: be16_high funpow_8 eval_nat_numeral)

lemma crc_shift_xor: "crc_shift (a XOR b) = crc_shift a XOR crc_shift b"
  by (auto simp: crc_shift_def bit_xor_iff drop_bit_xor ac_simps)

lemma crc_shift_pow_xor: "(crc_shift ^^ n) (a XOR b) = (crc_shift ^^ n) a XOR (crc_shift ^^ n) b"
  by (induction n) (simp_all add: crc_shift_xor)

lemma be16_split: "be16 h l = be16 h 0 XOR ucast l"
  by (rule bit_eqI) (auto simp: bit_be16 bit_xor_iff bit_ucast_iff dest: bit_imp_le_length)

lemma be16_xor_low: "be16 h l XOR ucast b = be16 h (l XOR b)"
  by (rule bit_eqI) (auto simp: bit_be16 bit_xor_iff bit_ucast_iff dest: bit_imp_le_length)

text \<open>One table step is eight steps of the shift register.\<close>

lemma crc_step_table:
  "be16 (aucCRCLo ! unat (lo XOR b)) (hi XOR aucCRCHi ! unat (lo XOR b)) = crc_byte (be16 hi lo) b"
proof -
  let ?i = "lo XOR b"
  have "crc_byte (be16 hi lo) b = (crc_shift ^^ 8) (be16 hi 0 XOR ucast ?i)"
    by (simp only: crc_byte_def be16_xor_low be16_split[of hi ?i])
  also have "\<dots> = ucast hi XOR be16 (aucCRCLo ! unat ?i) (aucCRCHi ! unat ?i)"
    by (simp only: crc_shift_pow_xor crc_high_byte crc_table_entry)
  also have "\<dots> = be16 (aucCRCLo ! unat ?i) (hi XOR aucCRCHi ! unat ?i)"
    by (simp only: xor.commute[of "ucast hi :: u16"] be16_xor_low xor.commute[of _ hi])
  finally show ?thesis by simp
qed

lemma crc_loop_ref:
  assumes "p + n \<le> length bs"
  shows "\<exists>h l. crc_loop bs p n hi lo = Some (h, l) \<and>
    be16 h l = fold (\<lambda>b c. crc_byte c b) (take n (drop p bs)) (be16 hi lo)"
  using assms
proof (induction n arbitrary: p hi lo)
  case 0
  then show ?case by simp
next
  case (Suc n)
  then have "drop p bs = bs ! p # drop (Suc p) bs"
    by (simp add: Cons_nth_drop_Suc)
  with Suc.prems Suc.IH[of "Suc p" "aucCRCLo ! unat (lo XOR bs ! p)" "hi XOR aucCRCHi ! unat (lo XOR bs ! p)"]
  show ?case
    by (simp add: crc_step_table Let_def)
qed

lemma usMBCRC16_total:
  assumes "p + unat len \<le> length bs"
  shows "usMBCRC16 bs p len = Some (crc16 (take (unat len) (drop p bs)))"
proof -
  have "be16 0xFF 0xFF = 0xFFFF" by code_simp
  with crc_loop_ref[OF assms, where hi = "0xFF" and lo = "0xFF"] show ?thesis
    by (auto simp: usMBCRC16_def crc16_def be16_def)
qed

section \<open>What the frame check rests on\<close>

lemma crc16_snoc: "crc16 (bs @ [b]) = crc_byte (crc16 bs) b"
  by (simp add: crc16_def)

lemma crc16_append: "crc16 (xs @ ys) = fold (\<lambda>b c. crc_byte c b) ys (crc16 xs)"
  by (simp add: crc16_def)

lemma crc_byte_be16_self: "crc_byte (be16 h l) l = ucast h"
  by (simp add: crc_byte_def be16_xor_low crc_high_byte)

lemma ucast_be16: "(ucast h :: u16) = be16 0 h"
  by (rule bit_eqI) (auto simp: bit_be16 bit_ucast_iff dest: bit_imp_le_length)

lemma be16_zero: "be16 0 0 = 0"
  by (simp add: be16_def)

lemma crc16_own_crc: "crc16 (bs @ [lo8 (crc16 bs), hi8 (crc16 bs)]) = 0"
proof -
  let ?h = "hi8 (crc16 bs)" and ?l = "lo8 (crc16 bs)"
  have "crc16 (bs @ [?l]) = ucast ?h"
    using crc_byte_be16_self[of ?h ?l] by (simp add: crc16_snoc)
  then have "crc16 ((bs @ [?l]) @ [?h]) = 0"
    by (simp only: crc16_snoc ucast_be16 crc_byte_be16_self be16_zero)
  then show ?thesis by simp
qed

lemma crc_shift_bit15: "bit (crc_shift c) 15 = bit c 0"
  by (auto simp: crc_shift_def bit_simps dest: bit_imp_le_length)

lemma crc_shift_zero_iff [simp]: "crc_shift c = 0 \<longleftrightarrow> c = 0"
proof
  assume z: "crc_shift c = 0"
  then have "\<not> bit c 0" using crc_shift_bit15[of c] by simp
  moreover from this z have "drop_bit 1 c = 0" by (simp add: crc_shift_def)
  ultimately have "bit c n = bit (0 :: u16) n" for n
    by (cases n) (auto simp: bit_drop_bit_eq dest!: arg_cong[where f = "\<lambda>w. bit w (n - 1)"])
  then show "c = 0" by (intro bit_eqI) simp
qed (simp add: crc_shift_def)

lemma crc_shift_pow_zero_iff [simp]: "(crc_shift ^^ n) c = 0 \<longleftrightarrow> c = 0"
  by (induction n) simp_all

lemma xor_zero_iff: "a XOR b = 0 \<longleftrightarrow> a = (b :: 'a::len word)"
  by (metis xor.assoc xor.left_neutral xor_self_eq xor.right_neutral)

lemma crc_shift_pow_inj: "(crc_shift ^^ n) c = (crc_shift ^^ n) d \<longleftrightarrow> c = d"
  by (metis crc_shift_pow_xor crc_shift_pow_zero_iff xor_zero_iff)

lemma crc_byte_alt: "crc_byte c b = (crc_shift ^^ 8) (be16 (hi8 c) (lo8 c XOR b))"
  by (metis be16_xor_low be16_hi8_lo8 crc_byte_def)

text \<open>
  The register can be run backwards: equal registers after a byte pin down the sum of low byte
  and input, and the high byte before it.
\<close>

lemma crc_byte_eqD:
  assumes "crc_byte c b = crc_byte d e"
  shows "lo8 c XOR b = lo8 d XOR e" "hi8 c = hi8 d"
proof -
  have "be16 (hi8 c) (lo8 c XOR b) = be16 (hi8 d) (lo8 d XOR e)"
    using assms by (simp only: crc_byte_alt crc_shift_pow_inj)
  then show "lo8 c XOR b = lo8 d XOR e" "hi8 c = hi8 d"
    by (simp_all add: be16_inj)
qed

text \<open>The high byte after a step already determines the index that was looked up.\<close>

lemma crc_index_by_high:
  assumes "hi8 ((crc_shift ^^ 8) (be16 h i)) = hi8 ((crc_shift ^^ 8) (be16 h j))"
  shows "i = j"
proof -
  let ?f = "crc_shift ^^ 8"
  have "be16 h i XOR be16 h j = ucast (i XOR j)"
    by (rule bit_eqI) (auto simp: bit_be16 bit_xor_iff bit_ucast_iff dest: bit_imp_le_length)
  then have d: "?f (ucast (i XOR j)) = ?f (be16 h i) XOR ?f (be16 h j)"
    by (metis crc_shift_pow_xor)
  have hb: "bit (?f (be16 h i)) n = bit (?f (be16 h j)) n" if "8 \<le> n" "n < 16" for n
    using arg_cong[OF assms, of "\<lambda>w. bit w (n - 8)"] that by (simp add: bit_hi8 less_diff_conv2)
  have "?f (ucast (i XOR j)) = ucast (lo8 (?f (ucast (i XOR j))))"
    unfolding d
    by (rule bit_eqI)
       (use hb in \<open>fastforce simp: bit_xor_iff bit_ucast_iff bit_lo8 simp flip: linorder_not_less\<close>)
  then have "ucast (i XOR j) = be16 (lo8 (?f (ucast (i XOR j)))) 0"
    by (metis crc_high_byte crc_shift_pow_inj)
  then have "be16 0 (i XOR j) = be16 (lo8 (?f (ucast (i XOR j)))) 0"
    by (simp only: ucast_be16)
  then have "i XOR j = 0" by (simp only: be16_inj)
  then show ?thesis by (simp only: xor_zero_iff)
qed

lemma crc_byte_inj_state: "crc_byte c b = crc_byte d b \<Longrightarrow> c = d"
  using crc_byte_eqD[of c b d b]
  by (metis be16_hi8_lo8 xor.assoc xor.right_neutral xor_self_eq)

lemma crc_fold_inj:
  "fold (\<lambda>b c. crc_byte c b) ys c = fold (\<lambda>b c. crc_byte c b) ys d \<Longrightarrow> c = d"
  by (induction ys arbitrary: c d) (auto dest: crc_byte_inj_state)

lemma crc16_two_bytes:
  assumes "crc16 (xs @ [a, b] @ ys) = crc16 (xs @ [a', b'] @ ys)"
  shows "a = a' \<and> b = b'"
proof -
  let ?c = "crc16 xs"
  have e: "crc_byte (crc_byte ?c a) b = crc_byte (crc_byte ?c a') b'"
    using crc_fold_inj[of ys "crc_byte (crc_byte ?c a) b" "crc_byte (crc_byte ?c a') b'"] assms
    by (simp add: crc16_append)
  have "lo8 ?c XOR a = lo8 ?c XOR a'"
    using crc_byte_eqD(2)[OF e] unfolding crc_byte_alt by (rule crc_index_by_high)
  then have a: "a = a'"
    by (metis xor.assoc xor.left_neutral xor_self_eq)
  with crc_byte_eqD(1)[OF e] show ?thesis
    by (metis xor.assoc xor.left_neutral xor_self_eq)
qed

text \<open>
  C5. The table-driven \<^verbatim>\<open>usMBCRC16\<close> computes the Modbus CRC: for every buffer, start and length inside it the
  call returns, and its value is that of the bitwise shift register with polynomial \<open>0xA001\<close> and start
  value \<open>0xFFFF\<close>. All 512 table entries take part.
\<close>

theorem usMBCRC16_is_bitwise_crc:
  assumes "p + unat len \<le> length bs"
  shows "usMBCRC16 bs p len = Some (fold (\<lambda>b c. (crc_shift ^^ 8) (c XOR ucast b)) (take (unat len) (drop p bs)) 0xFFFF)"
  using usMBCRC16_total[OF assms] by (simp add: crc16_def crc_byte_def)

theorem usMBCRC16_is_bitwise_crc_witness:
  "usMBCRC16 [9, 1, 3] 1 2 = Some (fold (\<lambda>b c. (crc_shift ^^ 8) (c XOR ucast b)) [1, 3 :: u8] 0xFFFF)"
  using usMBCRC16_is_bitwise_crc[of 1 2 "[9, 1, 3]"] by simp

text \<open>
  Error detection: two buffers of the same length that differ in one or two adjacent bytes have
  different checksums, so every burst error of at most 9 bits, and every corruption confined to two neighbouring
  bytes, is detected.
\<close>

theorem usMBCRC16_detects_adjacent_bytes:
  assumes "(a, b) \<noteq> (a', b')" "length xs + 2 + length ys < 2 ^ 16"
  shows "usMBCRC16 (xs @ [a, b] @ ys) 0 (of_nat (length xs + 2 + length ys)) \<noteq>
         usMBCRC16 (xs @ [a', b'] @ ys) 0 (of_nat (length xs + 2 + length ys))"
proof -
  have u: "unat (of_nat (length xs + 2 + length ys) :: u16) = length xs + 2 + length ys"
    using assms(2) by (simp only: unat_of_nat) simp
  have "usMBCRC16 (xs @ [c, d] @ ys) 0 (of_nat (length xs + 2 + length ys)) = Some (crc16 (xs @ [c, d] @ ys))" for c d
    by (subst usMBCRC16_total) (simp_all only: u, simp_all)
  then show ?thesis using crc16_two_bytes[of xs a b ys a' b'] assms(1) by auto
qed

theorem usMBCRC16_detects_adjacent_bytes_witness:
  "usMBCRC16 ([1] @ [3, 0] @ [7]) 0 (of_nat (length [1 :: u8] + 2 + length [7 :: u8])) \<noteq>
   usMBCRC16 ([1] @ [3, 1] @ [7]) 0 (of_nat (length [1 :: u8] + 2 + length [7 :: u8]))"
  by (rule usMBCRC16_detects_adjacent_bytes) simp_all

end
