(* ===== verification/Mb_Port.thy ===== *)
theory Mb_Port
  imports Mb_Types
begin

text \<open>
  The porting layer of the Modbus stack, \<^verbatim>\<open>FreeModbus/BARE/port\<close>: the one-slot event queue
  (\<^verbatim>\<open>portevent.c\<close>), the serial port over the USB virtual COM port with its receive ring and its
  transmit buffer (\<^verbatim>\<open>portserial.c\<close>) and the inter-frame timer over a FreeRTOS software timer
  (\<^verbatim>\<open>porttimer.c\<close>).

  FreeRTOS objects are seen as the port sees them: a handle is NULL or not, and the commands the
  port sends to the timer service are recorded in order. \<^verbatim>\<open>usb_vcp_send_data\<close> is an argument: the
  outcome of its \<open>i\<close>-th call; what it accepts is recorded. \<^verbatim>\<open>vMBPortSerialEnable\<close>, which calls back
  into the RTU layer, is in \<open>Mb_Rtu\<close>.

  The receive ring is a \<open>bounded_fifo\<close>: the interface is a FIFO of at most 1023 bytes, and the ring
  refines it.
\<close>

section \<open>Events\<close>

record port_event =
  eQueuedEvent :: eMBEventType
  xEventInQueue :: bool

definition xMBPortEventInit :: "port_event \<Rightarrow> bool \<times> port_event" where
  "xMBPortEventInit e = (True, e\<lparr>xEventInQueue := False\<rparr>)"

definition xMBPortEventPost :: "eMBEventType \<Rightarrow> port_event \<Rightarrow> bool \<times> port_event" where
  "xMBPortEventPost eEvent e = (True, e\<lparr>xEventInQueue := True, eQueuedEvent := eEvent\<rparr>)"

definition xMBPortEventGet :: "port_event \<Rightarrow> eMBEventType option \<times> port_event" where
  "xMBPortEventGet e =
     (if xEventInQueue e then (Some (eQueuedEvent e), e\<lparr>xEventInQueue := False\<rparr>) else (None, e))"

section \<open>The timer\<close>

datatype timer_cmd = TimerStart | TimerStop

record port_timer =
  xT3_5Timer :: bool
  xTimerExpired :: bool
  timer_cmds :: "timer_cmd list"

definition vMBTimerCallback :: "port_timer \<Rightarrow> port_timer" where
  "vMBTimerCallback t = t\<lparr>xTimerExpired := True\<rparr>"

definition xMBPortTimersInit :: "bool \<Rightarrow> u16 \<Rightarrow> port_timer \<Rightarrow> bool \<times> port_timer" where
  "xMBPortTimersInit created usTim1Timerout50us t = (created, t\<lparr>xT3_5Timer := created\<rparr>)"

definition vMBPortTimersEnable :: "port_timer \<Rightarrow> port_timer" where
  "vMBPortTimersEnable t =
     (if xT3_5Timer t then t\<lparr>xTimerExpired := False, timer_cmds := timer_cmds t @ [TimerStart]\<rparr> else t)"

definition vMBPortTimersDisable :: "port_timer \<Rightarrow> port_timer" where
  "vMBPortTimersDisable t =
     (if xT3_5Timer t then t\<lparr>timer_cmds := timer_cmds t @ [TimerStop], xTimerExpired := False\<rparr> else t)"

definition vMBPortTimersRestart :: "port_timer \<Rightarrow> port_timer" where
  "vMBPortTimersRestart t =
     (if xT3_5Timer t then t\<lparr>xTimerExpired := False, timer_cmds := timer_cmds t @ [TimerStart]\<rparr> else t)"

section \<open>The serial port\<close>

abbreviation (input) MB_TX_BUF_SIZE :: nat where "MB_TX_BUF_SIZE \<equiv> 256"
abbreviation (input) MB_RX_BUF_SIZE :: nat where "MB_RX_BUF_SIZE \<equiv> 1024"

record port_serial =
  mb_tx_buf :: buffer
  mb_tx_len :: u16
  mb_rx_buf :: buffer
  mb_rx_head :: u16
  mb_rx_tail :: u16
  xTxMutex :: bool
  xRxMutex :: bool
  xTxComplete :: bool
  usb_calls :: nat
  usb_out :: "buffer list"

definition port_serial_init :: port_serial where
  "port_serial_init = \<lparr>mb_tx_buf = replicate 256 0, mb_tx_len = 0, mb_rx_buf = replicate 1024 0,
     mb_rx_head = 0, mb_rx_tail = 0, xTxMutex = False, xRxMutex = False, xTxComplete = True,
     usb_calls = 0, usb_out = []\<rparr>"

definition xMBPortSerialInit ::
  "bool \<Rightarrow> bool \<Rightarrow> u8 \<Rightarrow> u32 \<Rightarrow> u8 \<Rightarrow> eMBParity \<Rightarrow> u8 \<Rightarrow> port_serial \<Rightarrow> bool \<times> port_serial"
where
  "xMBPortSerialInit tx_created rx_created ucPORT ulBaudRate ucDataBits eParity ucStopBits p =
     (let p = p\<lparr>mb_tx_len := 0, mb_rx_head := 0, mb_rx_tail := 0\<rparr>;
          p = (if \<not> xTxMutex p then p\<lparr>xTxMutex := tx_created\<rparr> else p);
          p = (if \<not> xRxMutex p then p\<lparr>xRxMutex := rx_created\<rparr> else p)
      in (xTxMutex p \<and> xRxMutex p, p))"

definition xMBPortSerialPutByte :: "u8 \<Rightarrow> port_serial \<Rightarrow> (bool \<times> port_serial) option" where
  "xMBPortSerialPutByte ucByte p =
     (if unat (mb_tx_len p) < MB_TX_BUF_SIZE then do {
        b \<leftarrow> wr (mb_tx_buf p) (unat (mb_tx_len p)) ucByte;
        Some (True, p\<lparr>mb_tx_buf := b, mb_tx_len := mb_tx_len p + 1\<rparr>)
      }
      else Some (False, p))"

text \<open>The byte that was read, or \<open>None\<close> where the C function returns FALSE.\<close>

definition xMBPortSerialGetByte :: "port_serial \<Rightarrow> (u8 option \<times> port_serial) option" where
  "xMBPortSerialGetByte p =
     (if mb_rx_head p \<noteq> mb_rx_tail p then do {
        b \<leftarrow> rd (mb_rx_buf p) (unat (mb_rx_tail p));
        Some (Some b, p\<lparr>mb_rx_tail := of_nat ((unat (mb_rx_tail p) + 1) mod MB_RX_BUF_SIZE)\<rparr>)
      }
      else Some (None, p))"

fun rx_data_loop :: "buffer \<Rightarrow> nat \<Rightarrow> nat \<Rightarrow> u16 \<Rightarrow> port_serial \<Rightarrow> (u16 \<times> port_serial) option" where
  "rx_data_loop data i 0 count p = Some (count, p)"
| "rx_data_loop data i (Suc n) count p = do {
     let next = of_nat ((unat (mb_rx_head p) + 1) mod MB_RX_BUF_SIZE);
     if next \<noteq> mb_rx_tail p then do {
       x \<leftarrow> rd data i;
       b \<leftarrow> wr (mb_rx_buf p) (unat (mb_rx_head p)) x;
       rx_data_loop data (Suc i) n (count + 1) (p\<lparr>mb_rx_buf := b, mb_rx_head := next\<rparr>)
     }
     else Some (count, p)
   }"

definition mb_usb_rx_data :: "buffer \<Rightarrow> u16 \<Rightarrow> port_serial \<Rightarrow> (u16 \<times> port_serial) option" where
  "mb_usb_rx_data data len p = rx_data_loop data 0 (unat len) 0 p"

definition mb_usb_rx_available :: "port_serial \<Rightarrow> bool" where
  "mb_usb_rx_available p \<longleftrightarrow> mb_rx_head p \<noteq> mb_rx_tail p"

text \<open>
  The retry loop around \<^verbatim>\<open>usb_vcp_send_data\<close>: \<open>send i\<close> is the outcome of its \<open>i\<close>-th call since
  start-up (true for SUCCESS); \<open>timeout\<close> counts down to 0. The result says whether a call succeeded,
  and the number of calls made so far.
\<close>

fun vcp_send_loop :: "(nat \<Rightarrow> bool) \<Rightarrow> nat \<Rightarrow> nat \<Rightarrow> bool \<times> nat" where
  "vcp_send_loop send i 0 = (False, i)"
| "vcp_send_loop send i (Suc timeout) =
     (if send i then (True, Suc i) else vcp_send_loop send (Suc i) timeout)"

text \<open>The transmit half of \<^verbatim>\<open>vMBPortSerialEnable\<close>: hand the collected bytes to USB and empty the buffer.\<close>

definition serial_flush :: "(nat \<Rightarrow> bool) \<Rightarrow> port_serial \<Rightarrow> port_serial option" where
  "serial_flush send p =
     (let len = mb_tx_len p in
      if len > 0 then do {
        assert_c (xTxMutex p);
        let (ok, i) = vcp_send_loop send (usb_calls p) 1000000;
        data \<leftarrow> (if unat len \<le> length (mb_tx_buf p) then Some (take (unat len) (mb_tx_buf p)) else None);
        Some (p\<lparr>xTxComplete := True, usb_calls := i,
                usb_out := (if ok then usb_out p @ [data] else usb_out p), mb_tx_len := 0\<rparr>)
      }
      else Some p)"

section \<open>Invariant and abstraction\<close>

definition port_serial_ok :: "port_serial \<Rightarrow> bool" where
  "port_serial_ok p \<longleftrightarrow> length (mb_tx_buf p) = MB_TX_BUF_SIZE \<and> unat (mb_tx_len p) \<le> MB_TX_BUF_SIZE \<and>
     length (mb_rx_buf p) = MB_RX_BUF_SIZE \<and> unat (mb_rx_head p) < MB_RX_BUF_SIZE \<and>
     unat (mb_rx_tail p) < MB_RX_BUF_SIZE"

definition rx_count :: "port_serial \<Rightarrow> nat" where
  "rx_count p = (unat (mb_rx_head p) + MB_RX_BUF_SIZE - unat (mb_rx_tail p)) mod MB_RX_BUF_SIZE"

definition rx_queue :: "port_serial \<Rightarrow> buffer" where
  "rx_queue p = map (\<lambda>i. mb_rx_buf p ! ((unat (mb_rx_tail p) + i) mod MB_RX_BUF_SIZE)) [0..<rx_count p]"

lemma length_rx_queue [simp]: "length (rx_queue p) = rx_count p"
  by (simp add: rx_queue_def)

section \<open>The ring refines the queue\<close>

lemma ring_arith:
  fixes h t :: nat
  assumes "h < 1024" "t < 1024"
  shows "(t + (h + 1024 - t) mod 1024) mod 1024 = h"
    and "(h + 1) mod 1024 = t \<longleftrightarrow> (h + 1024 - t) mod 1024 = 1023"
    and "(h + 1) mod 1024 \<noteq> t \<Longrightarrow> ((h + 1) mod 1024 + 1024 - t) mod 1024 = (h + 1024 - t) mod 1024 + 1"
    and "h = t \<longleftrightarrow> (h + 1024 - t) mod 1024 = 0"
    and "h \<noteq> t \<Longrightarrow> (h + 1024 - (t + 1) mod 1024) mod 1024 + 1 = (h + 1024 - t) mod 1024"
proof -
  consider "t \<le> h" | "h < t" by linarith
  note c = this
  show "(t + (h + 1024 - t) mod 1024) mod 1024 = h"
    using c assms by cases (auto simp: mod_if)
  show "(h + 1) mod 1024 = t \<longleftrightarrow> (h + 1024 - t) mod 1024 = 1023"
    using c assms by cases (auto simp: mod_if)
  show "(h + 1) mod 1024 \<noteq> t \<Longrightarrow> ((h + 1) mod 1024 + 1024 - t) mod 1024 = (h + 1024 - t) mod 1024 + 1"
    using c assms by cases (auto simp: mod_if)
  show "h = t \<longleftrightarrow> (h + 1024 - t) mod 1024 = 0"
    using c assms by cases (auto simp: mod_if)
  show "h \<noteq> t \<Longrightarrow> (h + 1024 - (t + 1) mod 1024) mod 1024 + 1 = (h + 1024 - t) mod 1024"
    using c assms by cases (auto simp: mod_if)
qed

lemma ring_index_fresh:
  fixes t c i :: nat
  assumes "t < 1024" "i < c" "c < 1024"
  shows "(t + i) mod 1024 \<noteq> (t + c) mod 1024"
  using assms by (auto simp: mod_if)

lemma unat_of_nat_ring [simp]: "unat (of_nat (k mod 1024) :: u16) = k mod 1024"
proof -
  have "k mod 1024 < 1024" by simp
  then have "k mod 1024 < 2 ^ LENGTH(16)" by simp
  then show ?thesis by (simp add: unat_of_nat)
qed

lemma rx_count_lt: "rx_count p < MB_RX_BUF_SIZE"
  by (simp add: rx_count_def)

lemma rx_empty_iff: "port_serial_ok p \<Longrightarrow> mb_rx_head p = mb_rx_tail p \<longleftrightarrow> rx_count p = 0"
  using ring_arith(4)[of "unat (mb_rx_head p)" "unat (mb_rx_tail p)"]
  by (simp add: port_serial_ok_def rx_count_def word_unat_eq_iff)

lemma rx_full_iff:
  assumes "port_serial_ok p"
  shows "of_nat ((unat (mb_rx_head p) + 1) mod MB_RX_BUF_SIZE) = mb_rx_tail p \<longleftrightarrow> rx_count p = 1023"
  using ring_arith(2)[of "unat (mb_rx_head p)" "unat (mb_rx_tail p)"] assms
  by (simp add: port_serial_ok_def rx_count_def word_unat_eq_iff[of "of_nat _"] unat_of_nat_ring[simplified])

text \<open>One byte stored at the head.\<close>

definition rx_push :: "u8 \<Rightarrow> port_serial \<Rightarrow> port_serial" where
  "rx_push b p = p\<lparr>mb_rx_buf := (mb_rx_buf p)[unat (mb_rx_head p) := b],
     mb_rx_head := of_nat ((unat (mb_rx_head p) + 1) mod MB_RX_BUF_SIZE)\<rparr>"

lemma rx_push_queue:
  assumes ok: "port_serial_ok p" and c: "rx_count p < 1023"
  shows "port_serial_ok (rx_push b p)" "rx_queue (rx_push b p) = rx_queue p @ [b]"
    "rx_count (rx_push b p) = rx_count p + 1"
proof -
  let ?h = "unat (mb_rx_head p)" and ?t = "unat (mb_rx_tail p)" and ?c = "rx_count p"
  have ht: "?h < 1024" "?t < 1024" and l: "length (mb_rx_buf p) = 1024"
    using ok by (simp_all add: port_serial_ok_def)
  have f: "(?h + 1) mod 1024 \<noteq> ?t" using ring_arith(2)[OF ht] c by (simp add: rx_count_def)
  show cnt: "rx_count (rx_push b p) = ?c + 1"
    using ring_arith(3)[OF ht f] unfolding rx_count_def rx_push_def by (simp del: add_2_eq_Suc')
  have h: "(?t + ?c) mod 1024 = ?h" using ring_arith(1)[OF ht] by (simp add: rx_count_def)
  have "(mb_rx_buf p)[?h := b] ! ((?t + i) mod 1024) = mb_rx_buf p ! ((?t + i) mod 1024)" if "i < ?c" for i
    using ring_index_fresh[OF ht(2) that] c h by simp
  then show "rx_queue (rx_push b p) = rx_queue p @ [b]"
    unfolding rx_queue_def cnt using h l ht(1) by (simp add: rx_push_def)
  show "port_serial_ok (rx_push b p)"
    using ok by (simp add: port_serial_ok_def rx_push_def)
qed

lemma rx_data_loop_spec:
  assumes "port_serial_ok p" "i + n \<le> length data"
  shows "\<exists>p'. rx_data_loop data i n count p = Some (count + of_nat (min n (1023 - rx_count p)), p') \<and>
    port_serial_ok p' \<and> rx_queue p' = rx_queue p @ take (min n (1023 - rx_count p)) (drop i data) \<and>
    mb_tx_buf p' = mb_tx_buf p \<and> mb_tx_len p' = mb_tx_len p"
  using assms
proof (induction n arbitrary: i count p)
  case (Suc n)
  show ?case
  proof (cases "rx_count p = 1023")
    case True
    then show ?thesis using Suc.prems rx_full_iff[OF Suc.prems(1)] by simp
  next
    case False
    then have c: "rx_count p < 1023" using rx_count_lt[of p] by simp
    let ?b = "data ! i" and ?k = "min n (1023 - rx_count (rx_push (data ! i) p))"
    note push = rx_push_queue[OF Suc.prems(1) c, of ?b]
    have step: "rx_data_loop data i (Suc n) count p = rx_data_loop data (Suc i) n (count + 1) (rx_push ?b p)"
      using Suc.prems False rx_full_iff[OF Suc.prems(1)]
      by (simp add: rx_push_def port_serial_ok_def)
    have k: "min (Suc n) (1023 - rx_count p) = Suc ?k" using c push(3) by simp
    have d: "drop i data = ?b # drop (Suc i) data" using Suc.prems(2) by (simp add: Cons_nth_drop_Suc)
    obtain p' where p': "rx_data_loop data (Suc i) n (count + 1) (rx_push ?b p) = Some (count + 1 + of_nat ?k, p')"
      "port_serial_ok p'" "rx_queue p' = rx_queue (rx_push ?b p) @ take ?k (drop (Suc i) data)"
      "mb_tx_buf p' = mb_tx_buf (rx_push ?b p)" "mb_tx_len p' = mb_tx_len (rx_push ?b p)"
      using Suc.IH[of "rx_push ?b p" "Suc i" "count + 1"] push(1) Suc.prems(2) by auto
    show ?thesis unfolding step k d using p' push(2)
      by (intro exI[of _ p']) (simp add: rx_push_def)
  qed
qed simp

lemma rx_get_nonempty:
  assumes ok: "port_serial_ok p" and q: "rx_queue p = b # bs"
  shows "\<exists>p'. xMBPortSerialGetByte p = Some (Some b, p') \<and> port_serial_ok p' \<and> rx_queue p' = bs \<and>
    p' = p\<lparr>mb_rx_tail := mb_rx_tail p'\<rparr>"
proof -
  let ?h = "unat (mb_rx_head p)" and ?t = "unat (mb_rx_tail p)" and ?c = "rx_count p"
  let ?p = "p\<lparr>mb_rx_tail := of_nat ((?t + 1) mod MB_RX_BUF_SIZE)\<rparr>"
  have ht: "?h < 1024" "?t < 1024" and l: "length (mb_rx_buf p) = 1024"
    using ok by (simp_all add: port_serial_ok_def)
  have c: "?c = Suc (length bs)" using arg_cong[OF q, of length] by simp
  then have ne: "mb_rx_head p \<noteq> mb_rx_tail p" "?h \<noteq> ?t"
    using rx_empty_iff[OF ok] by (auto simp: word_unat_eq_iff)
  have cnt: "rx_count ?p = length bs"
    using ring_arith(5)[OF ht ne(2)] c by (simp add: rx_count_def)
  have nth: "(b # bs) ! i = mb_rx_buf p ! ((?t + i) mod 1024)" if "i < ?c" for i
    using that unfolding q[symmetric] by (simp add: rx_queue_def)
  have "b = mb_rx_buf p ! ?t" using nth[of 0] c ht by simp
  then have "xMBPortSerialGetByte p = Some (Some b, ?p)"
    using ne l ht by (simp add: xMBPortSerialGetByte_def)
  moreover have "rx_queue ?p = bs"
  proof (rule nth_equalityI)
    fix i assume "i < length (rx_queue ?p)"
    then have i: "i < length bs" using cnt by simp
    have "rx_queue ?p ! i = mb_rx_buf p ! (((?t + 1) mod 1024 + i) mod 1024)"
      using i cnt by (simp add: rx_queue_def)
    also have "((?t + 1) mod 1024 + i) mod 1024 = (?t + Suc i) mod 1024"
      by (metis add_Suc_right add_Suc_shift Suc_eq_plus1 mod_add_left_eq)
    finally show "rx_queue ?p ! i = bs ! i" using nth[of "Suc i"] i c by simp
  qed (use cnt in simp)
  moreover have "port_serial_ok ?p" using ok by (simp add: port_serial_ok_def)
  ultimately show ?thesis by (intro exI[of _ ?p]) simp
qed

lemma rx_get_empty: "port_serial_ok p \<Longrightarrow> rx_queue p = [] \<Longrightarrow> xMBPortSerialGetByte p = Some (None, p)"
  using rx_empty_iff[of p] by (simp add: xMBPortSerialGetByte_def rx_queue_def)

lemma rx_available_iff: "port_serial_ok p \<Longrightarrow> mb_usb_rx_available p \<longleftrightarrow> rx_queue p \<noteq> []"
  using rx_empty_iff[of p] by (auto simp: mb_usb_rx_available_def rx_queue_def)

interpretation rx_ring: bounded_fifo 1023 "\<lambda>_. True" port_serial_ok rx_queue
  "\<lambda>b p. map_option snd (mb_usb_rx_data [b] 1 p)" xMBPortSerialGetByte
proof unfold_locales
  fix s b assume "port_serial_ok s" "length (rx_queue s) < 1023"
  then show "\<exists>s'. map_option snd (mb_usb_rx_data [b] 1 s) = Some s' \<and> port_serial_ok s' \<and> rx_queue s' = rx_queue s @ [b]"
    using rx_data_loop_spec[of s 0 1 "[b]" 0] by (auto simp: mb_usb_rx_data_def min_def)
next
  fix s b bs assume "port_serial_ok s" "rx_queue s = b # bs"
  then show "\<exists>s'. xMBPortSerialGetByte s = Some (Some b, s') \<and> port_serial_ok s' \<and> rx_queue s' = bs"
    using rx_get_nonempty by blast
qed (simp add: rx_get_empty)

lemma rx_data_queue:
  assumes "port_serial_ok p" "unat len \<le> length data"
  shows "\<exists>p'. mb_usb_rx_data data len p = Some (of_nat (min (unat len) (1023 - rx_count p)), p') \<and>
    port_serial_ok p' \<and> rx_queue p' = rx_queue p @ take (min (unat len) (1023 - rx_count p)) data"
  using rx_data_loop_spec[OF assms(1), of 0 "unat len" data 0] assms(2)
  by (auto simp: mb_usb_rx_data_def)

text \<open>
  C6. The receive ring between the USB side and the Modbus stack is a lossless FIFO of 1023 bytes:
  \<^verbatim>\<open>mb_usb_rx_data\<close> appends as many bytes as fit and reports their number, and successive calls of
  \<^verbatim>\<open>xMBPortSerialGetByte\<close> return the bytes that were queued before and then the accepted ones, in
  order, after which \<^verbatim>\<open>mb_usb_rx_available\<close> is false.
\<close>

theorem rx_ring_fifo:
  assumes "port_serial_ok p" "unat len \<le> length data"
  shows "\<exists>n p' p''. mb_usb_rx_data data len p = Some (n, p') \<and>
    unat n = min (unat len) (1023 - rx_count p) \<and>
    rx_ring.get_n (rx_count p + unat n) p' = Some (rx_queue p @ take (unat n) data, p'') \<and>
    \<not> mb_usb_rx_available p''"
proof -
  let ?k = "min (unat len) (1023 - rx_count p)"
  obtain p' where p': "mb_usb_rx_data data len p = Some (of_nat ?k, p')" "port_serial_ok p'"
    "rx_queue p' = rx_queue p @ take ?k data"
    using rx_data_queue[OF assms] by blast
  have "?k < 65536" by linarith
  then have k: "unat (of_nat ?k :: u16) = ?k" by (simp add: unat_of_nat)
  have l: "length (rx_queue p') = rx_count p + ?k"
    unfolding p'(3) using assms(2) by simp
  obtain p'' where p'': "rx_ring.get_n (rx_count p + ?k) p' = Some (rx_queue p', p'')" "port_serial_ok p''"
    "rx_queue p'' = []"
    using rx_ring.get_n_prefix[OF p'(2), of "rx_count p + ?k"] l by auto
  have "\<not> mb_usb_rx_available p''" using rx_available_iff[OF p''(2)] p''(3) by blast
  then show ?thesis using p'(1) p''(1) k unfolding p'(3)
    by (intro exI[of _ "of_nat ?k"] exI[of _ p'] exI[of _ p'']) simp
qed

theorem rx_ring_fifo_witness:
  "\<exists>n p' p''. mb_usb_rx_data [1, 3, 0] 3 (port_serial_init\<lparr>mb_rx_head := 1022, mb_rx_tail := 1022\<rparr>) = Some (n, p') \<and>
    unat n = 3 \<and> rx_ring.get_n 3 p' = Some ([1, 3, 0], p'') \<and> \<not> mb_usb_rx_available p''"
proof -
  let ?p = "port_serial_init\<lparr>mb_rx_head := 1022, mb_rx_tail := 1022\<rparr>"
  have "port_serial_ok ?p" by (simp add: port_serial_ok_def port_serial_init_def)
  moreover have "rx_count ?p = 0" by (simp add: rx_count_def)
  ultimately show ?thesis using rx_ring_fifo[of ?p 3 "[1, 3, 0]"] by (auto simp: rx_queue_def)
qed

text \<open>The event slot keeps the last event only: a second post replaces the first.\<close>

lemma event_post_overwrites:
  "xMBPortEventGet (snd (xMBPortEventPost b (snd (xMBPortEventPost a e)))) =
     (Some b, e\<lparr>xEventInQueue := False, eQueuedEvent := b\<rparr>)"
  by (simp add: xMBPortEventGet_def xMBPortEventPost_def)

end
