(* ===== verification/Mb_Rtu.thy ===== *)
theory Mb_Rtu
  imports Mb_Crc Mb_Port
begin

text \<open>
  The RTU framing of \<^verbatim>\<open>FreeModbus/modbus/rtu/mbrtu.c\<close>: the receiver and transmitter state machines
  over the 256-byte frame buffer, on top of \<open>Mb_Port\<close>. The state has one field per static variable;
  \<^verbatim>\<open>pucSndBufferCur\<close> is an index into \<^verbatim>\<open>ucRTUBuf\<close>, which is the only array it ever points into;
  \<open>px_set\<close> says that \<^verbatim>\<open>eMBInit\<close> has stored the three callbacks of the porting layer.

  \<^verbatim>\<open>vMBPortSerialEnable\<close> (in \<^verbatim>\<open>portserial.c\<close>) and \<^verbatim>\<open>xMBRTUTransmitFSM\<close> call each other. Their first
  argument is the depth of the C stack, counted in calls of these two functions; \<open>None\<close> at every
  depth is a call that never returns. Assertions are compiled in (\<^verbatim>\<open>NDEBUG\<close> is not defined), and a
  failed one does not return.
\<close>

section \<open>The code\<close>

datatype eMBRcvState = STATE_RX_INIT | STATE_RX_IDLE | STATE_RX_RCV | STATE_RX_ERROR
datatype eMBSndState = STATE_TX_IDLE | STATE_TX_XMIT

abbreviation (input) MB_SER_PDU_SIZE_MIN :: u16 where "MB_SER_PDU_SIZE_MIN \<equiv> 4"
abbreviation (input) MB_SER_PDU_SIZE_MAX :: u16 where "MB_SER_PDU_SIZE_MAX \<equiv> 256"
abbreviation (input) MB_SER_PDU_PDU_OFF :: nat where "MB_SER_PDU_PDU_OFF \<equiv> 1"

record rtu =
  eSndState :: eMBSndState
  eRcvState :: eMBRcvState
  ucRTUBuf :: buffer
  pucSndBufferCur :: nat
  usSndBufferCount :: u16
  usRcvBufferPos :: u16
  ser :: port_serial
  tim :: port_timer
  evt :: port_event
  px_set :: bool

definition rtu_init :: rtu where
  "rtu_init = \<lparr>eSndState = STATE_TX_IDLE, eRcvState = STATE_RX_INIT, ucRTUBuf = replicate 256 0,
     pucSndBufferCur = 0, usSndBufferCount = 0, usRcvBufferPos = 0, ser = port_serial_init,
     tim = \<lparr>xT3_5Timer = False, xTimerExpired = False, timer_cmds = []\<rparr>,
     evt = \<lparr>eQueuedEvent = EV_READY, xEventInQueue = False\<rparr>, px_set = False\<rparr>"

definition eMBRTUInit ::
  "bool \<Rightarrow> bool \<Rightarrow> bool \<Rightarrow> u8 \<Rightarrow> u8 \<Rightarrow> u32 \<Rightarrow> eMBParity \<Rightarrow> u8 \<Rightarrow> rtu \<Rightarrow> (eMBErrorCode \<times> rtu) option"
where
  "eMBRTUInit tx_created rx_created timer_created ucSlaveAddress ucPort ulBaudRate eParity ucStopBits r =
     (let (ok, p) = xMBPortSerialInit tx_created rx_created ucPort ulBaudRate 8 eParity ucStopBits (ser r);
          r = r\<lparr>ser := p\<rparr>
      in if \<not> ok then Some (MB_EPORTERR, r)
         else do {
           usTimerT35_50us \<leftarrow> (if ulBaudRate > 19200 then Some 35
             else if 2 * ulBaudRate = 0 then None else Some ((7 * 220000) div (2 * ulBaudRate)));
           let (ok, t) = xMBPortTimersInit timer_created (ucast usTimerT35_50us) (tim r);
           let r = r\<lparr>tim := t\<rparr>;
           Some (if \<not> ok then MB_EPORTERR else MB_ENOERR, r)
         })"

fun vMBPortSerialEnable :: "nat \<Rightarrow> (nat \<Rightarrow> bool) \<Rightarrow> bool \<Rightarrow> bool \<Rightarrow> rtu \<Rightarrow> rtu option"
  and xMBRTUTransmitFSM :: "nat \<Rightarrow> (nat \<Rightarrow> bool) \<Rightarrow> rtu \<Rightarrow> (bool \<times> rtu) option"
where
  "vMBPortSerialEnable 0 send xRxEnable xTxEnable r = None"
| "vMBPortSerialEnable (Suc d) send xRxEnable xTxEnable r =
     (if xTxEnable then Some (r\<lparr>ser := (ser r)\<lparr>mb_tx_len := 0\<rparr>\<rparr>)
      else do {
        p \<leftarrow> serial_flush send (ser r);
        let r = r\<lparr>ser := p\<rparr>;
        assert_c (px_set r);
        (_, r) \<leftarrow> xMBRTUTransmitFSM d send r;
        Some r
      })"
| "xMBRTUTransmitFSM 0 send r = None"
| "xMBRTUTransmitFSM (Suc d) send r = do {
     assert_c (eRcvState r = STATE_RX_IDLE);
     case eSndState r of
       STATE_TX_IDLE \<Rightarrow> do {
         r \<leftarrow> vMBPortSerialEnable d send True False r;
         Some (False, r)
       }
     | STATE_TX_XMIT \<Rightarrow>
         if usSndBufferCount r \<noteq> 0 then do {
           b \<leftarrow> rd (ucRTUBuf r) (pucSndBufferCur r);
           (_, p) \<leftarrow> xMBPortSerialPutByte b (ser r);
           Some (False, r\<lparr>ser := p, pucSndBufferCur := pucSndBufferCur r + 1,
                          usSndBufferCount := usSndBufferCount r - 1\<rparr>)
         }
         else do {
           let (xNeedPoll, e) = xMBPortEventPost EV_FRAME_SENT (evt r);
           r \<leftarrow> vMBPortSerialEnable d send True False (r\<lparr>evt := e\<rparr>);
           Some (xNeedPoll, r\<lparr>eSndState := STATE_TX_IDLE\<rparr>)
         }
   }"

definition eMBRTUStart :: "nat \<Rightarrow> (nat \<Rightarrow> bool) \<Rightarrow> rtu \<Rightarrow> rtu option" where
  "eMBRTUStart d send r = do {
     r \<leftarrow> vMBPortSerialEnable d send True False (r\<lparr>eRcvState := STATE_RX_INIT\<rparr>);
     Some (r\<lparr>tim := vMBPortTimersEnable (tim r)\<rparr>)
   }"

definition eMBRTUStop :: "nat \<Rightarrow> (nat \<Rightarrow> bool) \<Rightarrow> rtu \<Rightarrow> rtu option" where
  "eMBRTUStop d send r = do {
     r \<leftarrow> vMBPortSerialEnable d send False False r;
     Some (r\<lparr>tim := vMBPortTimersDisable (tim r)\<rparr>)
   }"

text \<open>On success: the address, the index of the PDU in \<^verbatim>\<open>ucRTUBuf\<close> and its length.\<close>

definition eMBRTUReceive :: "rtu \<Rightarrow> (eMBErrorCode + u8 \<times> nat \<times> u16) option" where
  "eMBRTUReceive r = do {
     assert_c (usRcvBufferPos r \<le> MB_SER_PDU_SIZE_MAX);
     if usRcvBufferPos r \<ge> MB_SER_PDU_SIZE_MIN then do {
       crc \<leftarrow> usMBCRC16 (ucRTUBuf r) 0 (usRcvBufferPos r);
       if crc = 0 then do {
         ucRcvAddress \<leftarrow> rd (ucRTUBuf r) 0;
         Some (Inr (ucRcvAddress, MB_SER_PDU_PDU_OFF, usRcvBufferPos r - 1 - 2))
       }
       else Some (Inl MB_EIO)
     }
     else Some (Inl MB_EIO)
   }"

definition eMBRTUSend ::
  "nat \<Rightarrow> (nat \<Rightarrow> bool) \<Rightarrow> u8 \<Rightarrow> nat \<Rightarrow> u16 \<Rightarrow> rtu \<Rightarrow> (eMBErrorCode \<times> rtu) option"
where
  "eMBRTUSend d send ucSlaveAddress pucFrame usLength r =
     (if eRcvState r = STATE_RX_IDLE then do {
        assert_c (pucFrame \<ge> 1);
        let cur = pucFrame - 1;
        b \<leftarrow> wr (ucRTUBuf r) cur ucSlaveAddress;
        let n = 1 + usLength;
        usCRC16 \<leftarrow> usMBCRC16 b cur n;
        b \<leftarrow> wr b (unat n) (lo8 usCRC16);
        b \<leftarrow> wr b (unat (n + 1)) (hi8 usCRC16);
        r \<leftarrow> vMBPortSerialEnable d send False True
               (r\<lparr>pucSndBufferCur := cur, ucRTUBuf := b, usSndBufferCount := n + 2,
                  eSndState := STATE_TX_XMIT\<rparr>);
        Some (MB_ENOERR, r)
      }
      else Some (MB_EIO, r))"

text \<open>
  \<open>junk\<close> is the value of the uninitialised \<^verbatim>\<open>ucByte\<close>, which is what the machine uses when
  \<^verbatim>\<open>xMBPortSerialGetByte\<close> has no byte.
\<close>

definition xMBRTUReceiveFSM :: "u8 \<Rightarrow> rtu \<Rightarrow> (bool \<times> rtu) option" where
  "xMBRTUReceiveFSM junk r = do {
     assert_c (eSndState r = STATE_TX_IDLE);
     (got, p) \<leftarrow> xMBPortSerialGetByte (ser r);
     let ucByte = (case got of None \<Rightarrow> junk | Some b \<Rightarrow> b);
     let r = r\<lparr>ser := p\<rparr>;
     case eRcvState r of
       STATE_RX_INIT \<Rightarrow> Some (False, r\<lparr>tim := vMBPortTimersEnable (tim r)\<rparr>)
     | STATE_RX_ERROR \<Rightarrow> Some (False, r\<lparr>tim := vMBPortTimersEnable (tim r)\<rparr>)
     | STATE_RX_IDLE \<Rightarrow> do {
         b \<leftarrow> wr (ucRTUBuf r) 0 ucByte;
         Some (False, r\<lparr>ucRTUBuf := b, usRcvBufferPos := 1, eRcvState := STATE_RX_RCV,
                        tim := vMBPortTimersEnable (tim r)\<rparr>)
       }
     | STATE_RX_RCV \<Rightarrow>
         if usRcvBufferPos r < MB_SER_PDU_SIZE_MAX then do {
           b \<leftarrow> wr (ucRTUBuf r) (unat (usRcvBufferPos r)) ucByte;
           Some (False, r\<lparr>ucRTUBuf := b, usRcvBufferPos := usRcvBufferPos r + 1,
                          tim := vMBPortTimersEnable (tim r)\<rparr>)
         }
         else Some (False, r\<lparr>eRcvState := STATE_RX_ERROR, tim := vMBPortTimersEnable (tim r)\<rparr>)
   }"

definition xMBRTUTimerT35Expired :: "rtu \<Rightarrow> (bool \<times> rtu) option" where
  "xMBRTUTimerT35Expired r = do {
     (xNeedPoll, e) \<leftarrow> (case eRcvState r of
         STATE_RX_INIT \<Rightarrow> Some (xMBPortEventPost EV_READY (evt r))
       | STATE_RX_RCV \<Rightarrow> Some (xMBPortEventPost EV_FRAME_RECEIVED (evt r))
       | STATE_RX_ERROR \<Rightarrow> Some (False, evt r)
       | STATE_RX_IDLE \<Rightarrow> None);
     Some (xNeedPoll, r\<lparr>evt := e, tim := vMBPortTimersDisable (tim r), eRcvState := STATE_RX_IDLE\<rparr>)
   }"

text \<open>\<^verbatim>\<open>vMBPortTimersPoll\<close> of \<^verbatim>\<open>porttimer.c\<close>, which runs the callback in the Modbus task.\<close>

definition vMBPortTimersPoll :: "rtu \<Rightarrow> rtu option" where
  "vMBPortTimersPoll r =
     (if xTimerExpired (tim r) then do {
        assert_c (px_set r);
        (_, r) \<leftarrow> xMBRTUTimerT35Expired (r\<lparr>tim := (tim r)\<lparr>xTimerExpired := False\<rparr>\<rparr>);
        Some r
      }
      else Some r)"

text \<open>The receiver called once per byte, and the transmitter called once per empty event.\<close>

fun receive_n :: "nat \<Rightarrow> u8 \<Rightarrow> rtu \<Rightarrow> rtu option" where
  "receive_n 0 junk r = Some r"
| "receive_n (Suc n) junk r = do { (_, r) \<leftarrow> xMBRTUReceiveFSM junk r; receive_n n junk r }"

fun transmit_n :: "nat \<Rightarrow> (nat \<Rightarrow> bool) \<Rightarrow> rtu \<Rightarrow> rtu option" where
  "transmit_n 0 send r = Some r"
| "transmit_n (Suc n) send r = do { (_, r) \<leftarrow> xMBRTUTransmitFSM 1 send r; transmit_n n send r }"

definition rtu_ok :: "rtu \<Rightarrow> bool" where
  "rtu_ok r \<longleftrightarrow> length (ucRTUBuf r) = 256 \<and> unat (usRcvBufferPos r) \<le> 256 \<and> port_serial_ok (ser r)"

text \<open>The serial-line frame: address, PDU, CRC low byte first.\<close>

definition adu :: "u8 \<Rightarrow> buffer \<Rightarrow> buffer" where
  "adu a pdu = a # pdu @ [lo8 (crc16 (a # pdu)), hi8 (crc16 (a # pdu))]"

section \<open>The receiver\<close>

lemma adu_crc [simp]: "crc16 (adu a pdu) = 0"
  using crc16_own_crc[of "a # pdu"] by (simp add: adu_def)

lemma length_adu [simp]: "length (adu a pdu) = length pdu + 3"
  by (simp add: adu_def)

text \<open>The receiver after \<open>k\<close> bytes of a burst that started in the idle state.\<close>

definition received :: "buffer \<Rightarrow> rtu \<Rightarrow> bool" where
  "received bs r \<longleftrightarrow> eSndState r = STATE_TX_IDLE \<and>
     (if length bs \<le> 256
      then eRcvState r = STATE_RX_RCV \<and> unat (usRcvBufferPos r) = length bs \<and> take (length bs) (ucRTUBuf r) = bs
      else eRcvState r = STATE_RX_ERROR)"

lemma take_update_snoc: "n < length xs \<Longrightarrow> take (Suc n) (xs[n := x]) = take n xs @ [x]"
  by (simp add: take_Suc_conv_app_nth)

lemma receive_first:
  assumes "rtu_ok r" "eSndState r = STATE_TX_IDLE" "eRcvState r = STATE_RX_IDLE" "rx_queue (ser r) = b # bs"
  shows "\<exists>r'. xMBRTUReceiveFSM junk r = Some (False, r') \<and> rtu_ok r' \<and> received [b] r' \<and>
    rx_queue (ser r') = bs \<and> evt r' = evt r \<and> px_set r' = px_set r"
proof -
  obtain p' where p': "xMBPortSerialGetByte (ser r) = Some (Some b, p')" "port_serial_ok p'" "rx_queue p' = bs"
    using rx_ring.get_nonempty[of "ser r" b bs] assms(1,4) by (auto simp: rtu_ok_def)
  have "take 1 ((ucRTUBuf r)[0 := b]) = [b]" using assms(1) by (cases "ucRTUBuf r") (auto simp: rtu_ok_def)
  then show ?thesis using assms p'
    by (simp add: xMBRTUReceiveFSM_def rtu_ok_def received_def)
qed

lemma receive_next:
  assumes "rtu_ok r" "received xs r" "xs \<noteq> []" "rx_queue (ser r) = b # bs"
  shows "\<exists>r'. xMBRTUReceiveFSM junk r = Some (False, r') \<and> rtu_ok r' \<and> received (xs @ [b]) r' \<and>
    rx_queue (ser r') = bs \<and> evt r' = evt r \<and> px_set r' = px_set r"
proof -
  obtain p' where p': "xMBPortSerialGetByte (ser r) = Some (Some b, p')" "port_serial_ok p'" "rx_queue p' = bs"
    using rx_ring.get_nonempty[of "ser r" b bs] assms(1,4) by (auto simp: rtu_ok_def)
  consider "length xs < 256" | "length xs = 256" | "length xs > 256" by linarith
  then show ?thesis
  proof cases
    case 1
    then have pos: "unat (usRcvBufferPos r) = length xs" "take (length xs) (ucRTUBuf r) = xs"
      using assms(2) by (auto simp: received_def)
    then have "unat (usRcvBufferPos r + 1) = Suc (length xs)" using 1 by (simp add: unat_word_ariths)
    moreover have "usRcvBufferPos r < 256" using pos 1 by (simp add: word_less_nat_alt)
    moreover have "take (Suc (length xs)) ((ucRTUBuf r)[length xs := b]) = xs @ [b]"
      using take_update_snoc[of "length xs" "ucRTUBuf r" b] pos 1 assms(1) by (simp add: rtu_ok_def)
    ultimately show ?thesis using assms p' pos 1
      by (simp add: xMBRTUReceiveFSM_def rtu_ok_def received_def)
  next
    case 2
    then have "\<not> usRcvBufferPos r < 256" using assms(2) by (simp add: received_def word_less_nat_alt)
    then show ?thesis using assms p' 2 by (simp add: xMBRTUReceiveFSM_def rtu_ok_def received_def)
  next
    case 3
    then show ?thesis using assms p' by (simp add: xMBRTUReceiveFSM_def rtu_ok_def received_def)
  qed
qed

lemma receive_more:
  assumes "rtu_ok r" "received xs r" "xs \<noteq> []" "rx_queue (ser r) = bs"
  shows "\<exists>r'. receive_n (length bs) junk r = Some r' \<and> rtu_ok r' \<and> received (xs @ bs) r' \<and> evt r' = evt r"
  using assms
proof (induction bs arbitrary: r xs)
  case (Cons b bs)
  from receive_next[OF Cons.prems(1-4), of junk] obtain r1 where
    r1: "xMBRTUReceiveFSM junk r = Some (False, r1)" "rtu_ok r1" "received (xs @ [b]) r1"
      "rx_queue (ser r1) = bs" "evt r1 = evt r" by blast
  from Cons.IH[OF r1(2,3) _ r1(4)] r1 show ?case by simp
qed simp

lemma receive_burst:
  assumes "rtu_ok r" "eSndState r = STATE_TX_IDLE" "eRcvState r = STATE_RX_IDLE"
    "rx_queue (ser r) = bs" "bs \<noteq> []"
  shows "\<exists>r'. receive_n (length bs) junk r = Some r' \<and> rtu_ok r' \<and> received bs r' \<and> evt r' = evt r"
proof -
  obtain b bs' where bs: "bs = b # bs'" using assms(5) by (cases bs) auto
  from receive_first[OF assms(1-3), of b bs' junk] assms(4) bs obtain r1 where
    r1: "xMBRTUReceiveFSM junk r = Some (False, r1)" "rtu_ok r1" "received [b] r1"
      "rx_queue (ser r1) = bs'" "evt r1 = evt r" by blast
  from receive_more[OF r1(2,3) _ r1(4), of junk] r1 bs show ?thesis by simp
qed

lemma t35_after_burst:
  assumes "rtu_ok r" "received bs r"
  shows "\<exists>n r'. xMBRTUTimerT35Expired r = Some (n, r') \<and> rtu_ok r' \<and> eRcvState r' = STATE_RX_IDLE \<and>
    eSndState r' = STATE_TX_IDLE \<and> ucRTUBuf r' = ucRTUBuf r \<and> usRcvBufferPos r' = usRcvBufferPos r \<and>
    evt r' = (if length bs \<le> 256 then (evt r)\<lparr>xEventInQueue := True, eQueuedEvent := EV_FRAME_RECEIVED\<rparr> else evt r)"
  using assms
  by (auto simp: xMBRTUTimerT35Expired_def received_def rtu_ok_def xMBPortEventPost_def split: if_splits)

lemma rtu_receive_val:
  assumes "rtu_ok r" "unat (usRcvBufferPos r) = length bs" "take (length bs) (ucRTUBuf r) = bs"
  shows "eMBRTUReceive r =
    Some (if 4 \<le> length bs \<and> crc16 bs = 0 then Inr (bs ! 0, 1, of_nat (length bs - 3)) else Inl MB_EIO)"
proof -
  have l: "length bs \<le> 256" "length (ucRTUBuf r) = 256" using assms by (auto simp: rtu_ok_def)
  have le: "usRcvBufferPos r \<le> 256" using assms(2) l by (simp add: word_le_nat_alt)
  show ?thesis
  proof (cases "4 \<le> length bs")
    case True
    then have ge: "4 \<le> usRcvBufferPos r" using assms(2) by (simp add: word_le_nat_alt)
    have "usMBCRC16 (ucRTUBuf r) 0 (usRcvBufferPos r) = Some (crc16 bs)"
      using usMBCRC16_total[of 0 "usRcvBufferPos r" "ucRTUBuf r"] assms(2,3) l by simp
    moreover have "usRcvBufferPos r = of_nat (length bs)" using assms(2)[symmetric] by simp
    then have "usRcvBufferPos r - 3 = of_nat (length bs - 3)" using True by (simp add: of_nat_diff)
    moreover have "ucRTUBuf r ! 0 = bs ! 0" using True assms(3) by (metis gr0I nth_take not_numeral_le_zero)
    ultimately show ?thesis using le ge True l by (simp add: eMBRTUReceive_def)
  next
    case False
    then have "\<not> 4 \<le> usRcvBufferPos r" using assms(2) by (simp add: word_le_nat_alt)
    with False le show ?thesis by (simp add: eMBRTUReceive_def)
  qed
qed

text \<open>
  C3. Reception of one frame: a burst of bytes that arrives in the idle state is read byte by byte by
  \<^verbatim>\<open>xMBRTUReceiveFSM\<close>; when the inter-frame timer expires the receiver is idle again, a burst of at
  most 256 bytes is announced by \<open>EV_FRAME_RECEIVED\<close>, and \<^verbatim>\<open>eMBRTUReceive\<close> delivers its address
  and PDU exactly if it has at least 4 bytes and a correct CRC. A longer burst is dropped without an event. No
  assertion fails and no access leaves a buffer.
\<close>

theorem rtu_frame_reception:
  assumes "rtu_ok r" "eSndState r = STATE_TX_IDLE" "eRcvState r = STATE_RX_IDLE"
    "rx_queue (ser r) = bs" "bs \<noteq> []"
  shows "\<exists>r1 n r2. receive_n (length bs) junk r = Some r1 \<and> xMBRTUTimerT35Expired r1 = Some (n, r2) \<and>
    rtu_ok r2 \<and> eRcvState r2 = STATE_RX_IDLE \<and>
    (if length bs \<le> 256
     then evt r2 = (evt r)\<lparr>xEventInQueue := True, eQueuedEvent := EV_FRAME_RECEIVED\<rparr> \<and>
       eMBRTUReceive r2 =
         Some (if 4 \<le> length bs \<and> crc16 bs = 0 then Inr (bs ! 0, 1, of_nat (length bs - 3)) else Inl MB_EIO)
     else evt r2 = evt r)"
proof -
  obtain r1 where r1: "receive_n (length bs) junk r = Some r1" "rtu_ok r1" "received bs r1" "evt r1 = evt r"
    using receive_burst[OF assms] by blast
  obtain n r2 where r2: "xMBRTUTimerT35Expired r1 = Some (n, r2)" "rtu_ok r2" "eRcvState r2 = STATE_RX_IDLE"
    "ucRTUBuf r2 = ucRTUBuf r1" "usRcvBufferPos r2 = usRcvBufferPos r1"
    "evt r2 = (if length bs \<le> 256 then (evt r1)\<lparr>xEventInQueue := True, eQueuedEvent := EV_FRAME_RECEIVED\<rparr> else evt r1)"
    using t35_after_burst[OF r1(2,3)] by blast
  show ?thesis
  proof (cases "length bs \<le> 256")
    case True
    then have "unat (usRcvBufferPos r2) = length bs" "take (length bs) (ucRTUBuf r2) = bs"
      using r1(3) r2(4,5) by (auto simp: received_def)
    from rtu_receive_val[OF r2(2) this] r1 r2 True show ?thesis by auto
  qed (use r1 r2 in auto)
qed

section \<open>The transmitter\<close>

lemma rtu_send_val:
  assumes "rtu_ok r" "eRcvState r = STATE_RX_IDLE" "unat n = length pdu" "length pdu \<le> 253"
    "take (length pdu) (drop 1 (ucRTUBuf r)) = pdu"
  shows "\<exists>r'. eMBRTUSend (Suc d) send a 1 n r = Some (MB_ENOERR, r') \<and> rtu_ok r' \<and>
    take (length pdu + 3) (ucRTUBuf r') = adu a pdu \<and> pucSndBufferCur r' = 0 \<and>
    unat (usSndBufferCount r') = length pdu + 3 \<and> eSndState r' = STATE_TX_XMIT \<and>
    eRcvState r' = STATE_RX_IDLE \<and> mb_tx_len (ser r') = 0 \<and> evt r' = evt r"
proof -
  let ?b = "(ucRTUBuf r)[0 := a]" and ?l = "length pdu"
  have l: "length (ucRTUBuf r) = 256" using assms(1) by (simp add: rtu_ok_def)
  then obtain x xs where x: "ucRTUBuf r = x # xs" by (cases "ucRTUBuf r") auto
  have t: "take (Suc ?l) ?b = a # pdu" using assms(5) x by simp
  have u: "unat (1 + n) = Suc ?l" "unat (1 + n + 1) = Suc (Suc ?l)" "unat (1 + n + 2) = ?l + 3"
    using assms(3,4) by (simp_all add: unat_word_ariths)
  let ?c = "crc16 (a # pdu)"
  let ?b2 = "?b[Suc ?l := lo8 ?c, Suc (Suc ?l) := hi8 ?c]"
  have crc: "usMBCRC16 ?b 0 (1 + n) = Some ?c"
    using usMBCRC16_total[of 0 "1 + n" ?b] u l assms(4) t by simp
  have "take (?l + 3) ?b2 = adu a pdu"
    using take_update_snoc[of "Suc ?l" ?b "lo8 ?c"]
      take_update_snoc[of "Suc (Suc ?l)" "?b[Suc ?l := lo8 ?c]" "hi8 ?c"] t l assms(4)
    by (simp add: adu_def numeral_3_eq_3)
  then show ?thesis using assms(1,2,4) crc u l
    by (simp add: eMBRTUSend_def Let_def rtu_ok_def port_serial_ok_def add.commute[of 1 n])
qed

lemma transmit_step:
  assumes "rtu_ok r" "eRcvState r = STATE_RX_IDLE" "eSndState r = STATE_TX_XMIT" "usSndBufferCount r \<noteq> 0"
    "pucSndBufferCur r < 256" "unat (mb_tx_len (ser r)) < 256"
  shows "\<exists>r'. xMBRTUTransmitFSM 1 send r = Some (False, r') \<and> rtu_ok r' \<and>
    eRcvState r' = STATE_RX_IDLE \<and> eSndState r' = STATE_TX_XMIT \<and> ucRTUBuf r' = ucRTUBuf r \<and>
    pucSndBufferCur r' = Suc (pucSndBufferCur r) \<and> unat (usSndBufferCount r') = unat (usSndBufferCount r) - 1 \<and>
    unat (mb_tx_len (ser r')) = Suc (unat (mb_tx_len (ser r))) \<and>
    take (Suc (unat (mb_tx_len (ser r)))) (mb_tx_buf (ser r')) =
      take (unat (mb_tx_len (ser r))) (mb_tx_buf (ser r)) @ [ucRTUBuf r ! pucSndBufferCur r]"
proof -
  let ?t = "unat (mb_tx_len (ser r))"
  have l: "length (ucRTUBuf r) = 256" "length (mb_tx_buf (ser r)) = 256"
    using assms(1) by (simp_all add: rtu_ok_def port_serial_ok_def)
  have u: "unat (mb_tx_len (ser r) + 1) = Suc ?t" using assms(6) by (simp add: unat_word_ariths)
  have c: "unat (usSndBufferCount r - 1) = unat (usSndBufferCount r) - 1"
    using assms(4) by (simp add: unat_minus_one)
  show ?thesis using assms l u c take_update_snoc[of ?t "mb_tx_buf (ser r)"]
    by (simp add: xMBPortSerialPutByte_def rtu_ok_def port_serial_ok_def)
qed

lemma transmit_rest:
  assumes "rtu_ok r" "eRcvState r = STATE_RX_IDLE" "eSndState r = STATE_TX_XMIT"
    "unat (usSndBufferCount r) = n" "pucSndBufferCur r + n \<le> 256" "unat (mb_tx_len (ser r)) + n \<le> 256"
  shows "\<exists>r'. transmit_n n send r = Some r' \<and> rtu_ok r' \<and> eRcvState r' = STATE_RX_IDLE \<and>
    eSndState r' = STATE_TX_XMIT \<and> usSndBufferCount r' = 0 \<and>
    unat (mb_tx_len (ser r')) = unat (mb_tx_len (ser r)) + n \<and>
    take (unat (mb_tx_len (ser r)) + n) (mb_tx_buf (ser r')) =
      take (unat (mb_tx_len (ser r))) (mb_tx_buf (ser r)) @ take n (drop (pucSndBufferCur r) (ucRTUBuf r))"
  using assms
proof (induction n arbitrary: r)
  case 0
  then show ?case by (auto simp: word_unat_eq_iff)
next
  case (Suc n)
  have nz: "usSndBufferCount r \<noteq> 0" using Suc.prems(4) by auto
  from transmit_step[OF Suc.prems(1-3) nz, of send] Suc.prems(5,6) obtain r1 where
    r1: "xMBRTUTransmitFSM 1 send r = Some (False, r1)" "rtu_ok r1" "eRcvState r1 = STATE_RX_IDLE"
      "eSndState r1 = STATE_TX_XMIT" "ucRTUBuf r1 = ucRTUBuf r" "pucSndBufferCur r1 = Suc (pucSndBufferCur r)"
      "unat (usSndBufferCount r1) = n" "unat (mb_tx_len (ser r1)) = Suc (unat (mb_tx_len (ser r)))"
      "take (Suc (unat (mb_tx_len (ser r)))) (mb_tx_buf (ser r1)) =
        take (unat (mb_tx_len (ser r))) (mb_tx_buf (ser r)) @ [ucRTUBuf r ! pucSndBufferCur r]"
    using Suc.prems(4) by auto
  have l: "pucSndBufferCur r < length (ucRTUBuf r)" using Suc.prems(1,5) by (simp add: rtu_ok_def)
  from Suc.IH[OF r1(2-4,7)] r1(5,6,8) Suc.prems(5,6) obtain r' where
    r': "transmit_n n send r1 = Some r'" "rtu_ok r'" "eRcvState r' = STATE_RX_IDLE"
      "eSndState r' = STATE_TX_XMIT" "usSndBufferCount r' = 0"
      "unat (mb_tx_len (ser r')) = Suc (unat (mb_tx_len (ser r))) + n"
      "take (Suc (unat (mb_tx_len (ser r))) + n) (mb_tx_buf (ser r')) =
        take (Suc (unat (mb_tx_len (ser r)))) (mb_tx_buf (ser r1)) @ take n (drop (Suc (pucSndBufferCur r)) (ucRTUBuf r))"
    by auto
  have "take (Suc n) (drop (pucSndBufferCur r) (ucRTUBuf r)) =
      ucRTUBuf r ! pucSndBufferCur r # take n (drop (Suc (pucSndBufferCur r)) (ucRTUBuf r))"
    using l by (metis Cons_nth_drop_Suc take_Suc_Cons)
  with r1(1,9) r' show ?case by (simp del: One_nat_def)
qed

text \<open>
  \<^verbatim>\<open>eMBRTUSend\<close> turns a PDU of at most 253 bytes into the serial-line frame: address, PDU, CRC low
  byte first, all inside \<^verbatim>\<open>ucRTUBuf\<close>; \<open>length + 3\<close> transmitter events then hand exactly this frame, in
  order, to the port's transmit buffer.
\<close>

theorem rtu_send_transmits_adu:
  assumes "rtu_ok r" "eRcvState r = STATE_RX_IDLE" "unat n = length pdu" "length pdu \<le> 253"
    "take (length pdu) (drop 1 (ucRTUBuf r)) = pdu"
  shows "\<exists>r1 r2. eMBRTUSend (Suc d) send a 1 n r = Some (MB_ENOERR, r1) \<and>
    transmit_n (length pdu + 3) send r1 = Some r2 \<and> rtu_ok r2 \<and>
    unat (mb_tx_len (ser r2)) = length pdu + 3 \<and>
    take (length pdu + 3) (mb_tx_buf (ser r2)) = adu a pdu"
proof -
  obtain r1 where r1: "eMBRTUSend (Suc d) send a 1 n r = Some (MB_ENOERR, r1)" "rtu_ok r1"
    "take (length pdu + 3) (ucRTUBuf r1) = adu a pdu" "pucSndBufferCur r1 = 0"
    "unat (usSndBufferCount r1) = length pdu + 3" "eSndState r1 = STATE_TX_XMIT"
    "eRcvState r1 = STATE_RX_IDLE" "mb_tx_len (ser r1) = 0"
    using rtu_send_val[OF assms] by blast
  with transmit_rest[OF r1(2,7,6,5)] assms(4) show ?thesis by auto
qed

text \<open>
  C4. Round trip between two stations: the bytes one station puts on the line are those an idle second station
  finds in its receive ring, and that station delivers them with the same address and the same PDU.
\<close>

theorem rtu_send_receive_roundtrip:
  assumes "rtu_ok r" "eRcvState r = STATE_RX_IDLE" "unat n = length pdu" "length pdu \<le> 253" "pdu \<noteq> []"
    "take (length pdu) (drop 1 (ucRTUBuf r)) = pdu"
    and q: "rtu_ok q" "eSndState q = STATE_TX_IDLE" "eRcvState q = STATE_RX_IDLE"
    and qq: "rx_queue (ser q) = adu a pdu"
  shows "\<exists>r1. eMBRTUSend (Suc d) send a 1 n r = Some (MB_ENOERR, r1) \<and>
    take (unat (usSndBufferCount r1)) (ucRTUBuf r1) = rx_queue (ser q) \<and>
     (\<exists>q1 m q2. receive_n (length pdu + 3) junk q = Some q1 \<and> xMBRTUTimerT35Expired q1 = Some (m, q2) \<and>
        eMBRTUReceive q2 = Some (Inr (a, 1, n)) \<and> take (length pdu) (drop 1 (ucRTUBuf q2)) = pdu)"
proof -
  obtain r1 where r1: "eMBRTUSend (Suc d) send a 1 n r = Some (MB_ENOERR, r1)"
    "take (length pdu + 3) (ucRTUBuf r1) = adu a pdu" "unat (usSndBufferCount r1) = length pdu + 3"
    using rtu_send_val[OF assms(1-4,6)] by blast
  have "\<exists>q1 m q2. receive_n (length pdu + 3) junk q = Some q1 \<and> xMBRTUTimerT35Expired q1 = Some (m, q2) \<and>
        eMBRTUReceive q2 = Some (Inr (a, 1, n)) \<and> take (length pdu) (drop 1 (ucRTUBuf q2)) = pdu"
  proof -
    have len: "length (adu a pdu) \<le> 256" "4 \<le> length (adu a pdu)" using assms(4,5) by (cases pdu; simp)+
    obtain q1 where q1: "receive_n (length (adu a pdu)) junk q = Some q1" "rtu_ok q1" "received (adu a pdu) q1"
      using receive_burst[OF q qq] by (auto simp: adu_def)
    obtain m q2 where q2: "xMBRTUTimerT35Expired q1 = Some (m, q2)" "rtu_ok q2" "ucRTUBuf q2 = ucRTUBuf q1"
      "usRcvBufferPos q2 = usRcvBufferPos q1" using t35_after_burst[OF q1(2,3)] by blast
    have rec: "unat (usRcvBufferPos q2) = length (adu a pdu)" "take (length (adu a pdu)) (ucRTUBuf q2) = adu a pdu"
      using q1(3) q2 len by (auto simp: received_def)
    have "n = of_nat (length pdu)" using assms(3)[symmetric] by simp
    moreover have "adu a pdu ! 0 = a" by (simp add: adu_def)
    ultimately have "eMBRTUReceive q2 = Some (Inr (a, 1, n))"
      using rtu_receive_val[OF q2(2) rec] len by simp
    moreover have "take (length pdu) (drop 1 (ucRTUBuf q2)) = take (length pdu) (drop 1 (adu a pdu))"
      by (subst rec(2)[symmetric]) (simp add: drop_take)
    then have "take (length pdu) (drop 1 (ucRTUBuf q2)) = pdu" by (simp add: adu_def)
    ultimately show ?thesis using q1(1) q2(1) by auto
  qed
  with r1 qq show ?thesis by simp
qed

section \<open>Calls that never return\<close>

lemma transmitter_diverges:
  "eSndState r = STATE_TX_IDLE \<or> usSndBufferCount r = 0 \<Longrightarrow>
     xMBRTUTransmitFSM d send r = None \<and> vMBPortSerialEnable d send rx False r = None"
proof (induction d arbitrary: r rx)
  case (Suc d)
  have "xMBRTUTransmitFSM (Suc d) send r = None"
    using Suc.prems Suc.IH[of r True] Suc.IH[of "r\<lparr>evt := snd (xMBPortEventPost EV_FRAME_SENT (evt r))\<rparr>" True]
    by (auto simp: assert_c_def xMBPortEventPost_def split: eMBSndState.splits)
  moreover have "vMBPortSerialEnable (Suc d) send rx False r = None"
    using Suc.prems Suc.IH by (cases "serial_flush send (ser r)") (auto simp: Let_def assert_c_def)
  ultimately show ?case by blast
qed simp

text \<open>
  The transmitter never finishes. \<^verbatim>\<open>vMBPortSerialEnable(_, FALSE)\<close> calls the transmit state machine,
  which, when its frame is used up or when it is idle, calls \<^verbatim>\<open>vMBPortSerialEnable(TRUE, FALSE)\<close> again
  before it leaves that state: neither call returns, at any stack depth.
\<close>

theorem transmit_completion_never_returns:
  assumes "eSndState r = STATE_TX_IDLE \<or> usSndBufferCount r = 0"
  shows "\<forall>d. xMBRTUTransmitFSM d send r = None \<and> vMBPortSerialEnable d send xRxEnable False r = None"
  using transmitter_diverges[OF assms] by blast

theorem transmit_completion_never_returns_witness:
  "\<forall>d. xMBRTUTransmitFSM d (\<lambda>_. True) (rtu_init\<lparr>eRcvState := STATE_RX_IDLE, px_set := True\<rparr>) = None \<and>
     vMBPortSerialEnable d (\<lambda>_. True) True False (rtu_init\<lparr>eRcvState := STATE_RX_IDLE, px_set := True\<rparr>) = None"
  by (rule transmit_completion_never_returns) (simp add: rtu_init_def)

lemma start_never_returns: "eMBRTUStart d send r = None"
proof -
  have "vMBPortSerialEnable d send True False r' = None" if "eRcvState r' = STATE_RX_INIT" for r'
  proof (cases d)
    case (Suc e)
    have "xMBRTUTransmitFSM e send (r'\<lparr>ser := p\<rparr>) = None" for p using that by (cases e) auto
    then show ?thesis by (cases "serial_flush send (ser r')") (auto simp: Suc Let_def assert_c_def)
  qed simp
  then show ?thesis by (simp add: eMBRTUStart_def)
qed

section \<open>A frame on the wire\<close>

text \<open>An idle station whose receive ring holds a frame for PDU \<open>[3, 7]\<close>, and the same station about to send it.\<close>

definition demo_receiver :: rtu where
  "demo_receiver = rtu_init\<lparr>eRcvState := STATE_RX_IDLE,
     ser := port_serial_init\<lparr>mb_rx_buf := adu 1 [3, 7] @ replicate 1019 0, mb_rx_head := 5\<rparr>\<rparr>"

definition demo_sender :: rtu where
  "demo_sender = rtu_init\<lparr>eRcvState := STATE_RX_IDLE, ucRTUBuf := [0, 3, 7] @ replicate 253 0\<rparr>"

lemma demo_receiver_simps:
  "rtu_ok demo_receiver" "eSndState demo_receiver = STATE_TX_IDLE" "eRcvState demo_receiver = STATE_RX_IDLE"
  "rx_queue (ser demo_receiver) = adu 1 [3, 7]"
proof -
  show "rtu_ok demo_receiver"
    by (simp add: demo_receiver_def rtu_init_def rtu_ok_def port_serial_ok_def port_serial_init_def)
  show "eSndState demo_receiver = STATE_TX_IDLE" "eRcvState demo_receiver = STATE_RX_IDLE"
    by (simp_all add: demo_receiver_def rtu_init_def)
  have "rx_count (ser demo_receiver) = 5" by (simp add: demo_receiver_def rx_count_def port_serial_init_def)
  moreover have "[0..<5] = [0, 1, 2, 3, 4]" by (simp add: upt_rec)
  ultimately show "rx_queue (ser demo_receiver) = adu 1 [3, 7]"
    by (simp add: rx_queue_def demo_receiver_def port_serial_init_def adu_def)
qed

lemma demo_sender_simps:
  "rtu_ok demo_sender" "eRcvState demo_sender = STATE_RX_IDLE"
  "take (length [3, 7 :: u8]) (drop 1 (ucRTUBuf demo_sender)) = [3, 7]"
  by (simp_all add: demo_sender_def rtu_init_def rtu_ok_def port_serial_ok_def port_serial_init_def)

theorem rtu_frame_reception_witness:
  "\<exists>r1 n r2. receive_n 5 0 demo_receiver = Some r1 \<and> xMBRTUTimerT35Expired r1 = Some (n, r2) \<and>
     eMBRTUReceive r2 = Some (Inr (1, 1, 2))"
proof -
  have "adu 1 [3, 7] \<noteq> []" "adu 1 [3, 7] ! 0 = 1" by (simp_all add: adu_def)
  then show ?thesis
    using rtu_frame_reception[OF demo_receiver_simps, of 0] by auto
qed

theorem rtu_send_transmits_adu_witness:
  "\<exists>r1 r2. eMBRTUSend 1 (\<lambda>_. True) 1 1 2 demo_sender = Some (MB_ENOERR, r1) \<and>
     transmit_n 5 (\<lambda>_. True) r1 = Some r2 \<and> take 5 (mb_tx_buf (ser r2)) = adu 1 [3, 7]"
  using rtu_send_transmits_adu[OF demo_sender_simps(1,2) _ _ demo_sender_simps(3), of 2 0 "\<lambda>_. True" 1] by auto

theorem rtu_send_receive_roundtrip_witness:
  "\<exists>r1. eMBRTUSend 1 (\<lambda>_. True) 1 1 2 demo_sender = Some (MB_ENOERR, r1) \<and>
    take (unat (usSndBufferCount r1)) (ucRTUBuf r1) = rx_queue (ser demo_receiver) \<and>
     (\<exists>q1 m q2. receive_n 5 0 demo_receiver = Some q1 \<and> xMBRTUTimerT35Expired q1 = Some (m, q2) \<and>
        eMBRTUReceive q2 = Some (Inr (1, 1, 2)) \<and> take (length [3, 7 :: u8]) (drop 1 (ucRTUBuf q2)) = [3, 7])"
  using rtu_send_receive_roundtrip[OF demo_sender_simps(1,2) _ _ _ demo_sender_simps(3)
    demo_receiver_simps, of 2 0 "\<lambda>_. True" 0] by simp

end
