(* ===== verification/Mb_Stack.thy ===== *)
theory Mb_Stack
  imports Mb_Func Mb_Rtu
begin

text \<open>
  The protocol stack of \<^verbatim>\<open>FreeModbus/modbus/mb.c\<close> (initialisation, the handler table, the poll loop)
  and the byte pump of \<^verbatim>\<open>usb_task_function\<close> in \<^verbatim>\<open>USER/main.c\<close> that drives it.

  Function pointers to handlers are names (\<open>fn\<close>): the ten handlers the table starts with, and \<open>FnUser k\<close>
  for a handler an application registers, whose code is the argument \<open>user\<close>. The pointers that
  \<^verbatim>\<open>eMBInit\<close> stores are all set together, which is the flag \<open>px_set\<close> of the RTU state.
  \<^verbatim>\<open>pvMBFrameCloseCur\<close> is NULL in every build, as \<^verbatim>\<open>MB_PORT_HAS_CLOSE\<close> is 0. The static locals of
  \<^verbatim>\<open>eMBPoll\<close> are fields of the state.
\<close>

section \<open>The code\<close>

datatype mb_state = STATE_ENABLED | STATE_DISABLED | STATE_NOT_INITIALIZED

datatype fn =
    FnReportSlaveID | FnReadInputRegister | FnReadHoldingRegister | FnWriteMultipleHoldingRegister
  | FnWriteHoldingRegister | FnReadWriteMultipleHoldingRegister | FnReadCoils | FnWriteCoil
  | FnWriteMultipleCoils | FnReadDiscreteInputs | FnUser nat

fun call_fn :: "(nat \<Rightarrow> handler) \<Rightarrow> fn \<Rightarrow> handler" where
  "call_fn user FnReportSlaveID = eMBFuncReportSlaveID"
| "call_fn user FnReadInputRegister = eMBFuncReadInputRegister"
| "call_fn user FnReadHoldingRegister = eMBFuncReadHoldingRegister"
| "call_fn user FnWriteMultipleHoldingRegister = eMBFuncWriteMultipleHoldingRegister"
| "call_fn user FnWriteHoldingRegister = eMBFuncWriteHoldingRegister"
| "call_fn user FnReadWriteMultipleHoldingRegister = eMBFuncReadWriteMultipleHoldingRegister"
| "call_fn user FnReadCoils = eMBFuncReadCoils"
| "call_fn user FnWriteCoil = eMBFuncWriteCoil"
| "call_fn user FnWriteMultipleCoils = eMBFuncWriteMultipleCoils"
| "call_fn user FnReadDiscreteInputs = eMBFuncReadDiscreteInputs"
| "call_fn user (FnUser k) = user k"

abbreviation (input) MB_FUNC_HANDLERS_MAX :: nat where "MB_FUNC_HANDLERS_MAX \<equiv> 16"

type_synonym handler_table = "(u8 \<times> fn option) list"

definition xFuncHandlers_init :: handler_table where
  "xFuncHandlers_init =
     [(MB_FUNC_OTHER_REPORT_SLAVEID, Some FnReportSlaveID),
      (MB_FUNC_READ_INPUT_REGISTER, Some FnReadInputRegister),
      (MB_FUNC_READ_HOLDING_REGISTER, Some FnReadHoldingRegister),
      (MB_FUNC_WRITE_MULTIPLE_REGISTERS, Some FnWriteMultipleHoldingRegister),
      (MB_FUNC_WRITE_REGISTER, Some FnWriteHoldingRegister),
      (MB_FUNC_READWRITE_MULTIPLE_REGISTERS, Some FnReadWriteMultipleHoldingRegister),
      (MB_FUNC_READ_COILS, Some FnReadCoils),
      (MB_FUNC_WRITE_SINGLE_COIL, Some FnWriteCoil),
      (MB_FUNC_WRITE_MULTIPLE_COILS, Some FnWriteMultipleCoils),
      (MB_FUNC_READ_DISCRETE_INPUTS, Some FnReadDiscreteInputs)] @ replicate 6 (0, None)"

record mb =
  ucMBAddress :: u8
  eMBCurrentMode :: eMBMode
  eMBState :: mb_state
  xFuncHandlers :: handler_table
  ucMBFrame :: "nat option"
  ucRcvAddress :: u8
  ucFunctionCode :: u8
  usLength :: u16
  eException :: eMBException
  rtu_st :: rtu
  data_st :: mb_data

definition mb_init_state :: mb where
  "mb_init_state = \<lparr>ucMBAddress = 0, eMBCurrentMode = MB_RTU, eMBState = STATE_NOT_INITIALIZED,
     xFuncHandlers = xFuncHandlers_init, ucMBFrame = None, ucRcvAddress = 0, ucFunctionCode = 0,
     usLength = 0, eException = MB_EX_NONE, rtu_st = rtu_init, data_st = mb_data_init\<rparr>"

definition eMBInit ::
  "bool \<Rightarrow> bool \<Rightarrow> bool \<Rightarrow> eMBMode \<Rightarrow> u8 \<Rightarrow> u8 \<Rightarrow> u32 \<Rightarrow> eMBParity \<Rightarrow> u8 \<Rightarrow> mb \<Rightarrow> (eMBErrorCode \<times> mb) option"
where
  "eMBInit tx_created rx_created timer_created eMode ucSlaveAddress ucPort ulBaudRate eParity ucStopBits m =
     (if ucSlaveAddress = MB_ADDRESS_BROADCAST \<or> ucSlaveAddress < MB_ADDRESS_MIN \<or> ucSlaveAddress > MB_ADDRESS_MAX
      then Some (MB_EINVAL, m)
      else do {
        let m = m\<lparr>ucMBAddress := ucSlaveAddress\<rparr>;
        (eStatus, m) \<leftarrow> (case eMode of
            MB_RTU \<Rightarrow> do {
              (e, r) \<leftarrow> eMBRTUInit tx_created rx_created timer_created (ucMBAddress m) ucPort ulBaudRate
                          eParity ucStopBits ((rtu_st m)\<lparr>px_set := True\<rparr>);
              Some (e, m\<lparr>rtu_st := r\<rparr>)
            }
          | _ \<Rightarrow> Some (MB_EINVAL, m));
        if eStatus = MB_ENOERR then do {
          let (ok, e) = xMBPortEventInit (evt (rtu_st m));
          let m = m\<lparr>rtu_st := (rtu_st m)\<lparr>evt := e\<rparr>\<rparr>;
          Some (if \<not> ok then (MB_EPORTERR, m)
                else (MB_ENOERR, m\<lparr>eMBCurrentMode := eMode, eMBState := STATE_DISABLED\<rparr>))
        }
        else Some (eStatus, m)
      })"

text \<open>The two loops of \<^verbatim>\<open>eMBRegisterCB\<close>: the slot to use, if there is one.\<close>

fun register_slot :: "fn \<Rightarrow> nat \<Rightarrow> handler_table \<Rightarrow> nat option" where
  "register_slot h i [] = None"
| "register_slot h i ((c, g) # t) = (if g = None \<or> g = Some h then Some i else register_slot h (Suc i) t)"

fun remove_slot :: "u8 \<Rightarrow> nat \<Rightarrow> handler_table \<Rightarrow> nat option" where
  "remove_slot fc i [] = None"
| "remove_slot fc i ((c, g) # t) = (if c = fc then Some i else remove_slot fc (Suc i) t)"

definition eMBRegisterCB :: "u8 \<Rightarrow> fn option \<Rightarrow> handler_table \<Rightarrow> eMBErrorCode \<times> handler_table" where
  "eMBRegisterCB fc pxHandler t =
     (if 0 < fc \<and> fc \<le> 127 then
        (case pxHandler of
           Some h \<Rightarrow> (case register_slot h 0 t of
               Some i \<Rightarrow> (MB_ENOERR, t[i := (fc, Some h)])
             | None \<Rightarrow> (MB_ENORES, t))
         | None \<Rightarrow> (case remove_slot fc 0 t of
               Some i \<Rightarrow> (MB_ENOERR, t[i := (0, None)])
             | None \<Rightarrow> (MB_ENOERR, t)))
      else (MB_EINVAL, t))"

definition eMBClose :: "mb \<Rightarrow> eMBErrorCode" where
  "eMBClose m = (if eMBState m = STATE_DISABLED then MB_ENOERR else MB_EILLSTATE)"

definition eMBEnable :: "nat \<Rightarrow> (nat \<Rightarrow> bool) \<Rightarrow> mb \<Rightarrow> (eMBErrorCode \<times> mb) option" where
  "eMBEnable d send m =
     (if eMBState m = STATE_DISABLED then do {
        r \<leftarrow> eMBRTUStart d send (rtu_st m);
        Some (MB_ENOERR, m\<lparr>rtu_st := r, eMBState := STATE_ENABLED\<rparr>)
      }
      else Some (MB_EILLSTATE, m))"

definition eMBDisable :: "nat \<Rightarrow> (nat \<Rightarrow> bool) \<Rightarrow> mb \<Rightarrow> (eMBErrorCode \<times> mb) option" where
  "eMBDisable d send m =
     (case eMBState m of
        STATE_ENABLED \<Rightarrow> do {
          r \<leftarrow> eMBRTUStop d send (rtu_st m);
          Some (MB_ENOERR, m\<lparr>rtu_st := r, eMBState := STATE_DISABLED\<rparr>)
        }
      | STATE_DISABLED \<Rightarrow> Some (MB_ENOERR, m)
      | STATE_NOT_INITIALIZED \<Rightarrow> Some (MB_EILLSTATE, m))"

text \<open>
  The search of the dispatch loop: \<open>None\<close> when it ends without a match (at the first free slot or at
  the end), otherwise the stored pointer.
\<close>

fun find_handler :: "u8 \<Rightarrow> handler_table \<Rightarrow> fn option option" where
  "find_handler fc [] = None"
| "find_handler fc ((c, h) # t) = (if c = 0 then None else if c = fc then Some h else find_handler fc t)"

text \<open>The \<open>EV_EXECUTE\<close> branch up to the reply: call the handler on the frame in place.\<close>

definition poll_dispatch :: "(nat \<Rightarrow> handler) \<Rightarrow> mb \<Rightarrow> mb option" where
  "poll_dispatch user m = do {
     p \<leftarrow> ucMBFrame m;
     fc \<leftarrow> rd (ucRTUBuf (rtu_st m)) p;
     let m = m\<lparr>ucFunctionCode := fc, eException := MB_EX_ILLEGAL_FUNCTION\<rparr>;
     case find_handler fc (xFuncHandlers m) of
       None \<Rightarrow> Some m
     | Some None \<Rightarrow> None
     | Some (Some h) \<Rightarrow> do {
         (e, f, n, d) \<leftarrow> call_fn user h (drop p (ucRTUBuf (rtu_st m))) (usLength m) (data_st m);
         Some (m\<lparr>eException := e, usLength := n, data_st := d,
                 rtu_st := (rtu_st m)\<lparr>ucRTUBuf := take p (ucRTUBuf (rtu_st m)) @ f\<rparr>\<rparr>)
       }
   }"

text \<open>The rest of the branch: no reply to a broadcast; an error frame or the response otherwise.\<close>

definition poll_reply :: "nat \<Rightarrow> (nat \<Rightarrow> bool) \<Rightarrow> mb \<Rightarrow> (eMBErrorCode \<times> mb) option" where
  "poll_reply d send m =
     (if ucRcvAddress m \<noteq> MB_ADDRESS_BROADCAST then do {
        p \<leftarrow> ucMBFrame m;
        m \<leftarrow> (if eException m \<noteq> MB_EX_NONE then do {
                b \<leftarrow> wr (ucRTUBuf (rtu_st m)) p (ucFunctionCode m OR MB_FUNC_ERROR);
                b \<leftarrow> wr b (p + 1) (ex_code (eException m));
                Some (m\<lparr>usLength := 2, rtu_st := (rtu_st m)\<lparr>ucRTUBuf := b\<rparr>\<rparr>)
              }
              else Some m);
        (e, r) \<leftarrow> eMBRTUSend d send (ucMBAddress m) p (usLength m) (rtu_st m);
        Some (e, m\<lparr>rtu_st := r\<rparr>)
      }
      else Some (MB_ENOERR, m))"

definition eMBPoll :: "(nat \<Rightarrow> handler) \<Rightarrow> nat \<Rightarrow> (nat \<Rightarrow> bool) \<Rightarrow> mb \<Rightarrow> (eMBErrorCode \<times> mb) option" where
  "eMBPoll user d send m =
     (if eMBState m \<noteq> STATE_ENABLED then Some (MB_EILLSTATE, m)
      else let (ev, e) = xMBPortEventGet (evt (rtu_st m));
               m = m\<lparr>rtu_st := (rtu_st m)\<lparr>evt := e\<rparr>\<rparr>
           in case ev of
             None \<Rightarrow> Some (MB_ENOERR, m)
           | Some EV_READY \<Rightarrow> Some (MB_ENOERR, m)
           | Some EV_FRAME_RECEIVED \<Rightarrow> do {
               res \<leftarrow> eMBRTUReceive (rtu_st m);
               case res of
                 Inl eStatus \<Rightarrow> Some (eStatus, m)
               | Inr (a, p, n) \<Rightarrow>
                   let m = m\<lparr>ucRcvAddress := a, ucMBFrame := Some p, usLength := n\<rparr>
                   in Some (MB_ENOERR,
                        if a = ucMBAddress m \<or> a = MB_ADDRESS_BROADCAST
                        then m\<lparr>rtu_st := (rtu_st m)\<lparr>evt := snd (xMBPortEventPost EV_EXECUTE (evt (rtu_st m)))\<rparr>\<rparr>
                        else m)
             }
           | Some EV_EXECUTE \<Rightarrow> do { m \<leftarrow> poll_dispatch user m; poll_reply d send m }
           | Some EV_FRAME_SENT \<Rightarrow> Some (MB_ENOERR, m))"

text \<open>
  The inner loop of \<^verbatim>\<open>usb_task_function\<close>: while bytes are available, take one, restart the timer and
  call the receiver. The first argument bounds the rounds; one more than the bytes in the ring is
  enough.
\<close>

fun usb_task_pump :: "nat \<Rightarrow> u8 \<Rightarrow> rtu \<Rightarrow> rtu option" where
  "usb_task_pump 0 junk r = None"
| "usb_task_pump (Suc fuel) junk r =
     (if mb_usb_rx_available (ser r) then do {
        (got, p) \<leftarrow> xMBPortSerialGetByte (ser r);
        let r = r\<lparr>ser := p\<rparr>;
        case got of
          None \<Rightarrow> Some r
        | Some byte \<Rightarrow> do {
            let r = r\<lparr>tim := vMBPortTimersRestart (tim r)\<rparr>;
            assert_c (px_set r);
            (_, r) \<leftarrow> xMBRTUReceiveFSM junk r;
            usb_task_pump fuel junk r
          }
      }
      else Some r)"

text \<open>One round of the task, for \<open>data_len\<close> bytes that \<^verbatim>\<open>usb_vcp_get_rxdata\<close> has put into \<^verbatim>\<open>usb_buffer\<close>.\<close>

definition usb_task_round ::
  "(nat \<Rightarrow> handler) \<Rightarrow> nat \<Rightarrow> (nat \<Rightarrow> bool) \<Rightarrow> nat \<Rightarrow> u8 \<Rightarrow> buffer \<Rightarrow> u16 \<Rightarrow> mb \<Rightarrow> mb option"
where
  "usb_task_round user d send fuel junk usb_buffer data_len m = do {
     m \<leftarrow> (if data_len > 0 then do {
             (_, p) \<leftarrow> mb_usb_rx_data usb_buffer data_len (ser (rtu_st m));
             r \<leftarrow> usb_task_pump fuel junk ((rtu_st m)\<lparr>ser := p\<rparr>);
             Some (m\<lparr>rtu_st := r\<rparr>)
           }
           else Some m);
     r \<leftarrow> vMBPortTimersPoll (rtu_st m);
     (_, m) \<leftarrow> eMBPoll user d send (m\<lparr>rtu_st := r\<rparr>);
     Some m
   }"

section \<open>The poll loop returns and keeps its invariant\<close>

definition table_ok :: "handler_table \<Rightarrow> bool" where
  "table_ok t \<longleftrightarrow> length t = MB_FUNC_HANDLERS_MAX \<and> list_all (\<lambda>(c, h). c \<noteq> 0 \<longrightarrow> h \<noteq> None) t"

definition mb_ok :: "mb \<Rightarrow> bool" where
  "mb_ok m \<longleftrightarrow> rtu_ok (rtu_st m) \<and> mb_data_ok (data_st m) \<and> table_ok (xFuncHandlers m) \<and>
     (xEventInQueue (evt (rtu_st m)) \<and> eQueuedEvent (evt (rtu_st m)) = EV_EXECUTE \<longrightarrow>
        ucMBFrame m = Some 1 \<and> pdu_len_ok (usLength m))"

lemma call_fn_handler: "(\<And>k. mb_handler (user k)) \<Longrightarrow> mb_handler (call_fn user h)"
  by (cases h)
     (simp_all add: ReadCoils.mb_handler_axioms WriteCoil.mb_handler_axioms
       WriteMultipleCoils.mb_handler_axioms ReadDiscreteInputs.mb_handler_axioms
       WriteHoldingRegister.mb_handler_axioms WriteMultipleHoldingRegister.mb_handler_axioms
       ReadHoldingRegister.mb_handler_axioms ReadWriteMultiple.mb_handler_axioms
       ReadInputRegister.mb_handler_axioms ReportSlaveID.mb_handler_axioms)

lemma find_handler_not_null: "table_ok t \<Longrightarrow> find_handler fc t \<noteq> Some None"
proof -
  have "list_all (\<lambda>(c, h). c \<noteq> 0 \<longrightarrow> h \<noteq> None) t \<Longrightarrow> find_handler fc t \<noteq> Some None" for t
    by (induction t) (auto split: if_splits)
  then show "table_ok t \<Longrightarrow> find_handler fc t \<noteq> Some None" by (simp add: table_ok_def)
qed

lemma poll_dispatch_ok:
  assumes "mb_ok m" "ucMBFrame m = Some 1" "pdu_len_ok (usLength m)" "\<And>k. mb_handler (user k)"
  shows "\<exists>m'. poll_dispatch user m = Some m' \<and> mb_ok m' \<and> ucMBFrame m' = Some 1 \<and> pdu_len_ok (usLength m') \<and>
    eMBState m' = eMBState m \<and> ucMBAddress m' = ucMBAddress m \<and> ucRcvAddress m' = ucRcvAddress m \<and>
    evt (rtu_st m') = evt (rtu_st m) \<and> eRcvState (rtu_st m') = eRcvState (rtu_st m)"
proof -
  let ?b = "ucRTUBuf (rtu_st m)" and ?fc = "ucRTUBuf (rtu_st m) ! 1"
  have l: "length ?b = 256" using assms(1) by (simp add: mb_ok_def rtu_ok_def)
  show ?thesis
  proof (cases "find_handler ?fc (xFuncHandlers m)")
    case None
    then show ?thesis using assms l by (simp add: poll_dispatch_def Let_def mb_ok_def)
  next
    case (Some g)
    then obtain h where h: "find_handler ?fc (xFuncHandlers m) = Some (Some h)"
      using find_handler_not_null[of "xFuncHandlers m" ?fc] assms(1) by (cases g) (auto simp: mb_ok_def)
    have fl: "length (drop 1 ?b) = FRAME_SIZE" and dok: "mb_data_ok (data_st m)"
      using l assms(1) by (simp_all add: mb_ok_def)
    have hh: "mb_handler (call_fn user h)" by (rule call_fn_handler[OF assms(4)])
    obtain e f n d where r: "call_fn user h (drop 1 ?b) (usLength m) (data_st m) = Some (e, f, n, d)"
      "length f = FRAME_SIZE" "pdu_len_ok n" "mb_data_ok d"
      by (rule mb_handler.returns[OF hh fl assms(3) dok])
    then show ?thesis using h assms l by (simp add: poll_dispatch_def Let_def mb_ok_def rtu_ok_def)
  qed
qed

lemma rtu_send_ok:
  assumes "rtu_ok r" "pdu_len_ok n"
  shows "\<exists>e r'. eMBRTUSend (Suc d) send a 1 n r = Some (e, r') \<and> rtu_ok r' \<and> evt r' = evt r"
proof (cases "eRcvState r = STATE_RX_IDLE")
  case True
  let ?pdu = "take (unat n) (drop 1 (ucRTUBuf r))"
  have l: "unat n = length ?pdu" "length ?pdu \<le> 253"
    using assms by (simp_all add: rtu_ok_def pdu_len_ok_def)
  have "take (length ?pdu) (drop 1 (ucRTUBuf r)) = ?pdu" by (simp only: l(1)[symmetric])
  from rtu_send_val[OF assms(1) True l this, of d send a] show ?thesis by blast
next
  case False
  then show ?thesis using assms by (simp add: eMBRTUSend_def)
qed

lemma poll_reply_ok:
  assumes "mb_ok m" "ucMBFrame m = Some 1" "pdu_len_ok (usLength m)" "\<not> xEventInQueue (evt (rtu_st m))"
  shows "\<exists>e m'. poll_reply (Suc d) send m = Some (e, m') \<and> mb_ok m'"
proof -
  let ?m = "if eException m \<noteq> MB_EX_NONE
    then m\<lparr>usLength := 2, rtu_st := (rtu_st m)\<lparr>ucRTUBuf := (ucRTUBuf (rtu_st m))
      [1 := ucFunctionCode m OR MB_FUNC_ERROR, Suc 1 := ex_code (eException m)]\<rparr>\<rparr> else m"
  have l: "length (ucRTUBuf (rtu_st m)) = 256" using assms(1) by (simp add: mb_ok_def rtu_ok_def)
  have ok: "rtu_ok (rtu_st ?m)" "pdu_len_ok (usLength ?m)"
    using assms by (simp_all add: mb_ok_def rtu_ok_def pdu_len_ok_def)
  obtain e r where "eMBRTUSend (Suc d) send (ucMBAddress ?m) 1 (usLength ?m) (rtu_st ?m) = Some (e, r)"
    "rtu_ok r" "evt r = evt (rtu_st ?m)" using rtu_send_ok[OF ok] by blast
  then show ?thesis using assms l
    by (cases "eException m = MB_EX_NONE") (simp_all add: poll_reply_def mb_ok_def Let_def)
qed

lemma poll_received_ok:
  assumes "mb_ok m"
  shows "\<exists>res. eMBRTUReceive (rtu_st m) = Some res \<and> (case res of Inl _ \<Rightarrow> True
    | Inr (a, p, n) \<Rightarrow> p = 1 \<and> pdu_len_ok n)"
proof -
  let ?r = "rtu_st m" and ?bs = "take (unat (usRcvBufferPos (rtu_st m))) (ucRTUBuf (rtu_st m))"
  have r: "rtu_ok ?r" using assms by (simp add: mb_ok_def)
  then have l: "unat (usRcvBufferPos ?r) = length ?bs" "length ?bs \<le> 256" by (auto simp: rtu_ok_def)
  have "pdu_len_ok (of_nat (length ?bs - 3))" if "4 \<le> length ?bs"
  proof -
    have "length ?bs - 3 < 65536" using l(2) by linarith
    then have "unat (of_nat (length ?bs - 3) :: u16) = length ?bs - 3" by (simp only: unat_of_nat) simp
    then show ?thesis unfolding pdu_len_ok_def using that l(2) by linarith
  qed
  moreover have "take (length ?bs) (ucRTUBuf ?r) = ?bs" by (simp only: l(1)[symmetric])
  from rtu_receive_val[OF r l(1) this] have "eMBRTUReceive ?r = Some (if 4 \<le> length ?bs \<and> crc16 ?bs = 0
      then Inr (?bs ! 0, 1, of_nat (length ?bs - 3)) else Inl MB_EIO)" .
  ultimately show ?thesis by (simp only: option.inject ex_simps simp_thms) (simp split: if_splits)
qed

text \<open>
  C1. \<^verbatim>\<open>eMBPoll\<close> always returns and keeps the invariant of the stack (buffers of the right size, a
  receive position inside the buffer, well-formed register banks, a table without NULL handlers in
  used slots, and a valid frame pointer and length while a frame waits for execution), whatever
  event is pending and whatever bytes were received, provided handlers the application registered
  honour the handler contract. So no request can drive the slave outside its buffers or into a
  failed assertion.
\<close>

theorem poll_safe:
  assumes "mb_ok m" "\<And>k. mb_handler (user k)"
  shows "\<exists>e m'. eMBPoll user (Suc d) send m = Some (e, m') \<and> mb_ok m'"
proof (cases "eMBState m = STATE_ENABLED \<and> xEventInQueue (evt (rtu_st m))")
  case False
  then show ?thesis using assms by (auto simp: eMBPoll_def xMBPortEventGet_def mb_ok_def)
next
  case True
  let ?m = "m\<lparr>rtu_st := (rtu_st m)\<lparr>evt := (evt (rtu_st m))\<lparr>xEventInQueue := False\<rparr>\<rparr>\<rparr>"
  have g: "xMBPortEventGet (evt (rtu_st m)) =
      (Some (eQueuedEvent (evt (rtu_st m))), (evt (rtu_st m))\<lparr>xEventInQueue := False\<rparr>)"
    using True by (simp add: xMBPortEventGet_def)
  have ok: "mb_ok ?m" using assms(1) by (simp add: mb_ok_def rtu_ok_def)
  show ?thesis
  proof (cases "eQueuedEvent (evt (rtu_st m))")
    case EV_FRAME_RECEIVED
    obtain res where res: "eMBRTUReceive (rtu_st ?m) = Some res"
      "case res of Inl _ \<Rightarrow> True | Inr (a, p, n) \<Rightarrow> p = 1 \<and> pdu_len_ok n"
      using poll_received_ok[OF ok] by blast
    then show ?thesis using True g EV_FRAME_RECEIVED ok
      by (cases res) (auto simp: eMBPoll_def Let_def mb_ok_def rtu_ok_def xMBPortEventPost_def)
  next
    case EV_EXECUTE
    then have f: "ucMBFrame ?m = Some 1" "pdu_len_ok (usLength ?m)" using assms(1) True by (simp_all add: mb_ok_def)
    obtain m1 where m1: "poll_dispatch user ?m = Some m1" "mb_ok m1" "ucMBFrame m1 = Some 1"
      "pdu_len_ok (usLength m1)" "evt (rtu_st m1) = evt (rtu_st ?m)"
      using poll_dispatch_ok[OF ok f, of user] assms(2) by blast
    have "\<not> xEventInQueue (evt (rtu_st m1))" using m1(5) by simp
    from poll_reply_ok[OF m1(2-4) this, of d send] m1(1) True g EV_EXECUTE show ?thesis
      by (simp add: eMBPoll_def Let_def)
  qed (use True g ok in \<open>simp_all add: eMBPoll_def Let_def\<close>)
qed

lemma mb_init_state_ok: "mb_ok mb_init_state"
  by (simp add: mb_ok_def mb_init_state_def rtu_init_def rtu_ok_def port_serial_init_def port_serial_ok_def
      mb_data_init_def mb_data_ok_def mb_regs_init_def mb_regs_ok_def table_ok_def xFuncHandlers_init_def list_all_iff)

theorem poll_safe_witness:
  "\<exists>e m'. eMBPoll (\<lambda>_. eMBFuncReadCoils) 1 (\<lambda>_. True)
      (mb_init_state\<lparr>eMBState := STATE_ENABLED, ucMBFrame := Some 1, usLength := 5,
         rtu_st := rtu_init\<lparr>evt := \<lparr>eQueuedEvent = EV_EXECUTE, xEventInQueue = True\<rparr>\<rparr>\<rparr>) = Some (e, m') \<and> mb_ok m'"
proof -
  let ?m = "mb_init_state\<lparr>eMBState := STATE_ENABLED, ucMBFrame := Some 1, usLength := 5,
         rtu_st := rtu_init\<lparr>evt := \<lparr>eQueuedEvent = EV_EXECUTE, xEventInQueue = True\<rparr>\<rparr>\<rparr>"
  have "mb_ok ?m" using mb_init_state_ok
    by (simp add: mb_ok_def mb_init_state_def rtu_ok_def pdu_len_ok_def)
  from poll_safe[OF this ReadCoils.mb_handler_axioms, of 0 "\<lambda>_. True"] show ?thesis by simp
qed

section \<open>Replies\<close>

text \<open>The PDU that answers the request in the frame buffer: the specification of the dispatcher.\<close>

definition reply_pdu :: "u8 \<Rightarrow> eMBException \<Rightarrow> buffer \<Rightarrow> u16 \<Rightarrow> buffer" where
  "reply_pdu fc e f n = (if e \<noteq> MB_EX_NONE then [fc OR MB_FUNC_ERROR, ex_code e] else take (unat n) f)"

text \<open>
  C2. The reply of the slave. When a unicast frame waits for execution, the receiver is idle and the function code is
  registered, \<^verbatim>\<open>eMBPoll\<close> runs the registered handler on the frame and loads the transmitter with the
  serial-line frame of this slave's address and, if the handler raised no exception, the handler's
  response, otherwise the function code with bit 7 set and the exception code. The register banks
  afterwards are those the handler left.
\<close>

theorem poll_replies:
  assumes "mb_ok m" "\<And>k. mb_handler (user k)" "eMBState m = STATE_ENABLED"
    "evt (rtu_st m) = \<lparr>eQueuedEvent = EV_EXECUTE, xEventInQueue = True\<rparr>"
    "ucRcvAddress m \<noteq> MB_ADDRESS_BROADCAST" "eRcvState (rtu_st m) = STATE_RX_IDLE"
    "find_handler (ucRTUBuf (rtu_st m) ! 1) (xFuncHandlers m) = Some (Some h)"
    "call_fn user h (drop 1 (ucRTUBuf (rtu_st m))) (usLength m) (data_st m) = Some (ex, f, n, dat)"
  shows "\<exists>m'. eMBPoll user (Suc d) send m = Some (MB_ENOERR, m') \<and> data_st m' = dat \<and>
    eSndState (rtu_st m') = STATE_TX_XMIT \<and> pucSndBufferCur (rtu_st m') = 0 \<and>
    take (unat (usSndBufferCount (rtu_st m'))) (ucRTUBuf (rtu_st m')) =
      adu (ucMBAddress m) (reply_pdu (ucRTUBuf (rtu_st m) ! 1) ex f n)"
proof -
  let ?b = "ucRTUBuf (rtu_st m)" and ?fc = "ucRTUBuf (rtu_st m) ! 1"
  let ?e = "\<lparr>eQueuedEvent = EV_EXECUTE, xEventInQueue = False\<rparr>"
  have l: "length ?b = 256" and fr: "ucMBFrame m = Some 1" "pdu_len_ok (usLength m)" "mb_data_ok (data_st m)"
    using assms(1,4) by (simp_all add: mb_ok_def rtu_ok_def)
  have fl: "length (drop 1 ?b) = FRAME_SIZE" using l by simp
  have hh: "mb_handler (call_fn user h)" by (rule call_fn_handler[OF assms(2)])
  have f: "length f = 255" "pdu_len_ok n"
    using mb_handler.safe[OF hh fl fr(2,3)] assms(8)
    by (simp_all add: handler_safe_def)
  define b1 where "b1 = take 1 ?b @ f"
  define b2 where "b2 = (if ex \<noteq> MB_EX_NONE then b1[1 := ?fc OR MB_FUNC_ERROR, Suc 1 := ex_code ex] else b1)"
  define n2 where "n2 = (if ex \<noteq> MB_EX_NONE then 2 else n)"
  let ?r = "(rtu_st m)\<lparr>evt := ?e, ucRTUBuf := b2\<rparr>" and ?pdu = "reply_pdu ?fc ex f n"
  have b1: "length b1 = 256" "drop 1 b1 = f" using l f(1) by (simp_all add: b1_def)
  have r: "rtu_ok ?r" "eRcvState ?r = STATE_RX_IDLE"
    using assms(1,6) b1(1) by (simp_all add: mb_ok_def rtu_ok_def b2_def)
  have pl: "unat n2 = length ?pdu" "length ?pdu \<le> 253"
    using f by (auto simp: n2_def reply_pdu_def pdu_len_ok_def)
  obtain x0 x1 x2 xs where b1s: "b1 = x0 # x1 # x2 # xs"
    using b1(1) by (cases b1; cases "tl b1"; cases "tl (tl b1)") auto
  have pd: "take (length ?pdu) (drop 1 (ucRTUBuf ?r)) = ?pdu"
    using f b1(2) by (auto simp: b2_def reply_pdu_def b1s pdu_len_ok_def)
  obtain r' where r': "eMBRTUSend (Suc d) send (ucMBAddress m) 1 n2 ?r = Some (MB_ENOERR, r')"
    "take (length ?pdu + 3) (ucRTUBuf r') = adu (ucMBAddress m) ?pdu" "pucSndBufferCur r' = 0"
    "unat (usSndBufferCount r') = length ?pdu + 3" "eSndState r' = STATE_TX_XMIT"
    using rtu_send_val[OF r pl pd, of d send "ucMBAddress m"] by blast
  have "\<exists>m'. eMBPoll user (Suc d) send m = Some (MB_ENOERR, m') \<and> data_st m' = dat \<and> rtu_st m' = r'"
    using assms(3-8) fr(1) l b1(1) r'(1)
    by (simp add: eMBPoll_def xMBPortEventGet_def poll_dispatch_def poll_reply_def Let_def
        b1_def[unfolded One_nat_def, symmetric] b2_def n2_def split: if_splits)
  with r' show ?thesis by auto
qed

theorem poll_replies_witness:
  "\<exists>m'. eMBPoll (\<lambda>_. eMBFuncReadCoils) 1 (\<lambda>_. True)
      (mb_init_state\<lparr>ucMBAddress := 1, eMBState := STATE_ENABLED, ucMBFrame := Some 1, ucRcvAddress := 1, usLength := 1,
         rtu_st := rtu_init\<lparr>ucRTUBuf := [1, 17] @ replicate 254 0, eRcvState := STATE_RX_IDLE,
           evt := \<lparr>eQueuedEvent = EV_EXECUTE, xEventInQueue = True\<rparr>\<rparr>\<rparr>) = Some (MB_ENOERR, m') \<and>
    take (unat (usSndBufferCount (rtu_st m'))) (ucRTUBuf (rtu_st m')) = adu 1 [17]"
proof -
  let ?m = "mb_init_state\<lparr>ucMBAddress := 1, eMBState := STATE_ENABLED, ucMBFrame := Some 1, ucRcvAddress := 1, usLength := 1,
         rtu_st := rtu_init\<lparr>ucRTUBuf := [1, 17] @ replicate 254 0, eRcvState := STATE_RX_IDLE,
           evt := \<lparr>eQueuedEvent = EV_EXECUTE, xEventInQueue = True\<rparr>\<rparr>\<rparr>"
  let ?f = "17 # replicate 254 0 :: buffer"
  have ok: "mb_ok ?m" using mb_init_state_ok
    by (simp add: mb_ok_def mb_init_state_def rtu_ok_def pdu_len_ok_def)
  have h: "find_handler (ucRTUBuf (rtu_st ?m) ! 1) (xFuncHandlers ?m) = Some (Some FnReportSlaveID)"
    by (simp add: mb_init_state_def xFuncHandlers_init_def)
  have c: "call_fn (\<lambda>_. eMBFuncReadCoils) FnReportSlaveID (drop 1 (ucRTUBuf (rtu_st ?m))) (usLength ?m) (data_st ?m)
      = Some (MB_EX_NONE, ?f, 1, mb_data_init)"
    by (simp add: mb_init_state_def eMBFuncReportSlaveID_def memcpy_def mb_data_init_def)
  from poll_replies[OF ok ReadCoils.mb_handler_axioms _ _ _ _ h c, of 0 "\<lambda>_. True"] show ?thesis
    by (auto simp: reply_pdu_def)
qed

section \<open>The handler table\<close>

lemma find_handler_append:
  "list_all (\<lambda>(c, h). c \<noteq> 0) xs \<Longrightarrow> fc \<notin> fst ` set xs \<Longrightarrow> find_handler fc (xs @ ys) = find_handler fc ys"
  by (induction xs) auto

lemma find_handler_prefix:
  "list_all (\<lambda>(c, h). c \<noteq> 0) xs \<Longrightarrow> fc \<in> fst ` set xs \<Longrightarrow> find_handler fc (xs @ ys) = find_handler fc xs"
  by (induction xs) force+

lemma register_slot_append:
  "list_all (\<lambda>(c, g). g \<noteq> None \<and> g \<noteq> Some h) xs \<Longrightarrow> register_slot h i (xs @ ys) = register_slot h (i + length xs) ys"
  by (induction xs arbitrary: i) (auto split: if_splits)

lemma remove_slot_append:
  "fc \<notin> fst ` set xs \<Longrightarrow> remove_slot fc i (xs @ ys) = remove_slot fc (i + length xs) ys"
  by (induction xs arbitrary: i) auto

text \<open>
  Registering a handler: in a table whose used slots come first, a new code with a new handler is
  stored in the first free slot, is found by the dispatcher from then on, and leaves the lookup of every other
  code alone; without a free slot the call is refused with \<open>MB_ENORES\<close> and changes nothing.
\<close>

theorem register_then_dispatch:
  assumes "0 < fc" "fc \<le> 127" "list_all (\<lambda>(c, g). c \<noteq> 0 \<and> g \<noteq> None \<and> g \<noteq> Some h) used" "fc \<notin> fst ` set used"
  shows "(let t = used @ replicate k (0, None) in
    if k = 0 then eMBRegisterCB fc (Some h) t = (MB_ENORES, t)
    else \<exists>t'. eMBRegisterCB fc (Some h) t = (MB_ENOERR, t') \<and> length t' = length t \<and>
      find_handler fc t' = Some (Some h) \<and> (\<forall>g. g \<noteq> fc \<longrightarrow> find_handler g t' = find_handler g t))"
proof -
  have u: "list_all (\<lambda>(c, g). g \<noteq> None \<and> g \<noteq> Some h) used" "list_all (\<lambda>(c, h). c \<noteq> 0) used"
    using assms(3) by (auto simp: list_all_iff)
  have nz: "fc \<noteq> 0" using assms(1) by auto
  show ?thesis
  proof (cases k)
    case 0
    then show ?thesis using assms register_slot_append[OF u(1), of 0 "[]"] by (simp add: eMBRegisterCB_def)
  next
    case (Suc j)
    let ?t' = "used @ (fc, Some h) # replicate j (0, None)"
    have e: "eMBRegisterCB fc (Some h) (used @ replicate k (0, None)) = (MB_ENOERR, ?t')"
      using assms register_slot_append[OF u(1), of 0] by (simp add: eMBRegisterCB_def Suc list_update_append)
    have f: "find_handler fc ?t' = Some (Some h)" using find_handler_append[OF u(2) assms(4)] nz by simp
    have z: "find_handler g (replicate n (0, None)) = None" for g n by (cases n) auto
    have "find_handler g ?t' = find_handler g (used @ replicate k (0, None))" if "g \<noteq> fc" for g
    proof (cases "g \<in> fst ` set used")
      case True
      then show ?thesis using find_handler_prefix[OF u(2) True] by simp
    next
      case False
      then show ?thesis using find_handler_append[OF u(2) False] that nz z by (simp add: Suc)
    qed
    with e f Suc show ?thesis by (simp add: Let_def)
  qed
qed

theorem register_then_dispatch_witness:
  "\<exists>t'. eMBRegisterCB 100 (Some (FnUser 0)) xFuncHandlers_init = (MB_ENOERR, t') \<and>
     find_handler 100 t' = Some (Some (FnUser 0))"
  using register_then_dispatch[of 100 "FnUser 0" "take 10 xFuncHandlers_init" 6]
  by (auto simp: xFuncHandlers_init_def Let_def)

text \<open>
  Removing a handler clears its slot in place, and the dispatch loop stops at the first cleared
  slot: afterwards exactly the handlers stored before it are reachable, those behind it are not.
\<close>

theorem unregister_truncates_table:
  assumes "0 < fc" "fc \<le> 127" "list_all (\<lambda>(c, g). c \<noteq> 0) before" "fc \<notin> fst ` set before"
  shows "\<exists>t'. eMBRegisterCB fc None (before @ (fc, g) # rest) = (MB_ENOERR, t') \<and>
    (\<forall>x. find_handler x t' = find_handler x before)"
proof -
  let ?t' = "before @ (0, None) # rest"
  have "eMBRegisterCB fc None (before @ (fc, g) # rest) = (MB_ENOERR, ?t')"
    using assms remove_slot_append[OF assms(4), of 0] by (simp add: eMBRegisterCB_def list_update_append)
  moreover have "find_handler x ?t' = find_handler x before" for x
    using assms(3) by (induction before) auto
  ultimately show ?thesis by blast
qed

theorem unregister_truncates_table_witness:
  "\<exists>t'. eMBRegisterCB 17 None xFuncHandlers_init = (MB_ENOERR, t') \<and> (\<forall>x. find_handler x t' = None)"
  using unregister_truncates_table[of 17 "[]" "Some FnReportSlaveID" "tl xFuncHandlers_init"]
  by (simp add: xFuncHandlers_init_def)

section \<open>Start-up\<close>

text \<open>
  C8. After a successful \<^verbatim>\<open>eMBInit\<close>, \<^verbatim>\<open>eMBEnable\<close> never returns: \<^verbatim>\<open>eMBRTUStart\<close> puts the receiver into
  \<open>STATE_RX_INIT\<close> and calls \<^verbatim>\<open>vMBPortSerialEnable(TRUE, FALSE)\<close>, whose notification of the transmitter
  asserts \<open>STATE_RX_IDLE\<close>.
\<close>

theorem enable_never_returns:
  assumes "eMBInit txc rxc tmc eMode a port baud par stop m = Some (MB_ENOERR, m')"
  shows "\<forall>d. eMBEnable d send m' = None"
proof -
  have "eMBState m' = STATE_DISABLED"
    using assms by (auto simp: eMBInit_def Let_def xMBPortEventInit_def split: if_splits eMBMode.splits bind_splits)
  then show ?thesis by (simp add: eMBEnable_def start_never_returns)
qed

theorem enable_never_returns_witness:
  "\<exists>m'. eMBInit True True True MB_RTU 1 0 115200 MB_PAR_NONE 1 mb_init_state = Some (MB_ENOERR, m') \<and>
     (\<forall>d. eMBEnable d (\<lambda>_. True) m' = None)"
proof -
  obtain m' where "eMBInit True True True MB_RTU 1 0 115200 MB_PAR_NONE 1 mb_init_state = Some (MB_ENOERR, m')"
    by (simp add: eMBInit_def eMBRTUInit_def xMBPortSerialInit_def xMBPortTimersInit_def xMBPortEventInit_def
        mb_init_state_def rtu_init_def port_serial_init_def Let_def)
  with enable_never_returns[OF this, of "\<lambda>_. True"] show ?thesis by blast
qed

section \<open>The byte pump\<close>

fun every_second :: "'a list \<Rightarrow> 'a list" where
  "every_second (x # y # zs) = y # every_second zs"
| "every_second [x] = []"
| "every_second [] = []"

lemma pump_get:
  assumes "rtu_ok r" "rx_queue (ser r) = x # bs" "px_set r"
  shows "\<exists>p. xMBPortSerialGetByte (ser r) = Some (Some x, p) \<and> rx_queue p = bs \<and>
    rtu_ok (r\<lparr>ser := p, tim := t\<rparr>) \<and>
    usb_task_pump (Suc n) junk r = do {
      (_, r) \<leftarrow> xMBRTUReceiveFSM junk (r\<lparr>ser := p, tim := vMBPortTimersRestart (tim r)\<rparr>);
      usb_task_pump n junk r }"
proof -
  obtain p where p: "xMBPortSerialGetByte (ser r) = Some (Some x, p)" "port_serial_ok p" "rx_queue p = bs"
    using rx_ring.get_nonempty[of "ser r" x bs] assms by (auto simp: rtu_ok_def)
  have "mb_usb_rx_available (ser r)" using rx_available_iff[of "ser r"] assms by (simp add: rtu_ok_def)
  with p assms show ?thesis by (simp add: rtu_ok_def Let_def)
qed

lemma pump_done: "rtu_ok r \<Longrightarrow> rx_queue (ser r) = [] \<Longrightarrow> usb_task_pump (Suc n) junk r = Some r"
  using rx_available_iff[of "ser r"] by (simp add: rtu_ok_def)

lemma pump_rest:
  assumes "rtu_ok r" "received xs r" "xs \<noteq> []" "px_set r" "rx_queue (ser r) = bs" "even (length bs)" "length bs < n"
  shows "\<exists>r'. usb_task_pump n junk r = Some r' \<and> rtu_ok r' \<and> received (xs @ every_second bs) r' \<and>
    rx_queue (ser r') = []"
  using assms
proof (induction bs arbitrary: r xs n rule: every_second.induct)
  case (1 x y zs)
  then obtain k where n: "n = Suc k" by (cases n) auto
  let ?t = "vMBPortTimersRestart (tim r)"
  obtain p where p: "rx_queue p = y # zs" "rtu_ok (r\<lparr>ser := p, tim := ?t\<rparr>)"
    "usb_task_pump n junk r = do {
      (_, r) \<leftarrow> xMBRTUReceiveFSM junk (r\<lparr>ser := p, tim := ?t\<rparr>);
      usb_task_pump k junk r }"
    using pump_get[OF 1(2,6,5), of ?t k junk] n by blast
  have rc: "received xs (r\<lparr>ser := p, tim := ?t\<rparr>)" using 1(3) by (simp add: received_def)
  obtain r1 where r1: "xMBRTUReceiveFSM junk (r\<lparr>ser := p, tim := ?t\<rparr>) = Some (False, r1)" "rtu_ok r1"
    "received (xs @ [y]) r1" "rx_queue (ser r1) = zs" "px_set r1"
    using receive_next[OF p(2) rc 1(4), of y zs junk] p(1) 1(5) by auto
  from 1(1)[OF r1(2,3) _ r1(5,4), of k] 1(7,8) n r1(1) p(3) show ?case by auto
next
  case 3
  then show ?case using pump_done[of r] by (cases n) auto
qed simp

text \<open>
  The byte pump of the USB task reads each byte twice: once itself and once more through the
  receiver. Of an even number of bytes in the ring only every second one reaches the
  frame buffer, so a frame sent by a master is never received as sent.
\<close>

theorem usb_pump_halves_frame:
  assumes "rtu_ok r" "eSndState r = STATE_TX_IDLE" "eRcvState r = STATE_RX_IDLE" "px_set r"
    "rx_queue (ser r) = bs" "bs \<noteq> []" "even (length bs)" "length bs < n"
  shows "\<exists>r'. usb_task_pump n junk r = Some r' \<and> received (every_second bs) r' \<and>
    length (every_second bs) = length bs div 2"
proof -
  obtain x y zs where bs: "bs = x # y # zs" using assms(6,7) by (cases bs; cases "tl bs") auto
  obtain k where n: "n = Suc k" using assms(8) by (cases n) auto
  let ?t = "vMBPortTimersRestart (tim r)"
  obtain p where p: "rx_queue p = y # zs" "rtu_ok (r\<lparr>ser := p, tim := ?t\<rparr>)"
    "usb_task_pump n junk r = do {
      (_, r) \<leftarrow> xMBRTUReceiveFSM junk (r\<lparr>ser := p, tim := ?t\<rparr>);
      usb_task_pump k junk r }"
    using pump_get[OF assms(1) _ assms(4), of x "y # zs" ?t k junk] assms(5) bs n by blast
  obtain r1 where r1: "xMBRTUReceiveFSM junk (r\<lparr>ser := p, tim := ?t\<rparr>) = Some (False, r1)" "rtu_ok r1"
    "received [y] r1" "rx_queue (ser r1) = zs" "px_set r1"
    using receive_first[OF p(2), of y zs junk] p(1) assms(2-4) by auto
  have "length (every_second l) = length l div 2" for l :: "'a list"
    by (induction l rule: every_second.induct) auto
  with pump_rest[OF r1(2,3) _ r1(5,4), of k junk] assms(7,8) bs n r1(1) p(3) show ?thesis by auto
qed

theorem usb_pump_halves_frame_witness:
  "\<exists>r'. usb_task_pump 5 0 (rtu_init\<lparr>eRcvState := STATE_RX_IDLE, px_set := True,
       ser := port_serial_init\<lparr>mb_rx_buf := [1, 3, 0, 7] @ replicate 1020 0, mb_rx_head := 4\<rparr>\<rparr>) = Some r' \<and>
     received [3, 7] r'"
proof -
  let ?r = "rtu_init\<lparr>eRcvState := STATE_RX_IDLE, px_set := True,
       ser := port_serial_init\<lparr>mb_rx_buf := [1, 3, 0, 7] @ replicate 1020 0, mb_rx_head := 4\<rparr>\<rparr>"
  have ok: "rtu_ok ?r" by (simp add: rtu_init_def rtu_ok_def port_serial_ok_def port_serial_init_def)
  have "rx_count (ser ?r) = 4" by (simp add: rx_count_def port_serial_init_def)
  moreover have "[0..<4] = [0, 1, 2, 3]" by (simp add: upt_rec)
  ultimately have q: "rx_queue (ser ?r) = [1, 3, 0, 7]" by (simp add: rx_queue_def port_serial_init_def)
  show ?thesis using usb_pump_halves_frame[OF ok _ _ _ q, of 5 0] by (auto simp: rtu_init_def)
qed

end
