(* ===== verification/Flash.thy ===== *)
theory Flash
  imports Prelude
begin

text \<open>
  The driver of the W25X80 serial flash: the SPI transfer of \<^verbatim>\<open>SPI-FLASH/spi_tranrecv.c\<close> and the
  commands of \<^verbatim>\<open>SPI-FLASH/w25x80.c\<close>.

  The chip is hardware, so it is an argument \<open>dev\<close>: what selecting it, deselecting it and shifting bytes
  through it do to its state. What the driver relies on is the predicate \<open>w25_laws\<close>, which states
  the commands of the data sheet the driver uses (read status, write enable and disable, read,
  page program, sector erase) over an abstract view of the chip: its cells, its write enable
  latch and the number of status reads that will still report busy. The DMA transfer is complete when
  its flags are set, so a transfer is one call of \<open>xfer\<close>.

  Loops that wait for the chip take fuel; the theorems give a bound that is enough.
\<close>

section \<open>The code\<close>

record 'c spi_dev =
  cs_low :: "'c \<Rightarrow> 'c"
  cs_high :: "'c \<Rightarrow> 'c"
  xfer :: "buffer \<Rightarrow> 'c \<Rightarrow> buffer \<times> 'c"

record 'c spi =
  chip :: 'c
  dma_rtx_buf :: buffer

abbreviation (input) MAX_TRANRECV_SIZE :: nat where "MAX_TRANRECV_SIZE \<equiv> 1024"
abbreviation (input) PAGE_SIZE :: nat where "PAGE_SIZE \<equiv> 256"
abbreviation (input) SECTOR_SIZE :: nat where "SECTOR_SIZE \<equiv> 4096"

definition spi_tranrecv_cs_low :: "'c spi_dev \<Rightarrow> 'c spi \<Rightarrow> 'c spi" where
  "spi_tranrecv_cs_low dev s = s\<lparr>chip := cs_low dev (chip s)\<rparr>"

definition spi_tranrecv_cs_high :: "'c spi_dev \<Rightarrow> 'c spi \<Rightarrow> 'c spi" where
  "spi_tranrecv_cs_high dev s = s\<lparr>chip := cs_high dev (chip s)\<rparr>"

text \<open>The result is the first \<open>len\<close> bytes of the DMA buffer, which the caller may copy to its \<^verbatim>\<open>rbuf\<close>.\<close>

definition spi_tranrecv_buf ::
  "'c spi_dev \<Rightarrow> buffer \<Rightarrow> nat \<Rightarrow> nat \<Rightarrow> 'c spi \<Rightarrow> (buffer \<times> 'c spi) option"
where
  "spi_tranrecv_buf dev tbuf off len s = do {
     d \<leftarrow> memcpy (dma_rtx_buf s) 0 tbuf off len;
     let (r, c) = xfer dev (take len d) (chip s);
     d \<leftarrow> memcpy d 0 r 0 len;
     Some (take len d, s\<lparr>chip := c, dma_rtx_buf := d\<rparr>)
   }"

definition w25x80_wenable :: "'c spi_dev \<Rightarrow> 'c spi \<Rightarrow> 'c spi option" where
  "w25x80_wenable dev s = do {
     (_, s) \<leftarrow> spi_tranrecv_buf dev [0x06] 0 1 (spi_tranrecv_cs_low dev s);
     Some (spi_tranrecv_cs_high dev s)
   }"

definition w25x80_wdisable :: "'c spi_dev \<Rightarrow> 'c spi \<Rightarrow> 'c spi option" where
  "w25x80_wdisable dev s = do {
     (_, s) \<leftarrow> spi_tranrecv_buf dev [0x04] 0 1 (spi_tranrecv_cs_low dev s);
     Some (spi_tranrecv_cs_high dev s)
   }"

fun w25x80_wait_busy :: "nat \<Rightarrow> 'c spi_dev \<Rightarrow> 'c spi \<Rightarrow> 'c spi option" where
  "w25x80_wait_busy 0 dev s = None"
| "w25x80_wait_busy (Suc fuel) dev s = do {
     (buf, s) \<leftarrow> spi_tranrecv_buf dev [0x05, 0xFF] 0 2 (spi_tranrecv_cs_low dev s);
     let s = spi_tranrecv_cs_high dev s;
     b \<leftarrow> rd buf 1;
     if b AND 0x01 = 0 then Some s else w25x80_wait_busy fuel dev s
   }"

definition w25x80_readid :: "nat \<Rightarrow> 'c spi_dev \<Rightarrow> 'c spi \<Rightarrow> (u8 \<times> 'c spi) option" where
  "w25x80_readid fuel dev s = do {
     s \<leftarrow> w25x80_wait_busy fuel dev s;
     (buf, s) \<leftarrow> spi_tranrecv_buf dev [0xab, 0xff, 0xff, 0xff, 0xff] 0 5 (spi_tranrecv_cs_low dev s);
     let s = spi_tranrecv_cs_high dev s;
     b \<leftarrow> rd buf 4;
     Some (b, s)
   }"

text \<open>A command byte and the 24-bit address, high byte first.\<close>

definition cmd_addr :: "u8 \<Rightarrow> u32 \<Rightarrow> buffer" where
  "cmd_addr c addr = [c, ucast (drop_bit 16 addr AND 0xff), ucast (drop_bit 8 addr AND 0xff), ucast (addr AND 0xff)]"

definition w25x80_sector_erase :: "nat \<Rightarrow> 'c spi_dev \<Rightarrow> u32 \<Rightarrow> 'c spi \<Rightarrow> 'c spi option" where
  "w25x80_sector_erase fuel dev addr s = do {
     s \<leftarrow> w25x80_wait_busy fuel dev s;
     s \<leftarrow> w25x80_wenable dev s;
     (_, s) \<leftarrow> spi_tranrecv_buf dev (cmd_addr 0x20 addr) 0 4 (spi_tranrecv_cs_low dev s);
     let s = spi_tranrecv_cs_high dev s;
     s \<leftarrow> w25x80_wait_busy fuel dev s;
     w25x80_wdisable dev s
   }"

fun read_loop :: "'c spi_dev \<Rightarrow> buffer \<Rightarrow> nat \<Rightarrow> nat \<Rightarrow> 'c spi \<Rightarrow> (buffer \<times> 'c spi) option" where
  "read_loop dev rbuf ptr remain s =
     (if remain = 0 then Some (rbuf, s)
      else do {
        let chunk = (if remain > MAX_TRANRECV_SIZE then MAX_TRANRECV_SIZE else remain);
        (r, s) \<leftarrow> spi_tranrecv_buf dev rbuf ptr chunk s;
        rbuf \<leftarrow> memcpy rbuf ptr r 0 chunk;
        read_loop dev rbuf (ptr + chunk) (remain - chunk) s
      })"

definition w25x80_read_data ::
  "nat \<Rightarrow> 'c spi_dev \<Rightarrow> u32 \<Rightarrow> buffer \<Rightarrow> nat \<Rightarrow> u32 \<Rightarrow> 'c spi \<Rightarrow> (buffer \<times> 'c spi) option"
where
  "w25x80_read_data fuel dev addr rbuf ptr len s = do {
     s \<leftarrow> w25x80_wait_busy fuel dev s;
     (_, s) \<leftarrow> spi_tranrecv_buf dev (cmd_addr 0x03 addr) 0 4 (spi_tranrecv_cs_low dev s);
     (rbuf, s) \<leftarrow> read_loop dev rbuf ptr (unat len) s;
     Some (rbuf, spi_tranrecv_cs_high dev s)
   }"

fun write_loop :: "nat \<Rightarrow> 'c spi_dev \<Rightarrow> u32 \<Rightarrow> buffer \<Rightarrow> nat \<Rightarrow> nat \<Rightarrow> 'c spi \<Rightarrow> 'c spi option" where
  "write_loop fuel dev addr wbuf ptr remain s =
     (if remain = 0 then Some s
      else do {
        s \<leftarrow> w25x80_wait_busy fuel dev s;
        s \<leftarrow> w25x80_wenable dev s;
        let page_remain = PAGE_SIZE - unat addr mod PAGE_SIZE;
        let write_len = (if remain > page_remain then page_remain else remain);
        (_, s) \<leftarrow> spi_tranrecv_buf dev (cmd_addr 0x02 addr) 0 4 (spi_tranrecv_cs_low dev s);
        (_, s) \<leftarrow> spi_tranrecv_buf dev wbuf ptr write_len s;
        let s = spi_tranrecv_cs_high dev s;
        write_loop fuel dev (addr + of_nat write_len) wbuf (ptr + write_len) (remain - write_len) s
      })"

definition w25x80_write_data ::
  "nat \<Rightarrow> 'c spi_dev \<Rightarrow> u32 \<Rightarrow> buffer \<Rightarrow> nat \<Rightarrow> u32 \<Rightarrow> 'c spi \<Rightarrow> 'c spi option"
where
  "w25x80_write_data fuel dev addr wbuf ptr len s = do {
     s \<leftarrow> write_loop fuel dev addr wbuf ptr (unat len) s;
     s \<leftarrow> w25x80_wait_busy fuel dev s;
     w25x80_wdisable dev s
   }"

section \<open>What the driver relies on\<close>

record w25_view =
  cells :: "nat \<Rightarrow> u8"
  wel :: bool
  busy :: nat

fun xfers :: "'c spi_dev \<Rightarrow> buffer list \<Rightarrow> 'c \<Rightarrow> buffer list \<times> 'c" where
  "xfers dev [] c = ([], c)"
| "xfers dev (b # bs) c = (let (r, c) = xfer dev b c; (rs, c) = xfers dev bs c in (r # rs, c))"

text \<open>One command: select, shift the given pieces through, deselect.\<close>

definition frame :: "'c spi_dev \<Rightarrow> buffer list \<Rightarrow> 'c \<Rightarrow> buffer list \<times> 'c" where
  "frame dev reqs c = (let (rs, c) = xfers dev reqs (cs_low dev c) in (rs, cs_high dev c))"

abbreviation (input) FLASH_SIZE :: nat where "FLASH_SIZE \<equiv> 1048576"

definition addr24 :: "u8 \<Rightarrow> u8 \<Rightarrow> u8 \<Rightarrow> nat" where
  "addr24 a2 a1 a0 = unat a2 * 65536 + unat a1 * 256 + unat a0"

definition program :: "nat \<Rightarrow> buffer \<Rightarrow> (nat \<Rightarrow> u8) \<Rightarrow> nat \<Rightarrow> u8" where
  "program a bs m k = (if a \<le> k \<and> k < a + length bs then m k AND bs ! (k - a) else m k)"

definition erase :: "nat \<Rightarrow> (nat \<Rightarrow> u8) \<Rightarrow> nat \<Rightarrow> u8" where
  "erase a m k = (if k div SECTOR_SIZE = a div SECTOR_SIZE then 0xFF else m k)"

definition w25_laws :: "'c spi_dev \<Rightarrow> ('c \<Rightarrow> w25_view) \<Rightarrow> nat \<Rightarrow> bool" where
  "w25_laws dev view polls \<longleftrightarrow>
     (\<forall>req c. length (fst (xfer dev req c)) = length req) \<and>
     (\<forall>c x. bit (fst (frame dev [[0x05, x]] c) ! 0 ! 1) 0 = (busy (view c) > 0) \<and>
        view (snd (frame dev [[0x05, x]] c)) = (view c)\<lparr>busy := busy (view c) - 1\<rparr>) \<and>
     (\<forall>c. busy (view c) = 0 \<longrightarrow>
        view (snd (frame dev [[0x06]] c)) = (view c)\<lparr>wel := True\<rparr> \<and>
        view (snd (frame dev [[0x04]] c)) = (view c)\<lparr>wel := False\<rparr>) \<and>
     (\<forall>c a2 a1 a0 reqs. busy (view c) = 0 \<longrightarrow>
        concat (tl (fst (frame dev ([0x03, a2, a1, a0] # reqs) c))) =
          map (\<lambda>i. cells (view c) ((addr24 a2 a1 a0 + i) mod FLASH_SIZE)) [0..<length (concat reqs)] \<and>
        view (snd (frame dev ([0x03, a2, a1, a0] # reqs) c)) = view c) \<and>
     (\<forall>c a2 a1 a0 bs. busy (view c) = 0 \<and> wel (view c) \<and> addr24 a2 a1 a0 < FLASH_SIZE \<and> bs \<noteq> [] \<and>
        addr24 a2 a1 a0 mod PAGE_SIZE + length bs \<le> PAGE_SIZE \<longrightarrow>
        cells (view (snd (frame dev [[0x02, a2, a1, a0], bs] c))) = program (addr24 a2 a1 a0) bs (cells (view c)) \<and>
        busy (view (snd (frame dev [[0x02, a2, a1, a0], bs] c))) \<le> polls) \<and>
     (\<forall>c a2 a1 a0. busy (view c) = 0 \<and> wel (view c) \<and> addr24 a2 a1 a0 < FLASH_SIZE \<longrightarrow>
        cells (view (snd (frame dev [[0x20, a2, a1, a0]] c))) = erase (addr24 a2 a1 a0) (cells (view c)) \<and>
        busy (view (snd (frame dev [[0x20, a2, a1, a0]] c))) \<le> polls)"

definition spi_ok :: "'c spi \<Rightarrow> bool" where
  "spi_ok s \<longleftrightarrow> length (dma_rtx_buf s) = MAX_TRANRECV_SIZE"

section \<open>Transfers and commands\<close>

declare read_loop.simps [simp del] write_loop.simps [simp del]

lemma xfer_length: "w25_laws dev view polls \<Longrightarrow> length (fst (xfer dev req c)) = length req"
  by (simp add: w25_laws_def)

lemma tranrecv_val:
  assumes "w25_laws dev view polls" "spi_ok s" "off + len \<le> length tbuf" "len \<le> MAX_TRANRECV_SIZE"
    "xfer dev (take len (drop off tbuf)) (chip s) = (r, c)"
  shows "\<exists>d. spi_tranrecv_buf dev tbuf off len s = Some (r, s\<lparr>chip := c, dma_rtx_buf := d\<rparr>) \<and> length d = 1024 \<and>
    length r = len"
proof -
  have r: "length r = len" using xfer_length[OF assms(1), of "take len (drop off tbuf)" "chip s"] assms(3,5) by simp
  then show ?thesis using assms(2-5)
    by (auto simp: spi_tranrecv_buf_def memcpy_def spi_ok_def)
qed

text \<open>A command in one piece.\<close>

lemma command_val:
  assumes "w25_laws dev view polls" "spi_ok s" "length cmd \<le> MAX_TRANRECV_SIZE" "frame dev [cmd] (chip s) = ([r], c)"
  shows "\<exists>s1. spi_tranrecv_buf dev cmd 0 (length cmd) (spi_tranrecv_cs_low dev s) = Some (r, s1) \<and>
    spi_ok (spi_tranrecv_cs_high dev s1) \<and> chip (spi_tranrecv_cs_high dev s1) = c \<and> length r = length cmd"
proof -
  obtain c1 where c1: "xfer dev cmd (cs_low dev (chip s)) = (r, c1)" "c = cs_high dev c1"
    using assms(4) by (auto simp: frame_def Let_def split: prod.splits)
  have ok: "spi_ok (spi_tranrecv_cs_low dev s)" using assms(2) by (simp add: spi_ok_def spi_tranrecv_cs_low_def)
  from tranrecv_val[OF assms(1) ok, of 0 "length cmd" cmd r c1] c1 assms(3) show ?thesis
    by (auto simp: spi_tranrecv_cs_low_def spi_tranrecv_cs_high_def spi_ok_def)
qed

lemma frame_single: "\<exists>r c'. frame dev [cmd] c = ([r], c')"
  by (simp add: frame_def split: prod.splits)

lemma law_status:
  assumes "w25_laws dev view polls" "frame dev [[0x05, x]] c = ([r], c')"
  shows "bit (r ! 1) 0 = (busy (view c) > 0)" "view c' = (view c)\<lparr>busy := busy (view c) - 1\<rparr>"
proof -
  have "\<forall>c x. bit (fst (frame dev [[0x05, x]] c) ! 0 ! 1) 0 = (busy (view c) > 0) \<and>
        view (snd (frame dev [[0x05, x]] c)) = (view c)\<lparr>busy := busy (view c) - 1\<rparr>"
    using assms(1) unfolding w25_laws_def by (elim conjE)
  from this[rule_format, of x c] assms(2)
  show "bit (r ! 1) 0 = (busy (view c) > 0)" "view c' = (view c)\<lparr>busy := busy (view c) - 1\<rparr>" by simp_all
qed

lemma law_wren:
  assumes "w25_laws dev view polls" "busy (view c) = 0"
  shows "view (snd (frame dev [[0x06]] c)) = (view c)\<lparr>wel := True\<rparr>"
    "view (snd (frame dev [[0x04]] c)) = (view c)\<lparr>wel := False\<rparr>"
  using assms unfolding w25_laws_def by blast+

lemma law_read:
  assumes "w25_laws dev view polls" "busy (view c) = 0" "frame dev ([0x03, a2, a1, a0] # reqs) c = (r # rs, c')"
  shows "concat rs = map (\<lambda>i. cells (view c) ((addr24 a2 a1 a0 + i) mod FLASH_SIZE)) [0..<length (concat reqs)]"
    "view c' = view c"
proof -
  have "\<forall>c a2 a1 a0 reqs. busy (view c) = 0 \<longrightarrow>
        concat (tl (fst (frame dev ([0x03, a2, a1, a0] # reqs) c))) =
          map (\<lambda>i. cells (view c) ((addr24 a2 a1 a0 + i) mod FLASH_SIZE)) [0..<length (concat reqs)] \<and>
        view (snd (frame dev ([0x03, a2, a1, a0] # reqs) c)) = view c"
    using assms(1) unfolding w25_laws_def by (elim conjE)
  from this[rule_format, OF assms(2), of a2 a1 a0 reqs] assms(3)
  show "concat rs = map (\<lambda>i. cells (view c) ((addr24 a2 a1 a0 + i) mod FLASH_SIZE)) [0..<length (concat reqs)]"
    "view c' = view c" by simp_all
qed

lemma law_program:
  assumes "w25_laws dev view polls" "busy (view c) = 0" "wel (view c)" "addr24 a2 a1 a0 < FLASH_SIZE" "bs \<noteq> []"
    "addr24 a2 a1 a0 mod PAGE_SIZE + length bs \<le> PAGE_SIZE"
    "frame dev [[0x02, a2, a1, a0], bs] c = (rs, c')"
  shows "cells (view c') = program (addr24 a2 a1 a0) bs (cells (view c))" "busy (view c') \<le> polls"
proof -
  have "\<forall>c a2 a1 a0 bs. busy (view c) = 0 \<and> wel (view c) \<and> addr24 a2 a1 a0 < FLASH_SIZE \<and> bs \<noteq> [] \<and>
        addr24 a2 a1 a0 mod PAGE_SIZE + length bs \<le> PAGE_SIZE \<longrightarrow>
        cells (view (snd (frame dev [[0x02, a2, a1, a0], bs] c))) = program (addr24 a2 a1 a0) bs (cells (view c)) \<and>
        busy (view (snd (frame dev [[0x02, a2, a1, a0], bs] c))) \<le> polls"
    using assms(1) unfolding w25_laws_def by (elim conjE)
  from this[rule_format, of c a2 a1 a0 bs] assms(2-7)
  show "cells (view c') = program (addr24 a2 a1 a0) bs (cells (view c))" "busy (view c') \<le> polls" by simp_all
qed

lemma law_erase:
  assumes "w25_laws dev view polls" "busy (view c) = 0" "wel (view c)" "addr24 a2 a1 a0 < FLASH_SIZE"
    "frame dev [[0x20, a2, a1, a0]] c = (rs, c')"
  shows "cells (view c') = erase (addr24 a2 a1 a0) (cells (view c))" "busy (view c') \<le> polls"
proof -
  have "\<forall>c a2 a1 a0. busy (view c) = 0 \<and> wel (view c) \<and> addr24 a2 a1 a0 < FLASH_SIZE \<longrightarrow>
        cells (view (snd (frame dev [[0x20, a2, a1, a0]] c))) = erase (addr24 a2 a1 a0) (cells (view c)) \<and>
        busy (view (snd (frame dev [[0x20, a2, a1, a0]] c))) \<le> polls"
    using assms(1) unfolding w25_laws_def by (elim conjE)
  from this[rule_format, of c a2 a1 a0] assms(2-5)
  show "cells (view c') = erase (addr24 a2 a1 a0) (cells (view c))" "busy (view c') \<le> polls" by simp_all
qed

lemma wait_busy_val:
  assumes "w25_laws dev view polls" "spi_ok s" "busy (view (chip s)) < fuel"
  shows "\<exists>s'. w25x80_wait_busy fuel dev s = Some s' \<and> spi_ok s' \<and> view (chip s') = (view (chip s))\<lparr>busy := 0\<rparr>"
  using assms(2,3)
proof (induction fuel arbitrary: s)
  case (Suc fuel)
  obtain r c where f: "frame dev [[0x05, 0xFF]] (chip s) = ([r], c)"
    using frame_single[of dev "[0x05, 0xFF]" "chip s"] by blast
  have st: "bit (r ! 1) 0 = (busy (view (chip s)) > 0)" "view c = (view (chip s))\<lparr>busy := busy (view (chip s)) - 1\<rparr>"
    using law_status[OF assms(1) f] by simp_all
  obtain s1 where s1: "spi_tranrecv_buf dev [0x05, 0xFF] 0 2 (spi_tranrecv_cs_low dev s) = Some (r, s1)"
    "spi_ok (spi_tranrecv_cs_high dev s1)" "chip (spi_tranrecv_cs_high dev s1) = c" "length r = 2"
    using command_val[OF assms(1) Suc.prems(1) _ f] by (auto simp: numeral_2_eq_2)
  have b: "r ! 1 AND 0x01 = 0 \<longleftrightarrow> \<not> bit (r ! 1) 0" using and_one_bit_nonzero[of 0 "r ! 1"] by simp
  show ?case
  proof (cases "busy (view (chip s)) = 0")
    case True
    then show ?thesis using s1 st b by (simp add: Let_def)
  next
    case False
    then have "busy (view c) < fuel" "(view c)\<lparr>busy := 0\<rparr> = (view (chip s))\<lparr>busy := 0\<rparr>" using Suc.prems(2) st(2) by simp_all
    with Suc.IH[of "spi_tranrecv_cs_high dev s1"] s1 False st b show ?thesis by (simp add: Let_def)
  qed
qed simp

lemma wenable_val:
  assumes "w25_laws dev view polls" "spi_ok s" "busy (view (chip s)) = 0"
  shows "\<exists>s'. w25x80_wenable dev s = Some s' \<and> spi_ok s' \<and> view (chip s') = (view (chip s))\<lparr>wel := True\<rparr>"
    "\<exists>s'. w25x80_wdisable dev s = Some s' \<and> spi_ok s' \<and> view (chip s') = (view (chip s))\<lparr>wel := False\<rparr>"
proof -
  obtain r c where f: "frame dev [[0x06]] (chip s) = ([r], c)" using frame_single[of dev "[0x06]"] by blast
  obtain r' c' where g: "frame dev [[0x04]] (chip s) = ([r'], c')" using frame_single[of dev "[0x04]"] by blast
  from command_val[OF assms(1,2) _ f] law_wren(1)[OF assms(1,3)] f
  show "\<exists>s'. w25x80_wenable dev s = Some s' \<and> spi_ok s' \<and> view (chip s') = (view (chip s))\<lparr>wel := True\<rparr>"
    by (auto simp: w25x80_wenable_def)
  from command_val[OF assms(1,2) _ g] law_wren(2)[OF assms(1,3)] g
  show "\<exists>s'. w25x80_wdisable dev s = Some s' \<and> spi_ok s' \<and> view (chip s') = (view (chip s))\<lparr>wel := False\<rparr>"
    by (auto simp: w25x80_wdisable_def)
qed

lemma cmd_addr_split:
  assumes "unat addr < 2 ^ 24"
  obtains a2 a1 a0 where "cmd_addr c addr = [c, a2, a1, a0]" "addr24 a2 a1 a0 = unat addr"
proof -
  let ?a2 = "ucast (drop_bit 16 addr AND 0xff) :: u8" and ?a1 = "ucast (drop_bit 8 addr AND 0xff) :: u8"
    and ?a0 = "ucast (addr AND 0xff) :: u8"
  have m: "w AND 0xff = take_bit 8 w" for w :: u32 by (simp add: take_bit_eq_mask mask_eq_exp_minus_1)
  have u: "unat (ucast (w AND 0xff) :: u8) = unat w mod 256" for w :: u32
    by (simp add: m unsigned_ucast_eq take_bit_eq_mod unat_mod)
  have d: "unat (drop_bit n addr) = unat addr div 2 ^ n" for n
    by (subst unat_drop_bit_eq) (rule drop_bit_eq_div)
  have "unat addr div 65536 < 256" using assms by (simp add: less_mult_imp_div_less)
  then have "unat ?a2 = unat addr div 65536" by (simp only: u d) simp
  moreover have "unat ?a1 = unat addr div 256 mod 256" by (simp only: u d) simp
  moreover have "unat ?a0 = unat addr mod 256" by (simp only: u)
  moreover have "n div 65536 * 65536 + n div 256 mod 256 * 256 + n mod 256 = n" for n :: nat
  proof -
    have "n div 65536 = n div 256 div 256" by (simp add: div_mult2_eq[symmetric])
    then have "n div 65536 * 256 + n div 256 mod 256 = n div 256" by simp
    then have "(n div 65536 * 256 + n div 256 mod 256) * 256 + n mod 256 = n" by simp
    then show ?thesis by (simp add: distrib_right)
  qed
  ultimately have "addr24 ?a2 ?a1 ?a0 = unat addr" by (simp add: addr24_def)
  moreover have "cmd_addr c addr = [c, ?a2, ?a1, ?a0]" by (simp add: cmd_addr_def)
  ultimately show ?thesis by (rule that[rotated])
qed

lemma sector_erase_val:
  assumes "w25_laws dev view polls" "spi_ok s" "busy (view (chip s)) < fuel" "polls < fuel" "unat addr < FLASH_SIZE"
  shows "\<exists>s'. w25x80_sector_erase fuel dev addr s = Some s' \<and> spi_ok s' \<and> busy (view (chip s')) = 0 \<and>
    cells (view (chip s')) = erase (unat addr) (cells (view (chip s)))"
proof -
  obtain s1 where s1: "w25x80_wait_busy fuel dev s = Some s1" "spi_ok s1" "view (chip s1) = (view (chip s))\<lparr>busy := 0\<rparr>"
    using wait_busy_val[OF assms(1-3)] by blast
  obtain s2 where s2: "w25x80_wenable dev s1 = Some s2" "spi_ok s2" "view (chip s2) = (view (chip s1))\<lparr>wel := True\<rparr>"
    using wenable_val(1)[OF assms(1) s1(2)] s1(3) by auto
  obtain a2 a1 a0 where a: "cmd_addr 0x20 addr = [0x20, a2, a1, a0]" "addr24 a2 a1 a0 = unat addr"
    using cmd_addr_split[of addr "0x20"] assms(5) by auto
  obtain r c where f: "frame dev [[0x20, a2, a1, a0]] (chip s2) = ([r], c)"
    using frame_single[of dev "[0x20, a2, a1, a0]"] by blast
  obtain s3 where s3: "spi_tranrecv_buf dev [0x20, a2, a1, a0] 0 4 (spi_tranrecv_cs_low dev s2) = Some (r, s3)"
    "spi_ok (spi_tranrecv_cs_high dev s3)" "chip (spi_tranrecv_cs_high dev s3) = c"
    using command_val[OF assms(1) s2(2) _ f] by (auto simp: eval_nat_numeral)
  have c: "cells (view c) = erase (unat addr) (cells (view (chip s)))" "busy (view c) \<le> polls"
    using law_erase[OF assms(1) _ _ _ f] s1(3) s2(3) a(2) assms(5) by auto
  obtain s4 where s4: "w25x80_wait_busy fuel dev (spi_tranrecv_cs_high dev s3) = Some s4" "spi_ok s4"
    "view (chip s4) = (view c)\<lparr>busy := 0\<rparr>"
    using wait_busy_val[OF assms(1) s3(2), of fuel] s3(3) c(2) assms(4) by auto
  obtain s5 where s5: "w25x80_wdisable dev s4 = Some s5" "spi_ok s5" "view (chip s5) = (view (chip s4))\<lparr>wel := False\<rparr>"
    using wenable_val(2)[OF assms(1) s4(2)] s4(3) by auto
  show ?thesis using s1(1) s2(1) s3(1) s4 s5 c(1) a(1) by (simp add: w25x80_sector_erase_def Let_def)
qed

lemma read_loop_val:
  assumes "w25_laws dev view polls" "spi_ok s" "ptr + remain \<le> length rbuf"
  shows "\<exists>reqs rs s'. read_loop dev rbuf ptr remain s =
      Some (take ptr rbuf @ concat rs @ drop (ptr + remain) rbuf, s') \<and> spi_ok s' \<and>
    xfers dev reqs (chip s) = (rs, chip s') \<and> length (concat reqs) = remain \<and> length (concat rs) = remain"
  using assms(2,3)
proof (induction remain arbitrary: rbuf ptr s rule: less_induct)
  case (less remain)
  show ?case
  proof (cases "remain = 0")
    case True
    then show ?thesis using less.prems
      by (intro exI[of _ "[]"] exI[of _ s]) (simp add: read_loop.simps)
  next
    case False
    let ?n = "if remain > MAX_TRANRECV_SIZE then MAX_TRANRECV_SIZE else remain"
    let ?q = "take ?n (drop ptr rbuf)"
    have n: "?n \<le> MAX_TRANRECV_SIZE" "?n \<le> remain" "0 < ?n" using False by auto
    obtain r c where x: "xfer dev ?q (chip s) = (r, c)" by fastforce
    obtain d where d: "spi_tranrecv_buf dev rbuf ptr ?n s = Some (r, s\<lparr>chip := c, dma_rtx_buf := d\<rparr>)" "length d = 1024"
      "length r = ?n" using tranrecv_val[OF assms(1) less.prems(1) _ n(1) x] less.prems(2) n(2) by auto
    let ?s = "s\<lparr>chip := c, dma_rtx_buf := d\<rparr>" and ?b = "take ptr rbuf @ r @ drop (ptr + ?n) rbuf"
    have m: "memcpy rbuf ptr r 0 ?n = Some ?b" using less.prems(2) n(2) d(3) by (simp add: memcpy_def)
    have lb: "length ?b = length rbuf" using less.prems(2) n(2) d(3) by simp
    have ok: "spi_ok ?s" using d(2) by (simp add: spi_ok_def)
    have "remain - ?n < remain" "ptr + ?n + (remain - ?n) \<le> length ?b" using n False less.prems(2) lb by auto
    from less.IH[OF this(1) ok this(2)] obtain reqs rs s' where
      ih: "read_loop dev ?b (ptr + ?n) (remain - ?n) ?s =
        Some (take (ptr + ?n) ?b @ concat rs @ drop (ptr + ?n + (remain - ?n)) ?b, s')" "spi_ok s'"
        "xfers dev reqs c = (rs, chip s')" "length (concat reqs) = remain - ?n" "length (concat rs) = remain - ?n"
      by auto
    have t: "take (ptr + ?n) ?b = take ptr rbuf @ r" using less.prems(2) n(2) d(3) by simp
    have dr: "drop (ptr + ?n + (remain - ?n)) ?b = drop (ptr + remain) rbuf"
      using less.prems(2) n(2) d(3) by (simp add: drop_drop add.commute)
    have "read_loop dev rbuf ptr remain s = Some (take ptr rbuf @ concat (r # rs) @ drop (ptr + remain) rbuf, s')"
      using False d(1) m ih(1) t dr by (subst read_loop.simps) (simp add: Let_def del: if_split)
    moreover have "xfers dev (?q # reqs) (chip s) = (r # rs, chip s')" using x ih(3) by (simp add: Let_def del: if_split)
    moreover have "length (concat (?q # reqs)) = remain" "length (concat (r # rs)) = remain"
      using ih(4,5) n(2) d(3) less.prems(2) by simp_all
    ultimately show ?thesis using ih(2) by blast
  qed
qed

lemma read_data_val:
  assumes "w25_laws dev view polls" "spi_ok s" "busy (view (chip s)) < fuel" "unat addr + unat len \<le> FLASH_SIZE"
    "ptr + unat len \<le> length rbuf"
  shows "\<exists>s'. w25x80_read_data fuel dev addr rbuf ptr len s =
      Some (take ptr rbuf @ map (cells (view (chip s))) [unat addr..<unat addr + unat len] @ drop (ptr + unat len) rbuf, s') \<and>
    spi_ok s' \<and> view (chip s') = (view (chip s))\<lparr>busy := 0\<rparr>"
proof -
  obtain s1 where s1: "w25x80_wait_busy fuel dev s = Some s1" "spi_ok s1" "view (chip s1) = (view (chip s))\<lparr>busy := 0\<rparr>"
    using wait_busy_val[OF assms(1-3)] by blast
  have "unat addr < 2 ^ 24" using assms(4) by simp
  then obtain a2 a1 a0 where a: "cmd_addr 0x03 addr = [0x03, a2, a1, a0]" "addr24 a2 a1 a0 = unat addr"
    by (rule cmd_addr_split[of addr "0x03"])
  let ?cmd = "[0x03, a2, a1, a0]" and ?s1 = "spi_tranrecv_cs_low dev s1"
  have ok1: "spi_ok ?s1" using s1(2) by (simp add: spi_ok_def spi_tranrecv_cs_low_def)
  obtain r c where x: "xfer dev ?cmd (chip ?s1) = (r, c)" by fastforce
  obtain d where d: "spi_tranrecv_buf dev ?cmd 0 4 ?s1 = Some (r, ?s1\<lparr>chip := c, dma_rtx_buf := d\<rparr>)" "length d = 1024"
    using tranrecv_val[OF assms(1) ok1, of 0 4 ?cmd r c] x by auto
  let ?s2 = "?s1\<lparr>chip := c, dma_rtx_buf := d\<rparr>"
  have ok2: "spi_ok ?s2" using d(2) by (simp add: spi_ok_def)
  obtain reqs rs s3 where l: "read_loop dev rbuf ptr (unat len) ?s2 =
      Some (take ptr rbuf @ concat rs @ drop (ptr + unat len) rbuf, s3)" "spi_ok s3"
      "xfers dev reqs (chip ?s2) = (rs, chip s3)" "length (concat reqs) = unat len"
    using read_loop_val[OF assms(1) ok2 assms(5)] by blast
  have f: "frame dev (?cmd # reqs) (chip s1) = (r # rs, cs_high dev (chip s3))"
    using x l(3) by (simp add: frame_def Let_def spi_tranrecv_cs_low_def)
  have "busy (view (chip s1)) = 0" using s1(3) by simp
  note rd = law_read[OF assms(1) this f]
  have "concat rs = map (\<lambda>i. cells (view (chip s)) (unat addr + i)) [0..<unat len]"
    unfolding rd(1) l(4) using s1(3) a(2) assms(4) by simp
  also have "\<dots> = map (cells (view (chip s))) [unat addr..<unat addr + unat len]"
    by (simp add: list_eq_iff_nth_eq)
  finally show ?thesis using s1 d(1) a(1) l(1,2) rd(2)
    by (simp add: w25x80_read_data_def spi_tranrecv_cs_high_def spi_ok_def)
qed

text \<open>One page: enable, program, and the chip busy again.\<close>

lemma page_program_val:
  assumes "w25_laws dev view polls" "spi_ok s" "busy (view (chip s)) = 0" "wel (view (chip s))"
    "unat addr < FLASH_SIZE" "0 < n" "unat addr mod PAGE_SIZE + n \<le> PAGE_SIZE" "ptr + n \<le> length wbuf"
  shows "\<exists>s1 s2 r1 r2. spi_tranrecv_buf dev (cmd_addr 0x02 addr) 0 4 (spi_tranrecv_cs_low dev s) = Some (r1, s1) \<and>
    spi_tranrecv_buf dev wbuf ptr n s1 = Some (r2, s2) \<and> spi_ok (spi_tranrecv_cs_high dev s2) \<and>
    cells (view (chip (spi_tranrecv_cs_high dev s2))) =
      program (unat addr) (take n (drop ptr wbuf)) (cells (view (chip s))) \<and>
    busy (view (chip (spi_tranrecv_cs_high dev s2))) \<le> polls"
proof -
  have "unat addr < 2 ^ 24" using assms(5) by simp
  then obtain a2 a1 a0 where a: "cmd_addr 0x02 addr = [0x02, a2, a1, a0]" "addr24 a2 a1 a0 = unat addr"
    by (rule cmd_addr_split[of addr "0x02"])
  let ?cmd = "[0x02, a2, a1, a0]" and ?s = "spi_tranrecv_cs_low dev s" and ?w = "take n (drop ptr wbuf)"
  have ok: "spi_ok ?s" using assms(2) by (simp add: spi_ok_def spi_tranrecv_cs_low_def)
  obtain r c where x: "xfer dev ?cmd (chip ?s) = (r, c)" by fastforce
  obtain d where d: "spi_tranrecv_buf dev ?cmd 0 4 ?s = Some (r, ?s\<lparr>chip := c, dma_rtx_buf := d\<rparr>)" "length d = 1024"
    using tranrecv_val[OF assms(1) ok, of 0 4 ?cmd r c] x by auto
  let ?s1 = "?s\<lparr>chip := c, dma_rtx_buf := d\<rparr>"
  have ok1: "spi_ok ?s1" using d(2) by (simp add: spi_ok_def)
  obtain r2 c2 where x2: "xfer dev ?w (chip ?s1) = (r2, c2)" by fastforce
  have n: "n \<le> MAX_TRANRECV_SIZE" using assms(7) by simp
  obtain d2 where d2: "spi_tranrecv_buf dev wbuf ptr n ?s1 = Some (r2, ?s1\<lparr>chip := c2, dma_rtx_buf := d2\<rparr>)" "length d2 = 1024"
    using tranrecv_val[OF assms(1) ok1 assms(8) n x2] by blast
  have f: "frame dev [?cmd, ?w] (chip s) = ([r, r2], cs_high dev c2)"
    using x x2 by (simp add: frame_def Let_def spi_tranrecv_cs_low_def)
  have w: "?w \<noteq> []" "length ?w = n" using assms(6,8) by auto
  have "cells (view (cs_high dev c2)) = program (unat addr) ?w (cells (view (chip s)))" "busy (view (cs_high dev c2)) \<le> polls"
    using law_program[OF assms(1,3,4) _ w(1) _ f] a(2) assms(5,7) w(2) by simp_all
  then show ?thesis using d(1) d2 a(1)
    by (auto simp: spi_tranrecv_cs_high_def spi_ok_def)
qed

lemma program_append:
  "program (a + length xs) ys (program a xs m) = program a (xs @ ys) m"
  by (auto simp: program_def fun_eq_iff nth_append)

lemma program_nil [simp]: "program a [] m = m"
  by (auto simp: program_def fun_eq_iff)

lemma write_loop_val:
  assumes "w25_laws dev view polls" "spi_ok s" "busy (view (chip s)) < fuel" "polls < fuel"
    "unat addr + remain \<le> FLASH_SIZE" "ptr + remain \<le> length wbuf"
  shows "\<exists>s'. write_loop fuel dev addr wbuf ptr remain s = Some s' \<and> spi_ok s' \<and> busy (view (chip s')) < fuel \<and>
    cells (view (chip s')) = program (unat addr) (take remain (drop ptr wbuf)) (cells (view (chip s)))"
  using assms(2,3,5,6)
proof (induction remain arbitrary: addr ptr s rule: less_induct)
  case (less remain)
  show ?case
  proof (cases "remain = 0")
    case True
    then show ?thesis using less.prems by (simp add: write_loop.simps)
  next
    case False
    define n where "n = (if remain > PAGE_SIZE - unat addr mod PAGE_SIZE then PAGE_SIZE - unat addr mod PAGE_SIZE else remain)"
    have n: "0 < n" "n \<le> remain" "unat addr mod PAGE_SIZE + n \<le> PAGE_SIZE"
      using False mod_less_divisor[of PAGE_SIZE "unat addr"] by (auto simp: n_def)
    obtain s1 where s1: "w25x80_wait_busy fuel dev s = Some s1" "spi_ok s1" "view (chip s1) = (view (chip s))\<lparr>busy := 0\<rparr>"
      using wait_busy_val[OF assms(1) less.prems(1,2)] by blast
    obtain s2 where s2: "w25x80_wenable dev s1 = Some s2" "spi_ok s2" "view (chip s2) = (view (chip s1))\<lparr>wel := True\<rparr>"
      using wenable_val(1)[OF assms(1) s1(2)] s1(3) by auto
    have v2: "busy (view (chip s2)) = 0" "wel (view (chip s2))" "cells (view (chip s2)) = cells (view (chip s))"
      using s1(3) s2(3) by simp_all
    have ad: "unat addr < FLASH_SIZE" "ptr + n \<le> length wbuf" using less.prems(3,4) n by simp_all
    obtain s3 s4 r1 r2 where p: "spi_tranrecv_buf dev (cmd_addr 0x02 addr) 0 4 (spi_tranrecv_cs_low dev s2) = Some (r1, s3)"
      "spi_tranrecv_buf dev wbuf ptr n s3 = Some (r2, s4)" "spi_ok (spi_tranrecv_cs_high dev s4)"
      "cells (view (chip (spi_tranrecv_cs_high dev s4))) = program (unat addr) (take n (drop ptr wbuf)) (cells (view (chip s)))"
      "busy (view (chip (spi_tranrecv_cs_high dev s4))) \<le> polls"
      using page_program_val[OF assms(1) s2(2) v2(1,2) ad(1) n(1,3) ad(2)] v2(3) by auto
    have u: "unat (addr + of_nat n) = unat addr + n"
      using less.prems(3) n(2) by (simp add: unat_word_ariths unat_of_nat)
    have b: "busy (view (chip (spi_tranrecv_cs_high dev s4))) < fuel" using p(5) assms(4) by simp
    have "remain - n < remain" "unat (addr + of_nat n) + (remain - n) \<le> FLASH_SIZE" "ptr + n + (remain - n) \<le> length wbuf"
      using less.prems n u by simp_all
    from less.IH[OF this(1) p(3) b this(2,3)] obtain s5 where
      s5: "write_loop fuel dev (addr + of_nat n) wbuf (ptr + n) (remain - n) (spi_tranrecv_cs_high dev s4) = Some s5"
      "spi_ok s5" "busy (view (chip s5)) < fuel"
      "cells (view (chip s5)) = program (unat addr + n) (take (remain - n) (drop (ptr + n) wbuf))
         (program (unat addr) (take n (drop ptr wbuf)) (cells (view (chip s))))"
      using p(4) u by auto
    have sp: "take n (drop ptr wbuf) @ take (remain - n) (drop (ptr + n) wbuf) = take remain (drop ptr wbuf)"
      using n(2) by (metis add.commute drop_drop le_add_diff_inverse take_add)
    have "cells (view (chip s5)) = program (unat addr) (take remain (drop ptr wbuf)) (cells (view (chip s)))"
      unfolding s5(4) sp[symmetric] program_append[symmetric] using ad(2) by simp
    moreover have "write_loop fuel dev addr wbuf ptr remain s = Some s5"
      using False s1(1) s2(1) p(1,2) s5(1)
      by (subst write_loop.simps) (simp add: Let_def n_def[symmetric] del: if_split)
    ultimately show ?thesis using s5(2,3) by blast
  qed
qed

lemma write_data_val:
  assumes "w25_laws dev view polls" "spi_ok s" "busy (view (chip s)) < fuel" "polls < fuel"
    "unat addr + unat len \<le> FLASH_SIZE" "ptr + unat len \<le> length wbuf"
  shows "\<exists>s'. w25x80_write_data fuel dev addr wbuf ptr len s = Some s' \<and> spi_ok s' \<and> busy (view (chip s')) = 0 \<and>
    cells (view (chip s')) = program (unat addr) (take (unat len) (drop ptr wbuf)) (cells (view (chip s)))"
proof -
  obtain s1 where s1: "write_loop fuel dev addr wbuf ptr (unat len) s = Some s1" "spi_ok s1" "busy (view (chip s1)) < fuel"
    "cells (view (chip s1)) = program (unat addr) (take (unat len) (drop ptr wbuf)) (cells (view (chip s)))"
    using write_loop_val[OF assms] by blast
  obtain s2 where s2: "w25x80_wait_busy fuel dev s1 = Some s2" "spi_ok s2" "view (chip s2) = (view (chip s1))\<lparr>busy := 0\<rparr>"
    using wait_busy_val[OF assms(1) s1(2,3)] by blast
  obtain s3 where "w25x80_wdisable dev s2 = Some s3" "spi_ok s3" "view (chip s3) = (view (chip s2))\<lparr>wel := False\<rparr>"
    using wenable_val(2)[OF assms(1) s2(2)] s2(3) by auto
  with s1 s2 show ?thesis by (simp add: w25x80_write_data_def)
qed

section \<open>A chip that honours the laws\<close>

text \<open>
  A device with the commands of the data sheet: it collects the bytes of a command while it is
  selected and carries the command out when it is deselected; an erase is busy for two
  status reads and a page program for one. It shows that the laws can hold together.
\<close>

record nor_chip =
  nor_cells :: "nat \<Rightarrow> u8"
  nor_wel :: bool
  nor_busy :: nat
  nor_cur :: buffer

definition nor_view :: "nor_chip \<Rightarrow> w25_view" where
  "nor_view c = \<lparr>cells = nor_cells c, wel = nor_wel c, busy = nor_busy c\<rparr>"

definition nor_out :: "nor_chip \<Rightarrow> buffer \<Rightarrow> nat \<Rightarrow> u8" where
  "nor_out c full p =
     (if full ! 0 = 0x03 \<and> 4 \<le> p \<and> nor_busy c = 0
      then nor_cells c ((addr24 (full ! 1) (full ! 2) (full ! 3) + (p - 4)) mod FLASH_SIZE)
      else if full ! 0 = 0x05 \<and> 1 \<le> p \<and> nor_busy c > 0 then 1 else 0)"

fun nor_exec :: "buffer \<Rightarrow> nor_chip \<Rightarrow> nor_chip" where
  "nor_exec (op # args) c =
     (if op = 0x05 then c\<lparr>nor_busy := nor_busy c - 1\<rparr>
      else if nor_busy c > 0 then c
      else if op = 0x06 then c\<lparr>nor_wel := True\<rparr>
      else if op = 0x04 then c\<lparr>nor_wel := False\<rparr>
      else if op = 0x20 \<and> nor_wel c \<and> length args \<ge> 3
        then c\<lparr>nor_cells := erase (addr24 (args ! 0) (args ! 1) (args ! 2)) (nor_cells c), nor_wel := False, nor_busy := 2\<rparr>
      else if op = 0x02 \<and> nor_wel c \<and> length args \<ge> 3
        then c\<lparr>nor_cells := program (addr24 (args ! 0) (args ! 1) (args ! 2)) (drop 3 args) (nor_cells c), nor_wel := False, nor_busy := 1\<rparr>
      else c)"
| "nor_exec [] c = c"

definition nor_dev :: "nor_chip spi_dev" where
  "nor_dev = \<lparr>cs_low = (\<lambda>c. c\<lparr>nor_cur := []\<rparr>),
     cs_high = (\<lambda>c. nor_exec (nor_cur c) c),
     xfer = (\<lambda>bs c. (map (\<lambda>i. nor_out c (nor_cur c @ bs) (length (nor_cur c) + i)) [0..<length bs],
                     c\<lparr>nor_cur := nor_cur c @ bs\<rparr>))\<rparr>"

lemma nor_dev_simps [simp]:
  "cs_low nor_dev c = c\<lparr>nor_cur := []\<rparr>" "cs_high nor_dev c = nor_exec (nor_cur c) c"
  "fst (xfer nor_dev bs c) = map (\<lambda>i. nor_out c (nor_cur c @ bs) (length (nor_cur c) + i)) [0..<length bs]"
  "snd (xfer nor_dev bs c) = c\<lparr>nor_cur := nor_cur c @ bs\<rparr>"
  by (simp_all add: nor_dev_def)

lemma xfers_split:
  "fst (xfers dev (b # bs) c) = fst (xfer dev b c) # fst (xfers dev bs (snd (xfer dev b c)))"
  "snd (xfers dev (b # bs) c) = snd (xfers dev bs (snd (xfer dev b c)))"
  by (simp_all add: Let_def split_beta)

lemma frame_split:
  "fst (frame dev reqs c) = fst (xfers dev reqs (cs_low dev c))"
  "snd (frame dev reqs c) = cs_high dev (snd (xfers dev reqs (cs_low dev c)))"
  by (simp_all add: frame_def Let_def split_beta)

lemma nor_xfers_state: "snd (xfers nor_dev reqs c) = c\<lparr>nor_cur := nor_cur c @ concat reqs\<rparr>"
  by (induction reqs arbitrary: c) (simp_all add: xfers_split del: xfers.simps(2))

lemma nor_out_reading:
  assumes "4 \<le> length cur" "cur ! 0 = 0x03" "nor_busy c = 0" "length cur \<le> p"
  shows "nor_out c (cur @ bs) p =
    nor_cells c ((addr24 (cur ! 1) (cur ! 2) (cur ! 3) + (p - 4)) mod FLASH_SIZE)"
  using assms by (cases cur) (auto simp: nor_out_def nth_append)

lemma map_upt_append: "map g [0..<m] @ map (\<lambda>i. g (m + i)) [0..<n] = map g [0..<m + n]"
  by (rule nth_equalityI) (auto simp: nth_append)

lemma nor_xfers_read:
  assumes "4 \<le> length (nor_cur c)" "nor_cur c ! 0 = 0x03" "nor_busy c = 0"
  shows "concat (fst (xfers nor_dev reqs c)) =
    map (\<lambda>i. nor_cells c ((addr24 (nor_cur c ! 1) (nor_cur c ! 2) (nor_cur c ! 3) + (length (nor_cur c) - 4 + i)) mod FLASH_SIZE))
      [0..<length (concat reqs)]"
  using assms
proof (induction reqs arbitrary: c)
  case (Cons b bs)
  let ?c = "c\<lparr>nor_cur := nor_cur c @ b\<rparr>" and ?a = "addr24 (nor_cur c ! 1) (nor_cur c ! 2) (nor_cur c ! 3)"
  let ?g = "\<lambda>i. nor_cells c ((?a + (length (nor_cur c) - 4 + i)) mod FLASH_SIZE)"
  have nth: "nor_cur ?c ! k = nor_cur c ! k" if "k < 4" for k
    using Cons.prems(1) that by (simp add: nth_append)
  have len: "length (nor_cur ?c) - 4 + i = length (nor_cur c) - 4 + (length b + i)" for i
    using Cons.prems(1) by simp
  have n: "nor_cur ?c ! 1 = nor_cur c ! 1" "nor_cur ?c ! 2 = nor_cur c ! 2" "nor_cur ?c ! 3 = nor_cur c ! 3"
    by (rule nth, simp)+
  have a: "4 \<le> length (nor_cur ?c)" "nor_cur ?c ! 0 = 0x03" "nor_busy ?c = 0" "nor_cells ?c = nor_cells c"
    using Cons.prems nth[of 0] by simp_all
  have ih: "concat (fst (xfers nor_dev bs ?c)) = map (\<lambda>i. ?g (length b + i)) [0..<length (concat bs)]"
    using Cons.IH[OF a(1-3)] by (simp only: len a(4) n)
  have o: "nor_out c (nor_cur c @ b) (length (nor_cur c) + i) = ?g i" for i
  proof -
    have p: "length (nor_cur c) + i - 4 = length (nor_cur c) - 4 + i" using Cons.prems(1) by simp
    have "nor_out c (nor_cur c @ b) (length (nor_cur c) + i) = nor_cells c ((?a + (length (nor_cur c) + i - 4)) mod FLASH_SIZE)"
      by (rule nor_out_reading[OF Cons.prems]) simp
    then show ?thesis unfolding p .
  qed
  have x: "fst (xfer nor_dev b c) = map ?g [0..<length b]" "snd (xfer nor_dev b c) = ?c"
    by (simp_all only: nor_dev_simps o)
  have "concat (fst (xfers nor_dev (b # bs) c)) = fst (xfer nor_dev b c) @ concat (fst (xfers nor_dev bs ?c))"
    by (simp only: xfers_split x(2) concat.simps)
  also have "\<dots> = map ?g [0..<length b] @ map (\<lambda>i. ?g (length b + i)) [0..<length (concat bs)]"
    by (simp only: x(1) ih)
  also have "\<dots> = map ?g [0..<length (concat (b # bs))]"
    using map_upt_append[of ?g "length b" "length (concat bs)"] by (simp only: concat.simps length_append)
  finally show ?case .
qed simp

lemma nor_frame_state: "snd (frame nor_dev reqs c) = nor_exec (concat reqs) (c\<lparr>nor_cur := concat reqs\<rparr>)"
  by (simp add: frame_split nor_xfers_state)

lemma nor_frame_read:
  assumes "nor_busy c = 0"
  shows "concat (tl (fst (frame nor_dev ([0x03, a2, a1, a0] # reqs) c))) =
    map (\<lambda>i. nor_cells c ((addr24 a2 a1 a0 + i) mod FLASH_SIZE)) [0..<length (concat reqs)]"
proof -
  let ?c = "c\<lparr>nor_cur := [0x03, a2, a1, a0]\<rparr>"
  have "concat (fst (xfers nor_dev reqs ?c)) =
      map (\<lambda>i. nor_cells c ((addr24 a2 a1 a0 + i) mod FLASH_SIZE)) [0..<length (concat reqs)]"
    using nor_xfers_read[of ?c reqs] assms by (simp add: numeral_2_eq_2 numeral_3_eq_3)
  then show ?thesis by (simp add: frame_split xfers_split del: xfers.simps(2))
qed

lemma nor_laws: "w25_laws nor_dev nor_view 2"
  unfolding w25_laws_def
proof (intro conjI allI impI)
  fix c x
  show "bit (fst (frame nor_dev [[0x05, x]] c) ! 0 ! 1) 0 = (busy (nor_view c) > 0)"
    by (simp add: frame_split xfers_split nor_out_def nor_view_def del: xfers.simps(2))
next
  fix c a2 a1 a0 reqs assume "busy (nor_view c) = 0"
  then show "concat (tl (fst (frame nor_dev ([0x03, a2, a1, a0] # reqs) c))) =
      map (\<lambda>i. cells (nor_view c) ((addr24 a2 a1 a0 + i) mod FLASH_SIZE)) [0..<length (concat reqs)]"
    using nor_frame_read[of c] by (simp add: nor_view_def)
qed (auto simp: nor_frame_state nor_view_def)

end
