(* ===== verification/Msc_Disk.thy ===== *)
theory Msc_Disk
  imports Flash
begin

text \<open>
  The block device of the firmware: \<^verbatim>\<open>USER/msc_diskio.c\<close>, which serves the USB mass storage class, and the
  FatFs glue \<^verbatim>\<open>FATFS/diskio.c\<close> on top of it. A \<^verbatim>\<open>read_buf\<close> or \<^verbatim>\<open>buf\<close> pointer is an array and an offset.

  The interface \<open>sector_store\<close> states what FatFs expects of a store of 4096-byte sectors. The locale \<open>flash_disk\<close>
  fixes a chip that honours the laws of \<open>Flash\<close> and is a sublocale of it, through \<^verbatim>\<open>disk_read\<close> and \<^verbatim>\<open>disk_write\<close>.
\<close>

section \<open>The code\<close>

datatype usb_sts_type = USB_OK | USB_FAIL | USB_WAIT | USB_NOT_SUPPORT | USB_ERROR

abbreviation (input) MSC_SUPPORT_MAX_LUN :: u8 where "MSC_SUPPORT_MAX_LUN \<equiv> 1"
abbreviation (input) SCSI_INQUIRY_DATA_LENGTH :: nat where "SCSI_INQUIRY_DATA_LENGTH \<equiv> 36"
abbreviation (input) SPI_FLASH_LUN :: u8 where "SPI_FLASH_LUN \<equiv> 0"

definition scsi_inquiry :: "buffer list" where
  "scsi_inquiry = [
     [0x00, 0x80, 0x00, 0x01, 31, 0x00, 0x00, 0x00,
      0x41, 0x54, 0x33, 0x32, 0x20, 0x20, 0x20, 0x20,
      0x44, 0x69, 0x73, 0x6B, 0x30, 0x20, 0x20, 0x20, 0x20, 0x20, 0x20, 0x20, 0x20, 0x20, 0x20, 0x20,
      0x32, 0x2E, 0x30, 0x30]]"

text \<open>\<open>None\<close> is the NULL pointer.\<close>

definition get_inquiry :: "u8 \<Rightarrow> buffer option" where
  "get_inquiry lun = (if lun < MSC_SUPPORT_MAX_LUN then rd scsi_inquiry (unat lun) else None)"

definition msc_disk_read ::
  "nat \<Rightarrow> 'c spi_dev \<Rightarrow> u8 \<Rightarrow> u64 \<Rightarrow> buffer \<Rightarrow> nat \<Rightarrow> u32 \<Rightarrow> 'c spi \<Rightarrow> (usb_sts_type \<times> buffer \<times> 'c spi) option"
where
  "msc_disk_read fuel dev lun addr read_buf ptr len s =
     (if lun = SPI_FLASH_LUN then do {
        (b, s) \<leftarrow> w25x80_read_data fuel dev (ucast addr) read_buf ptr len s;
        Some (USB_OK, b, s)
      }
      else Some (USB_OK, read_buf, s))"

fun disk_write_loop :: "nat \<Rightarrow> 'c spi_dev \<Rightarrow> nat \<Rightarrow> u32 \<Rightarrow> buffer \<Rightarrow> nat \<Rightarrow> 'c spi \<Rightarrow> 'c spi option" where
  "disk_write_loop fuel dev 0 sector buf ptr s = Some s"
| "disk_write_loop fuel dev (Suc n) sector buf ptr s = do {
     s \<leftarrow> w25x80_sector_erase fuel dev (sector * 4096) s;
     s \<leftarrow> w25x80_write_data fuel dev (sector * 4096) buf ptr 4096 s;
     disk_write_loop fuel dev n (sector + 1) buf (ptr + 4096) s
   }"

definition msc_disk_write ::
  "nat \<Rightarrow> 'c spi_dev \<Rightarrow> u8 \<Rightarrow> u64 \<Rightarrow> buffer \<Rightarrow> nat \<Rightarrow> u32 \<Rightarrow> 'c spi \<Rightarrow> (usb_sts_type \<times> 'c spi) option"
where
  "msc_disk_write fuel dev lun addr buf ptr len s =
     (if lun = SPI_FLASH_LUN then do {
        let sector = ucast (addr div 4096);
        let count = (len + 4095) div 4096;
        s \<leftarrow> disk_write_loop fuel dev (unat count) sector buf ptr s;
        Some (USB_OK, s)
      }
      else Some (USB_OK, s))"

text \<open>The two out parameters: their new values, or those passed in where the code leaves them alone.\<close>

definition msc_disk_capacity :: "u8 \<Rightarrow> u32 \<Rightarrow> u32 \<Rightarrow> usb_sts_type \<times> u32 \<times> u32" where
  "msc_disk_capacity lun blk_nbr blk_size =
     (if lun = SPI_FLASH_LUN then (USB_OK, 256, 4096) else (USB_OK, blk_nbr, blk_size))"

datatype DRESULT = RES_OK | RES_ERROR | RES_WRPRT | RES_NOTRDY | RES_PARERR

abbreviation (input) STA_NOINIT :: u8 where "STA_NOINIT \<equiv> 1"
abbreviation (input) DEV_USB :: u8 where "DEV_USB \<equiv> 0"

definition disk_status :: "u8 \<Rightarrow> u8" where
  "disk_status pdrv = (if pdrv = DEV_USB then 0 else STA_NOINIT)"

definition disk_read ::
  "nat \<Rightarrow> 'c spi_dev \<Rightarrow> u8 \<Rightarrow> buffer \<Rightarrow> u32 \<Rightarrow> u32 \<Rightarrow> 'c spi \<Rightarrow> (DRESULT \<times> buffer \<times> 'c spi) option"
where
  "disk_read fuel dev pdrv buff sector count s =
     (if pdrv = DEV_USB then do {
        (_, b, s) \<leftarrow> msc_disk_read fuel dev DEV_USB (ucast (sector * 4096)) buff 0 (count * 4096) s;
        Some (RES_OK, b, s)
      }
      else Some (RES_PARERR, buff, s))"

definition disk_write ::
  "nat \<Rightarrow> 'c spi_dev \<Rightarrow> u8 \<Rightarrow> buffer \<Rightarrow> u32 \<Rightarrow> u32 \<Rightarrow> 'c spi \<Rightarrow> (DRESULT \<times> 'c spi) option"
where
  "disk_write fuel dev pdrv buff sector count s =
     (if pdrv = DEV_USB then do {
        (_, s) \<leftarrow> msc_disk_write fuel dev DEV_USB (ucast (sector * 4096)) buff 0 (count * 4096) s;
        Some (RES_OK, s)
      }
      else Some (RES_PARERR, s))"

datatype ioctl_out = IoctlNone | IoctlLba u32 | IoctlWord u16 | IoctlDword u32

definition disk_ioctl :: "u8 \<Rightarrow> u8 \<Rightarrow> DRESULT \<times> ioctl_out" where
  "disk_ioctl pdrv cmd =
     (if pdrv = DEV_USB
      then (RES_OK, if cmd = 1 then IoctlLba 256 else if cmd = 2 then IoctlWord 4096
                    else if cmd = 3 then IoctlDword 1 else IoctlNone)
      else (RES_PARERR, IoctlNone))"

definition get_fattime :: u32 where
  "get_fattime = push_bit 25 (2026 - 80) OR push_bit 21 (8 + 1) OR push_bit 16 7 OR push_bit 11 17 OR
     push_bit 5 6 OR drop_bit 1 30"

section \<open>Sectors\<close>

lemma ff_and [simp]: "0xFF AND b = (b :: u8)"
proof -
  have "(0xFF :: u8) = - 1" by simp
  then show ?thesis by (simp only: and.left_neutral)
qed

lemma same_sector_iff: "k div SECTOR_SIZE = q \<longleftrightarrow> SECTOR_SIZE * q \<le> k \<and> k < SECTOR_SIZE * q + SECTOR_SIZE"
  using dividend_less_times_div[of SECTOR_SIZE k] times_div_less_eq_dividend[of SECTOR_SIZE k]
    div_nat_eqI[of SECTOR_SIZE q k] by auto

lemma program_erased:
  assumes "length bs = SECTOR_SIZE"
  shows "program (SECTOR_SIZE * q) bs (erase (SECTOR_SIZE * q) m) k =
    (if k div SECTOR_SIZE = q then bs ! (k - SECTOR_SIZE * q) else m k)"
  using assms same_sector_iff[of k q] by (auto simp: program_def erase_def)

text \<open>The cells of the flash after \<open>n\<close> sectors from \<open>sec\<close> on have been replaced by \<open>data\<close>.\<close>

definition sectors_set :: "nat \<Rightarrow> nat \<Rightarrow> buffer \<Rightarrow> (nat \<Rightarrow> u8) \<Rightarrow> nat \<Rightarrow> u8" where
  "sectors_set sec n data m k =
     (if SECTOR_SIZE * sec \<le> k \<and> k < SECTOR_SIZE * (sec + n) then data ! (k - SECTOR_SIZE * sec) else m k)"

lemma sectors_set_Suc:
  "sectors_set (Suc sec) n (drop SECTOR_SIZE data)
     (\<lambda>k. if k div SECTOR_SIZE = sec then data ! (k - SECTOR_SIZE * sec) else m k) =
   sectors_set sec (Suc n) data m" if "SECTOR_SIZE \<le> length data"
proof
  fix k
  show "sectors_set (Suc sec) n (drop SECTOR_SIZE data)
     (\<lambda>k. if k div SECTOR_SIZE = sec then data ! (k - SECTOR_SIZE * sec) else m k) k = sectors_set sec (Suc n) data m k"
    using that same_sector_iff[of k sec] by (auto simp: sectors_set_def)
qed

lemma disk_write_loop_val:
  assumes "w25_laws dev view polls" "spi_ok s" "busy (view (chip s)) < fuel" "polls < fuel"
    "unat sector + n \<le> 256" "ptr + SECTOR_SIZE * n \<le> length buf"
  shows "\<exists>s'. disk_write_loop fuel dev n sector buf ptr s = Some s' \<and> spi_ok s' \<and> busy (view (chip s')) < fuel \<and>
    cells (view (chip s')) = sectors_set (unat sector) n (drop ptr buf) (cells (view (chip s)))"
  using assms(2,3,5,6)
proof (induction n arbitrary: sector ptr s)
  case 0
  then show ?case by (auto simp: sectors_set_def fun_eq_iff)
next
  case (Suc n)
  let ?a = "sector * 4096"
  have a: "unat ?a = SECTOR_SIZE * unat sector" using Suc.prems(3) by (simp add: unat_word_ariths)
  have fits: "unat ?a < FLASH_SIZE" "unat ?a + unat (4096 :: u32) \<le> FLASH_SIZE" "ptr + unat (4096 :: u32) \<le> length buf"
    using Suc.prems(3,4) by (simp_all add: a)
  obtain s1 where s1: "w25x80_sector_erase fuel dev ?a s = Some s1" "spi_ok s1" "busy (view (chip s1)) = 0"
    "cells (view (chip s1)) = erase (SECTOR_SIZE * unat sector) (cells (view (chip s)))"
    using sector_erase_val[OF assms(1) Suc.prems(1,2) assms(4) fits(1)] a by auto
  have b: "busy (view (chip s1)) < fuel" using s1(3) assms(4) by simp
  obtain s2 where s2: "w25x80_write_data fuel dev ?a buf ptr 4096 s1 = Some s2" "spi_ok s2" "busy (view (chip s2)) = 0"
    "cells (view (chip s2)) = program (SECTOR_SIZE * unat sector) (take SECTOR_SIZE (drop ptr buf)) (cells (view (chip s1)))"
    using write_data_val[OF assms(1) s1(2) b assms(4) fits(2,3)] a by auto
  have b2: "busy (view (chip s2)) < fuel" using s2(3) assms(4) by simp
  have sec: "unat (sector + 1) = Suc (unat sector)" using Suc.prems(3) by (simp add: unat_word_ariths)
  have l: "length (take SECTOR_SIZE (drop ptr buf)) = SECTOR_SIZE" using Suc.prems(4) by simp
  have c2: "cells (view (chip s2)) =
      (\<lambda>k. if k div SECTOR_SIZE = unat sector then drop ptr buf ! (k - SECTOR_SIZE * unat sector) else cells (view (chip s)) k)"
    unfolding s2(4) s1(4) using program_erased[OF l, of "unat sector"] same_sector_iff[of _ "unat sector"]
    by (auto simp: fun_eq_iff)
  have "unat (sector + 1) + n \<le> 256" "ptr + 4096 + SECTOR_SIZE * n \<le> length buf" using Suc.prems(3,4) sec by simp_all
  from Suc.IH[OF s2(2) b2 this] obtain s3 where s3: "disk_write_loop fuel dev n (sector + 1) buf (ptr + 4096) s2 = Some s3"
    "spi_ok s3" "busy (view (chip s3)) < fuel"
    "cells (view (chip s3)) = sectors_set (Suc (unat sector)) n (drop (ptr + 4096) buf) (cells (view (chip s2)))"
    using sec by auto
  have d: "drop (ptr + 4096) buf = drop SECTOR_SIZE (drop ptr buf)" by (simp add: add.commute)
  have "SECTOR_SIZE \<le> length (drop ptr buf)" using Suc.prems(4) by simp
  then have "cells (view (chip s3)) = sectors_set (unat sector) (Suc n) (drop ptr buf) (cells (view (chip s)))"
    unfolding s3(4) c2 d by (rule sectors_set_Suc)
  with s1(1) s2(1) s3 show ?case by simp
qed

lemma msc_disk_write_val:
  assumes "w25_laws dev view polls" "spi_ok s" "busy (view (chip s)) < fuel" "polls < fuel"
    "unat addr = SECTOR_SIZE * sec" "unat len = SECTOR_SIZE * n" "sec + n \<le> 256" "ptr + SECTOR_SIZE * n \<le> length buf"
  shows "\<exists>s'. msc_disk_write fuel dev 0 addr buf ptr len s = Some (USB_OK, s') \<and> spi_ok s' \<and>
    busy (view (chip s')) < fuel \<and>
    cells (view (chip s')) = sectors_set sec n (drop ptr buf) (cells (view (chip s)))"
proof -
  have "unat (addr div 4096) = sec" using assms(5) by (simp add: unat_div)
  then have sec: "unat (ucast (addr div 4096) :: u32) = sec"
    using assms(7) by (simp add: unsigned_ucast_eq take_bit_eq_mod)
  have "unat (len + 4095) = SECTOR_SIZE * n + 4095" using assms(6,7) by (simp add: unat_word_ariths)
  then have n: "unat ((len + 4095) div 4096) = n" by (simp add: unat_div)
  from disk_write_loop_val[OF assms(1-4), of "ucast (addr div 4096)" n ptr buf] sec n assms(7,8)
  show ?thesis by (auto simp: msc_disk_write_def Let_def)
qed

lemma msc_disk_read_val:
  assumes "w25_laws dev view polls" "spi_ok s" "busy (view (chip s)) < fuel"
    "unat addr + unat len \<le> FLASH_SIZE" "ptr + unat len \<le> length buf"
  shows "\<exists>s'. msc_disk_read fuel dev 0 addr buf ptr len s =
      Some (USB_OK, take ptr buf @ map (cells (view (chip s))) [unat addr..<unat addr + unat len] @ drop (ptr + unat len) buf, s') \<and>
    spi_ok s' \<and> view (chip s') = (view (chip s))\<lparr>busy := 0\<rparr>"
proof -
  have a: "unat (ucast addr :: u32) = unat addr"
    using assms(4) by (simp add: unsigned_ucast_eq take_bit_eq_mod)
  from read_data_val[OF assms(1-3), of "ucast addr" len ptr buf] a assms(4,5)
  show ?thesis by (auto simp: msc_disk_read_def)
qed

section \<open>The interface of a sector store\<close>

locale sector_store =
  fixes ok :: "'s \<Rightarrow> bool"
    and content :: "'s \<Rightarrow> nat \<Rightarrow> u8"
    and read_sectors :: "buffer \<Rightarrow> u32 \<Rightarrow> u32 \<Rightarrow> 's \<Rightarrow> (DRESULT \<times> buffer \<times> 's) option"
    and write_sectors :: "buffer \<Rightarrow> u32 \<Rightarrow> u32 \<Rightarrow> 's \<Rightarrow> (DRESULT \<times> 's) option"
  assumes write_law: "ok s \<Longrightarrow> unat a + unat n \<le> 256 \<Longrightarrow> SECTOR_SIZE * unat n \<le> length b \<Longrightarrow>
      \<exists>s'. write_sectors b a n s = Some (RES_OK, s') \<and> ok s' \<and>
        content s' = sectors_set (unat a) (unat n) b (content s)"
    and read_law: "ok s \<Longrightarrow> unat a + unat n \<le> 256 \<Longrightarrow> SECTOR_SIZE * unat n \<le> length b \<Longrightarrow>
      \<exists>s'. read_sectors b a n s = Some (RES_OK,
          map (content s) [SECTOR_SIZE * unat a..<SECTOR_SIZE * (unat a + unat n)] @ drop (SECTOR_SIZE * unat n) b, s') \<and>
        ok s' \<and> content s' = content s"
begin

text \<open>Reading back what was written, and reading sectors a write did not touch.\<close>

lemma read_after_write:
  assumes "ok s" "unat a + unat n \<le> 256" "length b = SECTOR_SIZE * unat n" "length b' = SECTOR_SIZE * unat n"
  shows "\<exists>s1 s2. write_sectors b a n s = Some (RES_OK, s1) \<and> read_sectors b' a n s1 = Some (RES_OK, b, s2)"
proof -
  obtain s1 where s1: "write_sectors b a n s = Some (RES_OK, s1)" "ok s1"
    "content s1 = sectors_set (unat a) (unat n) b (content s)"
    using write_law[OF assms(1,2), of b] assms(3) by auto
  have "map (content s1) [SECTOR_SIZE * unat a..<SECTOR_SIZE * (unat a + unat n)] = b"
    using assms(3) by (auto simp: s1(3) sectors_set_def list_eq_iff_nth_eq distrib_left)
  with read_law[OF s1(2) assms(2), of b'] s1(1) assms(4) show ?thesis by auto
qed

lemma read_other:
  assumes "ok s" "unat a + unat n \<le> 256" "length b = SECTOR_SIZE * unat n"
    "unat c + unat m \<le> 256" "length b' = SECTOR_SIZE * unat m"
    "unat c + unat m \<le> unat a \<or> unat a + unat n \<le> unat c"
  shows "\<exists>s1 r s2 s3. write_sectors b a n s = Some (RES_OK, s1) \<and> read_sectors b' c m s1 = Some (RES_OK, r, s2) \<and>
    read_sectors b' c m s = Some (RES_OK, r, s3)"
proof -
  obtain s1 where s1: "write_sectors b a n s = Some (RES_OK, s1)" "ok s1"
    "content s1 = sectors_set (unat a) (unat n) b (content s)"
    using write_law[OF assms(1,2), of b] assms(3) by auto
  have "map (content s1) [SECTOR_SIZE * unat c..<SECTOR_SIZE * (unat c + unat m)] =
      map (content s) [SECTOR_SIZE * unat c..<SECTOR_SIZE * (unat c + unat m)]"
    using assms(6) by (auto simp: s1(3) sectors_set_def)
  with read_law[OF s1(2) assms(4), of b'] read_law[OF assms(1,4), of b'] s1(1) assms(5) show ?thesis by auto
qed

end

locale flash_disk =
  fixes dev :: "'c spi_dev" and view :: "'c \<Rightarrow> w25_view" and polls fuel :: nat
  assumes laws: "w25_laws dev view polls" and fuel: "polls < fuel"
begin

lemma write_ok:
  assumes "spi_ok s \<and> busy (view (chip s)) < fuel" "unat a + unat n \<le> 256" "SECTOR_SIZE * unat n \<le> length b"
  shows "\<exists>s'. disk_write fuel dev 0 b a n s = Some (RES_OK, s') \<and> (spi_ok s' \<and> busy (view (chip s')) < fuel) \<and>
    cells (view (chip s')) = sectors_set (unat a) (unat n) b (cells (view (chip s)))"
proof -
  have u: "unat (ucast (a * 4096) :: u64) = SECTOR_SIZE * unat a" "unat (n * 4096) = SECTOR_SIZE * unat n"
    using assms(2) by (simp_all add: unsigned_ucast_eq take_bit_eq_mod unat_word_ariths)
  from msc_disk_write_val[OF laws _ _ fuel u, of s 0 b] assms show ?thesis by (auto simp: disk_write_def)
qed

lemma read_ok:
  assumes "spi_ok s \<and> busy (view (chip s)) < fuel" "unat a + unat n \<le> 256" "SECTOR_SIZE * unat n \<le> length b"
  shows "\<exists>s'. disk_read fuel dev 0 b a n s = Some (RES_OK,
      map (cells (view (chip s))) [SECTOR_SIZE * unat a..<SECTOR_SIZE * (unat a + unat n)] @ drop (SECTOR_SIZE * unat n) b, s') \<and>
    (spi_ok s' \<and> busy (view (chip s')) < fuel) \<and> cells (view (chip s')) = cells (view (chip s))"
proof -
  have u: "unat (ucast (a * 4096) :: u64) = SECTOR_SIZE * unat a" "unat (n * 4096) = SECTOR_SIZE * unat n"
    using assms(2) by (simp_all add: unsigned_ucast_eq take_bit_eq_mod unat_word_ariths)
  from msc_disk_read_val[OF laws, of s fuel "ucast (a * 4096)" "n * 4096" 0 b] u assms fuel
  show ?thesis by (auto simp: disk_read_def distrib_left)
qed

end

sublocale flash_disk \<subseteq> store: sector_store "\<lambda>s. spi_ok s \<and> busy (view (chip s)) < fuel" "\<lambda>s. cells (view (chip s))"
  "disk_read fuel dev 0" "disk_write fuel dev 0"
  by unfold_locales (rule write_ok read_ok; assumption)+

context flash_disk
begin

lemmas disk_read_after_write = store.read_after_write

lemmas disk_read_other = store.read_other

end

interpretation nor_disk: flash_disk nor_dev nor_view 2 3
  by unfold_locales (simp_all add: nor_laws)

section \<open>The disk keeps what is written to it\<close>

text \<open>
  C9. The disk over any flash chip that honours the data sheet: sectors written through FatFs's
  \<^verbatim>\<open>disk_write\<close> (erase, then page by page) are read back unchanged by \<^verbatim>\<open>disk_read\<close>, and a read of
  sectors outside the written range returns what it returned before. Every call returns, and
  all transfers stay inside the 1024-byte DMA buffer and the caller's buffer.
\<close>

theorem disk_write_read_roundtrip:
  assumes "w25_laws dev view polls" "polls < fuel" "spi_ok s" "busy (view (chip s)) < fuel"
    "unat sector + unat count \<le> 256" "length data = SECTOR_SIZE * unat count" "length buf = SECTOR_SIZE * unat count"
    "unat c + unat m \<le> unat sector \<or> unat sector + unat count \<le> unat c" "unat c + unat m \<le> 256"
    "length other = SECTOR_SIZE * unat m"
  shows "\<exists>s1 s2 r s3 s4. disk_write fuel dev 0 data sector count s = Some (RES_OK, s1) \<and>
    disk_read fuel dev 0 buf sector count s1 = Some (RES_OK, data, s2) \<and>
    disk_read fuel dev 0 other c m s1 = Some (RES_OK, r, s3) \<and>
    disk_read fuel dev 0 other c m s = Some (RES_OK, r, s4)"
proof -
  have f: "flash_disk dev view polls fuel" using assms(1,2) by unfold_locales
  have ok: "spi_ok s \<and> busy (view (chip s)) < fuel" using assms(3,4) by simp
  obtain s1 s2 where w: "disk_write fuel dev 0 data sector count s = Some (RES_OK, s1)"
    "disk_read fuel dev 0 buf sector count s1 = Some (RES_OK, data, s2)"
    using flash_disk.disk_read_after_write[OF f ok assms(5-7)] by blast
  obtain r s3 s4 where "disk_read fuel dev 0 other c m s1 = Some (RES_OK, r, s3)"
    "disk_read fuel dev 0 other c m s = Some (RES_OK, r, s4)"
    using flash_disk.disk_read_other[OF f ok assms(5,6,9,10,8)] w(1) by auto
  with w show ?thesis by blast
qed

theorem disk_write_read_roundtrip_witness:
  "let s = \<lparr>chip = \<lparr>nor_cells = (\<lambda>_. 0), nor_wel = False, nor_busy = 1, nor_cur = []\<rparr>, dma_rtx_buf = replicate 1024 0\<rparr>;
       data = replicate 4096 0x5A
   in \<exists>s1 s2. disk_write 3 nor_dev 0 data 7 1 s = Some (RES_OK, s1) \<and>
     disk_read 3 nor_dev 0 (replicate 4096 0) 7 1 s1 = Some (RES_OK, data, s2)"
proof -
  let ?s = "\<lparr>chip = \<lparr>nor_cells = (\<lambda>_. 0), nor_wel = False, nor_busy = 1, nor_cur = []\<rparr>, dma_rtx_buf = replicate 1024 0\<rparr>"
  have "spi_ok ?s" "busy (nor_view (chip ?s)) < 3" by (simp_all add: spi_ok_def nor_view_def)
  from disk_write_read_roundtrip[OF nor_laws _ this, of 7 1 "replicate 4096 0x5A" "replicate 4096 0" 0 1 "replicate 4096 0"]
  show ?thesis by (auto simp: Let_def)
qed

end
