(* ===== verification/Msc_Bot.thy ===== *)
theory Msc_Bot
  imports Msc_Disk
begin

text \<open>
  The bulk-only transport and its SCSI commands,
  \<^verbatim>\<open>usbd_class/composite_cdc_msc/msc_bot_scsi.c\<close>, on the disk of \<open>Msc_Disk\<close>.

  The state is \<^verbatim>\<open>cdc_msc_struct_type\<close> (the fields of its mass storage half), the global \<^verbatim>\<open>sense_data\<close>, the
  flash, and the requests made to the USB device core, recorded in order: data queued on an
  endpoint, a buffer handed over for reception, stalls and flushes (and those only the class driver makes: opening
  and closing endpoints, the control endpoint). What the core writes into
  \<^verbatim>\<open>cbw_struct\<close> or \<^verbatim>\<open>data\<close> before it calls a handler is part of the state the handler starts in;
  the received length is an argument.

  The shifts \<^verbatim>\<open>cmd[2] << 24\<close> happen in \<^verbatim>\<open>int\<close>, and assigning the result to the 64-bit \<^verbatim>\<open>blk_addr\<close> extends
  its sign. \<^verbatim>\<open>sense_type\<close> and \<^verbatim>\<open>csw_type\<close> are not packed: their byte images carry the padding
  of the ARM ABI, which is zero in these static objects.
\<close>

section \<open>The code\<close>

datatype msc_state_t =
    MSC_STATE_MACHINE_CMD | MSC_STATE_MACHINE_DATA_IN | MSC_STATE_MACHINE_DATA_OUT
  | MSC_STATE_MACHINE_SEND_DATA | MSC_STATE_MACHINE_LAST_DATA | MSC_STATE_MACHINE_STATUS
  | MSC_STATE_MACHINE_FAILED | MSC_STATE_MACHINE_IDLE

datatype bot_state_t = MSC_BOT_STATE_IDLE | MSC_BOT_STATE_RECOVERY | MSC_BOT_STATE_ERROR

record cbw_type =
  dCBWSignature :: u32
  dCBWTage :: u32
  dCBWDataTransferLength :: u32
  bmCBWFlags :: u8
  bCBWLUN :: u8
  bCBWCBLength :: u8
  CBWCB :: buffer

record csw_type =
  dCSWSignature :: u32
  dCSWTag :: u32
  dCSWDataResidue :: u32
  bCSWStatus :: u32

record sense_type =
  err_code :: u8
  sense_key :: u8
  as_length :: u8
  asc :: u8
  ascq :: u8

datatype rx_target = RxCbw | RxData | RxCdc

datatype usb_act =
    EptSend u8 buffer | EptRecv u8 rx_target u32 | SetStall u8 | FlushTx u8
  | EptOpen u8 u8 u16 | EptClose u8 | CtrlSend buffer | CtrlRecv u16 | CtrlSendStatus | CtrlUnsupport

record 'c msc =
  msc_state :: msc_state_t
  bot_status :: bot_state_t
  max_lun :: u32
  blk_nbr :: "u32 list"
  blk_size :: "u32 list"
  blk_addr :: u64
  blk_len :: u32
  data_len :: u32
  data :: buffer
  cbw_struct :: cbw_type
  csw_struct :: csw_type
  sense_data :: sense_type
  flash :: "'c spi"
  acts :: "usb_act list"

abbreviation (input) USBD_MSC_BULK_IN_EPT :: u8 where "USBD_MSC_BULK_IN_EPT \<equiv> 0x81"
abbreviation (input) USBD_MSC_BULK_OUT_EPT :: u8 where "USBD_MSC_BULK_OUT_EPT \<equiv> 0x01"
abbreviation (input) CBW_CMD_LENGTH :: u32 where "CBW_CMD_LENGTH \<equiv> 31"
abbreviation (input) CSW_CMD_LENGTH :: nat where "CSW_CMD_LENGTH \<equiv> 13"
abbreviation (input) CBW_DCBWSIGNATURE :: u32 where "CBW_DCBWSIGNATURE \<equiv> 0x43425355"
abbreviation (input) CSW_DCSWSIGNATURE :: u32 where "CSW_DCSWSIGNATURE \<equiv> 0x53425355"
abbreviation (input) CSW_BCSWSTATUS_PASS :: u8 where "CSW_BCSWSTATUS_PASS \<equiv> 0"
abbreviation (input) CSW_BCSWSTATUS_FAILED :: u8 where "CSW_BCSWSTATUS_FAILED \<equiv> 1"
abbreviation (input) MSC_MAX_DATA_BUF_LEN :: u32 where "MSC_MAX_DATA_BUF_LEN \<equiv> 4096"
abbreviation (input) SENSE_KEY_HARDWARE_ERROR :: u8 where "SENSE_KEY_HARDWARE_ERROR \<equiv> 0x04"
abbreviation (input) SENSE_KEY_ILLEGAL_REQUEST :: u8 where "SENSE_KEY_ILLEGAL_REQUEST \<equiv> 0x05"
abbreviation (input) INVALID_COMMAND :: u8 where "INVALID_COMMAND \<equiv> 0x20"
abbreviation (input) ADDRESS_OUT_OF_RANGE :: u8 where "ADDRESS_OUT_OF_RANGE \<equiv> 0x21"
abbreviation (input) INVALID_FIELED_IN_COMMAND :: u8 where "INVALID_FIELED_IN_COMMAND \<equiv> 0x24"
abbreviation (input) MEDIUM_NOT_PRESENT :: u8 where "MEDIUM_NOT_PRESENT \<equiv> 0x3A"

abbreviation (input) MSC_CMD_TEST_UNIT :: u8 where "MSC_CMD_TEST_UNIT \<equiv> 0x00"
abbreviation (input) MSC_CMD_REQUEST_SENSE :: u8 where "MSC_CMD_REQUEST_SENSE \<equiv> 0x03"
abbreviation (input) MSC_CMD_INQUIRY :: u8 where "MSC_CMD_INQUIRY \<equiv> 0x12"
abbreviation (input) MSC_CMD_MODE_SENSE6 :: u8 where "MSC_CMD_MODE_SENSE6 \<equiv> 0x1A"
abbreviation (input) MSC_CMD_START_STOP :: u8 where "MSC_CMD_START_STOP \<equiv> 0x1B"
abbreviation (input) MSC_CMD_ALLOW_MEDIUM_REMOVAL :: u8 where "MSC_CMD_ALLOW_MEDIUM_REMOVAL \<equiv> 0x1E"
abbreviation (input) MSC_CMD_READ_FORMAT_CAPACITY :: u8 where "MSC_CMD_READ_FORMAT_CAPACITY \<equiv> 0x23"
abbreviation (input) MSC_CMD_READ_CAPACITY :: u8 where "MSC_CMD_READ_CAPACITY \<equiv> 0x25"
abbreviation (input) MSC_CMD_READ_10 :: u8 where "MSC_CMD_READ_10 \<equiv> 0x28"
abbreviation (input) MSC_CMD_WRITE_10 :: u8 where "MSC_CMD_WRITE_10 \<equiv> 0x2A"
abbreviation (input) MSC_CMD_VERIFY :: u8 where "MSC_CMD_VERIFY \<equiv> 0x2F"
abbreviation (input) MSC_CMD_MODE_SENSE10 :: u8 where "MSC_CMD_MODE_SENSE10 \<equiv> 0x5A"

definition page00_inquiry_data :: buffer where "page00_inquiry_data = [0, 0, 0, 0, 0]"
definition mode_sense6_data :: buffer where "mode_sense6_data = [0, 0, 0, 0, 0, 0, 0, 0]"
definition mode_sense10_data :: buffer where "mode_sense10_data = [0, 6, 0, 0, 0, 0, 0, 0]"

definition sense_data_init :: sense_type where
  "sense_data_init = \<lparr>err_code = 0x70, sense_key = SENSE_KEY_ILLEGAL_REQUEST, as_length = 0x0A, asc = 0x20, ascq = 0\<rparr>"

definition le32 :: "u32 \<Rightarrow> buffer" where
  "le32 w = [ucast w, ucast (drop_bit 8 w), ucast (drop_bit 16 w), ucast (drop_bit 24 w)]"

definition be32 :: "u8 \<Rightarrow> u8 \<Rightarrow> u8 \<Rightarrow> u8 \<Rightarrow> u32" where
  "be32 a b c d = push_bit 24 (ucast a) OR push_bit 16 (ucast b) OR push_bit 8 (ucast c) OR ucast d"

definition csw_bytes :: "csw_type \<Rightarrow> buffer" where
  "csw_bytes c = le32 (dCSWSignature c) @ le32 (dCSWTag c) @ le32 (dCSWDataResidue c) @ le32 (bCSWStatus c)"

text \<open>The 24 bytes of the object: \<^verbatim>\<open>information\<close>, \<^verbatim>\<open>reserved2\<close> and \<^verbatim>\<open>reserved3\<close> are 32-bit fields, stay 0 and are aligned.\<close>

definition sense_bytes :: "sense_type \<Rightarrow> buffer" where
  "sense_bytes s = [err_code s, 0, sense_key s, 0] @ [0, 0, 0, 0] @ [as_length s, 0, 0, 0] @ [0, 0, 0, 0] @
     [asc s, ascq s, 0, 0] @ [0, 0, 0, 0]"

definition emit :: "usb_act \<Rightarrow> 'c msc \<Rightarrow> 'c msc" where
  "emit a m = m\<lparr>acts := acts m @ [a]\<rparr>"

text \<open>\<^verbatim>\<open>usbd_ept_send\<close> of the first \<open>len\<close> bytes of an array.\<close>

definition ept_send :: "u8 \<Rightarrow> buffer \<Rightarrow> nat \<Rightarrow> 'c msc \<Rightarrow> 'c msc option" where
  "ept_send ept buf len m = do { assert_c (len \<le> length buf); Some (emit (EptSend ept (take len buf)) m) }"

definition recv_cbw :: "'c msc \<Rightarrow> 'c msc" where
  "recv_cbw m = emit (EptRecv USBD_MSC_BULK_OUT_EPT RxCbw CBW_CMD_LENGTH) m"

definition bot_scsi_init :: "'c msc \<Rightarrow> 'c msc" where
  "bot_scsi_init m =
     (let m = m\<lparr>msc_state := MSC_STATE_MACHINE_IDLE, bot_status := MSC_BOT_STATE_IDLE, max_lun := 1 - 1,
                csw_struct := (csw_struct m)\<lparr>dCSWSignature := 0, dCSWDataResidue := 0, dCSWTag := 0\<rparr>\<rparr>
      in recv_cbw (emit (FlushTx 1) m))"

definition bot_scsi_reset :: "'c msc \<Rightarrow> 'c msc" where
  "bot_scsi_reset m =
     (let m = m\<lparr>msc_state := MSC_STATE_MACHINE_IDLE, bot_status := MSC_BOT_STATE_RECOVERY, max_lun := 1 - 1\<rparr>
      in recv_cbw (emit (FlushTx 1) m))"

definition bot_scsi_send_data :: "buffer \<Rightarrow> u32 \<Rightarrow> 'c msc \<Rightarrow> 'c msc option" where
  "bot_scsi_send_data buf len m = do {
     let n = min len (dCBWDataTransferLength (cbw_struct m));
     let m = m\<lparr>csw_struct := (csw_struct m)\<lparr>dCSWDataResidue := dCSWDataResidue (csw_struct m) - n, bCSWStatus := 0\<rparr>,
               msc_state := MSC_STATE_MACHINE_SEND_DATA\<rparr>;
     ept_send USBD_MSC_BULK_IN_EPT buf (unat n) m
   }"

definition bot_scsi_send_csw :: "u8 \<Rightarrow> 'c msc \<Rightarrow> 'c msc option" where
  "bot_scsi_send_csw status m = do {
     let m = m\<lparr>csw_struct := (csw_struct m)\<lparr>bCSWStatus := ucast status, dCSWSignature := CSW_DCSWSIGNATURE\<rparr>,
               msc_state := MSC_STATE_MACHINE_IDLE\<rparr>;
     m \<leftarrow> ept_send USBD_MSC_BULK_IN_EPT (csw_bytes (csw_struct m)) CSW_CMD_LENGTH m;
     Some (recv_cbw m)
   }"

definition bot_scsi_sense_code :: "u8 \<Rightarrow> u8 \<Rightarrow> 'c msc \<Rightarrow> 'c msc" where
  "bot_scsi_sense_code key code m = m\<lparr>sense_data := (sense_data m)\<lparr>sense_key := key, asc := code\<rparr>\<rparr>"

definition bot_scsi_check_address :: "u8 \<Rightarrow> u32 \<Rightarrow> u32 \<Rightarrow> 'c msc \<Rightarrow> (usb_sts_type \<times> 'c msc) option" where
  "bot_scsi_check_address lun blk_offset blk_count m = do {
     nbr \<leftarrow> rd (blk_nbr m) (unat lun);
     if blk_offset + blk_count > nbr
     then Some (USB_FAIL, bot_scsi_sense_code SENSE_KEY_ILLEGAL_REQUEST ADDRESS_OUT_OF_RANGE m)
     else Some (USB_OK, m)
   }"

definition bot_scsi_stall :: "'c msc \<Rightarrow> 'c msc" where
  "bot_scsi_stall m =
     (let m = (if dCBWDataTransferLength (cbw_struct m) \<noteq> 0 \<and> bmCBWFlags (cbw_struct m) = 0 \<and>
                  bot_status m = MSC_BOT_STATE_IDLE
               then emit (SetStall USBD_MSC_BULK_OUT_EPT) m else m);
          m = emit (SetStall USBD_MSC_BULK_IN_EPT) m
      in if bot_status m = MSC_BOT_STATE_ERROR then recv_cbw m else m)"

text \<open>The copy loops that count \<^verbatim>\<open>trans_len\<close> down to 0.\<close>

fun copy_down :: "buffer \<Rightarrow> buffer \<Rightarrow> nat \<Rightarrow> buffer option" where
  "copy_down dst src 0 = Some dst"
| "copy_down dst src (Suc n) = do { x \<leftarrow> rd src n; dst \<leftarrow> wr dst n x; copy_down dst src n }"

definition bot_scsi_test_unit :: "u8 \<Rightarrow> 'c msc \<Rightarrow> (usb_sts_type \<times> 'c msc) option" where
  "bot_scsi_test_unit lun m =
     (if dCBWDataTransferLength (cbw_struct m) \<noteq> 0
      then Some (USB_FAIL, bot_scsi_sense_code SENSE_KEY_ILLEGAL_REQUEST INVALID_COMMAND m)
      else Some (USB_OK, m\<lparr>data_len := 0\<rparr>))"

definition bot_scsi_inquiry :: "u8 \<Rightarrow> 'c msc \<Rightarrow> (usb_sts_type \<times> 'c msc) option" where
  "bot_scsi_inquiry lun m = do {
     c1 \<leftarrow> rd (CBWCB (cbw_struct m)) 1;
     let (pdata, trans_len) =
       (if c1 AND 0x01 \<noteq> 0 then (Some page00_inquiry_data, 5)
        else (get_inquiry lun,
              if dCBWDataTransferLength (cbw_struct m) < 36 then dCBWDataTransferLength (cbw_struct m) else 36));
     let m = m\<lparr>data_len := trans_len\<rparr>;
     if trans_len = 0 then Some (USB_OK, m)
     else do {
       src \<leftarrow> pdata;
       d \<leftarrow> copy_down (data m) src (unat trans_len);
       Some (USB_OK, m\<lparr>data := d\<rparr>)
     }
   }"

definition bot_scsi_start_stop :: "u8 \<Rightarrow> 'c msc \<Rightarrow> (usb_sts_type \<times> 'c msc) option" where
  "bot_scsi_start_stop lun m = Some (USB_OK, m\<lparr>data_len := 0\<rparr>)"

definition bot_scsi_allow_medium_removal :: "u8 \<Rightarrow> 'c msc \<Rightarrow> (usb_sts_type \<times> 'c msc) option" where
  "bot_scsi_allow_medium_removal lun m = Some (USB_OK, m\<lparr>data_len := 0\<rparr>)"

definition bot_scsi_mode_sense6 :: "u8 \<Rightarrow> 'c msc \<Rightarrow> (usb_sts_type \<times> 'c msc) option" where
  "bot_scsi_mode_sense6 lun m = do {
     d \<leftarrow> copy_down (data m) mode_sense6_data 8;
     Some (USB_OK, m\<lparr>data_len := 8, data := d\<rparr>)
   }"

definition bot_scsi_mode_sense10 :: "u8 \<Rightarrow> 'c msc \<Rightarrow> (usb_sts_type \<times> 'c msc) option" where
  "bot_scsi_mode_sense10 lun m = do {
     d \<leftarrow> copy_down (data m) mode_sense10_data 8;
     Some (USB_OK, m\<lparr>data_len := 8, data := d\<rparr>)
   }"

text \<open>Storing consecutive bytes from an index on.\<close>

fun put_bytes :: "buffer \<Rightarrow> nat \<Rightarrow> buffer \<Rightarrow> buffer option" where
  "put_bytes dst i [] = Some dst"
| "put_bytes dst i (b # bs) = do { dst \<leftarrow> wr dst i b; put_bytes dst (Suc i) bs }"

definition be32_bytes :: "u32 \<Rightarrow> buffer" where
  "be32_bytes w = [ucast (drop_bit 24 w), ucast (drop_bit 16 w), ucast (drop_bit 8 w), ucast w]"

text \<open>The call of \<^verbatim>\<open>msc_disk_capacity\<close> on \<^verbatim>\<open>blk_nbr[lun]\<close> and \<^verbatim>\<open>blk_size[lun]\<close>.\<close>

definition update_capacity :: "u8 \<Rightarrow> 'c msc \<Rightarrow> (u32 \<times> u32 \<times> 'c msc) option" where
  "update_capacity lun m = do {
     n0 \<leftarrow> rd (blk_nbr m) (unat lun);
     z0 \<leftarrow> rd (blk_size m) (unat lun);
     let (_, n, z) = msc_disk_capacity lun n0 z0;
     ns \<leftarrow> wr (blk_nbr m) (unat lun) n;
     zs \<leftarrow> wr (blk_size m) (unat lun) z;
     Some (n, z, m\<lparr>blk_nbr := ns, blk_size := zs\<rparr>)
   }"

definition bot_scsi_capacity :: "u8 \<Rightarrow> 'c msc \<Rightarrow> (usb_sts_type \<times> 'c msc) option" where
  "bot_scsi_capacity lun m = do {
     (nbr, size, m) \<leftarrow> update_capacity lun m;
     d \<leftarrow> put_bytes (data m) 0 (be32_bytes (nbr - 1) @ be32_bytes size);
     Some (USB_OK, m\<lparr>data := d, data_len := 8\<rparr>)
   }"

definition bot_scsi_format_capacity :: "u8 \<Rightarrow> 'c msc \<Rightarrow> (usb_sts_type \<times> 'c msc) option" where
  "bot_scsi_format_capacity lun m = do {
     d \<leftarrow> put_bytes (data m) 0 [0, 0, 0, 0x08];
     (nbr, size, m) \<leftarrow> update_capacity lun (m\<lparr>data := d\<rparr>);
     d \<leftarrow> put_bytes (data m) 4 (be32_bytes (nbr - 1) @ [0x02] @ tl (be32_bytes size));
     Some (USB_OK, m\<lparr>data := d, data_len := 12\<rparr>)
   }"

definition bot_scsi_request_sense :: "u8 \<Rightarrow> 'c msc \<Rightarrow> (usb_sts_type \<times> 'c msc) option" where
  "bot_scsi_request_sense lun m = do {
     d \<leftarrow> copy_down (data m) (sense_bytes (sense_data m)) 0x12;
     Some (USB_OK, m\<lparr>data := d,
       data_len := (if dCBWDataTransferLength (cbw_struct m) < 0x12 then dCBWDataTransferLength (cbw_struct m) else 0x12)\<rparr>)
   }"

text \<open>The block address and count of a 10-byte command.\<close>

definition cdb_lba :: "buffer \<Rightarrow> u32 option" where
  "cdb_lba cmd = do { a \<leftarrow> rd cmd 2; b \<leftarrow> rd cmd 3; c \<leftarrow> rd cmd 4; d \<leftarrow> rd cmd 5; Some (be32 a b c d) }"

definition cdb_count :: "buffer \<Rightarrow> u32 option" where
  "cdb_count cmd = do { a \<leftarrow> rd cmd 7; b \<leftarrow> rd cmd 8; Some (push_bit 8 (ucast a) OR ucast b) }"

definition bot_scsi_verify :: "u8 \<Rightarrow> 'c msc \<Rightarrow> (usb_sts_type \<times> 'c msc) option" where
  "bot_scsi_verify lun m = do {
     let cmd = CBWCB (cbw_struct m);
     c1 \<leftarrow> rd cmd 1;
     if c1 AND 0x02 = 0x02
     then Some (USB_FAIL, bot_scsi_sense_code SENSE_KEY_ILLEGAL_REQUEST INVALID_FIELED_IN_COMMAND m)
     else do {
       lba \<leftarrow> cdb_lba cmd;
       n \<leftarrow> cdb_count cmd;
       let m = m\<lparr>blk_addr := scast lba, blk_len := n\<rparr>;
       (st, m) \<leftarrow> bot_scsi_check_address lun (ucast (blk_addr m)) (blk_len m) m;
       if st \<noteq> USB_OK then Some (USB_FAIL, m) else Some (USB_OK, m\<lparr>data_len := 0\<rparr>)
     }
   }"

text \<open>
  The common head of \<^verbatim>\<open>READ(10)\<close> and \<^verbatim>\<open>WRITE(10)\<close> in the idle state: direction, address range and
  transfer length. The sum is \<open>Inl\<close> where the C code returns \<open>USB_FAIL\<close>.
\<close>

definition rw10_setup :: "bool \<Rightarrow> u8 \<Rightarrow> 'c msc \<Rightarrow> ('c msc + 'c msc) option" where
  "rw10_setup dir_in lun m =
     (if (bmCBWFlags (cbw_struct m) AND 0x80 = 0x80) \<noteq> dir_in
      then Some (Inl (bot_scsi_sense_code SENSE_KEY_ILLEGAL_REQUEST INVALID_COMMAND m))
      else do {
        lba \<leftarrow> cdb_lba (CBWCB (cbw_struct m));
        n \<leftarrow> cdb_count (CBWCB (cbw_struct m));
        let m = m\<lparr>blk_addr := scast lba, blk_len := n\<rparr>;
        (st, m) \<leftarrow> bot_scsi_check_address lun (ucast (blk_addr m)) (blk_len m) m;
        if st \<noteq> USB_OK then Some (Inl m)
        else do {
          size \<leftarrow> rd (blk_size m) (unat lun);
          let m = m\<lparr>blk_addr := blk_addr m * ucast size, blk_len := blk_len m * size\<rparr>;
          if dCBWDataTransferLength (cbw_struct m) \<noteq> blk_len m
          then Some (Inl (bot_scsi_sense_code SENSE_KEY_ILLEGAL_REQUEST INVALID_COMMAND m))
          else Some (Inr m)
        }
      })"

text \<open>The data phase of \<^verbatim>\<open>READ(10)\<close>: one buffer from the disk to the host.\<close>

definition read10_data :: "nat \<Rightarrow> 'c spi_dev \<Rightarrow> u8 \<Rightarrow> 'c msc \<Rightarrow> (usb_sts_type \<times> 'c msc) option" where
  "read10_data fuel dev lun m = do {
     let m = m\<lparr>data_len := MSC_MAX_DATA_BUF_LEN\<rparr>;
     let len = min (blk_len m) MSC_MAX_DATA_BUF_LEN;
     (st, d, f) \<leftarrow> msc_disk_read fuel dev lun (blk_addr m) (data m) 0 len (flash m);
     let m = m\<lparr>data := d, flash := f\<rparr>;
     if st \<noteq> USB_OK
     then Some (USB_FAIL, bot_scsi_sense_code SENSE_KEY_HARDWARE_ERROR MEDIUM_NOT_PRESENT m)
     else do {
       m \<leftarrow> ept_send USBD_MSC_BULK_IN_EPT (data m) (unat len) m;
       let m = m\<lparr>blk_addr := blk_addr m + ucast len, blk_len := blk_len m - len,
                 csw_struct := (csw_struct m)\<lparr>dCSWDataResidue := dCSWDataResidue (csw_struct m) - len\<rparr>\<rparr>;
       Some (USB_OK, if blk_len m = 0 then m\<lparr>msc_state := MSC_STATE_MACHINE_LAST_DATA\<rparr> else m)
     }
   }"

definition bot_scsi_read10 :: "nat \<Rightarrow> 'c spi_dev \<Rightarrow> u8 \<Rightarrow> 'c msc \<Rightarrow> (usb_sts_type \<times> 'c msc) option" where
  "bot_scsi_read10 fuel dev lun m =
     (if msc_state m = MSC_STATE_MACHINE_IDLE then do {
        r \<leftarrow> rw10_setup True lun m;
        case r of Inl m \<Rightarrow> Some (USB_FAIL, m)
        | Inr m \<Rightarrow> read10_data fuel dev lun (m\<lparr>msc_state := MSC_STATE_MACHINE_DATA_IN\<rparr>)
      }
      else read10_data fuel dev lun m)"

definition recv_data :: "'c msc \<Rightarrow> 'c msc" where
  "recv_data m = emit (EptRecv USBD_MSC_BULK_OUT_EPT RxData (min (blk_len m) MSC_MAX_DATA_BUF_LEN)) m"

definition bot_scsi_write10 :: "nat \<Rightarrow> 'c spi_dev \<Rightarrow> u8 \<Rightarrow> 'c msc \<Rightarrow> (usb_sts_type \<times> 'c msc) option" where
  "bot_scsi_write10 fuel dev lun m =
     (if msc_state m = MSC_STATE_MACHINE_IDLE then do {
        r \<leftarrow> rw10_setup False lun m;
        case r of Inl m \<Rightarrow> Some (USB_FAIL, m)
        | Inr m \<Rightarrow> Some (USB_OK, recv_data (m\<lparr>msc_state := MSC_STATE_MACHINE_DATA_OUT\<rparr>))
      }
      else do {
        let len = min (blk_len m) MSC_MAX_DATA_BUF_LEN;
        (st, f) \<leftarrow> msc_disk_write fuel dev lun (blk_addr m) (data m) 0 len (flash m);
        let m = m\<lparr>flash := f\<rparr>;
        if st \<noteq> USB_OK
        then Some (USB_FAIL, bot_scsi_sense_code SENSE_KEY_HARDWARE_ERROR MEDIUM_NOT_PRESENT m)
        else do {
          let m = m\<lparr>blk_addr := blk_addr m + ucast len, blk_len := blk_len m - len,
                    csw_struct := (csw_struct m)\<lparr>dCSWDataResidue := dCSWDataResidue (csw_struct m) - len\<rparr>\<rparr>;
          m \<leftarrow> (if blk_len m = 0 then bot_scsi_send_csw CSW_BCSWSTATUS_PASS m else Some (recv_data m));
          Some (USB_OK, m)
        }
      })"

definition bot_scsi_clear_feature :: "u8 \<Rightarrow> 'c msc \<Rightarrow> 'c msc option" where
  "bot_scsi_clear_feature ept_num m =
     (if bot_status m = MSC_BOT_STATE_ERROR
      then Some ((emit (SetStall USBD_MSC_BULK_IN_EPT) m)\<lparr>bot_status := MSC_BOT_STATE_IDLE\<rparr>)
      else if ept_num AND 0x80 = 0x80 \<and> bot_status m \<noteq> MSC_BOT_STATE_RECOVERY
      then bot_scsi_send_csw CSW_BCSWSTATUS_FAILED m
      else Some m)"

definition bot_scsi_cmd_process :: "nat \<Rightarrow> 'c spi_dev \<Rightarrow> 'c msc \<Rightarrow> (usb_sts_type \<times> 'c msc) option" where
  "bot_scsi_cmd_process fuel dev m = do {
     op \<leftarrow> rd (CBWCB (cbw_struct m)) 0;
     let lun = bCBWLUN (cbw_struct m);
     if op = MSC_CMD_INQUIRY then bot_scsi_inquiry lun m
     else if op = MSC_CMD_START_STOP then bot_scsi_start_stop lun m
     else if op = MSC_CMD_MODE_SENSE6 then bot_scsi_mode_sense6 lun m
     else if op = MSC_CMD_MODE_SENSE10 then bot_scsi_mode_sense10 lun m
     else if op = MSC_CMD_ALLOW_MEDIUM_REMOVAL then bot_scsi_allow_medium_removal lun m
     else if op = MSC_CMD_READ_10 then bot_scsi_read10 fuel dev lun m
     else if op = MSC_CMD_READ_CAPACITY then bot_scsi_capacity lun m
     else if op = MSC_CMD_REQUEST_SENSE then bot_scsi_request_sense lun m
     else if op = MSC_CMD_TEST_UNIT then bot_scsi_test_unit lun m
     else if op = MSC_CMD_VERIFY then bot_scsi_verify lun m
     else if op = MSC_CMD_WRITE_10 then bot_scsi_write10 fuel dev lun m
     else if op = MSC_CMD_READ_FORMAT_CAPACITY then bot_scsi_format_capacity lun m
     else Some (USB_FAIL, bot_scsi_sense_code SENSE_KEY_ILLEGAL_REQUEST INVALID_COMMAND m)
   }"

definition bot_cbw_decode :: "nat \<Rightarrow> 'c spi_dev \<Rightarrow> u32 \<Rightarrow> 'c msc \<Rightarrow> 'c msc option" where
  "bot_cbw_decode fuel dev recv_len m =
     (let c = cbw_struct m;
          m = m\<lparr>csw_struct := (csw_struct m)\<lparr>dCSWTag := dCBWTage c, dCSWDataResidue := dCBWDataTransferLength c\<rparr>\<rparr>
      in if dCBWSignature c \<noteq> CBW_DCBWSIGNATURE \<or> recv_len \<noteq> CBW_CMD_LENGTH \<or> bCBWLUN c > MSC_SUPPORT_MAX_LUN \<or>
            bCBWCBLength c < 1 \<or> bCBWCBLength c > 16
         then Some (bot_scsi_stall ((bot_scsi_sense_code SENSE_KEY_ILLEGAL_REQUEST INVALID_COMMAND m)
                      \<lparr>bot_status := MSC_BOT_STATE_ERROR\<rparr>))
         else do {
           (st, m) \<leftarrow> bot_scsi_cmd_process fuel dev m;
           if st \<noteq> USB_OK then Some (bot_scsi_stall m)
           else if msc_state m \<noteq> MSC_STATE_MACHINE_DATA_IN \<and> msc_state m \<noteq> MSC_STATE_MACHINE_DATA_OUT \<and>
                   msc_state m \<noteq> MSC_STATE_MACHINE_LAST_DATA
           then (if data_len m = 0 then bot_scsi_send_csw CSW_BCSWSTATUS_PASS m
                 else bot_scsi_send_data (data m) (data_len m) m)
           else Some m
         })"

definition bot_scsi_datain_handler :: "nat \<Rightarrow> 'c spi_dev \<Rightarrow> 'c msc \<Rightarrow> 'c msc option" where
  "bot_scsi_datain_handler fuel dev m =
     (case msc_state m of
        MSC_STATE_MACHINE_DATA_IN \<Rightarrow> do {
          (st, m) \<leftarrow> bot_scsi_cmd_process fuel dev m;
          if st \<noteq> USB_OK then bot_scsi_send_csw CSW_BCSWSTATUS_FAILED m else Some m
        }
      | MSC_STATE_MACHINE_LAST_DATA \<Rightarrow> bot_scsi_send_csw CSW_BCSWSTATUS_PASS m
      | MSC_STATE_MACHINE_SEND_DATA \<Rightarrow> bot_scsi_send_csw CSW_BCSWSTATUS_PASS m
      | _ \<Rightarrow> Some m)"

definition bot_scsi_dataout_handler :: "nat \<Rightarrow> 'c spi_dev \<Rightarrow> u32 \<Rightarrow> 'c msc \<Rightarrow> 'c msc option" where
  "bot_scsi_dataout_handler fuel dev recv_len m =
     (case msc_state m of
        MSC_STATE_MACHINE_IDLE \<Rightarrow> bot_cbw_decode fuel dev recv_len m
      | MSC_STATE_MACHINE_DATA_OUT \<Rightarrow> do {
          (st, m) \<leftarrow> bot_scsi_cmd_process fuel dev m;
          if st \<noteq> USB_OK then bot_scsi_send_csw CSW_BCSWSTATUS_FAILED m else Some m
        }
      | _ \<Rightarrow> Some m)"

section \<open>Sign extension and command fields\<close>

lemma scast_small:
  assumes "unat w < 2 ^ 31"
  shows "unat (scast (w :: u32) :: u64) = unat w"
proof -
  have nb: "\<not> bit w 31"
  proof
    assume "bit w 31"
    then have "bit (unat w) 31" by (simp add: bit_unsigned_iff)
    then show False using assms by (simp add: bit_nat_def)
  qed
  have "(scast w :: u64) = ucast w"
  proof (rule bit_word_eqI)
    fix n assume "n < LENGTH(64)"
    have "bit w n \<Longrightarrow> n < 31" using nb bit_imp_le_length[of w n] by (cases "n = 31") auto
    then show "bit (scast w :: u64) n = bit (ucast w :: u64) n"
      using nb by (auto simp: bit_signed_iff bit_unsigned_iff min_def)
  qed
  then show ?thesis using assms by (simp add: unsigned_ucast_eq take_bit_eq_mod)
qed

lemma ucast_scast [simp]: "ucast (scast (w :: u32) :: u64) = w"
proof (rule bit_word_eqI)
  fix n assume "n < LENGTH(32)"
  then show "bit (ucast (scast w :: u64) :: u32) n = bit w n"
    by (cases "n = 31") (auto simp: bit_signed_iff bit_unsigned_iff min_def)
qed

lemma ucast_u8_u32 [simp]: "ucast (ucast (b :: u8) :: u32) = b"
  by (rule bit_word_eqI) (simp add: bit_unsigned_iff)

lemma csw_bytes_length [simp]: "length (csw_bytes c) = 16"
  by (simp add: csw_bytes_def le32_def)

section \<open>Phases of a command\<close>

text \<open>The status of a command, as the host receives it.\<close>

definition csw_packet :: "u32 \<Rightarrow> u32 \<Rightarrow> u8 \<Rightarrow> buffer" where
  "csw_packet tag residue status = le32 CSW_DCSWSIGNATURE @ le32 tag @ le32 residue @ [status]"

lemma send_csw_val:
  "bot_scsi_send_csw st m = Some (m\<lparr>
     csw_struct := (csw_struct m)\<lparr>bCSWStatus := ucast st, dCSWSignature := CSW_DCSWSIGNATURE\<rparr>,
     msc_state := MSC_STATE_MACHINE_IDLE,
     acts := acts m @ [EptSend USBD_MSC_BULK_IN_EPT (csw_packet (dCSWTag (csw_struct m)) (dCSWDataResidue (csw_struct m)) st),
       EptRecv USBD_MSC_BULK_OUT_EPT RxCbw CBW_CMD_LENGTH]\<rparr>)"
  by (simp add: bot_scsi_send_csw_def ept_send_def recv_cbw_def emit_def csw_bytes_def csw_packet_def le32_def Let_def)

lemma send_data_val:
  assumes "unat len \<le> length buf"
  shows "bot_scsi_send_data buf len m = Some (m\<lparr>
     csw_struct := (csw_struct m)\<lparr>
       dCSWDataResidue := dCSWDataResidue (csw_struct m) - min len (dCBWDataTransferLength (cbw_struct m)), bCSWStatus := 0\<rparr>,
     msc_state := MSC_STATE_MACHINE_SEND_DATA,
     acts := acts m @ [EptSend USBD_MSC_BULK_IN_EPT
       (take (unat (min len (dCBWDataTransferLength (cbw_struct m)))) buf)]\<rparr>)"
proof -
  have "unat (min len (dCBWDataTransferLength (cbw_struct m))) \<le> length buf"
    using assms by (simp add: min_def word_le_nat_alt)
  then show ?thesis by (simp add: bot_scsi_send_data_def ept_send_def emit_def Let_def)
qed

text \<open>The parts of the state that stay sound between commands, on a chip seen through \<open>view\<close>.\<close>

definition bot_base :: "nat \<Rightarrow> ('c \<Rightarrow> w25_view) \<Rightarrow> 'c msc \<Rightarrow> bool" where
  "bot_base fuel view m \<longleftrightarrow> length (data m) = 4096 \<and> length (CBWCB (cbw_struct m)) = 16 \<and>
     spi_ok (flash m) \<and> busy (view (chip (flash m))) < fuel"

text \<open>The sectors as the packets of a data-in phase.\<close>

definition sector_bytes :: "(nat \<Rightarrow> u8) \<Rightarrow> nat \<Rightarrow> buffer" where
  "sector_bytes m i = map m [SECTOR_SIZE * i..<SECTOR_SIZE * i + SECTOR_SIZE]"

definition sector_packets :: "(nat \<Rightarrow> u8) \<Rightarrow> nat \<Rightarrow> nat \<Rightarrow> usb_act list" where
  "sector_packets m sec n = map (\<lambda>i. EptSend USBD_MSC_BULK_IN_EPT (sector_bytes m i)) [sec..<sec + n]"

lemma sector_packets_Suc:
  "sector_packets c sec (Suc k) = EptSend USBD_MSC_BULK_IN_EPT (sector_bytes c sec) # sector_packets c (Suc sec) k"
  by (simp add: sector_packets_def upt_rec)

lemma read10_data_val:
  assumes "w25_laws dev view polls" "polls < fuel" "bot_base fuel view m"
    "unat (blk_addr m) = SECTOR_SIZE * sec" "unat (blk_len m) = SECTOR_SIZE * Suc k" "sec + Suc k \<le> 256"
  shows "\<exists>f. read10_data fuel dev 0 m = Some (USB_OK, m\<lparr>
      data_len := 4096, data := sector_bytes (cells (view (chip (flash m)))) sec, flash := f,
      acts := acts m @ [EptSend USBD_MSC_BULK_IN_EPT (sector_bytes (cells (view (chip (flash m)))) sec)],
      blk_addr := blk_addr m + 4096, blk_len := blk_len m - 4096,
      csw_struct := (csw_struct m)\<lparr>dCSWDataResidue := dCSWDataResidue (csw_struct m) - 4096\<rparr>,
      msc_state := (if k = 0 then MSC_STATE_MACHINE_LAST_DATA else msc_state m)\<rparr>) \<and>
    spi_ok f \<and> view (chip f) = (view (chip (flash m)))\<lparr>busy := 0\<rparr>"
proof -
  have le: "(4096 :: u32) \<le> blk_len m" using assms(5) by (simp add: word_le_nat_alt)
  then have mn: "min (blk_len m) 4096 = 4096" by (simp add: min_def)
  have base: "spi_ok (flash m)" "busy (view (chip (flash m))) < fuel" "length (data m) = 4096"
    using assms(3) by (simp_all add: bot_base_def)
  have fits: "unat (blk_addr m) + unat (4096 :: u32) \<le> FLASH_SIZE" "0 + unat (4096 :: u32) \<le> length (data m)"
    using assms(4,6) base(3) by simp_all
  obtain f where f: "msc_disk_read fuel dev 0 (blk_addr m) (data m) 0 4096 (flash m) =
      Some (USB_OK, sector_bytes (cells (view (chip (flash m)))) sec, f)" "spi_ok f"
    "view (chip f) = (view (chip (flash m)))\<lparr>busy := 0\<rparr>"
    using msc_disk_read_val[OF assms(1) base(1,2) fits] assms(4) base(3) by (auto simp: sector_bytes_def)
  have "unat (blk_len m - 4096) = SECTOR_SIZE * k" using le assms(5) by (simp add: unat_sub)
  then have z: "blk_len m - 4096 = 0 \<longleftrightarrow> k = 0" by (auto simp: unat_eq_0[symmetric])
  show ?thesis
    by (rule exI[of _ f]) (use f mn z in \<open>simp add: read10_data_def ept_send_def emit_def Let_def sector_bytes_def\<close>)
qed

text \<open>\<open>k\<close> completions of an IN transfer on the bulk endpoint, one after the other.\<close>

fun in_steps :: "nat \<Rightarrow> 'c spi_dev \<Rightarrow> nat \<Rightarrow> 'c msc \<Rightarrow> 'c msc option" where
  "in_steps fuel dev 0 m = Some m"
| "in_steps fuel dev (Suc k) m = bot_scsi_datain_handler fuel dev m \<bind> in_steps fuel dev k"

text \<open>A read that still has the \<open>k\<close> sectors from \<open>sec\<close> on to send.\<close>

definition reading :: "nat \<Rightarrow> nat \<Rightarrow> 'c msc \<Rightarrow> bool" where
  "reading sec k m \<longleftrightarrow> msc_state m = (if k = 0 then MSC_STATE_MACHINE_LAST_DATA else MSC_STATE_MACHINE_DATA_IN) \<and>
     CBWCB (cbw_struct m) ! 0 = MSC_CMD_READ_10 \<and> bCBWLUN (cbw_struct m) = 0 \<and>
     unat (blk_addr m) = SECTOR_SIZE * sec \<and> unat (blk_len m) = SECTOR_SIZE * k \<and>
     dCSWDataResidue (csw_struct m) = blk_len m \<and> sec + k \<le> 256"

lemma blk_advance:
  assumes "unat (a :: u64) = SECTOR_SIZE * sec" "unat (l :: u32) = SECTOR_SIZE * Suc k" "sec + Suc k \<le> 256"
  shows "unat (a + 4096) = SECTOR_SIZE * Suc sec" "unat (l - 4096) = SECTOR_SIZE * k"
proof -
  show "unat (a + 4096) = SECTOR_SIZE * Suc sec" using assms(1,3) by (simp add: unat_word_ariths)
  have "(4096 :: u32) \<le> l" using assms(2) by (simp add: word_le_nat_alt)
  then show "unat (l - 4096) = SECTOR_SIZE * k" using assms(2) by (simp add: unat_sub)
qed

lemma sector_bytes_length [simp]: "length (sector_bytes c i) = 4096"
  by (simp add: sector_bytes_def)

lemma read10_data_step:
  assumes "w25_laws dev view polls" "polls < fuel" "bot_base fuel view m" "msc_state m = MSC_STATE_MACHINE_DATA_IN"
    "reading sec (Suc k) m"
  shows "\<exists>m'. read10_data fuel dev 0 m = Some (USB_OK, m') \<and> bot_base fuel view m' \<and> reading (Suc sec) k m' \<and>
    cells (view (chip (flash m'))) = cells (view (chip (flash m))) \<and> dCSWTag (csw_struct m') = dCSWTag (csw_struct m) \<and>
    blk_nbr m' = blk_nbr m \<and> blk_size m' = blk_size m \<and> bot_status m' = bot_status m \<and>
    acts m' = acts m @ [EptSend USBD_MSC_BULK_IN_EPT (sector_bytes (cells (view (chip (flash m)))) sec)]"
proof -
  from assms(5) have r: "unat (blk_addr m) = SECTOR_SIZE * sec" "unat (blk_len m) = SECTOR_SIZE * Suc k" "sec + Suc k \<le> 256"
    by (simp_all add: reading_def)
  from read10_data_val[OF assms(1-3) r] obtain f where
    f: "read10_data fuel dev 0 m = Some (USB_OK, m\<lparr>
      data_len := 4096, data := sector_bytes (cells (view (chip (flash m)))) sec, flash := f,
      acts := acts m @ [EptSend USBD_MSC_BULK_IN_EPT (sector_bytes (cells (view (chip (flash m)))) sec)],
      blk_addr := blk_addr m + 4096, blk_len := blk_len m - 4096,
      csw_struct := (csw_struct m)\<lparr>dCSWDataResidue := dCSWDataResidue (csw_struct m) - 4096\<rparr>,
      msc_state := (if k = 0 then MSC_STATE_MACHINE_LAST_DATA else msc_state m)\<rparr>)" (is "_ = Some (USB_OK, ?m)")
    "spi_ok f" "view (chip f) = (view (chip (flash m)))\<lparr>busy := 0\<rparr>" by blast
  have "bot_base fuel view ?m" using f(2,3) assms(2,3) by (simp add: bot_base_def)
  moreover have "reading (Suc sec) k ?m" using assms(4,5) blk_advance[OF r] by (auto simp: reading_def)
  ultimately show ?thesis using f by (intro exI[of _ ?m]) simp
qed

lemma reading_completes:
  assumes "w25_laws dev view polls" "polls < fuel" "bot_base fuel view m" "reading sec k m"
  shows "\<exists>m'. in_steps fuel dev (Suc k) m = Some m' \<and> bot_base fuel view m' \<and> msc_state m' = MSC_STATE_MACHINE_IDLE \<and>
    cells (view (chip (flash m'))) = cells (view (chip (flash m))) \<and>
    acts m' = acts m @ sector_packets (cells (view (chip (flash m)))) sec k @
      [EptSend USBD_MSC_BULK_IN_EPT (csw_packet (dCSWTag (csw_struct m)) 0 CSW_BCSWSTATUS_PASS),
       EptRecv USBD_MSC_BULK_OUT_EPT RxCbw CBW_CMD_LENGTH]"
  using assms(3,4)
proof (induction k arbitrary: sec m)
  case 0
  then have "blk_len m = 0" by (simp add: reading_def unat_eq_0)
  with 0 show ?case
    by (simp add: reading_def bot_scsi_datain_handler_def send_csw_val bot_base_def sector_packets_def)
next
  case (Suc k)
  have st: "msc_state m = MSC_STATE_MACHINE_DATA_IN" using Suc.prems(2) by (simp add: reading_def)
  from read10_data_step[OF assms(1,2) Suc.prems(1) st Suc.prems(2)] obtain m1 where
    m1: "read10_data fuel dev 0 m = Some (USB_OK, m1)" "bot_base fuel view m1" "reading (Suc sec) k m1"
    "cells (view (chip (flash m1))) = cells (view (chip (flash m)))" "dCSWTag (csw_struct m1) = dCSWTag (csw_struct m)"
    "acts m1 = acts m @ [EptSend USBD_MSC_BULK_IN_EPT (sector_bytes (cells (view (chip (flash m)))) sec)]" by blast
  have "bot_scsi_datain_handler fuel dev m = Some m1"
    using Suc.prems st m1(1)
    by (simp add: bot_scsi_datain_handler_def bot_scsi_cmd_process_def bot_scsi_read10_def reading_def bot_base_def Let_def)
  then show ?case using Suc.IH[OF m1(2,3)] m1(4-6) by (auto simp: sector_packets_Suc)
qed

text \<open>A well-formed command block for \<open>n\<close> sectors from \<open>lba\<close> on, as a host sends it.\<close>

definition rw10_cbw :: "bool \<Rightarrow> u32 \<Rightarrow> u32 \<Rightarrow> u32 \<Rightarrow> cbw_type \<Rightarrow> bool" where
  "rw10_cbw dir_in tag lba n c \<longleftrightarrow> dCBWSignature c = CBW_DCBWSIGNATURE \<and> dCBWTage c = tag \<and>
     dCBWDataTransferLength c = n * 4096 \<and> bmCBWFlags c = (if dir_in then 0x80 else 0) \<and> bCBWLUN c = 0 \<and>
     1 \<le> bCBWCBLength c \<and> bCBWCBLength c \<le> 16 \<and> length (CBWCB c) = 16 \<and>
     CBWCB c ! 0 = (if dir_in then MSC_CMD_READ_10 else MSC_CMD_WRITE_10) \<and>
     cdb_lba (CBWCB c) = Some lba \<and> cdb_count (CBWCB c) = Some n"

text \<open>The device as it is after the host has asked for the capacity.\<close>

definition disk_known :: "'c msc \<Rightarrow> bool" where
  "disk_known m \<longleftrightarrow> blk_nbr m = [256] \<and> blk_size m = [4096]"

lemma rw10_setup_val:
  assumes "rw10_cbw dir_in tag lba n (cbw_struct m)" "disk_known m" "unat lba + unat n \<le> 256"
  shows "rw10_setup dir_in 0 m = Some (Inr (m\<lparr>blk_addr := scast lba * 4096, blk_len := n * 4096\<rparr>))"
    and "unat (scast lba * 4096 :: u64) = SECTOR_SIZE * unat lba" and "unat (n * 4096) = SECTOR_SIZE * unat n"
proof -
  have "unat (lba + n) = unat lba + unat n" using assms(3) by (simp add: unat_word_ariths)
  then have "\<not> lba + n > 256" using assms(3) by (simp add: word_less_nat_alt)
  then show "rw10_setup dir_in 0 m = Some (Inr (m\<lparr>blk_addr := scast lba * 4096, blk_len := n * 4096\<rparr>))"
    using assms(1,2) by (simp add: rw10_setup_def rw10_cbw_def disk_known_def bot_scsi_check_address_def Let_def)
  have "unat (scast lba :: u64) = unat lba" using assms(3) by (intro scast_small) simp
  then show "unat (scast lba * 4096 :: u64) = SECTOR_SIZE * unat lba" using assms(3) by (simp add: unat_word_ariths)
  show "unat (n * 4096) = SECTOR_SIZE * unat n" using assms(3) by (simp add: unat_word_ariths)
qed

lemma valid_cbw_decode:
  assumes "dCBWSignature (cbw_struct m) = CBW_DCBWSIGNATURE" "bCBWLUN (cbw_struct m) = 0"
    "1 \<le> bCBWCBLength (cbw_struct m)" "bCBWCBLength (cbw_struct m) \<le> 16" "msc_state m = MSC_STATE_MACHINE_IDLE"
  shows "bot_scsi_dataout_handler fuel dev CBW_CMD_LENGTH m = do {
     (st, m) \<leftarrow> bot_scsi_cmd_process fuel dev (m\<lparr>csw_struct := (csw_struct m)\<lparr>
       dCSWTag := dCBWTage (cbw_struct m), dCSWDataResidue := dCBWDataTransferLength (cbw_struct m)\<rparr>\<rparr>);
     if st \<noteq> USB_OK then Some (bot_scsi_stall m)
     else if msc_state m \<noteq> MSC_STATE_MACHINE_DATA_IN \<and> msc_state m \<noteq> MSC_STATE_MACHINE_DATA_OUT \<and>
             msc_state m \<noteq> MSC_STATE_MACHINE_LAST_DATA
     then (if data_len m = 0 then bot_scsi_send_csw CSW_BCSWSTATUS_PASS m
           else bot_scsi_send_data (data m) (data_len m) m)
     else Some m }"
  using assms by (simp add: bot_scsi_dataout_handler_def bot_cbw_decode_def Let_def not_le[symmetric])

section \<open>A read command delivers the sectors\<close>

text \<open>
  C11. \<^verbatim>\<open>READ(10)\<close>, from the command block to the status: on any flash chip that honours the data sheet, the
  reception of the command and one completion of an IN transfer per sector send exactly the
  \<open>n\<close> requested sectors, in order and one packet buffer each, then the status block with the host's
  tag, residue 0 and PASS, and ask for the next command. The flash content is unchanged, every handler
  returns, and the device is idle again.
\<close>

theorem read10_delivers_sectors:
  assumes "w25_laws dev view polls" "polls < fuel" "bot_base fuel view m" "disk_known m"
    "msc_state m = MSC_STATE_MACHINE_IDLE" "rw10_cbw True tag lba n (cbw_struct m)"
    "0 < n" "unat lba + unat n \<le> 256"
  shows "\<exists>m'. (bot_scsi_dataout_handler fuel dev CBW_CMD_LENGTH m \<bind> in_steps fuel dev (unat n)) = Some m' \<and>
    msc_state m' = MSC_STATE_MACHINE_IDLE \<and> cells (view (chip (flash m'))) = cells (view (chip (flash m))) \<and>
    acts m' = acts m @ sector_packets (cells (view (chip (flash m)))) (unat lba) (unat n) @
      [EptSend USBD_MSC_BULK_IN_EPT (csw_packet tag 0 CSW_BCSWSTATUS_PASS),
       EptRecv USBD_MSC_BULK_OUT_EPT RxCbw CBW_CMD_LENGTH]"
proof -
  let ?c = "csw_struct m" and ?b = "cbw_struct m"
  let ?m0 = "m\<lparr>csw_struct := ?c\<lparr>dCSWTag := dCBWTage ?b, dCSWDataResidue := dCBWDataTransferLength ?b\<rparr>\<rparr>"
  let ?m1 = "?m0\<lparr>blk_addr := scast lba * 4096, blk_len := n * 4096, msc_state := MSC_STATE_MACHINE_DATA_IN\<rparr>"
  have c: "rw10_cbw True tag lba n (cbw_struct ?m0)" "disk_known ?m0" using assms(4,6) by (simp_all add: disk_known_def)
  obtain k where k: "unat n = Suc k" using assms(7) by (metis gr0_implies_Suc unat_gt_0 word_neq_0_conv)
  have "bot_base fuel view ?m1" using assms(3) by (simp add: bot_base_def)
  moreover have "reading (unat lba) (Suc k) ?m1"
    using assms(6,8) rw10_setup_val(2,3)[OF c assms(8)] k by (simp add: reading_def rw10_cbw_def)
  ultimately obtain m2 where m2: "read10_data fuel dev 0 ?m1 = Some (USB_OK, m2)" "bot_base fuel view m2"
    "reading (Suc (unat lba)) k m2" "cells (view (chip (flash m2))) = cells (view (chip (flash m)))"
    "dCSWTag (csw_struct m2) = tag"
    "acts m2 = acts m @ [EptSend USBD_MSC_BULK_IN_EPT (sector_bytes (cells (view (chip (flash m)))) (unat lba))]"
    using read10_data_step[OF assms(1,2), of ?m1 "unat lba" k] assms(6) by (auto simp: rw10_cbw_def)
  have "msc_state m2 = MSC_STATE_MACHINE_DATA_IN \<or> msc_state m2 = MSC_STATE_MACHINE_LAST_DATA"
    using m2(3) by (simp add: reading_def)
  moreover have "bot_scsi_cmd_process fuel dev ?m0 = Some (USB_OK, m2)"
    using assms(5,6) rw10_setup_val(1)[OF c assms(8)] m2(1)
    by (simp add: bot_scsi_cmd_process_def bot_scsi_read10_def rw10_cbw_def Let_def)
  ultimately have "bot_scsi_dataout_handler fuel dev CBW_CMD_LENGTH m = Some m2"
    using valid_cbw_decode[of m fuel dev] assms(5,6) by (auto simp: rw10_cbw_def)
  then show ?thesis using reading_completes[OF assms(1,2) m2(2,3)] m2(4-6) k by (auto simp: sector_packets_Suc)
qed

text \<open>An idle device after a capacity command, for examples: its flash and the command block received.\<close>

definition idle_msc :: "'c spi \<Rightarrow> cbw_type \<Rightarrow> 'c msc" where
  "idle_msc s c = \<lparr>msc_state = MSC_STATE_MACHINE_IDLE, bot_status = MSC_BOT_STATE_IDLE, max_lun = 0, blk_nbr = [256],
     blk_size = [4096], blk_addr = 0, blk_len = 0, data_len = 0, data = replicate 4096 0, cbw_struct = c,
     csw_struct = \<lparr>dCSWSignature = 0, dCSWTag = 0, dCSWDataResidue = 0, bCSWStatus = 0\<rparr>,
     sense_data = sense_data_init, flash = s, acts = []\<rparr>"

definition nor_flash :: "u8 \<Rightarrow> nor_chip spi" where
  "nor_flash b = \<lparr>chip = \<lparr>nor_cells = (\<lambda>_. b), nor_wel = False, nor_busy = 1, nor_cur = []\<rparr>,
     dma_rtx_buf = replicate 1024 0\<rparr>"

definition cbw10 :: "u8 \<Rightarrow> u8 \<Rightarrow> u32 \<Rightarrow> u32 \<Rightarrow> u8 \<Rightarrow> u8 \<Rightarrow> cbw_type" where
  "cbw10 flags op tag len lba n = \<lparr>dCBWSignature = CBW_DCBWSIGNATURE, dCBWTage = tag, dCBWDataTransferLength = len,
     bmCBWFlags = flags, bCBWLUN = 0, bCBWCBLength = 10,
     CBWCB = [op, 0, 0, 0, 0, lba, 0, 0, n, 0, 0, 0, 0, 0, 0, 0]\<rparr>"

lemma idle_msc_base: "length (CBWCB c) = 16 \<Longrightarrow> bot_base 3 nor_view (idle_msc (nor_flash b) c)"
  by (simp add: bot_base_def idle_msc_def spi_ok_def nor_view_def nor_flash_def)

lemma cbw10_length [simp]: "length (CBWCB (cbw10 flags op tag len lba n)) = 16"
  by (simp add: cbw10_def)

lemma idle_msc_known [simp]: "disk_known (idle_msc s c)"
  by (simp add: disk_known_def idle_msc_def)

lemma idle_msc_simps [simp]:
  "msc_state (idle_msc s c) = MSC_STATE_MACHINE_IDLE" "cbw_struct (idle_msc s c) = c" "acts (idle_msc s c) = []"
  "cells (nor_view (chip (flash (idle_msc (nor_flash b) c)))) = (\<lambda>_. b)"
  by (simp_all add: idle_msc_def nor_flash_def nor_view_def)

theorem read10_delivers_sectors_witness:
  "\<exists>m'. (bot_scsi_dataout_handler 3 nor_dev 31 (idle_msc (nor_flash 7) (cbw10 0x80 0x28 9 8192 5 2)) \<bind> in_steps 3 nor_dev 2)
      = Some m' \<and>
     acts m' = [EptSend 0x81 (replicate 4096 7), EptSend 0x81 (replicate 4096 7),
       EptSend 0x81 (csw_packet 9 0 0), EptRecv 0x01 RxCbw 31]"
proof -
  let ?m = "idle_msc (nor_flash 7) (cbw10 0x80 0x28 9 8192 5 2)"
  have "rw10_cbw True 9 5 2 (cbw_struct ?m)"
    by (simp add: rw10_cbw_def cdb_lba_def cdb_count_def be32_def cbw10_def)
  moreover have "sector_bytes (\<lambda>_. 7) i = replicate 4096 7" for i
    by (simp add: sector_bytes_def map_replicate_const)
  then have "sector_packets (\<lambda>_. 7) 5 2 = [EptSend 0x81 (replicate 4096 7), EptSend 0x81 (replicate 4096 7)]"
    by (simp add: sector_packets_def upt_rec)
  ultimately show ?thesis
    using read10_delivers_sectors[OF nor_laws, of 3 ?m 9 5 2] idle_msc_base[OF cbw10_length] by auto
qed

section \<open>A write command stores the sectors\<close>

text \<open>The core has put each packet into \<^verbatim>\<open>pmsc->data\<close> when it calls the handler.\<close>

fun out_steps :: "nat \<Rightarrow> 'c spi_dev \<Rightarrow> buffer list \<Rightarrow> 'c msc \<Rightarrow> 'c msc option" where
  "out_steps fuel dev [] m = Some m"
| "out_steps fuel dev (p # ps) m =
     bot_scsi_dataout_handler fuel dev (of_nat (length p)) (m\<lparr>data := p\<rparr>) \<bind> out_steps fuel dev ps"

definition writing :: "nat \<Rightarrow> nat \<Rightarrow> 'c msc \<Rightarrow> bool" where
  "writing sec k m \<longleftrightarrow> msc_state m = MSC_STATE_MACHINE_DATA_OUT \<and>
     CBWCB (cbw_struct m) ! 0 = MSC_CMD_WRITE_10 \<and> bCBWLUN (cbw_struct m) = 0 \<and>
     unat (blk_addr m) = SECTOR_SIZE * sec \<and> unat (blk_len m) = SECTOR_SIZE * k \<and>
     dCSWDataResidue (csw_struct m) = blk_len m \<and> sec + k \<le> 256"

lemma write10_packet:
  assumes "w25_laws dev view polls" "polls < fuel" "bot_base fuel view m" "writing sec (Suc k) m"
  shows "\<exists>m'. bot_scsi_dataout_handler fuel dev len m = Some m' \<and> bot_base fuel view m' \<and>
    cells (view (chip (flash m'))) = sectors_set sec 1 (data m) (cells (view (chip (flash m)))) \<and>
    dCSWTag (csw_struct m') = dCSWTag (csw_struct m) \<and>
    blk_nbr m' = blk_nbr m \<and> blk_size m' = blk_size m \<and> bot_status m' = bot_status m \<and>
    (if k = 0 then msc_state m' = MSC_STATE_MACHINE_IDLE \<and>
       acts m' = acts m @ [EptSend USBD_MSC_BULK_IN_EPT (csw_packet (dCSWTag (csw_struct m)) 0 CSW_BCSWSTATUS_PASS),
         EptRecv USBD_MSC_BULK_OUT_EPT RxCbw CBW_CMD_LENGTH]
     else writing (Suc sec) k m' \<and> acts m' = acts m @ [EptRecv USBD_MSC_BULK_OUT_EPT RxData 4096])"
proof -
  have r: "unat (blk_addr m) = SECTOR_SIZE * sec" "unat (blk_len m) = SECTOR_SIZE * Suc k" "sec + Suc k \<le> 256"
    using assms(4) by (simp_all add: writing_def)
  have base: "spi_ok (flash m)" "busy (view (chip (flash m))) < fuel" "length (data m) = 4096"
    using assms(3) by (simp_all add: bot_base_def)
  have mn: "min (blk_len m) 4096 = 4096" using r(2) by (intro min.absorb2) (simp add: word_le_nat_alt)
  note adv = blk_advance[OF r]
  have "blk_len m - 4096 = 0 \<longleftrightarrow> unat (blk_len m - 4096) = 0" by (simp only: unat_eq_0)
  then have z: "blk_len m - 4096 = 0 \<longleftrightarrow> k = 0" by (simp only: adv(2)) simp
  have mn2: "k \<noteq> 0 \<Longrightarrow> min (blk_len m - 4096) 4096 = 4096"
    using adv(2) by (intro min.absorb2) (simp add: word_le_nat_alt)
  have one: "unat (4096 :: u32) = SECTOR_SIZE * 1" "sec + 1 \<le> 256" "0 + SECTOR_SIZE * 1 \<le> length (data m)"
    using r(3) base(3) by simp_all
  from msc_disk_write_val[OF assms(1) base(1,2) assms(2) r(1) one] obtain f where
    f: "msc_disk_write fuel dev 0 (blk_addr m) (data m) 0 4096 (flash m) = Some (USB_OK, f)" "spi_ok f"
    "busy (view (chip f)) < fuel" "cells (view (chip f)) = sectors_set sec 1 (data m) (cells (view (chip (flash m))))" by auto
  have "bot_scsi_dataout_handler fuel dev len m = bot_scsi_write10 fuel dev 0 m \<bind>
      (\<lambda>(st, m). if st \<noteq> USB_OK then bot_scsi_send_csw CSW_BCSWSTATUS_FAILED m else Some m)"
    using assms(3,4) by (simp add: bot_scsi_dataout_handler_def bot_scsi_cmd_process_def writing_def bot_base_def Let_def)
  then show ?thesis
    using assms(3,4) f mn mn2 z adv r(3)
    by (auto simp: bot_scsi_write10_def writing_def bot_base_def send_csw_val recv_data_def emit_def Let_def)
qed

lemma sectors_set_cons:
  assumes "length p = SECTOR_SIZE"
  shows "sectors_set (Suc sec) n d (sectors_set sec 1 p c) = sectors_set sec (Suc n) (p @ d) c"
  using assms by (auto simp: sectors_set_def nth_append fun_eq_iff intro: arg_cong[where f = "nth d"])

lemma writing_completes:
  assumes "w25_laws dev view polls" "polls < fuel" "ps \<noteq> []" "\<And>p. p \<in> set ps \<Longrightarrow> length p = SECTOR_SIZE"
    "bot_base fuel view m" "writing sec (length ps) m"
  shows "\<exists>m'. out_steps fuel dev ps m = Some m' \<and> bot_base fuel view m' \<and> msc_state m' = MSC_STATE_MACHINE_IDLE \<and>
    cells (view (chip (flash m'))) = sectors_set sec (length ps) (concat ps) (cells (view (chip (flash m)))) \<and>
    acts m' = acts m @ replicate (length ps - 1) (EptRecv USBD_MSC_BULK_OUT_EPT RxData 4096) @
      [EptSend USBD_MSC_BULK_IN_EPT (csw_packet (dCSWTag (csw_struct m)) 0 CSW_BCSWSTATUS_PASS),
       EptRecv USBD_MSC_BULK_OUT_EPT RxCbw CBW_CMD_LENGTH]"
  using assms(3-6)
proof (induction ps arbitrary: sec m rule: list_nonempty_induct)
  case (single p)
  have "bot_base fuel view (m\<lparr>data := p\<rparr>)" "writing sec (Suc 0) (m\<lparr>data := p\<rparr>)"
    using single.prems by (simp_all add: bot_base_def writing_def)
  from write10_packet[OF assms(1,2) this, of "of_nat (length p)"] show ?case by auto
next
  case (cons p ps)
  obtain k where k: "length ps = Suc k" using cons.hyps by (cases ps) auto
  have len: "length p = SECTOR_SIZE" "\<And>q. q \<in> set ps \<Longrightarrow> length q = SECTOR_SIZE" using cons.prems(1) by auto
  have "bot_base fuel view (m\<lparr>data := p\<rparr>)" "writing sec (Suc (Suc k)) (m\<lparr>data := p\<rparr>)"
    using cons.prems len(1) k by (simp_all add: bot_base_def writing_def)
  from write10_packet[OF assms(1,2) this, of "of_nat (length p)"] obtain m1 where
    m1: "bot_scsi_dataout_handler fuel dev (of_nat (length p)) (m\<lparr>data := p\<rparr>) = Some m1" "bot_base fuel view m1"
    "cells (view (chip (flash m1))) = sectors_set sec 1 p (cells (view (chip (flash m))))"
    "dCSWTag (csw_struct m1) = dCSWTag (csw_struct m)" "writing (Suc sec) (length ps) m1"
    "acts m1 = acts m @ [EptRecv USBD_MSC_BULK_OUT_EPT RxData 4096]" using k by auto
  from cons.IH[OF len(2) m1(2,5)] obtain m2 where
    m2: "out_steps fuel dev ps m1 = Some m2" "bot_base fuel view m2" "msc_state m2 = MSC_STATE_MACHINE_IDLE"
    "cells (view (chip (flash m2))) = sectors_set (Suc sec) (length ps) (concat ps) (cells (view (chip (flash m1))))"
    "acts m2 = acts m1 @ replicate (length ps - 1) (EptRecv USBD_MSC_BULK_OUT_EPT RxData 4096) @
      [EptSend USBD_MSC_BULK_IN_EPT (csw_packet (dCSWTag (csw_struct m1)) 0 CSW_BCSWSTATUS_PASS),
       EptRecv USBD_MSC_BULK_OUT_EPT RxCbw CBW_CMD_LENGTH]" by blast
  show ?case
    by (rule exI[of _ m2]) (use m1 m2 k sectors_set_cons[OF len(1)] in simp)
qed

text \<open>
  C12. \<^verbatim>\<open>WRITE(10)\<close>, from the command block to the status: for a well-formed command and one packet buffer
  per announced sector, the device asks for exactly the announced data, stores it in the announced
  sectors and nowhere else, answers with the host's tag, residue 0 and PASS, and asks for the next
  command. Every handler returns.
\<close>

theorem write10_stores_sectors:
  assumes "w25_laws dev view polls" "polls < fuel" "bot_base fuel view m" "disk_known m"
    "msc_state m = MSC_STATE_MACHINE_IDLE" "rw10_cbw False tag lba n (cbw_struct m)"
    "unat lba + unat n \<le> 256" "length ps = unat n" "ps \<noteq> []" "\<And>p. p \<in> set ps \<Longrightarrow> length p = SECTOR_SIZE"
  shows "\<exists>m'. (bot_scsi_dataout_handler fuel dev CBW_CMD_LENGTH m \<bind> out_steps fuel dev ps) = Some m' \<and>
    msc_state m' = MSC_STATE_MACHINE_IDLE \<and>
    cells (view (chip (flash m'))) = sectors_set (unat lba) (unat n) (concat ps) (cells (view (chip (flash m)))) \<and>
    acts m' = acts m @ replicate (unat n) (EptRecv USBD_MSC_BULK_OUT_EPT RxData 4096) @
      [EptSend USBD_MSC_BULK_IN_EPT (csw_packet tag 0 CSW_BCSWSTATUS_PASS),
       EptRecv USBD_MSC_BULK_OUT_EPT RxCbw CBW_CMD_LENGTH]"
proof -
  let ?c = "csw_struct m" and ?b = "cbw_struct m"
  let ?m0 = "m\<lparr>csw_struct := ?c\<lparr>dCSWTag := dCBWTage ?b, dCSWDataResidue := dCBWDataTransferLength ?b\<rparr>\<rparr>"
  let ?m1 = "?m0\<lparr>blk_addr := scast lba * 4096, blk_len := n * 4096, msc_state := MSC_STATE_MACHINE_DATA_OUT,
    acts := acts m @ [EptRecv USBD_MSC_BULK_OUT_EPT RxData 4096]\<rparr>"
  have c: "rw10_cbw False tag lba n (cbw_struct ?m0)" "disk_known ?m0" using assms(4,6) by (simp_all add: disk_known_def)
  obtain k where k: "unat n = Suc k" using assms(8,9) by (cases "unat n") auto
  note v = rw10_setup_val[OF c assms(7)]
  have mn: "min (n * 4096) 4096 = 4096" using v(3) k by (intro min.absorb2) (simp add: word_le_nat_alt)
  have "bot_scsi_cmd_process fuel dev ?m0 = Some (USB_OK, ?m1)"
    using assms(5,6) v(1) mn
    by (simp add: bot_scsi_cmd_process_def bot_scsi_write10_def rw10_cbw_def recv_data_def emit_def Let_def)
  then have "bot_scsi_dataout_handler fuel dev CBW_CMD_LENGTH m = Some ?m1"
    using valid_cbw_decode[of m fuel dev] assms(5,6) by (auto simp: rw10_cbw_def)
  moreover have "bot_base fuel view ?m1" using assms(3) by (simp add: bot_base_def)
  moreover have "writing (unat lba) (length ps) ?m1"
    using assms(6-8) v(2,3) by (simp add: writing_def rw10_cbw_def)
  ultimately show ?thesis
    using writing_completes[OF assms(1,2,9,10), of ?m1 "unat lba"] assms(6,8) k by (auto simp: rw10_cbw_def)
qed

theorem write10_stores_sectors_witness:
  "\<exists>m'. (bot_scsi_dataout_handler 3 nor_dev 31 (idle_msc (nor_flash 0) (cbw10 0 0x2A 9 4096 5 1)) \<bind>
      out_steps 3 nor_dev [replicate 4096 7]) = Some m' \<and>
    cells (nor_view (chip (flash m'))) = sectors_set 5 1 (replicate 4096 7) (\<lambda>_. 0) \<and>
    acts m' = [EptRecv 0x01 RxData 4096, EptSend 0x81 (csw_packet 9 0 0), EptRecv 0x01 RxCbw 31]"
proof -
  let ?m = "idle_msc (nor_flash 0) (cbw10 0 0x2A 9 4096 5 1)"
  have "rw10_cbw False 9 5 1 (cbw_struct ?m)"
    by (simp add: rw10_cbw_def cdb_lba_def cdb_count_def be32_def cbw10_def)
  then show ?thesis
    using write10_stores_sectors[OF nor_laws, of 3 ?m 9 5 1 "[replicate 4096 7]"] idle_msc_base[OF cbw10_length] by auto
qed

end
