(* ===== verification/Msc_Cmd.thy ===== *)
theory Msc_Cmd
  imports Msc_Bot
begin

text \<open>
  What the host sees of the commands without sector data, and of errors: the answers to
  \<^verbatim>\<open>READ CAPACITY\<close> and \<^verbatim>\<open>REQUEST SENSE\<close>, the stall, clear-feature and status sequence of a rejected command,
  and where the code departs from the bulk-only transport (the second logical unit, wrapping block addresses, status
  after a class reset).
\<close>

section \<open>Copy loops\<close>

lemma copy_down_val:
  assumes "n \<le> length dst" "n \<le> length src"
  shows "copy_down dst src n = Some (take n src @ drop n dst)"
  using assms
proof (induction n arbitrary: dst)
  case (Suc n)
  then have "copy_down (dst[n := src ! n]) src n = Some (take n src @ drop n (dst[n := src ! n]))" by simp
  moreover have "drop n (dst[n := src ! n]) = src ! n # drop (Suc n) dst"
    using Suc.prems(1) by (subst Cons_nth_drop_Suc[symmetric]) simp_all
  ultimately show ?case using Suc.prems by (simp add: take_Suc_conv_app_nth)
qed simp

lemma put_bytes_val:
  assumes "i + length bs \<le> length dst"
  shows "put_bytes dst i bs = Some (take i dst @ bs @ drop (i + length bs) dst)"
  using assms
proof (induction bs arbitrary: i dst)
  case (Cons b bs)
  then have "put_bytes (dst[i := b]) (Suc i) bs = Some (take (Suc i) (dst[i := b]) @ bs @ drop (Suc i + length bs) (dst[i := b]))"
    by simp
  then show ?case using Cons.prems by (simp add: take_Suc_conv_app_nth)
qed simp

section \<open>Commands answered with one data block\<close>

definition valid_cbw :: "cbw_type \<Rightarrow> bool" where
  "valid_cbw c \<longleftrightarrow> dCBWSignature c = CBW_DCBWSIGNATURE \<and> bCBWLUN c = 0 \<and> 1 \<le> bCBWCBLength c \<and> bCBWCBLength c \<le> 16 \<and>
     length (CBWCB c) = 16"

text \<open>The state in which the command handler runs.\<close>

definition cbw_latched :: "'c msc \<Rightarrow> 'c msc" where
  "cbw_latched m = m\<lparr>csw_struct := (csw_struct m)\<lparr>
     dCSWTag := dCBWTage (cbw_struct m), dCSWDataResidue := dCBWDataTransferLength (cbw_struct m)\<rparr>\<rparr>"

lemma valid_cbw_process:
  assumes "valid_cbw (cbw_struct m)" "msc_state m = MSC_STATE_MACHINE_IDLE"
  shows "bot_scsi_dataout_handler fuel dev CBW_CMD_LENGTH m = do {
     (st, m) \<leftarrow> bot_scsi_cmd_process fuel dev (cbw_latched m);
     if st \<noteq> USB_OK then Some (bot_scsi_stall m)
     else if msc_state m \<noteq> MSC_STATE_MACHINE_DATA_IN \<and> msc_state m \<noteq> MSC_STATE_MACHINE_DATA_OUT \<and>
             msc_state m \<noteq> MSC_STATE_MACHINE_LAST_DATA
     then (if data_len m = 0 then bot_scsi_send_csw CSW_BCSWSTATUS_PASS m
           else bot_scsi_send_data (data m) (data_len m) m)
     else Some m }"
  using assms by (simp add: valid_cbw_def cbw_latched_def valid_cbw_decode)

lemma latched_simps [simp]:
  "cbw_struct (cbw_latched m) = cbw_struct m" "data (cbw_latched m) = data m" "acts (cbw_latched m) = acts m"
  "msc_state (cbw_latched m) = msc_state m" "bot_status (cbw_latched m) = bot_status m" "flash (cbw_latched m) = flash m"
  "blk_nbr (cbw_latched m) = blk_nbr m" "blk_size (cbw_latched m) = blk_size m" "sense_data (cbw_latched m) = sense_data m"
  "dCSWTag (csw_struct (cbw_latched m)) = dCBWTage (cbw_struct m)"
  "dCSWDataResidue (csw_struct (cbw_latched m)) = dCBWDataTransferLength (cbw_struct m)"
  by (simp_all add: cbw_latched_def)

text \<open>One data block of at most \<open>len\<close> bytes, then the status.\<close>

definition data_answer :: "cbw_type \<Rightarrow> buffer \<Rightarrow> u32 \<Rightarrow> usb_act list" where
  "data_answer c bytes len = (let n = min len (dCBWDataTransferLength c) in
     [EptSend USBD_MSC_BULK_IN_EPT (take (unat n) bytes),
      EptSend USBD_MSC_BULK_IN_EPT (csw_packet (dCBWTage c) (dCBWDataTransferLength c - n) CSW_BCSWSTATUS_PASS),
      EptRecv USBD_MSC_BULK_OUT_EPT RxCbw CBW_CMD_LENGTH])"

lemma data_answer_cut:
  assumes "unat len \<le> length b"
  shows "data_answer c (b @ r) len = data_answer c b len"
proof -
  have "unat (min len (dCBWDataTransferLength c)) \<le> length b" using assms by (simp add: min_def word_le_nat_alt)
  then show ?thesis by (simp add: data_answer_def Let_def)
qed

lemma data_exchange:
  assumes "valid_cbw (cbw_struct m)" "msc_state m = MSC_STATE_MACHINE_IDLE"
    "bot_scsi_cmd_process fuel dev (cbw_latched m) = Some (USB_OK, m1)"
    "msc_state m1 = MSC_STATE_MACHINE_IDLE" "data_len m1 \<noteq> 0" "unat (data_len m1) \<le> length (data m1)"
    "cbw_struct m1 = cbw_struct m" "csw_struct m1 = csw_struct (cbw_latched m)" "acts m1 = acts m"
  shows "\<exists>c. (bot_scsi_dataout_handler fuel dev CBW_CMD_LENGTH m \<bind> bot_scsi_datain_handler fuel dev) =
    Some (m1\<lparr>csw_struct := c, msc_state := MSC_STATE_MACHINE_IDLE,
      acts := acts m @ data_answer (cbw_struct m) (data m1) (data_len m1)\<rparr>)"
  using assms
  by (simp add: valid_cbw_process send_data_val bot_scsi_datain_handler_def send_csw_val data_answer_def Let_def
    cbw_latched_def) blast

text \<open>
  \<^verbatim>\<open>READ CAPACITY\<close>: the host gets the last block number 255 and the block size 4096, big endian, cut to the length
  it asked for, then PASS with the rest as residue. From then on the device knows its geometry,
  which the commands \<^verbatim>\<open>READ(10)\<close> and \<^verbatim>\<open>WRITE(10)\<close> rely on, whatever was in the fields before.
\<close>

theorem read_capacity_response:
  assumes "valid_cbw (cbw_struct m)" "msc_state m = MSC_STATE_MACHINE_IDLE"
    "CBWCB (cbw_struct m) ! 0 = MSC_CMD_READ_CAPACITY" "length (data m) = 4096"
    "length (blk_nbr m) = 1" "length (blk_size m) = 1"
  shows "\<exists>m'. (bot_scsi_dataout_handler fuel dev CBW_CMD_LENGTH m \<bind> bot_scsi_datain_handler fuel dev) = Some m' \<and>
    disk_known m' \<and> msc_state m' = MSC_STATE_MACHINE_IDLE \<and> flash m' = flash m \<and>
    acts m' = acts m @ data_answer (cbw_struct m) [0, 0, 0, 255, 0, 0, 16, 0] 8"
proof -
  obtain n z where nz: "blk_nbr m = [n]" "blk_size m = [z]"
    using assms(5,6) by (auto simp: length_Suc_conv)
  let ?m1 = "(cbw_latched m)\<lparr>blk_nbr := [256], blk_size := [4096],
    data := [0, 0, 0, 255, 0, 0, 16, 0] @ drop 8 (data m), data_len := 8\<rparr>"
  let ?bs = "be32_bytes 255 @ be32_bytes 4096"
  have bs: "?bs = [0, 0, 0, 255, 0, 0, 16, 0]" and len: "length ?bs = 8" by (simp_all add: be32_bytes_def)
  have "put_bytes (data m) 0 ?bs = Some (take 0 (data m) @ ?bs @ drop (0 + length ?bs) (data m))"
    by (rule put_bytes_val) (simp only: len assms(4))
  then have "put_bytes (data m) 0 ?bs = Some (?bs @ drop 8 (data m))" by (simp only: len take_0 append_Nil add_0)
  then have "put_bytes (data m) 0 ?bs = Some ([0, 0, 0, 255, 0, 0, 16, 0] @ drop 8 (data m))" by (simp only: bs)
  then have "bot_scsi_cmd_process fuel dev (cbw_latched m) = Some (USB_OK, ?m1)"
    using assms(1,3) nz
    by (simp add: bot_scsi_cmd_process_def bot_scsi_capacity_def update_capacity_def msc_disk_capacity_def valid_cbw_def Let_def
      del: put_bytes.simps)
  from data_exchange[OF assms(1,2) this] assms(2,4) obtain c where
    c: "(bot_scsi_dataout_handler fuel dev CBW_CMD_LENGTH m \<bind> bot_scsi_datain_handler fuel dev) =
      Some (?m1\<lparr>csw_struct := c, msc_state := MSC_STATE_MACHINE_IDLE,
        acts := acts m @ data_answer (cbw_struct m) (data ?m1) (data_len ?m1)\<rparr>)" by auto
  have "data_answer (cbw_struct m) (data ?m1) (data_len ?m1) =
      data_answer (cbw_struct m) [0, 0, 0, 255, 0, 0, 16, 0] 8"
    using data_answer_cut[of 8 "[0, 0, 0, 255, 0, 0, 16, 0]" "cbw_struct m" "drop 8 (data m)"] by simp
  with c show ?thesis by (simp add: disk_known_def)
qed

theorem read_capacity_response_witness:
  "\<exists>m'. (bot_scsi_dataout_handler 3 nor_dev 31 (idle_msc (nor_flash 7) (cbw10 0x80 0x25 9 8 0 0)) \<bind>
      bot_scsi_datain_handler 3 nor_dev) = Some m' \<and>
    acts m' = [EptSend 0x81 [0, 0, 0, 255, 0, 0, 16, 0], EptSend 0x81 (csw_packet 9 0 0), EptRecv 0x01 RxCbw 31]"
proof -
  let ?m = "idle_msc (nor_flash 7) (cbw10 0x80 0x25 9 8 0 0) :: nor_chip msc"
  have "valid_cbw (cbw_struct ?m)" "CBWCB (cbw_struct ?m) ! 0 = 0x25" "length (data ?m) = 4096"
    "length (blk_nbr ?m) = 1" "length (blk_size ?m) = 1"
    by (simp_all add: valid_cbw_def cbw10_def idle_msc_def)
  from read_capacity_response[OF this(1) _ this(2-5), of 3 nor_dev] show ?thesis
    by (auto simp: data_answer_def cbw10_def)
qed

section \<open>Rejected commands\<close>

definition supported_op :: "u8 \<Rightarrow> bool" where
  "supported_op op \<longleftrightarrow> op \<in> set [MSC_CMD_INQUIRY, MSC_CMD_START_STOP, MSC_CMD_MODE_SENSE6, MSC_CMD_MODE_SENSE10,
     MSC_CMD_ALLOW_MEDIUM_REMOVAL, MSC_CMD_READ_10, MSC_CMD_READ_CAPACITY, MSC_CMD_REQUEST_SENSE, MSC_CMD_TEST_UNIT,
     MSC_CMD_VERIFY, MSC_CMD_WRITE_10, MSC_CMD_READ_FORMAT_CAPACITY]"

lemma unsupported_val:
  assumes "valid_cbw (cbw_struct m)" "msc_state m = MSC_STATE_MACHINE_IDLE" "\<not> supported_op (CBWCB (cbw_struct m) ! 0)"
  shows "bot_scsi_dataout_handler fuel dev CBW_CMD_LENGTH m =
    Some (bot_scsi_stall (bot_scsi_sense_code SENSE_KEY_ILLEGAL_REQUEST INVALID_COMMAND (cbw_latched m)))"
  using assms
  by (simp add: valid_cbw_process bot_scsi_cmd_process_def supported_op_def valid_cbw_def bot_scsi_sense_code_def Let_def)

lemma request_sense_val:
  assumes "valid_cbw (cbw_struct m)" "msc_state m = MSC_STATE_MACHINE_IDLE" "length (data m) = 4096"
    "CBWCB (cbw_struct m) ! 0 = MSC_CMD_REQUEST_SENSE" "dCBWDataTransferLength (cbw_struct m) = 18"
  shows "\<exists>m'. (bot_scsi_dataout_handler fuel dev CBW_CMD_LENGTH m \<bind> bot_scsi_datain_handler fuel dev) = Some m' \<and>
    acts m' = acts m @ data_answer (cbw_struct m) (take 18 (sense_bytes (sense_data m))) 18"
proof -
  let ?m1 = "(cbw_latched m)\<lparr>data := take 18 (sense_bytes (sense_data m)) @ drop 18 (data m), data_len := 18\<rparr>"
  have "length (sense_bytes (sense_data m)) = 24" by (simp add: sense_bytes_def)
  then have "copy_down (data m) (sense_bytes (sense_data m)) 18 =
      Some (take 18 (sense_bytes (sense_data m)) @ drop 18 (data m))"
    using assms(3) by (intro copy_down_val) simp_all
  then have "bot_scsi_cmd_process fuel dev (cbw_latched m) = Some (USB_OK, ?m1)"
    using assms(1,4,5) by (simp add: bot_scsi_cmd_process_def bot_scsi_request_sense_def valid_cbw_def Let_def)
  from data_exchange[OF assms(1,2) this] assms(2,3) show ?thesis
    by (auto simp: data_answer_def sense_bytes_def Let_def assms(5))
qed

text \<open>
  C13. The error sequence of the bulk-only transport for a command the device does not know. The
  command is answered by a stall of the IN endpoint (and of the OUT endpoint when the host was to send data); when the
  host clears the IN endpoint it gets the status FAILED with its tag and the whole
  length as residue; and a following \<^verbatim>\<open>REQUEST SENSE\<close> returns sense key ILLEGAL REQUEST in byte 2. The additional sense
  code INVALID COMMAND however stands in byte 16: the host reads 0 in byte 12, where fixed-format sense data has it,
  because \<^verbatim>\<open>sense_type\<close> is not packed.
\<close>

theorem unknown_command_sequence:
  assumes "valid_cbw (cbw_struct m)" "msc_state m = MSC_STATE_MACHINE_IDLE" "bot_status m = MSC_BOT_STATE_IDLE"
    "\<not> supported_op (CBWCB (cbw_struct m) ! 0)" "length (data m) = 4096"
    "valid_cbw c" "CBWCB c ! 0 = MSC_CMD_REQUEST_SENSE" "dCBWDataTransferLength c = 18"
    "err_code (sense_data m) = 0x70" "as_length (sense_data m) = 0x0A" "ascq (sense_data m) = 0"
  shows "\<exists>m1 m2 m3. bot_scsi_dataout_handler fuel dev CBW_CMD_LENGTH m = Some m1 \<and>
    acts m1 = acts m @
      (if dCBWDataTransferLength (cbw_struct m) \<noteq> 0 \<and> bmCBWFlags (cbw_struct m) = 0
       then [SetStall USBD_MSC_BULK_OUT_EPT] else []) @ [SetStall USBD_MSC_BULK_IN_EPT] \<and>
    bot_scsi_clear_feature 0x81 m1 = Some m2 \<and>
    acts m2 = acts m1 @ [EptSend USBD_MSC_BULK_IN_EPT (csw_packet (dCBWTage (cbw_struct m))
        (dCBWDataTransferLength (cbw_struct m)) CSW_BCSWSTATUS_FAILED), EptRecv USBD_MSC_BULK_OUT_EPT RxCbw CBW_CMD_LENGTH] \<and>
    (bot_scsi_dataout_handler fuel dev CBW_CMD_LENGTH (m2\<lparr>cbw_struct := c\<rparr>) \<bind> bot_scsi_datain_handler fuel dev) = Some m3 \<and>
    acts m3 = acts m2 @ data_answer c [0x70, 0, 0x05, 0, 0, 0, 0, 0, 0x0A, 0, 0, 0, 0, 0, 0, 0, 0x20, 0] 18"
proof -
  let ?m1 = "bot_scsi_stall (bot_scsi_sense_code SENSE_KEY_ILLEGAL_REQUEST INVALID_COMMAND (cbw_latched m))"
  have m1: "acts ?m1 = acts m @ (if dCBWDataTransferLength (cbw_struct m) \<noteq> 0 \<and> bmCBWFlags (cbw_struct m) = 0
       then [SetStall USBD_MSC_BULK_OUT_EPT] else []) @ [SetStall USBD_MSC_BULK_IN_EPT]"
    "csw_struct ?m1 = csw_struct (cbw_latched m)" "bot_status ?m1 = MSC_BOT_STATE_IDLE" "data ?m1 = data m"
    "sense_data ?m1 = (sense_data m)\<lparr>sense_key := SENSE_KEY_ILLEGAL_REQUEST, asc := INVALID_COMMAND\<rparr>"
    using assms(3) by (auto simp: bot_scsi_stall_def bot_scsi_sense_code_def emit_def Let_def)
  obtain m2 where m2: "bot_scsi_clear_feature 0x81 ?m1 = Some m2" "msc_state m2 = MSC_STATE_MACHINE_IDLE"
    "data m2 = data m" "sense_data m2 = sense_data ?m1"
    "acts m2 = acts ?m1 @ [EptSend USBD_MSC_BULK_IN_EPT (csw_packet (dCBWTage (cbw_struct m))
        (dCBWDataTransferLength (cbw_struct m)) CSW_BCSWSTATUS_FAILED), EptRecv USBD_MSC_BULK_OUT_EPT RxCbw CBW_CMD_LENGTH]"
    using m1 by (simp add: bot_scsi_clear_feature_def send_csw_val)
  let ?m2 = "m2\<lparr>cbw_struct := c\<rparr>"
  have "take 18 (sense_bytes (sense_data ?m2)) = [0x70, 0, 0x05, 0, 0, 0, 0, 0, 0x0A, 0, 0, 0, 0, 0, 0, 0, 0x20, 0]"
    using m1(5) m2(4) assms(9-11) by (simp add: sense_bytes_def)
  then obtain m3 where "(bot_scsi_dataout_handler fuel dev CBW_CMD_LENGTH ?m2 \<bind> bot_scsi_datain_handler fuel dev) = Some m3"
    "acts m3 = acts m2 @ data_answer c [0x70, 0, 0x05, 0, 0, 0, 0, 0, 0x0A, 0, 0, 0, 0, 0, 0, 0, 0x20, 0] 18"
    using request_sense_val[of ?m2 fuel dev] m2(2,3) assms(5-8) by auto
  with unsupported_val[OF assms(1,2,4)] m1(1) m2(1,5) show ?thesis by blast
qed

theorem unknown_command_sequence_witness:
  "\<exists>m1 m2. bot_scsi_dataout_handler 3 nor_dev 31 (idle_msc (nor_flash 7) (cbw10 0x80 0x35 9 0 0 0)) = Some m1 \<and>
    acts m1 = [SetStall 0x81] \<and> bot_scsi_clear_feature 0x81 m1 = Some m2 \<and>
    acts m2 = [SetStall 0x81, EptSend 0x81 (csw_packet 9 0 1), EptRecv 0x01 RxCbw 31]"
proof -
  let ?m = "idle_msc (nor_flash 7) (cbw10 0x80 0x35 9 0 0 0) :: nor_chip msc" and ?c = "cbw10 0x80 0x03 10 18 0 0"
  have "valid_cbw (cbw_struct ?m)" "bot_status ?m = MSC_BOT_STATE_IDLE" "\<not> supported_op (CBWCB (cbw_struct ?m) ! 0)"
    "length (data ?m) = 4096" "valid_cbw ?c" "CBWCB ?c ! 0 = MSC_CMD_REQUEST_SENSE" "dCBWDataTransferLength ?c = 18"
    "err_code (sense_data ?m) = 0x70" "as_length (sense_data ?m) = 0x0A" "ascq (sense_data ?m) = 0"
    by (simp_all add: valid_cbw_def cbw10_def supported_op_def) (simp_all add: idle_msc_def sense_data_init_def)
  from unknown_command_sequence[OF this(1) _ this(2-10), of 3 nor_dev] show ?thesis
    by (auto simp: cbw10_def)
qed

section \<open>Where the checks fall short\<close>

text \<open>
  The range check of \<^verbatim>\<open>bot_scsi_check_address\<close>, exactly: it accepts a range when the 32-bit sum of first block and
  count is at most the number of blocks. A range that ends beyond \<open>2 ^ 32\<close> is therefore judged by what is left after the
  wrap, and the last block of the address space is accepted on a disk of 256 blocks. A rejected range sets the
  sense data to ILLEGAL REQUEST, ADDRESS OUT OF RANGE.
\<close>

theorem check_address_modulo:
  assumes "blk_nbr m = [nbr]"
  shows "bot_scsi_check_address 0 lba n m =
    (if (unat lba + unat n) mod 2 ^ 32 \<le> unat nbr then Some (USB_OK, m)
     else Some (USB_FAIL, m\<lparr>sense_data := (sense_data m)\<lparr>sense_key := SENSE_KEY_ILLEGAL_REQUEST, asc := ADDRESS_OUT_OF_RANGE\<rparr>\<rparr>))"
  using assms
  by (simp add: bot_scsi_check_address_def bot_scsi_sense_code_def word_less_nat_alt unat_word_ariths not_le)

theorem check_address_modulo_witness:
  "let m = idle_msc (nor_flash 7) (cbw10 0x80 0x28 9 4096 0 1)
   in bot_scsi_check_address 0 0xFFFFFFFF 1 m = Some (USB_OK, m) \<and>
      (\<exists>m'. bot_scsi_check_address 0 255 2 m = Some (USB_FAIL, m'))"
proof -
  let ?m = "idle_msc (nor_flash 7) (cbw10 0x80 0x28 9 4096 0 1) :: nor_chip msc"
  have "blk_nbr ?m = [256]" by (simp add: idle_msc_def)
  from check_address_modulo[OF this, of "0xFFFFFFFF" 1] check_address_modulo[OF this, of 255 2] show ?thesis
    by (simp add: Let_def)
qed

text \<open>
  A command block for logical unit 1, which the device does not have: it passes the check
  \<^verbatim>\<open>bCBWLUN > MSC_SUPPORT_MAX_LUN\<close>, and both \<^verbatim>\<open>READ CAPACITY\<close> and \<^verbatim>\<open>READ(10)\<close> then index \<^verbatim>\<open>blk_nbr\<close>, an array of one
  element, at 1.
\<close>

theorem lun1_out_of_bounds:
  assumes "msc_state m = MSC_STATE_MACHINE_IDLE" "dCBWSignature (cbw_struct m) = CBW_DCBWSIGNATURE"
    "1 \<le> bCBWCBLength (cbw_struct m)" "bCBWCBLength (cbw_struct m) \<le> 16" "length (CBWCB (cbw_struct m)) = 16"
    "length (blk_nbr m) = 1"
    "bCBWLUN (cbw_struct m) = 1"
    "CBWCB (cbw_struct m) ! 0 = MSC_CMD_READ_CAPACITY \<or>
      (CBWCB (cbw_struct m) ! 0 = MSC_CMD_READ_10 \<and> bmCBWFlags (cbw_struct m) = 0x80)"
  shows "bot_scsi_dataout_handler fuel dev CBW_CMD_LENGTH m = None"
  using assms
  by (auto simp: bot_scsi_dataout_handler_def bot_cbw_decode_def bot_scsi_cmd_process_def bot_scsi_capacity_def
    update_capacity_def bot_scsi_read10_def rw10_setup_def bot_scsi_check_address_def cdb_lba_def cdb_count_def
    Let_def not_less)

theorem lun1_out_of_bounds_witness:
  "bot_scsi_dataout_handler 3 nor_dev 31 (idle_msc (nor_flash 7) ((cbw10 0x80 0x25 9 8 0 0)\<lparr>bCBWLUN := 1\<rparr>)) = None"
  by (rule lun1_out_of_bounds) (simp_all add: cbw10_def, simp add: idle_msc_def)

text \<open>
  After a bulk-only reset a failing command gets no status. \<^verbatim>\<open>bot_scsi_reset\<close> puts \<^verbatim>\<open>bot_status\<close> to RECOVERY and
  only a configuration of the device or a malformed command block takes it back: an unknown command
  is stalled, but clearing the stalled IN endpoint sends nothing and does not ask for another command
  block, so the host waits for the status of its command.
\<close>

theorem reset_then_failure_no_status:
  assumes "valid_cbw c" "\<not> supported_op (CBWCB c ! 0)"
  shows "\<exists>m1. bot_scsi_dataout_handler fuel dev CBW_CMD_LENGTH ((bot_scsi_reset m)\<lparr>cbw_struct := c\<rparr>) = Some m1 \<and>
    acts m1 = acts (bot_scsi_reset m) @ [SetStall USBD_MSC_BULK_IN_EPT] \<and>
    bot_scsi_clear_feature 0x81 m1 = Some m1"
proof -
  let ?m = "(bot_scsi_reset m)\<lparr>cbw_struct := c\<rparr>"
  have "msc_state ?m = MSC_STATE_MACHINE_IDLE" "bot_status ?m = MSC_BOT_STATE_RECOVERY"
    by (simp_all add: bot_scsi_reset_def recv_cbw_def emit_def Let_def)
  with unsupported_val[of ?m fuel dev] assms show ?thesis
    by (simp add: bot_scsi_stall_def bot_scsi_sense_code_def emit_def bot_scsi_clear_feature_def Let_def)
qed

theorem reset_then_failure_no_status_witness:
  "\<exists>m1. bot_scsi_dataout_handler 3 nor_dev 31
      ((bot_scsi_reset (idle_msc (nor_flash 7) (cbw10 0x80 0x25 9 8 0 0)))\<lparr>cbw_struct := cbw10 0x80 0x35 9 0 0 0\<rparr>) = Some m1 \<and>
    bot_scsi_clear_feature 0x81 m1 = Some m1"
  using reset_then_failure_no_status[of "cbw10 0x80 0x35 9 0 0 0" 3 nor_dev]
  by (fastforce simp: valid_cbw_def cbw10_def supported_op_def)

end
