(* ===== verification/Cdc_Class.thy ===== *)
theory Cdc_Class
  imports Msc_Safe
begin

text \<open>
  The composite class driver \<^verbatim>\<open>usbd_class/composite_cdc_msc/cdc_msc_class.c\<close>: a virtual COM port and the mass storage
  function of \<open>Msc_Bot\<close> behind one set of class callbacks. \<^verbatim>\<open>cdc_msc_struct_type\<close> is the record below with its mass
  storage half in \<open>pmsc\<close>, which also records the requests made to the USB core.

  Handlers that return a status return \<open>USB_OK\<close> in every case in the source, so their value is the new state.
  \<^verbatim>\<open>USB_VIRTUAL_COMPORT\<close> is not defined in this build. What the core writes into \<^verbatim>\<open>g_cmd\<close> and
  \<^verbatim>\<open>g_rx_buff\<close> before it calls a handler is part of the state the handler starts in; the received length is an argument.
\<close>

section \<open>The code\<close>

record linecoding_type =
  bitrate :: u32
  lc_format :: u8
  lc_parity :: u8
  lc_data :: u8

record usb_setup_type =
  bmRequestType :: u8
  bRequest :: u8
  wValue :: u16
  wIndex :: u16
  wLength :: u16

record 'c cdc_msc =
  alt_setting :: u32
  g_rx_buff :: buffer
  g_cmd :: buffer
  g_req :: u8
  g_len :: u16
  g_rxlen :: u16
  g_tx_completed :: u8
  g_rx_completed :: u8
  line_coding :: linecoding_type
  pmsc :: "'c msc"

datatype error_status = ERROR | SUCCESS

abbreviation (input) USBD_CDC_INT_EPT :: u8 where "USBD_CDC_INT_EPT \<equiv> 0x82"
abbreviation (input) USBD_CDC_BULK_IN_EPT :: u8 where "USBD_CDC_BULK_IN_EPT \<equiv> 0x83"
abbreviation (input) USBD_CDC_BULK_OUT_EPT :: u8 where "USBD_CDC_BULK_OUT_EPT \<equiv> 0x02"
abbreviation (input) EPT_BULK_TYPE :: u8 where "EPT_BULK_TYPE \<equiv> 0x02"
abbreviation (input) EPT_INT_TYPE :: u8 where "EPT_INT_TYPE \<equiv> 0x03"
abbreviation (input) CDC_MAXPACKET :: u16 where "CDC_MAXPACKET \<equiv> 0x40"
abbreviation (input) SET_LINE_CODING :: u8 where "SET_LINE_CODING \<equiv> 0x20"
abbreviation (input) GET_LINE_CODING :: u8 where "GET_LINE_CODING \<equiv> 0x21"
abbreviation (input) MSC_REQ_GET_MAX_LUN :: u8 where "MSC_REQ_GET_MAX_LUN \<equiv> 0xFE"
abbreviation (input) MSC_REQ_BO_RESET :: u8 where "MSC_REQ_BO_RESET \<equiv> 0xFF"
abbreviation (input) USB_STD_REQ_CLEAR_FEATURE :: u8 where "USB_STD_REQ_CLEAR_FEATURE \<equiv> 1"
abbreviation (input) USB_STD_REQ_SET_FEATURE :: u8 where "USB_STD_REQ_SET_FEATURE \<equiv> 3"
abbreviation (input) USB_STD_REQ_GET_INTERFACE :: u8 where "USB_STD_REQ_GET_INTERFACE \<equiv> 10"
abbreviation (input) USB_STD_REQ_SET_INTERFACE :: u8 where "USB_STD_REQ_SET_INTERFACE \<equiv> 11"

definition linecoding_init :: linecoding_type where
  "linecoding_init = \<lparr>bitrate = 115200, lc_format = 0, lc_parity = 0, lc_data = 8\<rparr>"

definition act :: "usb_act \<Rightarrow> 'c cdc_msc \<Rightarrow> 'c cdc_msc" where
  "act a c = c\<lparr>pmsc := emit a (pmsc c)\<rparr>"

definition on_msc :: "('c msc \<Rightarrow> 'c msc option) \<Rightarrow> 'c cdc_msc \<Rightarrow> 'c cdc_msc option" where
  "on_msc f c = do { m \<leftarrow> f (pmsc c); Some (c\<lparr>pmsc := m\<rparr>) }"

definition cdc_struct_init :: "'c cdc_msc \<Rightarrow> 'c cdc_msc" where
  "cdc_struct_init c = c\<lparr>g_tx_completed := 1, g_rx_completed := 0, alt_setting := 0, line_coding := linecoding_init\<rparr>"

definition class_init_handler :: "'c cdc_msc \<Rightarrow> 'c cdc_msc" where
  "class_init_handler c =
     (let c = cdc_struct_init c;
          c = act (EptOpen USBD_CDC_INT_EPT EPT_INT_TYPE 0x08) c;
          c = act (EptOpen USBD_CDC_BULK_IN_EPT EPT_BULK_TYPE CDC_MAXPACKET) c;
          c = act (EptOpen USBD_CDC_BULK_OUT_EPT EPT_BULK_TYPE CDC_MAXPACKET) c;
          c = act (EptRecv USBD_CDC_BULK_OUT_EPT RxCdc 0x40) c;
          c = act (EptOpen USBD_MSC_BULK_IN_EPT EPT_BULK_TYPE CDC_MAXPACKET) c;
          c = act (EptOpen USBD_MSC_BULK_OUT_EPT EPT_BULK_TYPE CDC_MAXPACKET) c
      in c\<lparr>pmsc := bot_scsi_init (pmsc c)\<rparr>)"

definition class_clear_handler :: "'c cdc_msc \<Rightarrow> 'c cdc_msc" where
  "class_clear_handler c =
     fold act (map EptClose [USBD_CDC_INT_EPT, USBD_CDC_BULK_IN_EPT, USBD_CDC_BULK_OUT_EPT,
       USBD_MSC_BULK_IN_EPT, USBD_MSC_BULK_OUT_EPT]) c"

text \<open>\<^verbatim>\<open>buff\<close> is \<^verbatim>\<open>g_cmd\<close> in both calls of this function.\<close>

definition usb_vcp_cmd_process :: "u8 \<Rightarrow> 'c cdc_msc \<Rightarrow> 'c cdc_msc option" where
  "usb_vcp_cmd_process cmd c =
     (if cmd = SET_LINE_CODING then do {
        b0 \<leftarrow> rd (g_cmd c) 0; b1 \<leftarrow> rd (g_cmd c) 1; b2 \<leftarrow> rd (g_cmd c) 2; b3 \<leftarrow> rd (g_cmd c) 3;
        b4 \<leftarrow> rd (g_cmd c) 4; b5 \<leftarrow> rd (g_cmd c) 5; b6 \<leftarrow> rd (g_cmd c) 6;
        Some (c\<lparr>line_coding := \<lparr>bitrate = ucast b0 OR push_bit 8 (ucast b1) OR push_bit 16 (ucast b2) OR push_bit 24 (ucast b3),
          lc_format = b4, lc_parity = b5, lc_data = b6\<rparr>\<rparr>)
      }
      else if cmd = GET_LINE_CODING then do {
        let l = line_coding c;
        b \<leftarrow> put_bytes (g_cmd c) 0 [ucast (bitrate l), ucast (drop_bit 8 (bitrate l)), ucast (drop_bit 16 (bitrate l)),
          ucast (drop_bit 24 (bitrate l)), lc_format l, lc_parity l, lc_data l];
        Some (c\<lparr>g_cmd := b\<rparr>)
      }
      else Some c)"

text \<open>\<^verbatim>\<open>usbd_ctrl_send\<close> of the first \<open>len\<close> bytes of an array.\<close>

definition ctrl_send :: "buffer \<Rightarrow> u16 \<Rightarrow> 'c cdc_msc \<Rightarrow> 'c cdc_msc option" where
  "ctrl_send buf len c = do { assert_c (unat len \<le> length buf); Some (act (CtrlSend (take (unat len) buf)) c) }"

definition cdc_class_setup_handler :: "usb_setup_type \<Rightarrow> 'c cdc_msc \<Rightarrow> 'c cdc_msc option" where
  "cdc_class_setup_handler setup c =
     (let t = bmRequestType setup AND 0x60 in
      if t = 0x20 then
        (if wLength setup = 0 then Some c
         else if bmRequestType setup AND 0x80 \<noteq> 0 then do {
           c \<leftarrow> usb_vcp_cmd_process (bRequest setup) c;
           ctrl_send (g_cmd c) (wLength setup) c
         }
         else Some (act (CtrlRecv (wLength setup)) (c\<lparr>g_req := bRequest setup, g_len := wLength setup\<rparr>)))
      else if t = 0x00 then
        (if bRequest setup = USB_STD_REQ_GET_INTERFACE then Some (act (CtrlSend [ucast (alt_setting c)]) c)
         else if bRequest setup = USB_STD_REQ_SET_INTERFACE then Some (c\<lparr>alt_setting := ucast (wValue setup)\<rparr>)
         else if bRequest setup = USB_STD_REQ_CLEAR_FEATURE \<or> bRequest setup = USB_STD_REQ_SET_FEATURE then Some c
         else Some (act CtrlUnsupport c))
      else Some (act CtrlUnsupport c))"

definition msc_class_setup_handler :: "usb_setup_type \<Rightarrow> 'c cdc_msc \<Rightarrow> 'c cdc_msc option" where
  "msc_class_setup_handler setup c =
     (let t = bmRequestType setup AND 0x60 in
      if t = 0x20 then
        (if bRequest setup = MSC_REQ_GET_MAX_LUN then Some (act (CtrlSend [ucast (max_lun (pmsc c))]) c)
         else if bRequest setup = MSC_REQ_BO_RESET then
           Some (act CtrlSendStatus (c\<lparr>pmsc := bot_scsi_reset (pmsc c)\<rparr>))
         else Some (act CtrlUnsupport c))
      else if t = 0x00 then
        (if bRequest setup = USB_STD_REQ_GET_INTERFACE then Some (act (CtrlSend [ucast (alt_setting c)]) c)
         else if bRequest setup = USB_STD_REQ_SET_INTERFACE then Some (c\<lparr>alt_setting := ucast (wValue setup)\<rparr>)
         else if bRequest setup = USB_STD_REQ_CLEAR_FEATURE then
           (let ept = ucast (wIndex setup);
                c = act (EptClose ept) c;
                c = (if wIndex setup AND 0x80 = 0x80
                     then act (EptOpen ept EPT_BULK_TYPE CDC_MAXPACKET) (act (FlushTx (ucast (wIndex setup AND 0x7F))) c)
                     else act (EptOpen ept EPT_BULK_TYPE CDC_MAXPACKET) c)
            in on_msc (bot_scsi_clear_feature ept) c)
         else if bRequest setup = USB_STD_REQ_SET_FEATURE then Some c
         else Some (act CtrlUnsupport c))
      else Some (act CtrlUnsupport c))"

definition class_setup_handler :: "usb_setup_type \<Rightarrow> 'c cdc_msc \<Rightarrow> 'c cdc_msc option" where
  "class_setup_handler setup c =
     (let r = bmRequestType setup AND 0x1F in
      if r = 0x01 then
        (if wIndex setup = 0x00 then msc_class_setup_handler setup c else cdc_class_setup_handler setup c)
      else if r = 0x02 then
        (if wIndex setup = ucast (USBD_MSC_BULK_IN_EPT OR USBD_MSC_BULK_OUT_EPT)
         then msc_class_setup_handler setup c else cdc_class_setup_handler setup c)
      else Some c)"

definition class_ept0_tx_handler :: "'c cdc_msc \<Rightarrow> 'c cdc_msc" where
  "class_ept0_tx_handler c = c"

definition class_ept0_rx_handler :: "'c cdc_msc \<Rightarrow> 'c cdc_msc option" where
  "class_ept0_rx_handler c = (if g_req c = SET_LINE_CODING then usb_vcp_cmd_process (g_req c) c else Some c)"

definition class_in_handler :: "nat \<Rightarrow> 'c spi_dev \<Rightarrow> u8 \<Rightarrow> 'c cdc_msc \<Rightarrow> 'c cdc_msc option" where
  "class_in_handler fuel dev ept_num c = do {
     let c = act (FlushTx ept_num) c;
     let c = (if ept_num AND 0x7F = USBD_CDC_BULK_IN_EPT AND 0x7F then c\<lparr>g_tx_completed := 1\<rparr> else c);
     if ept_num AND 0x7F = USBD_MSC_BULK_IN_EPT AND 0x7F
     then on_msc (bot_scsi_datain_handler fuel dev) c else Some c
   }"

definition class_out_handler :: "nat \<Rightarrow> 'c spi_dev \<Rightarrow> u8 \<Rightarrow> u32 \<Rightarrow> 'c cdc_msc \<Rightarrow> 'c cdc_msc option" where
  "class_out_handler fuel dev ept_num recv_len c = do {
     let c = (if ept_num AND 0x7F = USBD_CDC_BULK_OUT_EPT AND 0x7F
              then c\<lparr>g_rxlen := ucast recv_len, g_rx_completed := 1\<rparr> else c);
     if ept_num AND 0x7F = USBD_MSC_BULK_OUT_EPT AND 0x7F
     then on_msc (bot_scsi_dataout_handler fuel dev recv_len) c else Some c
   }"

definition class_sof_handler :: "'c cdc_msc \<Rightarrow> 'c cdc_msc" where
  "class_sof_handler c = c"

definition class_event_handler :: "u8 \<Rightarrow> 'c cdc_msc \<Rightarrow> 'c cdc_msc" where
  "class_event_handler event c = c"

text \<open>The copy loop: \<^verbatim>\<open>recv_data[i] = g_rx_buff[i]\<close> for \<open>i < g_rxlen\<close>.\<close>

definition usb_vcp_get_rxdata :: "buffer \<Rightarrow> 'c cdc_msc \<Rightarrow> (u16 \<times> buffer \<times> 'c cdc_msc) option" where
  "usb_vcp_get_rxdata dst c =
     (if g_rx_completed c = 0 then Some (0, dst, c)
      else do {
        let c = c\<lparr>g_rx_completed := 0\<rparr>;
        d \<leftarrow> for_range 0 (unat (g_rxlen c)) (\<lambda>i d. do { x \<leftarrow> rd (g_rx_buff c) i; wr d i x }) dst;
        Some (g_rxlen c, d, act (EptRecv USBD_CDC_BULK_OUT_EPT RxCdc 0x40) c)
      })"

definition usb_vcp_send_data :: "buffer \<Rightarrow> u16 \<Rightarrow> 'c cdc_msc \<Rightarrow> (error_status \<times> 'c cdc_msc) option" where
  "usb_vcp_send_data send_data len c =
     (if g_tx_completed c \<noteq> 0 then do {
        assert_c (unat len \<le> length send_data);
        Some (SUCCESS, act (EptSend USBD_CDC_BULK_IN_EPT (take (unat len) send_data)) (c\<lparr>g_tx_completed := 0\<rparr>))
      }
      else Some (ERROR, c))"

section \<open>Line coding\<close>

lemma vcp_set_val:
  assumes "g_cmd c = [b0, b1, b2, b3, b4, b5, b6, x]"
  shows "usb_vcp_cmd_process SET_LINE_CODING c =
    Some (c\<lparr>line_coding := \<lparr>bitrate = le32_of b0 b1 b2 b3, lc_format = b4, lc_parity = b5, lc_data = b6\<rparr>\<rparr>)"
  using assms by (simp add: usb_vcp_cmd_process_def le32_of_def)

lemma vcp_get_val:
  assumes "length (g_cmd c) = 8" "line_coding c = \<lparr>bitrate = le32_of b0 b1 b2 b3, lc_format = b4, lc_parity = b5, lc_data = b6\<rparr>"
  shows "\<exists>y. usb_vcp_cmd_process GET_LINE_CODING c = Some (c\<lparr>g_cmd := [b0, b1, b2, b3, b4, b5, b6, y]\<rparr>)"
proof -
  obtain a0 a1 a2 a3 a4 a5 a6 y where "g_cmd c = [a0, a1, a2, a3, a4, a5, a6, y]"
    using assms(1) by (auto simp: length_Suc_conv eval_nat_numeral)
  then have "put_bytes (g_cmd c) 0 [b0, b1, b2, b3, b4, b5, b6] = Some [b0, b1, b2, b3, b4, b5, b6, y]" by simp
  then show ?thesis using assms(2) by (auto simp: usb_vcp_cmd_process_def byte_code Let_def simp del: put_bytes.simps)
qed

text \<open>
  Line coding round trip over the control endpoint: the host sends \<^verbatim>\<open>SET_LINE_CODING\<close> to the CDC interface with seven
  data bytes and later asks with \<^verbatim>\<open>GET_LINE_CODING\<close>. The device accepts the data stage, decodes rate, format, parity and data bits
  from them, and returns exactly the seven bytes. The mass storage half only sees the two requests to the
  core pass.
\<close>

theorem line_coding_roundtrip:
  assumes "length bs = 7"
  shows "\<exists>c1 c2 c3. class_setup_handler \<lparr>bmRequestType = 0x21, bRequest = SET_LINE_CODING, wValue = 0, wIndex = 1, wLength = 7\<rparr> c = Some c1 \<and>
    class_ept0_rx_handler (c1\<lparr>g_cmd := bs @ [pad]\<rparr>) = Some c2 \<and>
    line_coding c2 = \<lparr>bitrate = le32_of (bs ! 0) (bs ! 1) (bs ! 2) (bs ! 3), lc_format = bs ! 4, lc_parity = bs ! 5, lc_data = bs ! 6\<rparr> \<and>
    class_setup_handler \<lparr>bmRequestType = 0xA1, bRequest = GET_LINE_CODING, wValue = 0, wIndex = 1, wLength = 7\<rparr> c2 = Some c3 \<and>
    pmsc c3 = (pmsc c)\<lparr>acts := acts (pmsc c) @ [CtrlRecv 7, CtrlSend bs]\<rparr>"
proof -
  obtain b0 b1 b2 b3 b4 b5 b6 where bs: "bs = [b0, b1, b2, b3, b4, b5, b6]"
    using assms by (auto simp: length_Suc_conv eval_nat_numeral)
  let ?c1 = "act (CtrlRecv 7) (c\<lparr>g_req := SET_LINE_CODING, g_len := 7\<rparr>)"
  let ?l = "\<lparr>bitrate = le32_of b0 b1 b2 b3, lc_format = b4, lc_parity = b5, lc_data = b6\<rparr>"
  let ?c2 = "?c1\<lparr>g_cmd := bs @ [pad], line_coding := ?l\<rparr>"
  have 1: "class_setup_handler \<lparr>bmRequestType = 0x21, bRequest = SET_LINE_CODING, wValue = 0, wIndex = 1, wLength = 7\<rparr> c = Some ?c1"
    by (simp add: class_setup_handler_def cdc_class_setup_handler_def Let_def)
  have 2: "class_ept0_rx_handler (?c1\<lparr>g_cmd := bs @ [pad]\<rparr>) = Some ?c2"
    by (simp add: class_ept0_rx_handler_def act_def vcp_set_val[where x = pad] bs)
  obtain y where "usb_vcp_cmd_process GET_LINE_CODING ?c2 = Some (?c2\<lparr>g_cmd := [b0, b1, b2, b3, b4, b5, b6, y]\<rparr>)"
    using vcp_get_val[of ?c2 b0 b1 b2 b3 b4 b5 b6] by (auto simp: bs)
  then have 3: "class_setup_handler \<lparr>bmRequestType = 0xA1, bRequest = GET_LINE_CODING, wValue = 0, wIndex = 1, wLength = 7\<rparr> ?c2 =
      Some (act (CtrlSend bs) (?c2\<lparr>g_cmd := [b0, b1, b2, b3, b4, b5, b6, y]\<rparr>))"
    by (simp add: class_setup_handler_def cdc_class_setup_handler_def ctrl_send_def bs Let_def)
  from 1 2 3 show ?thesis by (auto simp: bs act_def emit_def)
qed

theorem line_coding_roundtrip_witness:
  "\<exists>c1 c2 c3. class_setup_handler \<lparr>bmRequestType = 0x21, bRequest = 0x20, wValue = 0, wIndex = 1, wLength = 7\<rparr>
      \<lparr>alt_setting = 0, g_rx_buff = replicate 64 0, g_cmd = replicate 8 0, g_req = 0, g_len = 0, g_rxlen = 0, g_tx_completed = 1,
       g_rx_completed = 0, line_coding = linecoding_init, pmsc = idle_msc (nor_flash 7) (cbw10 0 0 0 0 0 0)\<rparr> = Some c1 \<and>
    class_ept0_rx_handler (c1\<lparr>g_cmd := [0x80, 0x25, 0, 0, 0, 0, 8, 0]\<rparr>) = Some c2 \<and> bitrate (line_coding c2) = 9600 \<and>
    class_setup_handler \<lparr>bmRequestType = 0xA1, bRequest = 0x21, wValue = 0, wIndex = 1, wLength = 7\<rparr> c2 = Some c3 \<and>
    acts (pmsc c3) = [CtrlRecv 7, CtrlSend [0x80, 0x25, 0, 0, 0, 0, 8]]"
proof -
  have "le32_of 0x80 0x25 0 0 = 9600" by (simp add: le32_of_def)
  with line_coding_roundtrip[of "[0x80, 0x25, 0, 0, 0, 0, 8]"
      "\<lparr>alt_setting = 0, g_rx_buff = replicate 64 0, g_cmd = replicate 8 0, g_req = 0, g_len = 0, g_rxlen = 0, g_tx_completed = 1,
       g_rx_completed = 0, line_coding = linecoding_init, pmsc = idle_msc (nor_flash 7) (cbw10 0 0 0 0 0 0)\<rparr>" 0]
  show ?thesis by fastforce
qed

section \<open>The virtual COM port\<close>

lemma copy_up_val:
  assumes "n \<le> length src" "n \<le> length dst"
  shows "for_range 0 n (\<lambda>i d. do { x \<leftarrow> rd src i; wr d i x }) dst = Some (take n src @ drop n dst)"
  using assms
proof (induction n)
  case (Suc n)
  then have "(take n src @ drop n dst)[n := src ! n] = take n src @ src ! n # drop (Suc n) dst"
    by (simp add: list_update_append Cons_nth_drop_Suc[symmetric] del: Cons_nth_drop_Suc)
  with Suc show ?case by (simp add: for_range_Suc take_Suc_conv_app_nth del: for_range.simps)
qed simp

text \<open>
  Reception on the virtual COM port. A packet of at most 64 bytes that the core has put into \<^verbatim>\<open>g_rx_buff\<close> is handed
  to the application exactly once and unchanged, the rest of the application's buffer is left alone, the endpoint is
  armed again only then, and the next call returns 0 until another packet arrives.
\<close>

theorem vcp_receive_once:
  assumes "length (g_rx_buff c) = 64" "unat n \<le> 64" "unat n \<le> length dst"
  shows "\<exists>c1 c2. class_out_handler fuel dev USBD_CDC_BULK_OUT_EPT n c = Some c1 \<and> pmsc c1 = pmsc c \<and>
    usb_vcp_get_rxdata dst c1 = Some (ucast n, take (unat n) (g_rx_buff c) @ drop (unat n) dst, c2) \<and>
    pmsc c2 = emit (EptRecv USBD_CDC_BULK_OUT_EPT RxCdc 0x40) (pmsc c) \<and>
    usb_vcp_get_rxdata dst' c2 = Some (0, dst', c2)"
proof -
  let ?c1 = "c\<lparr>g_rxlen := ucast n, g_rx_completed := 1\<rparr>"
  let ?c2 = "act (EptRecv USBD_CDC_BULK_OUT_EPT RxCdc 0x40) (?c1\<lparr>g_rx_completed := 0\<rparr>)"
  have n: "unat (ucast n :: u16) = unat n" using assms(2) by (simp add: unsigned_ucast_eq take_bit_eq_mod)
  have "class_out_handler fuel dev USBD_CDC_BULK_OUT_EPT n c = Some ?c1" by (simp add: class_out_handler_def Let_def)
  moreover have "usb_vcp_get_rxdata dst ?c1 = Some (ucast n, take (unat n) (g_rx_buff c) @ drop (unat n) dst, ?c2)"
    using copy_up_val[of "unat n" "g_rx_buff c" dst] assms n by (simp add: usb_vcp_get_rxdata_def)
  moreover have "usb_vcp_get_rxdata dst' ?c2 = Some (0, dst', ?c2)" by (simp add: usb_vcp_get_rxdata_def act_def)
  ultimately show ?thesis by (intro exI[of _ ?c1] exI[of _ ?c2]) (simp add: act_def)
qed

definition sample_cdc :: "nor_chip cdc_msc" where
  "sample_cdc = \<lparr>alt_setting = 0, g_rx_buff = replicate 64 7, g_cmd = replicate 8 0, g_req = 0, g_len = 0, g_rxlen = 0,
     g_tx_completed = 1, g_rx_completed = 0, line_coding = linecoding_init, pmsc = idle_msc (nor_flash 7) (cbw10 0 0 0 0 0 0)\<rparr>"

theorem vcp_receive_once_witness:
  "\<exists>c1 c2. class_out_handler 3 nor_dev 0x02 3 sample_cdc = Some c1 \<and>
    usb_vcp_get_rxdata [0, 0, 0, 0] c1 = Some (3, [7, 7, 7, 0], c2) \<and> usb_vcp_get_rxdata [0] c2 = Some (0, [0], c2)"
proof -
  have "length (g_rx_buff sample_cdc) = 64" "take 3 (g_rx_buff sample_cdc) = [7, 7, 7]"
    by (simp_all add: sample_cdc_def eval_nat_numeral)
  with vcp_receive_once[of sample_cdc 3 "[0, 0, 0, 0]" 3 nor_dev "[0]"] show ?thesis by fastforce
qed

text \<open>
  Flow control of the virtual COM port: while a packet is on its way, \<^verbatim>\<open>usb_vcp_send_data\<close> refuses further data with
  ERROR and changes nothing; once the core reports the transfer as complete, the next packet is accepted. Data is
  handed to the core exactly once per accepted call, and the mass storage state is not touched.
\<close>

theorem vcp_send_flow_control:
  assumes "g_tx_completed c \<noteq> 0" "unat n \<le> length d" "unat m \<le> length e"
  shows "\<exists>c1 c2 c3. usb_vcp_send_data d n c = Some (SUCCESS, c1) \<and>
    usb_vcp_send_data e m c1 = Some (ERROR, c1) \<and>
    class_in_handler fuel dev 0x03 c1 = Some c2 \<and> usb_vcp_send_data e m c2 = Some (SUCCESS, c3) \<and>
    pmsc c3 = (pmsc c)\<lparr>acts := acts (pmsc c) @ [EptSend USBD_CDC_BULK_IN_EPT (take (unat n) d), FlushTx 0x03,
      EptSend USBD_CDC_BULK_IN_EPT (take (unat m) e)]\<rparr>"
  using assms by (simp add: usb_vcp_send_data_def class_in_handler_def act_def emit_def Let_def)

theorem vcp_send_flow_control_witness:
  "\<exists>c1. usb_vcp_send_data [1, 2, 3] 3 sample_cdc = Some (SUCCESS, c1) \<and> usb_vcp_send_data [4] 1 c1 = Some (ERROR, c1)"
  using vcp_send_flow_control[of sample_cdc 3 "[1, 2, 3]" 1 "[4]"] by (fastforce simp: sample_cdc_def)

text \<open>
  A class request that asks the CDC interface for more than eight bytes makes the device read beyond \<^verbatim>\<open>g_cmd\<close>:
  \<^verbatim>\<open>wLength\<close> comes from the host and is passed on unchecked. Every request for at most eight bytes is answered.
\<close>

theorem cdc_request_length:
  assumes "length (g_cmd c) = 8" "bmRequestType setup = 0xA1" "wIndex setup \<noteq> 0" "wLength setup \<noteq> 0"
  shows "(\<exists>c'. class_setup_handler setup c = Some c') \<longleftrightarrow> unat (wLength setup) \<le> 8"
proof -
  have "\<exists>c1. usb_vcp_cmd_process (bRequest setup) c = Some c1 \<and> length (g_cmd c1) = 8"
    using assms(1) put_bytes_val[of 0 "[p0, p1, p2, p3, p4, p5, p6]" "g_cmd c" for p0 p1 p2 p3 p4 p5 p6]
    by (simp add: usb_vcp_cmd_process_def Let_def del: put_bytes.simps)
  then obtain c1 where "usb_vcp_cmd_process (bRequest setup) c = Some c1" "length (g_cmd c1) = 8" by blast
  with assms show ?thesis
    by (simp add: class_setup_handler_def cdc_class_setup_handler_def ctrl_send_def assert_c_def Let_def)
qed

theorem cdc_request_length_witness:
  "class_setup_handler \<lparr>bmRequestType = 0xA1, bRequest = 0x21, wValue = 0, wIndex = 1, wLength = 9\<rparr> sample_cdc = None \<and>
   (\<exists>c'. class_setup_handler \<lparr>bmRequestType = 0xA1, bRequest = 0x21, wValue = 0, wIndex = 1, wLength = 7\<rparr> sample_cdc = Some c')"
  using cdc_request_length[of sample_cdc "\<lparr>bmRequestType = 0xA1, bRequest = 0x21, wValue = 0, wIndex = 1, wLength = 9\<rparr>"]
    cdc_request_length[of sample_cdc "\<lparr>bmRequestType = 0xA1, bRequest = 0x21, wValue = 0, wIndex = 1, wLength = 7\<rparr>"]
  by (auto simp: sample_cdc_def)

end
