(* ===== verification/Cdc_Desc.thy ===== *)
theory Cdc_Desc
  imports Cdc_Class
begin

text \<open>
  The descriptors of the composite device, \<^verbatim>\<open>usbd_class/composite_cdc_msc/cdc_msc_desc.c\<close>: the constant tables, the
  conversion of strings and of the chip's serial number to string descriptors, and the callbacks of
  \<^verbatim>\<open>cdc_msc_desc_handler\<close>. A C string is the list of its bytes with the closing NUL. The three identification
  words of the chip are an argument. A returned \<^verbatim>\<open>usbd_desc_t\<close> is its length and the array it points to.
\<close>

section \<open>The code\<close>

definition g_usbd_descriptor :: buffer where
  "g_usbd_descriptor = [0x12, 1, 0x00, 0x02, 0xEF, 0x02, 0x01, 64, 0x3C, 0x2E, 0x60, 0x57, 0x00, 0x02, 1, 2, 3, 1]"

definition g_usbd_configuration :: buffer where
  "g_usbd_configuration =
     [0x09, 2, 106, 0, 0x03, 0x01, 0x00, 0xC0, 0x32,
      0x08, 0x0B, 0x00, 0x01, 0x08, 0x06, 0x50, 0x00,
      0x09, 4, 0x00, 0x00, 0x02, 0x08, 0x06, 0x50, 0x00,
      0x07, 5, 0x81, 0x02, 0x40, 0x00, 0x00,
      0x07, 5, 0x01, 0x02, 0x40, 0x00, 0x00,
      0x08, 0x0B, 0x01, 0x02, 0x02, 0x02, 0x01, 0x00,
      0x09, 4, 0x01, 0x00, 0x01, 0x02, 0x02, 0x01, 0x00,
      0x05, 0x24, 0x00, 0x10, 0x01,
      0x05, 0x24, 0x01, 0x00, 0x01,
      0x04, 0x24, 0x02, 0x02,
      0x05, 0x24, 0x06, 0x01, 0x02,
      0x07, 5, 0x82, 0x03, 0x08, 0x00, 0xFF,
      0x09, 4, 0x02, 0x00, 0x02, 0x0A, 0x00, 0x00, 0x00,
      0x07, 5, 0x83, 0x02, 0x40, 0x00, 0x00,
      0x07, 5, 0x02, 0x02, 0x40, 0x00, 0x00]"

definition g_string_lang_id :: buffer where
  "g_string_lang_id = [4, 3, 0x09, 0x04]"

record desc_state =
  g_usbd_desc_buffer :: buffer
  g_string_serial :: buffer

definition desc_state_init :: desc_state where
  "desc_state_init = \<lparr>g_usbd_desc_buffer = replicate 256 0, g_string_serial = [0x1A, 3] @ replicate 24 0\<rparr>"

text \<open>The loop of \<^verbatim>\<open>usbd_unicode_convert\<close>: \<open>str_len\<close>, \<open>id_pos\<close> and the buffer, up to the NUL.\<close>

fun unicode_loop :: "buffer \<Rightarrow> u16 \<Rightarrow> u16 \<Rightarrow> buffer \<Rightarrow> (u16 \<times> buffer) option" where
  "unicode_loop [] str_len id_pos buf = None"
| "unicode_loop (ch # rest) str_len id_pos buf =
     (if ch = 0 then Some (str_len, buf)
      else do {
        buf \<leftarrow> wr buf (unat id_pos) ch;
        buf \<leftarrow> wr buf (unat (id_pos + 1)) 0x00;
        unicode_loop rest (str_len + 1) (id_pos + 2) buf
      })"

definition usbd_unicode_convert :: "buffer \<Rightarrow> buffer \<Rightarrow> (u16 \<times> buffer) option" where
  "usbd_unicode_convert str unicode_buf = do {
     (n, buf) \<leftarrow> unicode_loop str 0 2 unicode_buf;
     let str_len = n * 2 + 2;
     buf \<leftarrow> wr buf 0 (ucast str_len);
     buf \<leftarrow> wr buf 1 3;
     Some (str_len, buf)
   }"

text \<open>\<open>pos\<close> is the offset of \<^verbatim>\<open>pbuf\<close> in its array.\<close>

definition hex_char :: "u32 \<Rightarrow> u8" where
  "hex_char d = (if d < 0xA then ucast (d + 0x30) else ucast (d + 0x41 - 10))"

definition usbd_int_to_unicode :: "u32 \<Rightarrow> buffer \<Rightarrow> nat \<Rightarrow> u8 \<Rightarrow> buffer option" where
  "usbd_int_to_unicode val pbuf pos len = do {
     (_, b) \<leftarrow> for_range 0 (unat len) (\<lambda>idx (v, b). do {
       b \<leftarrow> wr b (pos + 2 * idx) (hex_char (drop_bit 28 v));
       b \<leftarrow> wr b (pos + 2 * idx + 1) 0;
       Some (push_bit 4 v, b)
     }) (val, pbuf);
     Some b
   }"

definition get_serial_num :: "u32 \<Rightarrow> u32 \<Rightarrow> u32 \<Rightarrow> desc_state \<Rightarrow> desc_state option" where
  "get_serial_num id1 id2 id3 s = do {
     let serial0 = id1 + id3;
     if serial0 \<noteq> 0 then do {
       b \<leftarrow> usbd_int_to_unicode serial0 (g_string_serial s) 2 8;
       b \<leftarrow> usbd_int_to_unicode id2 b 18 4;
       Some (s\<lparr>g_string_serial := b\<rparr>)
     }
     else Some s
   }"

definition get_device_descriptor :: "u16 \<times> buffer" where
  "get_device_descriptor = (0x12, g_usbd_descriptor)"

definition get_device_configuration :: "u16 \<times> buffer" where
  "get_device_configuration = (106, g_usbd_configuration)"

definition get_device_lang_id :: "u16 \<times> buffer" where
  "get_device_lang_id = (4, g_string_lang_id)"

definition c_string :: "string \<Rightarrow> buffer" where
  "c_string s = map (\<lambda>c. word_of_nat (of_char c)) s @ [0]"

text \<open>The callbacks that fill \<^verbatim>\<open>g_usbd_desc_buffer\<close> share this body.\<close>

definition get_string :: "string \<Rightarrow> desc_state \<Rightarrow> (u16 \<times> desc_state) option" where
  "get_string str s = do {
     (n, b) \<leftarrow> usbd_unicode_convert (c_string str) (g_usbd_desc_buffer s);
     Some (n, s\<lparr>g_usbd_desc_buffer := b\<rparr>)
   }"

definition get_device_manufacturer_string :: "desc_state \<Rightarrow> (u16 \<times> desc_state) option" where
  "get_device_manufacturer_string = get_string ''Artery''"

definition get_device_product_string :: "desc_state \<Rightarrow> (u16 \<times> desc_state) option" where
  "get_device_product_string = get_string ''AT32 Composite VCP and MSC  ''"

definition get_device_interface_string :: "desc_state \<Rightarrow> (u16 \<times> desc_state) option" where
  "get_device_interface_string = get_string ''Composite VCP and MSC Interface''"

definition get_device_config_string :: "desc_state \<Rightarrow> (u16 \<times> desc_state) option" where
  "get_device_config_string = get_string ''Composite VCP and MSC Config''"

definition get_device_serial_string :: "u32 \<Rightarrow> u32 \<Rightarrow> u32 \<Rightarrow> desc_state \<Rightarrow> (u16 \<times> desc_state) option" where
  "get_device_serial_string id1 id2 id3 s = do { s \<leftarrow> get_serial_num id1 id2 id3 s; Some (0x1A, s) }"

section \<open>The configuration descriptor\<close>

text \<open>Cutting a descriptor set by its length bytes, as a host does; \<open>None\<close> for a length that is too short or too long.\<close>

fun cut_descs :: "nat \<Rightarrow> buffer \<Rightarrow> buffer list option" where
  "cut_descs n [] = Some []"
| "cut_descs 0 (b # bs) = None"
| "cut_descs (Suc n) (b # bs) =
     (if 2 \<le> unat b \<and> unat b \<le> Suc (length bs)
      then do { ds \<leftarrow> cut_descs n (drop (unat b) (b # bs)); Some (take (unat b) (b # bs) # ds) } else None)"

definition desc_type :: "u8 \<Rightarrow> buffer \<Rightarrow> bool" where "desc_type t d \<longleftrightarrow> d ! 1 = t"

text \<open>The endpoint a descriptor announces, as a request to open it.\<close>

definition announced :: "buffer \<Rightarrow> usb_act" where
  "announced d = EptOpen (d ! 2) (d ! 3) (ucast (d ! 4) OR push_bit 8 (ucast (d ! 5)))"

definition is_open :: "usb_act \<Rightarrow> bool" where
  "is_open a \<longleftrightarrow> (case a of EptOpen _ _ _ \<Rightarrow> True | _ \<Rightarrow> False)"

definition config_descs :: "buffer list" where
  "config_descs =
     [[0x09, 2, 106, 0, 0x03, 0x01, 0x00, 0xC0, 0x32], [0x08, 0x0B, 0x00, 0x01, 0x08, 0x06, 0x50, 0x00],
      [0x09, 4, 0x00, 0x00, 0x02, 0x08, 0x06, 0x50, 0x00], [0x07, 5, 0x81, 0x02, 0x40, 0x00, 0x00], [0x07, 5, 0x01, 0x02, 0x40, 0x00, 0x00],
      [0x08, 0x0B, 0x01, 0x02, 0x02, 0x02, 0x01, 0x00], [0x09, 4, 0x01, 0x00, 0x01, 0x02, 0x02, 0x01, 0x00],
      [0x05, 0x24, 0x00, 0x10, 0x01], [0x05, 0x24, 0x01, 0x00, 0x01], [0x04, 0x24, 0x02, 0x02], [0x05, 0x24, 0x06, 0x01, 0x02],
      [0x07, 5, 0x82, 0x03, 0x08, 0x00, 0xFF], [0x09, 4, 0x02, 0x00, 0x02, 0x0A, 0x00, 0x00, 0x00],
      [0x07, 5, 0x83, 0x02, 0x40, 0x00, 0x00], [0x07, 5, 0x02, 0x02, 0x40, 0x00, 0x00]]"

lemma config_cut: "cut_descs 15 g_usbd_configuration = Some config_descs"
  by code_simp

lemma config_fields:
  "length config_descs = 15" "length g_usbd_configuration = 106" "take 2 (drop 2 g_usbd_configuration) = [106, 0]"
  "g_usbd_configuration ! 4 = 3"
  by code_simp+

lemma config_interfaces:
  "filter (desc_type 4) config_descs = [[0x09, 4, 0x00, 0x00, 0x02, 0x08, 0x06, 0x50, 0x00],
     [0x09, 4, 0x01, 0x00, 0x01, 0x02, 0x02, 0x01, 0x00], [0x09, 4, 0x02, 0x00, 0x02, 0x0A, 0x00, 0x00, 0x00]]"
  by code_simp

lemma config_endpoints:
  "map announced (filter (desc_type 5) config_descs) =
     [EptOpen 0x81 2 0x40, EptOpen 0x01 2 0x40, EptOpen 0x82 3 8, EptOpen 0x83 2 0x40, EptOpen 0x02 2 0x40]"
  by code_simp


section \<open>String descriptors\<close>

definition utf16 :: "buffer \<Rightarrow> buffer" where
  "utf16 s = concat (map (\<lambda>c. [c, 0]) s)"

lemma utf16_length [simp]: "length (utf16 s) = 2 * length s"
  by (induction s) (simp_all add: utf16_def)

lemma write_pair:
  assumes "i + 2 \<le> length buf"
  shows "buf[i := x, Suc i := y] = take i buf @ x # y # drop (i + 2) buf"
  by (rule nth_equalityI) (use assms in \<open>auto simp: nth_list_update nth_append nth_Cons' intro!: arg_cong[where f = "nth buf"]\<close>)

lemma unicode_loop_val:
  assumes "0 \<notin> set s" "unat p + 2 * length s \<le> length buf" "length buf \<le> 256"
  shows "unicode_loop (s @ [0]) n p buf =
    Some (n + of_nat (length s), take (unat p) buf @ utf16 s @ drop (unat p + 2 * length s) buf)"
  using assms
proof (induction s arbitrary: n p buf)
  case Nil
  then show ?case by (simp add: utf16_def)
next
  case (Cons ch s)
  have p1: "unat (p + 1) = Suc (unat p)" and p2: "unat (p + 2) = unat p + 2"
    using Cons.prems by (simp_all add: unat_word_ariths)
  let ?buf = "buf[unat p := ch, Suc (unat p) := 0]"
  have w: "?buf = take (unat p) buf @ ch # 0 # drop (unat p + 2) buf" using Cons.prems by (intro write_pair) simp
  have "unicode_loop (s @ [0]) (n + 1) (p + 2) ?buf =
      Some (n + 1 + of_nat (length s), take (unat p + 2) ?buf @ utf16 s @ drop (unat p + 2 + 2 * length s) ?buf)"
    using Cons.IH[of "p + 2" ?buf "n + 1"] Cons.prems p2 by simp
  moreover have "take (unat p + 2) ?buf = take (unat p) buf @ [ch, 0]"
    "drop (unat p + 2 + 2 * length s) ?buf = drop (unat p + 2 * Suc (length s)) buf"
    using Cons.prems by (simp_all add: w ac_simps)
  ultimately show ?case using Cons.prems p1 by (simp add: utf16_def)
qed

text \<open>
  String descriptors: for a string of at most 126 characters the conversion writes the length, the string type 3 and the
  characters as two-byte code units into the front of the 256-byte buffer, leaves the rest alone, and returns the
  length; no write is outside the buffer.
\<close>

theorem unicode_convert_descriptor:
  assumes "0 \<notin> set s" "length s \<le> 126" "length buf = 256"
  shows "usbd_unicode_convert (s @ [0]) buf = Some (of_nat (2 * length s + 2),
    [of_nat (2 * length s + 2), 3] @ utf16 s @ drop (2 * length s + 2) buf)"
proof -
  have "unicode_loop (s @ [0]) 0 2 buf = Some (of_nat (length s), take 2 buf @ utf16 s @ drop (2 + 2 * length s) buf)"
    using unicode_loop_val[of s 2 buf 0] assms by simp
  moreover obtain b0 b1 where "take 2 buf = [b0, b1]"
    using assms(3) by (cases buf; cases "tl buf") auto
  moreover have "ucast (of_nat (length s) * 2 + 2 :: u16) = (of_nat (2 * length s + 2) :: u8)"
    using assms(2) by (simp add: word_unat_eq_iff unsigned_ucast_eq take_bit_eq_mod unat_word_ariths unat_of_nat mult.commute)
  ultimately show ?thesis
    by (simp add: usbd_unicode_convert_def Let_def mult.commute add.commute)
qed

theorem unicode_convert_descriptor_witness:
  "usbd_unicode_convert ([0x41, 0x42] @ [0]) (replicate 256 9) = Some (6, [6, 3, 0x41, 0, 0x42, 0] @ drop 6 (replicate 256 9))"
  using unicode_convert_descriptor[of "[0x41, 0x42]" "replicate 256 9"] by (simp add: utf16_def)

section \<open>The serial number\<close>

text \<open>Digit \<open>i\<close> of a word, most significant first, and the value of a digit character.\<close>

definition nibble :: "u32 \<Rightarrow> nat \<Rightarrow> u32" where
  "nibble v i = drop_bit 28 (push_bit (4 * i) v)"

definition hex_val :: "u8 \<Rightarrow> nat" where
  "hex_val c = (if unat c < 0x41 then unat c - 0x30 else unat c - 0x41 + 10)"

definition hex_read :: "buffer \<Rightarrow> nat" where
  "hex_read = foldl (\<lambda>a c. 16 * a + hex_val c) 0"

definition hex_digits :: "u32 \<Rightarrow> nat \<Rightarrow> buffer" where
  "hex_digits v n = map (\<lambda>i. hex_char (nibble v i)) [0..<n]"

lemma hex_val_char:
  assumes "unat d < 16"
  shows "hex_val (hex_char d) = unat d"
  using assms by (auto simp: hex_val_def hex_char_def word_less_nat_alt unsigned_ucast_eq take_bit_eq_mod unat_word_ariths
    unat_sub word_le_nat_alt)

lemma unat_nibble:
  assumes "i < 8"
  shows "unat (nibble v i) = (unat v div 2 ^ (28 - 4 * i)) mod 16"
proof -
  have "drop_bit 28 (take_bit 32 (push_bit (4 * i) (unat v))) = take_bit 4 (drop_bit (28 - 4 * i) (unat v))"
    by (rule bit_eqI) (use assms in \<open>auto simp: bit_simps ac_simps\<close>)
  then show ?thesis
    by (simp add: nibble_def unat_div unsigned_push_bit_eq drop_bit_eq_div take_bit_eq_mod)
qed

lemma hex_read_digits:
  assumes "n \<le> 8"
  shows "hex_read (hex_digits v n) = unat v div 2 ^ (32 - 4 * n)"
  using assms
proof (induction n)
  case 0
  have "unat v < 2 ^ 32" using unsigned_less[of v] by simp
  then show ?case by (simp add: hex_read_def hex_digits_def)
next
  case (Suc n)
  have "hex_read (hex_digits v (Suc n)) = 16 * hex_read (hex_digits v n) + unat (nibble v n)"
    using Suc.prems unat_nibble[of n v] by (simp add: hex_read_def hex_digits_def hex_val_char)
  also have "\<dots> = 16 * (unat v div 2 ^ (28 - 4 * n) div 16) + (unat v div 2 ^ (28 - 4 * n)) mod 16"
  proof -
    have "(2 :: nat) ^ (32 - 4 * n) = 2 ^ (28 - 4 * n) * 16"
      using Suc.prems power_add[of "2 :: nat" "28 - 4 * n" 4] by simp
    then show ?thesis using Suc unat_nibble[of n v] by (simp add: div_mult2_eq)
  qed
  finally show ?case using Suc.prems by simp
qed

lemma int_to_unicode_val:
  assumes "pos + 2 * unat len \<le> length buf"
  shows "usbd_int_to_unicode v buf pos len =
    Some (take pos buf @ utf16 (hex_digits v (unat len)) @ drop (pos + 2 * unat len) buf)"
proof -
  let ?body = "\<lambda>idx (v, b). do { b \<leftarrow> wr b (pos + 2 * idx) (hex_char (drop_bit 28 v)); b \<leftarrow> wr b (pos + 2 * idx + 1) 0;
    Some (push_bit 4 v, b) }"
  have "for_range 0 n ?body (v, buf) = Some (push_bit (4 * n) v, take pos buf @ utf16 (hex_digits v n) @ drop (pos + 2 * n) buf)"
    if "pos + 2 * n \<le> length buf" for n using that
  proof (induction n)
    case 0
    then show ?case by (simp add: hex_digits_def utf16_def)
  next
    case (Suc n)
    let ?b = "take pos buf @ utf16 (hex_digits v n) @ drop (pos + 2 * n) buf"
    have l: "length (hex_digits v n) = n" by (simp add: hex_digits_def)
    have "?b[pos + 2 * n := x, Suc (pos + 2 * n) := y] = take (pos + 2 * n) ?b @ x # y # drop (pos + 2 * n + 2) ?b" for x y
      using Suc.prems l by (intro write_pair) simp
    moreover have "take (pos + 2 * n) ?b = take pos buf @ utf16 (hex_digits v n)" "drop (pos + 2 * n + 2) ?b = drop (pos + 2 * Suc n) buf"
      using Suc.prems l by simp_all
    moreover have "utf16 (hex_digits v (Suc n)) = utf16 (hex_digits v n) @ [hex_char (nibble v n), 0]"
      by (simp add: hex_digits_def utf16_def)
    ultimately show ?case
      using Suc l by (simp add: for_range_Suc nibble_def push_bit_push_bit del: for_range.simps)
  qed
  then show ?thesis using assms by (simp add: usbd_int_to_unicode_def)
qed

text \<open>
  The serial number string: whatever the chip's identification words are, unless the sum of the first and third is 0, the descriptor
  holds twelve characters after its length and type; read as hexadecimal digits the first eight are that sum (modulo \<open>2 ^ 32\<close>) and
  the last four are the upper half of the second word. All writes stay inside the 26-byte array.
\<close>

theorem serial_string_reads_back:
  assumes "length (g_string_serial s) = 26" "take 2 (g_string_serial s) = [0x1A, 3]" "id1 + id3 \<noteq> 0"
  shows "\<exists>s' d e. get_device_serial_string id1 id2 id3 s = Some (0x1A, s') \<and>
    g_string_serial s' = [0x1A, 3] @ utf16 (d @ e) \<and> length d = 8 \<and> length e = 4 \<and>
    hex_read d = (unat id1 + unat id3) mod 2 ^ 32 \<and> hex_read e = unat id2 div 2 ^ 16"
proof -
  let ?d = "hex_digits (id1 + id3) 8" and ?e = "hex_digits id2 4"
  have l: "length ?d = 8" "length ?e = 4" by (simp_all add: hex_digits_def)
  have 1: "usbd_int_to_unicode (id1 + id3) (g_string_serial s) 2 8 =
      Some ([0x1A, 3] @ utf16 ?d @ drop 18 (g_string_serial s))" (is "_ = Some ?b")
    using int_to_unicode_val[of 2 8 "g_string_serial s" "id1 + id3"] assms(1,2) by simp
  have b: "length ?b = 26" "take 18 ?b = [0x1A, 3] @ utf16 ?d" using assms(1) l by simp_all
  have "usbd_int_to_unicode id2 ?b 18 4 = Some (take 18 ?b @ utf16 ?e @ drop 26 ?b)"
    using int_to_unicode_val[of 18 4 ?b id2] b(1) by simp
  then have 2: "usbd_int_to_unicode id2 ?b 18 4 = Some ([0x1A, 3] @ utf16 (?d @ ?e))"
    unfolding b(2) using b(1) by (simp add: utf16_def)
  have "hex_read ?d = (unat id1 + unat id3) mod 2 ^ 32" "hex_read ?e = unat id2 div 2 ^ 16"
    using hex_read_digits[of 8 "id1 + id3"] hex_read_digits[of 4 id2] by (simp_all add: unat_word_ariths)
  with 1 2 l assms(3) show ?thesis
    by (intro exI[of _ "s\<lparr>g_string_serial := [0x1A, 3] @ utf16 (?d @ ?e)\<rparr>"] exI[of _ ?d] exI[of _ ?e])
      (simp add: get_device_serial_string_def get_serial_num_def Let_def)
qed

theorem serial_string_reads_back_witness:
  "\<exists>s' d e. get_device_serial_string 0x12345678 0xABCD0000 1 desc_state_init = Some (0x1A, s') \<and>
    g_string_serial s' = [0x1A, 3] @ utf16 (d @ e) \<and> hex_read d = 0x12345679 \<and> hex_read e = 0xABCD"
  using serial_string_reads_back[of desc_state_init "0x12345678" 1 "0xABCD0000"]
  by (fastforce simp: desc_state_init_def)

end
