(* ===== verification/Usbd_Core.thy ===== *)
theory Usbd_Core
  imports Cdc_Desc
begin

text \<open>
  The USB device core: \<^verbatim>\<open>usb_drivers/src/usbd_core.c\<close> and the standard requests of \<^verbatim>\<open>usbd_sdr.c\<close>, with the two packet
  routines of \<^verbatim>\<open>at32f435_437_usb.c\<close>.

  The state is \<^verbatim>\<open>usbd_core_type\<close>. Its two endpoint tables are arrays of eight entries, and every access to them is checked.
  A buffer pointer is a base and an offset; the bases are the byte arrays of the class driver (with their padding to
  words), the fields of the core that are sent from where they stand, and NULL. Writes to the controller are recorded in order in \<open>hw\<close>;
  what the code reads from the controller is in \<open>in_enabled\<close> (an IN endpoint is enabled and active) and \<open>soffn\<close> (the frame number),
  which the hardware sets and the code never does. The waiting loop of \<^verbatim>\<open>usbd_ept_in_check_fifo\<close> counts down from
  \<^verbatim>\<open>0xFFFF\<close> and leaves no trace.

  The class driver and the descriptor callbacks are reached through tables of function pointers; the model takes these
  tables as arguments. A NULL entry of a table that the code tests for is the function \<open>Some\<close>.
\<close>

section \<open>Data\<close>

datatype usbd_conn_state =
  USB_CONN_STATE_DEFAULT | USB_CONN_STATE_ADDRESSED | USB_CONN_STATE_CONFIGURED | USB_CONN_STATE_SUSPENDED

datatype ept0_state =
    USB_EPT0_IDLE | USB_EPT0_SETUP | USB_EPT0_DATA_IN | USB_EPT0_DATA_OUT | USB_EPT0_STATUS_IN | USB_EPT0_STATUS_OUT
  | USB_EPT0_STALL

datatype usbd_event_type =
    USBD_NOP_EVENT | USBD_RESET_EVENT | USBD_SUSPEND_EVENT | USBD_WAKEUP_EVENT | USBD_DISCONNECT_EVNET
  | USBD_INISOINCOM_EVENT | USBD_OUTISOINCOM_EVENT | USBD_ERR_EVENT

datatype ubase = BNull | BObj nat | BConfigStatus | BDefaultConfig | BDevConfig | BEptStatus bool nat

type_synonym uptr = "ubase \<times> nat"

abbreviation (input) NULLP :: uptr where "NULLP \<equiv> (BNull, 0)"

record usb_ept_info =
  eptn :: u8
  ept_address :: u8
  inout :: u8
  trans_type :: u8
  maxpacket :: u32
  stalled :: u8
  ept_status :: u32
  trans_buf :: uptr
  total_len :: u32
  trans_len :: u32
  last_len :: u32
  rem0_len :: u32
  ept0_slen :: u32

text \<open>
  Writes to the controller. A transfer is programmed by its packet count and size, then enabled. \<open>HwFifo\<close> is one call of
  \<^verbatim>\<open>usb_write_packet\<close>: endpoint, number of bytes, and the words pushed into the FIFO.
\<close>

datatype hw_act =
    HwInXfer u8 u32 u32 | HwOutXfer u8 u32 u32 | HwTxEmpty u8 bool | HwFifo u8 u16 "u32 list" | HwIsoMc u8 | HwIsoPid u8 bool bool
  | HwStall u8 u8 | HwUnstall u8 u8 u8 | HwOpen u8 u8 u32 u8 | HwClose u8 u8 | HwInDisable u8 | HwFlushTx u8
  | HwAddr u8 | HwConnect | HwDisconnect | HwPhyClk bool | HwRemoteWakeup bool | HwFifoAlloc | HwReset | HwEpt0Setup
  | HwEpt0Start | HwIntClear u32 | HwCoreInit | HwDelayMs nat | HwRwkupsigOff | HwRxflvlInt bool | HwInClear u8 u32 | HwOutClear u8 u32

record 'd usbd_core_type =
  ept_in :: "usb_ept_info list"
  ept_out :: "usb_ept_info list"
  setup_req :: usb_setup_type
  setup_buffer :: buffer
  ept0_sts :: ept0_state
  ept0_wlength :: u16
  conn_state :: usbd_conn_state
  old_conn_state :: usbd_conn_state
  device_addr :: u8
  remote_wakup :: u8
  default_config :: u32
  dev_config :: u32
  config_status :: u32
  objs :: "nat \<Rightarrow> buffer"
  in_enabled :: "u8 \<Rightarrow> bool"
  suspended :: bool
  soffn :: u32
  hw :: "hw_act list"
  pdata :: 'd

text \<open>The table of class callbacks.\<close>

record 'd usbd_class_handler =
  init_handler :: "'d usbd_core_type \<Rightarrow> 'd usbd_core_type option"
  clear_handler :: "'d usbd_core_type \<Rightarrow> 'd usbd_core_type option"
  setup_handler :: "usb_setup_type \<Rightarrow> 'd usbd_core_type \<Rightarrow> (usb_sts_type \<times> 'd usbd_core_type) option"
  ept0_tx_handler :: "'d usbd_core_type \<Rightarrow> 'd usbd_core_type option"
  ept0_rx_handler :: "'d usbd_core_type \<Rightarrow> 'd usbd_core_type option"
  in_handler :: "u8 \<Rightarrow> 'd usbd_core_type \<Rightarrow> 'd usbd_core_type option"
  out_handler :: "u8 \<Rightarrow> 'd usbd_core_type \<Rightarrow> 'd usbd_core_type option"
  sof_handler :: "'d usbd_core_type \<Rightarrow> 'd usbd_core_type option"
  event_handler :: "usbd_event_type \<Rightarrow> 'd usbd_core_type \<Rightarrow> 'd usbd_core_type option"

text \<open>The descriptor callbacks return NULL or a length and a pointer.\<close>

datatype desc_req = DDevice | DConfiguration | DLangId | DManufacturer | DProduct | DSerial | DConfigString | DInterfaceString

type_synonym 'd usbd_desc_handler = "desc_req \<Rightarrow> 'd usbd_core_type \<Rightarrow> ((u16 \<times> uptr) option \<times> 'd usbd_core_type) option"

abbreviation (input) EPT_DIR_IN :: u8 where "EPT_DIR_IN \<equiv> 0"
abbreviation (input) EPT_DIR_OUT :: u8 where "EPT_DIR_OUT \<equiv> 1"
abbreviation (input) EPT_CONTROL_TYPE :: u8 where "EPT_CONTROL_TYPE \<equiv> 0"
abbreviation (input) EPT_ISO_TYPE :: u8 where "EPT_ISO_TYPE \<equiv> 1"
abbreviation (input) USB_EPT_MAX_NUM :: nat where "USB_EPT_MAX_NUM \<equiv> 8"
abbreviation (input) USB_CONF_REMOTE_WAKEUP :: u32 where "USB_CONF_REMOTE_WAKEUP \<equiv> 2"

section \<open>Endpoints\<close>

definition log_hw :: "hw_act \<Rightarrow> 'd usbd_core_type \<Rightarrow> 'd usbd_core_type" where
  "log_hw a u = u\<lparr>hw := hw u @ [a]\<rparr>"

text \<open>Entry of the table chosen by direction, and its update; the index is \<^verbatim>\<open>ept_addr & 0x7F\<close>.\<close>

definition epn :: "u8 \<Rightarrow> nat" where "epn a = unat (a AND 0x7F)"

definition get_in :: "u8 \<Rightarrow> 'd usbd_core_type \<Rightarrow> usb_ept_info option" where
  "get_in a u = rd (ept_in u) (epn a)"

definition get_out :: "u8 \<Rightarrow> 'd usbd_core_type \<Rightarrow> usb_ept_info option" where
  "get_out a u = rd (ept_out u) (epn a)"

definition put_in :: "u8 \<Rightarrow> usb_ept_info \<Rightarrow> 'd usbd_core_type \<Rightarrow> 'd usbd_core_type option" where
  "put_in a e u = do { t \<leftarrow> wr (ept_in u) (epn a) e; Some (u\<lparr>ept_in := t\<rparr>) }"

definition put_out :: "u8 \<Rightarrow> usb_ept_info \<Rightarrow> 'd usbd_core_type \<Rightarrow> 'd usbd_core_type option" where
  "put_out a e u = do { t \<leftarrow> wr (ept_out u) (epn a) e; Some (u\<lparr>ept_out := t\<rparr>) }"

definition usbd_clear_stall :: "u8 \<Rightarrow> 'd usbd_core_type \<Rightarrow> 'd usbd_core_type option" where
  "usbd_clear_stall a u =
     (if a AND 0x80 \<noteq> 0
      then do { e \<leftarrow> get_in a u; put_in a (e\<lparr>stalled := 0\<rparr>) (log_hw (HwUnstall (inout e) (eptn e) (trans_type e)) u) }
      else do { e \<leftarrow> get_out a u; put_out a (e\<lparr>stalled := 0\<rparr>) (log_hw (HwUnstall (inout e) (eptn e) (trans_type e)) u) })"

definition usbd_set_stall :: "u8 \<Rightarrow> 'd usbd_core_type \<Rightarrow> 'd usbd_core_type option" where
  "usbd_set_stall a u =
     (if a AND 0x80 \<noteq> 0
      then do { e \<leftarrow> get_in a u; put_in a (e\<lparr>stalled := 1\<rparr>) (log_hw (HwStall (inout e) (eptn e)) u) }
      else do { e \<leftarrow> get_out a u; put_out a (e\<lparr>stalled := 1\<rparr>) (log_hw (HwStall (inout e) (eptn e)) u) })"

definition usbd_ctrl_unsupport :: "'d usbd_core_type \<Rightarrow> 'd usbd_core_type option" where
  "usbd_ctrl_unsupport u = usbd_set_stall 0x00 u \<bind> usbd_set_stall 0x80"

definition usbd_get_recv_len :: "u8 \<Rightarrow> 'd usbd_core_type \<Rightarrow> u32 option" where
  "usbd_get_recv_len a u = map_option trans_len (get_out a u)"

definition usbd_ept_open :: "u8 \<Rightarrow> u8 \<Rightarrow> u16 \<Rightarrow> 'd usbd_core_type \<Rightarrow> 'd usbd_core_type option" where
  "usbd_ept_open a ept_type mps u =
     (if a AND 0x80 = 0
      then do {
        e \<leftarrow> get_out a u;
        let e = e\<lparr>inout := EPT_DIR_OUT, maxpacket := ucast mps, trans_type := ept_type\<rparr>;
        put_out a e (log_hw (HwOpen EPT_DIR_OUT (eptn e) (maxpacket e) ept_type) u)
      }
      else do {
        e \<leftarrow> get_in a u;
        let e = e\<lparr>inout := EPT_DIR_IN, maxpacket := ucast mps, trans_type := ept_type\<rparr>;
        put_in a e (log_hw (HwOpen EPT_DIR_IN (eptn e) (maxpacket e) ept_type) u)
      })"

definition usbd_flush_tx_fifo :: "u8 \<Rightarrow> 'd usbd_core_type \<Rightarrow> 'd usbd_core_type" where
  "usbd_flush_tx_fifo ept_num u = log_hw (HwFlushTx (ept_num AND 0x1F)) u"

definition usbd_ept_in_check_fifo :: "u8 \<Rightarrow> 'd usbd_core_type \<Rightarrow> 'd usbd_core_type" where
  "usbd_ept_in_check_fifo a u =
     (let endp = a AND 0x7F in
      if in_enabled u endp then usbd_flush_tx_fifo endp (log_hw (HwInDisable endp) u) else u)"

definition usbd_ept_close :: "u8 \<Rightarrow> 'd usbd_core_type \<Rightarrow> 'd usbd_core_type option" where
  "usbd_ept_close a u = do {
     e \<leftarrow> (if a AND 0x80 \<noteq> 0 then get_in a u else get_out a u);
     Some (log_hw (HwClose (inout e) (eptn e)) u)
   }"

definition usbd_connect :: "'d usbd_core_type \<Rightarrow> 'd usbd_core_type" where
  "usbd_connect u = log_hw HwConnect u"

definition usbd_disconnect :: "'d usbd_core_type \<Rightarrow> 'd usbd_core_type" where
  "usbd_disconnect u = log_hw HwDisconnect u"

definition usbd_set_device_addr :: "u8 \<Rightarrow> 'd usbd_core_type \<Rightarrow> 'd usbd_core_type" where
  "usbd_set_device_addr address u = log_hw (HwAddr address) u"

definition ept_default :: "u8 \<Rightarrow> nat \<Rightarrow> usb_ept_info \<Rightarrow> usb_ept_info" where
  "ept_default dir i e =
     e\<lparr>eptn := of_nat i, ept_address := of_nat i, inout := dir, maxpacket := 0, trans_buf := NULLP, total_len := 0\<rparr>"

definition usb_ept_default_init :: "'d usbd_core_type \<Rightarrow> 'd usbd_core_type option" where
  "usb_ept_default_init u = do {
     ti \<leftarrow> for_range 0 USB_EPT_MAX_NUM (\<lambda>i t. do { e \<leftarrow> rd t i; wr t i (ept_default EPT_DIR_IN i e) }) (ept_in u);
     to \<leftarrow> for_range 0 USB_EPT_MAX_NUM (\<lambda>i t. do { e \<leftarrow> rd t i; wr t i (ept_default EPT_DIR_OUT i e) }) (ept_out u);
     Some (u\<lparr>ept_in := ti, ept_out := to\<rparr>)
   }"

section \<open>Memory and packets\<close>

definition ubytes :: "'d usbd_core_type \<Rightarrow> ubase \<Rightarrow> buffer option" where
  "ubytes u b = (case b of
     BNull \<Rightarrow> None
   | BObj i \<Rightarrow> Some (objs u i)
   | BConfigStatus \<Rightarrow> Some (le32 (config_status u))
   | BDefaultConfig \<Rightarrow> Some (le32 (default_config u))
   | BDevConfig \<Rightarrow> Some (le32 (dev_config u))
   | BEptStatus d i \<Rightarrow> map_option (\<lambda>e. le32 (ept_status e)) (rd (if d then ept_in u else ept_out u) i))"

definition le32_at :: "buffer \<Rightarrow> nat \<Rightarrow> u32 option" where
  "le32_at bs i = do { a \<leftarrow> rd bs i; b \<leftarrow> rd bs (i + 1); c \<leftarrow> rd bs (i + 2); d \<leftarrow> rd bs (i + 3); Some (le32_of a b c d) }"

fun load_words :: "buffer \<Rightarrow> nat \<Rightarrow> nat \<Rightarrow> u32 list option" where
  "load_words bs i 0 = Some []"
| "load_words bs i (Suc n) = do { w \<leftarrow> le32_at bs i; ws \<leftarrow> load_words bs (i + 4) n; Some (w # ws) }"

definition usb_write_packet :: "uptr \<Rightarrow> u8 \<Rightarrow> u16 \<Rightarrow> 'd usbd_core_type \<Rightarrow> 'd usbd_core_type option" where
  "usb_write_packet p num nbytes u =
     (let nhbytes = (unat nbytes + 3) div 4 in
      if nhbytes = 0 then Some (log_hw (HwFifo num nbytes []) u)
      else do {
        bs \<leftarrow> ubytes u (fst p);
        ws \<leftarrow> load_words bs (snd p) nhbytes;
        Some (log_hw (HwFifo num nbytes ws) u)
      })"

text \<open>\<open>rxw\<close> are the words the receive FIFO delivers.\<close>

fun store_words :: "buffer \<Rightarrow> nat \<Rightarrow> u32 list \<Rightarrow> buffer option" where
  "store_words bs i [] = Some bs"
| "store_words bs i (w # ws) = do { bs \<leftarrow> put_bytes bs i (le32 w); store_words bs (i + 4) ws }"

definition usb_read_packet :: "uptr \<Rightarrow> u16 \<Rightarrow> u32 list \<Rightarrow> 'd usbd_core_type \<Rightarrow> 'd usbd_core_type option" where
  "usb_read_packet p nbytes rxw u =
     (let nhbytes = (unat nbytes + 3) div 4 in
      if nhbytes = 0 then Some u
      else (case fst p of
        BObj i \<Rightarrow> do { bs \<leftarrow> store_words (objs u i) (snd p) (take nhbytes rxw); Some (u\<lparr>objs := (objs u)(i := bs)\<rparr>) }
      | _ \<Rightarrow> None))"

section \<open>Transfers\<close>

definition iso_pid :: "u8 \<Rightarrow> bool \<Rightarrow> usb_ept_info \<Rightarrow> 'd usbd_core_type \<Rightarrow> 'd usbd_core_type" where
  "iso_pid n dir_in e u =
     (if trans_type e = EPT_ISO_TYPE then log_hw (HwIsoPid n dir_in (soffn u AND 1 = 0)) u else u)"

definition usbd_ept_send :: "u8 \<Rightarrow> uptr \<Rightarrow> u16 \<Rightarrow> 'd usbd_core_type \<Rightarrow> 'd usbd_core_type option" where
  "usbd_ept_send a buf len u = do {
     let u = usbd_ept_in_check_fifo a u;
     e \<leftarrow> get_in a u;
     let e = e\<lparr>trans_buf := buf, total_len := ucast len, trans_len := 0\<rparr>;
     let e = (if total_len e \<noteq> 0 \<and> a AND 0x7F = 0
              then (let t = (if total_len e > maxpacket e then maxpacket e else total_len e)
                    in e\<lparr>total_len := t, last_len := t\<rparr>)
              else e);
     let pktcnt = (if ucast len = (0 :: u32) \<or> a AND 0x7F = 0 then 1 else (total_len e + maxpacket e - 1) div maxpacket e);
     let u = log_hw (HwInXfer (eptn e) pktcnt (if ucast len = (0 :: u32) then 0 else total_len e)) u;
     let u = (if ucast len \<noteq> (0 :: u32) \<and> a AND 0x7F \<noteq> 0 \<and> trans_type e = EPT_ISO_TYPE then log_hw (HwIsoMc (eptn e)) u else u);
     let u = iso_pid (eptn e) True e u;
     u \<leftarrow> put_in a e u;
     if trans_type e \<noteq> EPT_ISO_TYPE
     then Some (if total_len e > 0 then log_hw (HwTxEmpty (eptn e) True) u else u)
     else usb_write_packet (trans_buf e) (eptn e) (ucast (total_len e)) u
   }"

definition usbd_ept_recv :: "u8 \<Rightarrow> uptr \<Rightarrow> u16 \<Rightarrow> 'd usbd_core_type \<Rightarrow> 'd usbd_core_type option" where
  "usbd_ept_recv a buf len u = do {
     e \<leftarrow> get_out a u;
     let e = e\<lparr>trans_buf := buf, total_len := ucast len, trans_len := 0\<rparr>;
     let e = (if a AND 0x7F = 0 then e\<lparr>total_len := maxpacket e\<rparr> else e);
     let pktcnt = (total_len e + maxpacket e - 1) div maxpacket e;
     let u = (if total_len e = 0 \<or> a AND 0x7F = 0
              then log_hw (HwOutXfer (eptn e) 1 (maxpacket e)) u
              else log_hw (HwOutXfer (eptn e) pktcnt (maxpacket e * pktcnt)) u);
     let u = iso_pid (eptn e) False e u;
     put_out a e u
   }"

definition usbd_ctrl_send :: "uptr \<Rightarrow> u16 \<Rightarrow> 'd usbd_core_type \<Rightarrow> 'd usbd_core_type option" where
  "usbd_ctrl_send buf len u = do {
     e \<leftarrow> rd (ept_in u) 0;
     t \<leftarrow> wr (ept_in u) 0 (e\<lparr>ept0_slen := ucast len, rem0_len := ucast len\<rparr>);
     usbd_ept_send 0 buf len (u\<lparr>ept_in := t, ept0_sts := USB_EPT0_DATA_IN\<rparr>)
   }"

definition usbd_ctrl_recv :: "uptr \<Rightarrow> u16 \<Rightarrow> 'd usbd_core_type \<Rightarrow> 'd usbd_core_type option" where
  "usbd_ctrl_recv buf len u = do {
     e \<leftarrow> rd (ept_out u) 0;
     t \<leftarrow> wr (ept_out u) 0 (e\<lparr>ept0_slen := ucast len, rem0_len := ucast len\<rparr>);
     usbd_ept_recv 0 buf len (u\<lparr>ept_out := t, ept0_sts := USB_EPT0_DATA_OUT\<rparr>)
   }"

definition usbd_ctrl_send_status :: "'d usbd_core_type \<Rightarrow> 'd usbd_core_type option" where
  "usbd_ctrl_send_status u = usbd_ept_send 0 NULLP 0 (u\<lparr>ept0_sts := USB_EPT0_STATUS_IN\<rparr>)"

definition usbd_ctrl_recv_status :: "'d usbd_core_type \<Rightarrow> 'd usbd_core_type option" where
  "usbd_ctrl_recv_status u = usbd_ept_recv 0 NULLP 0 (u\<lparr>ept0_sts := USB_EPT0_STATUS_OUT\<rparr>)"

definition usbd_core_in_handler :: "'d usbd_class_handler \<Rightarrow> u8 \<Rightarrow> 'd usbd_core_type \<Rightarrow> 'd usbd_core_type option" where
  "usbd_core_in_handler ch a u =
     (if a = 0 then
        (if ept0_sts u = USB_EPT0_DATA_IN then do {
           e \<leftarrow> rd (ept_in u) 0;
           if rem0_len e > maxpacket e then do {
             let e = e\<lparr>rem0_len := rem0_len e - maxpacket e\<rparr>;
             t \<leftarrow> wr (ept_in u) 0 e;
             usbd_ept_send 0 (trans_buf e) (ucast (min (rem0_len e) (maxpacket e))) (u\<lparr>ept_in := t\<rparr>)
           }
           else if last_len e = maxpacket e \<and> ept0_slen e \<ge> maxpacket e \<and> ept0_slen e < ucast (ept0_wlength u) then do {
             t \<leftarrow> wr (ept_in u) 0 (e\<lparr>last_len := 0\<rparr>);
             u \<leftarrow> usbd_ept_send 0 NULLP 0 (u\<lparr>ept_in := t\<rparr>);
             usbd_ept_recv a NULLP 0 u
           }
           else do {
             u \<leftarrow> (if conn_state u = USB_CONN_STATE_CONFIGURED then ept0_tx_handler ch u else Some u);
             usbd_ctrl_recv_status u
           }
         }
         else Some u)
      else if conn_state u = USB_CONN_STATE_CONFIGURED then in_handler ch a u
      else Some u)"

definition usbd_core_out_handler :: "'d usbd_class_handler \<Rightarrow> u8 \<Rightarrow> 'd usbd_core_type \<Rightarrow> 'd usbd_core_type option" where
  "usbd_core_out_handler ch a u =
     (if a = 0 then
        (if ept0_sts u = USB_EPT0_DATA_OUT then do {
           e \<leftarrow> rd (ept_out u) 0;
           if rem0_len e > maxpacket e then do {
             let e = e\<lparr>rem0_len := rem0_len e - maxpacket e\<rparr>;
             t \<leftarrow> wr (ept_out u) 0 e;
             usbd_ept_recv a (trans_buf e) (ucast (min (rem0_len e) (maxpacket e))) (u\<lparr>ept_out := t\<rparr>)
           }
           else do {
             u \<leftarrow> ept0_rx_handler ch u;
             usbd_ctrl_send_status u
           }
         }
         else Some u)
      else if conn_state u = USB_CONN_STATE_CONFIGURED then out_handler ch a u
      else Some u)"

definition usbd_connect_state_get :: "'d usbd_core_type \<Rightarrow> usbd_conn_state" where
  "usbd_connect_state_get u = conn_state u"

definition usbd_remote_wakeup :: "'d usbd_core_type \<Rightarrow> 'd usbd_core_type" where
  "usbd_remote_wakeup u =
     (if suspended u
      then log_hw (HwRemoteWakeup False) (log_hw (HwDelayMs 10) (log_hw (HwRemoteWakeup True) (log_hw (HwPhyClk True)
             (u\<lparr>conn_state := old_conn_state u\<rparr>))))
      else u)"

definition usbd_enter_suspend :: "'d usbd_core_type \<Rightarrow> 'd usbd_core_type" where
  "usbd_enter_suspend u = (if suspended u then log_hw (HwPhyClk False) u else u)"

end
