(* ===== verification/Usbd_Sdr.thy ===== *)
theory Usbd_Sdr
  imports Usbd_Core
begin

text \<open>
  The standard requests of a USB device, \<^verbatim>\<open>usb_drivers/src/usbd_sdr.c\<close>, and the setup handler of
  \<^verbatim>\<open>usbd_core.c\<close> that dispatches them. The functions return \<open>USB_OK\<close> in the source where the model returns only the
  state; \<^verbatim>\<open>usbd_interface_request\<close> looks at the class driver's status. \<^verbatim>\<open>USBD_SUPPORT_WINUSB\<close> is not defined.
\<close>

section \<open>The code\<close>

definition swapbyte :: "buffer \<Rightarrow> nat \<Rightarrow> u16 option" where
  "swapbyte b i = do { l \<leftarrow> rd b i; h \<leftarrow> rd b (i + 1); Some (ucast l + push_bit 8 (ucast h)) }"

definition usbd_setup_request_parse :: "buffer \<Rightarrow> usb_setup_type option" where
  "usbd_setup_request_parse buf = do {
     t \<leftarrow> rd buf 0;
     r \<leftarrow> rd buf 1;
     v \<leftarrow> swapbyte buf 2;
     i \<leftarrow> swapbyte buf 4;
     l \<leftarrow> swapbyte buf 6;
     Some \<lparr>bmRequestType = t, bRequest = r, wValue = v, wIndex = i, wLength = l\<rparr>
   }"

text \<open>The class callback where the source drops its status.\<close>

definition class_setup :: "'d usbd_class_handler \<Rightarrow> 'd usbd_core_type \<Rightarrow> 'd usbd_core_type option" where
  "class_setup ch u = map_option snd (setup_handler ch (setup_req u) u)"

definition usbd_get_descriptor ::
  "'d usbd_class_handler \<Rightarrow> 'd usbd_desc_handler \<Rightarrow> 'd usbd_core_type \<Rightarrow> 'd usbd_core_type option"
where
  "usbd_get_descriptor ch dh u =
     (let ty = (ucast (drop_bit 8 (wValue (setup_req u))) :: u8);
          str = (ucast (wValue (setup_req u)) :: u8);
          send = (\<lambda>(d, u). case d of
              Some (len, p) \<Rightarrow>
                if len \<noteq> 0 \<and> wLength (setup_req u) \<noteq> 0 then usbd_ctrl_send p (min len (wLength (setup_req u))) u else Some u
            | None \<Rightarrow> Some u)
      in if ty = 1 then dh DDevice u \<bind> send
         else if ty = 2 then dh DConfiguration u \<bind> send
         else if ty = 3 then
           (if str = 0 then dh DLangId u \<bind> send
            else if str = 1 then dh DManufacturer u \<bind> send
            else if str = 2 then dh DProduct u \<bind> send
            else if str = 3 then dh DSerial u \<bind> send
            else if str = 4 then dh DConfigString u \<bind> send
            else if str = 5 then dh DInterfaceString u \<bind> send
            else if str = 0xEE then usbd_ctrl_unsupport u
            else class_setup ch u)
         else usbd_ctrl_unsupport u)"

definition usbd_set_address :: "'d usbd_core_type \<Rightarrow> 'd usbd_core_type option" where
  "usbd_set_address u =
     (if wIndex (setup_req u) = 0 \<and> wLength (setup_req u) = 0 then
        (let dev_addr = ucast (wValue (setup_req u)) AND 0x7F in
         if conn_state u = USB_CONN_STATE_CONFIGURED then usbd_ctrl_unsupport u
         else usbd_ctrl_send_status ((usbd_set_device_addr dev_addr (u\<lparr>device_addr := dev_addr\<rparr>))
                \<lparr>conn_state := (if dev_addr \<noteq> 0 then USB_CONN_STATE_ADDRESSED else USB_CONN_STATE_DEFAULT)\<rparr>))
      else usbd_ctrl_unsupport u)"

definition addressed_or_configured :: "'d usbd_core_type \<Rightarrow> bool" where
  "addressed_or_configured u \<longleftrightarrow> conn_state u = USB_CONN_STATE_ADDRESSED \<or> conn_state u = USB_CONN_STATE_CONFIGURED"

definition usbd_get_status :: "'d usbd_core_type \<Rightarrow> 'd usbd_core_type option" where
  "usbd_get_status u =
     (if addressed_or_configured u
      then usbd_ctrl_send (BConfigStatus, 0) 2
             (if remote_wakup u \<noteq> 0 then u\<lparr>config_status := config_status u OR USB_CONF_REMOTE_WAKEUP\<rparr> else u)
      else usbd_ctrl_unsupport u)"

definition usbd_clear_feature :: "'d usbd_class_handler \<Rightarrow> 'd usbd_core_type \<Rightarrow> 'd usbd_core_type option" where
  "usbd_clear_feature ch u =
     (if addressed_or_configured u then
        (if wValue (setup_req u) = 1 then do {
           u \<leftarrow> class_setup ch (u\<lparr>remote_wakup := 0, config_status := config_status u AND NOT USB_CONF_REMOTE_WAKEUP\<rparr>);
           usbd_ctrl_send_status u
         }
         else Some u)
      else usbd_ctrl_unsupport u)"

definition usbd_set_feature :: "'d usbd_class_handler \<Rightarrow> 'd usbd_core_type \<Rightarrow> 'd usbd_core_type option" where
  "usbd_set_feature ch u =
     (if wValue (setup_req u) = 1 then do {
        u \<leftarrow> class_setup ch (u\<lparr>remote_wakup := 1\<rparr>);
        usbd_ctrl_send_status u
      }
      else usbd_ctrl_unsupport u)"

definition usbd_get_configuration :: "'d usbd_core_type \<Rightarrow> 'd usbd_core_type option" where
  "usbd_get_configuration u =
     (if wLength (setup_req u) \<noteq> 1 then usbd_ctrl_unsupport u
      else (case conn_state u of
        USB_CONN_STATE_ADDRESSED \<Rightarrow> usbd_ctrl_send (BDefaultConfig, 0) 1 (u\<lparr>default_config := 0\<rparr>)
      | USB_CONN_STATE_CONFIGURED \<Rightarrow> usbd_ctrl_send (BDevConfig, 0) 1 u
      | _ \<Rightarrow> usbd_ctrl_unsupport u))"

definition usbd_set_configuration :: "'d usbd_class_handler \<Rightarrow> 'd usbd_core_type \<Rightarrow> 'd usbd_core_type option" where
  "usbd_set_configuration ch u =
     (let config_value = (ucast (ucast (wValue (setup_req u)) :: u8) :: u32) in
      if wIndex (setup_req u) = 0 \<and> wLength (setup_req u) = 0 then
        (case conn_state u of
           USB_CONN_STATE_ADDRESSED \<Rightarrow>
             (if config_value \<noteq> 0
              then init_handler ch (u\<lparr>dev_config := config_value, conn_state := USB_CONN_STATE_CONFIGURED\<rparr>) \<bind> usbd_ctrl_send_status
              else usbd_ctrl_send_status u)
         | USB_CONN_STATE_CONFIGURED \<Rightarrow>
             (if config_value = 0
              then clear_handler ch (u\<lparr>conn_state := USB_CONN_STATE_ADDRESSED, dev_config := config_value\<rparr>) \<bind> usbd_ctrl_send_status
              else if config_value \<noteq> dev_config u
              then do {
                u \<leftarrow> clear_handler ch u;
                u \<leftarrow> init_handler ch (u\<lparr>dev_config := config_value\<rparr>);
                usbd_ctrl_send_status u
              }
              else usbd_ctrl_send_status u)
         | _ \<Rightarrow> usbd_ctrl_unsupport u)
      else usbd_ctrl_unsupport u)"

definition usbd_device_request ::
  "'d usbd_class_handler \<Rightarrow> 'd usbd_desc_handler \<Rightarrow> 'd usbd_core_type \<Rightarrow> 'd usbd_core_type option"
where
  "usbd_device_request ch dh u =
     (if bmRequestType (setup_req u) AND 0x60 \<noteq> 0x00 then class_setup ch u
      else (let r = bRequest (setup_req u) in
        if r = 0 then usbd_get_status u
        else if r = 1 then usbd_clear_feature ch u
        else if r = 3 then usbd_set_feature ch u
        else if r = 5 then usbd_set_address u
        else if r = 6 then usbd_get_descriptor ch dh u
        else if r = 8 then usbd_get_configuration u
        else if r = 9 then usbd_set_configuration ch u
        else usbd_ctrl_unsupport u))"

definition usbd_interface_request :: "'d usbd_class_handler \<Rightarrow> 'd usbd_core_type \<Rightarrow> 'd usbd_core_type option" where
  "usbd_interface_request ch u =
     (if conn_state u = USB_CONN_STATE_SUSPENDED then usbd_ctrl_unsupport u
      else do {
        (ret, u) \<leftarrow> setup_handler ch (setup_req u) u;
        if wLength (setup_req u) = 0 \<and> ret = USB_OK then usbd_ctrl_send_status u else Some u
      })"

text \<open>The endpoint entry a status request addresses, and the pointer to its status word.\<close>

definition ept_get_status :: "u8 \<Rightarrow> u32 \<Rightarrow> 'd usbd_core_type \<Rightarrow> 'd usbd_core_type option" where
  "ept_get_status a st u =
     (if a AND 0x80 \<noteq> 0
      then do { e \<leftarrow> get_in a u; u \<leftarrow> put_in a (e\<lparr>ept_status := st\<rparr>) u; usbd_ctrl_send (BEptStatus True (epn a), 0) 2 u }
      else do { e \<leftarrow> get_out a u; u \<leftarrow> put_out a (e\<lparr>ept_status := st\<rparr>) u; usbd_ctrl_send (BEptStatus False (epn a), 0) 2 u })"

definition usbd_endpoint_request :: "'d usbd_class_handler \<Rightarrow> 'd usbd_core_type \<Rightarrow> 'd usbd_core_type option" where
  "usbd_endpoint_request ch u =
     (let a = (ucast (wIndex (setup_req u)) :: u8); r = bRequest (setup_req u) in
      if bmRequestType (setup_req u) AND 0x60 \<noteq> 0x00 then class_setup ch u
      else if r = 0 then
        (case conn_state u of
           USB_CONN_STATE_ADDRESSED \<Rightarrow> do {
             u \<leftarrow> (if a AND 0x7F \<noteq> 0 then usbd_set_stall a u else Some u);
             ept_get_status a 0 u
           }
         | USB_CONN_STATE_CONFIGURED \<Rightarrow> do {
             e \<leftarrow> (if a AND 0x80 \<noteq> 0 then get_in a u else get_out a u);
             ept_get_status a (if stalled e = 1 then 1 else 0) u
           }
         | _ \<Rightarrow> usbd_ctrl_unsupport u)
      else if r = 1 then
        (case conn_state u of
           USB_CONN_STATE_ADDRESSED \<Rightarrow> (if a \<noteq> 0x00 \<and> a \<noteq> 0x80 then usbd_set_stall a u else Some u)
         | USB_CONN_STATE_CONFIGURED \<Rightarrow>
             (if wValue (setup_req u) = 0 then do {
                u \<leftarrow> (if a AND 0x7F \<noteq> 0x00 then usbd_clear_stall a u \<bind> class_setup ch else Some u);
                usbd_ctrl_send_status u
              }
              else Some u)
         | _ \<Rightarrow> usbd_ctrl_unsupport u)
      else if r = 3 then
        (case conn_state u of
           USB_CONN_STATE_ADDRESSED \<Rightarrow> (if a \<noteq> 0x00 \<and> a \<noteq> 0x80 then usbd_set_stall a u else Some u)
         | USB_CONN_STATE_CONFIGURED \<Rightarrow> do {
             u \<leftarrow> (if wValue (setup_req u) = 0 \<and> a \<noteq> 0x00 \<and> a \<noteq> 0x80 then usbd_set_stall a u else Some u);
             u \<leftarrow> class_setup ch u;
             usbd_ctrl_send_status u
           }
         | _ \<Rightarrow> usbd_ctrl_unsupport u)
      else usbd_ctrl_unsupport u)"

definition usbd_core_setup_handler ::
  "'d usbd_class_handler \<Rightarrow> 'd usbd_desc_handler \<Rightarrow> 'd usbd_core_type \<Rightarrow> 'd usbd_core_type option"
where
  "usbd_core_setup_handler ch dh u = do {
     s \<leftarrow> usbd_setup_request_parse (setup_buffer u);
     let u = u\<lparr>setup_req := s, ept0_sts := USB_EPT0_SETUP, ept0_wlength := wLength s\<rparr>;
     let r = bmRequestType s AND 0x1F;
     if r = 0 then usbd_device_request ch dh u
     else if r = 1 then usbd_interface_request ch u
     else if r = 2 then usbd_endpoint_request ch u
     else usbd_ctrl_unsupport u
   }"

end
