(* ===== verification/Usbd_Int.thy ===== *)
theory Usbd_Int
  imports Usbd_Sdr
begin

text \<open>
  The interrupt side of the USB device core, \<^verbatim>\<open>usb_drivers/src/usbd_int.c\<close>. What a handler reads from the controller is an argument: the
  interrupt flags, the free space of a transmit FIFO at each reading, the receive status word and the words of the
  receive FIFO. \<^verbatim>\<open>USB_VBUS_IGNORE\<close> is defined, so the disconnect interrupt is not compiled in.
  The register set-up of the reset handler is one entry of the record.

  The loop of \<^verbatim>\<open>usb_write_empty_txfifo\<close> has fuel; it is shown below to end when the packet size is not 0.
\<close>

section \<open>The code\<close>

fun txfifo_loop :: "nat \<Rightarrow> (nat \<Rightarrow> u32) \<Rightarrow> nat \<Rightarrow> u32 \<Rightarrow> u32 \<Rightarrow> 'd usbd_core_type \<Rightarrow> (u32 \<times> 'd usbd_core_type) option" where
  "txfifo_loop 0 space n len wlen u = None"
| "txfifo_loop (Suc fuel) space n len wlen u = do {
     e \<leftarrow> rd (ept_in u) n;
     if space fuel AND 0xFFFF > wlen \<and> trans_len e < total_len e \<and> total_len e \<noteq> 0 then do {
       let len = total_len e - trans_len e;
       let len = (if len > maxpacket e then maxpacket e else len);
       let wlen = (len + 3) div 4;
       u \<leftarrow> usb_write_packet (trans_buf e) (of_nat n) (ucast len) u;
       t \<leftarrow> wr (ept_in u) n (e\<lparr>trans_buf := (fst (trans_buf e), snd (trans_buf e) + unat len), trans_len := trans_len e + len\<rparr>);
       txfifo_loop fuel space n len wlen (u\<lparr>ept_in := t\<rparr>)
     }
     else Some (len, u)
   }"

definition usb_write_empty_txfifo :: "nat \<Rightarrow> (nat \<Rightarrow> u32) \<Rightarrow> nat \<Rightarrow> 'd usbd_core_type \<Rightarrow> 'd usbd_core_type option" where
  "usb_write_empty_txfifo fuel space n u = do {
     e \<leftarrow> rd (ept_in u) n;
     let len = total_len e - trans_len e;
     let len = (if len > maxpacket e then maxpacket e else len);
     (len, u) \<leftarrow> txfifo_loop fuel space n len ((len + 3) div 4) u;
     Some (if len \<le> 0 then log_hw (HwTxEmpty (of_nat n) False) u else u)
   }"

definition in_clear_if :: "u32 \<Rightarrow> nat \<Rightarrow> u32 \<Rightarrow> 'd usbd_core_type \<Rightarrow> 'd usbd_core_type" where
  "in_clear_if flag n ept_int u = (if ept_int AND flag \<noteq> 0 then log_hw (HwInClear (of_nat n) flag) u else u)"

text \<open>One endpoint of the loop over the IN endpoints.\<close>

definition inept_one ::
  "nat \<Rightarrow> (nat \<Rightarrow> nat \<Rightarrow> u32) \<Rightarrow> 'd usbd_class_handler \<Rightarrow> nat \<Rightarrow> u32 \<Rightarrow> 'd usbd_core_type \<Rightarrow> 'd usbd_core_type option"
where
  "inept_one fuel space ch n ept_int u = do {
     u \<leftarrow> (if ept_int AND 0x01 \<noteq> 0
          then usbd_core_in_handler ch (of_nat n) (log_hw (HwInClear (of_nat n) 0x01) (log_hw (HwTxEmpty (of_nat n) False) u))
          else Some u);
     let u = in_clear_if 0x08 n ept_int u;
     let u = in_clear_if 0x10 n ept_int u;
     let u = in_clear_if 0x40 n ept_int u;
     let u = in_clear_if 0x02 n ept_int u;
     if ept_int AND 0x80 \<noteq> 0 then usb_write_empty_txfifo fuel (space n) n u else Some u
   }"

text \<open>The loop shifts \<^verbatim>\<open>intsts\<close> right until it is 0, at most 32 times.\<close>

fun inept_loop ::
  "nat \<Rightarrow> nat \<Rightarrow> (nat \<Rightarrow> nat \<Rightarrow> u32) \<Rightarrow> 'd usbd_class_handler \<Rightarrow> (nat \<Rightarrow> u32) \<Rightarrow> nat \<Rightarrow> u32 \<Rightarrow> 'd usbd_core_type \<Rightarrow> 'd usbd_core_type option"
where
  "inept_loop 0 fuel space ch flags n intsts u = Some u"
| "inept_loop (Suc k) fuel space ch flags n intsts u =
     (if intsts = 0 then Some u
      else do {
        u \<leftarrow> (if intsts AND 0x1 \<noteq> 0 then inept_one fuel space ch n (flags n) u else Some u);
        inept_loop k fuel space ch flags (n + 1) (drop_bit 1 intsts) u
      })"

definition usbd_inept_handler ::
  "nat \<Rightarrow> (nat \<Rightarrow> nat \<Rightarrow> u32) \<Rightarrow> 'd usbd_class_handler \<Rightarrow> (nat \<Rightarrow> u32) \<Rightarrow> u32 \<Rightarrow> 'd usbd_core_type \<Rightarrow> 'd usbd_core_type option"
where
  "usbd_inept_handler fuel space ch flags intsts u = inept_loop 32 fuel space ch flags 0 intsts u"

definition outept_one ::
  "'d usbd_class_handler \<Rightarrow> 'd usbd_desc_handler \<Rightarrow> nat \<Rightarrow> u32 \<Rightarrow> 'd usbd_core_type \<Rightarrow> 'd usbd_core_type option"
where
  "outept_one ch dh n ept_int u = do {
     u \<leftarrow> (if ept_int AND 0x01 \<noteq> 0 then usbd_core_out_handler ch (of_nat n) (log_hw (HwOutClear (of_nat n) 0x01) u) else Some u);
     u \<leftarrow> (if ept_int AND 0x08 \<noteq> 0 then do {
            u \<leftarrow> usbd_core_setup_handler ch dh (log_hw (HwOutClear (of_nat n) 0x08) u);
            Some (if device_addr u \<noteq> 0 then (log_hw (HwAddr (device_addr u)) u)\<lparr>device_addr := 0\<rparr> else u)
          } else Some u);
     Some (if ept_int AND 0x10 \<noteq> 0 then log_hw (HwOutClear (of_nat n) 0x10) u else u)
   }"

fun outept_loop ::
  "nat \<Rightarrow> 'd usbd_class_handler \<Rightarrow> 'd usbd_desc_handler \<Rightarrow> (nat \<Rightarrow> u32) \<Rightarrow> nat \<Rightarrow> u32 \<Rightarrow> 'd usbd_core_type \<Rightarrow> 'd usbd_core_type option"
where
  "outept_loop 0 ch dh flags n intsts u = Some u"
| "outept_loop (Suc k) ch dh flags n intsts u =
     (if intsts = 0 then Some u
      else do {
        u \<leftarrow> (if intsts AND 0x1 \<noteq> 0 then outept_one ch dh n (flags n) u else Some u);
        outept_loop k ch dh flags (n + 1) (drop_bit 1 intsts) u
      })"

definition usbd_outept_handler ::
  "'d usbd_class_handler \<Rightarrow> 'd usbd_desc_handler \<Rightarrow> (nat \<Rightarrow> u32) \<Rightarrow> u32 \<Rightarrow> 'd usbd_core_type \<Rightarrow> 'd usbd_core_type option"
where
  "usbd_outept_handler ch dh flags intsts u = outept_loop 32 ch dh flags 0 intsts u"

definition usbd_enumdone_handler :: "'d usbd_class_handler \<Rightarrow> 'd usbd_core_type \<Rightarrow> 'd usbd_core_type option" where
  "usbd_enumdone_handler ch u = do {
     u \<leftarrow> usbd_ept_open 0x00 EPT_CONTROL_TYPE 0x40 (log_hw HwEpt0Setup u);
     u \<leftarrow> usbd_ept_open 0x80 EPT_CONTROL_TYPE 0x40 u;
     clear_handler ch (u\<lparr>conn_state := USB_CONN_STATE_DEFAULT\<rparr>)
   }"

definition usbd_rxflvl_handler :: "u32 \<Rightarrow> u32 list \<Rightarrow> 'd usbd_core_type \<Rightarrow> 'd usbd_core_type option" where
  "usbd_rxflvl_handler stsp rxw u = do {
     let u = log_hw (HwRxflvlInt False) u;
     let count = drop_bit 4 (stsp AND 0x7FF0);
     let pktsts = drop_bit 17 (stsp AND 0x1E0000);
     let n = unat (stsp AND 0xF);
     e \<leftarrow> rd (ept_out u) n;
     u \<leftarrow> (if pktsts = 0x2 then
            (if count \<noteq> 0 then do {
               u \<leftarrow> usb_read_packet (trans_buf e) (ucast count) rxw u;
               t \<leftarrow> wr (ept_out u) n (e\<lparr>trans_buf := (fst (trans_buf e), snd (trans_buf e) + unat count), trans_len := trans_len e + count\<rparr>);
               Some (u\<lparr>ept_out := t\<rparr>)
             } else Some u)
          else if pktsts = 0x6 then do {
            b \<leftarrow> store_words (setup_buffer u) 0 (take ((unat count + 3) div 4) rxw);
            t \<leftarrow> wr (ept_out u) n (e\<lparr>trans_len := trans_len e + count\<rparr>);
            Some (u\<lparr>setup_buffer := b, ept_out := t\<rparr>)
          }
          else Some u);
     Some (log_hw (HwRxflvlInt True) u)
   }"

definition usbd_incomisoout_handler :: "'d usbd_class_handler \<Rightarrow> 'd usbd_core_type \<Rightarrow> 'd usbd_core_type option" where
  "usbd_incomisoout_handler ch u = event_handler ch USBD_OUTISOINCOM_EVENT u"

definition usbd_incomisioin_handler :: "'d usbd_class_handler \<Rightarrow> 'd usbd_core_type \<Rightarrow> 'd usbd_core_type option" where
  "usbd_incomisioin_handler ch u = event_handler ch USBD_INISOINCOM_EVENT u"

definition usbd_reset_handler :: "'d usbd_class_handler \<Rightarrow> 'd usbd_core_type \<Rightarrow> 'd usbd_core_type option" where
  "usbd_reset_handler ch u =
     (let u = fold log_hw [HwRwkupsigOff, HwFifoAlloc, HwFlushTx 0x10, HwReset, HwAddr 0, HwEpt0Start] u
      in event_handler ch USBD_RESET_EVENT (u\<lparr>conn_state := USB_CONN_STATE_DEFAULT\<rparr>))"

definition usbd_sof_handler :: "'d usbd_class_handler \<Rightarrow> 'd usbd_core_type \<Rightarrow> 'd usbd_core_type option" where
  "usbd_sof_handler ch u = sof_handler ch u"

definition usbd_suspend_handler :: "'d usbd_class_handler \<Rightarrow> 'd usbd_core_type \<Rightarrow> 'd usbd_core_type option" where
  "usbd_suspend_handler ch u =
     (if suspended u
      then event_handler ch USBD_SUSPEND_EVENT
             (usbd_enter_suspend (u\<lparr>old_conn_state := conn_state u, conn_state := USB_CONN_STATE_SUSPENDED\<rparr>))
      else Some u)"

definition usbd_wakeup_handler :: "'d usbd_class_handler \<Rightarrow> 'd usbd_core_type \<Rightarrow> 'd usbd_core_type option" where
  "usbd_wakeup_handler ch u =
     (let u = log_hw (HwPhyClk True) (log_hw HwRwkupsigOff u)
      in event_handler ch USBD_WAKEUP_EVENT (u\<lparr>conn_state := old_conn_state u\<rparr>))"

text \<open>What one interrupt reads from the controller.\<close>

record irq_in =
  gintsts :: u32
  curmode_host :: bool
  in_ints :: u32
  in_flags :: "nat \<Rightarrow> u32"
  out_ints :: u32
  out_flags :: "nat \<Rightarrow> u32"
  tx_space :: "nat \<Rightarrow> nat \<Rightarrow> u32"
  rx_stsp :: u32
  rx_words :: "u32 list"

definition on_flag :: "u32 \<Rightarrow> u32 \<Rightarrow> ('d usbd_core_type \<Rightarrow> 'd usbd_core_type option) \<Rightarrow> 'd usbd_core_type \<Rightarrow> 'd usbd_core_type option" where
  "on_flag intsts flag f u = (if intsts AND flag \<noteq> 0 then f u else Some u)"

definition clearing :: "u32 \<Rightarrow> ('d usbd_core_type \<Rightarrow> 'd usbd_core_type option) \<Rightarrow> 'd usbd_core_type \<Rightarrow> 'd usbd_core_type option" where
  "clearing flag f u = map_option (log_hw (HwIntClear flag)) (f u)"

definition usbd_irq_handler ::
  "nat \<Rightarrow> 'd usbd_class_handler \<Rightarrow> 'd usbd_desc_handler \<Rightarrow> irq_in \<Rightarrow> 'd usbd_core_type \<Rightarrow> 'd usbd_core_type option"
where
  "usbd_irq_handler fuel ch dh r u =
     (let s = gintsts r in
      if curmode_host r then Some u
      else do {
        u \<leftarrow> on_flag s 0x00000002 (clearing 0x00000002 Some) u;
        u \<leftarrow> on_flag s 0x00040000 (usbd_inept_handler fuel (tx_space r) ch (in_flags r) (in_ints r)) u;
        u \<leftarrow> on_flag s 0x00080000 (usbd_outept_handler ch dh (out_flags r) (out_ints r)) u;
        u \<leftarrow> on_flag s 0x00001000 (clearing 0x00001000 (usbd_reset_handler ch)) u;
        u \<leftarrow> on_flag s 0x00000008 (clearing 0x00000008 (usbd_sof_handler ch)) u;
        u \<leftarrow> on_flag s 0x00002000 (clearing 0x00002000 (usbd_enumdone_handler ch)) u;
        u \<leftarrow> on_flag s 0x00000010 (usbd_rxflvl_handler (rx_stsp r) (rx_words r)) u;
        u \<leftarrow> on_flag s 0x00100000 (clearing 0x00100000 (usbd_incomisioin_handler ch)) u;
        u \<leftarrow> on_flag s 0x00200000 (clearing 0x00200000 (usbd_incomisoout_handler ch)) u;
        u \<leftarrow> on_flag s 0x80000000 (clearing 0x80000000 (usbd_wakeup_handler ch)) u;
        on_flag s 0x00000800 (clearing 0x00000800 (usbd_suspend_handler ch)) u
      })"

end
