(* ===== verification/Usbd_Proofs.thy ===== *)
theory Usbd_Proofs
  imports Usbd_Int
begin

text \<open>
  Correctness of the USB device core: the words pushed into a transmit FIFO are the bytes of the caller's buffer, the fill loop
  ends, a control transfer sends a descriptor in packets with the right end, and enumeration takes the device to the
  configured state. The last part shows what happens for endpoint numbers the device does not have.
\<close>

section \<open>Words and bytes\<close>

lemma le32_le32_of [simp, byte_code]: "le32 (le32_of a b c d) = [a, b, c, d]"
  by (simp add: le32_def byte_code)

definition words_bytes :: "u32 list \<Rightarrow> buffer" where
  "words_bytes ws = concat (map le32 ws)"

lemma load_words_val:
  assumes "off + 4 * n \<le> length bs"
  shows "\<exists>ws. load_words bs off n = Some ws \<and> words_bytes ws = take (4 * n) (drop off bs)"
  using assms
proof (induction n arbitrary: off)
  case 0
  then show ?case by (simp add: words_bytes_def)
next
  case (Suc n)
  have "off + 4 + 4 * n \<le> length bs" using Suc.prems by simp
  from Suc.IH[OF this] obtain ws where
    ws: "load_words bs (off + 4) n = Some ws" "words_bytes ws = take (4 * n) (drop (off + 4) bs)" by blast
  have "drop off bs = bs ! off # bs ! (off + 1) # bs ! (off + 2) # bs ! (off + 3) # drop (off + 4) bs"
    using Suc.prems by (simp add: Cons_nth_drop_Suc eval_nat_numeral)
  then have "take (4 * Suc n) (drop off bs) =
      [bs ! off, bs ! (off + 1), bs ! (off + 2), bs ! (off + 3)] @ take (4 * n) (drop (off + 4) bs)"
    by (simp add: take_Cons' eval_nat_numeral)
  with ws Suc.prems show ?case by (simp add: le32_at_def words_bytes_def)
qed

text \<open>The bytes a call of \<^verbatim>\<open>usb_write_packet\<close> hands to an endpoint, and those of a whole record.\<close>

fun fifo_bytes :: "u8 \<Rightarrow> hw_act \<Rightarrow> buffer" where
  "fifo_bytes n (HwFifo m k ws) = (if m = n then take (unat k) (words_bytes ws) else [])"
| "fifo_bytes n _ = []"

definition tx_bytes :: "u8 \<Rightarrow> hw_act list \<Rightarrow> buffer" where
  "tx_bytes n as = concat (map (fifo_bytes n) as)"

lemma tx_bytes_append [simp]: "tx_bytes n (as @ bs) = tx_bytes n as @ tx_bytes n bs"
  by (simp add: tx_bytes_def)

lemma tx_bytes_Nil [simp]: "tx_bytes n [] = []"
  by (simp add: tx_bytes_def)

lemma tx_bytes_Cons [simp]: "tx_bytes n (a # as) = fifo_bytes n a @ tx_bytes n as"
  by (simp add: tx_bytes_def)

text \<open>The object behind a pointer holds \<open>k\<close> bytes from there on, rounded up to words.\<close>

definition readable :: "uptr \<Rightarrow> nat \<Rightarrow> 'd usbd_core_type \<Rightarrow> bool" where
  "readable p k u \<longleftrightarrow> (\<exists>i. fst p = BObj i \<and> snd p + 4 * ((k + 3) div 4) \<le> length (objs u i))"

definition bytes_at :: "uptr \<Rightarrow> nat \<Rightarrow> 'd usbd_core_type \<Rightarrow> buffer" where
  "bytes_at p k u = (case fst p of BObj i \<Rightarrow> take k (drop (snd p) (objs u i)) | _ \<Rightarrow> [])"

lemma write_packet_val:
  assumes "readable p (unat k) u"
  shows "\<exists>ws. usb_write_packet p n k u = Some (log_hw (HwFifo n k ws) u) \<and> fifo_bytes n (HwFifo n k ws) = bytes_at p (unat k) u"
proof (cases "unat k = 0")
  case True
  then show ?thesis using assms by (auto simp: usb_write_packet_def bytes_at_def readable_def)
next
  case False
  obtain i where i: "fst p = BObj i" "snd p + 4 * ((unat k + 3) div 4) \<le> length (objs u i)" using assms by (auto simp: readable_def)
  from load_words_val[OF i(2)] obtain ws where
    ws: "load_words (objs u i) (snd p) ((unat k + 3) div 4) = Some ws"
    "words_bytes ws = take (4 * ((unat k + 3) div 4)) (drop (snd p) (objs u i))" by blast
  have "unat k \<le> 4 * ((unat k + 3) div 4)" by presburger
  then have "take (unat k) (words_bytes ws) = bytes_at p (unat k) u" using i(1) by (simp add: ws(2) bytes_at_def min_def)
  moreover have "(unat k + 3) div 4 \<noteq> 0" using False by presburger
  ultimately show ?thesis
    using ws(1) i(1) by (intro exI[of _ ws]) (simp add: usb_write_packet_def ubytes_def Let_def)
qed

section \<open>Filling a transmit FIFO\<close>

definition padd :: "uptr \<Rightarrow> nat \<Rightarrow> uptr" where
  "padd p k = (fst p, snd p + k)"

lemma padd_simps [simp]: "padd p 0 = p" "padd (padd p a) b = padd p (a + b)"
  by (simp_all add: padd_def)

lemma bytes_at_cong: "objs u = objs v \<Longrightarrow> bytes_at p k u = bytes_at p k v"
  by (simp add: bytes_at_def split: ubase.split)

lemma bytes_at_add: "bytes_at p (a + b) u = bytes_at p a u @ bytes_at (padd p a) b u"
  by (simp add: bytes_at_def padd_def take_add add.commute split: ubase.split)

lemma readable_le: "readable p k u \<Longrightarrow> j \<le> k \<Longrightarrow> readable p j u"
  unfolding readable_def by (meson add_le_mono div_le_mono le_refl le_trans mult_le_mono)

lemma readable_padd: "readable p (a + b) u \<Longrightarrow> readable (padd p a) b u \<or> a mod 4 \<noteq> 0"
  unfolding readable_def padd_def
proof (elim exE conjE, cases "a mod 4 = 0")
  fix i assume h: "fst p = BObj i" "snd p + 4 * ((a + b + 3) div 4) \<le> length (objs u i)" "a mod 4 = 0"
  then obtain q where "a = 4 * q" by (auto simp: mod_eq_0_iff_dvd)
  then have "4 * ((a + b + 3) div 4) = a + 4 * ((b + 3) div 4)" by presburger
  with h show "(\<exists>i. fst (fst p, snd p + a) = BObj i \<and> snd (fst p, snd p + a) + 4 * ((b + 3) div 4) \<le> length (objs u i)) \<or> a mod 4 \<noteq> 0"
    by auto
qed simp

lemma unat_chunk:
  fixes t r mp :: u32
  assumes "r < t" "mp \<noteq> 0"
  defines "len \<equiv> (if t - r > mp then mp else t - r)"
  shows "unat len = min (unat (t - r)) (unat mp)" "0 < unat len" "unat len \<le> unat (t - r)" "unat (t - (r + len)) = unat (t - r) - unat len"
    "r + len \<le> t"
proof -
  show l: "unat len = min (unat (t - r)) (unat mp)" by (auto simp: len_def min_def word_less_nat_alt not_less)
  have d: "unat (t - r) = unat t - unat r" using assms(1) by (simp add: unat_sub word_le_nat_alt word_less_nat_alt)
  have p: "unat r < unat t" using assms(1) by (simp add: word_less_nat_alt)
  show "0 < unat len" using l d p assms(2) by (simp add: unat_gt_0)
  show le: "unat len \<le> unat (t - r)" using l by simp
  have "unat t < 2 ^ 32" using unsigned_less[of t] by simp
  then have "unat (r + len) = unat r + unat len" using le d p by (simp add: unat_word_ariths)
  then show "r + len \<le> t" "unat (t - (r + len)) = unat (t - r) - unat len"
    using le d p by (simp_all add: word_le_nat_alt unat_sub)
qed

definition no_xfer :: "hw_act list \<Rightarrow> bool" where
  "no_xfer ls \<longleftrightarrow> (\<forall>m a b. HwInXfer m a b \<notin> set ls)"

text \<open>
  The fill loop from any state in which part of the transfer is already sent: it ends, pushes the next \<open>k\<close> bytes and advances
  the endpoint by them; all that is left when the FIFO always has room for a packet.
\<close>

lemma txfifo_loop_val:
  assumes "n < length (ept_in u)" "ept_in u ! n = e" "maxpacket e \<noteq> 0" "unat (maxpacket e) \<le> 0xFFFF" "unat (maxpacket e) mod 4 = 0"
    "trans_len e \<le> total_len e" "readable (trans_buf e) (unat (total_len e - trans_len e)) u"
    "unat (total_len e - trans_len e) < fuel"
  shows "\<exists>k len' ls. txfifo_loop fuel space n len wlen u = Some (len', u\<lparr>hw := hw u @ ls,
      ept_in := (ept_in u)[n := e\<lparr>trans_buf := padd (trans_buf e) k, trans_len := trans_len e + of_nat k\<rparr>]\<rparr>) \<and>
    k \<le> unat (total_len e - trans_len e) \<and> tx_bytes (of_nat n) ls = bytes_at (trans_buf e) k u \<and> no_xfer ls \<and>
    ((\<forall>j. unat (space j AND 0xFFFF) > (unat (maxpacket e) + 3) div 4) \<and> unat wlen \<le> (unat (maxpacket e) + 3) div 4
      \<longrightarrow> k = unat (total_len e - trans_len e))"
  using assms
proof (induction fuel arbitrary: u e len wlen)
  case (Suc fuel)
  let ?R = "unat (total_len e - trans_len e)"
  show ?case
  proof (cases "space fuel AND 0xFFFF > wlen \<and> trans_len e < total_len e \<and> total_len e \<noteq> 0")
    case False
    have "txfifo_loop (Suc fuel) space n len wlen u = Some (len, u)" using False Suc.prems(1,2) by auto
    moreover have "?R = 0" if "unat (space fuel AND 0xFFFF) > (unat (maxpacket e) + 3) div 4" "unat wlen \<le> (unat (maxpacket e) + 3) div 4"
    proof -
      have "space fuel AND 0xFFFF > wlen" using that by (simp add: word_less_nat_alt)
      then have "\<not> (trans_len e < total_len e)" using False by (auto simp: word_less_nat_alt)
      then show ?thesis using Suc.prems(6) by (simp add: not_less)
    qed
    ultimately show ?thesis using Suc.prems(2)
      by (intro exI[of _ 0] exI[of _ len] exI[of _ "[]"]) (auto simp: bytes_at_def no_xfer_def split: ubase.split)
  next
    case True
    define c where "c = (if total_len e - trans_len e > maxpacket e then maxpacket e else total_len e - trans_len e)"
    note ch = unat_chunk[OF conjunct1[OF conjunct2[OF True]] Suc.prems(3), folded c_def]
    have c16: "unat (ucast c :: u16) = unat c" using ch(1) Suc.prems(4) by (simp add: unsigned_ucast_eq take_bit_eq_mod)
    obtain ws where w: "usb_write_packet (trans_buf e) (of_nat n) (ucast c) u = Some (log_hw (HwFifo (of_nat n) (ucast c) ws) u)"
      "fifo_bytes (of_nat n) (HwFifo (of_nat n) (ucast c) ws) = bytes_at (trans_buf e) (unat c) u"
      using write_packet_val[of "trans_buf e" "ucast c" u] readable_le[OF Suc.prems(7) ch(3)] c16 by auto
    let ?e = "e\<lparr>trans_buf := padd (trans_buf e) (unat c), trans_len := trans_len e + c\<rparr>"
    let ?u = "u\<lparr>hw := hw u @ [HwFifo (of_nat n) (ucast c) ws], ept_in := (ept_in u)[n := ?e]\<rparr>"
    have step: "txfifo_loop (Suc fuel) space n len wlen u = txfifo_loop fuel space n c ((c + 3) div 4) ?u"
      using True Suc.prems(1,2) w(1) by (simp add: c_def[symmetric] log_hw_def padd_def Let_def)
    have rest: "unat (total_len ?e - trans_len ?e) = ?R - unat c" using ch(4) by simp
    have rd: "readable (trans_buf ?e) (?R - unat c) u"
    proof (cases "unat c = ?R")
      case True
      then show ?thesis using Suc.prems(7) by (auto simp: readable_def padd_def)
    next
      case False
      then have "unat c = unat (maxpacket e)" using ch(1) by (simp add: min_def split: if_splits)
      then show ?thesis using readable_padd[of "trans_buf e" "unat c" "?R - unat c" u] Suc.prems(5,7) ch(3) by simp
    qed
    have sp: "readable (trans_buf ?e) (?R - unat c) ?u" using rd by (simp add: readable_def)
    have "?R - unat c < fuel" using Suc.prems(8) ch(2,3) by linarith
    from Suc.IH[of ?u ?e c "(c + 3) div 4"] Suc.prems(1-5) ch(5) sp rest this
    obtain k len' ls where k: "txfifo_loop fuel space n c ((c + 3) div 4) ?u = Some (len', ?u\<lparr>hw := hw ?u @ ls,
        ept_in := (ept_in ?u)[n := ?e\<lparr>trans_buf := padd (trans_buf ?e) k, trans_len := trans_len ?e + of_nat k\<rparr>]\<rparr>)"
      "k \<le> ?R - unat c" "tx_bytes (of_nat n) ls = bytes_at (trans_buf ?e) k ?u" "no_xfer ls"
      "(\<forall>j. unat (space j AND 0xFFFF) > (unat (maxpacket e) + 3) div 4) \<and> unat ((c + 3) div 4) \<le> (unat (maxpacket e) + 3) div 4
        \<longrightarrow> k = ?R - unat c" by auto
    have cw: "unat ((c + 3) div 4) \<le> (unat (maxpacket e) + 3) div 4"
      using ch(1) Suc.prems(4) by (simp add: unat_div unat_word_ariths div_le_mono)
    have "bytes_at (trans_buf e) (unat c + k) u = bytes_at (trans_buf e) (unat c) u @ tx_bytes (of_nat n) ls"
      unfolding k(3) bytes_at_add by (simp add: bytes_at_def split: ubase.split)
    moreover have "trans_len e + of_nat (unat c + k) = trans_len e + c + of_nat k" by simp
    ultimately show ?thesis
      unfolding step k(1) using k(2,4,5) cw ch(3) w(2)
      by (intro exI[of _ "unat c + k"] exI[of _ len'] exI[of _ "HwFifo (of_nat n) (ucast c) ws # ls"]) (simp add: padd_def no_xfer_def ac_simps)
  qed
qed simp

definition roomy :: "(nat \<Rightarrow> u32) \<Rightarrow> usb_ept_info \<Rightarrow> bool" where
  "roomy space e \<longleftrightarrow> (\<forall>j. unat (space j AND 0xFFFF) > (unat (maxpacket e) + 3) div 4)"

definition sendable :: "usb_ept_info \<Rightarrow> 'd usbd_core_type \<Rightarrow> bool" where
  "sendable e u \<longleftrightarrow> maxpacket e \<noteq> 0 \<and> unat (maxpacket e) \<le> 0xFFFF \<and> unat (maxpacket e) mod 4 = 0 \<and>
     trans_len e \<le> total_len e \<and> readable (trans_buf e) (unat (total_len e - trans_len e)) u"

lemma write_txfifo_val:
  assumes "n < length (ept_in u)" "ept_in u ! n = e" "sendable e u" "unat (total_len e - trans_len e) < fuel"
  shows "\<exists>k ls. usb_write_empty_txfifo fuel space n u = Some (u\<lparr>hw := hw u @ ls,
      ept_in := (ept_in u)[n := e\<lparr>trans_buf := padd (trans_buf e) k, trans_len := trans_len e + of_nat k\<rparr>]\<rparr>) \<and>
    k \<le> unat (total_len e - trans_len e) \<and> tx_bytes (of_nat n) ls = bytes_at (trans_buf e) k u \<and> no_xfer ls \<and>
    (roomy space e \<longrightarrow> k = unat (total_len e - trans_len e))"
proof -
  define len where "len = (if total_len e - trans_len e > maxpacket e then maxpacket e else total_len e - trans_len e)"
  have "unat len \<le> unat (maxpacket e)" by (auto simp: len_def word_less_nat_alt)
  moreover from this have "unat (len + 3) = unat len + 3" using assms(3) by (simp add: sendable_def unat_word_ariths)
  ultimately have w: "unat ((len + 3) div 4) \<le> (unat (maxpacket e) + 3) div 4" by (simp add: unat_div div_le_mono)
  have s: "maxpacket e \<noteq> 0" "unat (maxpacket e) \<le> 0xFFFF" "unat (maxpacket e) mod 4 = 0" "trans_len e \<le> total_len e"
    "readable (trans_buf e) (unat (total_len e - trans_len e)) u" using assms(3) by (simp_all add: sendable_def)
  from txfifo_loop_val[OF assms(1,2) s assms(4), of space len "(len + 3) div 4"]
  obtain k len' ls where k: "txfifo_loop fuel space n len ((len + 3) div 4) u = Some (len', u\<lparr>hw := hw u @ ls,
      ept_in := (ept_in u)[n := e\<lparr>trans_buf := padd (trans_buf e) k, trans_len := trans_len e + of_nat k\<rparr>]\<rparr>)"
    "k \<le> unat (total_len e - trans_len e)" "tx_bytes (of_nat n) ls = bytes_at (trans_buf e) k u" "no_xfer ls"
    "(\<forall>j. unat (space j AND 0xFFFF) > (unat (maxpacket e) + 3) div 4) \<and> unat ((len + 3) div 4) \<le> (unat (maxpacket e) + 3) div 4
      \<longrightarrow> k = unat (total_len e - trans_len e)" by blast
  have "roomy space e \<longrightarrow> k = unat (total_len e - trans_len e)" using k(5) w by (simp add: roomy_def)
  with k(1-4) assms(1,2) show ?thesis
    by (intro exI[of _ k] exI[of _ "ls @ (if len' \<le> 0 then [HwTxEmpty (of_nat n) False] else [])"])
      (simp add: usb_write_empty_txfifo_def no_xfer_def len_def[symmetric] log_hw_def Let_def)
qed

text \<open>
  The FIFO fill routine \<^verbatim>\<open>usb_write_empty_txfifo\<close> terminates and is faithful, whatever free space the controller reports at each
  reading: for an endpoint whose packet size is a positive multiple of 4 and whose buffer is readable, fuel beyond the number of bytes
  left is enough; the words it pushes are the next \<open>k\<close> bytes of the buffer in order, no byte twice and
  none beyond the transfer; pointer and count advance by \<open>k\<close>. If there is always room for a packet, everything left is sent.
\<close>

theorem write_txfifo_terminates:
  assumes "n < length (ept_in u)" "ept_in u ! n = e" "sendable e u" "unat (total_len e - trans_len e) < fuel"
  shows "\<exists>k ls. usb_write_empty_txfifo fuel space n u = Some (u\<lparr>hw := hw u @ ls,
      ept_in := (ept_in u)[n := e\<lparr>trans_buf := padd (trans_buf e) k, trans_len := trans_len e + of_nat k\<rparr>]\<rparr>) \<and>
    k \<le> unat (total_len e - trans_len e) \<and> tx_bytes (of_nat n) ls = bytes_at (trans_buf e) k u \<and>
    (roomy space e \<longrightarrow> k = unat (total_len e - trans_len e))"
  using write_txfifo_val[OF assms, of space] by blast

section \<open>Control transfers\<close>

text \<open>The two entries of endpoint 0 after \<^verbatim>\<open>usbd_enumdone_handler\<close>.\<close>

definition ept0_ok :: "usb_ept_info \<Rightarrow> bool" where
  "ept0_ok e \<longleftrightarrow> maxpacket e = 64 \<and> eptn e = 0 \<and> trans_type e = EPT_CONTROL_TYPE"

definition core0 :: "usb_ept_info \<Rightarrow> usb_ept_info list \<Rightarrow> 'd usbd_core_type \<Rightarrow> bool" where
  "core0 e ts u \<longleftrightarrow> ept_in u = e # ts \<and> ept0_ok e \<and> (\<exists>f fs. ept_out u = f # fs \<and> ept0_ok f)"

lemma epn0 [simp]: "epn 0 = 0" by (simp add: epn_def)

lemma unat_ucast16: "unat (ucast (w :: u16) :: u32) = unat w"
proof -
  have "unat w < 2 ^ 16" using unsigned_less[of w] by simp
  then show ?thesis by (simp add: unsigned_ucast_eq take_bit_eq_mod)
qed

lemma ucast16_eq_0: "(ucast (w :: u16) :: u32) = 0 \<longleftrightarrow> w = 0"
  by (simp add: word_unat_eq_iff unat_ucast16)

lemma ucast_down_up: "unat (x :: u32) \<le> 64 \<Longrightarrow> ucast (ucast x :: u16) = x"
  by (simp add: word_unat_eq_iff unat_mod unsigned_ucast_eq take_bit_eq_mod)

text \<open>Nothing but the record of writes and the IN entry of endpoint 0 changes when data is queued there.\<close>

lemma ept_send0:
  assumes "core0 e ts u"
  shows "\<exists>ls. usbd_ept_send 0 p len u = Some (u\<lparr>hw := hw u @ ls,
      ept_in := e\<lparr>trans_buf := p, total_len := min (ucast len) 64, trans_len := 0,
        last_len := (if len = 0 then last_len e else min (ucast len) 64)\<rparr> # ts\<rparr>) \<and> tx_bytes 0 ls = [] \<and>
    (\<forall>k. HwInXfer 0 1 k \<in> set ls \<longleftrightarrow> k = min (ucast len) 64)"
proof -
  have e: "maxpacket e = 64" "eptn e = 0" "trans_type e = 0" "ept_in u = e # ts" using assms by (simp_all add: core0_def ept0_ok_def)
  have m: "(min (ucast len) 64 :: u32) = (if (64 :: u32) < ucast len then 64 else ucast len)" by (auto simp: min_def not_le dest: leD)
  let ?pre = "if in_enabled u 0 then [HwInDisable 0, HwFlushTx 0] else []"
  let ?post = "if min (ucast len) 64 > (0 :: u32) then [HwTxEmpty 0 True] else []"
  show ?thesis
    by (rule exI[of _ "?pre @ [HwInXfer 0 1 (min (ucast len) 64)] @ ?post"])
      (simp add: usbd_ept_send_def usbd_ept_in_check_fifo_def usbd_flush_tx_fifo_def get_in_def put_in_def iso_pid_def log_hw_def
        e m ucast16_eq_0 Let_def)
qed

lemma ept_recv0:
  assumes "ept_out u = f # fs" "ept0_ok f"
  shows "usbd_ept_recv 0 p len u = Some (u\<lparr>hw := hw u @ [HwOutXfer 0 1 64],
    ept_out := f\<lparr>trans_buf := p, total_len := 64, trans_len := 0\<rparr> # fs\<rparr>)"
  using assms by (simp add: usbd_ept_recv_def get_out_def put_out_def iso_pid_def log_hw_def ept0_ok_def Let_def)

text \<open>A data stage with \<open>rest\<close> bytes from \<open>p\<close> on still to go, the first packet of them queued.\<close>

definition ctrl_in :: "usb_ept_info \<Rightarrow> usb_ept_info list \<Rightarrow> uptr \<Rightarrow> u32 \<Rightarrow> 'd usbd_core_type \<Rightarrow> bool" where
  "ctrl_in e ts p rest u \<longleftrightarrow> core0 e ts u \<and> ept0_sts u = USB_EPT0_DATA_IN \<and> trans_buf e = p \<and> trans_len e = 0 \<and>
     total_len e = min rest 64 \<and> last_len e = min rest 64 \<and> rem0_len e = rest \<and> rest \<noteq> 0 \<and> unat rest \<le> 0xFFFF \<and>
     readable p (unat rest) u"

definition zlp_due :: "usb_ept_info \<Rightarrow> u32 \<Rightarrow> 'd usbd_core_type \<Rightarrow> bool" where
  "zlp_due e rest u \<longleftrightarrow> unat rest mod 64 = 0 \<and> unat (ept0_slen e) \<ge> 64 \<and> unat (ept0_slen e) < unat (ept0_wlength u)"

text \<open>One packet: the FIFO is filled, then the controller reports the transfer as complete.\<close>

definition ep0_round :: "nat \<Rightarrow> (nat \<Rightarrow> u32) \<Rightarrow> 'd usbd_class_handler \<Rightarrow> 'd usbd_core_type \<Rightarrow> 'd usbd_core_type option" where
  "ep0_round fuel space ch u = usb_write_empty_txfifo fuel space 0 u \<bind> usbd_core_in_handler ch 0"

fun ep0_rounds :: "nat \<Rightarrow> nat \<Rightarrow> (nat \<Rightarrow> u32) \<Rightarrow> 'd usbd_class_handler \<Rightarrow> 'd usbd_core_type \<Rightarrow> 'd usbd_core_type option" where
  "ep0_rounds 0 fuel space ch u = Some u"
| "ep0_rounds (Suc k) fuel space ch u = ep0_round fuel space ch u \<bind> ep0_rounds k fuel space ch"

definition wide :: "(nat \<Rightarrow> u32) \<Rightarrow> bool" where
  "wide space \<longleftrightarrow> (\<forall>j. unat (space j AND 0xFFFF) > 16)"

lemma ep0_fill:
  assumes "ctrl_in e ts p rest u" "wide space" "64 < fuel"
  shows "\<exists>ls. usb_write_empty_txfifo fuel space 0 u = Some (u\<lparr>hw := hw u @ ls,
      ept_in := e\<lparr>trans_buf := padd p (unat (min rest 64)), trans_len := min rest 64\<rparr> # ts\<rparr>) \<and>
    tx_bytes 0 ls = bytes_at p (unat (min rest 64)) u \<and> no_xfer ls"
proof -
  have c: "ept_in u = e # ts" "maxpacket e = 64" "trans_len e = 0" "total_len e = min rest 64" "trans_buf e = p" "readable p (unat rest) u"
    using assms(1) by (simp_all add: ctrl_in_def core0_def ept0_ok_def)
  have le: "unat (min rest 64) \<le> 64" "unat (min rest 64) \<le> unat rest" by (simp_all add: min_def word_le_nat_alt)
  have "sendable e u" using c readable_le[OF c(6) le(2)] by (simp add: sendable_def)
  moreover have "roomy space e" using assms(2) c(2) by (simp add: roomy_def wide_def)
  ultimately show ?thesis
    using write_txfifo_val[of 0 u e fuel space] c le(1) assms(3) by auto
qed

text \<open>A full packet that is not the last queues the next one behind it.\<close>

lemma ep0_round_more:
  assumes "ctrl_in e ts p rest u" "wide space" "64 < fuel" "unat rest > 64"
  shows "\<exists>u' e' ls. ep0_round fuel space ch u = Some u' \<and> ctrl_in e' ts (padd p 64) (rest - 64) u' \<and> ept0_slen e' = ept0_slen e \<and>
    hw u' = hw u @ ls \<and> tx_bytes 0 ls = bytes_at p 64 u \<and> HwInXfer 0 1 0 \<notin> set ls \<and>
    objs u' = objs u \<and> ept0_wlength u' = ept0_wlength u \<and> conn_state u' = conn_state u"
proof -
  have m: "min rest 64 = 64" using assms(4) by (intro min.absorb2) (simp add: word_le_nat_alt)
  obtain l1 where l1: "usb_write_empty_txfifo fuel space 0 u = Some (u\<lparr>hw := hw u @ l1,
      ept_in := e\<lparr>trans_buf := padd p 64, trans_len := 64\<rparr> # ts\<rparr>)" (is "_ = Some ?u1") "tx_bytes 0 l1 = bytes_at p 64 u" "no_xfer l1"
    using ep0_fill[OF assms(1-3)] m by auto
  let ?e2 = "e\<lparr>trans_buf := padd p 64, trans_len := 64, rem0_len := rest - 64\<rparr>"
  let ?u2 = "?u1\<lparr>ept_in := ?e2 # ts\<rparr>"
  have c2: "core0 ?e2 ts ?u2" using assms(1) by (simp add: ctrl_in_def core0_def ept0_ok_def)
  have r: "unat (rest - 64) = unat rest - 64" using assms(4) by (simp add: unat_sub word_le_nat_alt)
  let ?n = "ucast (min (rest - 64) 64) :: u16"
  have n: "(ucast ?n :: u32) = min (rest - 64) 64"
    by (rule ucast_down_up) (simp add: min_def word_le_nat_alt)
  have m0: "min (rest - 64) 64 \<noteq> 0" using r assms(4) by (auto simp: min_def word_unat_eq_iff)
  then have n0: "?n \<noteq> 0" using n ucast16_eq_0[of ?n] by metis
  from ept_send0[OF c2, of "padd p 64" ?n] obtain l2 where
    l2: "usbd_ept_send 0 (padd p 64) ?n ?u2 = Some (?u2\<lparr>hw := hw ?u2 @ l2, ept_in := ?e2\<lparr>trans_buf := padd p 64,
        total_len := min (rest - 64) 64, trans_len := 0, last_len := min (rest - 64) 64\<rparr> # ts\<rparr>)" (is "_ = Some ?u3")
    "tx_bytes 0 l2 = []" "\<forall>k. HwInXfer 0 1 k \<in> set l2 \<longleftrightarrow> k = min (rest - 64) 64" using n n0 by auto
  have "rest > 64" using assms(4) by (simp add: word_less_nat_alt)
  then have run: "ep0_round fuel space ch u = Some ?u3"
    using assms(1) l1(1) l2(1) by (simp add: ep0_round_def usbd_core_in_handler_def ctrl_in_def core0_def ept0_ok_def Let_def)
  have "readable (padd p 64) (unat (rest - 64)) u"
    using readable_padd[of p 64 "unat rest - 64" u] assms(1,4) r by (simp add: ctrl_in_def)
  then have "ctrl_in (?e2\<lparr>trans_buf := padd p 64, total_len := min (rest - 64) 64, trans_len := 0, last_len := min (rest - 64) 64\<rparr>)
      ts (padd p 64) (rest - 64) ?u3"
    using assms(1,4) r by (auto simp: ctrl_in_def core0_def ept0_ok_def readable_def word_unat_eq_iff)
  then show ?thesis
    using run l1(2,3) l2(2,3) m0 by (intro exI[of _ ?u3]) (auto simp: no_xfer_def)
qed

text \<open>
  How a data stage ends: with the status stage armed, or with an empty packet on its way whose completion then
  arms it.
\<close>

definition stage_end :: "'d usbd_class_handler \<Rightarrow> bool \<Rightarrow> hw_act list \<Rightarrow> 'd usbd_core_type \<Rightarrow> bool" where
  "stage_end ch z ls u \<longleftrightarrow> (HwInXfer 0 1 0 \<in> set ls \<longleftrightarrow> z) \<and>
     (if z then ept0_sts u = USB_EPT0_DATA_IN \<and> (\<exists>u'. usbd_core_in_handler ch 0 u = Some u' \<and> ept0_sts u' = USB_EPT0_STATUS_OUT)
      else ept0_sts u = USB_EPT0_STATUS_OUT)"

lemma stage_end_prefix: "HwInXfer 0 1 0 \<notin> set l1 \<Longrightarrow> stage_end ch z (l1 @ l2) u = stage_end ch z l2 u"
  by (simp add: stage_end_def)

lemma finish_in:
  assumes "core0 e ts u" "ept0_sts u = USB_EPT0_DATA_IN" "unat (rem0_len e) \<le> 64" "ept0_tx_handler ch = Some"
    "\<not> (last_len e = 64 \<and> ept0_slen e \<ge> 64 \<and> ept0_slen e < ucast (ept0_wlength u))"
  shows "\<exists>u'. usbd_core_in_handler ch 0 u = Some u' \<and> ept0_sts u' = USB_EPT0_STATUS_OUT \<and> hw u' = hw u @ [HwOutXfer 0 1 64]"
proof -
  obtain f fs where f: "ept_out u = f # fs" "ept0_ok f" using assms(1) by (auto simp: core0_def)
  have "\<not> rem0_len e > 64" using assms(3) by (simp add: word_less_nat_alt)
  with assms(1,2,4,5) f show ?thesis
    by (auto simp: usbd_core_in_handler_def usbd_ctrl_recv_status_def core0_def ept0_ok_def[of e]
      ept_recv0[of "u\<lparr>ept0_sts := USB_EPT0_STATUS_OUT\<rparr>" f fs])
qed

lemma ep0_round_last:
  assumes "ctrl_in e ts p rest u" "wide space" "64 < fuel" "unat rest \<le> 64" "ept0_tx_handler ch = Some"
  shows "\<exists>u' ls. ep0_round fuel space ch u = Some u' \<and> hw u' = hw u @ ls \<and> tx_bytes 0 ls = bytes_at p (unat rest) u \<and>
    stage_end ch (zlp_due e rest u) ls u'"
proof -
  have m: "min rest 64 = rest" using assms(4) by (intro min.absorb1) (simp add: word_le_nat_alt)
  obtain l1 where l1: "usb_write_empty_txfifo fuel space 0 u = Some (u\<lparr>hw := hw u @ l1,
      ept_in := e\<lparr>trans_buf := padd p (unat rest), trans_len := rest\<rparr> # ts\<rparr>)" (is "_ = Some ?u1")
    "tx_bytes 0 l1 = bytes_at p (unat rest) u" "no_xfer l1"
    using ep0_fill[OF assms(1-3)] m by auto
  let ?e1 = "e\<lparr>trans_buf := padd p (unat rest), trans_len := rest\<rparr>"
  have c1: "core0 ?e1 ts ?u1" and d: "ept0_sts ?u1 = USB_EPT0_DATA_IN" "unat (rem0_len ?e1) \<le> 64" "last_len e = rest" "rest \<noteq> 0"
    using assms(1,4) m by (simp_all add: ctrl_in_def core0_def ept0_ok_def)
  have z: "zlp_due e rest u \<longleftrightarrow> last_len e = 64 \<and> ept0_slen e \<ge> 64 \<and> ept0_slen e < ucast (ept0_wlength u)"
  proof -
    have "unat rest mod 64 = 0 \<longleftrightarrow> unat rest = 64" using assms(4) d(4) unat_eq_0[of rest] by (cases "unat rest = 64") auto
    then show ?thesis using d(3)
      by (simp add: zlp_due_def word_le_nat_alt word_less_nat_alt unat_ucast16 word_unat_eq_iff)
  qed
  show ?thesis
  proof (cases "zlp_due e rest u")
    case False
    then obtain u' where "usbd_core_in_handler ch 0 ?u1 = Some u'" "ept0_sts u' = USB_EPT0_STATUS_OUT" "hw u' = hw ?u1 @ [HwOutXfer 0 1 64]"
      using finish_in[OF c1 d(1,2) assms(5)] z by auto
    with False l1 show ?thesis
      by (intro exI[of _ u'] exI[of _ "l1 @ [HwOutXfer 0 1 64]"]) (simp add: ep0_round_def stage_end_def no_xfer_def)
  next
    case True
    let ?e3 = "e\<lparr>trans_buf := NULLP, total_len := 0, trans_len := 0, last_len := 0\<rparr>"
    let ?e2 = "?e1\<lparr>last_len := 0\<rparr>" and ?u2 = "?u1\<lparr>ept_in := ?e1\<lparr>last_len := 0\<rparr> # ts\<rparr>"
    have c2: "core0 ?e2 ts ?u2" using c1 by (simp add: core0_def ept0_ok_def)
    from ept_send0[OF c2, of NULLP 0] obtain l2 where
      l2: "usbd_ept_send 0 NULLP 0 ?u2 = Some (?u2\<lparr>hw := hw ?u2 @ l2, ept_in := ?e3 # ts\<rparr>)"
        (is "_ = Some ?u3") "tx_bytes 0 l2 = []" "HwInXfer 0 1 0 \<in> set l2" by auto
    obtain f fs where f: "ept_out u = f # fs" "ept0_ok f" using assms(1) by (auto simp: ctrl_in_def core0_def)
    let ?u4 = "?u3\<lparr>hw := hw ?u3 @ [HwOutXfer 0 1 64], ept_out := f\<lparr>trans_buf := NULLP, total_len := 64, trans_len := 0\<rparr> # fs\<rparr>"
    have "usbd_ept_recv 0 NULLP 0 ?u3 = Some ?u4" using f by (intro ept_recv0) simp_all
    moreover have "\<not> rem0_len e > 64" using d(2) by (simp add: word_less_nat_alt)
    ultimately have "usbd_core_in_handler ch 0 ?u1 = Some ?u4"
      using True z c1 d(1) l2(1) by (simp add: usbd_core_in_handler_def core0_def ept0_ok_def Let_def)
    moreover have "core0 ?e3 ts ?u4" "ept0_sts ?u4 = USB_EPT0_DATA_IN"
      using c2 f d(1) by (simp_all add: core0_def ept0_ok_def)
    moreover from finish_in[OF this, of ch] have "\<exists>u'. usbd_core_in_handler ch 0 ?u4 = Some u' \<and> ept0_sts u' = USB_EPT0_STATUS_OUT"
      using d(2) assms(5) by auto
    ultimately show ?thesis
      using True l1 l2(2,3)
      by (intro exI[of _ ?u4] exI[of _ "l1 @ l2 @ [HwOutXfer 0 1 64]"]) (simp add: ep0_round_def stage_end_def)
  qed
qed

lemma ep0_rounds_val:
  assumes "ctrl_in e ts p rest u" "wide space" "64 < fuel" "ept0_tx_handler ch = Some" "(unat rest + 63) div 64 = Suc k"
  shows "\<exists>u' ls. ep0_rounds (Suc k) fuel space ch u = Some u' \<and> hw u' = hw u @ ls \<and>
    tx_bytes 0 ls = bytes_at p (unat rest) u \<and> stage_end ch (zlp_due e rest u) ls u'"
  using assms(1,5)
proof (induction k arbitrary: e p rest u)
  case 0
  have "unat rest \<le> 64" using 0(2) dividend_less_times_div[of 64 "unat rest + 63"] by simp
  from ep0_round_last[OF 0(1) assms(2,3) this assms(4)] show ?case by auto
next
  case (Suc k)
  have gt: "unat rest > 64" using Suc.prems(2) times_div_less_eq_dividend[of 64 "unat rest + 63"] by simp
  from ep0_round_more[OF Suc.prems(1) assms(2,3) gt] obtain u1 e1 l1 where
    u1: "ep0_round fuel space ch u = Some u1" "ctrl_in e1 ts (padd p 64) (rest - 64) u1" "ept0_slen e1 = ept0_slen e"
    "hw u1 = hw u @ l1" "tx_bytes 0 l1 = bytes_at p 64 u" "HwInXfer 0 1 0 \<notin> set l1" "objs u1 = objs u"
    "ept0_wlength u1 = ept0_wlength u" by blast
  have r: "unat (rest - 64) = unat rest - 64" using gt by (simp add: unat_sub word_le_nat_alt)
  have "(unat (rest - 64) + 63 + 64) div 64 = Suc (Suc k)" using Suc.prems(2) gt r by simp
  then have "(unat (rest - 64) + 63) div 64 = Suc k" by (subst (asm) div_add_self2) simp_all
  from Suc.IH[OF u1(2) this] obtain u2 l2 where
    u2: "ep0_rounds (Suc k) fuel space ch u1 = Some u2" "hw u2 = hw u1 @ l2" "tx_bytes 0 l2 = bytes_at (padd p 64) (unat (rest - 64)) u1"
    "stage_end ch (zlp_due e1 (rest - 64) u1) l2 u2" by blast
  have "(unat rest - 64) mod 64 = unat rest mod 64" using gt by (simp add: le_mod_geq)
  then have "zlp_due e1 (rest - 64) u1 = zlp_due e rest u" using r u1(3,8) by (simp add: zlp_due_def)
  moreover have "bytes_at (padd p 64) (unat (rest - 64)) u1 = bytes_at (padd p 64) (unat (rest - 64)) u"
    using u1(7) by (rule bytes_at_cong)
  moreover have "bytes_at p (unat rest) u = bytes_at p 64 u @ bytes_at (padd p 64) (unat (rest - 64)) u"
    using bytes_at_add[of p 64 "unat rest - 64" u] gt r by simp
  moreover have "ep0_rounds (Suc (Suc k)) fuel space ch u = Some u2"
    by (subst ep0_rounds.simps(2)) (simp only: u1(1) u2(1) bind.bind_lunit)
  ultimately show ?case
    using u1(4-6) u2(2-4) by (intro exI[of _ u2] exI[of _ "l1 @ l2"]) (simp add: stage_end_prefix del: ep0_rounds.simps)
qed

text \<open>
  C14. The data stage of a control read. \<^verbatim>\<open>usbd_ctrl_send\<close> of \<open>len > 0\<close> bytes, followed for each 64-byte packet by the FIFO-empty and
  the transfer-complete interrupt, puts exactly the \<open>len\<close> bytes of the buffer into the FIFO of endpoint 0, in order. An
  empty packet closes the stage if and only if \<open>len\<close> is a multiple of 64 and the host asked for more; with or without it the
  status stage is armed at the end. Every handler returns.
\<close>

theorem control_read_data_stage:
  assumes "core0 e ts u" "len \<noteq> 0" "readable p (unat len) u" "wide space" "64 < fuel" "ept0_tx_handler ch = Some"
  shows "\<exists>u' ls. (usbd_ctrl_send p len u \<bind> ep0_rounds ((unat len + 63) div 64) fuel space ch) = Some u' \<and>
    hw u' = hw u @ ls \<and> tx_bytes 0 ls = bytes_at p (unat len) u \<and>
    stage_end ch (unat len mod 64 = 0 \<and> unat len < unat (ept0_wlength u)) ls u'"
proof -
  let ?e = "e\<lparr>ept0_slen := ucast len, rem0_len := ucast len\<rparr>"
  let ?u = "u\<lparr>ept_in := ?e # ts, ept0_sts := USB_EPT0_DATA_IN\<rparr>"
  have c: "core0 ?e ts ?u" using assms(1) by (simp add: core0_def ept0_ok_def)
  let ?e1 = "?e\<lparr>trans_buf := p, total_len := min (ucast len) 64, trans_len := 0, last_len := min (ucast len) 64\<rparr>"
  from ept_send0[OF c, of p len] assms(2) obtain l1 where
    l1: "usbd_ept_send 0 p len ?u = Some (?u\<lparr>hw := hw u @ l1, ept_in := ?e1 # ts\<rparr>)" (is "_ = Some ?u1") "tx_bytes 0 l1 = []"
    "\<forall>k. HwInXfer 0 1 k \<in> set l1 \<longleftrightarrow> k = min (ucast len) 64" by auto
  have send: "usbd_ctrl_send p len u = Some ?u1" using assms(1) l1(1) by (simp add: usbd_ctrl_send_def core0_def)
  have l: "unat (ucast len :: u32) = unat len" "(ucast len :: u32) \<noteq> 0" using assms(2) by (simp_all add: unat_ucast16 ucast16_eq_0)
  have "unat len < 2 ^ 16" using unsigned_less[of len] by simp
  then have ci: "ctrl_in ?e1 ts p (ucast len) ?u1"
    using assms(1,3) l by (auto simp: ctrl_in_def core0_def ept0_ok_def readable_def)
  have "unat len \<noteq> 0" using assms(2) by (simp add: unat_eq_0)
  then have "(unat len + 63) div 64 \<noteq> 0" by (simp add: div_eq_0_iff)
  then obtain k where k: "(unat (ucast len :: u32) + 63) div 64 = Suc k" using l(1) by (auto simp: gr0_conv_Suc)
  from ep0_rounds_val[OF ci assms(4-6) k] obtain u' l2 where
    r: "ep0_rounds (Suc k) fuel space ch ?u1 = Some u'" "hw u' = hw u @ l1 @ l2" "tx_bytes 0 l2 = bytes_at p (unat len) ?u1"
    "stage_end ch (zlp_due ?e1 (ucast len) ?u1) l2 u'" using l(1) by auto
  have "zlp_due ?e1 (ucast len) ?u1 \<longleftrightarrow> unat len mod 64 = 0 \<and> unat len < unat (ept0_wlength u)"
    using l(1) \<open>unat len \<noteq> 0\<close> by (auto simp: zlp_due_def)
  moreover have "min (ucast len) 64 \<noteq> (0 :: u32)" using l(2) by (simp add: min_def)
  moreover have "bytes_at p (unat len) ?u1 = bytes_at p (unat len) u" by (rule bytes_at_cong) simp
  moreover have "(usbd_ctrl_send p len u \<bind> ep0_rounds ((unat len + 63) div 64) fuel space ch) = Some u'"
    using send r(1) k l(1) by (simp del: ep0_rounds.simps)
  ultimately show ?thesis
    using r(2-4) l1(2,3) by (intro exI[of _ u'] exI[of _ "l1 @ l2"]) (simp add: stage_end_prefix)
qed

text \<open>A configured device with a 100-byte object, and a class driver that does nothing, for examples.\<close>

definition ept_sample :: "u8 \<Rightarrow> usb_ept_info" where
  "ept_sample n = \<lparr>eptn = n, ept_address = n, inout = 0, trans_type = 0, maxpacket = 64, stalled = 0, ept_status = 0,
     trans_buf = NULLP, total_len = 0, trans_len = 0, last_len = 0, rem0_len = 0, ept0_slen = 0\<rparr>"

definition core_sample :: "nat usbd_core_type" where
  "core_sample = \<lparr>ept_in = map ept_sample [0, 1, 2, 3, 4, 5, 6, 7], ept_out = map ept_sample [0, 1, 2, 3, 4, 5, 6, 7],
     setup_req = \<lparr>bmRequestType = 0x80, bRequest = 6, wValue = 0x0200, wIndex = 0, wLength = 255\<rparr>,
     setup_buffer = replicate 12 0, ept0_sts = USB_EPT0_SETUP, ept0_wlength = 255, conn_state = USB_CONN_STATE_CONFIGURED,
     old_conn_state = USB_CONN_STATE_DEFAULT, device_addr = 0, remote_wakup = 0, default_config = 0, dev_config = 1, config_status = 0,
     objs = (\<lambda>i. if i = 0 then g_usbd_configuration @ [0, 0] else []), in_enabled = (\<lambda>_. False), suspended = False, soffn = 0, hw = [],
     pdata = 0\<rparr>"

definition nop_class :: "'d usbd_class_handler" where
  "nop_class = \<lparr>init_handler = Some, clear_handler = Some, setup_handler = (\<lambda>_ u. Some (USB_OK, u)), ept0_tx_handler = Some,
     ept0_rx_handler = Some, in_handler = (\<lambda>_. Some), out_handler = (\<lambda>_. Some), sof_handler = Some, event_handler = (\<lambda>_. Some)\<rparr>"

lemma core_sample_core0: "core0 (ept_sample 0) (map ept_sample [1, 2, 3, 4, 5, 6, 7]) core_sample"
  by (simp add: core0_def ept0_ok_def core_sample_def ept_sample_def)

theorem control_read_data_stage_witness:
  "\<exists>u'. (usbd_ctrl_send (BObj 0, 0) 106 core_sample \<bind> ep0_rounds 2 65 (\<lambda>_. 100) nop_class) = Some u' \<and>
    tx_bytes 0 (hw u') = g_usbd_configuration \<and> ept0_sts u' = USB_EPT0_STATUS_OUT"
proof -
  have l: "length g_usbd_configuration = 106" by (rule config_fields(2))
  have "readable (BObj 0, 0) (unat (106 :: u16)) core_sample" using l by (simp add: readable_def core_sample_def)
  moreover have "wide (\<lambda>_. 100)" by (simp add: wide_def)
  moreover have "bytes_at (BObj 0, 0) 106 core_sample = g_usbd_configuration" using l by (simp add: bytes_at_def core_sample_def)
  moreover have "hw core_sample = []" by (simp add: core_sample_def)
  ultimately show ?thesis
    using control_read_data_stage[OF core_sample_core0, of 106 "(BObj 0, 0)" "\<lambda>_. 100" 65 nop_class]
    by (fastforce simp: nop_class_def stage_end_def simp del: ep0_rounds.simps)
qed

theorem write_txfifo_terminates_witness:
  "\<exists>u'. usb_write_empty_txfifo 107 (\<lambda>_. 100) 1
      (core_sample\<lparr>ept_in := [ept_sample 0, (ept_sample 1)\<lparr>trans_buf := (BObj 0, 0), total_len := 106\<rparr>]\<rparr>) = Some u' \<and>
    tx_bytes 1 (hw u') = g_usbd_configuration"
proof -
  let ?e = "(ept_sample 1)\<lparr>trans_buf := (BObj 0, 0), total_len := 106\<rparr>"
  let ?u = "core_sample\<lparr>ept_in := [ept_sample 0, ?e]\<rparr>"
  have l: "length g_usbd_configuration = 106" by (rule config_fields(2))
  have "sendable ?e ?u" using l by (simp add: sendable_def readable_def core_sample_def ept_sample_def)
  moreover have "roomy (\<lambda>_. 100) ?e" by (simp add: roomy_def ept_sample_def)
  moreover have "bytes_at (BObj 0, 0) 106 ?u = g_usbd_configuration" using l by (simp add: bytes_at_def core_sample_def)
  moreover have "hw ?u = []" "trans_len ?e = 0" by (simp_all add: core_sample_def ept_sample_def)
  ultimately show ?thesis
    using write_txfifo_terminates[of 1 ?u ?e 107 "\<lambda>_. 100"] by (auto simp: padd_def)
qed

section \<open>Enumeration\<close>

lemma ucast_u8_u16 [simp]: "ucast (ucast (b :: u8) :: u16) = b"
  by (rule bit_word_eqI) (simp add: bit_unsigned_iff)

lemma parse_setup:
  "usbd_setup_request_parse ([t, r, v, v', i, i', l, l'] @ xs) =
    Some \<lparr>bmRequestType = t, bRequest = r, wValue = ucast v + push_bit 8 (ucast v'), wIndex = ucast i + push_bit 8 (ucast i'),
      wLength = ucast l + push_bit 8 (ucast l')\<rparr>"
  by (simp add: usbd_setup_request_parse_def swapbyte_def)

lemma send_status_val:
  assumes "core0 e ts u"
  shows "\<exists>ls e'. usbd_ctrl_send_status u = Some (u\<lparr>ept0_sts := USB_EPT0_STATUS_IN, hw := hw u @ ls, ept_in := e' # ts\<rparr>) \<and>
    core0 e' ts (u\<lparr>ept0_sts := USB_EPT0_STATUS_IN, hw := hw u @ ls, ept_in := e' # ts\<rparr>) \<and> HwInXfer 0 1 0 \<in> set ls"
proof -
  have c: "core0 e ts (u\<lparr>ept0_sts := USB_EPT0_STATUS_IN\<rparr>)" using assms by (simp add: core0_def)
  from ept_send0[OF c, of NULLP 0] obtain ls where
    "usbd_ctrl_send_status u = Some (u\<lparr>ept0_sts := USB_EPT0_STATUS_IN, hw := hw u @ ls,
      ept_in := e\<lparr>trans_buf := NULLP, total_len := 0, trans_len := 0\<rparr> # ts\<rparr>)" "HwInXfer 0 1 0 \<in> set ls"
    by (auto simp: usbd_ctrl_send_status_def)
  then show ?thesis using assms
    by (intro exI[of _ ls] exI[of _ "e\<lparr>trans_buf := NULLP, total_len := 0, trans_len := 0\<rparr>"]) (simp add: core0_def ept0_ok_def)
qed

lemma reset_enum_val:
  assumes "ept_in u = e # ts" "ept_out u = f # fs" "eptn e = 0" "eptn f = 0" "clear_handler ch = Some" "event_handler ch = (\<lambda>_. Some)"
  shows "\<exists>u1 e1. (usbd_reset_handler ch u \<bind> usbd_enumdone_handler ch) = Some u1 \<and> core0 e1 ts u1 \<and>
    conn_state u1 = USB_CONN_STATE_DEFAULT \<and> pdata u1 = pdata u"
  using assms
  by (simp add: usbd_reset_handler_def usbd_enumdone_handler_def usbd_ept_open_def get_in_def get_out_def put_in_def put_out_def
    log_hw_def epn_def core0_def ept0_ok_def Let_def)


text \<open>The sample device, with a class driver that counts its initialisations.\<close>

definition counting_class :: "nat usbd_class_handler" where
  "counting_class = nop_class\<lparr>init_handler := (\<lambda>u. Some (u\<lparr>pdata := Suc (pdata u)\<rparr>))\<rparr>"


section \<open>Requests to endpoints the device does not have\<close>

lemma ctrl_send_status_word:
  assumes "core0 e ts u"
  shows "\<exists>u'. usbd_ctrl_send p 2 u = Some u' \<and> ept_out u' = ept_out u \<and>
    (\<exists>e'. ept_in u' = e' # ts \<and> ept_status e' = ept_status e \<and> trans_buf e' = p \<and> total_len e' = 2)"
proof -
  let ?e = "e\<lparr>ept0_slen := 2, rem0_len := 2\<rparr>"
  have "core0 ?e ts (u\<lparr>ept_in := ?e # ts, ept0_sts := USB_EPT0_DATA_IN\<rparr>)" using assms by (simp add: core0_def ept0_ok_def)
  from ept_send0[OF this, of p 2] assms show ?thesis by (auto simp: usbd_ctrl_send_def core0_def)
qed

text \<open>What \<^verbatim>\<open>GET_STATUS\<close> queues for an endpoint: the address of the status word of its table entry, which holds the stall bit.\<close>

definition status_queued :: "bool \<Rightarrow> nat \<Rightarrow> u32 \<Rightarrow> 'd usbd_core_type \<Rightarrow> bool" where
  "status_queued d n st u \<longleftrightarrow> trans_buf (ept_in u ! 0) = (BEptStatus d n, 0) \<and> total_len (ept_in u ! 0) = 2 \<and>
     ept_status ((if d then ept_in u else ept_out u) ! n) = st"

lemma ept_get_status_val:
  assumes "core0 e ts u" "length (ept_in u) = 8" "length (ept_out u) = 8" "epn a < 8"
  shows "\<exists>u'. ept_get_status a st u = Some u' \<and> status_queued (a AND 0x80 \<noteq> 0) (epn a) st u'"
proof (cases "a AND 0x80 = 0")
  case True
  obtain f fs where f: "ept_out u = f # fs" "ept0_ok f" using assms(1) by (auto simp: core0_def)
  let ?f = "(ept_out u ! epn a)\<lparr>ept_status := st\<rparr>"
  have "core0 e ts (u\<lparr>ept_out := (ept_out u)[epn a := ?f]\<rparr>)"
    using assms(1) f by (cases "epn a") (simp_all add: core0_def ept0_ok_def)
  from ctrl_send_status_word[OF this, of "(BEptStatus False (epn a), 0)"] True assms(3,4) show ?thesis
    by (auto simp: ept_get_status_def get_out_def put_out_def status_queued_def)
next
  case False
  let ?t = "(ept_in u)[epn a := (ept_in u ! epn a)\<lparr>ept_status := st\<rparr>]"
  obtain e1 ts1 where t: "?t = e1 # ts1" using assms(2) by (cases ?t) auto
  have "core0 e1 ts1 (u\<lparr>ept_in := ?t\<rparr>)" using assms(1) t by (cases "epn a") (auto simp: core0_def ept0_ok_def)
  from ctrl_send_status_word[OF this, of "(BEptStatus True (epn a), 0)"] obtain u' e' where
    u': "usbd_ctrl_send (BEptStatus True (epn a), 0) 2 (u\<lparr>ept_in := ?t\<rparr>) = Some u'" "ept_in u' = e' # ts1"
    "ept_status e' = ept_status e1" "trans_buf e' = (BEptStatus True (epn a), 0)" "total_len e' = 2" by auto
  have "ept_status (?t ! epn a) = st" using assms(2,4) by simp
  then have "ept_status (ept_in u' ! epn a) = st" using u'(2,3) t by (cases "epn a") auto
  with u' False assms(2,4) show ?thesis
    by (auto simp: ept_get_status_def get_in_def put_in_def status_queued_def)
qed

text \<open>
  A \<^verbatim>\<open>GET_STATUS\<close> request to an endpoint of a configured device. For an endpoint number below the eight entries of the tables
  the device queues the two bytes of that endpoint's stall bit, for IN and OUT alike. For any of the numbers 8 to 127,
  which the request can carry as well, the table access is out of bounds and the request has no defined result.
\<close>

theorem endpoint_request_bounds:
  assumes "core0 e ts u" "length (ept_in u) = 8" "length (ept_out u) = 8" "conn_state u = USB_CONN_STATE_CONFIGURED"
    "bmRequestType (setup_req u) = 0x82" "bRequest (setup_req u) = 0" "a = ucast (wIndex (setup_req u))"
  shows "(epn a < 8 \<longrightarrow> (\<exists>u'. usbd_endpoint_request ch u = Some u' \<and>
      status_queued (a AND 0x80 \<noteq> 0) (epn a) (if stalled ((if a AND 0x80 \<noteq> 0 then ept_in u else ept_out u) ! epn a) = 1 then 1 else 0) u')) \<and>
    (8 \<le> epn a \<longrightarrow> usbd_endpoint_request ch u = None)"
proof (cases "epn a < 8")
  case True
  then show ?thesis
    using ept_get_status_val[OF assms(1-3) True] assms(2-7)
    by (auto simp: usbd_endpoint_request_def get_in_def get_out_def)
next
  case False
  then show ?thesis using assms(2-7) by (simp add: usbd_endpoint_request_def get_in_def get_out_def Let_def)
qed

theorem endpoint_request_bounds_witness:
  "(\<exists>u'. usbd_endpoint_request nop_class (core_sample\<lparr>setup_req := \<lparr>bmRequestType = 0x82, bRequest = 0, wValue = 0, wIndex = 0x83, wLength = 2\<rparr>\<rparr>) =
      Some u' \<and> status_queued True 3 0 u') \<and>
   usbd_endpoint_request nop_class (core_sample\<lparr>setup_req := \<lparr>bmRequestType = 0x82, bRequest = 0, wValue = 0, wIndex = 0x88, wLength = 2\<rparr>\<rparr>) = None"
proof -
  let ?u = "\<lambda>i. core_sample\<lparr>setup_req := \<lparr>bmRequestType = 0x82, bRequest = 0, wValue = 0, wIndex = i, wLength = 2\<rparr>\<rparr>"
  have c: "core0 (ept_sample 0) (map ept_sample [1, 2, 3, 4, 5, 6, 7]) (?u i)" for i
    using core_sample_core0 by (simp add: core0_def)
  have l: "length (ept_in (?u i)) = 8" "length (ept_out (?u i)) = 8" "conn_state (?u i) = USB_CONN_STATE_CONFIGURED" for i
    by (simp_all add: core_sample_def)
  have n: "epn 0x83 = 3" "epn 0x88 = 8" by (simp_all add: epn_def)
  have s: "stalled (ept_in (?u 0x83) ! 3) = 0" by (simp add: core_sample_def ept_sample_def)
  show ?thesis
    using endpoint_request_bounds[OF c[of "0x83"] l[of "0x83"], of "0x83" nop_class]
      endpoint_request_bounds[OF c[of "0x88"] l[of "0x88"], of "0x88" nop_class] n s by simp
qed

end
