(* ===== verification/Net_Timers.thy ===== *)
theory Net_Timers
  imports Prelude "HOL-Library.Multiset"
begin

text \<open>
  The timers of the network stack, \<^verbatim>\<open>LWIP/src/core/timers.c\<close>, in the build of \<^verbatim>\<open>lwipopts.h\<close> (an operating system, TCP, ARP,
  reassembly, DHCP, IGMP and DNS; no AutoIP). The timeout list is a difference list: every entry stores the time
  after its predecessor. Besides the message loop of the TCP/IP thread the firmware has a second driver of the
  same list, \<^verbatim>\<open>lwip_timeout_poll\<close>, which the network task calls.

  The linked list is a list of records. The memory pool of ten entries is its number of free entries; \<^verbatim>\<open>LWIP_ASSERT\<close> prints and goes on,
  so a timeout is dropped when the pool is empty. Calls into the protocols are recorded in order. Whether TCP
  has active connections is part of the state, which the protocols set and the timers only read.
\<close>

section \<open>The code\<close>

datatype sys_timeout_handler =
    tcpip_tcp_timer | ip_reass_timer | arp_timer | dhcp_timer_coarse | dhcp_timer_fine | igmp_timer | dns_timer | other_handler nat

record sys_timeo =
  time :: u32
  h :: "sys_timeout_handler option"
  arg :: nat

record timers =
  next_timeout :: "sys_timeo list"
  timeouts_last_time :: u32
  tcpip_tcp_timer_active :: bool
  tcp_pcbs :: bool
  memp_free_timeouts :: nat
  calls :: "(sys_timeout_handler \<times> nat) list"

abbreviation (input) TCP_TMR_INTERVAL :: u32 where "TCP_TMR_INTERVAL \<equiv> 250"
abbreviation (input) IP_TMR_INTERVAL :: u32 where "IP_TMR_INTERVAL \<equiv> 1000"
abbreviation (input) ARP_TMR_INTERVAL :: u32 where "ARP_TMR_INTERVAL \<equiv> 5000"
abbreviation (input) DHCP_COARSE_TIMER_MSECS :: u32 where "DHCP_COARSE_TIMER_MSECS \<equiv> 60000"
abbreviation (input) DHCP_FINE_TIMER_MSECS :: u32 where "DHCP_FINE_TIMER_MSECS \<equiv> 500"
abbreviation (input) IGMP_TMR_INTERVAL :: u32 where "IGMP_TMR_INTERVAL \<equiv> 100"
abbreviation (input) DNS_TMR_INTERVAL :: u32 where "DNS_TMR_INTERVAL \<equiv> 1000"
abbreviation (input) SYS_ARCH_TIMEOUT :: u32 where "SYS_ARCH_TIMEOUT \<equiv> 0xFFFFFFFF"

text \<open>The loop of \<^verbatim>\<open>sys_timeout\<close>: \<open>t\<close> is the current entry, \<open>n\<close> the new one.\<close>

fun timeout_loop :: "sys_timeo \<Rightarrow> sys_timeo \<Rightarrow> sys_timeo list \<Rightarrow> sys_timeo list" where
  "timeout_loop n t rest =
     (let n = n\<lparr>time := time n - time t\<rparr> in
      case rest of
        [] \<Rightarrow> [t, n]
      | t' # ts \<Rightarrow> (if time t' > time n then t # n # t'\<lparr>time := time t' - time n\<rparr> # ts else t # timeout_loop n t' ts))"

definition timeout_insert :: "sys_timeo \<Rightarrow> sys_timeo list \<Rightarrow> sys_timeo list" where
  "timeout_insert n l =
     (case l of
        [] \<Rightarrow> [n]
      | t # ts \<Rightarrow> (if time t > time n then n # t\<lparr>time := time t - time n\<rparr> # ts else timeout_loop n t ts))"

definition sys_timeout :: "u32 \<Rightarrow> sys_timeout_handler option \<Rightarrow> nat \<Rightarrow> timers \<Rightarrow> timers" where
  "sys_timeout msecs handler a s =
     (if memp_free_timeouts s = 0 then s
      else s\<lparr>memp_free_timeouts := memp_free_timeouts s - 1,
             next_timeout := timeout_insert \<lparr>time = msecs, h = handler, arg = a\<rparr> (next_timeout s)\<rparr>)"

fun untimeout_loop :: "sys_timeout_handler option \<Rightarrow> nat \<Rightarrow> sys_timeo list \<Rightarrow> (bool \<times> sys_timeo list)" where
  "untimeout_loop handler a [] = (False, [])"
| "untimeout_loop handler a (t # ts) =
     (if h t = handler \<and> arg t = a
      then (True, case ts of [] \<Rightarrow> [] | t' # ts' \<Rightarrow> t'\<lparr>time := time t' + time t\<rparr> # ts')
      else (let (b, ts) = untimeout_loop handler a ts in (b, t # ts)))"

definition sys_untimeout :: "sys_timeout_handler option \<Rightarrow> nat \<Rightarrow> timers \<Rightarrow> timers" where
  "sys_untimeout handler a s =
     (let (b, l) = untimeout_loop handler a (next_timeout s)
      in s\<lparr>next_timeout := l, memp_free_timeouts := (if b then memp_free_timeouts s + 1 else memp_free_timeouts s)\<rparr>)"

definition tcp_timer_needed :: "timers \<Rightarrow> timers" where
  "tcp_timer_needed s =
     (if \<not> tcpip_tcp_timer_active s \<and> tcp_pcbs s
      then sys_timeout TCP_TMR_INTERVAL (Some tcpip_tcp_timer) 0 (s\<lparr>tcpip_tcp_timer_active := True\<rparr>) else s)"

text \<open>The periodic handlers. A handler of another module is an argument.\<close>

definition call_handler ::
  "(nat \<Rightarrow> nat \<Rightarrow> timers \<Rightarrow> timers) \<Rightarrow> sys_timeout_handler \<Rightarrow> nat \<Rightarrow> timers \<Rightarrow> timers"
where
  "call_handler user f a s =
     (let s = s\<lparr>calls := calls s @ [(f, a)]\<rparr> in
      case f of
        tcpip_tcp_timer \<Rightarrow>
          (if tcp_pcbs s then sys_timeout TCP_TMR_INTERVAL (Some tcpip_tcp_timer) 0 s else s\<lparr>tcpip_tcp_timer_active := False\<rparr>)
      | ip_reass_timer \<Rightarrow> sys_timeout IP_TMR_INTERVAL (Some ip_reass_timer) 0 s
      | arp_timer \<Rightarrow> sys_timeout ARP_TMR_INTERVAL (Some arp_timer) 0 s
      | dhcp_timer_coarse \<Rightarrow> sys_timeout DHCP_COARSE_TIMER_MSECS (Some dhcp_timer_coarse) 0 s
      | dhcp_timer_fine \<Rightarrow> sys_timeout DHCP_FINE_TIMER_MSECS (Some dhcp_timer_fine) 0 s
      | igmp_timer \<Rightarrow> sys_timeout IGMP_TMR_INTERVAL (Some igmp_timer) 0 s
      | dns_timer \<Rightarrow> sys_timeout DNS_TMR_INTERVAL (Some dns_timer) 0 s
      | other_handler n \<Rightarrow> user n a s)"

definition sys_timeouts_init :: "u32 \<Rightarrow> timers \<Rightarrow> timers" where
  "sys_timeouts_init now s =
     (let s = s\<lparr>timeouts_last_time := now\<rparr>;
          s = sys_timeout IP_TMR_INTERVAL (Some ip_reass_timer) 0 s;
          s = sys_timeout ARP_TMR_INTERVAL (Some arp_timer) 0 s;
          s = sys_timeout DHCP_COARSE_TIMER_MSECS (Some dhcp_timer_coarse) 0 s;
          s = sys_timeout DHCP_FINE_TIMER_MSECS (Some dhcp_timer_fine) 0 s;
          s = sys_timeout IGMP_TMR_INTERVAL (Some igmp_timer) 0 s
      in sys_timeout DNS_TMR_INTERVAL (Some dns_timer) 0 s)"

text \<open>Taking the first entry off the list and running its handler.\<close>

definition run_first :: "(nat \<Rightarrow> nat \<Rightarrow> timers \<Rightarrow> timers) \<Rightarrow> sys_timeo \<Rightarrow> sys_timeo list \<Rightarrow> timers \<Rightarrow> timers" where
  "run_first user t ts s =
     (let s = s\<lparr>next_timeout := ts, memp_free_timeouts := memp_free_timeouts s + 1\<rparr>
      in case h t of None \<Rightarrow> s | Some f \<Rightarrow> call_handler user f (arg t) s)"

fun poll_loop :: "nat \<Rightarrow> (nat \<Rightarrow> nat \<Rightarrow> timers \<Rightarrow> timers) \<Rightarrow> u32 \<Rightarrow> timers \<Rightarrow> timers option" where
  "poll_loop 0 user diff s = None"
| "poll_loop (Suc n) user diff s =
     (case next_timeout s of
        [] \<Rightarrow> Some s
      | t # ts \<Rightarrow>
          (if time t \<le> diff
           then poll_loop n user (diff - time t) (run_first user t ts (s\<lparr>timeouts_last_time := timeouts_last_time s + time t\<rparr>))
           else Some s))"

definition lwip_timeout_poll :: "nat \<Rightarrow> (nat \<Rightarrow> nat \<Rightarrow> timers \<Rightarrow> timers) \<Rightarrow> u32 \<Rightarrow> timers \<Rightarrow> timers option" where
  "lwip_timeout_poll fuel user now s =
     (if next_timeout s = [] then Some s else poll_loop fuel user (now - timeouts_last_time s) s)"

text \<open>
  The message loop. \<open>fetch k w\<close> is the result of the \<open>k\<close>-th call of \<^verbatim>\<open>sys_arch_mbox_fetch\<close> from the end with the waiting time \<open>w\<close> (0 waits
  for ever): the message and the milliseconds waited, or nothing for a timeout.
\<close>

fun sys_timeouts_mbox_fetch ::
  "nat \<Rightarrow> (nat \<Rightarrow> nat \<Rightarrow> timers \<Rightarrow> timers) \<Rightarrow> (nat \<Rightarrow> u32 \<Rightarrow> (u32 \<times> 'm) option) \<Rightarrow> timers \<Rightarrow> ('m option \<times> timers) option"
where
  "sys_timeouts_mbox_fetch 0 user fetch s = None"
| "sys_timeouts_mbox_fetch (Suc n) user fetch s =
     (case next_timeout s of
        [] \<Rightarrow> Some (map_option snd (fetch n 0), s)
      | t # ts \<Rightarrow>
          (case (if time t > 0 then fetch n (time t) else None) of
             None \<Rightarrow> sys_timeouts_mbox_fetch n user fetch (run_first user t ts s)
           | Some (waited, msg) \<Rightarrow>
               Some (Some msg, s\<lparr>next_timeout := (if waited < time t then t\<lparr>time := time t - waited\<rparr> else t\<lparr>time := 0\<rparr>) # ts\<rparr>)))"

section \<open>Deadlines\<close>

text \<open>What the difference list stands for: the time of each entry counted from \<open>e\<close>.\<close>

fun dl :: "nat \<Rightarrow> sys_timeo list \<Rightarrow> (nat \<times> sys_timeout_handler option \<times> nat) list" where
  "dl e [] = []"
| "dl e (t # ts) = (e + unat (time t), h t, arg t) # dl (e + unat (time t)) ts"

lemma dl_ge: "x \<in> set (dl e l) \<Longrightarrow> e \<le> fst x"
  by (induction l arbitrary: e) force+

lemma sorted_dl: "sorted (map fst (dl e l))"
  by (induction l arbitrary: e) (auto dest: dl_ge)

lemma length_dl [simp]: "length (dl e l) = length l"
  by (induction l arbitrary: e) auto

lemma dl_head: "unat (time t') = unat (time t) - k \<Longrightarrow> k \<le> unat (time t) \<Longrightarrow> h t' = h t \<Longrightarrow> arg t' = arg t \<Longrightarrow>
    dl (e + k) (t' # ts) = dl e (t # ts)"
  by simp

lemma loop_dl:
  assumes "time t \<le> time n"
  shows "dl e (timeout_loop n t rest) =
    takeWhile (\<lambda>x. fst x \<le> e + unat (time n)) (dl e (t # rest)) @ [(e + unat (time n), h n, arg n)] @
    dropWhile (\<lambda>x. fst x \<le> e + unat (time n)) (dl e (t # rest))"
  using assms
proof (induction n t rest arbitrary: e rule: timeout_loop.induct)
  case (1 n t rest)
  let ?n = "n\<lparr>time := time n - time t\<rparr>"
  have le: "unat (time t) \<le> unat (time n)" using 1(2) by (simp add: word_le_nat_alt)
  have u: "unat (time ?n) = unat (time n) - unat (time t)" using 1(2) by (simp add: unat_sub)
  show ?case
  proof (cases rest)
    case Nil
    then show ?thesis using le u by simp
  next
    case (Cons t' ts)
    show ?thesis
    proof (cases "time t' > time ?n")
      case True
      then have g: "unat (time ?n) < unat (time t')" by (simp add: word_less_nat_alt)
      have "unat (time t' - time ?n) = unat (time t') - unat (time ?n)" using True by (simp add: unat_sub order_less_imp_le)
      moreover have "\<not> unat (time t) + unat (time t') \<le> unat (time n)" using g le u by linarith
      ultimately show ?thesis using True Cons le u by (simp add: ac_simps)
    next
      case False
      then have le': "time t' \<le> time ?n" by simp
      define X where "X = dl (e + unat (time t)) rest"
      have q: "e + unat (time t) + unat (time ?n) = e + unat (time n)" using u le by simp
      have "dl (e + unat (time t)) (timeout_loop ?n t' ts) =
        takeWhile (\<lambda>x. fst x \<le> e + unat (time n)) X @ [(e + unat (time n), h n, arg n)] @ dropWhile (\<lambda>x. fst x \<le> e + unat (time n)) X"
        using 1(1)[OF refl Cons False le', of "e + unat (time t)"] unfolding q by (simp add: X_def Cons)
      moreover have "timeout_loop n t rest = t # timeout_loop ?n t' ts" using False Cons by simp
      ultimately show ?thesis using le by (simp add: X_def[symmetric] del: timeout_loop.simps)
    qed
  qed
qed

lemma insert_dl:
  "dl e (timeout_insert n l) = takeWhile (\<lambda>x. fst x \<le> e + unat (time n)) (dl e l) @ [(e + unat (time n), h n, arg n)] @
    dropWhile (\<lambda>x. fst x \<le> e + unat (time n)) (dl e l)"
proof (cases l)
  case Nil
  then show ?thesis by (simp add: timeout_insert_def)
next
  case (Cons t ts)
  show ?thesis
  proof (cases "time t > time n")
    case True
    then have "unat (time t - time n) = unat (time t) - unat (time n)" "unat (time n) < unat (time t)"
      by (simp_all add: unat_sub order_less_imp_le word_less_nat_alt)
    then show ?thesis using True Cons by (simp add: timeout_insert_def)
  next
    case False
    then show ?thesis using loop_dl[of t n e ts] Cons by (simp add: timeout_insert_def del: timeout_loop.simps)
  qed
qed

lemma insert_mset: "mset (dl e (timeout_insert n l)) = add_mset (e + unat (time n), h n, arg n) (mset (dl e l))"
proof -
  have "mset xs = mset (takeWhile P xs) + mset (dropWhile P xs)" for P and xs :: "(nat \<times> sys_timeout_handler option \<times> nat) list"
    by (metis mset_append takeWhile_dropWhile_id)
  then show ?thesis by (simp add: insert_dl)
qed

text \<open>The sum of all differences, the last deadline, fits 32 bits.\<close>

definition timeouts_ok :: "sys_timeo list \<Rightarrow> bool" where
  "timeouts_ok l \<longleftrightarrow> (\<forall>x \<in> set (dl 0 l). fst x < 2 ^ 32)"

lemma insert_set: "set (dl e (timeout_insert n l)) = insert (e + unat (time n), h n, arg n) (set (dl e l))"
  using arg_cong[OF insert_mset[of e n l], of set_mset] by (simp only: set_mset_mset set_mset_add_mset_insert)

lemma timeouts_ok_insert:
  assumes "timeouts_ok l"
  shows "timeouts_ok (timeout_insert n l)"
proof -
  have "unat (time n) < 2 ^ 32" using unsigned_less[of "time n"] by simp
  then show ?thesis using assms unfolding timeouts_ok_def insert_set by simp
qed

lemma untimeout_dl:
  assumes "\<forall>x \<in> set (dl e l). fst x < 2 ^ 32 + e"
  shows "(case untimeout_loop f a l of (b, l') \<Rightarrow>
    dl e l' = (case List.extract (\<lambda>x. snd x = (f, a)) (dl e l) of None \<Rightarrow> dl e l | Some (xs, _, ys) \<Rightarrow> xs @ ys) \<and>
    (b \<longleftrightarrow> (f, a) \<in> snd ` set (dl e l)))"
  using assms
proof (induction l arbitrary: e)
  case (Cons t ts)
  show ?case
  proof (cases "h t = f \<and> arg t = a")
    case True
    have "dl e (t'\<lparr>time := time t' + time t\<rparr> # ts') = dl (e + unat (time t)) (t' # ts')" if "ts = t' # ts'" for t' ts'
    proof -
      have "unat (time t) + unat (time t') < 2 ^ 32" using Cons.prems that by simp
      then have "unat (time t' + time t) = unat (time t) + unat (time t')" by (simp add: unat_word_ariths)
      then show ?thesis by (simp add: ac_simps)
    qed
    then show ?thesis using True by (cases ts) (simp_all add: extract_Cons_code ac_simps)
  next
    case False
    have "\<forall>x \<in> set (dl (e + unat (time t)) ts). fst x < 2 ^ 32 + (e + unat (time t))" using Cons.prems by fastforce
    from Cons.IH[OF this] False show ?thesis
      by (auto simp: extract_Cons_code split: prod.splits option.splits)
  qed
qed (simp add: extract_Nil_code)

section \<open>Timer queues\<close>

text \<open>
  The interface the poll loop relies on. \<open>due e q\<close> lists the entries of a queue with their times when the clock stands at \<open>e\<close>; a new entry goes
  behind all that are due no later; without its first entry the queue is the same at the time of that entry.
\<close>

definition ins_due :: "nat \<times> 'k \<Rightarrow> (nat \<times> 'k) list \<Rightarrow> (nat \<times> 'k) list" where
  "ins_due x xs = takeWhile (\<lambda>y. fst y \<le> fst x) xs @ [x] @ dropWhile (\<lambda>y. fst y \<le> fst x) xs"

lemma mset_ins_due [simp]: "mset (ins_due x xs) = add_mset x (mset xs)"
proof -
  have "mset xs = mset (takeWhile (\<lambda>y. fst y \<le> fst x) xs) + mset (dropWhile (\<lambda>y. fst y \<le> fst x) xs)"
    by (metis mset_append takeWhile_dropWhile_id)
  then show ?thesis by (simp add: ins_due_def)
qed

text \<open>
  How often an entry due at \<open>d\<close> and re-armed with period \<open>p\<close> is due up to time \<open>D\<close>, and when it is due next.
\<close>

definition times_due :: "nat \<Rightarrow> nat option \<Rightarrow> nat \<Rightarrow> nat" where
  "times_due D p d = (if D < d then 0 else case p of None \<Rightarrow> 1 | Some p \<Rightarrow> (D - d) div p + 1)"

definition next_due :: "nat \<Rightarrow> nat option \<Rightarrow> nat \<Rightarrow> nat multiset" where
  "next_due D p d = (if D < d then {#d#} else case p of None \<Rightarrow> {#} | Some p \<Rightarrow> {#d + ((D - d) div p + 1) * p#})"

lemma times_due_again:
  assumes "0 < p" "d \<le> D"
  shows "times_due D (Some p) d = Suc (times_due D (Some p) (d + p))" "next_due D (Some p) d = next_due D (Some p) (d + p)"
proof -
  have q: "(D - d) div p = (D - (d + p)) div p + 1" if "d + p \<le> D"
    using that assms by (simp add: le_div_geq)
  have "(D - d) div p = 0" if "\<not> d + p \<le> D" using that assms by simp
  with q show "times_due D (Some p) d = Suc (times_due D (Some p) (d + p))" "next_due D (Some p) d = next_due D (Some p) (d + p)"
    using assms by (auto simp: times_due_def next_due_def)
qed

definition all_due :: "nat \<Rightarrow> ('k \<Rightarrow> nat option) \<Rightarrow> (nat \<times> 'k) multiset \<Rightarrow> nat" where
  "all_due D per M = (\<Sum>x \<in># M. times_due D (per (snd x)) (fst x))"

definition left_due :: "nat \<Rightarrow> ('k \<Rightarrow> nat option) \<Rightarrow> (nat \<times> 'k) multiset \<Rightarrow> (nat \<times> 'k) multiset" where
  "left_due D per M = (\<Sum>x \<in># M. image_mset (\<lambda>d. (d, snd x)) (next_due D (per (snd x)) (fst x)))"

lemma due_add [simp]:
  "all_due D per {#} = 0" "all_due D per (add_mset x M) = times_due D (per (snd x)) (fst x) + all_due D per M"
  "left_due D per {#} = {#}"
  "left_due D per (add_mset x M) = image_mset (\<lambda>d. (d, snd x)) (next_due D (per (snd x)) (fst x)) + left_due D per M"
  by (simp_all add: all_due_def left_due_def)

lemma late_due: "\<forall>x \<in># M. D < fst x \<Longrightarrow> all_due D per M = 0" "\<forall>x \<in># M. D < fst x \<Longrightarrow> left_due D per M = M"
  by (induction M) (auto simp: times_due_def next_due_def)

locale timer_queue =
  fixes due :: "nat \<Rightarrow> 'q \<Rightarrow> (nat \<times> 'k) list"
    and arm :: "'k \<Rightarrow> nat \<Rightarrow> 'q \<Rightarrow> 'q"
    and rest :: "'q \<Rightarrow> 'q"
  assumes sorted_due: "sorted (e # map fst (due e q))"
    and due_arm: "p < 2 ^ 32 \<Longrightarrow> due e (arm k p q) = ins_due (e + p, k) (due e q)"
    and due_rest: "due e q = (d, k) # xs \<Longrightarrow> due d (rest q) = xs"
begin

text \<open>The loop of a poll at time \<open>D\<close>: run what is due, in order, each at its own time, and re-arm it from there.\<close>

fun fire :: "nat \<Rightarrow> ('k \<Rightarrow> nat option) \<Rightarrow> nat \<Rightarrow> nat \<Rightarrow> 'q \<Rightarrow> ('k list \<times> nat \<times> 'q) option" where
  "fire 0 per D e q = None"
| "fire (Suc n) per D e q =
     (case due e q of
        [] \<Rightarrow> Some ([], e, q)
      | (d, k) # _ \<Rightarrow>
          (if d \<le> D
           then do {
             (ks, e, q) \<leftarrow> fire n per D d (case per k of None \<Rightarrow> rest q | Some p \<Rightarrow> arm k p (rest q));
             Some (k # ks, e, q)
           }
           else Some ([], e, q)))"

lemma none_due:
  assumes "due e q = [] \<or> D < fst (hd (due e q))"
  shows "\<forall>x \<in># mset (due e q). D < fst x"
  using assms sorted_due[of e q] by (cases "due e q") auto

lemma fire_val:
  assumes "\<forall>k p. per k = Some p \<longrightarrow> 0 < p \<and> p < 2 ^ 32" "all_due D per (mset (due e q)) < n" "e \<le> D"
  shows "\<exists>ks e' q'. fire n per D e q = Some (ks, e', q') \<and> e \<le> e' \<and> e' \<le> D \<and> mset (due e' q') = left_due D per (mset (due e q)) \<and>
    (\<forall>k. count_list ks k = all_due D per {#x \<in># mset (due e q). snd x = k#})"
  using assms(2,3)
proof (induction n arbitrary: e q)
  case (Suc n)
  show ?case
  proof (cases "due e q = [] \<or> D < fst (hd (due e q))")
    case True
    note l = none_due[OF True]
    then have "all_due D per {#x \<in># mset (due e q). snd x = k#} = 0" for k by (intro late_due(1)) auto
    moreover have "fire (Suc n) per D e q = Some ([], e, q)" using True by (auto split: list.split)
    ultimately show ?thesis using late_due(2)[OF l] Suc.prems(2) by simp
  next
    case False
    then obtain d k xs where d: "due e q = (d, k) # xs" "d \<le> D" by (cases "due e q") auto
    define q1 where "q1 = (case per k of None \<Rightarrow> rest q | Some p \<Rightarrow> arm k p (rest q))"
    have r: "due d (rest q) = xs" by (rule due_rest[OF d(1)])
    have e: "e \<le> d" using sorted_due[of e q] d(1) by simp
    have m: "mset (due d q1) = (case per k of None \<Rightarrow> mset xs | Some p \<Rightarrow> add_mset (d + p, k) (mset xs))"
      using assms(1) r by (auto simp: q1_def due_arm split: option.split)
    have a: "all_due D per {#x \<in># mset (due e q). P (snd x)#} =
        (if P k then Suc (all_due D per {#x \<in># mset (due d q1). P (snd x)#}) else all_due D per {#x \<in># mset (due d q1). P (snd x)#})" for P
      using d(2) assms(1) times_due_again(1)[of _ d D] unfolding d(1) m by (auto simp: times_due_def split: option.split)
    have l: "left_due D per (mset (due e q)) = left_due D per (mset (due d q1))"
      using d(2) assms(1) times_due_again(2)[of _ d D] unfolding d(1) m by (auto simp: next_due_def split: option.split)
    have "all_due D per (mset (due d q1)) < n" using a[of "\<lambda>_. True"] Suc.prems(1) by simp
    from Suc.IH[OF this d(2)] obtain ks e' q' where
      i: "fire n per D d q1 = Some (ks, e', q')" "d \<le> e'" "e' \<le> D" "mset (due e' q') = left_due D per (mset (due d q1))"
      "\<forall>k. count_list ks k = all_due D per {#x \<in># mset (due d q1). snd x = k#}" by blast
    have "fire (Suc n) per D e q = Some (k # ks, e', q')" using d i(1) by (simp add: q1_def)
    moreover have "count_list (k # ks) j = all_due D per {#x \<in># mset (due e q). snd x = j#}" for j
      using i(5) a[of "\<lambda>x. x = j"] by auto
    ultimately show ?thesis using i(2-4) l e by (intro exI[of _ "k # ks"] exI[of _ e'] exI[of _ q']) simp
  qed
qed simp

end

definition arm_timeout :: "sys_timeout_handler option \<times> nat \<Rightarrow> nat \<Rightarrow> sys_timeo list \<Rightarrow> sys_timeo list" where
  "arm_timeout k p l = timeout_insert \<lparr>time = of_nat p, h = fst k, arg = snd k\<rparr> l"

interpretation lwip: timer_queue dl arm_timeout tl
proof
  fix e p d k q xs
  show "sorted (e # map fst (dl e q))" using sorted_dl[of e q] by (auto dest: dl_ge)
  show "dl e (arm_timeout k p q) = ins_due (e + p, k) (dl e q)" if "p < 2 ^ 32"
    using that by (simp add: arm_timeout_def insert_dl ins_due_def unat_of_nat)
  show "dl d (tl q) = xs" if "dl e q = (d, k) # xs" using that by (cases q) auto
qed

section \<open>The poll\<close>

text \<open>The period each handler re-arms itself with; \<open>pcbs\<close> says whether TCP has connections.\<close>

fun period :: "bool \<Rightarrow> sys_timeout_handler option \<times> nat \<Rightarrow> nat option" where
  "period pcbs (Some tcpip_tcp_timer, _) = (if pcbs then Some 250 else None)"
| "period pcbs (Some ip_reass_timer, _) = Some 1000"
| "period pcbs (Some arp_timer, _) = Some 5000"
| "period pcbs (Some dhcp_timer_coarse, _) = Some 60000"
| "period pcbs (Some dhcp_timer_fine, _) = Some 500"
| "period pcbs (Some igmp_timer, _) = Some 100"
| "period pcbs (Some dns_timer, _) = Some 1000"
| "period pcbs _ = None"

definition internal :: "sys_timeout_handler option \<times> nat \<Rightarrow> bool" where
  "internal k \<longleftrightarrow> snd k = 0 \<and> (case fst k of None \<Rightarrow> False | Some (other_handler n) \<Rightarrow> False | _ \<Rightarrow> True)"

lemma period_range: "period pcbs k = Some p \<Longrightarrow> 0 < p \<and> p < 2 ^ 32"
  by (cases "(pcbs, k)" rule: period.cases) (auto split: if_splits)

definition tcp_stops :: "sys_timeout_handler option \<Rightarrow> timers \<Rightarrow> bool" where
  "tcp_stops f s \<longleftrightarrow> f = Some tcpip_tcp_timer \<and> \<not> tcp_pcbs s"

lemma run_first_val:
  assumes "internal (h t, arg t)"
  shows "run_first user t ts s =
    s\<lparr>next_timeout := (case period (tcp_pcbs s) (h t, arg t) of None \<Rightarrow> ts | Some p \<Rightarrow> arm_timeout (h t, arg t) p ts),
      memp_free_timeouts := memp_free_timeouts s + (case period (tcp_pcbs s) (h t, arg t) of None \<Rightarrow> 1 | Some p \<Rightarrow> 0),
      calls := calls s @ [(the (h t), arg t)],
      tcpip_tcp_timer_active := tcpip_tcp_timer_active s \<and> \<not> tcp_stops (h t) s\<rparr>"
proof -
  obtain f where f: "h t = Some f" "arg t = 0" "\<forall>n. f \<noteq> other_handler n"
    using assms by (auto simp: internal_def split: option.splits sys_timeout_handler.splits)
  show ?thesis
    by (cases f; cases s)
      (use f in \<open>simp_all add: run_first_def call_handler_def sys_timeout_def arm_timeout_def tcp_stops_def Let_def\<close>)
qed

lemma arm_internal:
  "snd ` set (dl e (arm_timeout k p l)) = insert k (snd ` set (dl e l))" "length (arm_timeout k p l) = Suc (length l)"
proof -
  show "snd ` set (dl e (arm_timeout k p l)) = insert k (snd ` set (dl e l))" by (simp add: arm_timeout_def insert_set)
  have "length (dl 0 (arm_timeout k p l)) = Suc (length (dl 0 l))"
    using arg_cong[OF insert_mset[of 0 _ l], of size] by (simp add: arm_timeout_def del: length_dl)
  then show "length (arm_timeout k p l) = Suc (length l)" by simp
qed

text \<open>The poll loop is the loop of the timer queue; the clock, the pool and the record of calls follow it.\<close>

definition all_internal :: "sys_timeo list \<Rightarrow> bool" where
  "all_internal l \<longleftrightarrow> (\<forall>t \<in> set l. internal (h t, arg t))"

lemma all_internal_dl: "all_internal l \<longleftrightarrow> (\<forall>k \<in> snd ` set (dl e l). internal k)"
  by (induction l arbitrary: e) (auto simp: all_internal_def)

lemma all_internal_arm [simp]: "all_internal (arm_timeout k p l) \<longleftrightarrow> internal k \<and> all_internal l"
  unfolding all_internal_dl[of _ 0] arm_internal by auto

lemma poll_loop_fire:
  assumes "all_internal (next_timeout s)" "unat diff = D - e" "e \<le> D"
    "lwip.fire n (period (tcp_pcbs s)) D e (next_timeout s) = Some (ks, e', q')"
  shows "\<exists>s'. poll_loop n user diff s = Some s' \<and> next_timeout s' = q' \<and> timeouts_last_time s' = timeouts_last_time s + of_nat (e' - e) \<and>
    calls s' = calls s @ map (\<lambda>k. (the (fst k), snd k)) ks \<and> all_internal q' \<and> e \<le> e' \<and> tcp_pcbs s' = tcp_pcbs s \<and>
    memp_free_timeouts s' + length q' = memp_free_timeouts s + length (next_timeout s)"
  using assms
proof (induction n arbitrary: s diff e ks)
  case (Suc n)
  show ?case
  proof (cases "next_timeout s")
    case Nil
    then show ?thesis using Suc.prems by simp
  next
    case (Cons t ts)
    let ?k = "(h t, arg t)" and ?d = "e + unat (time t)"
    have le: "time t \<le> diff \<longleftrightarrow> ?d \<le> D" using Suc.prems(2,3) by (simp add: word_le_nat_alt) linarith
    show ?thesis
    proof (cases "?d \<le> D")
      case False
      then have "poll_loop (Suc n) user diff s = Some s" using Cons le by simp
      moreover have "ks = []" "e' = e" "q' = next_timeout s" using False Suc.prems(4) Cons by simp_all
      ultimately show ?thesis using Suc.prems(1) by simp
    next
      case True
      define s1 where "s1 = run_first user t ts (s\<lparr>timeouts_last_time := timeouts_last_time s + time t\<rparr>)"
      have "internal ?k" and it: "all_internal ts" using Suc.prems(1) Cons by (simp_all add: all_internal_def)
      note s1 = run_first_val[OF this(1), of user ts "s\<lparr>timeouts_last_time := timeouts_last_time s + time t\<rparr>", folded s1_def]
      have int: "all_internal (next_timeout s1)"
        using it \<open>internal ?k\<close> by (simp add: s1 split: option.split)
      have dif: "unat (diff - time t) = D - ?d" using True le Suc.prems(2) by (simp add: unat_sub)
      obtain ks1 where ks: "ks = ?k # ks1" "lwip.fire n (period (tcp_pcbs s1)) D ?d (next_timeout s1) = Some (ks1, e', q')"
        using Suc.prems(4) True Cons by (auto simp: s1 split: Option.bind_splits option.splits)
      from Suc.IH[OF int dif True ks(2)] obtain s' where
        s': "poll_loop n user (diff - time t) s1 = Some s'" "next_timeout s' = q'"
        "timeouts_last_time s' = timeouts_last_time s1 + of_nat (e' - ?d)" "calls s' = calls s1 @ map (\<lambda>k. (the (fst k), snd k)) ks1"
        "all_internal q'" "?d \<le> e'" "tcp_pcbs s' = tcp_pcbs s1"
        "memp_free_timeouts s' + length q' = memp_free_timeouts s1 + length (next_timeout s1)" by blast
      have "poll_loop (Suc n) user diff s = Some s'" using Cons True le s'(1) by (simp add: s1_def)
      moreover have "time t + of_nat (e' - ?d) = of_nat (e' - e)"
      proof -
        have "e' - e = unat (time t) + (e' - ?d)" using s'(6) by simp
        then show ?thesis by (simp only: of_nat_add) simp
      qed
      moreover have "memp_free_timeouts s1 + length (next_timeout s1) = memp_free_timeouts s + length (next_timeout s)"
        using Cons by (simp add: s1 arm_internal split: option.split)
      ultimately show ?thesis using s' ks(1) by (simp add: s1 add.assoc)
    qed
  qed
qed simp

lemma count_calls: "\<forall>k \<in> set ks. internal k \<Longrightarrow> count_list (map (\<lambda>k. (the (fst k), snd k)) ks) (f, 0) = count_list ks (Some f, 0)"
  by (induction ks) (auto simp: internal_def split: option.splits)

definition without_first :: "('a \<Rightarrow> bool) \<Rightarrow> 'a list \<Rightarrow> 'a list" where
  "without_first P xs = (case List.extract P xs of None \<Rightarrow> xs | Some (ys, _, zs) \<Rightarrow> ys @ zs)"

lemma set_without_first: "set (without_first P xs) \<subseteq> set xs"
  by (auto simp: without_first_def split: option.split dest: extract_SomeE)

text \<open>
  C27. The difference list is a queue of deadlines. \<^verbatim>\<open>sys_timeout\<close> puts the new deadline behind all that are due no later and moves no
  other deadline; with an empty pool it changes nothing. \<^verbatim>\<open>sys_untimeout\<close> takes out the first entry with that handler
  and argument and moves no other deadline. Both keep all deadlines within 32 bits, which is what makes the
  additions exact.
\<close>

theorem timeout_list_refinement:
  assumes "timeouts_ok (next_timeout s)"
  shows "(0 < memp_free_timeouts s \<longrightarrow>
      dl 0 (next_timeout (sys_timeout msecs f a s)) = ins_due (unat msecs, f, a) (dl 0 (next_timeout s))) \<and>
    (memp_free_timeouts s = 0 \<longrightarrow> sys_timeout msecs f a s = s) \<and>
    dl 0 (next_timeout (sys_untimeout f a s)) = without_first (\<lambda>x. snd x = (f, a)) (dl 0 (next_timeout s)) \<and>
    timeouts_ok (next_timeout (sys_timeout msecs f a s)) \<and> timeouts_ok (next_timeout (sys_untimeout f a s))"
proof -
  have "\<forall>x \<in> set (dl 0 (next_timeout s)). fst x < 2 ^ 32 + 0" using assms by (simp add: timeouts_ok_def)
  from untimeout_dl[OF this, of f a] have u: "dl 0 (next_timeout (sys_untimeout f a s)) =
      without_first (\<lambda>x. snd x = (f, a)) (dl 0 (next_timeout s))"
    by (auto simp: sys_untimeout_def without_first_def split: prod.splits)
  moreover have "timeouts_ok (next_timeout (sys_untimeout f a s))"
    using assms u set_without_first unfolding timeouts_ok_def by (metis subset_iff)
  ultimately show ?thesis
    using assms timeouts_ok_insert[OF assms] by (simp add: sys_timeout_def insert_dl ins_due_def)
qed

theorem timeout_list_refinement_witness:
  "let l = [\<lparr>time = 100, h = Some igmp_timer, arg = 0\<rparr>, \<lparr>time = 400, h = Some dhcp_timer_fine, arg = 0\<rparr>];
       s = \<lparr>next_timeout = l, timeouts_last_time = 7, tcpip_tcp_timer_active = False, tcp_pcbs = False, memp_free_timeouts = 8, calls = []\<rparr>
   in dl 0 (next_timeout (sys_timeout 250 (Some tcpip_tcp_timer) 0 s)) =
        [(100, Some igmp_timer, 0), (250, Some tcpip_tcp_timer, 0), (500, Some dhcp_timer_fine, 0)] \<and>
      dl 0 (next_timeout (sys_untimeout (Some igmp_timer) 0 s)) = [(500, Some dhcp_timer_fine, 0)]"
proof -
  let ?l = "[\<lparr>time = 100, h = Some igmp_timer, arg = 0\<rparr>, \<lparr>time = 400, h = Some dhcp_timer_fine, arg = 0\<rparr>]"
  let ?s = "\<lparr>next_timeout = ?l, timeouts_last_time = 7, tcpip_tcp_timer_active = False, tcp_pcbs = False, memp_free_timeouts = 8, calls = []\<rparr>"
  have "timeouts_ok (next_timeout ?s)" by (simp add: timeouts_ok_def)
  from timeout_list_refinement[OF this, of 250 "Some tcpip_tcp_timer" 0] timeout_list_refinement[OF this, of 0 "Some igmp_timer" 0]
  show ?thesis by (simp add: ins_due_def without_first_def extract_Cons_code)
qed

text \<open>
  C28. One poll of the timers, however late it comes. Every internal timer is called exactly once for each of its periods
  that has ended, and afterwards it stands one period behind its last due time, not behind the time of the poll:
  no call is lost and the timers do not drift. The TCP timer stops when there are no connections. No timeout is
  dropped, and the loop returns after as many rounds as there are calls to make.
\<close>

theorem timeout_poll_exact:
  assumes "all_internal (next_timeout s)" "D = unat (now - timeouts_last_time s)" "M = mset (dl 0 (next_timeout s))"
    "all_due D (period (tcp_pcbs s)) M < fuel"
  shows "\<exists>s' cs. lwip_timeout_poll fuel user now s = Some s' \<and> calls s' = calls s @ cs \<and>
    (\<forall>f. count_list cs (f, 0) = all_due D (period (tcp_pcbs s)) {#x \<in># M. snd x = (Some f, 0)#}) \<and>
    mset (dl (unat (timeouts_last_time s' - timeouts_last_time s)) (next_timeout s')) = left_due D (period (tcp_pcbs s)) M \<and>
    memp_free_timeouts s' + length (next_timeout s') = memp_free_timeouts s + length (next_timeout s)"
proof (cases "next_timeout s = []")
  case True
  then show ?thesis using assms(3) by (simp add: lwip_timeout_poll_def)
next
  case False
  from lwip.fire_val[of "period (tcp_pcbs s)" D 0 "next_timeout s" fuel] assms(3,4) period_range
  obtain ks e q where f: "lwip.fire fuel (period (tcp_pcbs s)) D 0 (next_timeout s) = Some (ks, e, q)" "e \<le> D"
    "mset (dl e q) = left_due D (period (tcp_pcbs s)) M"
    "\<forall>k. count_list ks k = all_due D (period (tcp_pcbs s)) {#x \<in># M. snd x = k#}" by auto
  from poll_loop_fire[OF assms(1) _ _ f(1), of "now - timeouts_last_time s" user] assms(2) obtain s' where
    s': "poll_loop fuel user (now - timeouts_last_time s) s = Some s'" "next_timeout s' = q"
    "timeouts_last_time s' = timeouts_last_time s + of_nat e" "calls s' = calls s @ map (\<lambda>k. (the (fst k), snd k)) ks"
    "memp_free_timeouts s' + length q = memp_free_timeouts s + length (next_timeout s)" by auto
  have "D < 2 ^ 32" using assms(2) unsigned_less[of "now - timeouts_last_time s"] by simp
  then have "unat (timeouts_last_time s' - timeouts_last_time s) = e" using s'(3) f(2) by (simp add: unat_of_nat)
  moreover have "count_list (map (\<lambda>k. (the (fst k), snd k)) ks) (g, 0) = count_list ks (Some g, 0)" for g
  proof (rule count_calls, intro ballI)
    fix k assume "k \<in> set ks"
    then have "{#x \<in># M. snd x = k#} \<noteq> {#}" using f(4) by (metis count_list_0_iff due_add(1))
    then obtain x where "x \<in># {#x \<in># M. snd x = k#}" by (rule multiset_nonemptyE)
    then show "internal k" using assms(1,3) by (auto simp: all_internal_dl[of _ 0])
  qed
  ultimately show ?thesis using s' f False by (simp add: lwip_timeout_poll_def)
qed

theorem timeout_poll_exact_witness:
  "let l = [\<lparr>time = 100, h = Some igmp_timer, arg = 0\<rparr>, \<lparr>time = 400, h = Some dhcp_timer_fine, arg = 0\<rparr>];
       s = \<lparr>next_timeout = l, timeouts_last_time = 0xFFFFFF00, tcpip_tcp_timer_active = False, tcp_pcbs = False, memp_free_timeouts = 8, calls = []\<rparr>
   in \<exists>s'. lwip_timeout_poll 13 (\<lambda>_ _ s. s) (0xFFFFFF00 + 1000) s = Some s' \<and> count_list (calls s') (igmp_timer, 0) = 10 \<and>
     count_list (calls s') (dhcp_timer_fine, 0) = 2 \<and>
     mset (dl (unat (timeouts_last_time s' - 0xFFFFFF00)) (next_timeout s')) = {#(1100, Some igmp_timer, 0), (1500, Some dhcp_timer_fine, 0)#}"
proof -
  let ?l = "[\<lparr>time = 100, h = Some igmp_timer, arg = 0\<rparr>, \<lparr>time = 400, h = Some dhcp_timer_fine, arg = 0\<rparr>]"
  let ?s = "\<lparr>next_timeout = ?l, timeouts_last_time = 0xFFFFFF00, tcpip_tcp_timer_active = False, tcp_pcbs = False,
    memp_free_timeouts = 8, calls = []\<rparr>"
  have i: "all_internal (next_timeout ?s)" by (simp add: all_internal_def internal_def)
  have m: "{#(100, Some igmp_timer, 0), (500, Some dhcp_timer_fine, 0)#} = mset (dl 0 (next_timeout ?s))" by simp
  have d: "(1000 :: nat) = unat (0xFFFFFF00 + 1000 - timeouts_last_time ?s)" by simp
  have f: "all_due 1000 (period (tcp_pcbs ?s)) {#(100, Some igmp_timer, 0), (500, Some dhcp_timer_fine, 0)#} < 13"
    by (simp add: times_due_def)
  from timeout_poll_exact[OF i d m f, of "\<lambda>_ _ s. s"] show ?thesis
    by (auto simp: times_due_def next_due_def ac_simps)
qed

text \<open>
  The two drivers of the list count the same time twice. A message that reaches the TCP/IP thread after \<open>w\<close> milliseconds shortens the
  first timeout by \<open>w\<close>, but leaves the time stamp of the poll alone; the next poll subtracts the same \<open>w\<close> milliseconds again and calls
  the handler \<open>w\<close> milliseconds before its time.
\<close>

theorem timeouts_counted_twice:
  assumes "next_timeout s = [t]" "internal (h t, arg t)" "w < time t"
    "now = timeouts_last_time s + (time t - w)"
  shows "\<exists>s1 s2. sys_timeouts_mbox_fetch 1 user (\<lambda>_ _. Some (w, m)) s = Some (Some m, s1) \<and>
    lwip_timeout_poll 2 user now s1 = Some s2 \<and> calls s2 = calls s @ [(the (h t), arg t)] \<and>
    unat (now - timeouts_last_time s) = unat (time t) - unat w"
proof -
  let ?t = "t\<lparr>time := time t - w\<rparr>" and ?s = "s\<lparr>next_timeout := [t\<lparr>time := time t - w\<rparr>]\<rparr>"
  have "0 < time t" using assms(3) by (metis le_less_trans word_zero_le)
  then have f: "sys_timeouts_mbox_fetch 1 user (\<lambda>_ _. Some (w, m)) s = Some (Some m, ?s)" using assms(1,3) by simp
  have i: "internal (h ?t, arg ?t)" using assms(2) by simp
  define s2 where "s2 = run_first user ?t [] (?s\<lparr>timeouts_last_time := timeouts_last_time s + (time t - w)\<rparr>)"
  note s2 = run_first_val[OF i, of user "[]" "?s\<lparr>timeouts_last_time := timeouts_last_time s + (time t - w)\<rparr>", folded s2_def]
  have "poll_loop 1 user 0 s2 = Some s2"
  proof (cases "period (tcp_pcbs s) (h t, arg t)")
    case None
    then show ?thesis by (simp add: s2)
  next
    case (Some p)
    then have "(of_nat p :: u32) \<noteq> 0" using period_range[OF Some] by (auto simp: of_nat_eq_0_iff word_of_nat_eq_0_iff dest: dvd_imp_le)
    then show ?thesis using Some by (simp add: s2 arm_timeout_def timeout_insert_def)
  qed
  then have "lwip_timeout_poll 2 user now ?s = Some s2"
    using assms(4) by (simp add: lwip_timeout_poll_def numeral_2_eq_2 s2_def)
  moreover have "calls s2 = calls s @ [(the (h t), arg t)]" by (simp add: s2)
  moreover have "unat (now - timeouts_last_time s) = unat (time t) - unat w" using assms(3,4) by (simp add: unat_sub order_less_imp_le)
  ultimately show ?thesis using f by (intro exI[of _ ?s] exI[of _ s2]) simp
qed

theorem timeouts_counted_twice_witness:
  "let s = \<lparr>next_timeout = [\<lparr>time = 1000, h = Some dns_timer, arg = 0\<rparr>], timeouts_last_time = 0, tcpip_tcp_timer_active = False,
     tcp_pcbs = False, memp_free_timeouts = 9, calls = []\<rparr>
   in \<exists>s1 s2. sys_timeouts_mbox_fetch 1 (\<lambda>_ _ s. s) (\<lambda>_ _. Some (400, ())) s = Some (Some (), s1) \<and>
     lwip_timeout_poll 2 (\<lambda>_ _ s. s) 600 s1 = Some s2 \<and> calls s2 = [(dns_timer, 0)]"
proof -
  let ?t = "\<lparr>time = 1000, h = Some dns_timer, arg = 0\<rparr>"
  let ?s = "\<lparr>next_timeout = [?t], timeouts_last_time = 0, tcpip_tcp_timer_active = False, tcp_pcbs = False, memp_free_timeouts = 9, calls = []\<rparr>"
  have "internal (h ?t, arg ?t)" by (simp add: internal_def)
  from timeouts_counted_twice[of ?s ?t 400 600 "\<lambda>_ _ s. s" "()"] this show ?thesis by auto
qed

section \<open>The pool\<close>

text \<open>Every periodic timer stands in the list once, TCP's exactly when it is marked as active, and nothing else does.\<close>

definition base_timers :: "sys_timeout_handler option multiset" where
  "base_timers = {#Some ip_reass_timer, Some arp_timer, Some dhcp_timer_coarse, Some dhcp_timer_fine, Some igmp_timer, Some dns_timer#}"

definition timers_inv :: "timers \<Rightarrow> bool" where
  "timers_inv s \<longleftrightarrow> all_internal (next_timeout s) \<and> memp_free_timeouts s + length (next_timeout s) = 10 \<and>
     mset (map h (next_timeout s)) = base_timers + (if tcpip_tcp_timer_active s then {#Some tcpip_tcp_timer#} else {#})"

lemma count_list_mset: "count_list xs x = count (mset xs) x"
  by (induction xs) auto

lemma mset_handlers: "mset (map h l) = image_mset (fst \<circ> snd) (mset (dl e l))"
  by (induction l arbitrary: e) simp_all

lemma handlers_arm [simp]: "image_mset h (mset (arm_timeout k p l)) = add_mset (fst k) (image_mset h (mset l))"
  using mset_handlers[of "arm_timeout k p l" 0] mset_handlers[of l 0] unfolding arm_timeout_def insert_mset by simp

lemma run_first_inv:
  assumes "timers_inv s" "next_timeout s = t # ts"
  shows "timers_inv (run_first user t ts s)"
proof -
  have i: "internal (h t, arg t)" "all_internal ts" using assms by (simp_all add: timers_inv_def all_internal_def)
  show ?thesis
  proof (cases "period (tcp_pcbs s) (h t, arg t)")
    case (Some p)
    then have "\<not> tcp_stops (h t) s" by (auto simp: tcp_stops_def split: if_splits)
    then show ?thesis using assms Some i run_first_val[OF i(1), of user ts s]
      by (simp add: timers_inv_def arm_internal(2))
  next
    case None
    then have "h t = Some tcpip_tcp_timer" "tcp_stops (h t) s" using i(1)
      by (auto simp: internal_def tcp_stops_def split: option.splits sys_timeout_handler.splits if_splits)
    moreover have "Some tcpip_tcp_timer \<notin># base_timers" by (simp add: base_timers_def)
    ultimately have "tcpip_tcp_timer_active s" "image_mset h (mset ts) = base_timers"
      using assms union_single_eq_member[of "Some tcpip_tcp_timer" "image_mset h (mset ts)"] by (auto simp: timers_inv_def split: if_splits)
    with \<open>tcp_stops (h t) s\<close> show ?thesis using assms None i run_first_val[OF i(1), of user ts s] by (simp add: timers_inv_def)
  qed
qed

lemma poll_loop_inv: "poll_loop n user diff s = Some s' \<Longrightarrow> timers_inv s \<Longrightarrow> timers_inv s'"
proof (induction n arbitrary: diff s)
  case (Suc n)
  show ?case
  proof (cases "next_timeout s")
    case (Cons t ts)
    have "timers_inv (run_first user t ts (s\<lparr>timeouts_last_time := x\<rparr>))" for x
      using Suc.prems(2) Cons by (intro run_first_inv) (simp_all add: timers_inv_def)
    then show ?thesis using Suc Cons by (auto split: if_splits)
  qed (use Suc.prems in simp)
qed simp

lemma mbox_fetch_inv: "sys_timeouts_mbox_fetch n user fetch s = Some (m, s') \<Longrightarrow> timers_inv s \<Longrightarrow> timers_inv s'"
proof (induction n arbitrary: s)
  case (Suc n)
  show ?case
  proof (cases "next_timeout s")
    case (Cons t ts)
    then show ?thesis using Suc run_first_inv[OF Suc.prems(2) Cons]
      by (auto simp: timers_inv_def all_internal_def split: option.splits if_splits)
  qed (use Suc.prems in simp)
qed simp

inductive timer_step :: "(nat \<Rightarrow> nat \<Rightarrow> timers \<Rightarrow> timers) \<Rightarrow> timers \<Rightarrow> timers \<Rightarrow> bool" for user where
  poll: "lwip_timeout_poll n user now s = Some s' \<Longrightarrow> timer_step user s s'"
| fetch: "sys_timeouts_mbox_fetch n user (f :: nat \<Rightarrow> u32 \<Rightarrow> (u32 \<times> nat) option) s = Some (m, s') \<Longrightarrow> timer_step user s s'"
| needed: "timer_step user s (tcp_timer_needed s)"
| pcbs: "timer_step user s (s\<lparr>tcp_pcbs := b\<rparr>)"

inductive_cases timer_stepE: "timer_step user s s'"

lemma timer_step_inv:
  assumes "timer_step user s s'" "timers_inv s"
  shows "timers_inv s'"
  using assms
proof cases
  case (poll n now)
  then show ?thesis using assms(2) poll_loop_inv by (auto simp: lwip_timeout_poll_def split: if_splits)
next
  case (fetch n f m)
  then show ?thesis using assms(2) mbox_fetch_inv by blast
next
  case needed
  show ?thesis
  proof (cases "tcpip_tcp_timer_active s \<or> \<not> tcp_pcbs s")
    case False
    let ?k = "(Some tcpip_tcp_timer, 0)"
    have "size (mset (map h (next_timeout s))) = 6" using assms(2) False by (simp only: timers_inv_def) (simp add: base_timers_def)
    then have "0 < memp_free_timeouts s" using assms(2) by (simp add: timers_inv_def)
    then have "tcp_timer_needed s = s\<lparr>tcpip_tcp_timer_active := True, memp_free_timeouts := memp_free_timeouts s - 1,
        next_timeout := arm_timeout ?k 250 (next_timeout s)\<rparr>"
      using False by (simp add: tcp_timer_needed_def sys_timeout_def arm_timeout_def)
    then show ?thesis using assms(2) False \<open>0 < memp_free_timeouts s\<close> unfolding needed
      by (simp add: timers_inv_def arm_internal(2) internal_def)
  qed (use assms(2) needed in \<open>auto simp: tcp_timer_needed_def\<close>)
next
  case (pcbs b)
  then show ?thesis using assms(2) by (simp add: timers_inv_def)
qed

definition timers_boot :: timers where
  "timers_boot = \<lparr>next_timeout = [], timeouts_last_time = 0, tcpip_tcp_timer_active = False, tcp_pcbs = False,
     memp_free_timeouts = 10, calls = []\<rparr>"

lemma timers_init_inv: "timers_inv (sys_timeouts_init now timers_boot)"
  by (simp add: timers_inv_def sys_timeouts_init_def timers_boot_def sys_timeout_def timeout_insert_def base_timers_def all_internal_def
      internal_def Let_def)

text \<open>
  C29. The pool of ten timeouts is large enough. From \<^verbatim>\<open>sys_timeouts_init\<close> on, whatever polls, messages, TCP connections and calls of
  \<^verbatim>\<open>tcp_timer_needed\<close> follow in any order, each of the six periodic timers is in the list exactly once, TCP's timer is there once
  if it is marked as active and not at all otherwise, and at least three entries of the pool are free, so no timeout is ever
  dropped.
\<close>

theorem timer_pool_invariant:
  assumes "(timer_step user)\<^sup>*\<^sup>* (sys_timeouts_init now timers_boot) s"
  shows "3 \<le> memp_free_timeouts s \<and>
    (\<forall>f \<in> {ip_reass_timer, arp_timer, dhcp_timer_coarse, dhcp_timer_fine, igmp_timer, dns_timer}.
      count_list (map h (next_timeout s)) (Some f) = 1) \<and>
    count_list (map h (next_timeout s)) (Some tcpip_tcp_timer) = (if tcpip_tcp_timer_active s then 1 else 0)"
proof -
  have inv: "timers_inv s" using assms by (induction rule: rtranclp_induct) (auto simp: timers_init_inv intro: timer_step_inv)
  then have m: "mset (map h (next_timeout s)) = base_timers + (if tcpip_tcp_timer_active s then {#Some tcpip_tcp_timer#} else {#})"
    by (simp add: timers_inv_def)
  have "length (next_timeout s) = size (mset (map h (next_timeout s)))" by simp
  also have "\<dots> \<le> 7" unfolding m by (simp add: base_timers_def)
  finally have "3 \<le> memp_free_timeouts s" using inv by (simp add: timers_inv_def)
  moreover have "count_list (map h (next_timeout s)) x =
      count (base_timers + (if tcpip_tcp_timer_active s then {#Some tcpip_tcp_timer#} else {#})) x" for x
    unfolding m[symmetric] by (rule count_list_mset)
  ultimately show ?thesis by (simp add: base_timers_def)
qed

theorem timer_pool_invariant_witness:
  "3 \<le> memp_free_timeouts (tcp_timer_needed ((sys_timeouts_init 5 timers_boot)\<lparr>tcp_pcbs := True\<rparr>))"
proof -
  let ?s = "sys_timeouts_init 5 timers_boot" and ?user = "\<lambda>_ _ s. s"
  have "timer_step ?user ?s (?s\<lparr>tcp_pcbs := True\<rparr>)" by (rule timer_step.pcbs)
  moreover have "timer_step ?user (?s\<lparr>tcp_pcbs := True\<rparr>) (tcp_timer_needed (?s\<lparr>tcp_pcbs := True\<rparr>))" by (rule timer_step.needed)
  ultimately have "(timer_step ?user)\<^sup>*\<^sup>* ?s (tcp_timer_needed (?s\<lparr>tcp_pcbs := True\<rparr>))" by (meson r_into_rtranclp rtranclp.rtrancl_into_rtrancl)
  from timer_pool_invariant[OF this] show ?thesis by blast
qed

end
