(* ===== verification/Eth_Ring.thy ===== *)
theory Eth_Ring
  imports Prelude
begin

text \<open>
  Rings of DMA descriptors, as the Ethernet driver uses them for reception and transmission: ten descriptors in a circle, of
  which the producer fills one after the other and the consumer empties one after the other. A descriptor is full or
  not; there are no counters. This theory is about the two positions and the set of full descriptors alone.
\<close>

definition RING :: nat where "RING = 10"

definition ring_order :: "nat \<Rightarrow> nat list" where
  "ring_order c = map (\<lambda>i. (c + i) mod RING) [0..<RING]"

lemma ring_order_Cons:
  assumes "c < RING"
  shows "\<exists>ys. ring_order c = c # ys \<and> ring_order (Suc c mod RING) = ys @ [c]"
proof -
  have 1: "[0..<RING] = 0 # map Suc [0..<9]" "[0..<RING] = [0..<9] @ [9]" by (simp_all add: RING_def upt_conv_Cons map_Suc_upt)
  have "ring_order c = c # map (\<lambda>i. (c + Suc i) mod RING) [0..<9]"
    unfolding ring_order_def 1(1) using assms by (simp add: comp_def)
  moreover have "ring_order (Suc c mod RING) = map (\<lambda>i. (c + Suc i) mod RING) [0..<9] @ [c]"
    unfolding ring_order_def 1(2) using assms by (simp add: mod_add_left_eq RING_def)
  ultimately show ?thesis by blast
qed

lemma ring_pos_neq:
  assumes "i < j" "j < RING"
  shows "(c + i) mod RING \<noteq> (c + j) mod RING"
proof
  assume "(c + i) mod RING = (c + j) mod RING"
  then have "RING dvd c + j - (c + i)" using assms(1) mod_eq_dvd_iff_nat[of "c + i" "c + j" RING] by simp
  then show False using assms dvd_imp_le[of RING "j - i"] by simp
qed

lemma distinct_ring_order: "distinct (ring_order c)"
  unfolding ring_order_def distinct_map
proof (intro conjI inj_onI)
  fix i j assume "i \<in> set [0..<RING]" "j \<in> set [0..<RING]" "(c + i) mod RING = (c + j) mod RING"
  then show "i = j" using ring_pos_neq[of i j c] ring_pos_neq[of j i c] by (metis atLeastLessThan_upt atLeastLessThan_iff nat_neq_iff)
qed simp

lemma ring_order_nth: "i < RING \<Longrightarrow> ring_order c ! i = (c + i) mod RING" and length_ring_order [simp]: "length (ring_order c) = RING"
  by (simp_all add: ring_order_def)

lemma ring_order_next:
  assumes "c < RING" "ring_order c = xs @ a # zs"
  shows "hd (zs @ [c]) = Suc a mod RING"
proof -
  have l: "length xs + Suc (length zs) = RING" using arg_cong[OF assms(2), of length] by simp
  then have a: "a = (c + length xs) mod RING" using ring_order_nth[of "length xs" c] assms(2) by (simp add: nth_append)
  show ?thesis
  proof (cases zs)
    case Nil
    then have "Suc (c + length xs) = c + RING" using l by simp
    then have "Suc a mod RING = (c + RING) mod RING" using a by (simp only: mod_Suc_eq)
    then show ?thesis using Nil assms(1) by simp
  next
    case (Cons z zs')
    then have "z = (c + Suc (length xs)) mod RING" using ring_order_nth[of "Suc (length xs)" c] assms(2) l by (simp add: nth_append)
    then show ?thesis using Cons a by (simp add: mod_Suc_eq)
  qed
qed

lemma set_ring_order: "j \<in> set (ring_order c) \<Longrightarrow> j < RING" "c < RING \<Longrightarrow> c \<in> set (ring_order c)"
proof -
  show "j \<in> set (ring_order c) \<Longrightarrow> j < RING" by (auto simp: ring_order_def RING_def)
  show "c < RING \<Longrightarrow> c \<in> set (ring_order c)" using ring_order_Cons[of c] by (metis list.set_intros(1))
qed

text \<open>
  The full descriptors in the order of the consumer, and the invariant: the producer stands behind them and the rest is empty.
\<close>

definition pending :: "(nat \<Rightarrow> bool) \<Rightarrow> nat \<Rightarrow> nat list" where
  "pending full c = takeWhile full (ring_order c)"

definition ring_ok :: "(nat \<Rightarrow> bool) \<Rightarrow> nat \<Rightarrow> nat \<Rightarrow> bool" where
  "ring_ok full c p \<longleftrightarrow> c < RING \<and> p = hd (dropWhile full (ring_order c) @ [c]) \<and> (\<forall>j \<in> set (dropWhile full (ring_order c)). \<not> full j)"

lemma pending_empty: "c < RING \<Longrightarrow> pending full c = [] \<longleftrightarrow> \<not> full c"
  using ring_order_Cons[of c] by (auto simp: pending_def)

lemma pending_lt: "j \<in> set (pending full c) \<Longrightarrow> j < RING \<and> full j"
  by (auto simp: pending_def dest: set_takeWhileD set_ring_order(1))

lemma ring_ok_lt:
  assumes "ring_ok full c p"
  shows "c < RING" "p < RING"
proof -
  show "c < RING" using assms by (simp add: ring_ok_def)
  then show "p < RING" using assms set_dropWhileD[of p full "ring_order c"]
    by (cases "dropWhile full (ring_order c)") (auto simp: ring_ok_def intro: set_ring_order(1))
qed

lemma ring_full:
  assumes "ring_ok full c p"
  shows "full p \<longleftrightarrow> length (pending full c) = RING" "full p \<Longrightarrow> p = c \<and> pending full c = ring_order c"
    "full p \<longleftrightarrow> dropWhile full (ring_order c) = []"
proof -
  have s: "ring_order c = pending full c @ dropWhile full (ring_order c)" by (simp add: pending_def)
  show f: "full p \<longleftrightarrow> dropWhile full (ring_order c) = []"
  proof (cases "dropWhile full (ring_order c)")
    case Nil
    have "full c" using Nil ring_ok_lt(1)[OF assms] set_ring_order(2) by (simp add: dropWhile_eq_Nil_conv)
    moreover have "p = c" using assms unfolding ring_ok_def Nil by simp
    ultimately show ?thesis using Nil by simp
  next
    case (Cons z zs)
    then show ?thesis using assms by (simp add: ring_ok_def)
  qed
  have "length (pending full c) + length (dropWhile full (ring_order c)) = RING" using arg_cong[OF s, of length] by simp
  then show "full p \<longleftrightarrow> length (pending full c) = RING" unfolding f by (metis add_cancel_right_right length_0_conv)
  show "p = c \<and> pending full c = ring_order c" if "full p"
    using that f s assms by (metis append_Nil append_Nil2 list.sel(1) ring_ok_def)
qed

lemma ring_put:
  assumes "ring_ok full c p" "\<not> full p"
  shows "pending (full(p := True)) c = pending full c @ [p]" "ring_ok (full(p := True)) c (Suc p mod RING)"
proof -
  let ?f = "full(p := True)"
  have c: "c < RING" using assms(1) by (simp add: ring_ok_def)
  obtain zs where zs: "dropWhile full (ring_order c) = p # zs"
    using assms ring_full(3)[OF assms(1)] unfolding ring_ok_def by (cases "dropWhile full (ring_order c)") (simp, simp)
  have o: "ring_order c = pending full c @ p # zs" by (metis pending_def takeWhile_dropWhile_id zs)
  have d: "p \<notin> set zs" "\<forall>j \<in> set zs. \<not> full j" using distinct_ring_order[of c] o zs assms(1) by (auto simp: ring_ok_def)
  have t: "\<forall>j \<in> set (pending full c). ?f j" by (auto dest: pending_lt)
  have z: "takeWhile ?f zs = []" "dropWhile ?f zs = zs" using d by (cases zs; auto)+
  show "pending ?f c = pending full c @ [p]" unfolding pending_def[of ?f] o using t z by (simp add: takeWhile_append2)
  have "dropWhile ?f (ring_order c) = zs" unfolding o using t z by (simp add: dropWhile_append2)
  then show "ring_ok ?f c (Suc p mod RING)" using ring_order_next[OF c o] d c by (auto simp: ring_ok_def)
qed

lemma ring_get:
  assumes "ring_ok full c p" "full c"
  shows "pending full c = c # pending (full(c := False)) (Suc c mod RING)" "ring_ok (full(c := False)) (Suc c mod RING) p"
proof -
  let ?f = "full(c := False)"
  have c: "c < RING" using assms(1) by (simp add: ring_ok_def)
  obtain ys where ys: "ring_order c = c # ys" "ring_order (Suc c mod RING) = ys @ [c]" using ring_order_Cons[OF c] by blast
  have d: "c \<notin> set ys" using distinct_ring_order[of c] ys(1) by simp
  have w: "takeWhile ?f ys = takeWhile full ys" "dropWhile ?f ys = dropWhile full ys"
    using d by (induction ys) auto
  have t: "takeWhile ?f (ys @ [c]) = takeWhile full ys" and dr: "dropWhile ?f (ys @ [c]) = dropWhile full ys @ [c]"
    using w by (induction ys) (auto split: if_splits)
  show "pending full c = c # pending ?f (Suc c mod RING)" using ys assms(2) t by (simp add: pending_def)
  show "ring_ok ?f (Suc c mod RING) p" using assms ys dr c by (auto simp: ring_ok_def RING_def hd_append)
qed

end
