(* ===== verification/Eth_If.thy ===== *)
theory Eth_If
  imports Eth_Ring
begin

text \<open>
  The Ethernet interface \<^verbatim>\<open>LWIP/port/ethernetif.c\<close> with the descriptor routines of \<^verbatim>\<open>at32f435_437_emac.c\<close>, the pool branch of \<^verbatim>\<open>pbuf_alloc\<close>
  in \<^verbatim>\<open>LWIP/src/core/pbuf.c\<close> and the receive loop of the network task in \<^verbatim>\<open>USER/main.c\<close>.

  A descriptor address is its position in its table, a buffer address the row of \<^verbatim>\<open>Rx_Buff\<close> or \<^verbatim>\<open>Tx_Buff\<close>; NULL is \<open>None\<close>. A packet buffer chain
  that is sent is the list of its payloads; one that is received is given by its lengths and then by its bytes. The status
  register of the DMA clears the bits that are written as ones. What lwIP does with a frame (\<^verbatim>\<open>ethernet_input\<close>) is an
  argument; the frames given to it are recorded. The DMA engine is modelled by two steps of its own, delivering and
  sending a frame, as the manual of the controller describes them: it only touches descriptors whose
  \<^verbatim>\<open>OWN\<close> bit is set, in the order of the chain.
\<close>

section \<open>Data\<close>

record emac_dma_desc_type =
  dstatus :: u32
  controlsize :: u32
  buf1addr :: nat
  buf2nextdescaddr :: nat

record netif =
  hwaddr_len :: u8
  hwaddr :: buffer
  mtu :: u16
  nflags :: u8
  if_name :: string

datatype emac_act = EmacStart | EmacStop | ResumeRx | ResumeTx | LocalAddress u32 u32

record eth =
  DMARxDscrTab :: "emac_dma_desc_type list"
  DMATxDscrTab :: "emac_dma_desc_type list"
  Rx_Buff :: "buffer list"
  Tx_Buff :: "buffer list"
  dma_rx_desc_to_get :: nat
  dma_tx_desc_to_set :: nat
  MACaddr :: buffer
  emac_sts :: u32
  emac_acts :: "emac_act list"
  pbuf_pool :: nat
  to_stack :: "buffer list"
  rx_hw :: nat
  tx_hw :: nat

abbreviation (input) EMAC_MAX_PACKET_LENGTH :: nat where "EMAC_MAX_PACKET_LENGTH \<equiv> 1520"
abbreviation (input) EMAC_RXBUFNB :: nat where "EMAC_RXBUFNB \<equiv> 10"
abbreviation (input) EMAC_TXBUFNB :: nat where "EMAC_TXBUFNB \<equiv> 10"
abbreviation (input) EMAC_DMADESC_OWN :: u32 where "EMAC_DMADESC_OWN \<equiv> 0x80000000"
abbreviation (input) EMAC_DMATXDESC_IC :: u32 where "EMAC_DMATXDESC_IC \<equiv> 0x40000000"
abbreviation (input) EMAC_DMATXDESC_LS :: u32 where "EMAC_DMATXDESC_LS \<equiv> 0x20000000"
abbreviation (input) EMAC_DMATXDESC_FS :: u32 where "EMAC_DMATXDESC_FS \<equiv> 0x10000000"
abbreviation (input) EMAC_DMATXDESC_CIC_TUI_FULL :: u32 where "EMAC_DMATXDESC_CIC_TUI_FULL \<equiv> 0x00C00000"
abbreviation (input) EMAC_DMATXDESC_TCH :: u32 where "EMAC_DMATXDESC_TCH \<equiv> 0x00100000"
abbreviation (input) EMAC_DMATXDESC_TBS1 :: u32 where "EMAC_DMATXDESC_TBS1 \<equiv> 0x1FFF"
abbreviation (input) EMAC_DMARXDESC_FL :: u32 where "EMAC_DMARXDESC_FL \<equiv> 0x3FFF0000"
abbreviation (input) EMAC_DMADESC_ES :: u32 where "EMAC_DMADESC_ES \<equiv> 0x00008000"
abbreviation (input) EMAC_DMARXDESC_FS :: u32 where "EMAC_DMARXDESC_FS \<equiv> 0x00000200"
abbreviation (input) EMAC_DMARXDESC_LS :: u32 where "EMAC_DMARXDESC_LS \<equiv> 0x00000100"
abbreviation (input) EMAC_DMARXDESC_DIC :: u32 where "EMAC_DMARXDESC_DIC \<equiv> 0x80000000"
abbreviation (input) EMAC_DMARXDESC_RCH :: u32 where "EMAC_DMARXDESC_RCH \<equiv> 0x00004000"
abbreviation (input) EMAC_DMA_TBU_FLAG :: u32 where "EMAC_DMA_TBU_FLAG \<equiv> 0x00000004"
abbreviation (input) EMAC_DMA_RBU_FLAG :: u32 where "EMAC_DMA_RBU_FLAG \<equiv> 0x00000080"
abbreviation (input) PBUF_POOL_BUFSIZE :: nat where "PBUF_POOL_BUFSIZE \<equiv> 2000"

definition own :: "emac_dma_desc_type \<Rightarrow> bool" where
  "own d \<longleftrightarrow> dstatus d AND EMAC_DMADESC_OWN \<noteq> 0"

section \<open>Initialisation\<close>

definition emac_log :: "emac_act \<Rightarrow> eth \<Rightarrow> eth" where
  "emac_log a s = s\<lparr>emac_acts := emac_acts s @ [a]\<rparr>"

definition lwip_set_mac_address :: "buffer \<Rightarrow> eth \<Rightarrow> eth option" where
  "lwip_set_mac_address m s = do {
     a0 \<leftarrow> rd m 0; a1 \<leftarrow> rd m 1; a2 \<leftarrow> rd m 2; a3 \<leftarrow> rd m 3; a4 \<leftarrow> rd m 4; a5 \<leftarrow> rd m 5;
     Some (emac_log (LocalAddress (push_bit 8 (ucast a5) OR ucast a4)
             (push_bit 24 (ucast a3) OR push_bit 16 (ucast a2) OR push_bit 8 (ucast a1) OR ucast a0))
             (s\<lparr>MACaddr := [a0, a1, a2, a3, a4, a5]\<rparr>))
   }"

definition list_address_set_tx :: "nat \<Rightarrow> eth \<Rightarrow> eth option" where
  "list_address_set_tx n s = do {
     t \<leftarrow> for_range 0 n (\<lambda>i t. do {
            d \<leftarrow> rd t i;
            wr t i (d\<lparr>dstatus := EMAC_DMATXDESC_TCH, buf1addr := i, buf2nextdescaddr := (if i < n - 1 then i + 1 else 0)\<rparr>)
          }) (DMATxDscrTab s);
     Some (s\<lparr>DMATxDscrTab := t, dma_tx_desc_to_set := 0, tx_hw := 0\<rparr>)
   }"

definition list_address_set_rx :: "nat \<Rightarrow> eth \<Rightarrow> eth option" where
  "list_address_set_rx n s = do {
     t \<leftarrow> for_range 0 n (\<lambda>i t. do {
            d \<leftarrow> rd t i;
            wr t i (d\<lparr>dstatus := EMAC_DMADESC_OWN, controlsize := EMAC_DMARXDESC_RCH OR of_nat EMAC_MAX_PACKET_LENGTH, buf1addr := i,
              buf2nextdescaddr := (if i < n - 1 then i + 1 else 0)\<rparr>)
          }) (DMARxDscrTab s);
     Some (s\<lparr>DMARxDscrTab := t, dma_rx_desc_to_get := 0, rx_hw := 0\<rparr>)
   }"

definition emac_dma_rx_desc_interrupt_config :: "bool \<Rightarrow> emac_dma_desc_type \<Rightarrow> emac_dma_desc_type" where
  "emac_dma_rx_desc_interrupt_config new_state d =
     (if new_state then d\<lparr>controlsize := controlsize d AND NOT EMAC_DMARXDESC_DIC\<rparr>
      else d\<lparr>controlsize := controlsize d OR EMAC_DMARXDESC_DIC\<rparr>)"

definition low_level_init :: "netif \<Rightarrow> eth \<Rightarrow> (netif \<times> eth) option" where
  "low_level_init nif s = do {
     let nif = nif\<lparr>hwaddr_len := 6, hwaddr := MACaddr s, mtu := 1500, nflags := 0x32\<rparr>;
     s \<leftarrow> list_address_set_tx EMAC_TXBUFNB s;
     s \<leftarrow> list_address_set_rx EMAC_RXBUFNB s;
     t \<leftarrow> for_range 0 EMAC_RXBUFNB (\<lambda>i t. do { d \<leftarrow> rd t i; wr t i (emac_dma_rx_desc_interrupt_config True d) }) (DMARxDscrTab s);
     let s = s\<lparr>DMARxDscrTab := t\<rparr>;
     t \<leftarrow> for_range 0 EMAC_TXBUFNB (\<lambda>i t. do {
            d \<leftarrow> rd t i;
            wr t i (d\<lparr>dstatus := dstatus d OR (EMAC_DMATXDESC_CIC_TUI_FULL OR EMAC_DMATXDESC_IC)\<rparr>)
          }) (DMATxDscrTab s);
     Some (nif, emac_log EmacStart (s\<lparr>DMATxDscrTab := t\<rparr>))
   }"

text \<open>\<^verbatim>\<open>mem_ok\<close>: the allocation of the private structure succeeds.\<close>

definition ethernetif_init :: "bool \<Rightarrow> netif \<Rightarrow> eth \<Rightarrow> (int \<times> netif \<times> eth) option" where
  "ethernetif_init mem_ok nif s =
     (if \<not> mem_ok then Some (ERR_MEM, nif, s)
      else do { (nif, s) \<leftarrow> low_level_init (nif\<lparr>if_name := ''at''\<rparr>) s; Some (ERR_OK, nif, s) })"

section \<open>Reception\<close>

definition emac_dma_flag_get :: "u32 \<Rightarrow> eth \<Rightarrow> bool" where
  "emac_dma_flag_get f s \<longleftrightarrow> emac_sts s AND f \<noteq> 0"

definition emac_dma_flag_clear :: "u32 \<Rightarrow> eth \<Rightarrow> eth" where
  "emac_dma_flag_clear f s = s\<lparr>emac_sts := emac_sts s AND NOT f\<rparr>"

definition resume_rx :: "eth \<Rightarrow> eth" where
  "resume_rx s = (if emac_dma_flag_get EMAC_DMA_RBU_FLAG s then emac_log ResumeRx (emac_dma_flag_clear EMAC_DMA_RBU_FLAG s) else s)"

definition emac_dmarxdesc_frame_length_get :: "emac_dma_desc_type \<Rightarrow> u32" where
  "emac_dmarxdesc_frame_length_get d = drop_bit 16 (dstatus d AND EMAC_DMARXDESC_FL)"

definition whole_frame :: "emac_dma_desc_type \<Rightarrow> bool" where
  "whole_frame d \<longleftrightarrow> dstatus d AND EMAC_DMADESC_ES = 0 \<and> dstatus d AND EMAC_DMARXDESC_LS \<noteq> 0 \<and> dstatus d AND EMAC_DMARXDESC_FS \<noteq> 0"

definition emac_received_packet_size_get :: "eth \<Rightarrow> u32 option" where
  "emac_received_packet_size_get s = do {
     d \<leftarrow> rd (DMARxDscrTab s) (dma_rx_desc_to_get s);
     Some (if \<not> own d \<and> whole_frame d then emac_dmarxdesc_frame_length_get d else 0)
   }"

text \<open>The frame: length, buffer, descriptor.\<close>

definition emac_rxpkt_chainmode :: "eth \<Rightarrow> ((u32 \<times> nat option \<times> nat option) \<times> eth) option" where
  "emac_rxpkt_chainmode s = do {
     d \<leftarrow> rd (DMARxDscrTab s) (dma_rx_desc_to_get s);
     if own d then Some ((0, None, None), resume_rx s)
     else Some
       ((if whole_frame d then (emac_dmarxdesc_frame_length_get d - 4, Some (buf1addr d), Some (dma_rx_desc_to_get s))
         else (0, None, Some (dma_rx_desc_to_get s))),
        s\<lparr>dma_rx_desc_to_get := buf2nextdescaddr d\<rparr>)
   }"

text \<open>The lengths of the chain \<^verbatim>\<open>pbuf_alloc(PBUF_RAW, length, PBUF_POOL)\<close> builds from \<open>free\<close> free pool entries.\<close>

fun pool_tail :: "nat \<Rightarrow> nat \<Rightarrow> nat list option" where
  "pool_tail free rem_len =
     (if rem_len = 0 then Some []
      else case free of
        0 \<Rightarrow> None
      | Suc f \<Rightarrow> do { ns \<leftarrow> pool_tail f (rem_len - min rem_len PBUF_POOL_BUFSIZE); Some (min rem_len PBUF_POOL_BUFSIZE # ns) })"

definition pbuf_alloc_pool :: "u16 \<Rightarrow> nat \<Rightarrow> nat list option" where
  "pbuf_alloc_pool len free =
     (case free of
        0 \<Rightarrow> None
      | Suc f \<Rightarrow> do {
          ns \<leftarrow> pool_tail f (unat len - min (unat len) PBUF_POOL_BUFSIZE);
          Some (min (unat len) PBUF_POOL_BUFSIZE # ns)
        })"

text \<open>The copy loop; copying nothing from NULL is harmless.\<close>

fun copy_in :: "buffer option \<Rightarrow> nat \<Rightarrow> nat list \<Rightarrow> buffer option" where
  "copy_in b l [] = Some []"
| "copy_in b l (n # ns) = do {
     xs \<leftarrow> (case b of
              None \<Rightarrow> if n = 0 then Some [] else None
            | Some buf \<Rightarrow> if l + n \<le> length buf then Some (take n (drop l buf)) else None);
     ys \<leftarrow> copy_in b (l + n) ns;
     Some (xs @ ys)
   }"

definition low_level_input :: "eth \<Rightarrow> (buffer option \<times> eth) option" where
  "low_level_input s = do {
     ((len, buffer, descriptor), s) \<leftarrow> emac_rxpkt_chainmode s;
     src \<leftarrow> (case buffer of None \<Rightarrow> Some None | Some i \<Rightarrow> do { b \<leftarrow> rd (Rx_Buff s) i; Some (Some b) });
     (p, s) \<leftarrow> (case pbuf_alloc_pool (ucast len) (pbuf_pool s) of
                  None \<Rightarrow> Some (None, s)
                | Some ns \<Rightarrow> do { xs \<leftarrow> copy_in src 0 ns; Some (Some xs, s\<lparr>pbuf_pool := pbuf_pool s - length ns\<rparr>) });
     i \<leftarrow> descriptor;
     d \<leftarrow> rd (DMARxDscrTab s) i;
     t \<leftarrow> wr (DMARxDscrTab s) i (d\<lparr>dstatus := dstatus d OR EMAC_DMADESC_OWN\<rparr>);
     Some (p, resume_rx (s\<lparr>DMARxDscrTab := t\<rparr>))
   }"

definition ethernetif_input :: "(buffer \<Rightarrow> int) \<Rightarrow> eth \<Rightarrow> (int \<times> eth) option" where
  "ethernetif_input ethernet_input s0 = do {
     (p, s) \<leftarrow> low_level_input s0;
     case p of
       None \<Rightarrow> Some (ERR_MEM, s)
     | Some xs \<Rightarrow>
         (let err = ethernet_input xs; s = s\<lparr>to_stack := to_stack s @ [xs]\<rparr>
          in Some (err, if err \<noteq> ERR_OK then s\<lparr>pbuf_pool := pbuf_pool s0\<rparr> else s))
   }"

definition lwip_pkt_handle :: "(buffer \<Rightarrow> int) \<Rightarrow> eth \<Rightarrow> eth option" where
  "lwip_pkt_handle ethernet_input s = map_option snd (ethernetif_input ethernet_input s)"

text \<open>The loop of the network task: \<^verbatim>\<open>while (emac_received_packet_size_get() != 0) lwip_pkt_handle();\<close>\<close>

fun network_rx_loop :: "nat \<Rightarrow> (buffer \<Rightarrow> int) \<Rightarrow> eth \<Rightarrow> eth option" where
  "network_rx_loop 0 ethernet_input s = None"
| "network_rx_loop (Suc n) ethernet_input s = do {
     k \<leftarrow> emac_received_packet_size_get s;
     if k = 0 then Some s else lwip_pkt_handle ethernet_input s \<bind> network_rx_loop n ethernet_input
   }"

section \<open>Transmission\<close>

fun copy_out :: "buffer list \<Rightarrow> nat \<Rightarrow> buffer \<Rightarrow> (nat \<times> buffer) option" where
  "copy_out [] l buf = Some (l, buf)"
| "copy_out (q # qs) l buf = do { buf \<leftarrow> memcpy buf l q 0 (length q); copy_out qs (l + length q) buf }"

definition emac_getcurrenttxbuffer :: "eth \<Rightarrow> nat option" where
  "emac_getcurrenttxbuffer s = do { d \<leftarrow> rd (DMATxDscrTab s) (dma_tx_desc_to_set s); Some (buf1addr d) }"

definition emac_txpkt_chainmode :: "u16 \<Rightarrow> eth \<Rightarrow> (bool \<times> eth) option" where
  "emac_txpkt_chainmode FrameLength s = do {
     d \<leftarrow> rd (DMATxDscrTab s) (dma_tx_desc_to_set s);
     if own d then Some (False, s)
     else do {
       let d = d\<lparr>controlsize := ucast FrameLength AND EMAC_DMATXDESC_TBS1,
                 dstatus := (dstatus d OR (EMAC_DMATXDESC_LS OR EMAC_DMATXDESC_FS)) OR EMAC_DMADESC_OWN\<rparr>;
       t \<leftarrow> wr (DMATxDscrTab s) (dma_tx_desc_to_set s) d;
       let s = s\<lparr>DMATxDscrTab := t\<rparr>;
       let s = (if emac_dma_flag_get EMAC_DMA_TBU_FLAG s then emac_log ResumeTx (emac_dma_flag_clear EMAC_DMA_TBU_FLAG s) else s);
       Some (True, s\<lparr>dma_tx_desc_to_set := buf2nextdescaddr d\<rparr>)
     }
   }"

definition low_level_output :: "buffer list \<Rightarrow> eth \<Rightarrow> (int \<times> eth) option" where
  "low_level_output p s = do {
     i \<leftarrow> emac_getcurrenttxbuffer s;
     b \<leftarrow> rd (Tx_Buff s) i;
     (l, b) \<leftarrow> copy_out p 0 b;
     t \<leftarrow> wr (Tx_Buff s) i b;
     (ok, s) \<leftarrow> emac_txpkt_chainmode (of_nat l) (s\<lparr>Tx_Buff := t\<rparr>);
     Some (if ok then ERR_OK else ERR_MEM, s)
   }"

section \<open>The DMA engine\<close>

text \<open>
  The engine receives a frame: it writes the bytes to the buffer of its current descriptor, gives the descriptor with its status
  word back and goes on to the next. Without a descriptor of its own it drops the frame and reports it.
\<close>

definition dma_deliver :: "u32 \<Rightarrow> buffer \<Rightarrow> eth \<Rightarrow> eth option" where
  "dma_deliver w bytes s = do {
     d \<leftarrow> rd (DMARxDscrTab s) (rx_hw s);
     if own d then do {
       b \<leftarrow> rd (Rx_Buff s) (buf1addr d);
       b \<leftarrow> memcpy b 0 bytes 0 (length bytes);
       bs \<leftarrow> wr (Rx_Buff s) (buf1addr d) b;
       t \<leftarrow> wr (DMARxDscrTab s) (rx_hw s) (d\<lparr>dstatus := w AND NOT EMAC_DMADESC_OWN\<rparr>);
       Some (s\<lparr>Rx_Buff := bs, DMARxDscrTab := t, rx_hw := buf2nextdescaddr d\<rparr>)
     }
     else Some (s\<lparr>emac_sts := emac_sts s OR EMAC_DMA_RBU_FLAG\<rparr>)
   }"

text \<open>The engine sends the frame of its current descriptor, if it owns it, and gives the descriptor back.\<close>

definition dma_transmit :: "eth \<Rightarrow> (buffer option \<times> eth) option" where
  "dma_transmit s = do {
     d \<leftarrow> rd (DMATxDscrTab s) (tx_hw s);
     if own d then do {
       b \<leftarrow> rd (Tx_Buff s) (buf1addr d);
       t \<leftarrow> wr (DMATxDscrTab s) (tx_hw s) (d\<lparr>dstatus := dstatus d AND NOT EMAC_DMADESC_OWN\<rparr>);
       Some (Some (take (unat (controlsize d AND EMAC_DMATXDESC_TBS1)) b), s\<lparr>DMATxDscrTab := t, tx_hw := buf2nextdescaddr d\<rparr>)
     }
     else Some (None, s\<lparr>emac_sts := emac_sts s OR EMAC_DMA_TBU_FLAG\<rparr>)
   }"

section \<open>Status words\<close>

lemma and_exp: "(w :: u32) AND 2 ^ n = 0 \<longleftrightarrow> \<not> bit w n"
  by (simp add: and_exp_eq_0_iff_not_bit)

lemma own_bit: "own d \<longleftrightarrow> bit (dstatus d) 31"
  using and_exp[of "dstatus d" 31] by (simp add: own_def)

lemma whole_frame_bits: "whole_frame d \<longleftrightarrow> \<not> bit (dstatus d) 15 \<and> bit (dstatus d) 8 \<and> bit (dstatus d) 9"
  using and_exp[of "dstatus d" 15] and_exp[of "dstatus d" 8] and_exp[of "dstatus d" 9] by (simp add: whole_frame_def)

lemma frame_length_bits: "bit (emac_dmarxdesc_frame_length_get d) n \<longleftrightarrow> n < 14 \<and> bit (dstatus d) (n + 16)"
proof -
  have "(0x3FFF0000 :: u32) = push_bit 16 (mask 14)" by (simp add: mask_eq_exp_minus_1)
  then have "bit (emac_dmarxdesc_frame_length_get d) n \<longleftrightarrow> bit (dstatus d AND push_bit 16 (mask 14)) (16 + n)"
    by (simp only: emac_dmarxdesc_frame_length_get_def bit_drop_bit_eq comp_def)
  also have "\<dots> \<longleftrightarrow> bit (dstatus d) (16 + n) \<and> n < 14" by (auto simp: bit_and_iff bit_push_bit_iff bit_mask_iff dest: bit_imp_le_length)
  finally show ?thesis by (simp add: add.commute conj_commute)
qed

text \<open>The status word of a received frame of \<open>n\<close> bytes with its check sum, without an error and in one descriptor.\<close>

definition rx_status :: "nat \<Rightarrow> u32" where
  "rx_status n = push_bit 16 (of_nat n) OR 2 ^ 9 OR 2 ^ 8"

lemma bit_rx_status: "n < 2 ^ 14 \<Longrightarrow> bit (rx_status n) i \<longleftrightarrow> i < 32 \<and> (16 \<le> i \<and> bit n (i - 16) \<or> i = 9 \<or> i = 8)"
  unfolding rx_status_def bit_or_iff bit_push_bit_iff bit_exp_iff by (auto simp: bit_of_nat_iff dest: bit_imp_le_length)

lemma rx_status_desc:
  assumes "n < 2 ^ 14" "dstatus d = rx_status n AND NOT EMAC_DMADESC_OWN"
  shows "\<not> own d" "whole_frame d" "unat (emac_dmarxdesc_frame_length_get d) = n"
proof -
  have "(0x80000000 :: u32) = 2 ^ 31" by simp
  then have d: "dstatus d = rx_status n AND NOT (2 ^ 31)" using assms(2) by (simp only:)
  have b: "bit (dstatus d) i \<longleftrightarrow> bit (rx_status n) i \<and> i \<noteq> 31" for i
    unfolding d bit_and_iff bit_not_iff bit_exp_iff by (auto dest: bit_imp_le_length)
  show "\<not> own d" "whole_frame d" using b by (simp_all add: own_bit whole_frame_bits bit_rx_status[OF assms(1)])
  have h: "bit n i \<Longrightarrow> i < 14" for i
    using assms(1) by (metis bit_take_bit_iff take_bit_nat_eq_self)
  have "bit (emac_dmarxdesc_frame_length_get d) i \<longleftrightarrow> bit (of_nat n :: u32) i" for i
    using h[of i] by (auto simp: frame_length_bits b bit_rx_status[OF assms(1)] bit_of_nat_iff)
  then have "emac_dmarxdesc_frame_length_get d = of_nat n" by (intro bit_word_eqI) simp
  then show "unat (emac_dmarxdesc_frame_length_get d) = n" using assms(1) by (simp add: unat_of_nat)
qed

lemma own_set [simp]: "own (d\<lparr>dstatus := w OR EMAC_DMADESC_OWN\<rparr>)"
proof -
  have "(0x80000000 :: u32) = 2 ^ 31" by simp
  then have "bit (w OR 0x80000000) 31" by (simp only: bit_or_iff bit_exp_iff) simp
  then show ?thesis by (simp add: own_bit)
qed

lemma own_clear [simp]: "\<not> own (d\<lparr>dstatus := w AND NOT EMAC_DMADESC_OWN\<rparr>)"
proof -
  have "(0x80000000 :: u32) = 2 ^ 31" by simp
  then have "\<not> bit (w AND NOT 0x80000000) 31" by (simp only: bit_and_iff bit_not_iff bit_exp_iff) simp
  then show ?thesis unfolding own_bit by simp
qed

lemmas own_clear_num [simp] = own_clear[simplified]

section \<open>The reception ring\<close>

definition chain_ok :: "emac_dma_desc_type list \<Rightarrow> bool" where
  "chain_ok t \<longleftrightarrow> length t = RING \<and> (\<forall>i < RING. buf1addr (t ! i) = i \<and> buf2nextdescaddr (t ! i) = Suc i mod RING)"

lemma chain_ok_upd [simp]:
  "chain_ok t \<Longrightarrow> i < RING \<Longrightarrow> buf1addr d = i \<Longrightarrow> buf2nextdescaddr d = Suc i mod RING \<Longrightarrow> chain_ok (t[i := d])"
  by (auto simp: chain_ok_def nth_list_update)

lemma chain_okD:
  "chain_ok t \<Longrightarrow> length t = RING" "chain_ok t \<Longrightarrow> i < RING \<Longrightarrow> buf1addr (t ! i) = i"
  "chain_ok t \<Longrightarrow> i < RING \<Longrightarrow> buf2nextdescaddr (t ! i) = Suc i mod RING"
  by (simp_all add: chain_ok_def)

definition bufs_ok :: "buffer list \<Rightarrow> bool" where
  "bufs_ok bs \<longleftrightarrow> length bs = RING \<and> (\<forall>b \<in> set bs. length b = EMAC_MAX_PACKET_LENGTH)"

lemma bufs_ok_upd [simp]: "bufs_ok bs \<Longrightarrow> length b = EMAC_MAX_PACKET_LENGTH \<Longrightarrow> bufs_ok (bs[i := b])"
  by (auto simp: bufs_ok_def dest!: set_update_subset_insert[THEN subsetD])

lemma bufs_okD: "bufs_ok bs \<Longrightarrow> length bs = RING" "bufs_ok bs \<Longrightarrow> i < RING \<Longrightarrow> length (bs ! i) = EMAC_MAX_PACKET_LENGTH"
  by (simp_all add: bufs_ok_def)

definition rx_full :: "eth \<Rightarrow> nat \<Rightarrow> bool" where
  "rx_full s j \<longleftrightarrow> \<not> own (DMARxDscrTab s ! j)"

definition rx_pending :: "eth \<Rightarrow> nat list" where
  "rx_pending s = pending (rx_full s) (dma_rx_desc_to_get s)"

definition rx_frame :: "eth \<Rightarrow> nat \<Rightarrow> buffer" where
  "rx_frame s j = take (unat (emac_dmarxdesc_frame_length_get (DMARxDscrTab s ! j)) - 4) (Rx_Buff s ! j)"

definition rx_frames :: "eth \<Rightarrow> buffer list" where
  "rx_frames s = map (rx_frame s) (rx_pending s)"

definition rx_good :: "eth \<Rightarrow> nat \<Rightarrow> bool" where
  "rx_good s j \<longleftrightarrow> whole_frame (DMARxDscrTab s ! j) \<and> 4 \<le> unat (emac_dmarxdesc_frame_length_get (DMARxDscrTab s ! j)) \<and>
     unat (emac_dmarxdesc_frame_length_get (DMARxDscrTab s ! j)) \<le> EMAC_MAX_PACKET_LENGTH"

definition rx_shape :: "eth \<Rightarrow> bool" where
  "rx_shape s \<longleftrightarrow> chain_ok (DMARxDscrTab s) \<and> bufs_ok (Rx_Buff s) \<and> ring_ok (rx_full s) (dma_rx_desc_to_get s) (rx_hw s)"

definition rx_inv :: "eth \<Rightarrow> bool" where
  "rx_inv s \<longleftrightarrow> rx_shape s \<and> 0 < pbuf_pool s \<and> (\<forall>j \<in> set (rx_pending s). rx_good s j)"

text \<open>A frame that fits a buffer with its check sum.\<close>

definition eth_frame :: "buffer \<Rightarrow> bool" where
  "eth_frame f \<longleftrightarrow> length f + 4 \<le> EMAC_MAX_PACKET_LENGTH"

definition rx_put :: "(buffer \<Rightarrow> buffer) \<Rightarrow> buffer \<Rightarrow> eth \<Rightarrow> eth option" where
  "rx_put fcs f s = dma_deliver (rx_status (length f + 4)) (f @ fcs f) s"

text \<open>One round of the receive loop of the network task; the stack returns the packet buffers before the next.\<close>

definition rx_get :: "(buffer \<Rightarrow> int) \<Rightarrow> eth \<Rightarrow> (buffer option \<times> eth) option" where
  "rx_get ethernet_input s = do {
     k \<leftarrow> emac_received_packet_size_get s;
     if k = 0 then Some (None, s)
     else do {
       s' \<leftarrow> lwip_pkt_handle ethernet_input s;
       Some (if to_stack s' = to_stack s then None else Some (last (to_stack s')), s'\<lparr>pbuf_pool := pbuf_pool s\<rparr>)
     }
   }"

lemma deliver_val:
  assumes "rx_shape s" "\<not> rx_full s (rx_hw s)" "length bytes \<le> EMAC_MAX_PACKET_LENGTH"
  shows "\<exists>s'. dma_deliver w bytes s = Some s' \<and> rx_shape s' \<and> rx_pending s' = rx_pending s @ [rx_hw s] \<and> rx_hw s \<notin> set (rx_pending s) \<and>
    s' = s\<lparr>Rx_Buff := (Rx_Buff s)[rx_hw s := bytes @ drop (length bytes) (Rx_Buff s ! rx_hw s)],
           DMARxDscrTab := (DMARxDscrTab s)[rx_hw s := (DMARxDscrTab s ! rx_hw s)\<lparr>dstatus := w AND NOT EMAC_DMADESC_OWN\<rparr>],
           rx_hw := Suc (rx_hw s) mod RING\<rparr>"
proof -
  let ?p = "rx_hw s" and ?d = "DMARxDscrTab s ! rx_hw s"
  have r: "ring_ok (rx_full s) (dma_rx_desc_to_get s) ?p" and c: "chain_ok (DMARxDscrTab s)" and b: "bufs_ok (Rx_Buff s)"
    using assms(1) by (simp_all add: rx_shape_def)
  note p = ring_ok_lt(2)[OF r]
  note bd = chain_okD[OF c] bufs_okD[OF b] chain_okD(2,3)[OF c p] bufs_okD(2)[OF b p]
  let ?s = "s\<lparr>Rx_Buff := (Rx_Buff s)[?p := bytes @ drop (length bytes) (Rx_Buff s ! ?p)],
      DMARxDscrTab := (DMARxDscrTab s)[?p := ?d\<lparr>dstatus := w AND NOT EMAC_DMADESC_OWN\<rparr>], rx_hw := Suc ?p mod RING\<rparr>"
  have f: "rx_full ?s = (rx_full s)(?p := True)" using p bd by (auto simp: rx_full_def nth_list_update fun_eq_iff)
  have "dma_deliver w bytes s = Some ?s"
    using assms(2,3) p bd by (simp add: dma_deliver_def rx_full_def memcpy_def)
  moreover have "rx_shape ?s" using ring_put(2)[OF r assms(2)] c b p bd assms(3) unfolding rx_shape_def f by simp
  moreover have "rx_pending ?s = rx_pending s @ [?p]" using ring_put(1)[OF r assms(2)] unfolding rx_pending_def f by simp
  moreover have "?p \<notin> set (rx_pending s)" using assms(2) by (auto simp: rx_pending_def dest: pending_lt)
  ultimately show ?thesis by blast
qed

lemma deliver_full:
  assumes "rx_shape s" "rx_full s (rx_hw s)"
  shows "dma_deliver w bytes s = Some (s\<lparr>emac_sts := emac_sts s OR EMAC_DMA_RBU_FLAG\<rparr>)"
proof -
  have "rx_hw s < length (DMARxDscrTab s)" using assms(1) ring_ok_lt(2) by (auto simp: rx_shape_def chain_ok_def)
  then show ?thesis using assms(2) by (simp add: dma_deliver_def rx_full_def)
qed

lemma rx_put_val:
  assumes "rx_inv s" "eth_frame f" "length (fcs f) = 4" "length (rx_frames s) < RING"
  shows "\<exists>s'. rx_put fcs f s = Some s' \<and> rx_inv s' \<and> rx_frames s' = rx_frames s @ [f]"
proof -
  let ?p = "rx_hw s"
  have sh: "rx_shape s" and r: "ring_ok (rx_full s) (dma_rx_desc_to_get s) ?p" using assms(1) by (simp_all add: rx_inv_def rx_shape_def)
  have nf: "\<not> rx_full s ?p" using ring_full(1)[OF r] assms(4) by (simp add: rx_frames_def rx_pending_def)
  have p: "?p < RING" "length (DMARxDscrTab s) = RING" "length (Rx_Buff s) = RING" "length (Rx_Buff s ! ?p) = EMAC_MAX_PACKET_LENGTH"
    using ring_ok_lt(2)[OF r] sh by (simp_all add: rx_shape_def chain_okD bufs_okD)
  have l: "length (f @ fcs f) \<le> EMAC_MAX_PACKET_LENGTH" using assms(2,3) by (simp add: eth_frame_def)
  from deliver_val[OF sh nf l, of "rx_status (length f + 4)"] obtain s' where
    s': "rx_put fcs f s = Some s'" "rx_shape s'" "rx_pending s' = rx_pending s @ [?p]" "?p \<notin> set (rx_pending s)"
    "s' = s\<lparr>Rx_Buff := (Rx_Buff s)[?p := (f @ fcs f) @ drop (length (f @ fcs f)) (Rx_Buff s ! ?p)],
      DMARxDscrTab := (DMARxDscrTab s)[?p := (DMARxDscrTab s ! ?p)\<lparr>dstatus := rx_status (length f + 4) AND NOT EMAC_DMADESC_OWN\<rparr>],
      rx_hw := Suc ?p mod RING\<rparr>" unfolding rx_put_def by blast
  have n: "length f + 4 < 2 ^ 14" using assms(2) by (simp add: eth_frame_def)
  have "dstatus (DMARxDscrTab s' ! ?p) = rx_status (length f + 4) AND NOT EMAC_DMADESC_OWN" using s'(5) p by simp
  note st = rx_status_desc[OF n this]
  have same: "DMARxDscrTab s' ! j = DMARxDscrTab s ! j" "Rx_Buff s' ! j = Rx_Buff s ! j" if "j \<in> set (rx_pending s)" for j
  proof -
    have "j \<noteq> ?p" using that s'(4) by auto
    then show "DMARxDscrTab s' ! j = DMARxDscrTab s ! j" "Rx_Buff s' ! j = Rx_Buff s ! j" using s'(5) by simp_all
  qed
  have g: "rx_good s' ?p" using st assms(2) by (simp add: rx_good_def eth_frame_def)
  have fr: "rx_frame s' ?p = f" using st(3) s'(5) p by (simp add: rx_frame_def)
  have "\<forall>j \<in> set (rx_pending s). rx_good s' j" using assms(1) same by (simp add: rx_inv_def rx_good_def)
  then have "rx_inv s'" using s' g assms(1) by (simp add: rx_inv_def)
  moreover have "rx_frames s' = rx_frames s @ [f]" using s'(3) fr same by (simp add: rx_frames_def rx_frame_def)
  ultimately show ?thesis using s'(1) by blast
qed

lemma resume_rx_simps [simp]:
  "DMARxDscrTab (resume_rx s) = DMARxDscrTab s" "Rx_Buff (resume_rx s) = Rx_Buff s" "dma_rx_desc_to_get (resume_rx s) = dma_rx_desc_to_get s"
  "rx_hw (resume_rx s) = rx_hw s" "pbuf_pool (resume_rx s) = pbuf_pool s" "to_stack (resume_rx s) = to_stack s"
  by (simp_all add: resume_rx_def emac_log_def emac_dma_flag_clear_def)

lemma pbuf_one: "unat len \<le> PBUF_POOL_BUFSIZE \<Longrightarrow> 0 < free \<Longrightarrow> pbuf_alloc_pool len free = Some [unat len]"
  by (cases free) (simp_all add: pbuf_alloc_pool_def)

text \<open>Reading a waiting frame: its bytes without the check sum, and the descriptor is the engine's again.\<close>

lemma input_val:
  assumes "rx_inv s" "rx_pending s = c # js"
  shows "\<exists>s'. low_level_input s = Some (Some (rx_frame s c), s') \<and> rx_shape s' \<and> rx_pending s' = js \<and> to_stack s' = to_stack s \<and>
    pbuf_pool s' = pbuf_pool s - 1 \<and> (\<forall>j \<in> set js. DMARxDscrTab s' ! j = DMARxDscrTab s ! j) \<and> Rx_Buff s' = Rx_Buff s"
proof -
  let ?c = "dma_rx_desc_to_get s"
  let ?d = "DMARxDscrTab s ! ?c"
  have sh: "rx_shape s" and r: "ring_ok (rx_full s) ?c (rx_hw s)" and ch: "chain_ok (DMARxDscrTab s)" and bo: "bufs_ok (Rx_Buff s)"
    using assms(1) by (simp_all add: rx_inv_def rx_shape_def)
  note cl = ring_ok_lt(1)[OF r]
  have fc: "rx_full s ?c" using pending_empty[OF cl, of "rx_full s"] assms(2) by (auto simp: rx_pending_def)
  have c: "c = ?c" using ring_get(1)[OF r fc] assms(2) by (simp add: rx_pending_def)
  have g: "rx_good s ?c" using assms c by (simp add: rx_inv_def)
  define n where "n = emac_dmarxdesc_frame_length_get ?d"
  have n: "4 \<le> unat n" "unat n \<le> EMAC_MAX_PACKET_LENGTH" "whole_frame ?d" using g by (simp_all add: rx_good_def n_def)
  have n4: "unat (n - 4) = unat n - 4" using n(1) by (simp add: unat_sub word_le_nat_alt)
  have u: "unat (ucast (n - 4) :: u16) = unat n - 4" using n n4 by (simp add: unsigned_ucast_eq take_bit_eq_mod)
  let ?s = "s\<lparr>dma_rx_desc_to_get := Suc ?c mod RING, pbuf_pool := pbuf_pool s - 1, DMARxDscrTab := (DMARxDscrTab s)[?c :=
      ?d\<lparr>dstatus := dstatus ?d OR EMAC_DMADESC_OWN\<rparr>]\<rparr>"
  have run: "low_level_input s = Some (Some (rx_frame s ?c), resume_rx ?s)"
    using fc n u cl assms(1) chain_okD[OF ch] bufs_okD[OF bo] pbuf_one[of "ucast (n - 4)" "pbuf_pool s"]
    by (simp add: low_level_input_def emac_rxpkt_chainmode_def rx_full_def rx_frame_def n_def rx_inv_def)
  have f: "rx_full ?s = (rx_full s)(?c := False)" using cl chain_okD(1)[OF ch] by (auto simp: rx_full_def nth_list_update fun_eq_iff)
  have "rx_shape ?s" using ring_get(2)[OF r fc] ch bo cl chain_okD[OF ch] unfolding rx_shape_def f by simp
  then have sh': "rx_shape (resume_rx ?s)" by (simp add: rx_shape_def rx_full_def[abs_def])
  have "rx_pending ?s = js" using ring_get(1)[OF r fc] assms(2) unfolding rx_pending_def f by simp
  then have pd: "rx_pending (resume_rx ?s) = js" by (simp add: rx_pending_def rx_full_def[abs_def])
  have "distinct (rx_pending s)" by (simp add: rx_pending_def pending_def distinct_ring_order distinct_takeWhile)
  then have "\<forall>j \<in> set js. ?c \<noteq> j" using assms(2) c by auto
  then have "\<forall>j \<in> set js. DMARxDscrTab (resume_rx ?s) ! j = DMARxDscrTab s ! j" by simp
  with run sh' pd c show ?thesis by (intro exI[of _ "resume_rx ?s"]) simp
qed

lemma frames_keep:
  assumes "\<forall>j \<in> set js. DMARxDscrTab s' ! j = DMARxDscrTab s ! j" "Rx_Buff s' = Rx_Buff s"
  shows "map (rx_frame s') js = map (rx_frame s) js" "(\<forall>j \<in> set js. rx_good s' j) \<longleftrightarrow> (\<forall>j \<in> set js. rx_good s j)"
  using assms by (simp_all add: rx_frame_def rx_good_def)

lemma size_get_val:
  assumes "rx_shape s"
  shows "emac_received_packet_size_get s =
    Some (if rx_full s (dma_rx_desc_to_get s) \<and> whole_frame (DMARxDscrTab s ! dma_rx_desc_to_get s)
          then emac_dmarxdesc_frame_length_get (DMARxDscrTab s ! dma_rx_desc_to_get s) else 0)"
proof -
  have "dma_rx_desc_to_get s < length (DMARxDscrTab s)" using assms ring_ok_lt(1) by (auto simp: rx_shape_def chain_ok_def)
  then show ?thesis by (simp add: emac_received_packet_size_get_def rx_full_def)
qed

lemma handle_val:
  assumes "rx_inv s" "rx_frames s = f # fs"
  shows "\<exists>k s'. emac_received_packet_size_get s = Some k \<and> k \<noteq> 0 \<and> lwip_pkt_handle eth_in s = Some s' \<and> rx_shape s' \<and> rx_frames s' = fs \<and>
    to_stack s' = to_stack s @ [f] \<and> pbuf_pool s - 1 \<le> pbuf_pool s' \<and> (\<forall>j \<in> set (rx_pending s'). rx_good s' j)"
proof -
  obtain c js where p: "rx_pending s = c # js" and f: "f = rx_frame s c" "fs = map (rx_frame s) js"
    using assms(2) by (auto simp: rx_frames_def)
  from input_val[OF assms(1) p] obtain s1 where s1: "low_level_input s = Some (Some f, s1)" "rx_shape s1" "rx_pending s1 = js"
    "to_stack s1 = to_stack s" "pbuf_pool s1 = pbuf_pool s - 1"
    "\<forall>j \<in> set js. DMARxDscrTab s1 ! j = DMARxDscrTab s ! j" "Rx_Buff s1 = Rx_Buff s" using f by blast
  have sh: "rx_shape s" using assms(1) by (simp add: rx_inv_def)
  have r: "ring_ok (rx_full s) (dma_rx_desc_to_get s) (rx_hw s)" using sh by (simp add: rx_shape_def)
  have fc: "rx_full s (dma_rx_desc_to_get s)" using pending_empty[OF ring_ok_lt(1)[OF r]] p by (metis list.distinct(1) rx_pending_def)
  then have c: "c = dma_rx_desc_to_get s" using ring_get(1)[OF r] p by (simp add: rx_pending_def)
  have "rx_good s c" using assms(1) p by (simp add: rx_inv_def)
  then have k: "\<exists>k. emac_received_packet_size_get s = Some k \<and> k \<noteq> 0" using size_get_val[OF sh] fc c by (auto simp: rx_good_def)
  define s2 where "s2 = s1\<lparr>to_stack := to_stack s @ [f], pbuf_pool := (if eth_in f = 0 then pbuf_pool s - 1 else pbuf_pool s)\<rparr>"
  have "lwip_pkt_handle eth_in s = Some s2"
    using s1(1,4,5) by (auto simp: lwip_pkt_handle_def ethernetif_input_def s2_def Let_def)
  moreover have "rx_shape s2" "rx_pending s2 = js" using s1(2,3) by (simp_all add: s2_def rx_shape_def rx_pending_def rx_full_def[abs_def])
  moreover have "map (rx_frame s2) js = fs" "\<forall>j \<in> set js. rx_good s2 j"
    using frames_keep[of js s2 s] s1(6,7) f(2) assms(1) p by (simp_all add: s2_def rx_inv_def)
  moreover have "pbuf_pool s - 1 \<le> pbuf_pool s2" "to_stack s2 = to_stack s @ [f]" by (simp_all add: s2_def)
  ultimately show ?thesis using k by (metis rx_frames_def)
qed

lemma rx_get_val:
  assumes "rx_inv s" "rx_frames s = f # fs"
  shows "\<exists>s'. rx_get eth_in s = Some (Some f, s') \<and> rx_inv s' \<and> rx_frames s' = fs"
proof -
  from handle_val[OF assms, of eth_in] obtain k s1 where s1: "emac_received_packet_size_get s = Some k" "k \<noteq> 0"
    "lwip_pkt_handle eth_in s = Some s1" "to_stack s1 = to_stack s @ [f]" "rx_shape s1" "rx_frames s1 = fs" "\<forall>j \<in> set (rx_pending s1). rx_good s1 j"
    by blast
  let ?s = "s1\<lparr>pbuf_pool := pbuf_pool s\<rparr>"
  have "rx_get eth_in s = Some (Some f, ?s)" using s1(1-4) by (simp add: rx_get_def)
  moreover have "rx_inv ?s" "rx_frames ?s = fs" using s1(5-7) assms(1)
    by (simp_all add: rx_inv_def rx_shape_def rx_full_def[abs_def] rx_frames_def rx_pending_def rx_good_def rx_frame_def[abs_def])
  ultimately show ?thesis by blast
qed

lemma rx_idle: "rx_shape s \<Longrightarrow> rx_frames s = [] \<Longrightarrow> \<not> rx_full s (dma_rx_desc_to_get s)"
  using pending_empty[of "dma_rx_desc_to_get s" "rx_full s"] ring_ok_lt(1) by (auto simp: rx_shape_def rx_frames_def rx_pending_def)

lemma rx_get_none:
  assumes "rx_inv s" "rx_frames s = []"
  shows "rx_get eth_in s = Some (None, s)"
proof -
  have sh: "rx_shape s" using assms(1) by (simp add: rx_inv_def)
  show ?thesis using size_get_val[OF sh] rx_idle[OF sh assms(2)] by (simp add: rx_get_def)
qed

lemma rx_loop_none: "rx_shape s \<Longrightarrow> rx_frames s = [] \<Longrightarrow> network_rx_loop (Suc n) eth_in s = Some s"
  by (simp add: size_get_val rx_idle)

text \<open>The check sum the engine writes behind a frame is four bytes long; the interface needs nothing else of it.\<close>

locale eth_fcs =
  fixes fcs :: "buffer \<Rightarrow> buffer"
  assumes length_fcs: "length (fcs f) = 4"

sublocale eth_fcs \<subseteq> rx: bounded_fifo RING eth_frame rx_inv rx_frames "rx_put fcs" "rx_get eth_in" for eth_in
  by unfold_locales (simp_all add: rx_put_val rx_get_val rx_get_none length_fcs)

context eth_fcs
begin

lemma rx_run:
  "rx_inv s \<Longrightarrow> rx_frames s = [] \<Longrightarrow> \<forall>f \<in> set (fifo_puts ops). eth_frame f \<Longrightarrow> fifo_room RING 0 ops \<Longrightarrow>
   \<exists>out s'. rx.run eth_in ops s = Some (out, s') \<and> rx_inv s' \<and> out @ rx_frames s' = fifo_puts ops"
  using rx.run_fifo[of s ops eth_in] by simp

end

interpretation zero_fcs: eth_fcs "\<lambda>_. replicate 4 0"
  by unfold_locales simp

section \<open>The transmission ring\<close>

definition tx_full :: "eth \<Rightarrow> nat \<Rightarrow> bool" where
  "tx_full s j \<longleftrightarrow> own (DMATxDscrTab s ! j)"

definition tx_pending :: "eth \<Rightarrow> nat list" where
  "tx_pending s = pending (tx_full s) (tx_hw s)"

definition tx_len :: "eth \<Rightarrow> nat \<Rightarrow> nat" where
  "tx_len s j = unat (controlsize (DMATxDscrTab s ! j) AND EMAC_DMATXDESC_TBS1)"

definition tx_frames :: "eth \<Rightarrow> buffer list" where
  "tx_frames s = map (\<lambda>j. take (tx_len s j) (Tx_Buff s ! j)) (tx_pending s)"

definition tx_inv :: "eth \<Rightarrow> bool" where
  "tx_inv s \<longleftrightarrow> chain_ok (DMATxDscrTab s) \<and> bufs_ok (Tx_Buff s) \<and> ring_ok (tx_full s) (tx_hw s) (dma_tx_desc_to_set s) \<and>
     (\<forall>j \<in> set (tx_pending s). tx_len s j \<le> EMAC_MAX_PACKET_LENGTH)"

definition tx_frame :: "buffer \<Rightarrow> bool" where
  "tx_frame f \<longleftrightarrow> length f \<le> EMAC_MAX_PACKET_LENGTH"

definition tx_put :: "buffer \<Rightarrow> eth \<Rightarrow> eth option" where
  "tx_put f s = map_option snd (low_level_output [f] s)"

lemma copy_out_val:
  "l + length (concat qs) \<le> length buf \<Longrightarrow>
   copy_out qs l buf = Some (l + length (concat qs), take l buf @ concat qs @ drop (l + length (concat qs)) buf)"
proof (induction qs arbitrary: l buf)
  case (Cons q qs)
  then show ?case by (simp add: memcpy_def ac_simps)
qed simp

lemma tbs1: "l \<le> EMAC_MAX_PACKET_LENGTH \<Longrightarrow> unat ((ucast (of_nat l :: u16) :: u32) AND EMAC_DMATXDESC_TBS1) = l"
proof -
  assume "l \<le> EMAC_MAX_PACKET_LENGTH"
  moreover have "(0x1FFF :: u32) = mask 13" by (simp add: mask_eq_exp_minus_1)
  then have "(w :: u32) AND 0x1FFF = take_bit 13 w" for w by (simp only: take_bit_eq_mask)
  moreover have "unat (ucast (of_nat l :: u16) :: u32) = l" using \<open>l \<le> EMAC_MAX_PACKET_LENGTH\<close>
    by (simp add: unsigned_ucast_eq unat_of_nat take_bit_eq_mod)
  ultimately have "unat ((ucast (of_nat l :: u16) :: u32) AND 0x1FFF) = take_bit 13 l" by (simp only: unsigned_take_bit_eq)
  then show ?thesis using \<open>l \<le> EMAC_MAX_PACKET_LENGTH\<close> by (simp add: take_bit_nat_eq_self)
qed

lemma txpkt_val:
  assumes "c = dma_tx_desc_to_set s" "c < length (DMATxDscrTab s)" "\<not> own (DMATxDscrTab s ! c)"
  shows "\<exists>s' d. emac_txpkt_chainmode n s = Some (True, s') \<and> own d \<and> buf1addr d = buf1addr (DMATxDscrTab s ! c) \<and>
    buf2nextdescaddr d = buf2nextdescaddr (DMATxDscrTab s ! c) \<and> controlsize d = ucast n AND EMAC_DMATXDESC_TBS1 \<and> Tx_Buff s' = Tx_Buff s \<and>
    DMATxDscrTab s' = (DMATxDscrTab s)[c := d] \<and> dma_tx_desc_to_set s' = buf2nextdescaddr d \<and> tx_hw s' = tx_hw s"
proof -
  define d where "d = (DMATxDscrTab s ! c)\<lparr>controlsize := ucast n AND EMAC_DMATXDESC_TBS1,
    dstatus := (dstatus (DMATxDscrTab s ! c) OR (EMAC_DMATXDESC_LS OR EMAC_DMATXDESC_FS)) OR EMAC_DMADESC_OWN\<rparr>"
  define s1 where "s1 = s\<lparr>DMATxDscrTab := (DMATxDscrTab s)[c := d]\<rparr>"
  define s2 where "s2 = (if emac_dma_flag_get EMAC_DMA_TBU_FLAG s1 then emac_log ResumeTx (emac_dma_flag_clear EMAC_DMA_TBU_FLAG s1) else s1)"
  have "own d" unfolding d_def by (rule own_set)
  moreover have "emac_txpkt_chainmode n s = Some (True, s2\<lparr>dma_tx_desc_to_set := buf2nextdescaddr d\<rparr>)"
    using assms by (simp only: emac_txpkt_chainmode_def rd_in wr_in bind.bind_lunit Let_def if_False s2_def s1_def d_def)
  moreover have "Tx_Buff s2 = Tx_Buff s" "DMATxDscrTab s2 = (DMATxDscrTab s)[c := d]" "tx_hw s2 = tx_hw s"
    by (simp_all add: s2_def s1_def emac_log_def emac_dma_flag_clear_def)
  ultimately show ?thesis by (intro exI[of _ "s2\<lparr>dma_tx_desc_to_set := buf2nextdescaddr d\<rparr>"] exI[of _ d]) (simp add: d_def)
qed

text \<open>Copying into the buffer comes first; only then is the descriptor looked at.\<close>

lemma output_val:
  assumes "tx_inv s" "length (concat p) \<le> EMAC_MAX_PACKET_LENGTH" "c = dma_tx_desc_to_set s"
    "b = concat p @ drop (length (concat p)) (Tx_Buff s ! c)"
  shows "tx_full s c \<Longrightarrow> low_level_output p s = Some (ERR_MEM, s\<lparr>Tx_Buff := (Tx_Buff s)[c := b]\<rparr>)"
    "\<not> tx_full s c \<Longrightarrow> \<exists>s' d. low_level_output p s = Some (ERR_OK, s') \<and> own d \<and> buf1addr d = c \<and> buf2nextdescaddr d = Suc c mod RING \<and>
      controlsize d = ucast (of_nat (length (concat p)) :: u16) AND EMAC_DMATXDESC_TBS1 \<and> Tx_Buff s' = (Tx_Buff s)[c := b] \<and>
      DMATxDscrTab s' = (DMATxDscrTab s)[c := d] \<and> dma_tx_desc_to_set s' = Suc c mod RING \<and> tx_hw s' = tx_hw s"
proof -
  have ch: "chain_ok (DMATxDscrTab s)" and bo: "bufs_ok (Tx_Buff s)" and c: "c < RING"
    using assms(1,3) ring_ok_lt(2) by (auto simp: tx_inv_def)
  note bd = chain_okD(1)[OF ch] chain_okD(2,3)[OF ch c] bufs_okD(1)[OF bo] bufs_okD(2)[OF bo c]
  have cp: "copy_out p 0 (Tx_Buff s ! c) = Some (length (concat p), b)"
    using copy_out_val[of 0 p "Tx_Buff s ! c"] assms(2) bd by (simp add: assms(4))
  let ?s = "s\<lparr>Tx_Buff := (Tx_Buff s)[c := b]\<rparr>"
  have s1: "low_level_output p s = do { (ok, s) \<leftarrow> emac_txpkt_chainmode (of_nat (length (concat p))) ?s; Some (if ok then ERR_OK else ERR_MEM, s) }"
    using c bd cp by (simp add: low_level_output_def emac_getcurrenttxbuffer_def assms(3)[symmetric])
  show "low_level_output p s = Some (ERR_MEM, ?s)" if "tx_full s c"
    using that c bd unfolding s1 by (simp add: emac_txpkt_chainmode_def tx_full_def assms(3)[symmetric])
  show "\<exists>s' d. low_level_output p s = Some (ERR_OK, s') \<and> own d \<and> buf1addr d = c \<and> buf2nextdescaddr d = Suc c mod RING \<and>
      controlsize d = ucast (of_nat (length (concat p)) :: u16) AND EMAC_DMATXDESC_TBS1 \<and> Tx_Buff s' = (Tx_Buff s)[c := b] \<and>
      DMATxDscrTab s' = (DMATxDscrTab s)[c := d] \<and> dma_tx_desc_to_set s' = Suc c mod RING \<and> tx_hw s' = tx_hw s" if "\<not> tx_full s c"
    using txpkt_val[of c ?s "of_nat (length (concat p))"] that assms(3) bd c unfolding s1 by (auto simp: tx_full_def)
qed

lemma tx_put_val:
  assumes "tx_inv s" "tx_frame f" "length (tx_frames s) < RING"
  shows "\<exists>s'. tx_put f s = Some s' \<and> tx_inv s' \<and> tx_frames s' = tx_frames s @ [f]"
proof -
  let ?c = "dma_tx_desc_to_set s"
  let ?b = "f @ drop (length f) (Tx_Buff s ! ?c)"
  have ch: "chain_ok (DMATxDscrTab s)" and bo: "bufs_ok (Tx_Buff s)" and r: "ring_ok (tx_full s) (tx_hw s) ?c"
    using assms(1) by (simp_all add: tx_inv_def)
  note c = ring_ok_lt(2)[OF r]
  have nf: "\<not> tx_full s ?c" using ring_full(1)[OF r] assms(3) by (simp add: tx_frames_def tx_pending_def)
  have f: "length (concat [f]) \<le> EMAC_MAX_PACKET_LENGTH" using assms(2) by (simp add: tx_frame_def)
  from output_val(2)[OF assms(1) f refl _ nf, of ?b] obtain s' d where
    s': "low_level_output [f] s = Some (ERR_OK, s')" "own d" "buf1addr d = ?c" "buf2nextdescaddr d = Suc ?c mod RING"
    "controlsize d = ucast (of_nat (length f) :: u16) AND EMAC_DMATXDESC_TBS1" "Tx_Buff s' = (Tx_Buff s)[?c := ?b]"
    "DMATxDscrTab s' = (DMATxDscrTab s)[?c := d]" "dma_tx_desc_to_set s' = Suc ?c mod RING" "tx_hw s' = tx_hw s" by auto
  have fl: "tx_full s' = (tx_full s)(?c := True)" using s'(2,7) c chain_okD(1)[OF ch] by (auto simp: tx_full_def nth_list_update fun_eq_iff)
  have pd: "tx_pending s' = tx_pending s @ [?c]" using ring_put(1)[OF r nf] unfolding tx_pending_def fl s'(9) by simp
  have ne: "?c \<noteq> j" if "j \<in> set (tx_pending s)" for j using that nf by (auto simp: tx_pending_def dest: pending_lt)
  have l: "tx_len s' ?c = length f" using s'(5,7) c chain_okD(1)[OF ch] tbs1[of "length f"] f by (simp add: tx_len_def)
  have same: "tx_len s' j = tx_len s j" "Tx_Buff s' ! j = Tx_Buff s ! j" if "j \<in> set (tx_pending s)" for j
    using ne[OF that] s'(6,7) by (simp_all add: tx_len_def)
  have "tx_inv s'"
    using ring_put(2)[OF r nf] ch bo c s'(3,4,6-9) f assms(1) pd l same bufs_okD(2)[OF bo c] unfolding tx_inv_def fl by auto
  moreover have "tx_frames s' = tx_frames s @ [f]"
    using pd l same s'(6) c bufs_okD(1)[OF bo] by (simp add: tx_frames_def)
  ultimately show ?thesis using s'(1) by (simp add: tx_put_def)
qed

lemma tx_get_val:
  assumes "tx_inv s" "tx_frames s = f # fs"
  shows "\<exists>s'. dma_transmit s = Some (Some f, s') \<and> tx_inv s' \<and> tx_frames s' = fs"
proof -
  let ?c = "tx_hw s"
  let ?d = "(DMATxDscrTab s ! ?c)\<lparr>dstatus := dstatus (DMATxDscrTab s ! ?c) AND NOT EMAC_DMADESC_OWN\<rparr>"
  have ch: "chain_ok (DMATxDscrTab s)" and bo: "bufs_ok (Tx_Buff s)" and r: "ring_ok (tx_full s) ?c (dma_tx_desc_to_set s)"
    using assms(1) by (simp_all add: tx_inv_def)
  note c = ring_ok_lt(1)[OF r]
  have fc: "tx_full s ?c" using pending_empty[OF c, of "tx_full s"] assms(2) by (auto simp: tx_frames_def tx_pending_def)
  let ?s = "s\<lparr>DMATxDscrTab := (DMATxDscrTab s)[?c := ?d], tx_hw := Suc ?c mod RING\<rparr>"
  have fl: "tx_full ?s = (tx_full s)(?c := False)" using c chain_okD(1)[OF ch] by (auto simp: tx_full_def nth_list_update fun_eq_iff)
  have pd: "tx_pending s = ?c # tx_pending ?s" using ring_get(1)[OF r fc] unfolding tx_pending_def fl by simp
  have "distinct (tx_pending s)" by (simp add: tx_pending_def pending_def distinct_ring_order distinct_takeWhile)
  then have "\<forall>j \<in> set (tx_pending ?s). ?c \<noteq> j" using pd by auto
  then have same: "\<forall>j \<in> set (tx_pending ?s). tx_len ?s j = tx_len s j" by (simp add: tx_len_def)
  have "dma_transmit s = Some (Some f, ?s)"
    using fc c chain_okD[OF ch] bufs_okD(1)[OF bo] pd assms(2) by (simp add: dma_transmit_def tx_full_def tx_frames_def tx_len_def)
  moreover have "tx_inv ?s"
    using ring_get(2)[OF r fc] ch bo c chain_okD(2,3)[OF ch c] assms(1) same pd unfolding tx_inv_def fl by simp
  moreover have "tx_frames ?s = map (\<lambda>j. take (tx_len s j) (Tx_Buff s ! j)) (tx_pending ?s)"
    unfolding tx_frames_def by (rule map_cong) (use same in simp_all)
  then have "tx_frames ?s = fs" using assms(2) unfolding tx_frames_def[of s] pd by simp
  ultimately show ?thesis by blast
qed

lemma tx_get_none:
  assumes "tx_inv s" "tx_frames s = []"
  shows "\<exists>s'. dma_transmit s = Some (None, s') \<and> tx_inv s' \<and> tx_frames s' = []"
proof -
  have c: "tx_hw s < RING" "chain_ok (DMATxDscrTab s)" using assms(1) ring_ok_lt(1) by (auto simp: tx_inv_def)
  have "\<not> tx_full s (tx_hw s)" using pending_empty[OF c(1)] assms(2) by (auto simp: tx_frames_def tx_pending_def)
  then have "dma_transmit s = Some (None, s\<lparr>emac_sts := emac_sts s OR EMAC_DMA_TBU_FLAG\<rparr>)"
    using c by (simp add: dma_transmit_def tx_full_def chain_okD)
  then show ?thesis using assms
    by (simp add: tx_inv_def tx_frames_def tx_pending_def tx_full_def[abs_def] tx_len_def)
qed

interpretation eth_tx: bounded_fifo RING tx_frame tx_inv tx_frames tx_put dma_transmit
  by unfold_locales (simp_all add: tx_put_val tx_get_val tx_get_none)

section \<open>Initialisation sets up both rings\<close>

lemma for_range_upd:
  assumes "n \<le> length t"
  shows "\<exists>t'. for_range 0 n (\<lambda>i t. do { d \<leftarrow> rd t i; wr t i (f i d) }) t = Some t' \<and> length t' = length t \<and>
    (\<forall>j < length t. t' ! j = (if j < n then f j (t ! j) else t ! j))"
  by (rule for_range_rule0[where I = "\<lambda>i t'. length t' = length t \<and> (\<forall>j < length t. t' ! j = (if j < i then f j (t ! j) else t ! j))"])
    (use assms in \<open>auto simp: nth_list_update less_Suc_eq\<close>)

definition eth_boot :: "eth \<Rightarrow> bool" where
  "eth_boot s \<longleftrightarrow> length (DMARxDscrTab s) = RING \<and> length (DMATxDscrTab s) = RING \<and> bufs_ok (Rx_Buff s) \<and> bufs_ok (Tx_Buff s) \<and>
     length (MACaddr s) = 6 \<and> 0 < pbuf_pool s"

lemma own_consts: "own (d\<lparr>dstatus := EMAC_DMADESC_OWN\<rparr>)" "\<not> own (d\<lparr>dstatus := EMAC_DMATXDESC_TCH OR (EMAC_DMATXDESC_CIC_TUI_FULL OR EMAC_DMATXDESC_IC)\<rparr>)"
  by (simp_all add: own_def)

lemma ring_ok_none:
  assumes "\<forall>j < RING. \<not> full j"
  shows "ring_ok full 0 0 \<and> pending full 0 = []"
proof -
  have z: "(0 :: nat) < RING" by (simp add: RING_def)
  then obtain ys where ys: "ring_order 0 = 0 # ys" using ring_order_Cons[of 0] by blast
  have "\<not> full 0" using assms z by blast
  moreover have "\<forall>j \<in> set (0 # ys). \<not> full j" using assms set_ring_order(1)[of _ 0] unfolding ys by blast
  ultimately show ?thesis using z ys by (simp add: ring_ok_def pending_def)
qed

lemma next_pos: "i < 10 \<Longrightarrow> (if i < 10 - 1 then i + 1 else 0) = Suc i mod RING"
  by (cases "i = 9") (simp_all add: RING_def)

lemma set_tx_val:
  assumes "length (DMATxDscrTab s) = RING"
  shows "\<exists>t. list_address_set_tx EMAC_TXBUFNB s = Some (s\<lparr>DMATxDscrTab := t, dma_tx_desc_to_set := 0, tx_hw := 0\<rparr>) \<and>
    chain_ok t \<and> (\<forall>j < RING. dstatus (t ! j) = EMAC_DMATXDESC_TCH)"
proof -
  let ?f = "\<lambda>i d. d\<lparr>dstatus := EMAC_DMATXDESC_TCH, buf1addr := i, buf2nextdescaddr := if i < 10 - 1 then i + 1 else 0\<rparr>"
  from for_range_upd[of 10 "DMATxDscrTab s" ?f] assms obtain t where
    t: "for_range 0 10 (\<lambda>i t. do { d \<leftarrow> rd t i; wr t i (?f i d) }) (DMATxDscrTab s) = Some t" "length t = RING"
    "\<forall>j < RING. t ! j = ?f j (DMATxDscrTab s ! j)" by (auto simp: RING_def)
  have "chain_ok t" using t(2,3) next_pos unfolding chain_ok_def by (simp add: RING_def)
  moreover have "\<forall>j < RING. dstatus (t ! j) = EMAC_DMATXDESC_TCH" using t(3) by simp
  ultimately show ?thesis using t(1) unfolding list_address_set_tx_def by (intro exI[of _ t]) (simp only: bind.bind_lunit simp_thms)
qed

lemma set_rx_val:
  assumes "length (DMARxDscrTab s) = RING"
  shows "\<exists>t. list_address_set_rx EMAC_RXBUFNB s = Some (s\<lparr>DMARxDscrTab := t, dma_rx_desc_to_get := 0, rx_hw := 0\<rparr>) \<and>
    chain_ok t \<and> (\<forall>j < RING. own (t ! j))"
proof -
  let ?f = "\<lambda>i d. d\<lparr>dstatus := EMAC_DMADESC_OWN, controlsize := EMAC_DMARXDESC_RCH OR of_nat EMAC_MAX_PACKET_LENGTH, buf1addr := i,
    buf2nextdescaddr := if i < 10 - 1 then i + 1 else 0\<rparr>"
  from for_range_upd[of 10 "DMARxDscrTab s" ?f] assms obtain t where
    t: "for_range 0 10 (\<lambda>i t. do { d \<leftarrow> rd t i; wr t i (?f i d) }) (DMARxDscrTab s) = Some t" "length t = RING"
    "\<forall>j < RING. t ! j = ?f j (DMARxDscrTab s ! j)" by (auto simp: RING_def)
  have "chain_ok t" using t(2,3) next_pos unfolding chain_ok_def by (simp add: RING_def)
  moreover have "\<forall>j < RING. own (t ! j)" using t(3) by (simp add: own_def)
  ultimately show ?thesis using t(1) unfolding list_address_set_rx_def by (intro exI[of _ t]) (simp only: bind.bind_lunit simp_thms)
qed

lemma desc_flags_val:
  assumes "chain_ok t" "\<And>d. buf1addr (f d) = buf1addr d \<and> buf2nextdescaddr (f d) = buf2nextdescaddr d"
  shows "\<exists>t'. for_range 0 10 (\<lambda>i t. do { d \<leftarrow> rd t i; wr t i (f d) }) t = Some t' \<and> chain_ok t' \<and> (\<forall>j < RING. t' ! j = f (t ! j))"
  using for_range_upd[of 10 t "\<lambda>_. f"] assms by (auto simp: chain_ok_def RING_def)

lemma init_val:
  assumes "eth_boot s"
  shows "\<exists>nif' s'. ethernetif_init True nif s = Some (ERR_OK, nif', s') \<and> hwaddr nif' = MACaddr s \<and> mtu nif' = 1500 \<and>
    rx_inv s' \<and> rx_frames s' = [] \<and> tx_inv s' \<and> tx_frames s' = [] \<and> to_stack s' = to_stack s"
proof -
  let ?f = "\<lambda>d. d\<lparr>dstatus := dstatus d OR (EMAC_DMATXDESC_CIC_TUI_FULL OR EMAC_DMATXDESC_IC)\<rparr>"
  have l: "length (DMARxDscrTab s) = RING" "length (DMATxDscrTab s) = RING" "bufs_ok (Rx_Buff s)" "bufs_ok (Tx_Buff s)" "0 < pbuf_pool s"
    using assms by (simp_all add: eth_boot_def)
  from set_tx_val[OF l(2)] obtain t where
    t: "list_address_set_tx 10 s = Some (s\<lparr>DMATxDscrTab := t, dma_tx_desc_to_set := 0, tx_hw := 0\<rparr>)" "chain_ok t"
    "\<forall>j < RING. dstatus (t ! j) = EMAC_DMATXDESC_TCH" by blast
  define s1 where "s1 = s\<lparr>DMATxDscrTab := t, dma_tx_desc_to_set := 0, tx_hw := 0\<rparr>"
  have "length (DMARxDscrTab s1) = RING" using l(1) by (simp add: s1_def)
  from set_rx_val[OF this] obtain r where
    r: "list_address_set_rx 10 s1 = Some (s1\<lparr>DMARxDscrTab := r, dma_rx_desc_to_get := 0, rx_hw := 0\<rparr>)" "chain_ok r" "\<forall>j < RING. own (r ! j)" by blast
  from desc_flags_val[OF r(2), of "emac_dma_rx_desc_interrupt_config True"] obtain r' where
    r': "for_range 0 10 (\<lambda>i t. do { d \<leftarrow> rd t i; wr t i (emac_dma_rx_desc_interrupt_config True d) }) r = Some r'" "chain_ok r'"
    "\<forall>j < RING. r' ! j = emac_dma_rx_desc_interrupt_config True (r ! j)" by (auto simp: emac_dma_rx_desc_interrupt_config_def)
  from desc_flags_val[OF t(2), of ?f] obtain t' where
    t': "for_range 0 10 (\<lambda>i t. do { d \<leftarrow> rd t i; wr t i (?f d) }) t = Some t'" "chain_ok t'" "\<forall>j < RING. t' ! j = ?f (t ! j)" by auto
  let ?s = "emac_log EmacStart (s1\<lparr>dma_rx_desc_to_get := 0, rx_hw := 0, DMARxDscrTab := r', DMATxDscrTab := t'\<rparr>)"
  let ?n = "nif\<lparr>if_name := ''at'', hwaddr_len := 6, hwaddr := MACaddr s, mtu := 1500, nflags := 0x32\<rparr>"
  have "low_level_init (nif\<lparr>if_name := ''at''\<rparr>) s = Some (?n, ?s)"
    using t(1) r(1) r'(1) t'(1) unfolding low_level_init_def s1_def by simp
  then have run: "ethernetif_init True nif s = Some (ERR_OK, ?n, ?s)" by (simp add: ethernetif_init_def)
  have "\<forall>j < RING. own (r' ! j)" using r(3) r'(3) by (simp add: emac_dma_rx_desc_interrupt_config_def own_def)
  then have rx: "rx_inv ?s \<and> rx_frames ?s = []"
    using ring_ok_none[of "rx_full ?s"] l r'(2) by (simp add: rx_inv_def rx_shape_def rx_frames_def rx_pending_def rx_full_def emac_log_def s1_def)
  have "\<forall>j < RING. \<not> own (t' ! j)" using t(3) t'(3) by (simp add: own_def)
  then have tx: "tx_inv ?s \<and> tx_frames ?s = []"
    using ring_ok_none[of "tx_full ?s"] l t'(2) by (simp add: tx_inv_def tx_frames_def tx_pending_def tx_full_def emac_log_def s1_def)
  show ?thesis using run rx tx by (intro exI[of _ ?n] exI[of _ ?s]) (simp add: emac_log_def s1_def)
qed

section \<open>The network task\<close>

text \<open>The system takes one of these steps: the two of the engine, the receive loop, sending, and the stack returning packet buffers.\<close>

inductive net_step :: "(buffer \<Rightarrow> int) \<Rightarrow> eth \<Rightarrow> eth \<Rightarrow> bool" for eth_in where
  deliver: "dma_deliver w bytes s = Some s' \<Longrightarrow> length bytes \<le> EMAC_MAX_PACKET_LENGTH \<Longrightarrow> net_step eth_in s s'"
| receive: "network_rx_loop n eth_in s = Some s' \<Longrightarrow> net_step eth_in s s'"
| send: "low_level_output p s = Some (e, s') \<Longrightarrow> net_step eth_in s s'"
| transmit: "dma_transmit s = Some (f, s') \<Longrightarrow> net_step eth_in s s'"
| pool: "net_step eth_in s (s\<lparr>pbuf_pool := n\<rparr>)"

text \<open>The part of the state reception looks at.\<close>

definition rx_part :: "eth \<Rightarrow> emac_dma_desc_type list \<times> buffer list \<times> nat \<times> nat \<times> buffer list" where
  "rx_part s = (DMARxDscrTab s, Rx_Buff s, dma_rx_desc_to_get s, rx_hw s, to_stack s)"

lemma rx_part_shape: "rx_part s' = rx_part s \<Longrightarrow> rx_shape s' = rx_shape s \<and> rx_full s' = rx_full s \<and> rx_pending s' = rx_pending s"
  by (simp add: rx_part_def rx_shape_def rx_full_def[abs_def] rx_pending_def)

lemma tx_keeps_rx:
  "emac_txpkt_chainmode n s = Some (ok, s') \<Longrightarrow> rx_part s' = rx_part s"
  "low_level_output p s = Some (e, s') \<Longrightarrow> rx_part s' = rx_part s"
  "dma_transmit s = Some (f, s') \<Longrightarrow> rx_part s' = rx_part s"
proof -
  show 1: "emac_txpkt_chainmode n s = Some (ok, s') \<Longrightarrow> rx_part s' = rx_part s" for n s ok s'
    by (auto simp: emac_txpkt_chainmode_def rx_part_def emac_log_def emac_dma_flag_clear_def Let_def bind_eq_Some_conv split: if_splits)
  show "low_level_output p s = Some (e, s') \<Longrightarrow> rx_part s' = rx_part s"
    by (auto simp: low_level_output_def bind_eq_Some_conv rx_part_def dest!: 1)
  show "dma_transmit s = Some (f, s') \<Longrightarrow> rx_part s' = rx_part s"
    by (auto simp: dma_transmit_def rx_part_def bind_eq_Some_conv split: if_splits)
qed

text \<open>The next descriptor to read holds something that is not a whole error-free frame.\<close>

definition rx_blocked :: "eth \<Rightarrow> bool" where
  "rx_blocked s \<longleftrightarrow> rx_shape s \<and> rx_full s (dma_rx_desc_to_get s) \<and> \<not> whole_frame (DMARxDscrTab s ! dma_rx_desc_to_get s)"

lemma blocked_loop: "rx_blocked s \<Longrightarrow> network_rx_loop (Suc n) eth_in s = Some s"
  by (simp add: rx_blocked_def size_get_val)

lemma blocked_deliver:
  assumes "rx_blocked s" "dma_deliver w bytes s = Some s'" "length bytes \<le> EMAC_MAX_PACKET_LENGTH"
  shows "rx_blocked s' \<and> to_stack s' = to_stack s"
proof -
  have sh: "rx_shape s" and fc: "rx_full s (dma_rx_desc_to_get s)" using assms(1) by (simp_all add: rx_blocked_def)
  show ?thesis
  proof (cases "rx_full s (rx_hw s)")
    case True
    then have "s' = s\<lparr>emac_sts := emac_sts s OR EMAC_DMA_RBU_FLAG\<rparr>" using deliver_full[OF sh True] assms(2) by simp
    then show ?thesis using assms(1) by (simp add: rx_blocked_def rx_shape_def rx_full_def[abs_def])
  next
    case False
    then have "rx_hw s \<noteq> dma_rx_desc_to_get s" using fc by auto
    then show ?thesis using deliver_val[OF sh False assms(3), of w] assms(1,2) by (auto simp: rx_blocked_def rx_full_def)
  qed
qed

lemma blocked_part: "rx_part s' = rx_part s \<Longrightarrow> rx_blocked s \<Longrightarrow> rx_blocked s' \<and> to_stack s' = to_stack s"
  using rx_part_shape[of s' s] by (simp add: rx_blocked_def) (simp add: rx_part_def)

lemma blocked_step: "net_step eth_in s s' \<Longrightarrow> rx_blocked s \<Longrightarrow> rx_blocked s' \<and> to_stack s' = to_stack s"
proof (induction rule: net_step.induct)
  case (deliver w bytes s s')
  then show ?case by (blast dest: blocked_deliver)
next
  case (receive n s s')
  then show ?case by (cases n) (simp_all add: blocked_loop del: network_rx_loop.simps(2))
next
  case (send p s e s')
  then show ?case using blocked_part[OF tx_keeps_rx(2)] by blast
next
  case (transmit s f s')
  then show ?case using blocked_part[OF tx_keeps_rx(3)] by blast
next
  case (pool s n)
  then show ?case by (simp add: rx_blocked_def rx_shape_def rx_full_def[abs_def])
qed

lemma blocked_steps: "(net_step eth_in)\<^sup>*\<^sup>* s s' \<Longrightarrow> rx_blocked s \<Longrightarrow> rx_blocked s' \<and> to_stack s' = to_stack s"
  by (induction rule: rtranclp_induct) (auto dest: blocked_step)

lemma deliver_error_blocks:
  assumes "rx_shape s" "rx_pending s = []" "w AND EMAC_DMADESC_ES \<noteq> 0 \<or> w AND EMAC_DMARXDESC_LS = 0 \<or> w AND EMAC_DMARXDESC_FS = 0"
    "length bytes \<le> EMAC_MAX_PACKET_LENGTH"
  shows "\<exists>s'. dma_deliver w bytes s = Some s' \<and> rx_blocked s' \<and> to_stack s' = to_stack s"
proof -
  let ?c = "dma_rx_desc_to_get s"
  have r: "ring_ok (rx_full s) ?c (rx_hw s)" and ch: "chain_ok (DMARxDscrTab s)" using assms(1) by (simp_all add: rx_shape_def)
  note c = ring_ok_lt[OF r]
  have nc: "\<not> rx_full s ?c" using pending_empty[OF c(1)] assms(2) by (simp add: rx_pending_def)
  then have nf: "\<not> rx_full s (rx_hw s)" using ring_full(2)[OF r] by auto
  from deliver_val[OF assms(1) nf assms(4), of w] obtain s' where
    s': "dma_deliver w bytes s = Some s'" "rx_shape s'" "rx_pending s' = [rx_hw s]" "dma_rx_desc_to_get s' = ?c" "to_stack s' = to_stack s"
    "DMARxDscrTab s' = (DMARxDscrTab s)[rx_hw s := (DMARxDscrTab s ! rx_hw s)\<lparr>dstatus := w AND NOT EMAC_DMADESC_OWN\<rparr>]"
    using assms(2) by auto
  have r': "ring_ok (rx_full s') ?c (rx_hw s')" using s'(2,4) by (simp add: rx_shape_def)
  have fc: "rx_full s' ?c" using pending_empty[OF c(1), of "rx_full s'"] s'(3,4) by (simp add: rx_pending_def)
  then have hw: "rx_hw s = ?c" using ring_get(1)[OF r'] s'(3,4) by (simp add: rx_pending_def)
  have w: "bit w 15 \<or> \<not> bit w 8 \<or> \<not> bit w 9" using assms(3) and_exp[of w 15] and_exp[of w 8] and_exp[of w 9] by auto
  have "(0x80000000 :: u32) = 2 ^ 31" by simp
  then have "bit (w AND NOT 0x80000000) n \<longleftrightarrow> bit w n" if "n < 31" for n
    using that by (simp only: bit_and_iff bit_not_iff bit_exp_iff) auto
  then have "\<not> whole_frame (DMARxDscrTab s' ! ?c)" using s'(6) hw c chain_okD(1)[OF ch] w by (simp add: whole_frame_bits)
  then show ?thesis using s' fc by (simp add: rx_blocked_def)
qed

text \<open>The loop empties the ring when there are packet buffers enough.\<close>

lemma rx_loop_val:
  "rx_inv s \<Longrightarrow> length (rx_frames s) \<le> pbuf_pool s \<Longrightarrow> length (rx_frames s) \<le> n \<Longrightarrow>
   \<exists>s'. network_rx_loop (Suc n) eth_in s = Some s' \<and> rx_shape s' \<and> rx_frames s' = [] \<and> to_stack s' = to_stack s @ rx_frames s"
proof (induction "rx_frames s" arbitrary: s n)
  case Nil
  then show ?case using rx_loop_none[of s n eth_in] by (simp add: rx_inv_def del: network_rx_loop.simps(2))
next
  case (Cons f fs)
  from handle_val[OF Cons.prems(1) Cons.hyps(2)[symmetric], of eth_in] obtain k s1 where
    s1: "emac_received_packet_size_get s = Some k" "k \<noteq> 0" "lwip_pkt_handle eth_in s = Some s1" "rx_shape s1" "rx_frames s1 = fs"
    "to_stack s1 = to_stack s @ [f]" "pbuf_pool s - 1 \<le> pbuf_pool s1" "\<forall>j \<in> set (rx_pending s1). rx_good s1 j" by blast
  obtain m where m: "n = Suc m" using Cons.prems(3) Cons.hyps(2) by (cases n) auto
  have step: "network_rx_loop (Suc n) eth_in s = network_rx_loop n eth_in s1" using s1(1-3) by simp
  show ?case
  proof (cases "rx_inv s1")
    case True
    have "length (rx_frames s1) \<le> pbuf_pool s1" "length (rx_frames s1) \<le> m" using s1(5,7) Cons.prems(2,3) m unfolding Cons.hyps(2)[symmetric] by simp_all
    from Cons.hyps(1)[OF s1(5)[symmetric] True this] show ?thesis unfolding step unfolding m using s1(5,6) Cons.hyps(2)[symmetric]
      by (simp del: network_rx_loop.simps(2))
  next
    case False
    then have "pbuf_pool s1 = 0" using s1(4,8) by (simp add: rx_inv_def)
    then have "length (f # fs) \<le> Suc 0" using s1(7) Cons.prems(2) unfolding Cons.hyps(2)[symmetric] by linarith
    then have fs: "fs = []" by simp
    have "network_rx_loop (Suc m) eth_in s1 = Some s1" using rx_loop_none[OF s1(4)] s1(5) fs by blast
    then show ?thesis unfolding step unfolding m using s1(4-6) Cons.hyps(2)[symmetric] fs by simp
  qed
qed

section \<open>Properties\<close>

text \<open>A start state: the tables and buffers of the source, all zero, and the pool of \<^verbatim>\<open>lwipopts.h\<close>.\<close>

definition eth_zero :: eth where
  "eth_zero = \<lparr>DMARxDscrTab = replicate 10 \<lparr>dstatus = 0, controlsize = 0, buf1addr = 0, buf2nextdescaddr = 0\<rparr>,
     DMATxDscrTab = replicate 10 \<lparr>dstatus = 0, controlsize = 0, buf1addr = 0, buf2nextdescaddr = 0\<rparr>,
     Rx_Buff = replicate 10 (replicate 1520 0), Tx_Buff = replicate 10 (replicate 1520 0), dma_rx_desc_to_get = 0, dma_tx_desc_to_set = 0,
     MACaddr = [0, 0, 0x44, 0x45, 0x56, 1], emac_sts = 0, emac_acts = [], pbuf_pool = 10, to_stack = [], rx_hw = 0, tx_hw = 0\<rparr>"

lemma eth_boot_zero: "eth_boot eth_zero"
  by (simp add: eth_boot_def eth_zero_def bufs_ok_def RING_def)

definition netif_zero :: netif where
  "netif_zero = \<lparr>hwaddr_len = 0, hwaddr = replicate 6 0, mtu = 0, nflags = 0, if_name = ''''\<rparr>"

lemma init_zero:
  "\<exists>n s. ethernetif_init True netif_zero eth_zero = Some (ERR_OK, n, s) \<and> rx_inv s \<and> rx_frames s = [] \<and> tx_inv s \<and> tx_frames s = [] \<and> to_stack s = []"
  using init_val[OF eth_boot_zero, of netif_zero] by (auto simp: eth_zero_def)



text \<open>
  C32. The receive loop of the network task ends: with as many packet buffers as waiting frames, one
  round more than there are frames suffices, all of them have then been given to lwIP in their order, and none is left.
\<close>

theorem network_rx_drains:
  assumes "rx_inv s" "length (rx_frames s) \<le> pbuf_pool s"
  shows "\<exists>s'. network_rx_loop (Suc (length (rx_frames s))) eth_in s = Some s' \<and> rx_frames s' = [] \<and> to_stack s' = to_stack s @ rx_frames s"
  using rx_loop_val[OF assms order.refl] by blast

theorem network_rx_drains_witness:
  "\<exists>s s'. rx_frames s = [[1, 2, 3]] \<and> network_rx_loop (Suc (length (rx_frames s))) (\<lambda>_. 0) s = Some s' \<and> rx_frames s' = [] \<and>
     to_stack s' = to_stack s @ [[1, 2, 3]]"
proof -
  obtain s0 where s0: "rx_inv s0" "rx_frames s0 = []" using init_zero by blast
  obtain s where s: "rx_inv s" "rx_frames s = [[1, 2, 3]]"
    using zero_fcs.rx.put_room[OF s0(1), of "[1, 2, 3]"] s0(2) by (auto simp: eth_frame_def RING_def)
  moreover have "length (rx_frames s) \<le> pbuf_pool s" using s by (simp add: rx_inv_def)
  ultimately show ?thesis using network_rx_drains[of s "\<lambda>_. 0"] by metis
qed

text \<open>
  One descriptor that does not hold a whole error-free frame stops reception for good: an error frame, or the first part of a frame
  longer than the buffer, such as a tagged frame of 1522 bytes. \<^verbatim>\<open>emac_received_packet_size_get\<close> reports length 0 for it, so the loop of
  the network task never calls the routine that would give the descriptor back: after it, whatever the engine
  delivers and the system does, no frame reaches lwIP any more and the loop returns at once.
\<close>

theorem rx_error_blocks:
  assumes "rx_inv s" "rx_frames s = []" "w AND 0x8000 \<noteq> 0 \<or> w AND 0x100 = 0 \<or> w AND 0x200 = 0" "length bytes \<le> 1520"
  shows "\<exists>s1. dma_deliver w bytes s = Some s1 \<and>
    (\<forall>s2. (net_step eth_in)\<^sup>*\<^sup>* s1 s2 \<longrightarrow> to_stack s2 = to_stack s \<and> (\<forall>n. network_rx_loop (Suc n) eth_in s2 = Some s2))"
proof -
  obtain s1 where s1: "dma_deliver w bytes s = Some s1" "rx_blocked s1" "to_stack s1 = to_stack s"
    using deliver_error_blocks[of s w bytes] assms by (auto simp: rx_inv_def rx_frames_def)
  have "to_stack s2 = to_stack s \<and> (\<forall>n. network_rx_loop (Suc n) eth_in s2 = Some s2)" if "(net_step eth_in)\<^sup>*\<^sup>* s1 s2" for s2
    using blocked_steps[OF that s1(2)] s1(3) blocked_loop[of s2] by metis
  with s1(1) show ?thesis by blast
qed

theorem rx_error_blocks_witness:
  "\<exists>n s s1 s2. ethernetif_init True netif_zero eth_zero = Some (ERR_OK, n, s) \<and> dma_deliver 0x200 (replicate 1520 1) s = Some s1 \<and>
     rx_put (\<lambda>_. [0, 0, 0, 0]) [7, 8, 9] s1 = Some s2 \<and> network_rx_loop 20 (\<lambda>_. 0) s2 = Some s2 \<and> to_stack s2 = []"
proof -
  obtain n s where s: "ethernetif_init True netif_zero eth_zero = Some (ERR_OK, n, s)" "rx_inv s" "rx_frames s = []" "to_stack s = []"
    using init_zero by blast
  obtain s1 where s1: "dma_deliver 0x200 (replicate 1520 1) s = Some s1"
    "\<forall>s2. (net_step (\<lambda>_. 0))\<^sup>*\<^sup>* s1 s2 \<longrightarrow> to_stack s2 = to_stack s \<and> (\<forall>n. network_rx_loop (Suc n) (\<lambda>_. 0) s2 = Some s2)"
    using rx_error_blocks[OF s(2,3), of "0x200" "replicate 1520 1" "\<lambda>_. 0"] by auto
  have "rx_blocked s1" using deliver_error_blocks[of s "0x200" "replicate 1520 1"] s s1(1) by (auto simp: rx_inv_def rx_frames_def)
  then have sh: "rx_shape s1" by (simp add: rx_blocked_def)
  obtain s2 where s2: "rx_put (\<lambda>_. [0, 0, 0, 0]) [7, 8, 9] s1 = Some s2"
    using deliver_val[OF sh, of "[7, 8, 9, 0, 0, 0, 0]" "rx_status 7"] deliver_full[OF sh] by (cases "rx_full s1 (rx_hw s1)") (auto simp: rx_put_def)
  then have "net_step (\<lambda>_. 0) s1 s2" by (intro net_step.deliver[of "rx_status 7" "[7, 8, 9, 0, 0, 0, 0]"]) (simp_all add: rx_put_def)
  then have "to_stack s2 = to_stack s \<and> (\<forall>n. network_rx_loop (Suc n) (\<lambda>_. 0) s2 = Some s2)" using s1(2) by blast
  moreover have "(20 :: nat) = Suc 19" by simp
  ultimately show ?thesis using s s1(1) s2 by metis
qed



text \<open>
  Sending while all ten descriptors wait for the engine fails with \<^verbatim>\<open>ERR_MEM\<close>, but the bytes have already been copied: the
  oldest waiting frame, the one the engine sends next, starts with the bytes of the frame that was refused.
\<close>

theorem tx_full_overwrites:
  assumes "tx_inv s" "length (tx_frames s) = RING" "tx_frames s = f # fs" "length (concat p) \<le> length f"
  shows "\<exists>s'. low_level_output p s = Some (ERR_MEM, s') \<and>
    map_option fst (dma_transmit s') = Some (Some (concat p @ drop (length (concat p)) f))"
proof -
  let ?c = "dma_tx_desc_to_set s" and ?n = "length (concat p)"
  have ch: "chain_ok (DMATxDscrTab s)" and bo: "bufs_ok (Tx_Buff s)" and r: "ring_ok (tx_full s) (tx_hw s) ?c"
    using assms(1) by (simp_all add: tx_inv_def)
  have fc: "tx_full s ?c" and e: "tx_hw s = ?c"
    using ring_full(1,2)[OF r] assms(2) by (simp_all add: tx_frames_def tx_pending_def)
  note c = ring_ok_lt(2)[OF r]
  have "tx_pending s = ?c # pending ((tx_full s)(?c := False)) (Suc ?c mod RING)" using ring_get(1)[OF r] fc e by (simp add: tx_pending_def)
  then have f: "f = take (tx_len s ?c) (Tx_Buff s ! ?c)" "?c \<in> set (tx_pending s)" using assms(3) by (auto simp: tx_frames_def)
  have ln: "tx_len s ?c \<le> EMAC_MAX_PACKET_LENGTH" using f(2) assms(1) by (simp add: tx_inv_def)
  have lf: "length f = tx_len s ?c" using f(1) ln bufs_okD(2)[OF bo c] by simp
  let ?s = "s\<lparr>Tx_Buff := (Tx_Buff s)[?c := concat p @ drop ?n (Tx_Buff s ! ?c)]\<rparr>"
  have n: "?n \<le> EMAC_MAX_PACKET_LENGTH" using assms(4) lf ln by simp
  have "low_level_output p s = Some (ERR_MEM, ?s)" using output_val(1)[OF assms(1) n refl refl fc] .
  moreover have "map_option fst (dma_transmit ?s) = Some (Some (take (tx_len s ?c) (concat p @ drop ?n (Tx_Buff s ! ?c))))"
    using fc e c chain_okD[OF ch] bufs_okD(1)[OF bo] by (simp add: dma_transmit_def tx_full_def tx_len_def)
  moreover have "take (tx_len s ?c) (concat p @ drop ?n (Tx_Buff s ! ?c)) = concat p @ drop ?n f"
    using assms(4) lf f(1) by (simp add: drop_take)
  ultimately show ?thesis by (metis)
qed

theorem tx_full_overwrites_witness:
  "\<exists>s s'. length (tx_frames s) = RING \<and> hd (tx_frames s) = [1, 1, 1] \<and> low_level_output [[9], [8]] s = Some (ERR_MEM, s') \<and>
     map_option fst (dma_transmit s') = Some (Some [9, 8, 1])"
proof -
  obtain s0 where s0: "tx_inv s0" "tx_frames s0 = []" using init_zero by blast
  have "\<exists>out s. eth_tx.run (replicate 10 (FPut [1, 1, 1])) s0 = Some (out, s) \<and> tx_inv s \<and> out @ tx_frames s = replicate 10 [1, 1, 1] \<and> out = []"
    using eth_tx.run_fifo[OF s0(1), of "replicate 10 (FPut [1, 1, 1])"] s0(2)
    by (simp add: numeral_eq_Suc RING_def tx_frame_def) (auto simp: bind_eq_Some_conv)
  then obtain s where s: "tx_inv s" "tx_frames s = replicate 10 [1, 1, 1]" by auto
  have "tx_frames s = [1, 1, 1] # replicate 9 [1, 1, 1]" using s(2) by (simp add: numeral_eq_Suc)
  from tx_full_overwrites[OF s(1) _ this, of "[[9], [8]]"] s(2) show ?thesis by - (rule exI[of _ s], auto simp: RING_def)
qed

end
