(* ===== verification/Eth_Link.thy ===== *)
theory Eth_Link
  imports Eth_If
begin

text \<open>
  The link of the Ethernet interface: \<^verbatim>\<open>AT_ETH/at32_emac_phy.c\<close> with the register routines it calls in \<^verbatim>\<open>at32f435_437_emac.c\<close>, the link part
  of \<^verbatim>\<open>LWIP/src/core/netif.c\<close>, \<^verbatim>\<open>dhcp_start\<close> of \<^verbatim>\<open>LWIP/src/core/dhcp.c\<close> and the order in which \<^verbatim>\<open>network_task_function\<close> and \<^verbatim>\<open>tcpip_stack_init\<close> call them,
  in the build of \<^verbatim>\<open>at32_emac_phy.h\<close> (LAN8720, RMII).

  The transceiver chip is an argument: what a management transaction returns, and for how many polls its busy bit stays set. Clock
  and pin registers are left out; delays take no part in the model.
\<close>

section \<open>Data\<close>

datatype emac_speed_type = EMAC_SPEED_10MBPS | EMAC_SPEED_100MBPS

datatype emac_duplex_type = EMAC_HALF_DUPLEX | EMAC_FULL_DUPLEX

datatype emac_auto_negotiation_type = EMAC_AUTO_NEGOTIATION_OFF | EMAC_AUTO_NEGOTIATION_ON

record emac_control_config_type =
  auto_nego :: emac_auto_negotiation_type
  deferral_check :: bool
  back_off_limit :: u8
  auto_pad_crc_strip :: bool
  retry_disable :: bool
  ipv4_checksum_offload :: bool
  duplex_mode :: emac_duplex_type
  loopback_mode :: bool
  receive_own_disable :: bool
  fast_ethernet_speed :: emac_speed_type
  carrier_sense_disable :: bool
  interframe_gap :: u8
  jabber_disable :: bool
  watchdog_disable :: bool

text \<open>The MAC control register.\<close>

record emac_ctrl =
  dc :: bool
  bl :: u8
  acs :: bool
  dr :: bool
  ipc :: bool
  lm :: bool
  dro :: bool
  dcs :: bool
  ifg :: u8
  jd :: bool
  wd :: bool
  fes :: emac_speed_type
  dm :: emac_duplex_type
  te :: bool
  re :: bool

record emac_dma_config_type =
  aab_enable :: bool
  usp_enable :: bool
  rx_dma_pal :: u8
  fb_enable :: bool
  tx_dma_pal :: u8
  desc_skip_length :: u8
  da_enable :: bool
  priority_ratio :: u8
  dt_disable :: bool
  rsf_enable :: bool
  flush_rx_disable :: bool
  tsf_enable :: bool
  tx_threshold :: u8
  fef_enable :: bool
  fugf_enable :: bool
  rx_threshold :: u8
  osf_enable :: bool

text \<open>The DMA registers: bus mode and operation mode as configured, the two run bits and the two interrupt enables that are used.\<close>

record emac_dma_regs =
  dma_conf :: emac_dma_config_type
  ssr :: bool
  sstc :: bool
  nie :: bool
  rie :: bool

text \<open>How far \<^verbatim>\<open>dhcp_start\<close> gets: no memory for the client, no UDP control block, no message sent, or started.\<close>

datatype dhcp_outcome = DhcpNoMem | DhcpNoPcb | DhcpNoDiscover | DhcpStarted

datatype stack_call = DhcpDiscover | DhcpNetworkChanged | EtharpGratuitous | IgmpReportGroups | EtharpCleanup

record 'p emac_hw =
  phy_wr :: "u8 \<Rightarrow> u8 \<Rightarrow> u16 \<Rightarrow> 'p \<Rightarrow> nat \<times> 'p"
  phy_rd :: "u8 \<Rightarrow> u8 \<Rightarrow> 'p \<Rightarrow> nat \<times> u16 \<times> 'p"
  ahb_freq :: nat
  dma_reset_polls :: "nat option"
  ctrl_reset :: emac_ctrl
  dma_regs_reset :: emac_dma_regs
  dhcp_env :: dhcp_outcome

record 'p mac =
  phy :: 'p
  mii_cr :: u8
  ctrl :: emac_ctrl
  dma_regs :: emac_dma_regs
  mac_control_para :: emac_control_config_type
  mac_netif :: netif
  dhcp_client :: bool
  stack_calls :: "stack_call list"

abbreviation (input) PHY_TIMEOUT :: nat where "PHY_TIMEOUT \<equiv> 0xFFFFF"
abbreviation (input) PHY_ADDRESS :: u8 where "PHY_ADDRESS \<equiv> 0"
abbreviation (input) PHY_CONTROL_REG :: u8 where "PHY_CONTROL_REG \<equiv> 0"
abbreviation (input) PHY_STATUS_REG :: u8 where "PHY_STATUS_REG \<equiv> 1"
abbreviation (input) PHY_SPECIFIED_CS_REG :: u8 where "PHY_SPECIFIED_CS_REG \<equiv> 0x1F"
abbreviation (input) PHY_AUTO_NEGOTIATION_BIT :: u16 where "PHY_AUTO_NEGOTIATION_BIT \<equiv> 0x1000"
abbreviation (input) PHY_RESET_BIT :: u16 where "PHY_RESET_BIT \<equiv> 0x8000"
abbreviation (input) PHY_LINKED_STATUS_BIT :: u16 where "PHY_LINKED_STATUS_BIT \<equiv> 4"
abbreviation (input) PHY_NEGO_COMPLETE_BIT :: u16 where "PHY_NEGO_COMPLETE_BIT \<equiv> 0x20"
abbreviation (input) PHY_DUPLEX_MBPS_MSK :: u16 where "PHY_DUPLEX_MBPS_MSK \<equiv> 0x1C"
abbreviation (input) PHY_FULL_DUPLEX_100MBPS_BIT :: u16 where "PHY_FULL_DUPLEX_100MBPS_BIT \<equiv> 0x18"
abbreviation (input) PHY_HALF_DUPLEX_100MBPS_BIT :: u16 where "PHY_HALF_DUPLEX_100MBPS_BIT \<equiv> 8"
abbreviation (input) PHY_FULL_DUPLEX_10MBPS_BIT :: u16 where "PHY_FULL_DUPLEX_10MBPS_BIT \<equiv> 0x14"
abbreviation (input) NETIF_FLAG_UP :: u8 where "NETIF_FLAG_UP \<equiv> 1"
abbreviation (input) NETIF_FLAG_DHCP :: u8 where "NETIF_FLAG_DHCP \<equiv> 8"
abbreviation (input) NETIF_FLAG_LINK_UP :: u8 where "NETIF_FLAG_LINK_UP \<equiv> 0x10"
abbreviation (input) NETIF_FLAG_ETHARP :: u8 where "NETIF_FLAG_ETHARP \<equiv> 0x20"
abbreviation (input) NETIF_FLAG_IGMP :: u8 where "NETIF_FLAG_IGMP \<equiv> 0x80"

section \<open>Registers of the MAC and of the transceiver\<close>

text \<open>The wait for the busy bit, which is seen set in the first \<open>busy\<close> polls: the value of \<^verbatim>\<open>timeout\<close> behind the loop.\<close>

function mii_wait :: "nat \<Rightarrow> nat \<Rightarrow> nat" where
  "mii_wait busy timeout =
     (if timeout + 1 \<le> busy \<and> timeout + 1 < PHY_TIMEOUT then mii_wait busy (timeout + 1) else timeout + 1)"
  by pat_completeness auto
termination by (relation "measure (\<lambda>(busy, timeout). PHY_TIMEOUT - timeout)") auto

declare mii_wait.simps [simp del]

definition emac_phy_register_write :: "'p emac_hw \<Rightarrow> u8 \<Rightarrow> u8 \<Rightarrow> u16 \<Rightarrow> 'p mac \<Rightarrow> bool \<times> 'p mac" where
  "emac_phy_register_write hw address reg data s =
     (let (busy, p) = phy_wr hw address reg data (phy s); s = s\<lparr>phy := p\<rparr>
      in (mii_wait busy 0 \<noteq> PHY_TIMEOUT, s))"

definition emac_phy_register_read :: "'p emac_hw \<Rightarrow> u8 \<Rightarrow> u8 \<Rightarrow> 'p mac \<Rightarrow> u16 option \<times> 'p mac" where
  "emac_phy_register_read hw address reg s =
     (let (busy, data, p) = phy_rd hw address reg (phy s); s = s\<lparr>phy := p\<rparr>
      in (if mii_wait busy 0 = PHY_TIMEOUT then None else Some data, s))"

definition emac_trasmitter_enable :: "bool \<Rightarrow> 'p mac \<Rightarrow> 'p mac" where
  "emac_trasmitter_enable b s = s\<lparr>ctrl := (ctrl s)\<lparr>te := b\<rparr>\<rparr>"

definition emac_receiver_enable :: "bool \<Rightarrow> 'p mac \<Rightarrow> 'p mac" where
  "emac_receiver_enable b s = s\<lparr>ctrl := (ctrl s)\<lparr>re := b\<rparr>\<rparr>"

definition emac_fast_speed_set :: "emac_speed_type \<Rightarrow> 'p mac \<Rightarrow> 'p mac" where
  "emac_fast_speed_set v s = s\<lparr>ctrl := (ctrl s)\<lparr>fes := v\<rparr>\<rparr>"

definition emac_duplex_mode_set :: "emac_duplex_type \<Rightarrow> 'p mac \<Rightarrow> 'p mac" where
  "emac_duplex_mode_set v s = s\<lparr>ctrl := (ctrl s)\<lparr>dm := v\<rparr>\<rparr>"

definition emac_start :: "'p mac \<Rightarrow> 'p mac" where
  "emac_start s =
     (let s = emac_trasmitter_enable True s; s = emac_receiver_enable True s;
          s = s\<lparr>dma_regs := (dma_regs s)\<lparr>sstc := True\<rparr>\<rparr>
      in s\<lparr>dma_regs := (dma_regs s)\<lparr>ssr := True\<rparr>\<rparr>)"

definition emac_stop :: "'p mac \<Rightarrow> 'p mac" where
  "emac_stop s =
     (let s = s\<lparr>dma_regs := (dma_regs s)\<lparr>sstc := False\<rparr>\<rparr>; s = s\<lparr>dma_regs := (dma_regs s)\<lparr>ssr := False\<rparr>\<rparr>;
          s = emac_receiver_enable False s
      in emac_trasmitter_enable False s)"

definition emac_control_para_init :: emac_control_config_type where
  "emac_control_para_init = \<lparr>auto_nego = EMAC_AUTO_NEGOTIATION_OFF, deferral_check = False, back_off_limit = 0, auto_pad_crc_strip = False,
     retry_disable = False, ipv4_checksum_offload = False, duplex_mode = EMAC_HALF_DUPLEX, loopback_mode = False, receive_own_disable = False,
     fast_ethernet_speed = EMAC_SPEED_10MBPS, carrier_sense_disable = False, interframe_gap = 0, jabber_disable = False, watchdog_disable = False\<rparr>"

definition emac_control_config :: "emac_control_config_type \<Rightarrow> 'p mac \<Rightarrow> 'p mac" where
  "emac_control_config c s = s\<lparr>ctrl := (ctrl s)\<lparr>dc := deferral_check c, bl := back_off_limit c, acs := auto_pad_crc_strip c, dr := retry_disable c,
     ipc := ipv4_checksum_offload c, lm := loopback_mode c, dro := receive_own_disable c, dcs := carrier_sense_disable c, ifg := interframe_gap c,
     jd := jabber_disable c, wd := watchdog_disable c\<rparr>\<rparr>"

definition emac_clock_range :: "nat \<Rightarrow> u8" where
  "emac_clock_range f =
     (if 20000000 \<le> f \<and> f < 35000000 then 2
      else if 35000000 \<le> f \<and> f < 60000000 then 3
      else if 60000000 \<le> f \<and> f < 100000000 then 0
      else if 100000000 \<le> f \<and> f < 150000000 then 1
      else if 150000000 \<le> f \<and> f < 250000000 then 4
      else if 250000000 \<le> f \<and> f \<le> 288000000 then 5
      else 0)"

definition emac_clock_range_set :: "'p emac_hw \<Rightarrow> 'p mac \<Rightarrow> 'p mac" where
  "emac_clock_range_set hw s = s\<lparr>mii_cr := emac_clock_range (ahb_freq hw)\<rparr>"

definition emac_dma_para_init :: emac_dma_config_type where
  "emac_dma_para_init = \<lparr>aab_enable = False, usp_enable = False, rx_dma_pal = 1, fb_enable = False, tx_dma_pal = 1, desc_skip_length = 0,
     da_enable = False, priority_ratio = 0, dt_disable = False, rsf_enable = False, flush_rx_disable = False, tsf_enable = False,
     tx_threshold = 0, fef_enable = False, fugf_enable = False, rx_threshold = 0, osf_enable = False\<rparr>"

definition emac_reset :: "'p emac_hw \<Rightarrow> 'p mac \<Rightarrow> 'p mac" where
  "emac_reset hw s = s\<lparr>ctrl := ctrl_reset hw, dma_regs := dma_regs_reset hw\<rparr>"

section \<open>The transceiver\<close>

text \<open>
  The three loops that read a register until \<open>go_on\<close> is false: nothing when a transaction fails, else \<^verbatim>\<open>timeout\<close> behind the loop.
\<close>

function phy_poll :: "'p emac_hw \<Rightarrow> u8 \<Rightarrow> (u16 \<Rightarrow> bool) \<Rightarrow> nat \<Rightarrow> 'p mac \<Rightarrow> nat option \<times> 'p mac" where
  "phy_poll hw reg go_on timeout s =
     (let timeout = timeout + 1; (data, s) = emac_phy_register_read hw PHY_ADDRESS reg s
      in case data of
           None \<Rightarrow> (None, s)
         | Some d \<Rightarrow> (if go_on d \<and> timeout < PHY_TIMEOUT then phy_poll hw reg go_on timeout s else (Some timeout, s)))"
  by pat_completeness auto
termination by (relation "measure (\<lambda>(hw, reg, go_on, timeout, s). PHY_TIMEOUT - timeout)") auto

declare phy_poll.simps [simp del]

definition emac_phy_register_reset :: "'p emac_hw \<Rightarrow> 'p mac \<Rightarrow> bool \<times> 'p mac" where
  "emac_phy_register_reset hw s =
     (let (ok, s) = emac_phy_register_write hw PHY_ADDRESS PHY_CONTROL_REG PHY_RESET_BIT s in
      if \<not> ok then (False, s)
      else
        (let (t, s) = phy_poll hw PHY_CONTROL_REG (\<lambda>d. d AND PHY_RESET_BIT \<noteq> 0) 0 s
         in case t of None \<Rightarrow> (False, s) | Some t \<Rightarrow> (t \<noteq> PHY_TIMEOUT, s)))"

definition set_link_mode :: "u16 \<Rightarrow> 'p mac \<Rightarrow> 'p mac" where
  "set_link_mode d s =
     (let m = d AND PHY_DUPLEX_MBPS_MSK;
          s = (if m = PHY_FULL_DUPLEX_100MBPS_BIT then emac_fast_speed_set EMAC_SPEED_100MBPS (emac_duplex_mode_set EMAC_FULL_DUPLEX s) else s);
          s = (if m = PHY_HALF_DUPLEX_100MBPS_BIT then emac_fast_speed_set EMAC_SPEED_100MBPS (emac_duplex_mode_set EMAC_HALF_DUPLEX s) else s);
          s = (if m = PHY_FULL_DUPLEX_10MBPS_BIT then emac_fast_speed_set EMAC_SPEED_100MBPS (emac_duplex_mode_set EMAC_FULL_DUPLEX s) else s)
      in if m = PHY_FULL_DUPLEX_10MBPS_BIT then emac_fast_speed_set EMAC_SPEED_100MBPS (emac_duplex_mode_set EMAC_HALF_DUPLEX s) else s)"

definition duplex_bit :: "emac_duplex_type \<Rightarrow> u16" where
  "duplex_bit m = (case m of EMAC_HALF_DUPLEX \<Rightarrow> 0 | EMAC_FULL_DUPLEX \<Rightarrow> 1)"

definition speed_bit :: "emac_speed_type \<Rightarrow> u16" where
  "speed_bit v = (case v of EMAC_SPEED_10MBPS \<Rightarrow> 0 | EMAC_SPEED_100MBPS \<Rightarrow> 1)"

definition emac_speed_config ::
  "'p emac_hw \<Rightarrow> emac_auto_negotiation_type \<Rightarrow> emac_duplex_type \<Rightarrow> emac_speed_type \<Rightarrow> 'p mac \<Rightarrow> bool \<times> 'p mac"
where
  "emac_speed_config hw nego mode speed s =
     (if nego = EMAC_AUTO_NEGOTIATION_ON then
        (let (t, s) = phy_poll hw PHY_STATUS_REG (\<lambda>d. d AND PHY_LINKED_STATUS_BIT = 0) 0 s in
         if t = None \<or> t = Some PHY_TIMEOUT then (False, s) else
         let (ok, s) = emac_phy_register_write hw PHY_ADDRESS PHY_CONTROL_REG PHY_AUTO_NEGOTIATION_BIT s in
         if \<not> ok then (False, s) else
         let (t, s) = phy_poll hw PHY_STATUS_REG (\<lambda>d. d AND PHY_NEGO_COMPLETE_BIT = 0) 0 s in
         if t = None \<or> t = Some PHY_TIMEOUT then (False, s) else
         let (d, s) = emac_phy_register_read hw PHY_ADDRESS PHY_SPECIFIED_CS_REG s in
         if d = None then (False, s) else
         let (d, s) = emac_phy_register_read hw PHY_ADDRESS PHY_SPECIFIED_CS_REG s in
         case d of None \<Rightarrow> (False, s) | Some d \<Rightarrow> (True, set_link_mode d s))
      else
        (let (ok, s) = emac_phy_register_write hw PHY_ADDRESS PHY_CONTROL_REG (push_bit 8 (duplex_bit mode) OR push_bit 13 (speed_bit speed)) s in
         if \<not> ok then (False, s) else (True, emac_duplex_mode_set mode (emac_fast_speed_set speed s))))"

definition emac_phy_init :: "'p emac_hw \<Rightarrow> emac_control_config_type \<Rightarrow> 'p mac \<Rightarrow> bool \<times> 'p mac" where
  "emac_phy_init hw control_para s =
     (let s = emac_clock_range_set hw s; (ok, s) = emac_phy_register_reset hw s
      in if ok then (True, emac_control_config control_para s) else (False, s))"

text \<open>Without a value the wait for the software reset of the DMA does not end.\<close>

definition emac_layer2_configuration :: "'p emac_hw \<Rightarrow> 'p mac \<Rightarrow> (bool \<times> 'p mac) option" where
  "emac_layer2_configuration hw s = do {
     let s = emac_reset hw s;
     _ \<leftarrow> dma_reset_polls hw;
     let s = s\<lparr>mac_control_para := emac_control_para_init\<lparr>auto_nego := EMAC_AUTO_NEGOTIATION_ON\<rparr>\<rparr>;
     let (ok, s) = emac_phy_init hw (mac_control_para s) s;
     if \<not> ok then Some (False, s)
     else do {
       let c = emac_dma_para_init\<lparr>rsf_enable := True, tsf_enable := True, osf_enable := True, aab_enable := True, usp_enable := True,
                 fb_enable := True, flush_rx_disable := True, rx_dma_pal := 32, tx_dma_pal := 32, priority_ratio := 0\<rparr>;
       Some (True, s\<lparr>dma_regs := (dma_regs s)\<lparr>dma_conf := c, nie := True, rie := True\<rparr>\<rparr>)
     }
   }"

definition link_update :: "'p emac_hw \<Rightarrow> 'p mac \<Rightarrow> u16 \<times> 'p mac" where
  "link_update hw s =
     (let (d, s) = emac_phy_register_read hw PHY_ADDRESS PHY_STATUS_REG s
      in case d of None \<Rightarrow> (0, s) | Some d \<Rightarrow> (drop_bit 2 (d AND PHY_LINKED_STATUS_BIT), s))"

section \<open>The network interface\<close>

definition netif_flag :: "u8 \<Rightarrow> 'p mac \<Rightarrow> bool" where
  "netif_flag f s \<longleftrightarrow> nflags (mac_netif s) AND f \<noteq> 0"

definition netif_flag_set :: "u8 \<Rightarrow> 'p mac \<Rightarrow> 'p mac" where
  "netif_flag_set f s = s\<lparr>mac_netif := (mac_netif s)\<lparr>nflags := nflags (mac_netif s) OR f\<rparr>\<rparr>"

definition netif_flag_clear :: "u8 \<Rightarrow> 'p mac \<Rightarrow> 'p mac" where
  "netif_flag_clear f s = s\<lparr>mac_netif := (mac_netif s)\<lparr>nflags := nflags (mac_netif s) AND NOT f\<rparr>\<rparr>"

definition stack_log :: "stack_call \<Rightarrow> 'p mac \<Rightarrow> 'p mac" where
  "stack_log a s = s\<lparr>stack_calls := stack_calls s @ [a]\<rparr>"

definition announce :: "'p mac \<Rightarrow> 'p mac" where
  "announce s =
     (let s = (if netif_flag NETIF_FLAG_ETHARP s then stack_log EtharpGratuitous s else s)
      in if netif_flag NETIF_FLAG_IGMP s then stack_log IgmpReportGroups s else s)"

definition netif_set_up :: "'p mac \<Rightarrow> 'p mac" where
  "netif_set_up s =
     (if netif_flag NETIF_FLAG_UP s then s
      else (let s = netif_flag_set NETIF_FLAG_UP s in if netif_flag NETIF_FLAG_LINK_UP s then announce s else s))"

definition netif_set_down :: "'p mac \<Rightarrow> 'p mac" where
  "netif_set_down s =
     (if netif_flag NETIF_FLAG_UP s
      then (let s = netif_flag_clear NETIF_FLAG_UP s in if netif_flag NETIF_FLAG_ETHARP s then stack_log EtharpCleanup s else s)
      else s)"

definition netif_set_link_up :: "('p mac \<Rightarrow> 'p mac) \<Rightarrow> 'p mac \<Rightarrow> 'p mac" where
  "netif_set_link_up link_callback s =
     (if netif_flag NETIF_FLAG_LINK_UP s then s
      else
        (let s = netif_flag_set NETIF_FLAG_LINK_UP s;
             s = (if dhcp_client s then stack_log DhcpNetworkChanged s else s);
             s = (if netif_flag NETIF_FLAG_UP s then announce s else s)
         in link_callback s))"

definition netif_set_link_down :: "('p mac \<Rightarrow> 'p mac) \<Rightarrow> 'p mac \<Rightarrow> 'p mac" where
  "netif_set_link_down link_callback s =
     (if netif_flag NETIF_FLAG_LINK_UP s then link_callback (netif_flag_clear NETIF_FLAG_LINK_UP s) else s)"

definition dhcp_start :: "dhcp_outcome \<Rightarrow> 'p mac \<Rightarrow> 'p mac" where
  "dhcp_start env s =
     (let s = netif_flag_clear NETIF_FLAG_DHCP s in
      if \<not> netif_flag NETIF_FLAG_ETHARP s then s
      else if mtu (mac_netif s) < 576 then s
      else if \<not> dhcp_client s \<and> env = DhcpNoMem then s
      else
        (let s = s\<lparr>dhcp_client := True\<rparr> in
         case env of
           DhcpNoPcb \<Rightarrow> s
         | DhcpNoDiscover \<Rightarrow> stack_log DhcpDiscover s
         | _ \<Rightarrow> netif_flag_set NETIF_FLAG_DHCP (stack_log DhcpDiscover s)))"

definition ethernetif_notify_conn_changed :: "'p emac_hw \<Rightarrow> 'p mac \<Rightarrow> 'p mac" where
  "ethernetif_notify_conn_changed hw s =
     (if netif_flag NETIF_FLAG_LINK_UP s then dhcp_start (dhcp_env hw) (netif_set_up s) else netif_set_down s)"

definition ethernetif_update_config :: "'p emac_hw \<Rightarrow> 'p mac \<Rightarrow> 'p mac" where
  "ethernetif_update_config hw s =
     (let s = (if netif_flag NETIF_FLAG_LINK_UP s
               then emac_start (snd (emac_speed_config hw (auto_nego (mac_control_para s)) (duplex_mode (mac_control_para s))
                      (fast_ethernet_speed (mac_control_para s)) s))
               else emac_stop s)
      in ethernetif_notify_conn_changed hw s)"

text \<open>One round of the endless loop of the link task \<^verbatim>\<open>ethernetif_set_link\<close>.\<close>

definition ethernetif_set_link :: "'p emac_hw \<Rightarrow> 'p mac \<Rightarrow> 'p mac" where
  "ethernetif_set_link hw s =
     (let (regvalue, s) = link_update hw s in
      if \<not> netif_flag NETIF_FLAG_LINK_UP s \<and> regvalue \<noteq> 0 then netif_set_link_up (ethernetif_update_config hw) s
      else if netif_flag NETIF_FLAG_LINK_UP s \<and> regvalue = 0 then netif_set_link_down (ethernetif_update_config hw) s
      else s)"

text \<open>
  \<^verbatim>\<open>network_task_function\<close> up to its loop: \<^verbatim>\<open>emac_system_init\<close> is repeated until it succeeds, then \<^verbatim>\<open>tcpip_stack_init\<close> adds
  the interface, starts DHCP and brings the interface up. Of \<^verbatim>\<open>low_level_init\<close> the fields of the interface and \<^verbatim>\<open>emac_start\<close> matter here.
\<close>

fun emac_system_init_loop :: "nat \<Rightarrow> 'p emac_hw \<Rightarrow> 'p mac \<Rightarrow> 'p mac option" where
  "emac_system_init_loop 0 hw s = None"
| "emac_system_init_loop (Suc n) hw s = do {
     (ok, s) \<leftarrow> emac_layer2_configuration hw s;
     if ok then Some s else emac_system_init_loop n hw s
   }"

definition mac_address :: buffer where
  "mac_address = [0x00, 0xE0, 0x00, 0x11, 0x22, 0x33]"

definition tcpip_stack_init :: "'p emac_hw \<Rightarrow> bool \<Rightarrow> 'p mac \<times> eth \<Rightarrow> ('p mac \<times> eth) option" where
  "tcpip_stack_init hw mem_ok = (\<lambda>(s, e). do {
     e \<leftarrow> lwip_set_mac_address mac_address e;
     (err, nif, e) \<leftarrow> ethernetif_init mem_ok ((mac_netif s)\<lparr>nflags := 0\<rparr>) e;
     if err \<noteq> ERR_OK then None
     else do {
       let s = emac_start (s\<lparr>mac_netif := nif, dhcp_client := False\<rparr>);
       let s = dhcp_start (dhcp_env hw) s;
       Some (netif_set_up s, e)
     }
   })"

definition network_boot :: "nat \<Rightarrow> 'p emac_hw \<Rightarrow> 'p mac \<times> eth \<Rightarrow> ('p mac \<times> eth) option" where
  "network_boot n hw = (\<lambda>(s, e). do { s \<leftarrow> emac_system_init_loop n hw s; tcpip_stack_init hw True (s, e) })"

section \<open>Waiting for the transceiver\<close>

definition answers :: "nat \<Rightarrow> bool" where
  "answers busy \<longleftrightarrow> busy + 1 < PHY_TIMEOUT"

lemma mii_wait_val: "timeout < PHY_TIMEOUT \<Longrightarrow> timeout \<le> busy \<Longrightarrow> mii_wait busy timeout = min (busy + 1) PHY_TIMEOUT"
proof (induction busy timeout rule: mii_wait.induct)
  case (1 busy timeout)
  show ?case
  proof (cases "timeout + 1 \<le> busy \<and> timeout + 1 < PHY_TIMEOUT")
    case True
    then show ?thesis using 1 by (subst mii_wait.simps) simp
  next
    case False
    then have "mii_wait busy timeout = timeout + 1" by (subst mii_wait.simps) auto
    moreover have "timeout + 1 = min (busy + 1) PHY_TIMEOUT" using False 1(2,3) by linarith
    ultimately show ?thesis by simp
  qed
qed

lemma mii_wait_timeout: "mii_wait busy 0 = PHY_TIMEOUT \<longleftrightarrow> \<not> answers busy"
  using mii_wait_val[of 0 busy] by (auto simp: answers_def)

lemma read_val: "phy_rd hw a r (phy s) = (busy, d, p) \<Longrightarrow>
    emac_phy_register_read hw a r s = (if answers busy then Some d else None, s\<lparr>phy := p\<rparr>)"
  by (simp add: emac_phy_register_read_def mii_wait_timeout)

lemma write_val: "phy_wr hw a r d (phy s) = (busy, p) \<Longrightarrow> emac_phy_register_write hw a r d s = (answers busy, s\<lparr>phy := p\<rparr>)"
  by (simp add: emac_phy_register_write_def mii_wait_timeout)

text \<open>A wait that ends in the \<open>k\<close>-th round: the transceiver goes through the states \<open>ps\<close> and answers with \<open>ds\<close>.\<close>

lemma poll_val:
  assumes "\<forall>i. phy_rd hw PHY_ADDRESS r (ps i) = (bs i, ds i, ps (Suc i)) \<and> answers (bs i)" "\<forall>i. n \<le> i \<and> i < n + k \<longrightarrow> go_on (ds i)" "\<not> go_on (ds (n + k))"
    "n + k < PHY_TIMEOUT" "phy s = ps n"
  shows "phy_poll hw r go_on n s = (Some (n + k + 1), s\<lparr>phy := ps (n + k + 1)\<rparr>)"
  using assms(2-5)
proof (induction k arbitrary: n s)
  case 0
  have "emac_phy_register_read hw PHY_ADDRESS r s = (Some (ds n), s\<lparr>phy := ps (Suc n)\<rparr>)"
    using read_val[of hw PHY_ADDRESS r s] assms(1) 0 by simp
  then show ?case using 0 by (subst phy_poll.simps) simp
next
  case (Suc k)
  have "emac_phy_register_read hw PHY_ADDRESS r s = (Some (ds n), s\<lparr>phy := ps (Suc n)\<rparr>)"
    using read_val[of hw PHY_ADDRESS r s] assms(1) Suc.prems by simp
  moreover have "go_on (ds n)" "n + 1 < PHY_TIMEOUT" using Suc.prems by auto
  moreover have "phy_poll hw r go_on (Suc n) (s\<lparr>phy := ps (Suc n)\<rparr>) = (Some (Suc n + k + 1), s\<lparr>phy := ps (Suc n + k + 1)\<rparr>)"
    using Suc.IH[of "Suc n" "s\<lparr>phy := ps (Suc n)\<rparr>"] Suc.prems by simp
  ultimately show ?case by (subst phy_poll.simps) simp
qed

lemma poll_gives_up:
  assumes "\<forall>i. phy_rd hw PHY_ADDRESS r (ps i) = (bs i, ds i, ps (Suc i)) \<and> answers (bs i)" "\<forall>i. i + 1 < PHY_TIMEOUT \<longrightarrow> go_on (ds i)" "n + k + 1 = PHY_TIMEOUT" "phy s = ps n"
  shows "phy_poll hw r go_on n s = (Some PHY_TIMEOUT, s\<lparr>phy := ps PHY_TIMEOUT\<rparr>)"
  using assms(3,4)
proof (induction k arbitrary: n s)
  case 0
  have "emac_phy_register_read hw PHY_ADDRESS r s = (Some (ds n), s\<lparr>phy := ps (Suc n)\<rparr>)"
    using read_val[of hw PHY_ADDRESS r s] assms(1) 0 by simp
  moreover have "Suc n = PHY_TIMEOUT" using 0 by simp
  ultimately show ?case by (subst phy_poll.simps) simp
next
  case (Suc k)
  have "emac_phy_register_read hw PHY_ADDRESS r s = (Some (ds n), s\<lparr>phy := ps (Suc n)\<rparr>)"
    using read_val[of hw PHY_ADDRESS r s] assms(1) Suc.prems by simp
  moreover have "go_on (ds n)" "n + 1 < PHY_TIMEOUT" using Suc.prems assms(2) by auto
  moreover have "phy_poll hw r go_on (Suc n) (s\<lparr>phy := ps (Suc n)\<rparr>) = (Some PHY_TIMEOUT, s\<lparr>phy := ps PHY_TIMEOUT\<rparr>)"
    using Suc.IH[of "Suc n" "s\<lparr>phy := ps (Suc n)\<rparr>"] Suc.prems by simp
  ultimately show ?case by (subst phy_poll.simps) simp
qed

section \<open>What configuring the speed may change\<close>

definition only_phy :: "'p mac \<Rightarrow> 'p mac \<Rightarrow> bool" where
  "only_phy s s' \<longleftrightarrow> (\<exists>p. s' = s\<lparr>phy := p\<rparr>)"

lemma only_phy_refl [simp, intro]: "only_phy s (s\<lparr>phy := p\<rparr>)"
  by (auto simp: only_phy_def)

lemma only_phy_trans: "only_phy s s' \<Longrightarrow> only_phy s' s'' \<Longrightarrow> only_phy s s''"
  by (auto simp: only_phy_def)

lemma read_only_phy: "emac_phy_register_read hw a r s = (d, s') \<Longrightarrow> only_phy s s'"
  by (auto simp: emac_phy_register_read_def Let_def split: prod.splits)

lemma write_only_phy: "emac_phy_register_write hw a r d s = (ok, s') \<Longrightarrow> only_phy s s'"
  by (auto simp: emac_phy_register_write_def Let_def split: prod.splits)

lemma poll_only_phy: "phy_poll hw r go_on n s = (t, s') \<Longrightarrow> only_phy s s'"
proof (induction hw r go_on n s arbitrary: t s' rule: phy_poll.induct)
  case (1 hw r go_on n s)
  obtain d s1 where d: "emac_phy_register_read hw PHY_ADDRESS r s = (d, s1)" by fastforce
  note o1 = read_only_phy[OF d]
  show ?case
  proof (cases "\<exists>x. d = Some x \<and> go_on x \<and> n + 1 < PHY_TIMEOUT")
    case True
    then obtain x where x: "d = Some x" "go_on x" "n + 1 < PHY_TIMEOUT" by blast
    have "phy_poll hw r go_on (n + 1) s1 = (t, s')" using 1(2) d x by (subst (asm) phy_poll.simps) simp
    then show ?thesis using 1(1)[OF refl d[symmetric] refl x(1)] x(2,3) o1 only_phy_trans by blast
  next
    case False
    then have "s' = s1" using 1(2) d by (subst (asm) phy_poll.simps) (auto split: option.splits if_splits)
    then show ?thesis using o1 by simp
  qed
qed

definition with_mode :: "emac_speed_type \<Rightarrow> emac_duplex_type \<Rightarrow> 'p mac \<Rightarrow> 'p mac" where
  "with_mode v m s = s\<lparr>ctrl := (ctrl s)\<lparr>fes := v, dm := m\<rparr>\<rparr>"

lemma with_mode_same: "with_mode (fes (ctrl s)) (dm (ctrl s)) s = s"
  by (simp add: with_mode_def)

lemma mode_set: "emac_fast_speed_set v (emac_duplex_mode_set m s) = with_mode v m s" "emac_duplex_mode_set m (emac_fast_speed_set v s) = with_mode v m s"
  "with_mode v m (with_mode v' m' s) = with_mode v m s"
  by (simp_all add: with_mode_def emac_fast_speed_set_def emac_duplex_mode_set_def)

lemma link_mode_val:
  "set_link_mode d s =
     (if d AND 0x1C = 0x18 then with_mode EMAC_SPEED_100MBPS EMAC_FULL_DUPLEX s
      else if d AND 0x1C = 8 \<or> d AND 0x1C = 0x14 then with_mode EMAC_SPEED_100MBPS EMAC_HALF_DUPLEX s else s)"
  unfolding set_link_mode_def Let_def mode_set
  by (cases "d AND 0x1C = 0x18"; cases "d AND 0x1C = 8"; cases "d AND 0x1C = 0x14"; simp add: mode_set)

lemma speed_keeps:
  "\<exists>s' a b. only_phy s s' \<and> snd (emac_speed_config hw nego mode speed s) = with_mode a b s'"
proof (cases nego)
  case EMAC_AUTO_NEGOTIATION_OFF
  obtain ok s1 where w: "emac_phy_register_write hw PHY_ADDRESS PHY_CONTROL_REG (push_bit 8 (duplex_bit mode) OR push_bit 13 (speed_bit speed)) s = (ok, s1)"
    by fastforce
  have "snd (emac_speed_config hw nego mode speed s) = (if ok then with_mode speed mode s1 else s1)"
    using EMAC_AUTO_NEGOTIATION_OFF w by (simp add: emac_speed_config_def mode_set)
  then show ?thesis using write_only_phy[OF w] with_mode_same[of s1] by metis
next
  case EMAC_AUTO_NEGOTIATION_ON
  obtain t1 s1 where 1: "phy_poll hw PHY_STATUS_REG (\<lambda>d. d AND PHY_LINKED_STATUS_BIT = 0) 0 s = (t1, s1)" by fastforce
  obtain ok s2 where 2: "emac_phy_register_write hw PHY_ADDRESS PHY_CONTROL_REG PHY_AUTO_NEGOTIATION_BIT s1 = (ok, s2)" by fastforce
  obtain t3 s3 where 3: "phy_poll hw PHY_STATUS_REG (\<lambda>d. d AND PHY_NEGO_COMPLETE_BIT = 0) 0 s2 = (t3, s3)" by fastforce
  obtain d4 s4 where 4: "emac_phy_register_read hw PHY_ADDRESS PHY_SPECIFIED_CS_REG s3 = (d4, s4)" by fastforce
  obtain d5 s5 where 5: "emac_phy_register_read hw PHY_ADDRESS PHY_SPECIFIED_CS_REG s4 = (d5, s5)" by fastforce
  note o = poll_only_phy[OF 1] write_only_phy[OF 2] poll_only_phy[OF 3] read_only_phy[OF 4] read_only_phy[OF 5]
  have all: "only_phy s s1" "only_phy s s2" "only_phy s s3" "only_phy s s4" "only_phy s s5" using o only_phy_trans by blast+
  have mode: "\<exists>a b. set_link_mode d s5 = with_mode a b s5" for d using link_mode_val[of d s5] with_mode_same[of s5] by metis
  have "snd (emac_speed_config hw nego mode speed s) \<in> {s1, s2, s3, s4, s5} \<or> (\<exists>d. snd (emac_speed_config hw nego mode speed s) = set_link_mode d s5)"
    using 1 2 3 4 5 EMAC_AUTO_NEGOTIATION_ON by (cases d5) (auto simp: emac_speed_config_def)
  then show ?thesis using all mode with_mode_same by (metis insertE singletonD)
qed

section \<open>Flags of the interface\<close>

lemma flag_bits:
  "netif_flag 1 s \<longleftrightarrow> bit (nflags (mac_netif s)) 0" "netif_flag 8 s \<longleftrightarrow> bit (nflags (mac_netif s)) 3"
  "netif_flag 0x10 s \<longleftrightarrow> bit (nflags (mac_netif s)) 4" "netif_flag 0x20 s \<longleftrightarrow> bit (nflags (mac_netif s)) 5"
  "netif_flag 0x80 s \<longleftrightarrow> bit (nflags (mac_netif s)) 7"
proof -
  have *: "w AND 2 ^ n \<noteq> 0 \<longleftrightarrow> bit w n" for w :: u8 and n by (simp add: and_exp_eq_0_iff_not_bit)
  show "netif_flag 1 s \<longleftrightarrow> bit (nflags (mac_netif s)) 0" "netif_flag 8 s \<longleftrightarrow> bit (nflags (mac_netif s)) 3"
    "netif_flag 0x10 s \<longleftrightarrow> bit (nflags (mac_netif s)) 4" "netif_flag 0x20 s \<longleftrightarrow> bit (nflags (mac_netif s)) 5"
    "netif_flag 0x80 s \<longleftrightarrow> bit (nflags (mac_netif s)) 7"
    using *[of _ 0] *[of _ 3] *[of _ 4] *[of _ 5] *[of _ 7] by (simp_all add: netif_flag_def)
qed

lemma flag_upd [simp]:
  "nflags (mac_netif (netif_flag_set f s)) = nflags (mac_netif s) OR f" "nflags (mac_netif (netif_flag_clear f s)) = nflags (mac_netif s) AND NOT f"
  "nflags (mac_netif (stack_log a s)) = nflags (mac_netif s)"
  by (simp_all add: netif_flag_set_def netif_flag_clear_def stack_log_def)

lemma regs_upd [simp]:
  "ctrl (netif_flag_set f s) = ctrl s" "ctrl (netif_flag_clear f s) = ctrl s" "ctrl (stack_log a s) = ctrl s"
  "dma_regs (netif_flag_set f s) = dma_regs s" "dma_regs (netif_flag_clear f s) = dma_regs s" "dma_regs (stack_log a s) = dma_regs s"
  "mac_control_para (netif_flag_set f s) = mac_control_para s" "mac_control_para (netif_flag_clear f s) = mac_control_para s"
  "mac_control_para (stack_log a s) = mac_control_para s"
  by (simp_all add: netif_flag_set_def netif_flag_clear_def stack_log_def)

lemma announce_keeps [simp]:
  "ctrl (announce s) = ctrl s" "dma_regs (announce s) = dma_regs s" "nflags (mac_netif (announce s)) = nflags (mac_netif s)"
  "mac_control_para (announce s) = mac_control_para s"
  by (simp_all add: announce_def Let_def)

lemma dhcp_keeps [simp]:
  "ctrl (dhcp_start e s) = ctrl s" "dma_regs (dhcp_start e s) = dma_regs s" "mac_control_para (dhcp_start e s) = mac_control_para s"
  "bit (nflags (mac_netif (dhcp_start e s))) 0 \<longleftrightarrow> bit (nflags (mac_netif s)) 0"
  "bit (nflags (mac_netif (dhcp_start e s))) 4 \<longleftrightarrow> bit (nflags (mac_netif s)) 4"
  by (simp_all add: dhcp_start_def Let_def bit_or_iff bit_and_iff bit_not_iff split: dhcp_outcome.splits)

lemma up_keeps [simp]:
  "ctrl (netif_set_up s) = ctrl s" "dma_regs (netif_set_up s) = dma_regs s" "mac_control_para (netif_set_up s) = mac_control_para s"
  "ctrl (netif_set_down s) = ctrl s" "dma_regs (netif_set_down s) = dma_regs s" "mac_control_para (netif_set_down s) = mac_control_para s"
  "bit (nflags (mac_netif (netif_set_up s))) 0" "\<not> bit (nflags (mac_netif (netif_set_down s))) 0"
  "bit (nflags (mac_netif (netif_set_up s))) 4 \<longleftrightarrow> bit (nflags (mac_netif s)) 4"
  "bit (nflags (mac_netif (netif_set_down s))) 4 \<longleftrightarrow> bit (nflags (mac_netif s)) 4"
  by (simp_all add: netif_set_up_def netif_set_down_def Let_def flag_bits bit_or_iff bit_and_iff bit_not_iff)

section \<open>The link task\<close>

text \<open>The interface is up and the MAC and its DMA run exactly while the interface counts the link as up.\<close>

definition link_inv :: "'p mac \<Rightarrow> bool" where
  "link_inv s \<longleftrightarrow> (let u = netif_flag NETIF_FLAG_LINK_UP s in
     netif_flag NETIF_FLAG_UP s = u \<and> te (ctrl s) = u \<and> re (ctrl s) = u \<and> ssr (dma_regs s) = u \<and> sstc (dma_regs s) = u)"

lemma start_stop [simp]:
  "nflags (mac_netif (emac_start s)) = nflags (mac_netif s)" "te (ctrl (emac_start s))" "re (ctrl (emac_start s))"
  "ssr (dma_regs (emac_start s))" "sstc (dma_regs (emac_start s))"
  "nflags (mac_netif (emac_stop s)) = nflags (mac_netif s)" "\<not> te (ctrl (emac_stop s))" "\<not> re (ctrl (emac_stop s))"
  "\<not> ssr (dma_regs (emac_stop s))" "\<not> sstc (dma_regs (emac_stop s))"
  by (simp_all add: emac_start_def emac_stop_def emac_trasmitter_enable_def emac_receiver_enable_def Let_def)

lemma start_mode: "fes (ctrl (emac_start s)) = fes (ctrl s)" "dm (ctrl (emac_start s)) = dm (ctrl s)"
  by (simp_all add: emac_start_def emac_trasmitter_enable_def emac_receiver_enable_def Let_def)

lemma only_phy_flags: "only_phy s s' \<Longrightarrow> nflags (mac_netif (with_mode a b s')) = nflags (mac_netif s)"
  by (auto simp: only_phy_def with_mode_def)

lemma update_config_inv:
  "link_inv (ethernetif_update_config hw s)" "netif_flag NETIF_FLAG_LINK_UP (ethernetif_update_config hw s) \<longleftrightarrow> netif_flag NETIF_FLAG_LINK_UP s"
proof -
  obtain s1 a b where s1: "only_phy s s1" "snd (emac_speed_config hw (auto_nego (mac_control_para s)) (duplex_mode (mac_control_para s))
      (fast_ethernet_speed (mac_control_para s)) s) = with_mode a b s1"
    using speed_keeps by blast
  then show "link_inv (ethernetif_update_config hw s)"
    "netif_flag NETIF_FLAG_LINK_UP (ethernetif_update_config hw s) \<longleftrightarrow> netif_flag NETIF_FLAG_LINK_UP s"
    by (cases "netif_flag NETIF_FLAG_LINK_UP s";
        simp add: ethernetif_update_config_def ethernetif_notify_conn_changed_def link_inv_def flag_bits only_phy_flags)+
qed

lemma link_change:
  "link_inv (netif_set_link_up (ethernetif_update_config hw) s) \<or> netif_flag NETIF_FLAG_LINK_UP s"
  "netif_flag NETIF_FLAG_LINK_UP (netif_set_link_up (ethernetif_update_config hw) s)"
  "link_inv (netif_set_link_down (ethernetif_update_config hw) s) \<or> \<not> netif_flag NETIF_FLAG_LINK_UP s"
  "\<not> netif_flag NETIF_FLAG_LINK_UP (netif_set_link_down (ethernetif_update_config hw) s)"
  by (simp_all add: netif_set_link_up_def netif_set_link_down_def update_config_inv Let_def)
    (simp_all add: flag_bits bit_or_iff bit_and_iff bit_not_iff)

lemma linked_bit: "drop_bit 2 (d AND PHY_LINKED_STATUS_BIT) = 0 \<longleftrightarrow> d AND PHY_LINKED_STATUS_BIT = 0"
proof -
  have "(4 :: u16) = 2 ^ 2" by simp
  then have b: "bit (d AND 4) n \<longleftrightarrow> bit d n \<and> n = 2" for n
    by (simp only: bit_and_iff bit_exp_iff) (auto dest: bit_imp_le_length)
  show ?thesis
  proof
    assume h: "drop_bit 2 (d AND 4) = 0"
    have "bit (drop_bit 2 (d AND 4)) 0 \<longleftrightarrow> bit (d AND 4) (2 + 0)" by (simp only: bit_drop_bit_eq comp_def)
    then have "\<not> bit d 2" using b[of 2] unfolding h by simp
    then have "bit (d AND 4) n \<longleftrightarrow> bit (0 :: u16) n" for n using b[of n] by auto
    then show "d AND 4 = 0" by (intro bit_word_eqI) blast
  qed simp
qed

lemma set_link_round:
  assumes "link_inv s" "phy_rd hw PHY_ADDRESS PHY_STATUS_REG (phy s) = (busy, d, p)"
  shows "link_inv (ethernetif_set_link hw s)"
    "netif_flag NETIF_FLAG_LINK_UP (ethernetif_set_link hw s) \<longleftrightarrow> answers busy \<and> d AND PHY_LINKED_STATUS_BIT \<noteq> 0"
proof -
  define s1 where "s1 = s\<lparr>phy := p\<rparr>"
  have s1: "link_inv s1" using assms(1) by (simp add: s1_def link_inv_def netif_flag_def)
  define v where "v = (if answers busy then drop_bit 2 (d AND PHY_LINKED_STATUS_BIT) else 0)"
  have v: "v \<noteq> 0 \<longleftrightarrow> answers busy \<and> d AND PHY_LINKED_STATUS_BIT \<noteq> 0" using linked_bit[of d] by (simp add: v_def)
  have "link_update hw s = (v, s1)" using read_val[OF assms(2)] by (simp add: link_update_def v_def s1_def)
  then have r: "ethernetif_set_link hw s =
     (if \<not> netif_flag NETIF_FLAG_LINK_UP s1 \<and> v \<noteq> 0 then netif_set_link_up (ethernetif_update_config hw) s1
      else if netif_flag NETIF_FLAG_LINK_UP s1 \<and> v = 0 then netif_set_link_down (ethernetif_update_config hw) s1 else s1)"
    by (simp add: ethernetif_set_link_def)
  show "link_inv (ethernetif_set_link hw s)" unfolding r using s1 link_change(1,3)[of hw s1] by auto
  show "netif_flag NETIF_FLAG_LINK_UP (ethernetif_set_link hw s) \<longleftrightarrow> answers busy \<and> d AND PHY_LINKED_STATUS_BIT \<noteq> 0"
    unfolding r v[symmetric] using link_change(2,4)[of hw s1] by simp
qed

lemma reset_only_phy: "emac_phy_register_reset hw s = (ok, s') \<Longrightarrow> only_phy s s'"
proof -
  assume h: "emac_phy_register_reset hw s = (ok, s')"
  obtain ok1 s1 where 1: "emac_phy_register_write hw PHY_ADDRESS PHY_CONTROL_REG PHY_RESET_BIT s = (ok1, s1)" by fastforce
  obtain t s2 where 2: "phy_poll hw PHY_CONTROL_REG (\<lambda>d. d AND PHY_RESET_BIT \<noteq> 0) 0 s1 = (t, s2)" by fastforce
  have "s' = s1 \<or> s' = s2" using h 1 2 by (cases t) (auto simp: emac_phy_register_reset_def split: if_splits)
  then show ?thesis using write_only_phy[OF 1] poll_only_phy[OF 2] only_phy_trans by blast
qed

lemma layer2_ctrl:
  assumes "emac_layer2_configuration hw s = Some (True, s')"
  shows "fes (ctrl s') = fes (ctrl_reset hw)" "dm (ctrl s') = dm (ctrl_reset hw)" "auto_nego (mac_control_para s') = EMAC_AUTO_NEGOTIATION_ON"
proof -
  define c where "c = emac_control_para_init\<lparr>auto_nego := EMAC_AUTO_NEGOTIATION_ON\<rparr>"
  define s1 where "s1 = emac_clock_range_set hw ((emac_reset hw s)\<lparr>mac_control_para := c\<rparr>)"
  obtain ok s2 where s2: "emac_phy_register_reset hw s1 = (ok, s2)" by fastforce
  then obtain p where p: "s2 = s1\<lparr>phy := p\<rparr>" using reset_only_phy by (metis only_phy_def)
  have i: "emac_phy_init hw c ((emac_reset hw s)\<lparr>mac_control_para := c\<rparr>) = (if ok then (True, emac_control_config c s2) else (False, s2))"
    using s2 by (simp add: emac_phy_init_def s1_def[symmetric])
  then obtain X where X: "s' = (emac_control_config c s2)\<lparr>dma_regs := X\<rparr>"
    using assms by (auto simp: emac_layer2_configuration_def c_def[symmetric] bind_eq_Some_conv split: if_splits)
  have "ctrl s' = ctrl (emac_control_config c s1)" "mac_control_para s' = c"
    unfolding X p by (simp_all add: emac_control_config_def s1_def emac_clock_range_set_def)
  then show "fes (ctrl s') = fes (ctrl_reset hw)" "dm (ctrl s') = dm (ctrl_reset hw)" "auto_nego (mac_control_para s') = EMAC_AUTO_NEGOTIATION_ON"
    by (simp_all add: s1_def c_def emac_control_config_def emac_clock_range_set_def emac_reset_def)
qed

lemma init_loop_ctrl:
  assumes "emac_system_init_loop n hw s = Some s'"
  shows "fes (ctrl s') = fes (ctrl_reset hw)" "dm (ctrl s') = dm (ctrl_reset hw)" "auto_nego (mac_control_para s') = EMAC_AUTO_NEGOTIATION_ON"
proof -
  have "\<exists>s0. emac_layer2_configuration hw s0 = Some (True, s')"
    using assms by (induction n hw s rule: emac_system_init_loop.induct) (auto simp: bind_eq_Some_conv split: if_splits)
  then show "fes (ctrl s') = fes (ctrl_reset hw)" "dm (ctrl s') = dm (ctrl_reset hw)" "auto_nego (mac_control_para s') = EMAC_AUTO_NEGOTIATION_ON"
    using layer2_ctrl by blast+
qed

lemma init_flags: "ethernetif_init mem_ok nif e = Some (0, nif', e') \<Longrightarrow> nflags nif' = 0x32"
  by (auto simp: ethernetif_init_def low_level_init_def bind_eq_Some_conv split: if_splits)

lemma stack_init_val:
  assumes "tcpip_stack_init hw mem_ok (s, e) = Some (s', e')"
  shows "link_inv s'" "netif_flag NETIF_FLAG_LINK_UP s'" "fes (ctrl s') = fes (ctrl s)" "dm (ctrl s') = dm (ctrl s)"
    "auto_nego (mac_control_para s') = auto_nego (mac_control_para s)"
proof -
  from assms obtain nif where s': "nflags nif = 0x32"
    "s' = netif_set_up (dhcp_start (dhcp_env hw) (emac_start (s\<lparr>mac_netif := nif, dhcp_client := False\<rparr>)))"
    by (auto simp: tcpip_stack_init_def bind_eq_Some_conv dest!: init_flags split: if_splits)
  have m: "mac_control_para (emac_start x) = mac_control_para x" for x :: "'a mac"
    by (simp add: emac_start_def emac_trasmitter_enable_def emac_receiver_enable_def)
  show "link_inv s'" "netif_flag NETIF_FLAG_LINK_UP s'" "fes (ctrl s') = fes (ctrl s)" "dm (ctrl s') = dm (ctrl s)"
    "auto_nego (mac_control_para s') = auto_nego (mac_control_para s)"
    using s' by (simp_all add: link_inv_def flag_bits start_mode m)
qed

lemma boot_val:
  assumes "network_boot n hw (s0, e0) = Some (s, e)"
  shows "link_inv s" "netif_flag NETIF_FLAG_LINK_UP s" "fes (ctrl s) = fes (ctrl_reset hw)" "dm (ctrl s) = dm (ctrl_reset hw)"
    "auto_nego (mac_control_para s) = EMAC_AUTO_NEGOTIATION_ON"
proof -
  from assms obtain s1 where s1: "emac_system_init_loop n hw s0 = Some s1" "tcpip_stack_init hw True (s1, e0) = Some (s, e)"
    by (auto simp: network_boot_def bind_eq_Some_conv)
  show "link_inv s" "netif_flag NETIF_FLAG_LINK_UP s" "fes (ctrl s) = fes (ctrl_reset hw)" "dm (ctrl s) = dm (ctrl_reset hw)"
    "auto_nego (mac_control_para s) = EMAC_AUTO_NEGOTIATION_ON"
    using stack_init_val[OF s1(2)] init_loop_ctrl[OF s1(1)] by simp_all
qed

section \<open>Properties\<close>


text \<open>A transceiver at rest: its registers have fixed values and every transaction is answered at once.\<close>

definition still_phy :: "(u8 \<Rightarrow> u16) \<Rightarrow> unit emac_hw" where
  "still_phy v = \<lparr>phy_wr = \<lambda>_ _ _ p. (0, p), phy_rd = \<lambda>_ r p. (0, v r, p), ahb_freq = 288000000, dma_reset_polls = Some 3,
     ctrl_reset = \<lparr>dc = False, bl = 0, acs = False, dr = False, ipc = False, lm = False, dro = False, dcs = False, ifg = 0, jd = False, wd = False,
       fes = EMAC_SPEED_10MBPS, dm = EMAC_HALF_DUPLEX, te = False, re = False\<rparr>,
     dma_regs_reset = \<lparr>dma_conf = emac_dma_para_init, ssr = False, sstc = False, nie = False, rie = False\<rparr>, dhcp_env = DhcpStarted\<rparr>"

definition mac_zero :: "unit mac" where
  "mac_zero = \<lparr>phy = (), mii_cr = 0, ctrl = ctrl_reset (still_phy (\<lambda>_. 0)), dma_regs = dma_regs_reset (still_phy (\<lambda>_. 0)),
     mac_control_para = emac_control_para_init, mac_netif = netif_zero, dhcp_client = False, stack_calls = []\<rparr>"

lemma still_phy_simps [simp]:
  "phy_rd (still_phy v) a r p = (0, v r, p)" "phy_wr (still_phy v) a r d p = (0, p)" "dma_reset_polls (still_phy v) = Some 3"
  "fes (ctrl_reset (still_phy v)) = EMAC_SPEED_10MBPS"
  by (simp_all add: still_phy_def)

lemma still_boot:
  assumes "v 0 AND 0x8000 = 0"
  shows "\<exists>s e. network_boot 1 (still_phy v) (mac_zero, eth_zero) = Some (s, e)"
proof -
  have w: "emac_phy_register_write (still_phy v) 0 0 0x8000 s = (True, s)" for s
    using write_val[of "still_phy v" 0 0 "0x8000" s 0 "()"] by (simp add: answers_def)
  have "phy_poll (still_phy v) 0 (\<lambda>d. d AND 0x8000 \<noteq> 0) 0 s = (Some 1, s)" for s
    using poll_val[of "still_phy v" 0 "\<lambda>_. ()" "\<lambda>_. 0" "\<lambda>_. v 0" 0 0 "\<lambda>d. d AND 0x8000 \<noteq> 0" s] assms by (simp add: answers_def)
  with w have "emac_phy_register_reset (still_phy v) s = (True, s)" for s by (simp add: emac_phy_register_reset_def)
  then have "\<exists>s. emac_layer2_configuration (still_phy v) mac_zero = Some (True, s)"
    by (simp add: emac_layer2_configuration_def emac_phy_init_def Let_def)
  then obtain s1 where s1: "emac_system_init_loop 1 (still_phy v) mac_zero = Some s1" by auto
  have m: "\<exists>e. lwip_set_mac_address mac_address eth_zero = Some e \<and> eth_boot e"
    using eth_boot_zero by (simp add: lwip_set_mac_address_def mac_address_def eth_boot_def emac_log_def)
  then obtain e1 where e1: "lwip_set_mac_address mac_address eth_zero = Some e1" "eth_boot e1" by blast
  obtain nif e2 where "ethernetif_init True ((mac_netif s1)\<lparr>nflags := 0\<rparr>) e1 = Some (0, nif, e2)" using init_val[OF e1(2)] by blast
  then have "\<exists>x. tcpip_stack_init (still_phy v) True (s1, eth_zero) = Some x" using e1(1) by (simp add: tcpip_stack_init_def Let_def)
  then show ?thesis unfolding network_boot_def prod.case s1 by simp
qed


text \<open>
  A cable that is connected from the start is never noticed: \<^verbatim>\<open>low_level_init\<close> already marks the link as up, so when the transceiver
  reports a link from the first round on, the link task never configures speed and duplex mode, and
  the MAC keeps those of its reset, whatever the transceiver has negotiated.
\<close>

theorem boot_link_not_configured:
  assumes "network_boot n hw (s0, e0) = Some (s, e)" "phy_rd hw 0 1 (phy s) = (busy, d, phy s)" "busy + 1 < 0xFFFFF" "d AND 4 \<noteq> 0"
  shows "(ethernetif_set_link hw ^^ k) s = s \<and> fes (ctrl s) = fes (ctrl_reset hw) \<and> dm (ctrl s) = dm (ctrl_reset hw)"
proof -
  have "link_update hw s = (drop_bit 2 (d AND 4), s)" using read_val[OF assms(2)] assms(3) by (simp add: link_update_def answers_def)
  then have "ethernetif_set_link hw s = s" using linked_bit[of d] assms(4) boot_val(2)[OF assms(1)] by (simp add: ethernetif_set_link_def)
  then have "(ethernetif_set_link hw ^^ k) s = s" by (induction k) simp_all
  then show ?thesis using boot_val(3,4)[OF assms(1)] by simp
qed

theorem boot_link_not_configured_witness:
  "\<exists>s e. network_boot 1 (still_phy (\<lambda>r. if r = 31 then 0x18 else 0x24)) (mac_zero, eth_zero) = Some (s, e) \<and>
     fes (ctrl ((ethernetif_set_link (still_phy (\<lambda>r. if r = 31 then 0x18 else 0x24)) ^^ 1000) s)) = EMAC_SPEED_10MBPS"
proof -
  let ?v = "\<lambda>r :: u8. if r = 31 then 0x18 else 0x24 :: u16"
  obtain s e where s: "network_boot 1 (still_phy ?v) (mac_zero, eth_zero) = Some (s, e)" using still_boot[of ?v] by auto
  show ?thesis using boot_link_not_configured[OF s, of 0 "?v 1" 1000] s by auto
qed

text \<open>
  What auto-negotiation makes of the mode the transceiver reports, with a transceiver that answers, has a link and has finished negotiating:
  100 Mbit/s in full or half duplex are set as reported, but for 10 Mbit/s in full duplex the MAC is set to 100 Mbit/s in half duplex, and
  for 10 Mbit/s in half duplex (and every other value) it is left as it was.
\<close>

theorem negotiated_mode:
  assumes "\<And>r. phy_rd hw 0 r (phy s) = (b r, v r, phy s) \<and> b r + 1 < 0xFFFFF" "phy_wr hw 0 0 0x1000 (phy s) = (b', phy s)" "b' + 1 < 0xFFFFF"
    "v 1 AND 4 \<noteq> 0" "v 1 AND 0x20 \<noteq> 0" "emac_speed_config hw EMAC_AUTO_NEGOTIATION_ON mode speed s = (ok, s')"
  shows "ok \<and> (fes (ctrl s'), dm (ctrl s')) =
    (if v 31 AND 0x1C = 0x18 then (EMAC_SPEED_100MBPS, EMAC_FULL_DUPLEX)
     else if v 31 AND 0x1C = 0x08 \<or> v 31 AND 0x1C = 0x14 then (EMAC_SPEED_100MBPS, EMAC_HALF_DUPLEX)
     else (fes (ctrl s), dm (ctrl s)))"
proof -
  have rd: "emac_phy_register_read hw 0 r s = (Some (v r), s)" for r using read_val[of hw 0 r s "b r" "v r" "phy s"] assms(1)[of r] by (simp add: answers_def)
  have wr: "emac_phy_register_write hw 0 0 0x1000 s = (True, s)" using write_val[OF assms(2)] assms(3) by (simp add: answers_def)
  have p: "phy_poll hw 1 go 0 s = (Some 1, s)" if "\<not> go (v 1)" for go
    using poll_val[of hw 1 "\<lambda>_. phy s" "\<lambda>_. b 1" "\<lambda>_. v 1" 0 0 go s] assms(1)[of 1] that by (simp add: answers_def)
  have "emac_speed_config hw EMAC_AUTO_NEGOTIATION_ON mode speed s = (True, set_link_mode (v 31) s)"
    using p[of "\<lambda>d. d AND 4 = 0"] p[of "\<lambda>d. d AND 0x20 = 0"] assms(4,5) rd[of 31] wr by (simp add: emac_speed_config_def)
  then have "ok" "s' = set_link_mode (v 31) s" using assms(6) by simp_all
  then show ?thesis by (auto simp: link_mode_val with_mode_def)
qed

theorem negotiated_mode_witness:
  "fes (ctrl (snd (emac_speed_config (still_phy (\<lambda>r. if r = 31 then 0x14 else 0x24)) EMAC_AUTO_NEGOTIATION_ON EMAC_FULL_DUPLEX EMAC_SPEED_10MBPS mac_zero)))
     = EMAC_SPEED_100MBPS"
proof -
  let ?v = "\<lambda>r :: u8. if r = 31 then 0x14 else 0x24 :: u16"
  obtain ok s' where s': "emac_speed_config (still_phy ?v) EMAC_AUTO_NEGOTIATION_ON EMAC_FULL_DUPLEX EMAC_SPEED_10MBPS mac_zero = (ok, s')" by fastforce
  have "ok \<and> (fes (ctrl s'), dm (ctrl s')) = (EMAC_SPEED_100MBPS, EMAC_HALF_DUPLEX)"
    using negotiated_mode[of "still_phy ?v" mac_zero "\<lambda>_. 0" ?v 0 EMAC_FULL_DUPLEX EMAC_SPEED_10MBPS ok s', OF _ _ _ _ _ s'] by simp
  then show ?thesis using s' by simp
qed

text \<open>
  The reset of the transceiver ends for every behaviour of it, and with one that answers every transaction it succeeds exactly if the reset bit reads as
  cleared before the last of the \<^verbatim>\<open>PHY_TIMEOUT\<close> reads: a reset that completes only in the last read counts as failed.
\<close>

theorem phy_reset_result:
  assumes "phy_wr hw 0 0 0x8000 (phy s) = (b, ps 0)" "b + 1 < 0xFFFFF"
    "\<And>i. phy_rd hw 0 0 (ps i) = (bs i, ds i, ps (Suc i)) \<and> bs i + 1 < 0xFFFFF"
  shows "fst (emac_phy_register_reset hw s) \<longleftrightarrow> (\<exists>k. k + 1 < 0xFFFFF \<and> ds k AND 0x8000 = 0)"
proof -
  let ?s = "s\<lparr>phy := ps 0\<rparr>" and ?go = "\<lambda>d :: u16. d AND 0x8000 \<noteq> 0"
  have w: "emac_phy_register_write hw 0 0 0x8000 s = (True, ?s)" using write_val[OF assms(1)] assms(2) by (simp add: answers_def)
  have a: "\<forall>i. phy_rd hw 0 0 (ps i) = (bs i, ds i, ps (Suc i)) \<and> answers (bs i)" using assms(3) by (simp add: answers_def)
  show ?thesis
  proof (cases "\<exists>k. k + 1 < 0xFFFFF \<and> ds k AND 0x8000 = 0")
    case True
    define k where "k = (LEAST k. k + 1 < 0xFFFFF \<and> ds k AND 0x8000 = 0)"
    have k1: "k + 1 < 0xFFFFF \<and> ds k AND 0x8000 = 0" using LeastI_ex[OF True] by (simp only: k_def)
    have k2: "?go (ds i)" if "i < k" for i
      using not_less_Least[of i "\<lambda>k. k + 1 < 0xFFFFF \<and> ds k AND 0x8000 = 0"] that k1 unfolding k_def[symmetric] by linarith
    note k = k1[THEN conjunct2] k2 k1[THEN conjunct1]
    have "phy_poll hw 0 ?go 0 ?s = (Some (k + 1), ?s\<lparr>phy := ps (k + 1)\<rparr>)" using poll_val[OF a, of 0 k ?go ?s] k by simp
    then show ?thesis using w k True by (simp add: emac_phy_register_reset_def)
  next
    case False
    then have "phy_poll hw 0 ?go 0 ?s = (Some 0xFFFFF, ?s\<lparr>phy := ps 0xFFFFF\<rparr>)" using poll_gives_up[OF a, of ?go 0 1048574 ?s] by auto
    then show ?thesis using w False by (simp add: emac_phy_register_reset_def)
  qed
qed

theorem phy_reset_result_witness:
  "fst (emac_phy_register_reset (still_phy (\<lambda>_. 0x3000)) mac_zero) \<and> \<not> fst (emac_phy_register_reset (still_phy (\<lambda>_. 0x8000)) mac_zero)"
proof -
  have "\<exists>k. k + 1 < (0xFFFFF :: nat) \<and> (0x3000 :: u16) AND 0x8000 = 0" by (rule exI[of _ 0]) simp
  then show ?thesis using phy_reset_result[of "still_phy (\<lambda>_. 0x3000)" mac_zero 0 "\<lambda>_. ()" "\<lambda>_. 0" "\<lambda>_. 0x3000"]
      phy_reset_result[of "still_phy (\<lambda>_. 0x8000)" mac_zero 0 "\<lambda>_. ()" "\<lambda>_. 0" "\<lambda>_. 0x8000"] by simp
qed

end
