(* ===== verification/Rtos_Heap.thy ===== *)
theory Rtos_Heap
  imports Prelude
begin

text \<open>
  The memory allocator of the operating system, \<^verbatim>\<open>FreeRTOS/portable/memmang/heap_4.c\<close>, which lwIP's port, the tasks and the queues allocate from: first fit
  over a list of free blocks that is kept in the memory itself, in the order of addresses, with merging of neighbours.

  Addresses are natural numbers (NULL is 0) and sizes are words, as overflow of a size is checked by the code. The memory is
  a store of block headers; the contents of blocks play no role. \<^verbatim>\<open>configASSERT\<close> disables the interrupts and loops, so a failed
  assertion is \<open>None\<close>, as is an access to memory that holds no header and a loop that does not end. The functions run with the scheduler suspended, so
  they are single steps.

  The first theorems relate the functions to a list of blocks (first fit, merging); the locale \<open>allocator\<close> is what clients rely on, and its interpretation gives
  \<open>heap_safe\<close> for every sequence of calls.
\<close>

section \<open>The code\<close>

record block_link =
  pxNextFreeBlock :: nat
  xBlockSize :: u32

type_synonym headers = "nat \<Rightarrow> block_link option"

record heap4 =
  hdrs :: headers
  pxEnd :: nat
  xFreeBytesRemaining :: u32
  xMinimumEverFreeBytesRemaining :: u32
  xNumberOfSuccessfulAllocations :: u32
  xNumberOfSuccessfulFrees :: u32
  xBlockAllocatedBit :: u32

text \<open>The addresses of the static array and of the static start link.\<close>

record heap_env =
  ucHeap :: nat
  xStart :: nat

abbreviation (input) configTOTAL_HEAP_SIZE :: nat where "configTOTAL_HEAP_SIZE \<equiv> 40960"
abbreviation (input) xHeapStructSize :: u32 where "xHeapStructSize \<equiv> 8"
abbreviation (input) heapMINIMUM_BLOCK_SIZE :: u32 where "heapMINIMUM_BLOCK_SIZE \<equiv> 16"

text \<open>Writing the size of a block that had no header yet; its link is set when it is inserted into the list.\<close>

definition set_size :: "nat \<Rightarrow> u32 \<Rightarrow> headers \<Rightarrow> headers" where
  "set_size a v m = m(a \<mapsto> (case m a of None \<Rightarrow> \<lparr>pxNextFreeBlock = 0, xBlockSize = v\<rparr> | Some l \<Rightarrow> l\<lparr>xBlockSize := v\<rparr>))"

definition prvHeapInit :: "heap_env \<Rightarrow> heap4 \<Rightarrow> heap4" where
  "prvHeapInit env s =
     (let uxAddress = (if ucHeap env mod 8 \<noteq> 0 then 8 * ((ucHeap env + 7) div 8) else ucHeap env);
          xTotalHeapSize = configTOTAL_HEAP_SIZE - (uxAddress - ucHeap env);
          e = 8 * ((uxAddress + xTotalHeapSize - 8) div 8)
      in s\<lparr>hdrs := (hdrs s)(xStart env \<mapsto> \<lparr>pxNextFreeBlock = uxAddress, xBlockSize = 0\<rparr>, e \<mapsto> \<lparr>pxNextFreeBlock = 0, xBlockSize = 0\<rparr>,
             uxAddress \<mapsto> \<lparr>pxNextFreeBlock = e, xBlockSize = of_nat (e - uxAddress)\<rparr>),
           pxEnd := e, xMinimumEverFreeBytesRemaining := of_nat (e - uxAddress), xFreeBytesRemaining := of_nat (e - uxAddress),
           xBlockAllocatedBit := 0x80000000\<rparr>)"

text \<open>The search for the position in the free list: the last link before the block.\<close>

partial_function (option) insert_pos :: "headers \<Rightarrow> nat \<Rightarrow> nat \<Rightarrow> nat option" where
  "insert_pos m pxBlockToInsert pxIterator = do {
     it \<leftarrow> m pxIterator;
     if pxNextFreeBlock it < pxBlockToInsert then insert_pos m pxBlockToInsert (pxNextFreeBlock it) else Some pxIterator
   }"

definition prvInsertBlockIntoFreeList :: "heap_env \<Rightarrow> nat \<Rightarrow> heap4 \<Rightarrow> heap4 option" where
  "prvInsertBlockIntoFreeList env pxBlockToInsert s = do {
     let m = hdrs s;
     pxIterator \<leftarrow> insert_pos m pxBlockToInsert (xStart env);
     it \<leftarrow> m pxIterator;
     blk \<leftarrow> m pxBlockToInsert;
     let (m, pxBlockToInsert) =
       (if pxIterator + unat (xBlockSize it) = pxBlockToInsert
        then (m(pxIterator \<mapsto> it\<lparr>xBlockSize := xBlockSize it + xBlockSize blk\<rparr>), pxIterator)
        else (m, pxBlockToInsert));
     blk \<leftarrow> m pxBlockToInsert;
     it \<leftarrow> m pxIterator;
     m \<leftarrow> (if pxBlockToInsert + unat (xBlockSize blk) = pxNextFreeBlock it
           then (if pxNextFreeBlock it \<noteq> pxEnd s
                 then do {
                   nxt \<leftarrow> m (pxNextFreeBlock it);
                   Some (m(pxBlockToInsert \<mapsto> blk\<lparr>xBlockSize := xBlockSize blk + xBlockSize nxt, pxNextFreeBlock := pxNextFreeBlock nxt\<rparr>))
                 }
                 else Some (m(pxBlockToInsert \<mapsto> blk\<lparr>pxNextFreeBlock := pxEnd s\<rparr>)))
           else Some (m(pxBlockToInsert \<mapsto> blk\<lparr>pxNextFreeBlock := pxNextFreeBlock it\<rparr>)));
     m \<leftarrow> (if pxIterator \<noteq> pxBlockToInsert
           then do { it \<leftarrow> m pxIterator; Some (m(pxIterator \<mapsto> it\<lparr>pxNextFreeBlock := pxBlockToInsert\<rparr>)) }
           else Some m);
     Some (s\<lparr>hdrs := m\<rparr>)
   }"

text \<open>The size of the block for a request; 0 when there is none.\<close>

definition wanted_size :: "u32 \<Rightarrow> u32" where
  "wanted_size w =
     (if w > 0 \<and> w + xHeapStructSize > w then
        (let w = w + xHeapStructSize in
         if w AND 7 \<noteq> 0 then (if w + (8 - (w AND 7)) > w then w + (8 - (w AND 7)) else 0) else w)
      else 0)"

partial_function (option) find_block :: "headers \<Rightarrow> u32 \<Rightarrow> nat \<Rightarrow> nat \<Rightarrow> (nat \<times> nat) option" where
  "find_block m xWantedSize pxPreviousBlock pxBlock = do {
     b \<leftarrow> m pxBlock;
     if xBlockSize b < xWantedSize \<and> pxNextFreeBlock b \<noteq> 0 then find_block m xWantedSize pxBlock (pxNextFreeBlock b)
     else Some (pxPreviousBlock, pxBlock)
   }"

definition take_block :: "heap_env \<Rightarrow> u32 \<Rightarrow> nat \<Rightarrow> nat \<Rightarrow> heap4 \<Rightarrow> (nat \<times> heap4) option" where
  "take_block env xWantedSize pxPreviousBlock pxBlock s = do {
     p \<leftarrow> hdrs s pxPreviousBlock;
     let pvReturn = pxNextFreeBlock p + 8;
     b \<leftarrow> hdrs s pxBlock;
     let s = s\<lparr>hdrs := (hdrs s)(pxPreviousBlock \<mapsto> p\<lparr>pxNextFreeBlock := pxNextFreeBlock b\<rparr>)\<rparr>;
     s \<leftarrow> (if xBlockSize b - xWantedSize > heapMINIMUM_BLOCK_SIZE
           then (if (pxBlock + unat xWantedSize) mod 8 \<noteq> 0 then None
                 else prvInsertBlockIntoFreeList env (pxBlock + unat xWantedSize)
                        (s\<lparr>hdrs := set_size pxBlock xWantedSize (set_size (pxBlock + unat xWantedSize) (xBlockSize b - xWantedSize) (hdrs s))\<rparr>))
           else Some s);
     b \<leftarrow> hdrs s pxBlock;
     let s = s\<lparr>xFreeBytesRemaining := xFreeBytesRemaining s - xBlockSize b\<rparr>;
     let s = (if xFreeBytesRemaining s < xMinimumEverFreeBytesRemaining s then s\<lparr>xMinimumEverFreeBytesRemaining := xFreeBytesRemaining s\<rparr> else s);
     let s = s\<lparr>hdrs := (hdrs s)(pxBlock \<mapsto> \<lparr>pxNextFreeBlock = 0, xBlockSize = xBlockSize b OR xBlockAllocatedBit s\<rparr>),
               xNumberOfSuccessfulAllocations := xNumberOfSuccessfulAllocations s + 1\<rparr>;
     Some (pvReturn, s)
   }"

definition pvPortMalloc :: "heap_env \<Rightarrow> u32 \<Rightarrow> heap4 \<Rightarrow> (nat \<times> heap4) option" where
  "pvPortMalloc env xWantedSize s = do {
     let s = (if pxEnd s = 0 then prvHeapInit env s else s);
     (pvReturn, s) \<leftarrow>
       (if xWantedSize AND xBlockAllocatedBit s \<noteq> 0 then Some (0, s)
        else let xWantedSize = wanted_size xWantedSize in
          if xWantedSize > 0 \<and> xWantedSize \<le> xFreeBytesRemaining s then do {
            st \<leftarrow> hdrs s (xStart env);
            (pxPreviousBlock, pxBlock) \<leftarrow> find_block (hdrs s) xWantedSize (xStart env) (pxNextFreeBlock st);
            if pxBlock \<noteq> pxEnd s then take_block env xWantedSize pxPreviousBlock pxBlock s else Some (0, s)
          }
          else Some (0, s));
     if pvReturn mod 8 \<noteq> 0 then None else Some (pvReturn, s)
   }"

definition vPortFree :: "heap_env \<Rightarrow> nat \<Rightarrow> heap4 \<Rightarrow> heap4 option" where
  "vPortFree env pv s =
     (if pv = 0 then Some s
      else do {
        let pxLink = pv - 8;
        l \<leftarrow> hdrs s pxLink;
        if xBlockSize l AND xBlockAllocatedBit s = 0 \<or> pxNextFreeBlock l \<noteq> 0 then None
        else do {
          let l = l\<lparr>xBlockSize := xBlockSize l AND NOT (xBlockAllocatedBit s)\<rparr>;
          let s = s\<lparr>hdrs := (hdrs s)(pxLink \<mapsto> l), xFreeBytesRemaining := xFreeBytesRemaining s + xBlockSize l\<rparr>;
          s \<leftarrow> prvInsertBlockIntoFreeList env pxLink s;
          Some (s\<lparr>xNumberOfSuccessfulFrees := xNumberOfSuccessfulFrees s + 1\<rparr>)
        }
      })"

partial_function (option) stats_loop :: "headers \<Rightarrow> nat \<Rightarrow> nat \<Rightarrow> u32 \<times> u32 \<times> u32 \<Rightarrow> (u32 \<times> u32 \<times> u32) option" where
  "stats_loop m e pxBlock r = do {
     b \<leftarrow> m pxBlock;
     let (xBlocks, xMaxSize, xMinSize) = r;
     let r = (xBlocks + 1, max xMaxSize (xBlockSize b), min xMinSize (xBlockSize b));
     if pxNextFreeBlock b \<noteq> e then stats_loop m e (pxNextFreeBlock b) r else Some r
   }"

record heap_stats =
  xAvailableHeapSpaceInBytes :: u32
  xSizeOfLargestFreeBlockInBytes :: u32
  xSizeOfSmallestFreeBlockInBytes :: u32
  xNumberOfFreeBlocks :: u32
  stat_xMinimumEverFreeBytesRemaining :: u32
  stat_xNumberOfSuccessfulAllocations :: u32
  stat_xNumberOfSuccessfulFrees :: u32

definition vPortGetHeapStats :: "heap_env \<Rightarrow> heap4 \<Rightarrow> heap_stats option" where
  "vPortGetHeapStats env s = do {
     st \<leftarrow> hdrs s (xStart env);
     (xBlocks, xMaxSize, xMinSize) \<leftarrow>
       (if pxNextFreeBlock st \<noteq> 0 then stats_loop (hdrs s) (pxEnd s) (pxNextFreeBlock st) (0, 0, 0xFFFFFFFF) else Some (0, 0, 0xFFFFFFFF));
     Some \<lparr>xAvailableHeapSpaceInBytes = xFreeBytesRemaining s, xSizeOfLargestFreeBlockInBytes = xMaxSize, xSizeOfSmallestFreeBlockInBytes = xMinSize,
       xNumberOfFreeBlocks = xBlocks, stat_xMinimumEverFreeBytesRemaining = xMinimumEverFreeBytesRemaining s,
       stat_xNumberOfSuccessfulAllocations = xNumberOfSuccessfulAllocations s, stat_xNumberOfSuccessfulFrees = xNumberOfSuccessfulFrees s\<rparr>
   }"

definition xPortGetFreeHeapSize :: "heap4 \<Rightarrow> u32" where
  "xPortGetFreeHeapSize s = xFreeBytesRemaining s"

definition xPortGetMinimumEverFreeHeapSize :: "heap4 \<Rightarrow> u32" where
  "xPortGetMinimumEverFreeHeapSize s = xMinimumEverFreeBytesRemaining s"

section \<open>The blocks of the heap\<close>

text \<open>
  The heap is divided into blocks, listed with their sizes and whether they are in use. A free block points to the next one, the last one to the end.
  The header of a used block is marked; for the blocks at the addresses \<open>U\<close>, about to be marked, it is not looked at.
\<close>

type_synonym blocks = "(nat \<times> bool) list"

definition tot :: "blocks \<Rightarrow> nat" where
  "tot bs = sum_list (map fst bs)"

lemma tot_simps [simp]: "tot [] = 0" "tot (x # bs) = fst x + tot bs" "tot (xs @ ys) = tot xs + tot ys"
  by (simp_all add: tot_def)

definition pos :: "blocks \<Rightarrow> bool" where
  "pos bs \<longleftrightarrow> (\<forall>x \<in> set bs. 0 < fst x)"

lemma pos_simps [simp]: "pos []" "pos (x # bs) \<longleftrightarrow> 0 < fst x \<and> pos bs" "pos (xs @ ys) \<longleftrightarrow> pos xs \<and> pos ys"
  by (auto simp: pos_def)

fun first_free :: "nat \<Rightarrow> blocks \<Rightarrow> nat \<Rightarrow> nat" where
  "first_free a [] e = e"
| "first_free a ((sz, used) # bs) e = (if used then first_free (a + sz) bs e else a)"

fun chain :: "nat set \<Rightarrow> headers \<Rightarrow> nat \<Rightarrow> blocks \<Rightarrow> nat \<Rightarrow> bool" where
  "chain U m a [] e \<longleftrightarrow> True"
| "chain U m a ((sz, used) # bs) e \<longleftrightarrow>
     (if used then a \<in> U \<or> m a = Some \<lparr>pxNextFreeBlock = 0, xBlockSize = of_nat sz OR 0x80000000\<rparr>
      else m a = Some \<lparr>pxNextFreeBlock = first_free (a + sz) bs e, xBlockSize = of_nat sz\<rparr>) \<and>
     chain U m (a + sz) bs e"

text \<open>With the link that points to the first free block, the start link at first.\<close>

definition chain0 :: "nat set \<Rightarrow> headers \<Rightarrow> nat \<Rightarrow> u32 \<Rightarrow> nat \<Rightarrow> blocks \<Rightarrow> nat \<Rightarrow> bool" where
  "chain0 U m st z a bs e \<longleftrightarrow> m st = Some \<lparr>pxNextFreeBlock = first_free a bs e, xBlockSize = z\<rparr> \<and> chain U m a bs e"

lemma first_free_append [simp]: "first_free a (xs @ ys) e = first_free a xs (first_free (a + tot xs) ys e)"
  by (induction a xs e rule: first_free.induct) (simp_all add: ac_simps)

lemma chain_append [simp]: "chain U m a (xs @ ys) e \<longleftrightarrow> chain U m a xs (first_free (a + tot xs) ys e) \<and> chain U m (a + tot xs) ys e"
  by (induction U m a xs e rule: chain.induct) (simp_all add: ac_simps)

lemma first_free_range: "pos bs \<Longrightarrow> a + tot bs \<le> e \<Longrightarrow> a \<le> first_free a bs e \<and> (first_free a bs e = e \<or> first_free a bs e < a + tot bs)"
proof (induction a bs e rule: first_free.induct)
  case (2 a sz used bs e)
  then show ?case by (cases used) (simp_all, linarith)
qed simp

lemma chain_frame: "pos bs \<Longrightarrow> p < a \<or> a + tot bs \<le> p \<Longrightarrow> chain U (m(p := v)) a bs e \<longleftrightarrow> chain U m a bs e"
  by (induction U m a bs e rule: chain.induct) auto

lemma chain_cong: "pos bs \<Longrightarrow> (\<And>x. a \<le> x \<Longrightarrow> x < a + tot bs \<Longrightarrow> m x = m' x) \<Longrightarrow> chain U m a bs e \<longleftrightarrow> chain U m' a bs e"
  by (induction U m a bs e rule: chain.induct) auto

fun last_free :: "nat \<Rightarrow> nat \<Rightarrow> blocks \<Rightarrow> nat" where
  "last_free st a [] = st"
| "last_free st a ((sz, used) # bs) = last_free (if used then st else a) (a + sz) bs"

fun last_size :: "u32 \<Rightarrow> blocks \<Rightarrow> u32" where
  "last_size z [] = z"
| "last_size z ((sz, used) # bs) = last_size (if used then z else of_nat sz) bs"

lemma last_free_append [simp]: "last_free st a (xs @ ys) = last_free (last_free st a xs) (a + tot xs) ys"
  by (induction st a xs rule: last_free.induct) (simp_all add: ac_simps)

lemma last_size_append [simp]: "last_size z (xs @ ys) = last_size (last_size z xs) ys"
  by (induction z xs rule: last_size.induct) simp_all

lemma last_free_range: "pos bs \<Longrightarrow> last_free st a bs = st \<or> a \<le> last_free st a bs \<and> last_free st a bs < a + tot bs"
  by (induction st a bs rule: last_free.induct) fastforce+

lemma last_free_end:
  "pos bs \<Longrightarrow> tot bs < 2 ^ 32 \<Longrightarrow>
   last_free st a bs = st \<and> last_size z bs = z \<or> a \<le> last_free st a bs \<and> last_free st a bs + unat (last_size z bs) \<le> a + tot bs"
proof (induction st a bs arbitrary: z rule: last_free.induct)
  case (2 st a sz used bs)
  have sz: "unat (of_nat sz :: u32) = sz" using 2(3) by (simp add: unat_of_nat)
  show ?case using 2(1)[of "if used then z else of_nat sz"] 2(2,3) sz by (auto split: if_splits)
qed simp

lemma chain0_Cons:
  "chain0 U m st z a ((sz, True) # bs) e \<longleftrightarrow>
     (a \<in> U \<or> m a = Some \<lparr>pxNextFreeBlock = 0, xBlockSize = of_nat sz OR 0x80000000\<rparr>) \<and> chain0 U m st z (a + sz) bs e"
  "chain0 U m st z a ((sz, False) # bs) e \<longleftrightarrow>
     m st = Some \<lparr>pxNextFreeBlock = a, xBlockSize = z\<rparr> \<and> chain0 U m a (of_nat sz) (a + sz) bs e"
  by (auto simp: chain0_def)

lemma chain0_append:
  "chain0 U m st z a (xs @ ys) e \<longleftrightarrow> chain0 U m st z a xs (first_free (a + tot xs) ys e) \<and> chain U m (a + tot xs) ys e"
  by (auto simp: chain0_def)

lemma chain0_last: "chain0 U m st z a bs e \<Longrightarrow> m (last_free st a bs) = Some \<lparr>pxNextFreeBlock = e, xBlockSize = last_size z bs\<rparr>"
proof (induction st a bs arbitrary: z rule: last_free.induct)
  case (2 st a sz used bs)
  then show ?case by (cases used) (auto simp: chain0_Cons)
qed (simp add: chain0_def)

lemma relink:
  assumes "chain0 U m st z a bs e" "pos bs" "st < a \<or> a + tot bs \<le> st"
  shows "chain0 U (m(last_free st a bs \<mapsto> \<lparr>pxNextFreeBlock = e', xBlockSize = last_size z bs\<rparr>)) st z a bs e'"
  using assms
proof (induction bs arbitrary: st a z)
  case Nil
  then show ?case by (simp add: chain0_def)
next
  case (Cons x bs)
  obtain sz used where x: "x = (sz, used)" by fastforce
  have sz: "0 < sz" "pos bs" "st < a \<or> a + sz + tot bs \<le> st" "st < a + sz \<or> a + sz + tot bs \<le> st" using Cons.prems(2,3) x by auto
  show ?case
  proof (cases used)
    case True
    have "chain0 U m st z (a + sz) bs e" using Cons.prems(1) x True by (simp add: chain0_Cons)
    from Cons.IH[OF this sz(2,4)] have "chain0 U (m(last_free st (a + sz) bs \<mapsto> \<lparr>pxNextFreeBlock = e', xBlockSize = last_size z bs\<rparr>)) st z (a + sz) bs e'" .
    moreover have "last_free st (a + sz) bs \<noteq> a" using last_free_range[of bs st "a + sz"] sz by auto
    ultimately show ?thesis using Cons.prems(1) unfolding x by (simp only: True chain0_Cons last_free.simps last_size.simps if_True fun_upd_other simp_thms)
  next
    case False
    have "chain0 U m a (of_nat sz) (a + sz) bs e" using Cons.prems(1) x False by (simp add: chain0_Cons)
    moreover have "a < a + sz \<or> a + sz + tot bs \<le> a" using sz(1) by simp
    ultimately have "chain0 U (m(last_free a (a + sz) bs \<mapsto> \<lparr>pxNextFreeBlock = e', xBlockSize = last_size (of_nat sz) bs\<rparr>)) a (of_nat sz) (a + sz) bs e'"
      by (rule Cons.IH[OF _ sz(2)])
    moreover have "last_free a (a + sz) bs \<noteq> st" using last_free_range[of bs a "a + sz"] sz by auto
    ultimately show ?thesis using Cons.prems(1) unfolding x by (simp only: False chain0_Cons last_free.simps last_size.simps if_False fun_upd_other simp_thms)
  qed
qed

lemma insert_pos_val:
  "chain0 U m st z a bs e \<Longrightarrow> pos bs \<Longrightarrow> a + tot bs \<le> b \<Longrightarrow> b \<le> e \<Longrightarrow> insert_pos m b st = Some (last_free st a bs)"
proof (induction st a bs arbitrary: z rule: last_free.induct)
  case (1 st a)
  then show ?case by (subst insert_pos.simps) (simp add: chain0_def)
next
  case (2 st a sz used bs)
  show ?case
  proof (cases used)
    case True
    then show ?thesis using 2(1)[of z] 2(2-5) by (auto simp: chain0_Cons)
  next
    case False
    then have "insert_pos m b a = Some (last_free a (a + sz) bs)" using 2(1)[of "of_nat sz"] 2(2-5) by (simp add: chain0_Cons)
    moreover have "m st = Some \<lparr>pxNextFreeBlock = a, xBlockSize = z\<rparr>" "a < b" using 2(2-4) False by (auto simp: chain0_Cons)
    ultimately show ?thesis using False by (subst insert_pos.simps) simp
  qed
qed

section \<open>Returning a block\<close>

text \<open>A block that becomes free is merged with its free neighbours.\<close>

definition merge_left :: "blocks \<Rightarrow> nat \<Rightarrow> blocks \<times> nat" where
  "merge_left xs sz = (if xs \<noteq> [] \<and> \<not> snd (last xs) then (butlast xs, fst (last xs) + sz) else (xs, sz))"

fun merge_right :: "nat \<Rightarrow> blocks \<Rightarrow> nat \<times> blocks" where
  "merge_right sz ((t, False) # ys) = (sz + t, ys)"
| "merge_right sz ys = (sz, ys)"

definition release :: "blocks \<Rightarrow> nat \<Rightarrow> blocks \<Rightarrow> blocks" where
  "release xs sz ys = (let (xs, sz) = merge_left xs sz; (sz, ys) = merge_right sz ys in xs @ (sz, False) # ys)"

text \<open>The right half of the insertion: the link \<open>l\<close> points behind the block at \<open>b\<close>, to the first free block of \<open>ys\<close>.\<close>

definition link_right :: "nat \<Rightarrow> nat \<Rightarrow> nat \<Rightarrow> headers \<Rightarrow> headers option" where
  "link_right e l b m = do {
     blk \<leftarrow> m b;
     it \<leftarrow> m l;
     if b + unat (xBlockSize blk) = pxNextFreeBlock it
     then (if pxNextFreeBlock it \<noteq> e
           then do {
             nxt \<leftarrow> m (pxNextFreeBlock it);
             Some (m(b \<mapsto> blk\<lparr>xBlockSize := xBlockSize blk + xBlockSize nxt, pxNextFreeBlock := pxNextFreeBlock nxt\<rparr>))
           }
           else Some (m(b \<mapsto> blk\<lparr>pxNextFreeBlock := e\<rparr>)))
     else Some (m(b \<mapsto> blk\<lparr>pxNextFreeBlock := pxNextFreeBlock it\<rparr>))
   }"

lemma link_right_val:
  assumes "m b = Some \<lparr>pxNextFreeBlock = n, xBlockSize = of_nat sz\<rparr>" "m l = Some \<lparr>pxNextFreeBlock = first_free (b + sz) ys e, xBlockSize = lz\<rparr>"
    "chain U m (b + sz) ys e" "pos ys" "e = b + sz + tot ys" "sz + tot ys < 2 ^ 31" "merge_right sz ys = (sz', ys')"
  shows "link_right e l b m = Some (m(b \<mapsto> \<lparr>pxNextFreeBlock = first_free (b + sz') ys' e, xBlockSize = of_nat sz'\<rparr>))"
proof -
  have u: "unat (of_nat sz :: u32) = sz" using assms(6) by (simp add: unat_of_nat)
  consider "ys = []" | t zs where "ys = (t, False) # zs" | t zs where "ys = (t, True) # zs"
    by (metis (full_types) list.exhaust surj_pair)
  then show ?thesis
  proof cases
    case 1
    then show ?thesis using assms u by (simp add: link_right_def)
  next
    case 2
    then have "b + sz < e" "m (b + sz) = Some \<lparr>pxNextFreeBlock = first_free (b + sz + t) zs e, xBlockSize = of_nat t\<rparr>" using assms(3-5) by auto
    then show ?thesis using 2 assms u by (auto simp: link_right_def ac_simps)
  next
    case 3
    then have "b + sz < first_free (b + sz) ys e" using first_free_range[of zs "b + sz + t" e] assms(4,5) by auto
    then show ?thesis using 3 assms u by (auto simp: link_right_def)
  qed
qed

lemma insert_cases:
  assumes "insert_pos (hdrs s) b (xStart env) = Some l" "l \<noteq> b" "hdrs s l = Some it" "hdrs s b = Some blk"
  shows "l + unat (xBlockSize it) = b \<Longrightarrow> link_right (pxEnd s) l l ((hdrs s)(l \<mapsto> it\<lparr>xBlockSize := xBlockSize it + xBlockSize blk\<rparr>)) = Some m \<Longrightarrow>
      prvInsertBlockIntoFreeList env b s = Some (s\<lparr>hdrs := m\<rparr>)"
    "l + unat (xBlockSize it) \<noteq> b \<Longrightarrow> link_right (pxEnd s) l b (hdrs s) = Some (m(b := x)) \<Longrightarrow> m l = Some it \<Longrightarrow>
      prvInsertBlockIntoFreeList env b s = Some (s\<lparr>hdrs := m(b := x, l \<mapsto> it\<lparr>pxNextFreeBlock := b\<rparr>)\<rparr>)"
proof -
  show "prvInsertBlockIntoFreeList env b s = Some (s\<lparr>hdrs := m\<rparr>)" if "l + unat (xBlockSize it) = b"
    "link_right (pxEnd s) l l ((hdrs s)(l \<mapsto> it\<lparr>xBlockSize := xBlockSize it + xBlockSize blk\<rparr>)) = Some m"
    using that assms by (simp add: prvInsertBlockIntoFreeList_def link_right_def Let_def)
  show "prvInsertBlockIntoFreeList env b s = Some (s\<lparr>hdrs := m(b := x, l \<mapsto> it\<lparr>pxNextFreeBlock := b\<rparr>)\<rparr>)" if "l + unat (xBlockSize it) \<noteq> b"
    "link_right (pxEnd s) l b (hdrs s) = Some (m(b := x))" "m l = Some it"
  proof -
    have "prvInsertBlockIntoFreeList env b s = do {
       m \<leftarrow> link_right (pxEnd s) l b (hdrs s); it \<leftarrow> m l; Some (s\<lparr>hdrs := m(l \<mapsto> it\<lparr>pxNextFreeBlock := b\<rparr>)\<rparr>) }"
      using that(1) assms by (simp add: prvInsertBlockIntoFreeList_def link_right_def Let_def)
    then show ?thesis using that(2,3) assms(2) by simp
  qed
qed

lemma merge_right_tot: "merge_right sz ys = (sz', ys') \<Longrightarrow> sz' + tot ys' = sz + tot ys \<and> sz \<le> sz' \<and> (pos ys \<longrightarrow> pos ys')"
  by (induction sz ys rule: merge_right.induct) auto

lemma chain_merge_right: "merge_right sz ys = (sz', ys') \<Longrightarrow> chain U m (b + sz) ys e \<Longrightarrow> chain U m (b + sz') ys' e"
  by (induction sz ys rule: merge_right.induct) (auto simp: ac_simps)

lemma insert_val:
  assumes "chain0 U (hdrs s) (xStart env) 0 a xs (first_free (b + sz) ys e)" "chain U (hdrs s) (b + sz) ys e"
    "hdrs s b = Some \<lparr>pxNextFreeBlock = n, xBlockSize = of_nat sz\<rparr>" "b = a + tot xs" "pxEnd s = e" "e = b + sz + tot ys" "pos xs" "pos ys" "0 < sz"
    "tot xs + sz + tot ys < 2 ^ 31" "xStart env < a \<or> e < xStart env"
  shows "\<exists>m. prvInsertBlockIntoFreeList env b s = Some (s\<lparr>hdrs := m\<rparr>) \<and> chain0 U m (xStart env) 0 a (release xs sz ys) e \<and>
    (\<forall>x. x \<noteq> last_free (xStart env) a xs \<and> x \<noteq> b \<longrightarrow> m x = hdrs s x)"
proof -
  let ?st = "xStart env" and ?f = "first_free (b + sz) ys e"
  define l where "l = last_free ?st a xs"
  have f: "b \<le> ?f" using first_free_range[OF assms(8), of "b + sz" e] assms(6) by simp
  have ip: "insert_pos (hdrs s) b ?st = Some l" using insert_pos_val[OF assms(1,7) _ f] assms(4) by (simp add: l_def)
  have lb: "l \<noteq> b" "l = ?st \<or> a \<le> l \<and> l < b" using last_free_range[OF assms(7), of ?st a] assms(4,6,11) by (auto simp: l_def)
  have hl: "hdrs s l = Some \<lparr>pxNextFreeBlock = ?f, xBlockSize = last_size 0 xs\<rparr>" using chain0_last[OF assms(1)] by (simp add: l_def)
  show ?thesis
  proof (cases "xs \<noteq> [] \<and> \<not> snd (last xs)")
    case True
    then obtain ys0 t where xs: "xs = ys0 @ [(t, False)]" by (metis append_butlast_last_id prod.collapse)
    have t: "unat (of_nat t :: u32) = t" "0 < t" using assms(7,10) xs by (simp_all add: unat_of_nat)
    have ll: "l = a + tot ys0" "last_size 0 xs = of_nat t" by (simp_all add: l_def xs)
    obtain sz' ys' where mr: "merge_right (t + sz) ys = (sz', ys')" by fastforce
    let ?m = "(hdrs s)(l \<mapsto> \<lparr>pxNextFreeBlock = ?f, xBlockSize = of_nat (t + sz)\<rparr>)"
    have bl: "b + sz = l + (t + sz)" using assms(4) ll xs by simp
    have c: "chain U ?m (l + (t + sz)) ys e" using assms(2) chain_frame[OF assms(8), of l "b + sz"] bl t(2) by simp
    have h: "?m l = Some \<lparr>pxNextFreeBlock = first_free (l + (t + sz)) ys e, xBlockSize = of_nat (t + sz)\<rparr>" by (simp add: bl)
    have "link_right e l l ?m = Some (?m(l \<mapsto> \<lparr>pxNextFreeBlock = first_free (l + sz') ys' e, xBlockSize = of_nat sz'\<rparr>))"
      by (rule link_right_val[OF h h c assms(8) _ _ mr]) (use assms(6,10) bl xs in simp_all)
    then have run: "prvInsertBlockIntoFreeList env b s = Some (s\<lparr>hdrs := (hdrs s)(l \<mapsto> \<lparr>pxNextFreeBlock = first_free (l + sz') ys' e, xBlockSize = of_nat sz'\<rparr>)\<rparr>)"
      using insert_cases(1)[OF ip lb(1) hl assms(3)] t ll assms(4,5) xs by (simp add: ac_simps)
    let ?m' = "(hdrs s)(l \<mapsto> \<lparr>pxNextFreeBlock = first_free (l + sz') ys' e, xBlockSize = of_nat sz'\<rparr>)"
    have "chain0 U (hdrs s) ?st 0 a ys0 l" using assms(1) xs ll by (simp add: chain0_append)
    then have "chain0 U ?m' ?st 0 a ys0 l" using chain_frame[of ys0 l a] assms(7,11) xs ll lb(2) assms(4,6) by (auto simp: chain0_def)
    moreover have "chain U (hdrs s) (l + sz') ys' e" using chain_merge_right[OF mr] assms(2) bl by simp
    then have "chain U ?m' (l + sz') ys' e" using chain_frame[of ys' l "l + sz'"] merge_right_tot[OF mr] assms(8) t(2) by simp
    ultimately have "chain0 U ?m' ?st 0 a (release xs sz ys) e"
      using mr ll by (simp add: release_def merge_left_def xs chain0_append)
    then show ?thesis using run by (intro exI[of _ ?m']) (simp add: l_def)
  next
    case False
    have ns: "l + unat (last_size 0 xs) \<noteq> b"
    proof (cases "xs = []")
      case True
      then show ?thesis using assms(4,6,11) by (auto simp: l_def)
    next
      case ne: False
      then obtain zs t where xs: "xs = zs @ [(t, True)]" using False by (metis append_butlast_last_id prod.collapse)
      have "l = last_free ?st a zs" "last_size 0 xs = last_size 0 zs" by (simp_all add: l_def xs)
      moreover have "pos zs" "tot zs < 2 ^ 32" "a + tot zs < b" using assms(4,7,10) xs by auto
      ultimately show ?thesis using last_free_end[of zs ?st a 0] assms(4,6,11) by (auto simp del: last_size.simps)
    qed
    obtain sz' ys' where mr: "merge_right sz ys = (sz', ys')" by fastforce
    let ?v = "Some \<lparr>pxNextFreeBlock = first_free (b + sz') ys' e, xBlockSize = of_nat sz'\<rparr>"
    have "link_right e l b (hdrs s) = Some ((hdrs s)(b := ?v))"
      by (rule link_right_val[OF assms(3) hl assms(2,8) _ _ mr]) (use assms(6,10) in simp_all)
    then have run: "prvInsertBlockIntoFreeList env b s = Some (s\<lparr>hdrs := (hdrs s)(b := ?v, l \<mapsto> \<lparr>pxNextFreeBlock = b, xBlockSize = last_size 0 xs\<rparr>)\<rparr>)"
      using insert_cases(2)[OF ip lb(1) hl assms(3), of "hdrs s" ?v] ns hl assms(5) by simp
    let ?m' = "(hdrs s)(b := ?v, l \<mapsto> \<lparr>pxNextFreeBlock = b, xBlockSize = last_size 0 xs\<rparr>)"
    have "chain0 U ((hdrs s)(b := ?v)) ?st 0 a xs ?f" using assms(1,4,6,11) chain_frame[OF assms(7), of b a] by (auto simp: chain0_def)
    from relink[OF this assms(7)] have 1: "chain0 U ?m' ?st 0 a xs b" using assms(4,6,11) unfolding l_def by force
    have "chain U (hdrs s) (b + sz') ys' e" using chain_merge_right[OF mr assms(2)] .
    then have 2: "chain U ?m' (b + sz') ys' e"
      using chain_frame[of ys' b "b + sz'"] chain_frame[of ys' l "b + sz'"] merge_right_tot[OF mr] assms(4,6,8,9,11) lb(2) by auto
    have "chain0 U ?m' ?st 0 a (xs @ (sz', False) # ys') e"
      using 1 2 lb(1) assms(4) by (simp add: chain0_append)
    then have "chain0 U ?m' ?st 0 a (release xs sz ys) e" using mr False by (auto simp: release_def merge_left_def)
    then show ?thesis using run by (intro exI[of _ ?m']) (simp add: l_def)
  qed
qed

section \<open>The invariant\<close>

fun merged :: "blocks \<Rightarrow> bool" where
  "merged ((s, u) # (t, v) # bs) \<longleftrightarrow> (u \<or> v) \<and> merged ((t, v) # bs)"
| "merged bs \<longleftrightarrow> True"

definition free_tot :: "blocks \<Rightarrow> nat" where
  "free_tot bs = tot (filter (\<lambda>x. \<not> snd x) bs)"

lemma free_tot_simps [simp]: "free_tot [] = 0" "free_tot (x # bs) = (if snd x then 0 else fst x) + free_tot bs"
  "free_tot (xs @ ys) = free_tot xs + free_tot ys"
  by (simp_all add: free_tot_def)

lemma free_tot_le: "free_tot bs \<le> tot bs"
  by (induction bs) auto

definition heap_base :: "heap_env \<Rightarrow> nat" where
  "heap_base env = 8 * ((ucHeap env + 7) div 8)"

definition heap_size :: "heap_env \<Rightarrow> nat" where
  "heap_size env = 8 * ((ucHeap env + 40952) div 8) - heap_base env"

lemma heap_size_bound: "heap_base env + heap_size env + 8 \<le> ucHeap env + configTOTAL_HEAP_SIZE"
proof -
  have "8 * ((ucHeap env + 7) div 8) \<le> 8 * ((ucHeap env + 40952) div 8)" by (intro mult_le_mono2 div_le_mono) simp
  then show ?thesis by (simp add: heap_size_def heap_base_def)
qed

definition sizes_ok :: "blocks \<Rightarrow> bool" where
  "sizes_ok bs \<longleftrightarrow> (\<forall>x \<in> set bs. 0 < fst x \<and> fst x mod 8 = 0)"

lemma sizes_ok_simps [simp]: "sizes_ok []" "sizes_ok (x # bs) \<longleftrightarrow> 0 < fst x \<and> fst x mod 8 = 0 \<and> sizes_ok bs" "sizes_ok (xs @ ys) \<longleftrightarrow> sizes_ok xs \<and> sizes_ok ys"
  by (auto simp: sizes_ok_def)

lemma sizes_pos: "sizes_ok bs \<Longrightarrow> pos bs"
  by (simp add: sizes_ok_def pos_def)

lemma sizes_tot: "sizes_ok bs \<Longrightarrow> tot bs mod 8 = 0"
  by (induction bs) (auto simp: mod_add_eq[symmetric])

definition env_ok :: "heap_env \<Rightarrow> bool" where
  "env_ok env \<longleftrightarrow> 0 < ucHeap env \<and> (xStart env < ucHeap env \<or> ucHeap env + configTOTAL_HEAP_SIZE \<le> xStart env)"

definition heap_inv :: "heap_env \<Rightarrow> heap4 \<Rightarrow> blocks \<Rightarrow> bool" where
  "heap_inv env s bs \<longleftrightarrow> env_ok env \<and> chain0 {} (hdrs s) (xStart env) 0 (heap_base env) bs (pxEnd s) \<and> hdrs s (pxEnd s) = Some \<lparr>pxNextFreeBlock = 0, xBlockSize = 0\<rparr> \<and>
     pxEnd s = heap_base env + tot bs \<and> sizes_ok bs \<and> merged bs \<and> xFreeBytesRemaining s = of_nat (free_tot bs) \<and> xBlockAllocatedBit s = 0x80000000 \<and>
     tot bs = heap_size env"

lemma heap_inv_parts:
  assumes "heap_inv env s bs"
  shows "chain0 {} (hdrs s) (xStart env) 0 (heap_base env) bs (pxEnd s)" "env_ok env" "pxEnd s = heap_base env + tot bs"
    "hdrs s (pxEnd s) = Some \<lparr>pxNextFreeBlock = 0, xBlockSize = 0\<rparr>" "merged bs" "sizes_ok bs" "xFreeBytesRemaining s = of_nat (free_tot bs)"
    "xBlockAllocatedBit s = 0x80000000" "tot bs = heap_size env"
  using assms unfolding heap_inv_def by blast+

lemma heap_invD:
  assumes "heap_inv env s bs"
  shows "0 < heap_base env" "heap_base env mod 8 = 0" "xStart env < heap_base env \<or> pxEnd s < xStart env" "tot bs \<le> configTOTAL_HEAP_SIZE" "pos bs"
    "ucHeap env \<le> heap_base env" "pxEnd s + 8 \<le> ucHeap env + configTOTAL_HEAP_SIZE"
proof -
  have e: "env_ok env" "pxEnd s = heap_base env + tot bs" "pxEnd s + 8 \<le> ucHeap env + configTOTAL_HEAP_SIZE" "sizes_ok bs"
    using assms heap_size_bound[of env] by (simp_all add: heap_inv_def)
  show "pxEnd s + 8 \<le> ucHeap env + configTOTAL_HEAP_SIZE" using e(3) .
  show b: "ucHeap env \<le> heap_base env" "heap_base env mod 8 = 0" by (simp_all add: heap_base_def)
  show "0 < heap_base env" using b(1) e(1) by (simp add: env_ok_def)
  show "xStart env < heap_base env \<or> pxEnd s < xStart env" using e(1,3) b(1) by (auto simp: env_ok_def)
  show "tot bs \<le> configTOTAL_HEAP_SIZE" using e(2,3) b(1) by simp
  show "pos bs" using e(4) by (rule sizes_pos)
qed

lemma merged_append: "merged (xs @ ys) \<longleftrightarrow> merged xs \<and> merged ys \<and> (xs \<noteq> [] \<and> ys \<noteq> [] \<longrightarrow> snd (last xs) \<or> snd (hd ys))"
  apply (induction xs rule: merged.induct)
  subgoal by auto
  subgoal by auto
  subgoal for x by (cases x; cases ys) auto
  done

lemma merged_Cons: "merged (x # bs) \<longleftrightarrow> merged bs \<and> (bs \<noteq> [] \<longrightarrow> snd x \<or> snd (hd bs))"
  using merged_append[of "[x]" bs] by simp

lemma release_props:
  assumes "merged (xs @ (sz, True) # ys)" "sizes_ok (xs @ (sz, True) # ys)"
  shows "merged (release xs sz ys)" "sizes_ok (release xs sz ys)" "tot (release xs sz ys) = tot xs + sz + tot ys"
    "free_tot (release xs sz ys) = free_tot xs + sz + free_tot ys"
proof -
  consider (left) zs t where "xs = zs @ [(t, False)]" "merge_left xs sz = (zs, t + sz)" | (none) "merge_left xs sz = (xs, sz)" "xs \<noteq> [] \<longrightarrow> snd (last xs)"
  proof (cases "xs \<noteq> [] \<and> \<not> snd (last xs)")
    case True
    then have "xs = butlast xs @ [(fst (last xs), False)]" by (metis append_butlast_last_id prod.collapse)
    then show ?thesis using that(1) True by (metis merge_left_def)
  qed (use that(2) in \<open>auto simp: merge_left_def\<close>)
  note L = this
  consider (right) zs t where "ys = (t, False) # zs" | (nil) "ys = []" | (used) zs t where "ys = (t, True) # zs"
    by (metis (full_types) list.exhaust surj_pair)
  note R = this
  show "merged (release xs sz ys)" "sizes_ok (release xs sz ys)" "tot (release xs sz ys) = tot xs + sz + tot ys"
    "free_tot (release xs sz ys) = free_tot xs + sz + free_tot ys"
    using assms by (cases rule: L; cases rule: R; auto simp: release_def merged_append merged_Cons mod_add_eq[symmetric])+
qed

section \<open>Freeing\<close>

lemma mark_bits:
  assumes "sz < 2 ^ 31"
  shows "(of_nat sz OR 0x80000000 :: u32) AND 0x80000000 \<noteq> 0" "(of_nat sz OR 0x80000000 :: u32) AND NOT 0x80000000 = of_nat sz"
proof -
  have c: "(0x80000000 :: u32) = 2 ^ 31" by simp
  have "bit sz n \<Longrightarrow> n < 31" for n using assms by (metis bit_take_bit_iff take_bit_nat_eq_self)
  then have b: "bit (of_nat sz :: u32) n \<Longrightarrow> n < 31" for n by (simp add: bit_of_nat_iff)
  have "bit ((of_nat sz OR 2 ^ 31 :: u32) AND 2 ^ 31) 31" by (simp only: bit_and_iff bit_or_iff bit_exp_iff) simp
  then show "(of_nat sz OR 0x80000000 :: u32) AND 0x80000000 \<noteq> 0" unfolding c by (metis bit_0_eq bot_apply bot_bool_def)
  show "(of_nat sz OR 0x80000000 :: u32) AND NOT 0x80000000 = of_nat sz" unfolding c
    by (rule bit_word_eqI) (use b in \<open>auto simp only: bit_and_iff bit_or_iff bit_not_iff bit_exp_iff possible_bit_word\<close>)
qed

lemma free_val:
  assumes "heap_inv env s (xs @ (sz, True) # ys)"
  shows "\<exists>s'. vPortFree env (heap_base env + tot xs + 8) s = Some s' \<and> heap_inv env s' (release xs sz ys) \<and>
    xNumberOfSuccessfulFrees s' = xNumberOfSuccessfulFrees s + 1"
proof -
  let ?a = "heap_base env" and ?e = "pxEnd s"
  define b where "b = ?a + tot xs"
  note D = heap_invD[OF assms]
  note inv = heap_inv_parts[OF assms]
  have ch: "chain0 {} (hdrs s) (xStart env) 0 ?a xs (first_free (b + sz) ys ?e)" "chain {} (hdrs s) (b + sz) ys ?e"
    and hb: "hdrs s b = Some \<lparr>pxNextFreeBlock = 0, xBlockSize = of_nat sz OR 0x80000000\<rparr>"
    using inv(1) by (simp_all add: chain0_append b_def)
  have sz: "0 < sz" "pos xs" "pos ys" "sz < 2 ^ 31" "?e = b + sz + tot ys" "tot xs + sz + tot ys < 2 ^ 31" using D(4,5) inv by (simp_all add: b_def)
  let ?s = "s\<lparr>hdrs := (hdrs s)(b \<mapsto> \<lparr>pxNextFreeBlock = 0, xBlockSize = of_nat sz\<rparr>), xFreeBytesRemaining := xFreeBytesRemaining s + of_nat sz\<rparr>"
  have run: "vPortFree env (b + 8) s = do { s \<leftarrow> prvInsertBlockIntoFreeList env b ?s; Some (s\<lparr>xNumberOfSuccessfulFrees := xNumberOfSuccessfulFrees s + 1\<rparr>) }"
    using hb inv mark_bits[OF sz(4)] by (simp add: vPortFree_def)
  have st: "xStart env < ?a \<or> ?e < xStart env" "b \<noteq> xStart env" using D(3) sz(1,5) by (auto simp: b_def)
  have "chain0 {} (hdrs ?s) (xStart env) 0 ?a xs (first_free (b + sz) ys ?e)" "chain {} (hdrs ?s) (b + sz) ys ?e"
    using ch chain_frame[OF sz(2), of b ?a] chain_frame[OF sz(3), of b "b + sz"] st(2) sz(1) by (simp_all add: chain0_def b_def)
  from insert_val[OF this _ b_def _ sz(5,2,3,1,6) st(1)] obtain m where
    m: "prvInsertBlockIntoFreeList env b ?s = Some (?s\<lparr>hdrs := m\<rparr>)" "chain0 {} m (xStart env) 0 ?a (release xs sz ys) ?e"
    "\<forall>x. x \<noteq> last_free (xStart env) ?a xs \<and> x \<noteq> b \<longrightarrow> m x = hdrs ?s x" by auto
  have "m ?e = hdrs s ?e" using m(3) last_free_range[OF sz(2), of "xStart env" ?a] st(1) sz(1,5) by (auto simp: b_def)
  moreover note rp = release_props[OF inv(5,6)]
  ultimately have "heap_inv env (?s\<lparr>hdrs := m, xNumberOfSuccessfulFrees := xNumberOfSuccessfulFrees s + 1\<rparr>) (release xs sz ys)"
    using m(2) inv rp by (simp add: heap_inv_def ac_simps)
  then show ?thesis unfolding b_def[symmetric] run m(1) by simp
qed

section \<open>Allocation\<close>

text \<open>First fit.\<close>

fun first_fit :: "nat \<Rightarrow> blocks \<Rightarrow> (blocks \<times> nat \<times> blocks) option" where
  "first_fit w [] = None"
| "first_fit w ((sz, used) # bs) =
     (if \<not> used \<and> w \<le> sz then Some ([], sz, bs)
      else map_option (\<lambda>(xs, t, ys). ((sz, used) # xs, t, ys)) (first_fit w bs))"

definition alloc :: "nat \<Rightarrow> nat \<Rightarrow> blocks \<Rightarrow> (nat \<times> blocks) option" where
  "alloc a w bs =
     (case first_fit w bs of
        None \<Rightarrow> None
      | Some (xs, sz, ys) \<Rightarrow> Some (a + tot xs + 8, if sz - w > 16 then xs @ (w, True) # (sz - w, False) # ys else xs @ (sz, True) # ys))"

lemma first_fit_Some: "first_fit w bs = Some (xs, sz, ys) \<Longrightarrow> bs = xs @ (sz, False) # ys \<and> w \<le> sz \<and> first_fit w xs = None"
  by (induction w bs arbitrary: xs rule: first_fit.induct) (auto split: if_splits)

lemma first_fit_None: "first_fit w bs = None \<longleftrightarrow> (\<forall>(sz, used) \<in> set bs. used \<or> sz < w)"
  by (induction w bs rule: first_fit.induct) auto

lemma find_block_val:
  assumes "chain U m a bs e" "m e = Some \<lparr>pxNextFreeBlock = 0, xBlockSize = 0\<rparr>" "pos bs" "a + tot bs \<le> e" "0 < a" "0 < w" "tot bs < 2 ^ 32"
  shows "find_block m w st (first_free a bs e) =
    (case first_fit (unat w) bs of None \<Rightarrow> Some (last_free st a bs, e) | Some (xs, sz, ys) \<Rightarrow> Some (last_free st a xs, a + tot xs))"
  using assms(1,3-5,7)
proof (induction bs arbitrary: st a)
  case Nil
  then show ?case using assms(2,6) by (subst find_block.simps) simp
next
  case (Cons x bs)
  obtain sz used where x: "x = (sz, used)" by fastforce
  have IH: "find_block m w st' (first_free (a + sz) bs e) = (case first_fit (unat w) bs of None \<Rightarrow> Some (last_free st' (a + sz) bs, e)
      | Some (xs, t, ys) \<Rightarrow> Some (last_free st' (a + sz) xs, a + sz + tot xs))" for st'
    using Cons.IH[of "a + sz" st'] Cons.prems x by simp
  have sz: "unat (of_nat sz :: u32) = sz" using Cons.prems(5) x by (simp add: unat_of_nat)
  have cmp: "of_nat sz < w \<longleftrightarrow> sz < unat w" using sz by (simp add: word_less_nat_alt)
  show ?case
  proof (cases used)
    case True
    then show ?thesis using IH[of st] x by (auto split: option.splits simp: ac_simps)
  next
    case False
    then have h: "m a = Some \<lparr>pxNextFreeBlock = first_free (a + sz) bs e, xBlockSize = of_nat sz\<rparr>" using Cons.prems(1) x by simp
    have "0 < first_free (a + sz) bs e" using first_free_range[of bs "a + sz" e] Cons.prems x by auto
    then show ?thesis using IH[of a] x False h cmp by (subst find_block.simps) (auto split: option.splits simp: ac_simps)
  qed
qed

lemma chain_mono: "chain {} m a bs e \<Longrightarrow> chain U m a bs e"
  by (induction U m a bs e rule: chain.induct) (auto split: if_splits)

lemma chain_unmark: "pos bs \<Longrightarrow> b < a \<or> a + tot bs \<le> b \<Longrightarrow> chain {b} m a bs e \<longleftrightarrow> chain {} m a bs e"
proof (induction "{b}" m a bs e rule: chain.induct)
  case (2 m a sz used bs e)
  then show ?case by (cases used) auto
qed simp

lemma chain0_mark:
  assumes "chain0 {b} m st z a (xs @ (n, True) # zs) e" "b = a + tot xs" "pos xs" "pos zs" "0 < n" "b \<noteq> st"
  shows "chain0 {} (m(b \<mapsto> \<lparr>pxNextFreeBlock = 0, xBlockSize = of_nat n OR 0x80000000\<rparr>)) st z a (xs @ (n, True) # zs) e"
  using assms chain_unmark[OF assms(3), of b a] chain_unmark[OF assms(4), of b "b + n"] chain_frame[OF assms(3), of b a] chain_frame[OF assms(4), of b "b + n"]
  by (simp add: chain0_def)

lemma release_none: "merged ((sz, False) # ys) \<Longrightarrow> release (xs @ [(n, True)]) t ys = xs @ (n, True) # (t, False) # ys"
  by (cases ys rule: list.exhaust; cases "hd ys") (auto simp: release_def merge_left_def)

text \<open>The last part of \<^verbatim>\<open>pvPortMalloc\<close>: the counters and the mark.\<close>

definition finish :: "nat \<Rightarrow> u32 \<Rightarrow> headers \<Rightarrow> heap4 \<Rightarrow> heap4" where
  "finish b k m s =
     (let s = s\<lparr>hdrs := m, xFreeBytesRemaining := xFreeBytesRemaining s - k\<rparr>;
          s = (if xFreeBytesRemaining s < xMinimumEverFreeBytesRemaining s then s\<lparr>xMinimumEverFreeBytesRemaining := xFreeBytesRemaining s\<rparr> else s)
      in s\<lparr>hdrs := m(b \<mapsto> \<lparr>pxNextFreeBlock = 0, xBlockSize = k OR xBlockAllocatedBit s\<rparr>), xNumberOfSuccessfulAllocations := xNumberOfSuccessfulAllocations s + 1\<rparr>)"

lemma finish_simps:
  "hdrs (finish b k m s) = m(b \<mapsto> \<lparr>pxNextFreeBlock = 0, xBlockSize = k OR xBlockAllocatedBit s\<rparr>)" "pxEnd (finish b k m s) = pxEnd s"
  "xFreeBytesRemaining (finish b k m s) = xFreeBytesRemaining s - k" "xBlockAllocatedBit (finish b k m s) = xBlockAllocatedBit s"
  "xNumberOfSuccessfulAllocations (finish b k m s) = xNumberOfSuccessfulAllocations s + 1"
  by (simp_all add: finish_def Let_def)

lemma finish_inv:
  assumes "heap_inv env s bs0" "chain0 {} (m(b \<mapsto> \<lparr>pxNextFreeBlock = 0, xBlockSize = of_nat k OR 0x80000000\<rparr>)) (xStart env) 0 (heap_base env) bs (pxEnd s)"
    "m (pxEnd s) = hdrs s (pxEnd s)" "tot bs = tot bs0" "sizes_ok bs" "merged bs" "k + free_tot bs = free_tot bs0" "b \<noteq> pxEnd s"
  shows "heap_inv env (finish b (of_nat k) m s) bs"
proof -
  note inv = heap_inv_parts[OF assms(1)]
  have "xFreeBytesRemaining s - of_nat k = of_nat (free_tot bs)" unfolding inv(7) assms(7)[symmetric] by simp
  then show ?thesis unfolding heap_inv_def finish_simps inv(8) using assms(2-6,8) inv(2,3,4,9) by simp
qed

lemma take_cases:
  assumes "hdrs s l = Some p" "pxNextFreeBlock p = b" "hdrs s b = Some bl" "l \<noteq> b" "m1 = (hdrs s)(l \<mapsto> p\<lparr>pxNextFreeBlock := pxNextFreeBlock bl\<rparr>)"
  shows "\<not> xBlockSize bl - w > 16 \<Longrightarrow> take_block env w l b s = Some (b + 8, finish b (xBlockSize bl) m1 s)"
    "xBlockSize bl - w > 16 \<Longrightarrow> (b + unat w) mod 8 = 0 \<Longrightarrow>
     prvInsertBlockIntoFreeList env (b + unat w) (s\<lparr>hdrs := set_size b w (set_size (b + unat w) (xBlockSize bl - w) m1)\<rparr>) = Some (s\<lparr>hdrs := m\<rparr>) \<Longrightarrow>
     m b = Some \<lparr>pxNextFreeBlock = x, xBlockSize = w\<rparr> \<Longrightarrow> take_block env w l b s = Some (b + 8, finish b w m s)"
  using assms by (simp_all add: take_block_def finish_def Let_def)

text \<open>Taking the block out of the list.\<close>

lemma unlink_val:
  assumes "heap_inv env s (xs @ (sz, False) # ys)" "b = heap_base env + tot xs" "l = last_free (xStart env) (heap_base env) xs"
    "f = first_free (b + sz) ys (pxEnd s)" "m1 = (hdrs s)(l \<mapsto> \<lparr>pxNextFreeBlock = f, xBlockSize = last_size 0 xs\<rparr>)"
  shows "hdrs s l = Some \<lparr>pxNextFreeBlock = b, xBlockSize = last_size 0 xs\<rparr>" "hdrs s b = Some \<lparr>pxNextFreeBlock = f, xBlockSize = of_nat sz\<rparr>" "l \<noteq> b"
    "l = xStart env \<or> heap_base env \<le> l \<and> l < b" "chain0 {} m1 (xStart env) 0 (heap_base env) xs f" "chain {} m1 (b + sz) ys (pxEnd s)"
    "m1 b = hdrs s b" "m1 (pxEnd s) = hdrs s (pxEnd s)" "b \<noteq> xStart env" "pxEnd s = b + sz + tot ys" "pos xs" "pos ys" "0 < sz" "tot xs + sz + tot ys < 2 ^ 31"
proof -
  let ?a = "heap_base env" and ?e = "pxEnd s" and ?st = "xStart env"
  note D = heap_invD[OF assms(1)] and inv = heap_inv_parts[OF assms(1)]
  show sz: "?e = b + sz + tot ys" "pos xs" "pos ys" "0 < sz" "tot xs + sz + tot ys < 2 ^ 31" using D(4,5) inv(3) assms(2) by simp_all
  have st: "?st < ?a \<or> ?e < ?st" using D(3) .
  show bst: "b \<noteq> ?st" using st sz assms(2) by auto
  have ch: "chain0 {} (hdrs s) ?st 0 ?a xs b" "chain {} (hdrs s) (b + sz) ys ?e" using inv(1) assms(2,4) by (simp_all add: chain0_append)
  show "hdrs s b = Some \<lparr>pxNextFreeBlock = f, xBlockSize = of_nat sz\<rparr>" using inv(1) assms(2,4) by (simp add: chain0_append)
  show "hdrs s l = Some \<lparr>pxNextFreeBlock = b, xBlockSize = last_size 0 xs\<rparr>" using chain0_last[OF ch(1)] by (simp add: assms(3))
  show lb: "l \<noteq> b" "l = ?st \<or> ?a \<le> l \<and> l < b" using last_free_range[OF sz(2), of ?st ?a] bst assms(2,3) by auto
  have "?st < ?a \<or> ?a + tot xs \<le> ?st" using st sz(1) assms(2) by auto
  then show "chain0 {} m1 ?st 0 ?a xs f" unfolding assms(3,5) by (rule relink[OF ch(1) sz(2)])
  have "l < b + sz \<or> b + sz + tot ys \<le> l" "l \<noteq> ?e" using lb st sz(1,4) assms(2) by auto
  then show "chain {} m1 (b + sz) ys ?e" "m1 b = hdrs s b" "m1 ?e = hdrs s ?e" using ch(2) chain_frame[OF sz(3)] lb(1) by (simp_all add: assms(5))
qed

lemma take_whole:
  assumes "heap_inv env s (xs @ (sz, False) # ys)" "unat w \<le> sz" "\<not> sz - unat w > 16"
  shows "\<exists>s'. take_block env w (last_free (xStart env) (heap_base env) xs) (heap_base env + tot xs) s = Some (heap_base env + tot xs + 8, s') \<and>
    heap_inv env s' (xs @ (sz, True) # ys) \<and> xNumberOfSuccessfulAllocations s' = xNumberOfSuccessfulAllocations s + 1"
proof -
  define b where "b = heap_base env + tot xs"
  define l where "l = last_free (xStart env) (heap_base env) xs"
  define f where "f = first_free (b + sz) ys (pxEnd s)"
  define m1 where "m1 = (hdrs s)(l \<mapsto> \<lparr>pxNextFreeBlock = f, xBlockSize = last_size 0 xs\<rparr>)"
  note u = unlink_val[OF assms(1) b_def l_def f_def m1_def]
  note inv = heap_inv_parts[OF assms(1)]
  have k: "unat (of_nat sz - w) = sz - unat w"
    using assms(2) u(14) by (simp add: unat_sub word_le_nat_alt unat_of_nat)
  have "take_block env w l b s = Some (b + 8, finish b (of_nat sz) m1 s)"
    using take_cases(1)[OF u(1) _ u(2,3), of m1 w env] k assms(3) by (simp add: m1_def word_less_nat_alt)
  moreover have "heap_inv env (finish b (of_nat sz) m1 s) (xs @ (sz, True) # ys)"
  proof (rule finish_inv[OF assms(1) chain0_mark[of b, OF _ b_def u(11,12,13,9)]])
    show "chain0 {b} m1 (xStart env) 0 (heap_base env) (xs @ (sz, True) # ys) (pxEnd s)"
      using u(5,6) chain_mono[of m1] by (simp add: chain0_append chain0_def b_def f_def)
    show "merged (xs @ (sz, True) # ys)" using inv(5) by (auto simp: merged_append merged_Cons)
  qed (use u(8,10,13) inv(6) in simp_all)
  ultimately show ?thesis unfolding b_def l_def finish_simps by (intro exI conjI) (assumption | simp add: finish_simps)+
qed

lemma split_insert:
  assumes "heap_inv env s (xs @ (sz, False) # ys)" "b = heap_base env + tot xs" "l = last_free (xStart env) (heap_base env) xs"
    "f = first_free (b + sz) ys (pxEnd s)" "m1 = (hdrs s)(l \<mapsto> \<lparr>pxNextFreeBlock = f, xBlockSize = last_size 0 xs\<rparr>)" "0 < n" "n < sz"
    "m2 = set_size b w (set_size (b + n) (of_nat (sz - n)) m1)"
  shows "\<exists>m. prvInsertBlockIntoFreeList env (b + n) (s\<lparr>hdrs := m2\<rparr>) = Some (s\<lparr>hdrs := m\<rparr>) \<and>
    chain0 {b} m (xStart env) 0 (heap_base env) (xs @ (n, True) # (sz - n, False) # ys) (pxEnd s) \<and>
    m b = Some \<lparr>pxNextFreeBlock = f, xBlockSize = w\<rparr> \<and> m (pxEnd s) = hdrs s (pxEnd s)"
proof -
  note u = unlink_val[OF assms(1-5)]
  note inv = heap_inv_parts[OF assms(1)] and D = heap_invD[OF assms(1)]
  have b2: "b + n + (sz - n) = b + sz" using assms(7) by simp
  have m2: "m2 = m1(b + n := m2 (b + n), b \<mapsto> \<lparr>pxNextFreeBlock = f, xBlockSize = w\<rparr>)"
    "\<exists>x. m2 (b + n) = Some \<lparr>pxNextFreeBlock = x, xBlockSize = of_nat (sz - n)\<rparr>"
    using u(2,7) assms(6) by (auto simp: assms(8) set_size_def split: option.splits intro!: block_link.equality ext)
  have st: "xStart env \<noteq> b + n" using D(3) u(10) assms(7) by (auto simp: assms(2))
  have "chain0 {b} m2 (xStart env) 0 (heap_base env) xs f"
    using u(5) chain_mono[of m1] chain_frame[OF u(11), of "b + n" "heap_base env"] chain_frame[OF u(11), of b "heap_base env"] st u(9)
    by (subst m2(1)) (simp add: chain0_def assms(2))
  then have 1: "chain0 {b} m2 (xStart env) 0 (heap_base env) (xs @ [(n, True)]) f" by (simp add: chain0_append assms(2))
  have 2: "chain {b} m2 (b + n + (sz - n)) ys (pxEnd s)"
    unfolding b2 using chain_mono[OF u(6)] chain_frame[OF u(12), of "b + n" "b + sz"] chain_frame[OF u(12), of b "b + sz"] assms(6,7)
    by (subst m2(1)) simp
  have r: "release (xs @ [(n, True)]) (sz - n) ys = xs @ (n, True) # (sz - n, False) # ys" "last_free (xStart env) (heap_base env) (xs @ [(n, True)]) = l"
    using inv(5) by (intro release_none[of sz]) (simp_all add: merged_append assms(3))
  obtain x where x: "m2 (b + n) = Some \<lparr>pxNextFreeBlock = x, xBlockSize = of_nat (sz - n)\<rparr>" using m2(2) by blast
  have "\<exists>m. prvInsertBlockIntoFreeList env (b + n) (s\<lparr>hdrs := m2\<rparr>) = Some (s\<lparr>hdrs := m2, hdrs := m\<rparr>) \<and>
      chain0 {b} m (xStart env) 0 (heap_base env) (release (xs @ [(n, True)]) (sz - n) ys) (pxEnd s) \<and>
      (\<forall>x. x \<noteq> last_free (xStart env) (heap_base env) (xs @ [(n, True)]) \<and> x \<noteq> b + n \<longrightarrow> m x = hdrs (s\<lparr>hdrs := m2\<rparr>) x)"
    by (rule insert_val[OF _ _ _ _ _ _ _ u(12)])
      (use 1 2 x D(3) u(10,11,14) assms(6,7) in \<open>simp_all add: assms(4) b2 assms(2) add.assoc\<close>)
  then obtain m where m: "prvInsertBlockIntoFreeList env (b + n) (s\<lparr>hdrs := m2\<rparr>) = Some (s\<lparr>hdrs := m\<rparr>)"
    "chain0 {b} m (xStart env) 0 (heap_base env) (xs @ (n, True) # (sz - n, False) # ys) (pxEnd s)" "\<forall>x. x \<noteq> l \<and> x \<noteq> b + n \<longrightarrow> m x = m2 x"
    unfolding r by auto
  have "pxEnd s \<noteq> l" "pxEnd s \<noteq> b + n" "pxEnd s \<noteq> b" using u(4,10) D(3) assms(6,7) by (auto simp: assms(2))
  then have "m (pxEnd s) = m2 (pxEnd s)" "m2 (pxEnd s) = m1 (pxEnd s)" using m(3) by (simp, subst m2(1), simp)
  moreover have "m b = m2 b" using m(3) u(3) assms(6) by auto
  then have "m b = Some \<lparr>pxNextFreeBlock = f, xBlockSize = w\<rparr>" by (subst (asm) m2(1)) simp
  ultimately show ?thesis using m u(8) by metis
qed

lemma take_split:
  assumes "heap_inv env s (xs @ (sz, False) # ys)" "0 < w" "unat w mod 8 = 0" "unat w \<le> sz" "sz - unat w > 16"
  shows "\<exists>s'. take_block env w (last_free (xStart env) (heap_base env) xs) (heap_base env + tot xs) s = Some (heap_base env + tot xs + 8, s') \<and>
    heap_inv env s' (xs @ (unat w, True) # (sz - unat w, False) # ys) \<and> xNumberOfSuccessfulAllocations s' = xNumberOfSuccessfulAllocations s + 1"
proof -
  define n where "n = unat w"
  define b where "b = heap_base env + tot xs"
  define l where "l = last_free (xStart env) (heap_base env) xs"
  define f where "f = first_free (b + sz) ys (pxEnd s)"
  define m1 where "m1 = (hdrs s)(l \<mapsto> \<lparr>pxNextFreeBlock = f, xBlockSize = last_size 0 xs\<rparr>)"
  define m2 where "m2 = set_size b w (set_size (b + n) (of_nat (sz - n)) m1)"
  note u = unlink_val[OF assms(1) b_def l_def f_def m1_def]
  note inv = heap_inv_parts[OF assms(1)] and D = heap_invD[OF assms(1)]
  have n: "0 < n" "n mod 8 = 0" "n \<le> sz" "16 < sz - n" "n < sz" using assms(2-5) by (simp_all add: n_def word_less_nat_alt)
  obtain m where m: "prvInsertBlockIntoFreeList env (b + n) (s\<lparr>hdrs := m2\<rparr>) = Some (s\<lparr>hdrs := m\<rparr>)"
    "chain0 {b} m (xStart env) 0 (heap_base env) (xs @ (n, True) # (sz - n, False) # ys) (pxEnd s)"
    "m b = Some \<lparr>pxNextFreeBlock = f, xBlockSize = w\<rparr>" "m (pxEnd s) = hdrs s (pxEnd s)"
    using split_insert[OF assms(1) b_def l_def f_def m1_def n(1,5) m2_def] by blast
  have szs: "sz mod 8 = 0" "tot xs mod 8 = 0" using inv(6) sizes_tot[of xs] by simp_all
  have k: "unat (of_nat sz - w) = sz - n" using n(3) u(14) by (simp add: unat_sub word_le_nat_alt unat_of_nat n_def)
  have k': "of_nat sz - w = of_nat (sz - n)" using n(3) by (simp add: n_def of_nat_diff)
  have al: "(b + n) mod 8 = 0" using D(2) szs(2) n(2) by (simp add: b_def mod_add_eq[symmetric])
  have "take_block env w l b s = Some (b + 8, finish b w m s)"
    using take_cases(2)[OF u(1) _ u(2,3), of m1 w env m f] k assms(5) m(1,3) al unfolding m2_def k' by (simp add: m1_def word_less_nat_alt n_def)
  moreover have "heap_inv env (finish b (of_nat n) m s) (xs @ (n, True) # (sz - n, False) # ys)"
  proof (rule finish_inv[OF assms(1) chain0_mark[OF m(2) b_def u(11) _ n(1) u(9)] m(4)])
    show "merged (xs @ (n, True) # (sz - n, False) # ys)" using inv(5) by (auto simp: merged_append merged_Cons)
    show "sizes_ok (xs @ (n, True) # (sz - n, False) # ys)" using inv(6) n szs by (auto simp: mod_diff_eq)
  qed (use u(8,10,12,13) n in simp_all)
  moreover have "of_nat n = w" by (simp add: n_def)
  ultimately show ?thesis unfolding b_def l_def n_def by (intro exI conjI) (assumption | simp add: finish_simps)+
qed

lemma top_bit_clear: "w AND 0x80000000 = 0 \<longleftrightarrow> unat (w :: u32) < 2 ^ 31"
proof -
  have c: "(0x80000000 :: u32) = 2 ^ 31" by simp
  have "w AND 2 ^ 31 = 0 \<longleftrightarrow> \<not> bit w 31" by (rule and_exp_eq_0_iff_not_bit)
  also have "\<dots> \<longleftrightarrow> \<not> bit (unat w) 31" by (simp only: bit_unsigned_iff) simp
  also have "\<dots> \<longleftrightarrow> unat w < 2 ^ 31"
  proof -
    have "unat w < 2 ^ 32" using unsigned_less[of w] by simp
    then have "unat w div 2 ^ 31 < 2" by simp
    then have "odd (unat w div 2 ^ 31) \<longleftrightarrow> unat w div 2 ^ 31 \<noteq> 0" by (auto simp: less_2_cases_iff)
    then show ?thesis by (simp add: bit_iff_odd div_eq_0_iff)
  qed
  finally show ?thesis unfolding c .
qed

lemma wanted_size_val:
  assumes "0 < w" "unat w < 2 ^ 31"
  shows "unat (wanted_size w) = 8 * ((unat w + 15) div 8)"
proof -
  have a: "unat (w + 8) = unat w + 8" using assms(2) by (subst unat_add_lem[THEN iffD1]) simp_all
  have c: "(7 :: u32) = mask 3" "(7 :: nat) = mask 3" by (simp_all add: mask_eq_exp_minus_1)
  have b: "unat (w + 8 AND 7) = (unat w + 8) mod 8"
    unfolding c(1) using a by (simp add: take_bit_eq_mask[symmetric] unsigned_take_bit_eq take_bit_eq_mod unat_mod_distrib)
  define q r where "q = unat w div 8" and "r = unat w mod 8"
  have qr: "unat w = 8 * q + r" "r < 8" by (simp_all add: q_def r_def)
  have b': "unat (w + 8 AND 7) = r" using b by (simp add: r_def)
  have d: "unat (8 - (w + 8 AND 7)) = 8 - r" using b' qr(2) by (subst unat_sub) (simp_all add: word_le_nat_alt)
  have e: "unat (w + 8 + (8 - (w + 8 AND 7))) = unat w + 8 + (8 - r)"
    using assms(2) by (subst unat_add_lem[THEN iffD1]) (simp_all only: a d, simp)
  have z: "w + 8 AND 7 = 0 \<longleftrightarrow> r = 0" unfolding b'[symmetric] by (simp only: unat_eq_0)
  have l: "w < w + 8" "w + 8 < w + 8 + (8 - (w + 8 AND 7))" unfolding word_less_nat_alt e a using qr(2) by simp_all
  show ?thesis
  proof (cases "r = 0")
    case True
    have "wanted_size w = w + 8" using True z l assms(1) by (simp only: wanted_size_def Let_def) simp
    moreover have "8 * ((unat w + 15) div 8) = unat w + 8" using qr(1) True by simp
    ultimately show ?thesis using a by simp
  next
    case False
    have "wanted_size w = w + 8 + (8 - (w + 8 AND 7))" using False z l assms(1) by (simp only: wanted_size_def Let_def) simp
    moreover have "(8 * q + r + 15) div 8 = q + 2" using False qr(2) by linarith
    ultimately show ?thesis using e qr by simp
  qed
qed

definition request :: "u32 \<Rightarrow> nat" where
  "request w = 8 * ((unat w + 15) div 8)"

definition malloc_spec :: "nat \<Rightarrow> u32 \<Rightarrow> blocks \<Rightarrow> (nat \<times> blocks) option" where
  "malloc_spec a w bs = (if w = 0 \<or> 2 ^ 31 \<le> unat w then None else alloc a (request w) bs)"

lemma first_fit_free_tot: "first_fit w bs = Some r \<Longrightarrow> w \<le> free_tot bs"
  by (induction w bs arbitrary: r rule: first_fit.induct) (fastforce split: if_splits)+

lemma malloc_val:
  assumes "heap_inv env s bs"
  shows "case malloc_spec (heap_base env) w bs of
      None \<Rightarrow> pvPortMalloc env w s = Some (0, s)
    | Some (p, bs') \<Rightarrow> \<exists>s'. pvPortMalloc env w s = Some (p, s') \<and> heap_inv env s' bs' \<and>
        xNumberOfSuccessfulAllocations s' = xNumberOfSuccessfulAllocations s + 1"
proof -
  note inv = heap_inv_parts[OF assms] and D = heap_invD[OF assms]
  have e: "pxEnd s \<noteq> 0" using D(1) inv(3) by simp
  define v where "v = wanted_size w"
  consider (none) "w = 0 \<or> 2 ^ 31 \<le> unat w" | (go) "0 < w" "unat w < 2 ^ 31" by (metis not_le word_gt_0)
  then show ?thesis
  proof cases
    case none
    have "wanted_size 0 = 0" by (simp add: wanted_size_def)
    then have "pvPortMalloc env w s = Some (0, s)" using none e inv(8) top_bit_clear[of w] by (auto simp: pvPortMalloc_def)
    then show ?thesis using none by (simp add: malloc_spec_def)
  next
    case go
    have w: "w \<noteq> 0" using go(1) by auto
    have v: "unat v = request w" "0 < v" "unat v mod 8 = 0" using wanted_size_val[OF go] by (simp_all add: v_def request_def word_less_nat_alt)
    have ft: "unat (xFreeBytesRemaining s) = free_tot bs" using inv(7) free_tot_le[of bs] D(4) by (simp add: unat_of_nat)
    have c: "hdrs s (xStart env) = Some \<lparr>pxNextFreeBlock = first_free (heap_base env) bs (pxEnd s), xBlockSize = 0\<rparr>" "chain {} (hdrs s) (heap_base env) bs (pxEnd s)"
      using inv(1) by (simp_all add: chain0_def)
    have fb: "find_block (hdrs s) v (xStart env) (first_free (heap_base env) bs (pxEnd s)) =
      (case first_fit (unat v) bs of None \<Rightarrow> Some (last_free (xStart env) (heap_base env) bs, pxEnd s)
       | Some (xs, sz, ys) \<Rightarrow> Some (last_free (xStart env) (heap_base env) xs, heap_base env + tot xs))"
      using find_block_val[OF c(2) inv(4) D(5) _ D(1) v(2)] inv(3) D(4) by simp
    have run: "pvPortMalloc env w s = do { (pvReturn, s) \<leftarrow> (if unat v \<le> free_tot bs then do {
         (p, b) \<leftarrow> find_block (hdrs s) v (xStart env) (first_free (heap_base env) bs (pxEnd s));
         if b \<noteq> pxEnd s then take_block env v p b s else Some (0, s) } else Some (0, s));
       if pvReturn mod 8 \<noteq> 0 then None else Some (pvReturn, s) }"
      using e inv(8) top_bit_clear[of w] go v(2) c(1) ft by (simp add: pvPortMalloc_def v_def[symmetric] Let_def word_le_nat_alt)
    show ?thesis
    proof (cases "first_fit (unat v) bs")
      case None
      then show ?thesis using go w v(1) fb run by (simp add: malloc_spec_def alloc_def)
    next
      case (Some r)
      obtain xs sz ys where r: "r = (xs, sz, ys)" by (metis prod_cases3)
      note ff = first_fit_Some[OF Some[unfolded r]]
      have i: "heap_inv env s (xs @ (sz, False) # ys)" using assms ff by simp
      have al: "(heap_base env + tot xs + 8) mod 8 = 0" using D(2) sizes_tot[of xs] inv(6) ff by (simp add: mod_add_eq[symmetric])
      have ne: "heap_base env + tot xs \<noteq> pxEnd s" using inv(3,6) ff by auto
      have t: "\<exists>s'. take_block env v (last_free (xStart env) (heap_base env) xs) (heap_base env + tot xs) s = Some (heap_base env + tot xs + 8, s') \<and>
        heap_inv env s' (if sz - unat v > 16 then xs @ (unat v, True) # (sz - unat v, False) # ys else xs @ (sz, True) # ys) \<and>
        xNumberOfSuccessfulAllocations s' = xNumberOfSuccessfulAllocations s + 1"
        using take_split[OF i v(2,3)] take_whole[OF i] ff by simp
      then show ?thesis using go w v(1) fb run first_fit_free_tot[OF Some] ne al Some r by (auto simp: malloc_spec_def alloc_def)
    qed
  qed
qed

lemma heap_init_val:
  assumes "env_ok env"
  shows "0 < heap_size env" "heap_inv env (prvHeapInit env s) [(heap_size env, False)]"
proof -
  define q r where "q = ucHeap env div 8" and "r = ucHeap env mod 8"
  have u: "ucHeap env = 8 * q + r" "r < 8" by (simp_all add: q_def r_def)
  have "(8 * q + r + 7) div 8 = (if r = 0 then q else q + 1)" using u(2) by auto
  then have base: "heap_base env = (if r = 0 then 8 * q else 8 * (q + 1))" using u by (simp add: heap_base_def)
  have start: "(if ucHeap env mod 8 \<noteq> 0 then 8 * ((ucHeap env + 7) div 8) else ucHeap env) = heap_base env"
    using base u by (simp add: heap_base_def)
  have c: "(40952 + (8 * q + r)) div 8 = q + 5119" using u(2) by linarith
  then have sz: "heap_size env + heap_base env = 8 * q + 40952" "heap_size env = (if r = 0 then 40952 else 40944)" using u base by (simp_all add: heap_size_def add.commute)
  have e: "8 * ((heap_base env + (configTOTAL_HEAP_SIZE - (heap_base env - ucHeap env)) - 8) div 8) = heap_base env + heap_size env"
    using u base sz c by auto
  have st: "xStart env \<noteq> heap_base env" "xStart env \<noteq> heap_base env + heap_size env" "0 < heap_size env"
    using assms u base sz by (auto simp: env_ok_def split: if_splits)
  show "0 < heap_size env" using st(3) .
  show "heap_inv env (prvHeapInit env s) [(heap_size env, False)]" unfolding prvHeapInit_def start Let_def e heap_inv_def
    using assms st sz u by (auto simp: chain0_def)
qed

section \<open>Clients of the allocator\<close>

text \<open>
  A client allocates and frees one of the pieces it holds, in any order. It keeps the pointers it was given with the sizes it asked for.
\<close>

datatype heap_op = Malloc u32 | Free nat

fun heap_run :: "(u32 \<Rightarrow> 's \<Rightarrow> (nat \<times> 's) option) \<Rightarrow> (nat \<Rightarrow> 's \<Rightarrow> 's option) \<Rightarrow> heap_op list \<Rightarrow> 's \<Rightarrow> (nat \<times> u32) list \<Rightarrow> ('s \<times> (nat \<times> u32) list) option" where
  "heap_run malloc free [] s live = Some (s, live)"
| "heap_run malloc free (Malloc w # ops) s live = do {
     (p, s) \<leftarrow> malloc w s;
     heap_run malloc free ops s (if p = 0 then live else (p, w) # live)
   }"
| "heap_run malloc free (Free i # ops) s live =
     (if i < length live then do {
        s \<leftarrow> free (fst (live ! i)) s;
        heap_run malloc free ops s (take i live @ drop (Suc i) live)
      }
      else heap_run malloc free ops s live)"

definition holds :: "(nat \<times> nat) set \<Rightarrow> (nat \<times> u32) list \<Rightarrow> bool" where
  "holds L live \<longleftrightarrow> distinct (map fst live) \<and> fst ` set live = fst ` L \<and> (\<forall>(p, w) \<in> set live. \<exists>n. (p, n) \<in> L \<and> unat w \<le> n)"

lemma holds_perm: "holds L (xs @ x # ys) \<longleftrightarrow> holds L (x # xs @ ys)"
  by (auto simp: holds_def)

text \<open>What an allocator promises: the pieces in use, as addresses and sizes, lie apart.\<close>

locale allocator =
  fixes lo hi gap :: nat
    and inv :: "'s \<Rightarrow> (nat \<times> nat) set \<Rightarrow> bool"
    and malloc :: "u32 \<Rightarrow> 's \<Rightarrow> (nat \<times> 's) option"
    and free :: "nat \<Rightarrow> 's \<Rightarrow> 's option"
  assumes inside: "inv s L \<Longrightarrow> (p, n) \<in> L \<Longrightarrow> lo \<le> p \<and> p + n \<le> hi \<and> p mod 8 = 0"
    and apart: "inv s L \<Longrightarrow> (p, n) \<in> L \<Longrightarrow> (q, k) \<in> L \<Longrightarrow> p = q \<and> n = k \<or> p + n + gap \<le> q \<or> q + k + gap \<le> p"
    and sized: "inv s L \<Longrightarrow> (p, n) \<in> L \<Longrightarrow> 0 < n"
    and malloc: "inv s L \<Longrightarrow> \<exists>p s'. malloc w s = Some (p, s') \<and> (p = 0 \<and> inv s' L \<or> p \<noteq> 0 \<and> p \<notin> fst ` L \<and> (\<exists>n. unat w \<le> n \<and> inv s' (insert (p, n) L)))"
    and free: "inv s L \<Longrightarrow> (p, n) \<in> L \<Longrightarrow> \<exists>s'. free p s = Some s' \<and> inv s' (L - {(p, n)})"
begin

lemma unique: "inv s L \<Longrightarrow> (p, n) \<in> L \<Longrightarrow> (p, k) \<in> L \<Longrightarrow> n = k"
  using apart[of s L p n p k] sized by fastforce

lemma holds_free:
  assumes "inv s L" "holds L live" "i < length live"
  shows "\<exists>n. (fst (live ! i), n) \<in> L \<and> holds (L - {(fst (live ! i), n)}) (take i live @ drop (Suc i) live)"
proof -
  obtain p w where pw: "live ! i = (p, w)" by fastforce
  define zs where "zs = take i live @ drop (Suc i) live"
  have "holds L (take i live @ (p, w) # drop (Suc i) live)" using assms(2) id_take_nth_drop[OF assms(3)] pw by metis
  then have "holds L ((p, w) # zs)" by (simp only: holds_perm zs_def)
  then have h: "p \<notin> fst ` set zs" "distinct (map fst zs)" "insert p (fst ` set zs) = fst ` L" "\<exists>n. (p, n) \<in> L"
    "\<forall>(q, v) \<in> set zs. \<exists>k. (q, k) \<in> L \<and> unat v \<le> k"
    by (auto simp: holds_def)
  obtain n where n: "(p, n) \<in> L" using h(4) by blast
  have L: "(q, k) \<in> L - {(p, n)} \<longleftrightarrow> (q, k) \<in> L \<and> q \<noteq> p" for q k using unique[OF assms(1) n, of k] n by auto
  have "q \<in> fst ` (L - {(p, n)}) \<longleftrightarrow> q \<in> fst ` L \<and> q \<noteq> p" for q
  proof -
    have "q \<in> fst ` M \<longleftrightarrow> (\<exists>k. (q, k) \<in> M)" for M :: "(nat \<times> nat) set" by force
    then show ?thesis using L by simp
  qed
  then have "fst ` set zs = fst ` (L - {(p, n)})" unfolding set_eq_iff h(3)[symmetric] using h(1) by (metis insert_iff)
  moreover have "\<exists>k. (q, k) \<in> L - {(p, n)} \<and> unat v \<le> k" if "(q, v) \<in> set zs" for q v
  proof -
    have "q \<noteq> p" using h(1) that by (metis fst_conv image_eqI)
    then show ?thesis using h(5) that L by blast
  qed
  ultimately have "holds (L - {(p, n)}) zs" unfolding holds_def using h(2) by blast
  then show ?thesis using n pw unfolding zs_def by auto
qed

lemma run_holds: "inv s L \<Longrightarrow> holds L live \<Longrightarrow> \<exists>s' live' L'. heap_run malloc free ops s live = Some (s', live') \<and> inv s' L' \<and> holds L' live'"
proof (induction ops arbitrary: s L live)
  case (Cons op ops)
  show ?case
  proof (cases op)
    case (Malloc w)
    obtain p s' where m: "malloc w s = Some (p, s')" "p = 0 \<and> inv s' L \<or> p \<noteq> 0 \<and> p \<notin> fst ` L \<and> (\<exists>n. unat w \<le> n \<and> inv s' (insert (p, n) L))"
      using malloc[OF Cons.prems(1), of w] by blast
    have "\<exists>L'. inv s' L' \<and> holds L' (if p = 0 then live else (p, w) # live)"
    proof (cases "p = 0")
      case False
      then obtain n where "p \<notin> fst ` L" "unat w \<le> n" "inv s' (insert (p, n) L)" using m(2) by blast
      moreover from this have "holds (insert (p, n) L) ((p, w) # live)" using Cons.prems(2) by (fastforce simp: holds_def)
      ultimately show ?thesis using False by auto
    qed (use m Cons.prems in auto)
    then show ?thesis using Cons.IH m(1) Malloc by auto
  next
    case (Free i)
    show ?thesis
    proof (cases "i < length live")
      case True
      obtain n where n: "(fst (live ! i), n) \<in> L" "holds (L - {(fst (live ! i), n)}) (take i live @ drop (Suc i) live)"
        using holds_free[OF Cons.prems True] by blast
      obtain s' where "free (fst (live ! i)) s = Some s'" "inv s' (L - {(fst (live ! i), n)})" using free[OF Cons.prems(1) n(1)] by blast
      then show ?thesis using Cons.IH n(2) True Free by auto
    qed (use Cons Free in auto)
  qed
qed auto

theorem run_safe:
  assumes "inv s {}"
  shows "\<exists>s' live L. heap_run malloc free ops s [] = Some (s', live) \<and> inv s' L \<and> (live = [] \<longleftrightarrow> L = {}) \<and>
    (\<forall>(p, w) \<in> set live. p mod 8 = 0 \<and> lo \<le> p \<and> p + unat w \<le> hi) \<and>
    (\<forall>(p, w) \<in> set live. \<forall>(q, v) \<in> set live. (p, w) \<noteq> (q, v) \<longrightarrow> p + unat w + gap \<le> q \<or> q + unat v + gap \<le> p)"
proof -
  obtain s' live L where r: "heap_run malloc free ops s [] = Some (s', live)" "inv s' L" "holds L live"
    using run_holds[OF assms, of "[]" ops] by (auto simp: holds_def)
  have "p mod 8 = 0 \<and> lo \<le> p \<and> p + unat w \<le> hi" if "(p, w) \<in> set live" for p w
    using inside[OF r(2)] r(3) that unfolding holds_def by fastforce
  moreover have "p + unat w + gap \<le> q \<or> q + unat v + gap \<le> p" if a: "(p, w) \<in> set live" "(q, v) \<in> set live" "(p, w) \<noteq> (q, v)" for p w q v
  proof -
    have "p \<noteq> q" using r(3) a by (auto simp: holds_def dest: eq_key_imp_eq_value)
    moreover obtain n k where "(p, n) \<in> L" "unat w \<le> n" "(q, k) \<in> L" "unat v \<le> k" using r(3) a unfolding holds_def by blast
    ultimately show ?thesis using apart[OF r(2)] by fastforce
  qed
  moreover have "live = [] \<longleftrightarrow> L = {}" using r(3) by (auto simp: holds_def)
  ultimately show ?thesis using r(1,2) by (intro exI[of _ s'] exI[of _ live] exI[of _ L]) blast
qed

end

text \<open>The pieces in use: behind the headers of the used blocks.\<close>

fun pieces :: "nat \<Rightarrow> blocks \<Rightarrow> (nat \<times> nat) set" where
  "pieces a [] = {}"
| "pieces a ((sz, used) # bs) = (if used then {(a + 8, sz - 8)} else {}) \<union> pieces (a + sz) bs"

text \<open>A used block has room for its header.\<close>

definition roomy :: "blocks \<Rightarrow> bool" where
  "roomy bs \<longleftrightarrow> (\<forall>(sz, used) \<in> set bs. used \<longrightarrow> 8 < sz)"

lemma roomy_simps [simp]: "roomy []" "roomy ((sz, used) # bs) \<longleftrightarrow> (used \<longrightarrow> 8 < sz) \<and> roomy bs" "roomy (xs @ ys) \<longleftrightarrow> roomy xs \<and> roomy ys"
  by (auto simp: roomy_def)

lemma pieces_append [simp]: "pieces a (xs @ ys) = pieces a xs \<union> pieces (a + tot xs) ys"
  by (induction a xs rule: pieces.induct) (auto simp: ac_simps)

lemma pieces_range: "roomy bs \<Longrightarrow> (p, n) \<in> pieces a bs \<Longrightarrow> a + 8 \<le> p \<and> 0 < n \<and> p + n \<le> a + tot bs"
  by (induction a bs rule: pieces.induct) (fastforce split: if_splits)+

lemma pieces_aligned: "sizes_ok bs \<Longrightarrow> a mod 8 = 0 \<Longrightarrow> (p, n) \<in> pieces a bs \<Longrightarrow> p mod 8 = 0"
  by (induction a bs rule: pieces.induct) (fastforce split: if_splits simp: mod_add_eq[symmetric])+

lemma pieces_apart:
  "roomy bs \<Longrightarrow> (p, n) \<in> pieces a bs \<Longrightarrow> (q, k) \<in> pieces a bs \<Longrightarrow> p = q \<and> n = k \<or> p + n + 8 \<le> q \<or> q + k + 8 \<le> p"
proof (induction a bs rule: pieces.induct)
  case (2 a sz used bs)
  show ?case
  proof (cases "(p, n) \<in> pieces (a + sz) bs \<and> (q, k) \<in> pieces (a + sz) bs")
    case False
    then show ?thesis using 2(2-4) pieces_range[of bs p n "a + sz"] pieces_range[of bs q k "a + sz"] by (auto split: if_splits)
  qed (use 2 in simp)
qed simp

lemma pieces_split: "roomy bs \<Longrightarrow> (p, n) \<in> pieces a bs \<Longrightarrow> \<exists>xs ys. bs = xs @ (n + 8, True) # ys \<and> p = a + tot xs + 8"
proof (induction a bs rule: pieces.induct)
  case (2 a sz used bs)
  show ?case
  proof (cases "(p, n) \<in> pieces (a + sz) bs")
    case True
    then obtain xs ys where "bs = xs @ (n + 8, True) # ys" "p = a + sz + tot xs + 8" using 2 by auto
    then show ?thesis by (intro exI[of _ "(sz, used) # xs"] exI[of _ ys]) simp
  next
    case False
    then have "used" "p = a + 8" "sz = n + 8" using 2(2,3) by (auto split: if_splits)
    then show ?thesis by (intro exI[of _ "[]"] exI[of _ bs]) simp
  qed
qed simp

lemma pieces_release: "pieces a (release xs sz ys) = pieces a xs \<union> pieces (a + tot xs + sz) ys" "roomy (release xs sz ys) \<longleftrightarrow> roomy xs \<and> roomy ys"
proof -
  obtain xs' sz' where l: "merge_left xs sz = (xs', sz')" by fastforce
  obtain sz'' ys' where r: "merge_right sz' ys = (sz'', ys')" by fastforce
  have L: "pieces a xs' = pieces a xs" "roomy xs' \<longleftrightarrow> roomy xs" "tot xs' + sz' = tot xs + sz"
  proof (atomize (full), cases "xs \<noteq> [] \<and> \<not> snd (last xs)")
    case True
    then obtain zs t where "xs = zs @ [(t, False)]" by (metis append_butlast_last_id prod.collapse)
    then show "pieces a xs' = pieces a xs \<and> (roomy xs' \<longleftrightarrow> roomy xs) \<and> tot xs' + sz' = tot xs + sz" using l by (auto simp: merge_left_def)
  qed (use l in \<open>auto simp: merge_left_def\<close>)
  have "pieces (b + sz'') ys' = pieces (b + sz') ys" "roomy ys' \<longleftrightarrow> roomy ys" for b
    using r by (induction sz' ys rule: merge_right.induct) (auto simp: ac_simps)
  then show "pieces a (release xs sz ys) = pieces a xs \<union> pieces (a + tot xs + sz) ys" "roomy (release xs sz ys) \<longleftrightarrow> roomy xs \<and> roomy ys"
    using L(1,2) by (simp_all add: release_def l r) (metis L(3) add.assoc)
qed

lemma malloc_pieces:
  assumes "malloc_spec a w bs = Some (p, bs')" "roomy bs" "0 < a" "pos bs"
  shows "p \<noteq> 0 \<and> p \<notin> fst ` pieces a bs \<and> roomy bs' \<and> (\<exists>n. unat w \<le> n \<and> pieces a bs' = insert (p, n) (pieces a bs))"
proof -
  have w: "0 < unat w" using assms(1) by (auto simp: malloc_spec_def unat_gt_0 split: if_splits)
  have al: "alloc a (request w) bs = Some (p, bs')" using assms(1) by (simp add: malloc_spec_def split: if_splits)
  obtain xs sz ys where ff: "first_fit (request w) bs = Some (xs, sz, ys)" using al by (auto simp: alloc_def split: option.splits)
  note f = first_fit_Some[OF ff]
  have rq: "unat w + 8 \<le> request w" unfolding request_def by linarith
  have p: "p = a + tot xs + 8" "bs' = (if sz - request w > 16 then xs @ (request w, True) # (sz - request w, False) # ys else xs @ (sz, True) # ys)"
    using al ff by (simp_all add: alloc_def)
  have "p \<notin> fst ` pieces a bs"
  proof
    assume "p \<in> fst ` pieces a bs"
    then obtain n where "(p, n) \<in> pieces a xs \<or> (p, n) \<in> pieces (a + tot xs + sz) ys" using f by fastforce
    then show False using pieces_range[of xs p n a] pieces_range[of ys p n "a + tot xs + sz"] p f assms(2,4) by auto
  qed
  moreover have "pieces a bs' = insert (p, (if sz - request w > 16 then request w else sz) - 8) (pieces a bs)" using f p by (auto simp: ac_simps)
  moreover have "roomy bs'" "unat w \<le> (if sz - request w > 16 then request w else sz) - 8" using f p rq w assms(2) by auto
  ultimately show ?thesis using p(1) by (intro conjI exI[of _ "(if sz - request w > 16 then request w else sz) - 8"]) simp_all
qed

definition heap_rel :: "heap_env \<Rightarrow> heap4 \<Rightarrow> (nat \<times> nat) set \<Rightarrow> bool" where
  "heap_rel env s L \<longleftrightarrow> env_ok env \<and> (pxEnd s = 0 \<and> L = {} \<or> (\<exists>bs. heap_inv env s bs \<and> roomy bs \<and> L = pieces (heap_base env) bs))"

lemma malloc_init: "env_ok env \<Longrightarrow> pxEnd s = 0 \<Longrightarrow> pvPortMalloc env w s = pvPortMalloc env w (prvHeapInit env s)"
  using heap_invD(1)[OF heap_init_val(2), of env] heap_inv_parts(3)[OF heap_init_val(2), of env s] by (simp add: pvPortMalloc_def)

lemma heap_rel_inited: "heap_rel env s L \<Longrightarrow> \<exists>bs s'. heap_inv env s' bs \<and> roomy bs \<and> L = pieces (heap_base env) bs \<and> pvPortMalloc env w s = pvPortMalloc env w s'"
  using heap_init_val(2)[of env s] malloc_init[of env s w] unfolding heap_rel_def by fastforce

interpretation heap4: allocator "ucHeap env + 8" "ucHeap env + 40952" 8 "heap_rel env" "pvPortMalloc env" "vPortFree env" for env
proof
  fix s L p n q k w
  assume rel: "heap_rel env s L"
  show "ucHeap env + 8 \<le> p \<and> p + n \<le> ucHeap env + 40952 \<and> p mod 8 = 0" if pn: "(p, n) \<in> L"
  proof -
    obtain bs where bs: "heap_inv env s bs" "roomy bs" "L = pieces (heap_base env) bs" using rel pn by (auto simp: heap_rel_def)
    note D = heap_invD[OF bs(1)] and inv = heap_inv_parts[OF bs(1)]
    show ?thesis using pieces_range[OF bs(2), of p n "heap_base env"] pieces_aligned[OF inv(6) D(2), of p n] pn bs(3) D(6,7) inv(3) by auto
  qed
  show "p = q \<and> n = k \<or> p + n + 8 \<le> q \<or> q + k + 8 \<le> p" if "(p, n) \<in> L" "(q, k) \<in> L"
    using rel that pieces_apart[of _ p n "heap_base env" q k] unfolding heap_rel_def by blast
  show "0 < n" if "(p, n) \<in> L" using rel that pieces_range by (auto simp: heap_rel_def)
  show "\<exists>s'. vPortFree env p s = Some s' \<and> heap_rel env s' (L - {(p, n)})" if pn: "(p, n) \<in> L"
  proof -
    obtain bs where bs: "heap_inv env s bs" "roomy bs" "L = pieces (heap_base env) bs" "env_ok env" using rel pn by (auto simp: heap_rel_def)
    obtain xs ys where x: "bs = xs @ (n + 8, True) # ys" "p = heap_base env + tot xs + 8" using pieces_split[OF bs(2)] pn bs(3) by blast
    have "(p, n) \<notin> pieces (heap_base env) xs \<union> pieces (heap_base env + tot xs + (n + 8)) ys"
      using pieces_range[of xs p n "heap_base env"] pieces_range[of ys p n "heap_base env + tot xs + (n + 8)"] bs(2) x by auto
    then have "pieces (heap_base env) (release xs (n + 8) ys) = L - {(p, n)}" using bs(3) x by (auto simp: pieces_release)
    then show ?thesis using free_val[OF bs(1)[unfolded x(1)]] bs(2,4) x pieces_release(2)[of xs "n + 8" ys] by (fastforce simp: heap_rel_def)
  qed
next
  fix s L w
  assume "heap_rel env s L"
  then obtain bs s1 where bs: "heap_inv env s1 bs" "roomy bs" "L = pieces (heap_base env) bs" "pvPortMalloc env w s = pvPortMalloc env w s1"
    using heap_rel_inited by blast
  note D = heap_invD[OF bs(1)] and v = malloc_val[OF bs(1), of w]
  have e: "env_ok env" using bs(1) by (simp add: heap_inv_def)
  show "\<exists>p s'. pvPortMalloc env w s = Some (p, s') \<and>
    (p = 0 \<and> heap_rel env s' L \<or> p \<noteq> 0 \<and> p \<notin> fst ` L \<and> (\<exists>n. unat w \<le> n \<and> heap_rel env s' (insert (p, n) L)))"
  proof (cases "malloc_spec (heap_base env) w bs")
    case None
    then show ?thesis using v bs e by (auto simp: heap_rel_def)
  next
    case (Some r)
    then obtain p bs' where r: "malloc_spec (heap_base env) w bs = Some (p, bs')" by (cases r) auto
    obtain s' where s': "pvPortMalloc env w s1 = Some (p, s')" "heap_inv env s' bs'" using v r by auto
    obtain n where n: "p \<noteq> 0" "p \<notin> fst ` pieces (heap_base env) bs" "roomy bs'" "unat w \<le> n" "pieces (heap_base env) bs' = insert (p, n) (pieces (heap_base env) bs)"
      using malloc_pieces[OF r bs(2) D(1,5)] by blast
    have "heap_rel env s' (insert (p, n) L)" unfolding heap_rel_def using e s'(2) n(3,5) bs(3) by metis
    then show ?thesis using s'(1) bs(3,4) n(1,2,4) by auto
  qed
qed

section \<open>Statistics\<close>

definition free_sizes :: "blocks \<Rightarrow> nat list" where
  "free_sizes bs = map fst (filter (\<lambda>x. \<not> snd x) bs)"

lemma free_sizes_simps [simp]: "free_sizes [] = []" "free_sizes (x # bs) = (if snd x then free_sizes bs else fst x # free_sizes bs)"
  by (simp_all add: free_sizes_def)

fun stats_step :: "nat \<Rightarrow> u32 \<times> u32 \<times> u32 \<Rightarrow> u32 \<times> u32 \<times> u32" where
  "stats_step sz (n, mx, mn) = (n + 1, max mx (of_nat sz), min mn (of_nat sz))"

lemma first_free_end: "pos bs \<Longrightarrow> a + tot bs \<le> e \<Longrightarrow> first_free a bs e = e \<longleftrightarrow> free_sizes bs = []"
proof (induction bs arbitrary: a)
  case (Cons x bs)
  then show ?case by (cases x) auto
qed simp

lemma stats_loop_val:
  "chain U m a bs e \<Longrightarrow> pos bs \<Longrightarrow> a + tot bs \<le> e \<Longrightarrow> free_sizes bs \<noteq> [] \<Longrightarrow>
   stats_loop m e (first_free a bs e) r = Some (fold stats_step (free_sizes bs) r)"
proof (induction bs arbitrary: a r)
  case (Cons x bs)
  obtain sz used where x: "x = (sz, used)" by fastforce
  show ?case
  proof (cases used)
    case True
    then show ?thesis using Cons x by simp
  next
    case False
    then have h: "m a = Some \<lparr>pxNextFreeBlock = first_free (a + sz) bs e, xBlockSize = of_nat sz\<rparr>" using Cons.prems(1) x by simp
    show ?thesis
    proof (cases "free_sizes bs = []")
      case True
      then have "first_free (a + sz) bs e = e" using first_free_end[of bs "a + sz" e] Cons.prems x by simp
      then show ?thesis using True False x h by (subst stats_loop.simps) (cases r, simp)
    next
      case ne: False
      then have "first_free (a + sz) bs e \<noteq> e" using first_free_end[of bs "a + sz" e] Cons.prems x by simp
      then show ?thesis using Cons.IH[of "a + sz" "stats_step sz r"] Cons.prems ne False x h
        by (subst stats_loop.simps) (cases r, simp)
    qed
  qed
qed simp

lemma stats_fold: "fold stats_step fs (n, mx, mn) = (n + of_nat (length fs), fold (\<lambda>z m. max m (of_nat z)) fs mx, fold (\<lambda>z m. min m (of_nat z)) fs mn)"
  by (induction fs arbitrary: n mx mn) simp_all

lemma stats_max: "(\<forall>x \<in> set fs. x < 2 ^ 32) \<Longrightarrow> k < 2 ^ 32 \<Longrightarrow> fold (\<lambda>z m. max m (of_nat z)) fs (of_nat k) = (of_nat (Max (insert k (set fs))) :: u32)"
proof (induction fs arbitrary: k)
  case (Cons x fs)
  have "max (of_nat k) (of_nat x) = (of_nat (max k x) :: u32)" using Cons.prems by (simp add: max_def word_le_nat_alt unat_of_nat)
  moreover have "Max (insert (max k x) (set fs)) = Max (insert k (set (x # fs)))" by (cases "fs = []") (simp_all add: max.assoc)
  ultimately show ?case using Cons.IH[of "max k x"] Cons.prems by simp
qed simp

lemma stats_min: "(\<forall>x \<in> set fs. x < 2 ^ 32) \<Longrightarrow> k < 2 ^ 32 \<Longrightarrow> fold (\<lambda>z m. min m (of_nat z)) fs (of_nat k) = (of_nat (Min (insert k (set fs))) :: u32)"
proof (induction fs arbitrary: k)
  case (Cons x fs)
  have "min (of_nat k) (of_nat x) = (of_nat (min k x) :: u32)" using Cons.prems by (simp add: min_def word_le_nat_alt unat_of_nat)
  moreover have "Min (insert (min k x) (set fs)) = Min (insert k (set (x # fs)))" by (cases "fs = []") (simp_all add: min.assoc)
  ultimately show ?case using Cons.IH[of "min k x"] Cons.prems by simp
qed simp

lemma free_sizes_bound: "x \<in> set (free_sizes bs) \<Longrightarrow> x \<le> tot bs"
  by (induction bs) (auto split: if_splits)

lemma one_block:
  assumes "heap_inv env s bs" "pieces (heap_base env) bs = {}"
  shows "heap_inv env s [(heap_size env, False)]"
proof -
  note inv = heap_inv_parts[OF assms(1)]
  have free: "pieces a xs = {} \<Longrightarrow> \<forall>x \<in> set xs. \<not> snd x" for a and xs :: blocks by (induction a xs rule: pieces.induct) (auto split: if_splits)
  have "0 < tot bs" using inv(9) heap_init_val(1)[OF inv(2)] by simp
  then have "\<exists>sz. bs = [(sz, False)]" using inv(5) free[OF assms(2)] by (cases bs rule: merged.cases) auto
  then show ?thesis using assms(1) inv(9) by auto
qed

section \<open>Properties\<close>

definition heap_example :: heap_env where
  "heap_example = \<lparr>ucHeap = 0x20001004, xStart = 0x20000100\<rparr>"

definition heap_reset :: heap4 where
  "heap_reset = \<lparr>hdrs = (\<lambda>_. None), pxEnd = 0, xFreeBytesRemaining = 0, xMinimumEverFreeBytesRemaining = 0, xNumberOfSuccessfulAllocations = 0,
     xNumberOfSuccessfulFrees = 0, xBlockAllocatedBit = 0\<rparr>"

lemma heap_example_ok: "env_ok heap_example" "heap_base heap_example = 0x20001008" "heap_size heap_example = 40944"
  by (simp_all add: heap_example_def env_ok_def heap_base_def heap_size_def)

lemma heap_example_one:
  "\<exists>s. heap_inv heap_example s [(112, True), (40832, False)]"
  using malloc_val[OF heap_init_val(2)[OF heap_example_ok(1)], of 100] by (auto simp: heap_example_ok malloc_spec_def alloc_def request_def)

text \<open>
  C35. \<^verbatim>\<open>pvPortMalloc\<close> implements first fit: with the blocks \<open>bs\<close> of the heap, it gives the memory behind the header of the first free block that is large enough for
  the request with its header, rounded up to a multiple of 8, cuts off the rest of the block when that is longer than 16 bytes, and returns NULL
  without changing anything when there is none, when the size is 0 or has the top bit set.
\<close>

theorem malloc_first_fit:
  assumes "heap_inv env s bs"
  shows "case malloc_spec (heap_base env) w bs of
      None \<Rightarrow> pvPortMalloc env w s = Some (0, s)
    | Some (p, bs') \<Rightarrow> \<exists>s'. pvPortMalloc env w s = Some (p, s') \<and> heap_inv env s' bs' \<and>
        xNumberOfSuccessfulAllocations s' = xNumberOfSuccessfulAllocations s + 1"
  using malloc_val[OF assms] .

theorem malloc_first_fit_witness:
  "heap_inv heap_example (prvHeapInit heap_example heap_reset) [(40944, False)] \<and>
   (\<exists>s'. pvPortMalloc heap_example 100 (prvHeapInit heap_example heap_reset) = Some (0x20001010, s') \<and> heap_inv heap_example s' [(112, True), (40832, False)])"
proof -
  have i: "heap_inv heap_example (prvHeapInit heap_example heap_reset) [(40944, False)]" using heap_init_val(2)[OF heap_example_ok(1)] by (simp add: heap_example_ok)
  show ?thesis using i malloc_first_fit[OF i, of 100] by (auto simp: heap_example_ok malloc_spec_def alloc_def request_def)
qed

text \<open>
  \<^verbatim>\<open>vPortFree\<close> of a block in use returns it to the list, merged with a free block before it and with one behind it.
\<close>

theorem free_merges:
  assumes "heap_inv env s (xs @ (sz, True) # ys)"
  shows "\<exists>s'. vPortFree env (heap_base env + tot xs + 8) s = Some s' \<and> heap_inv env s' (release xs sz ys) \<and>
    xNumberOfSuccessfulFrees s' = xNumberOfSuccessfulFrees s + 1"
  using free_val[OF assms] .

theorem free_merges_witness:
  "\<exists>s. heap_inv heap_example s [(112, True), (40832, False)] \<and>
     (\<exists>s'. vPortFree heap_example 0x20001010 s = Some s' \<and> heap_inv heap_example s' [(40944, False)])"
proof -
  obtain s where s: "heap_inv heap_example s [(112, True), (40832, False)]" using heap_example_one by blast
  show ?thesis using s free_merges[of heap_example s "[]" 112 "[(40832, False)]"] by (auto simp: heap_example_ok release_def merge_left_def)
qed

text \<open>
  C34. Whatever a client allocates and frees, in any order and starting with the heap as it is after reset: every call returns, no assertion fails, and the
  pieces that the client holds are aligned, inside the array, at least as long as asked for and apart from each other with their headers. When it holds
  nothing, the heap is again one free block.
\<close>

theorem heap_safe:
  assumes "env_ok env" "pxEnd s = 0"
  shows "\<exists>s' live. heap_run (pvPortMalloc env) (vPortFree env) ops s [] = Some (s', live) \<and>
    (\<forall>(p, w) \<in> set live. p mod 8 = 0 \<and> ucHeap env + 8 \<le> p \<and> p + unat w \<le> ucHeap env + configTOTAL_HEAP_SIZE - 8) \<and>
    (\<forall>(p, w) \<in> set live. \<forall>(q, v) \<in> set live. (p, w) \<noteq> (q, v) \<longrightarrow> p + unat w + 8 \<le> q \<or> q + unat v + 8 \<le> p) \<and>
    (live = [] \<and> pxEnd s' \<noteq> 0 \<longrightarrow> heap_inv env s' [(heap_size env, False)])"
proof -
  have "heap_rel env s {}" using assms by (simp add: heap_rel_def)
  from heap4.run_safe[OF this, of ops] obtain s' live L where r: "heap_run (pvPortMalloc env) (vPortFree env) ops s [] = Some (s', live)" "heap_rel env s' L"
    "live = [] \<longleftrightarrow> L = {}" "\<forall>(p, w) \<in> set live. p mod 8 = 0 \<and> ucHeap env + 8 \<le> p \<and> p + unat w \<le> ucHeap env + 40952"
    "\<forall>(p, w) \<in> set live. \<forall>(q, v) \<in> set live. (p, w) \<noteq> (q, v) \<longrightarrow> p + unat w + 8 \<le> q \<or> q + unat v + 8 \<le> p"
    by blast
  have "heap_inv env s' [(heap_size env, False)]" if "live = []" "pxEnd s' \<noteq> 0" using r(2,3) that by (auto simp: heap_rel_def intro: one_block)
  then show ?thesis using r by (intro exI[of _ s'] exI[of _ live]) (simp add: add.commute)
qed

theorem heap_safe_witness:
  "env_ok heap_example \<and> pxEnd heap_reset = 0 \<and>
   (\<exists>s' live. heap_run (pvPortMalloc heap_example) (vPortFree heap_example) [Malloc 100, Malloc 0, Malloc 24, Free 1, Malloc 60000, Free 0] heap_reset [] = Some (s', live) \<and>
     (live = [] \<and> pxEnd s' \<noteq> 0 \<longrightarrow> heap_inv heap_example s' [(40944, False)]))"
proof -
  have p: "env_ok heap_example" "pxEnd heap_reset = 0" by (simp_all add: heap_example_ok heap_reset_def)
  show ?thesis using p heap_safe[OF p, of "[Malloc 100, Malloc 0, Malloc 24, Free 1, Malloc 60000, Free 0]"] by (auto simp: heap_example_ok)
qed

text \<open>
  The statistics of a heap with a free block: the number of the free blocks, the sizes of the largest and of the smallest one, and the bytes
  they hold together.
\<close>

theorem heap_stats_correct:
  assumes "heap_inv env s bs" "free_sizes bs \<noteq> []"
  shows "\<exists>st. vPortGetHeapStats env s = Some st \<and> xNumberOfFreeBlocks st = of_nat (length (free_sizes bs)) \<and>
    unat (xSizeOfLargestFreeBlockInBytes st) = Max (set (free_sizes bs)) \<and> unat (xSizeOfSmallestFreeBlockInBytes st) = Min (set (free_sizes bs)) \<and>
    unat (xAvailableHeapSpaceInBytes st) = sum_list (free_sizes bs)"
proof -
  note inv = heap_inv_parts[OF assms(1)] and D = heap_invD[OF assms(1)]
  let ?fs = "free_sizes bs"
  have c: "hdrs s (xStart env) = Some \<lparr>pxNextFreeBlock = first_free (heap_base env) bs (pxEnd s), xBlockSize = 0\<rparr>" "chain {} (hdrs s) (heap_base env) bs (pxEnd s)"
    using inv(1) by (simp_all add: chain0_def)
  have nz: "0 < first_free (heap_base env) bs (pxEnd s)" using first_free_range[OF D(5), of "heap_base env" "pxEnd s"] inv(3) D(1) by simp
  have b: "\<forall>x \<in> set ?fs. x < 2 ^ 32 - 1" using free_sizes_bound[of _ bs] D(4) by fastforce
  then have b': "\<forall>x \<in> set ?fs. x < 2 ^ 32" by fastforce
  have mx: "fold (\<lambda>z m. max m (of_nat z)) ?fs 0 = (of_nat (Max (set ?fs)) :: u32)"
    using stats_max[OF b', of 0] assms(2) by (auto simp: Max_insert)
  have mn: "fold (\<lambda>z m. min m (of_nat z)) ?fs 0xFFFFFFFF = (of_nat (Min (set ?fs)) :: u32)"
  proof -
    have "Min (set ?fs) \<in> set ?fs" using assms(2) by (intro Min_in) simp_all
    then have "Min (set ?fs) \<le> 2 ^ 32 - 1" using b by (meson less_imp_le)
    then have "Min (insert (2 ^ 32 - 1) (set ?fs)) = Min (set ?fs)" using assms(2) by (subst Min_insert) (simp_all only: min.absorb2, simp_all)
    then show ?thesis using stats_min[OF b', of "2 ^ 32 - 1"] by simp
  qed
  have "Max (set ?fs) \<in> set ?fs" "Min (set ?fs) \<in> set ?fs" using assms(2) by (intro Max_in Min_in, simp_all)+
  then have mem: "Max (set ?fs) < 2 ^ 32" "Min (set ?fs) < 2 ^ 32" using b' by blast+
  have "sum_list ?fs = free_tot bs" by (simp add: free_sizes_def free_tot_def tot_def)
  moreover have "free_tot bs < 2 ^ 32" using free_tot_le[of bs] D(4) by simp
  ultimately show ?thesis using c(1) nz mem inv(7) stats_loop_val[OF c(2) D(5) _ assms(2), of "(0, 0, 0xFFFFFFFF)"] inv(3)
    by (simp add: vPortGetHeapStats_def stats_fold mx mn unat_of_nat)
qed

theorem heap_stats_correct_witness:
  "\<exists>s st. heap_inv heap_example s [(112, True), (40832, False)] \<and> vPortGetHeapStats heap_example s = Some st \<and> xNumberOfFreeBlocks st = 1 \<and>
     unat (xAvailableHeapSpaceInBytes st) = 40832"
proof -
  obtain s where s: "heap_inv heap_example s [(112, True), (40832, False)]" using heap_example_one by blast
  show ?thesis using s heap_stats_correct[OF s] by auto
qed

text \<open>
  When every byte of the heap is in use, \<^verbatim>\<open>vPortGetHeapStats\<close> does not return: the list holds only the end marker, which the loop counts as a block before it looks
  for the end behind it, and it goes on through the null pointer of the marker.
\<close>

theorem heap_stats_full_heap:
  assumes "heap_inv env s bs" "free_sizes bs = []" "hdrs s 0 = None"
  shows "vPortGetHeapStats env s = None"
proof -
  note inv = heap_inv_parts[OF assms(1)] and D = heap_invD[OF assms(1)]
  have "first_free (heap_base env) bs (pxEnd s) = pxEnd s" using first_free_end[OF D(5)] inv(3) assms(2) by simp
  then have "hdrs s (xStart env) = Some \<lparr>pxNextFreeBlock = pxEnd s, xBlockSize = 0\<rparr>" "pxEnd s \<noteq> 0" using inv(1,3) D(1) by (simp_all add: chain0_def)
  moreover have "stats_loop (hdrs s) (pxEnd s) 0 r = None" for r using assms(3) by (subst stats_loop.simps) simp
  then have "stats_loop (hdrs s) (pxEnd s) (pxEnd s) r = None" for r using inv(4) calculation(2) by (subst stats_loop.simps) (simp split: prod.splits)
  ultimately show ?thesis by (simp add: vPortGetHeapStats_def)
qed

definition heap_full :: heap4 where
  "heap_full = \<lparr>hdrs = [0x20000100 \<mapsto> \<lparr>pxNextFreeBlock = 0x2000AFF8, xBlockSize = 0\<rparr>, 0x20001008 \<mapsto> \<lparr>pxNextFreeBlock = 0, xBlockSize = 0x80009FF0\<rparr>,
       0x2000AFF8 \<mapsto> \<lparr>pxNextFreeBlock = 0, xBlockSize = 0\<rparr>],
     pxEnd = 0x2000AFF8, xFreeBytesRemaining = 0, xMinimumEverFreeBytesRemaining = 0, xNumberOfSuccessfulAllocations = 1, xNumberOfSuccessfulFrees = 0,
     xBlockAllocatedBit = 0x80000000\<rparr>"

theorem heap_stats_full_heap_witness:
  "heap_inv heap_example heap_full [(40944, True)] \<and> vPortGetHeapStats heap_example heap_full = None"
proof -
  have i: "heap_inv heap_example heap_full [(40944, True)]"
    unfolding heap_inv_def heap_example_ok by (simp add: heap_example_ok heap_full_def chain0_def) (simp add: heap_example_def)
  show ?thesis using i heap_stats_full_heap[OF i] by (simp add: heap_full_def)
qed

end
