(* ===== verification/Rtos_List.thy ===== *)
theory Rtos_List
  imports Prelude "HOL-Library.Multiset"
begin

text \<open>
  The lists of the operating system, \<^verbatim>\<open>FreeRTOS/list.c\<close>: doubly linked rings through an end marker, which hold the ready tasks, the delayed tasks and
  the tasks that wait for a queue. Items and lists live in a store, by address; an access to an address that holds none is \<open>None\<close>.
  The theorems relate the pointer structure to the list of its items: insertion by value, removal, and the round robin over the items of a list.
\<close>

section \<open>The code\<close>

record list_item =
  xItemValue :: u32
  pxNext :: nat
  pxPrevious :: nat
  pvOwner :: nat
  pxContainer :: nat

record list_head =
  uxNumberOfItems :: u32
  pxIndex :: nat

record list_store =
  items :: "nat \<Rightarrow> list_item option"
  heads :: "nat \<Rightarrow> list_head option"

text \<open>The end marker is a member of the list structure, behind the counter and the index. It has no owner and no container.\<close>

abbreviation (input) xListEnd :: "nat \<Rightarrow> nat" where "xListEnd pxList \<equiv> pxList + 8"

abbreviation (input) portMAX_DELAY :: u32 where "portMAX_DELAY \<equiv> 0xFFFFFFFF"

definition set_item :: "nat \<Rightarrow> (list_item \<Rightarrow> list_item) \<Rightarrow> list_store \<Rightarrow> list_store option" where
  "set_item a f s = (case items s a of None \<Rightarrow> None | Some i \<Rightarrow> Some (s\<lparr>items := (items s)(a \<mapsto> f i)\<rparr>))"

definition set_head :: "nat \<Rightarrow> (list_head \<Rightarrow> list_head) \<Rightarrow> list_store \<Rightarrow> list_store option" where
  "set_head a f s = (case heads s a of None \<Rightarrow> None | Some i \<Rightarrow> Some (s\<lparr>heads := (heads s)(a \<mapsto> f i)\<rparr>))"

definition vListInitialise :: "nat \<Rightarrow> list_store \<Rightarrow> list_store" where
  "vListInitialise pxList s = s\<lparr>
     heads := (heads s)(pxList \<mapsto> \<lparr>uxNumberOfItems = 0, pxIndex = xListEnd pxList\<rparr>),
     items := (items s)(xListEnd pxList \<mapsto>
       \<lparr>xItemValue = portMAX_DELAY, pxNext = xListEnd pxList, pxPrevious = xListEnd pxList, pvOwner = 0, pxContainer = 0\<rparr>)\<rparr>"

definition vListInitialiseItem :: "nat \<Rightarrow> list_store \<Rightarrow> list_store option" where
  "vListInitialiseItem pxItem s = set_item pxItem (\<lambda>i. i\<lparr>pxContainer := 0\<rparr>) s"

definition vListInsertEnd :: "nat \<Rightarrow> nat \<Rightarrow> list_store \<Rightarrow> list_store option" where
  "vListInsertEnd pxList pxNewListItem s = do {
     h \<leftarrow> heads s pxList;
     let ix = pxIndex h;
     s \<leftarrow> set_item pxNewListItem (\<lambda>i. i\<lparr>pxNext := ix\<rparr>) s;
     i \<leftarrow> items s ix;
     s \<leftarrow> set_item pxNewListItem (\<lambda>n. n\<lparr>pxPrevious := pxPrevious i\<rparr>) s;
     i \<leftarrow> items s ix;
     s \<leftarrow> set_item (pxPrevious i) (\<lambda>n. n\<lparr>pxNext := pxNewListItem\<rparr>) s;
     s \<leftarrow> set_item ix (\<lambda>n. n\<lparr>pxPrevious := pxNewListItem\<rparr>) s;
     s \<leftarrow> set_item pxNewListItem (\<lambda>n. n\<lparr>pxContainer := pxList\<rparr>) s;
     set_head pxList (\<lambda>h. h\<lparr>uxNumberOfItems := uxNumberOfItems h + 1\<rparr>) s
   }"

partial_function (option) insert_iter :: "(nat \<Rightarrow> list_item option) \<Rightarrow> u32 \<Rightarrow> nat \<Rightarrow> nat option" where
  "insert_iter m xValueOfInsertion pxIterator = do {
     i \<leftarrow> m pxIterator;
     n \<leftarrow> m (pxNext i);
     if xItemValue n \<le> xValueOfInsertion then insert_iter m xValueOfInsertion (pxNext i) else Some pxIterator
   }"

definition vListInsert :: "nat \<Rightarrow> nat \<Rightarrow> list_store \<Rightarrow> list_store option" where
  "vListInsert pxList pxNewListItem s = do {
     new \<leftarrow> items s pxNewListItem;
     e \<leftarrow> items s (xListEnd pxList);
     pxIterator \<leftarrow> (if xItemValue new = portMAX_DELAY then Some (pxPrevious e) else insert_iter (items s) (xItemValue new) (xListEnd pxList));
     i \<leftarrow> items s pxIterator;
     s \<leftarrow> set_item pxNewListItem (\<lambda>n. n\<lparr>pxNext := pxNext i\<rparr>) s;
     s \<leftarrow> set_item (pxNext i) (\<lambda>n. n\<lparr>pxPrevious := pxNewListItem\<rparr>) s;
     s \<leftarrow> set_item pxNewListItem (\<lambda>n. n\<lparr>pxPrevious := pxIterator\<rparr>) s;
     s \<leftarrow> set_item pxIterator (\<lambda>n. n\<lparr>pxNext := pxNewListItem\<rparr>) s;
     s \<leftarrow> set_item pxNewListItem (\<lambda>n. n\<lparr>pxContainer := pxList\<rparr>) s;
     set_head pxList (\<lambda>h. h\<lparr>uxNumberOfItems := uxNumberOfItems h + 1\<rparr>) s
   }"

definition uxListRemove :: "nat \<Rightarrow> list_store \<Rightarrow> (u32 \<times> list_store) option" where
  "uxListRemove pxItemToRemove s = do {
     it \<leftarrow> items s pxItemToRemove;
     let pxList = pxContainer it;
     s \<leftarrow> set_item (pxNext it) (\<lambda>n. n\<lparr>pxPrevious := pxPrevious it\<rparr>) s;
     it \<leftarrow> items s pxItemToRemove;
     s \<leftarrow> set_item (pxPrevious it) (\<lambda>n. n\<lparr>pxNext := pxNext it\<rparr>) s;
     h \<leftarrow> heads s pxList;
     it \<leftarrow> items s pxItemToRemove;
     s \<leftarrow> set_head pxList (\<lambda>h. if pxIndex h = pxItemToRemove then h\<lparr>pxIndex := pxPrevious it\<rparr> else h) s;
     s \<leftarrow> set_item pxItemToRemove (\<lambda>n. n\<lparr>pxContainer := 0\<rparr>) s;
     s \<leftarrow> set_head pxList (\<lambda>h. h\<lparr>uxNumberOfItems := uxNumberOfItems h - 1\<rparr>) s;
     h \<leftarrow> heads s pxList;
     Some (uxNumberOfItems h, s)
   }"

definition listGET_OWNER_OF_NEXT_ENTRY :: "nat \<Rightarrow> list_store \<Rightarrow> (nat \<times> list_store) option" where
  "listGET_OWNER_OF_NEXT_ENTRY pxList s = do {
     h \<leftarrow> heads s pxList;
     i \<leftarrow> items s (pxIndex h);
     s \<leftarrow> set_head pxList (\<lambda>h. h\<lparr>pxIndex := pxNext i\<rparr>) s;
     s \<leftarrow> (if pxNext i = xListEnd pxList
          then do { e \<leftarrow> items s (pxNext i); set_head pxList (\<lambda>h. h\<lparr>pxIndex := pxNext e\<rparr>) s }
          else Some s);
     h \<leftarrow> heads s pxList;
     i \<leftarrow> items s (pxIndex h);
     Some (pvOwner i, s)
   }"

definition listLIST_IS_EMPTY :: "list_head \<Rightarrow> bool" where
  "listLIST_IS_EMPTY h \<longleftrightarrow> uxNumberOfItems h = 0"

definition listGET_OWNER_OF_HEAD_ENTRY :: "nat \<Rightarrow> list_store \<Rightarrow> nat option" where
  "listGET_OWNER_OF_HEAD_ENTRY pxList s = do { e \<leftarrow> items s (xListEnd pxList); i \<leftarrow> items s (pxNext e); Some (pvOwner i) }"

section \<open>Chains of items\<close>

definition link :: "(nat \<Rightarrow> list_item option) \<Rightarrow> nat \<Rightarrow> nat \<Rightarrow> bool" where
  "link m p q \<longleftrightarrow> map_option pxNext (m p) = Some q \<and> map_option pxPrevious (m q) = Some p"

fun chained :: "(nat \<Rightarrow> list_item option) \<Rightarrow> nat \<Rightarrow> nat list \<Rightarrow> nat \<Rightarrow> bool" where
  "chained m p [] q \<longleftrightarrow> link m p q"
| "chained m p (x # xs) q \<longleftrightarrow> link m p x \<and> chained m x xs q"

lemma chained_append: "chained m p (xs @ y # ys) q \<longleftrightarrow> chained m p xs y \<and> chained m y ys q"
  by (induction m p xs y rule: chained.induct) auto

lemma chained_cong:
  assumes "\<And>x. x \<in> insert p (set xs) \<Longrightarrow> map_option pxNext (m x) = map_option pxNext (m' x)"
    "\<And>x. x \<in> insert q (set xs) \<Longrightarrow> map_option pxPrevious (m x) = map_option pxPrevious (m' x)"
  shows "chained m p xs q \<longleftrightarrow> chained m' p xs q"
  using assms by (induction m p xs q rule: chained.induct) (auto simp: link_def)

lemma chained_ends: "chained m p xs q \<Longrightarrow> map_option pxNext (m p) = Some (hd (xs @ [q])) \<and> map_option pxPrevious (m q) = Some (last (p # xs))"
  by (induction m p xs q rule: chained.induct) (auto simp: link_def)

text \<open>The list \<open>L\<close> holds the items \<open>as\<close>, in this order.\<close>

definition is_list :: "list_store \<Rightarrow> nat \<Rightarrow> nat list \<Rightarrow> bool" where
  "is_list s L as \<longleftrightarrow>
     distinct (xListEnd L # as) \<and> chained (items s) (xListEnd L) as (xListEnd L) \<and>
     map_option xItemValue (items s (xListEnd L)) = Some portMAX_DELAY \<and>
     (\<exists>h. heads s L = Some h \<and> uxNumberOfItems h = of_nat (length as) \<and> pxIndex h \<in> insert (xListEnd L) (set as)) \<and>
     (\<forall>a \<in> set as. map_option pxContainer (items s a) = Some L)"

definition item_value :: "list_store \<Rightarrow> nat \<Rightarrow> u32" where
  "item_value s a = (case items s a of None \<Rightarrow> 0 | Some i \<Rightarrow> xItemValue i)"

lemma init_is_list: "is_list (vListInitialise L s) L []"
  by (simp add: is_list_def vListInitialise_def link_def)

lemma last_notin_butlast: "distinct xs \<Longrightarrow> xs \<noteq> [] \<Longrightarrow> last xs \<notin> set (butlast xs)"
  by (cases xs rule: rev_cases) auto

lemma retarget_end:
  "chained m p xs q \<Longrightarrow> link m' (last (p # xs)) a \<Longrightarrow> (\<forall>x \<in> set (butlast (p # xs)). map_option pxNext (m' x) = map_option pxNext (m x)) \<Longrightarrow>
   (\<forall>x \<in> set xs. map_option pxPrevious (m' x) = map_option pxPrevious (m x)) \<Longrightarrow> chained m' p xs a"
  by (induction m p xs q rule: chained.induct) (auto simp: link_def)

lemma chained_join: "chained m p xs (hd (ys @ [q])) \<Longrightarrow> (ys \<noteq> [] \<Longrightarrow> chained m (hd ys) (tl ys) q) \<Longrightarrow> chained m p (xs @ ys) q"
  by (cases ys) (auto simp: chained_append)

lemma chained_parts: "chained m p (xs @ ys) q \<longleftrightarrow> chained m p xs (hd (ys @ [q])) \<and> (ys \<noteq> [] \<longrightarrow> chained m (hd ys) (tl ys) q)"
  by (cases ys) (auto simp: chained_append)

text \<open>What the insertion of \<open>a\<close> between \<open>p\<close> and \<open>q\<close> changes, and the removal.\<close>

definition spliced :: "list_store \<Rightarrow> list_store \<Rightarrow> nat \<Rightarrow> nat \<Rightarrow> nat \<Rightarrow> nat \<Rightarrow> bool" where
  "spliced s s' L p a q \<longleftrightarrow>
     (\<forall>x. map_option pxNext (items s' x) = (if x = p then Some a else if x = a then Some q else map_option pxNext (items s x))) \<and>
     (\<forall>x. map_option pxPrevious (items s' x) = (if x = q then Some a else if x = a then Some p else map_option pxPrevious (items s x))) \<and>
     (\<forall>x. map_option pxContainer (items s' x) = (if x = a then Some L else map_option pxContainer (items s x))) \<and>
     (\<forall>x. map_option xItemValue (items s' x) = map_option xItemValue (items s x)) \<and>
     (\<forall>x. map_option pvOwner (items s' x) = map_option pvOwner (items s x)) \<and>
     heads s' = (heads s)(L := map_option (\<lambda>h. h\<lparr>uxNumberOfItems := uxNumberOfItems h + 1\<rparr>) (heads s L))"

lemma spliced_is_list:
  assumes "is_list s L (xs @ ys)" "spliced s s' L (last (xListEnd L # xs)) a (hd (ys @ [xListEnd L]))" "a \<notin> insert (xListEnd L) (set (xs @ ys))"
  shows "is_list s' L (xs @ a # ys)"
proof -
  let ?e = "xListEnd L"
  let ?p = "last (?e # xs)" and ?q = "hd (ys @ [?e])"
  have d: "distinct (?e # xs @ ys)" and c: "chained (items s) ?e (xs @ ys) ?e" using assms(1) by (simp_all add: is_list_def)
  have pq: "?p \<in> insert ?e (set xs)" "?q \<in> insert ?e (set ys)" "a \<noteq> ?p" "a \<noteq> ?q"
    using assms(3) by (auto simp: hd_append)
  have nx: "map_option pxNext (items s' x) = (if x = ?p then Some a else if x = a then Some ?q else map_option pxNext (items s x))" for x
    using assms(2) by (simp add: spliced_def)
  have pv: "map_option pxPrevious (items s' x) = (if x = ?q then Some a else if x = a then Some ?p else map_option pxPrevious (items s x))" for x
    using assms(2) by (simp add: spliced_def)
  have l: "link (items s') ?p a" "link (items s') a ?q" using nx pv pq(3,4) by (simp_all add: link_def)
  have pb: "?p \<notin> set (butlast (?e # xs))" using d by (intro last_notin_butlast) simp_all
  have "chained (items s') ?e xs a"
  proof (rule retarget_end[OF _ l(1)])
    show "chained (items s) ?e xs ?q" using c by (simp add: chained_parts)
    show "\<forall>x \<in> set (butlast (?e # xs)). map_option pxNext (items s' x) = map_option pxNext (items s x)"
      using nx pb assms(3) in_set_butlastD[of _ "?e # xs"] by fastforce
    show "\<forall>x \<in> set xs. map_option pxPrevious (items s' x) = map_option pxPrevious (items s x)"
      using pv assms(3) d pq(2) by fastforce
  qed
  moreover have "chained (items s') a ys ?e"
  proof (cases ys)
    case (Cons y zs)
    have "chained (items s') y zs ?e \<longleftrightarrow> chained (items s) y zs ?e"
    proof (rule chained_cong)
      show "map_option pxNext (items s' x) = map_option pxNext (items s x)" if "x \<in> insert y (set zs)" for x
        using nx[of x] that d assms(3) pq(1) Cons by auto
      show "map_option pxPrevious (items s' x) = map_option pxPrevious (items s x)" if "x \<in> insert ?e (set zs)" for x
        using pv[of x] that d assms(3) Cons by auto
    qed
    then show ?thesis using c l(2) Cons by (simp add: chained_append)
  qed (use l(2) in simp)
  ultimately have "chained (items s') ?e (xs @ a # ys) ?e" by (simp add: chained_append)
  then show ?thesis using assms by (auto simp: is_list_def spliced_def)
qed

definition unspliced :: "list_store \<Rightarrow> list_store \<Rightarrow> nat \<Rightarrow> nat \<Rightarrow> nat \<Rightarrow> nat \<Rightarrow> bool" where
  "unspliced s s' L p a q \<longleftrightarrow>
     (\<forall>x. x \<noteq> a \<longrightarrow> map_option pxNext (items s' x) = (if x = p then Some q else map_option pxNext (items s x))) \<and>
     (\<forall>x. x \<noteq> a \<longrightarrow> map_option pxPrevious (items s' x) = (if x = q then Some p else map_option pxPrevious (items s x))) \<and>
     (\<forall>x. map_option pxContainer (items s' x) = (if x = a then Some 0 else map_option pxContainer (items s x))) \<and>
     (\<forall>x. map_option xItemValue (items s' x) = map_option xItemValue (items s x)) \<and>
     (\<forall>x. map_option pvOwner (items s' x) = map_option pvOwner (items s x)) \<and>
     heads s' = (heads s)(L := map_option (\<lambda>h. h\<lparr>pxIndex := if pxIndex h = a then p else pxIndex h, uxNumberOfItems := uxNumberOfItems h - 1\<rparr>) (heads s L))"

lemma unspliced_is_list:
  assumes "is_list s L (xs @ a # ys)" "unspliced s s' L (last (xListEnd L # xs)) a (hd (ys @ [xListEnd L]))"
  shows "is_list s' L (xs @ ys)"
proof -
  let ?e = "xListEnd L"
  let ?p = "last (?e # xs)" and ?q = "hd (ys @ [?e])"
  have d: "distinct (?e # xs @ a # ys)" and c: "chained (items s) ?e xs a" "chained (items s) a ys ?e" using assms(1) by (simp_all add: is_list_def chained_append)
  have pq: "?p \<in> insert ?e (set xs)" "?q \<in> insert ?e (set ys)" "a \<noteq> ?p" "a \<noteq> ?q" using d by (auto simp: hd_append)
  have nx: "map_option pxNext (items s' x) = (if x = ?p then Some ?q else map_option pxNext (items s x))" if "x \<noteq> a" for x
    using assms(2) that by (simp add: unspliced_def)
  have pv: "map_option pxPrevious (items s' x) = (if x = ?q then Some ?p else map_option pxPrevious (items s x))" if "x \<noteq> a" for x
    using assms(2) that by (simp add: unspliced_def)
  have nx': "map_option pxNext (items s' x) = map_option pxNext (items s x)" if "x \<noteq> a" "x \<notin> insert ?e (set xs)" for x
    using nx[OF that(1)] that(2) pq(1) by metis
  have l: "link (items s') ?p ?q" using nx pv pq(3,4) by (simp add: link_def)
  have pb: "?p \<notin> set (butlast (?e # xs))" using d by (intro last_notin_butlast) simp_all
  have "chained (items s') ?e xs ?q"
  proof (rule retarget_end[OF c(1) l])
    show "\<forall>x \<in> set (butlast (?e # xs)). map_option pxNext (items s' x) = map_option pxNext (items s x)"
    proof
      fix x assume x: "x \<in> set (butlast (?e # xs))"
      then have "x \<noteq> ?p" "x \<noteq> a" using pb d in_set_butlastD[OF x] by auto
      then show "map_option pxNext (items s' x) = map_option pxNext (items s x)" using nx by simp
    qed
    show "\<forall>x \<in> set xs. map_option pxPrevious (items s' x) = map_option pxPrevious (items s x)"
      using pv d pq(2) by fastforce
  qed
  moreover have "chained (items s') (hd ys) (tl ys) ?e" if ne: "ys \<noteq> []"
  proof -
    obtain y zs where ys: "ys = y # zs" using ne by (cases ys) auto
    have "chained (items s') y zs ?e \<longleftrightarrow> chained (items s) y zs ?e"
    proof (rule chained_cong)
      show "map_option pxNext (items s' x) = map_option pxNext (items s x)" if "x \<in> insert y (set zs)" for x
        using that d ys by (intro nx') auto
      show "map_option pxPrevious (items s' x) = map_option pxPrevious (items s x)" if "x \<in> insert ?e (set zs)" for x
        using that d ys by (subst pv) auto
    qed
    then show ?thesis using c(2) ys by simp
  qed
  ultimately have "chained (items s') ?e (xs @ ys) ?e" by (simp add: chained_parts)
  moreover obtain h where h: "heads s L = Some h" "uxNumberOfItems h = of_nat (length (xs @ a # ys))" "pxIndex h \<in> insert ?e (set (xs @ a # ys))"
    using assms(1) by (auto simp: is_list_def)
  have "heads s' L = Some (h\<lparr>pxIndex := if pxIndex h = a then ?p else pxIndex h, uxNumberOfItems := uxNumberOfItems h - 1\<rparr>)"
    using assms(2) h(1) by (simp add: unspliced_def)
  moreover have "(if pxIndex h = a then ?p else pxIndex h) \<in> insert ?e (set (xs @ ys))" using h(3) pq(1) by (cases "pxIndex h = a") auto
  moreover have "map_option xItemValue (items s' ?e) = Some portMAX_DELAY" "\<forall>x \<in> set (xs @ ys). map_option pxContainer (items s' x) = Some L"
    using assms d by (auto simp: is_list_def unspliced_def)
  ultimately show ?thesis using d h(2) by (simp add: is_list_def)
qed

lemma insert_spliced:
  assumes "items s a = Some i" "items s p = Some ip" "pxNext ip = q" "items s q = Some iq" "heads s L = Some h" "a \<noteq> p" "a \<noteq> q"
    "items s (xListEnd L) = Some ie" "(if xItemValue i = portMAX_DELAY then Some (pxPrevious ie) else insert_iter (items s) (xItemValue i) (xListEnd L)) = Some p"
  shows "\<exists>s'. vListInsert L a s = Some s' \<and> spliced s s' L p a q"
  using assms by (cases "p = q") (simp_all add: vListInsert_def set_item_def set_head_def spliced_def)

lemma insert_end_spliced:
  assumes "items s a = Some i" "items s p = Some ip" "pxPrevious iq = p" "items s q = Some iq" "heads s L = Some h" "a \<noteq> p" "a \<noteq> q" "pxIndex h = q"
  shows "\<exists>s'. vListInsertEnd L a s = Some s' \<and> spliced s s' L p a q"
  using assms by (cases "p = q") (simp_all add: vListInsertEnd_def set_item_def set_head_def spliced_def)

lemma remove_unspliced:
  assumes "items s a = Some i" "items s p = Some ip" "items s q = Some iq" "heads s L = Some h" "a \<noteq> p" "a \<noteq> q" "pxContainer i = L" "pxPrevious i = p" "pxNext i = q"
  shows "\<exists>s'. uxListRemove a s = Some (uxNumberOfItems h - 1, s') \<and> unspliced s s' L p a q"
  using assms by (cases "p = q") (simp_all add: uxListRemove_def set_item_def set_head_def unspliced_def)

lemma last_mem: "last (e # xs) \<in> insert e (set xs)"
  by simp

lemma hd_mem: "hd (ys @ [e]) \<in> insert e (set ys)"
  by (cases ys) simp_all

lemma chained_in: "chained m p xs q \<Longrightarrow> x \<in> insert p (insert q (set xs)) \<Longrightarrow> \<exists>i. m x = Some i"
  by (induction m p xs q rule: chained.induct) (auto simp: link_def)

lemma chained_next: "chained m p xs q \<Longrightarrow> map_option pxNext (m (last (p # xs))) = Some q"
  by (induction m p xs q rule: chained.induct) (auto simp: link_def)

lemma insert_iter_val:
  assumes "chained (items s) p xs e" "item_value s e = portMAX_DELAY" "v \<noteq> portMAX_DELAY"
  shows "insert_iter (items s) v p = Some (last (p # takeWhile (\<lambda>x. item_value s x \<le> v) xs))"
  using assms(1)
proof (induction xs arbitrary: p)
  case Nil
  have m: "portMAX_DELAY = - 1" by simp
  have "\<not> portMAX_DELAY \<le> v" using assms(3) unfolding m by (simp only: word_order.extremum_unique not_False_eq_True)
  then show ?case using Nil assms(2) by (subst insert_iter.simps) (auto simp: link_def item_value_def split: option.splits)
next
  case (Cons x xs)
  obtain i j where ij: "items s p = Some i" "pxNext i = x" "items s x = Some j" using Cons.prems by (auto simp: link_def)
  have "insert_iter (items s) v x = Some (last (x # takeWhile (\<lambda>x. item_value s x \<le> v) xs))" using Cons by simp
  then show ?case using ij by (subst insert_iter.simps) (simp add: item_value_def)
qed

lemma listD:
  assumes "is_list s L as"
  shows "distinct (xListEnd L # as)" "chained (items s) (xListEnd L) as (xListEnd L)" "item_value s (xListEnd L) = portMAX_DELAY"
    "\<exists>h. heads s L = Some h \<and> uxNumberOfItems h = of_nat (length as) \<and> pxIndex h \<in> insert (xListEnd L) (set as)"
  using assms by (auto simp: is_list_def item_value_def)

lemma list_insert_val:
  assumes "is_list s L as" "a \<notin> insert (xListEnd L) (set as)" "items s a = Some i"
    "xs = takeWhile (\<lambda>x. item_value s x \<le> xItemValue i) as" "ys = dropWhile (\<lambda>x. item_value s x \<le> xItemValue i) as"
  shows "\<exists>s'. vListInsert L a s = Some s' \<and> spliced s s' L (last (xListEnd L # xs)) a (hd (ys @ [xListEnd L]))"
proof -
  let ?e = "xListEnd L" and ?v = "xItemValue i"
  let ?p = "last (?e # xs)" and ?q = "hd (ys @ [?e])"
  note l = listD[OF assms(1)]
  have as: "as = xs @ ys" by (simp add: assms(4,5))
  have c: "chained (items s) ?e xs ?q" using l(2) by (simp add: as chained_parts)
  have in_as: "?p \<in> insert ?e (set as)" "?q \<in> insert ?e (set as)" using last_mem[of ?e xs] hd_mem[of ys ?e] unfolding as set_append by (metis Un_iff insert_iff)+
  have dom: "\<exists>i. items s x = Some i" if "x \<in> insert ?e (set as)" for x using chained_in[OF l(2), of x] that by simp
  obtain ip iq ie where it: "items s ?p = Some ip" "items s ?q = Some iq" "items s ?e = Some ie"
    using dom[OF in_as(1)] dom[OF in_as(2)] dom[OF insertI1] by (elim exE)
  have "pxNext ip = ?q" using chained_next[OF c] it(1) by simp
  moreover have "(if ?v = portMAX_DELAY then Some (pxPrevious ie) else insert_iter (items s) ?v ?e) = Some ?p"
  proof (cases "?v = portMAX_DELAY")
    case True
    have m: "portMAX_DELAY = - 1" by simp
    have "item_value s x \<le> ?v" for x unfolding True m by (rule word_order.extremum)
    then have "xs = as" by (simp add: assms(4) takeWhile_eq_all_conv)
    then show ?thesis using chained_ends[OF l(2)] it(3) True by simp
  next
    case False
    then show ?thesis using insert_iter_val[OF l(2,3) False] assms(4) by simp
  qed
  moreover obtain h where "heads s L = Some h" using l(4) by blast
  moreover have "a \<noteq> ?p" "a \<noteq> ?q" using in_as assms(2) by metis+
  ultimately show ?thesis by (intro insert_spliced[OF assms(3) it(1) _ it(2) _ _ _ it(3)])
qed

lemma spliced_value: "spliced s s' L p a q \<Longrightarrow> item_value s' x = item_value s x"
proof -
  assume "spliced s s' L p a q"
  then have "map_option xItemValue (items s' x) = map_option xItemValue (items s x)" by (simp add: spliced_def)
  then show ?thesis by (cases "items s x"; cases "items s' x") (simp_all add: item_value_def)
qed

lemma insert_is_list:
  assumes "is_list s L as" "a \<notin> insert (xListEnd L) (set as)" "items s a = Some i"
  shows "\<exists>s'. vListInsert L a s = Some s' \<and> (\<forall>x. item_value s' x = item_value s x) \<and>
    is_list s' L (takeWhile (\<lambda>x. item_value s x \<le> xItemValue i) as @ a # dropWhile (\<lambda>x. item_value s x \<le> xItemValue i) as)"
proof -
  define xs ys where "xs = takeWhile (\<lambda>x. item_value s x \<le> xItemValue i) as" and "ys = dropWhile (\<lambda>x. item_value s x \<le> xItemValue i) as"
  have as: "as = xs @ ys" by (simp add: xs_def ys_def)
  obtain s' where s': "vListInsert L a s = Some s'" "spliced s s' L (last (xListEnd L # xs)) a (hd (ys @ [xListEnd L]))"
    using list_insert_val[OF assms xs_def ys_def] by blast
  have "is_list s' L (xs @ a # ys)" using spliced_is_list[OF _ s'(2)] assms(1,2) as by simp
  then show ?thesis using s'(1) spliced_value[OF s'(2)] by (auto simp: xs_def ys_def)
qed

lemma remove_is_list:
  assumes "is_list s L (xs @ a # ys)"
  shows "\<exists>s'. uxListRemove a s = Some (of_nat (length (xs @ ys)), s') \<and> unspliced s s' L (last (xListEnd L # xs)) a (hd (ys @ [xListEnd L])) \<and> is_list s' L (xs @ ys)"
proof -
  let ?e = "xListEnd L"
  let ?p = "last (?e # xs)" and ?q = "hd (ys @ [?e])"
  note l = listD[OF assms]
  have c: "chained (items s) ?e xs a" "chained (items s) a ys ?e" using l(2) by (simp_all add: chained_append)
  have mem: "?p \<in> insert ?e (set xs)" "?q \<in> insert ?e (set ys)" by (rule last_mem, rule hd_mem)
  then have ne: "a \<noteq> ?p" "a \<noteq> ?q" using l(1) by auto
  obtain i where i: "items s a = Some i" using chained_in[OF c(1), of a] by auto
  obtain ip iq where pq: "items s ?p = Some ip" "items s ?q = Some iq"
    using chained_in[OF c(1), of ?p] chained_in[OF c(2), of ?q] mem by auto
  obtain h where h: "heads s L = Some h" "uxNumberOfItems h = of_nat (length (xs @ a # ys))" using l(4) by blast
  have "pxContainer i = L" using assms i by (simp add: is_list_def)
  moreover have "pxPrevious i = ?p" "pxNext i = ?q" using chained_ends[OF c(1)] chained_ends[OF c(2)] i by simp_all
  ultimately obtain s' where s': "uxListRemove a s = Some (uxNumberOfItems h - 1, s')" "unspliced s s' L ?p a ?q"
    using remove_unspliced[OF i pq h(1) ne] by blast
  then show ?thesis using unspliced_is_list[OF assms s'(2)] h(2) by simp
qed

text \<open>The order in which \<^verbatim>\<open>listGET_OWNER_OF_NEXT_ENTRY\<close> comes to the items.\<close>

definition service :: "nat \<Rightarrow> nat list \<Rightarrow> nat list" where
  "service ix as = (if ix \<in> set as then tl (dropWhile (\<lambda>x. x \<noteq> ix) as) @ takeWhile (\<lambda>x. x \<noteq> ix) as @ [ix] else as)"

definition index_of :: "list_store \<Rightarrow> nat \<Rightarrow> nat" where
  "index_of s L = (case heads s L of None \<Rightarrow> 0 | Some h \<Rightarrow> pxIndex h)"

definition owner :: "list_store \<Rightarrow> nat \<Rightarrow> nat" where
  "owner s a = (case items s a of None \<Rightarrow> 0 | Some i \<Rightarrow> pvOwner i)"

lemma service_simps:
  "x \<notin> set as \<Longrightarrow> service x as = as" "x \<notin> set xs \<Longrightarrow> service x (xs @ x # ys) = ys @ xs @ [x]"
  by (simp_all add: service_def takeWhile_append2 dropWhile_append2 dropWhile_eq_Cons_conv) (simp_all add: takeWhile_tail dropWhile_append)

lemma service_mset: "mset (service ix as) = mset as"
proof (cases "ix \<in> set as")
  case True
  then obtain xs ys where "as = xs @ ix # ys" "ix \<notin> set xs" by (meson split_list_first)
  then show ?thesis using service_simps(2)[of ix xs ys] by simp
qed (simp add: service_simps(1))

lemma service_set: "set (service ix as) = set as"
  using service_mset mset_eq_setD by blast

lemma sorted_insert_point:
  fixes f :: "nat \<Rightarrow> u32"
  shows "sorted (map f xs) \<Longrightarrow> sorted (map f (takeWhile (\<lambda>x. f x \<le> f a) xs @ a # dropWhile (\<lambda>x. f x \<le> f a) xs))"
proof (induction xs)
  case (Cons x xs)
  let ?R = "takeWhile (\<lambda>x. f x \<le> f a) xs @ a # dropWhile (\<lambda>x. f x \<le> f a) xs"
  show ?case
  proof (cases "f x \<le> f a")
    case True
    have "set ?R = insert a (set xs)" by (metis Un_insert_right list.simps(15) set_append takeWhile_dropWhile_id)
    then have "\<forall>y \<in> set ?R. f x \<le> f y" using Cons.prems True by auto
    then show ?thesis using Cons True by auto
  next
    case False
    then have "f a \<le> f x" "\<forall>y \<in> set xs. f x \<le> f y" using Cons.prems by auto
    then have "\<forall>y \<in> set xs. f a \<le> f y" by (meson order_trans)
    then show ?thesis using False Cons.prems \<open>f a \<le> f x\<close> by simp
  qed
qed simp

lemma next_entry_val:
  assumes "is_list s L as" "service (index_of s L) as = x # rest"
  shows "\<exists>s'. listGET_OWNER_OF_NEXT_ENTRY L s = Some (owner s x, s') \<and> is_list s' L as \<and> items s' = items s \<and> service (index_of s' L) as = rest @ [x]"
proof -
  let ?e = "xListEnd L"
  note l = listD[OF assms(1)]
  obtain h where h: "heads s L = Some h" "uxNumberOfItems h = of_nat (length as)" "pxIndex h \<in> insert ?e (set as)" using l(4) by blast
  have ix: "index_of s L = pxIndex h" using h by (simp add: index_of_def)
  have x: "x \<in> set as" using assms(2) service_set[of "index_of s L" as] by auto
  obtain ie where ie: "items s ?e = Some ie" "pxNext ie = hd (as @ [?e])" using chained_ends[OF l(2)] by auto
  have xe: "x \<noteq> ?e" using x l(1) by auto
  obtain i where i: "items s x = Some i" using chained_in[OF l(2), of x] x by auto
  have run: "listGET_OWNER_OF_NEXT_ENTRY L s = Some (owner s x, s\<lparr>heads := (heads s)(L \<mapsto> h\<lparr>pxIndex := x\<rparr>)\<rparr>)" and sv: "service x as = rest @ [x]"
  proof (atomize (full), cases "pxIndex h = ?e")
    case True
    have "as = x # rest" using assms(2) True l(1) ix by (simp add: service_simps(1))
    then show "listGET_OWNER_OF_NEXT_ENTRY L s = Some (owner s x, s\<lparr>heads := (heads s)(L \<mapsto> h\<lparr>pxIndex := x\<rparr>)\<rparr>) \<and> service x as = rest @ [x]"
      using True ie xe i h(1) service_simps(2)[of x "[]" rest] by (simp add: listGET_OWNER_OF_NEXT_ENTRY_def set_head_def owner_def)
  next
    case False
    then obtain xs ys where as: "as = xs @ pxIndex h # ys" "pxIndex h \<notin> set xs" using h(3) by (meson insertE split_list_first)
    have c: "chained (items s) (pxIndex h) ys ?e" using l(2) as(1) by (simp add: chained_append)
    obtain j where j: "items s (pxIndex h) = Some j" "pxNext j = hd (ys @ [?e])" using chained_ends[OF c] by auto
    have sv: "ys @ xs @ [pxIndex h] = x # rest" using assms(2) as service_simps(2) ix by metis
    show "listGET_OWNER_OF_NEXT_ENTRY L s = Some (owner s x, s\<lparr>heads := (heads s)(L \<mapsto> h\<lparr>pxIndex := x\<rparr>)\<rparr>) \<and> service x as = rest @ [x]"
    proof (cases ys)
      case Nil
      then have "as = x # rest" using sv as(1) by simp
      then show ?thesis using Nil ie xe i j h(1) service_simps(2)[of x "[]" rest] by (simp add: listGET_OWNER_OF_NEXT_ENTRY_def set_head_def owner_def)
    next
      case (Cons y zs)
      then have "y = x" "rest = zs @ xs @ [pxIndex h]" using sv by simp_all
      moreover have "x \<notin> set (xs @ [pxIndex h])" using l(1) as(1) Cons calculation(1) by auto
      ultimately show ?thesis using Cons xe i j h(1) as(1) service_simps(2)[of x "xs @ [pxIndex h]" zs] by (simp add: listGET_OWNER_OF_NEXT_ENTRY_def set_head_def owner_def)
    qed
  qed
  have "is_list (s\<lparr>heads := (heads s)(L \<mapsto> h\<lparr>pxIndex := x\<rparr>)\<rparr>) L as" using assms(1) h x by (simp add: is_list_def)
  then show ?thesis using run sv by (intro exI conjI) (assumption | simp add: index_of_def)+
qed

fun next_n :: "nat \<Rightarrow> nat \<Rightarrow> list_store \<Rightarrow> (nat list \<times> list_store) option" where
  "next_n 0 L s = Some ([], s)"
| "next_n (Suc n) L s = do {
     (o1, s) \<leftarrow> listGET_OWNER_OF_NEXT_ENTRY L s;
     (os, s) \<leftarrow> next_n n L s;
     Some (o1 # os, s)
   }"

lemma next_n_val:
  "is_list s L as \<Longrightarrow> service (index_of s L) as = xs @ ys \<Longrightarrow>
   \<exists>s'. next_n (length xs) L s = Some (map (owner s) xs, s') \<and> is_list s' L as \<and> items s' = items s \<and> service (index_of s' L) as = ys @ xs"
proof (induction xs arbitrary: s ys)
  case (Cons x xs)
  obtain s1 where s1: "listGET_OWNER_OF_NEXT_ENTRY L s = Some (owner s x, s1)" "is_list s1 L as" "items s1 = items s" "service (index_of s1 L) as = xs @ (ys @ [x])"
    using next_entry_val[OF Cons.prems(1), of x "xs @ ys"] Cons.prems(2) by auto
  have "owner s1 = owner s" using s1(3) by (simp add: owner_def fun_eq_iff)
  then show ?case using Cons.IH[OF s1(2,4)] s1(1,3) by auto
qed simp

lemma insert_end_val:
  assumes "is_list s L as" "a \<notin> insert (xListEnd L) (set as)" "items s a = Some i"
    "index_of s L = (case ys of [] \<Rightarrow> xListEnd L | y # _ \<Rightarrow> y)" "as = xs @ ys"
  shows "\<exists>s'. vListInsertEnd L a s = Some s' \<and> is_list s' L (xs @ a # ys) \<and> index_of s' L = index_of s L \<and> owner s' = owner s"
proof -
  let ?e = "xListEnd L"
  let ?p = "last (?e # xs)" and ?q = "hd (ys @ [?e])"
  note l = listD[OF assms(1)]
  have c: "chained (items s) ?e xs ?q" using l(2) by (simp add: assms(5) chained_parts)
  obtain h where h: "heads s L = Some h" using l(4) by blast
  have q: "pxIndex h = ?q" using assms(4) h by (cases ys) (simp_all add: index_of_def)
  obtain ip iq where it: "items s ?p = Some ip" "items s ?q = Some iq" using chained_in[OF c, of ?p] chained_in[OF c, of ?q] last_mem[of ?e xs] by blast
  have "pxPrevious iq = ?p" using chained_ends[OF c] it(2) by simp
  moreover have "a \<noteq> ?p" "a \<noteq> ?q" using last_mem[of ?e xs] hd_mem[of ys ?e] assms(2,5) by auto
  ultimately obtain s' where s': "vListInsertEnd L a s = Some s'" "spliced s s' L ?p a ?q" using insert_end_spliced[OF assms(3) it(1) _ it(2) h _ _ q] by blast
  have o: "map_option pvOwner (items s' x) = map_option pvOwner (items s x)" for x using s'(2) by (simp add: spliced_def)
  have "owner s' x = owner s x" for x using o[of x] by (cases "items s x"; cases "items s' x") (simp_all add: owner_def)
  moreover have "index_of s' L = index_of s L" using s'(2) h by (simp add: spliced_def index_of_def)
  moreover have "is_list s' L (xs @ a # ys)" using spliced_is_list[OF _ s'(2)] assms(1,2,5) by simp
  ultimately show ?thesis using s'(1) by (auto simp: fun_eq_iff)
qed

lemma insert_end_service:
  assumes "is_list s L as" "a \<notin> insert (xListEnd L) (set as)" "items s a = Some i"
  shows "\<exists>s' as'. vListInsertEnd L a s = Some s' \<and> is_list s' L as' \<and> owner s' = owner s \<and> set as' = insert a (set as) \<and>
    service (index_of s' L) as' = (if index_of s L = xListEnd L then as @ [a] else butlast (service (index_of s L) as) @ [a, index_of s L])"
proof (cases "index_of s L = xListEnd L")
  case True
  obtain s' where "vListInsertEnd L a s = Some s'" "is_list s' L (as @ [a])" "index_of s' L = index_of s L" "owner s' = owner s"
    using insert_end_val[OF assms, of "[]" as] True by auto
  moreover from this have "service (index_of s' L) (as @ [a]) = as @ [a]" using listD(1)[of s' L "as @ [a]"] True by (intro service_simps(1)) simp
  ultimately show ?thesis using True by (intro exI[of _ s'] exI[of _ "as @ [a]"]) simp
next
  case False
  let ?ix = "index_of s L"
  have "?ix \<in> set as" using listD(4)[OF assms(1)] False by (auto simp: index_of_def)
  then obtain xs ys where as: "as = xs @ ?ix # ys" "?ix \<notin> set xs" by (meson split_list_first)
  obtain s' where s': "vListInsertEnd L a s = Some s'" "is_list s' L (xs @ a # ?ix # ys)" "index_of s' L = ?ix" "owner s' = owner s"
    using insert_end_val[OF assms, of "?ix # ys" xs] as(1) by auto
  have "service ?ix ((xs @ [a]) @ ?ix # ys) = ys @ (xs @ [a]) @ [?ix]" using listD(1)[OF s'(2)] by (intro service_simps(2)) auto
  moreover have "service ?ix as = ys @ xs @ [?ix]" using as service_simps(2) by metis
  moreover have "set (xs @ a # ?ix # ys) = insert a (set as)" using arg_cong[OF as(1), of set] by auto
  ultimately show ?thesis using False s' by (intro exI[of _ s'] exI[of _ "xs @ a # ?ix # ys"]) (simp add: butlast_append)
qed

section \<open>Properties\<close>

text \<open>
  C39. \<^verbatim>\<open>vListInsert\<close> puts the item behind all items whose value is not larger, up to the first one with a larger value, whatever the value is; a list that is ordered by value stays ordered, and items of
  the same value stay in the order of their insertion. The search always ends at the marker.
\<close>

theorem list_insert_ordered:
  assumes "is_list s L as" "a \<notin> insert (xListEnd L) (set as)" "items s a = Some i"
  shows "\<exists>s' as'. vListInsert L a s = Some s' \<and> is_list s' L as' \<and>
    as' = takeWhile (\<lambda>x. item_value s x \<le> xItemValue i) as @ a # dropWhile (\<lambda>x. item_value s x \<le> xItemValue i) as \<and>
    (sorted (map (item_value s) as) \<longrightarrow> sorted (map (item_value s') as'))"
proof -
  let ?P = "\<lambda>x. item_value s x \<le> xItemValue i"
  obtain s' where s': "vListInsert L a s = Some s'" "\<forall>x. item_value s' x = item_value s x" "is_list s' L (takeWhile ?P as @ a # dropWhile ?P as)"
    using insert_is_list[OF assms] by blast
  have a: "item_value s a = xItemValue i" using assms(3) by (simp add: item_value_def)
  have "sorted (map (item_value s) (takeWhile ?P as @ a # dropWhile ?P as))" if "sorted (map (item_value s) as)"
    using sorted_insert_point[OF that, of a] by (simp only: a)
  moreover have "item_value s' = item_value s" using s'(2) by (simp add: fun_eq_iff)
  ultimately show ?thesis using s'(1,3) by auto
qed

text \<open>
  \<^verbatim>\<open>uxListRemove\<close> takes an item out of the list that it is in, keeps the other items in their order, and returns how many are left.
\<close>

theorem list_remove:
  assumes "is_list s L (xs @ a # ys)"
  shows "\<exists>s'. uxListRemove a s = Some (of_nat (length (xs @ ys)), s') \<and> is_list s' L (xs @ ys) \<and> map_option pxContainer (items s' a) = Some 0"
proof -
  obtain s' where s': "uxListRemove a s = Some (of_nat (length (xs @ ys)), s')" "is_list s' L (xs @ ys)"
    "unspliced s s' L (last (xListEnd L # xs)) a (hd (ys @ [xListEnd L]))" using remove_is_list[OF assms] by blast
  have "map_option pxContainer (items s' a) = Some 0" using s'(3) unfolding unspliced_def by presburger
  then show ?thesis using s'(1,2) by blast
qed

text \<open>
  The round robin that the scheduler builds on: as many calls of \<^verbatim>\<open>listGET_OWNER_OF_NEXT_ENTRY\<close> as the list has items return each of them once, and the same order begins again.
  An item added with \<^verbatim>\<open>vListInsertEnd\<close> comes after all others, but before the one that was returned last.
\<close>

theorem list_round_robin:
  assumes "is_list s L as" "a \<notin> insert (xListEnd L) (set as)" "items s a = Some i"
  shows "\<exists>s'. next_n (length as) L s = Some (map (owner s) (service (index_of s L) as), s') \<and> service (index_of s' L) as = service (index_of s L) as \<and>
      mset (service (index_of s L) as) = mset as"
    "\<exists>s' as'. vListInsertEnd L a s = Some s' \<and> is_list s' L as' \<and>
      service (index_of s' L) as' = (if index_of s L = xListEnd L then as @ [a] else butlast (service (index_of s L) as) @ [a, index_of s L])"
proof -
  have m: "mset (service (index_of s L) as) = mset as" by (rule service_mset)
  then have "length (service (index_of s L) as) = length as" using mset_eq_length by blast
  then show "\<exists>s'. next_n (length as) L s = Some (map (owner s) (service (index_of s L) as), s') \<and> service (index_of s' L) as = service (index_of s L) as \<and>
      mset (service (index_of s L) as) = mset as"
    using next_n_val[OF assms(1), of "service (index_of s L) as" "[]"] m by auto
  show "\<exists>s' as'. vListInsertEnd L a s = Some s' \<and> is_list s' L as' \<and>
      service (index_of s' L) as' = (if index_of s L = xListEnd L then as @ [a] else butlast (service (index_of s L) as) @ [a, index_of s L])"
    using insert_end_service[OF assms] by blast
qed

text \<open>A list with the two items at 100 and 200 and a third one at 300.\<close>

definition list_example :: list_store where
  "list_example = \<lparr>items = [
       48 \<mapsto> \<lparr>xItemValue = portMAX_DELAY, pxNext = 100, pxPrevious = 200, pvOwner = 0, pxContainer = 0\<rparr>,
       100 \<mapsto> \<lparr>xItemValue = 3, pxNext = 200, pxPrevious = 48, pvOwner = 1, pxContainer = 40\<rparr>,
       200 \<mapsto> \<lparr>xItemValue = 7, pxNext = 48, pxPrevious = 100, pvOwner = 2, pxContainer = 40\<rparr>,
       300 \<mapsto> \<lparr>xItemValue = 3, pxNext = 0, pxPrevious = 0, pvOwner = 3, pxContainer = 0\<rparr>],
     heads = [40 \<mapsto> \<lparr>uxNumberOfItems = 2, pxIndex = 100\<rparr>]\<rparr>"

lemma list_example_ok: "is_list list_example 40 [100, 200]"
  "items list_example 300 = Some \<lparr>xItemValue = 3, pxNext = 0, pxPrevious = 0, pvOwner = 3, pxContainer = 0\<rparr>"
  by (simp_all add: list_example_def is_list_def link_def)

lemma list_example_values: "item_value list_example 100 = 3" "item_value list_example 200 = 7" "index_of list_example 40 = 100"
  "owner list_example 100 = 1" "owner list_example 200 = 2"
  by (simp_all add: list_example_def item_value_def index_of_def owner_def)

theorem list_insert_ordered_witness:
  "is_list list_example 40 [100, 200] \<and> (\<exists>s'. vListInsert 40 300 list_example = Some s' \<and> is_list s' 40 [100, 300, 200])"
  using list_example_ok(1) list_insert_ordered[OF list_example_ok(1) _ list_example_ok(2)] by (auto simp: list_example_values)

theorem list_remove_witness:
  "is_list list_example 40 [100, 200] \<and> (\<exists>s'. uxListRemove 100 list_example = Some (1, s') \<and> is_list s' 40 [200])"
  using list_example_ok(1) list_remove[of list_example 40 "[]" 100 "[200]"] by auto

theorem list_round_robin_witness:
  "is_list list_example 40 [100, 200] \<and> (\<exists>s'. next_n 2 40 list_example = Some ([2, 1], s'))"
proof -
  have "service 100 [100, 200] = [200, 100]" by (simp add: service_def)
  then have "\<exists>s'. next_n (length [100, 200 :: nat]) 40 list_example = Some ([2, 1], s')"
    using list_round_robin(1)[OF list_example_ok(1) _ list_example_ok(2)] by (auto simp: list_example_values simp del: next_n.simps)
  moreover have "length [100, 200 :: nat] = 2" by simp
  ultimately show ?thesis using list_example_ok(1) by metis
qed

end
