(* ===== verification/Rtos_Queue.thy ===== *)
theory Rtos_Queue
  imports Rtos_Heap Rtos_List
begin

text \<open>
  The queues of the operating system, \<^verbatim>\<open>FreeRTOS/queue.c\<close>: items are copied into a ring of slots, tasks that find the queue full or empty wait in
  event lists, and a queue whose lists are being changed is locked against interrupts, which then only count.

  Pointers into the storage are addresses, \<open>storage\<close> holds the bytes from \<open>pcHead\<close> on. An event list is the list of its items in the order that
  \<^verbatim>\<open>list.c\<close> keeps (value and task). Mutexes have their holder, but the priorities that they hand on are not modelled; queue sets are not configured.
\<close>

section \<open>The code\<close>

datatype copy_position = queueSEND_TO_BACK | queueSEND_TO_FRONT | queueOVERWRITE

type_synonym event_list = "(u32 \<times> nat) list"

record queue =
  pcHead :: nat
  pcWriteTo :: nat
  pcTail :: nat
  pcReadFrom :: nat
  storage :: "u8 list"
  xMutexHolder :: nat
  xTasksWaitingToSend :: event_list
  xTasksWaitingToReceive :: event_list
  uxMessagesWaiting :: nat
  uxLength :: nat
  uxItemSize :: nat
  cRxLock :: int
  cTxLock :: int

abbreviation (input) queueUNLOCKED :: int where "queueUNLOCKED \<equiv> - 1"
abbreviation (input) queueLOCKED_UNMODIFIED :: int where "queueLOCKED_UNMODIFIED \<equiv> 0"
abbreviation (input) queueINT8_MAX :: int where "queueINT8_MAX \<equiv> 127"

text \<open>The event list operations of the scheduler: the first task is taken out, a task is put in by its value.\<close>

definition xTaskRemoveFromEventList :: "event_list \<Rightarrow> event_list" where
  "xTaskRemoveFromEventList es = tl es"

definition vTaskPlaceOnEventList :: "u32 \<Rightarrow> nat \<Rightarrow> event_list \<Rightarrow> event_list" where
  "vTaskPlaceOnEventList v t es = takeWhile (\<lambda>x. fst x \<le> v) es @ (v, t) # dropWhile (\<lambda>x. fst x \<le> v) es"

definition xQueueGenericReset :: "bool \<Rightarrow> queue \<Rightarrow> queue" where
  "xQueueGenericReset xNewQueue q =
     (let q = q\<lparr>pcTail := pcHead q + uxLength q * uxItemSize q, uxMessagesWaiting := 0, pcWriteTo := pcHead q,
                pcReadFrom := pcHead q + (uxLength q - 1) * uxItemSize q, cRxLock := queueUNLOCKED, cTxLock := queueUNLOCKED\<rparr>
      in if xNewQueue then q\<lparr>xTasksWaitingToSend := [], xTasksWaitingToReceive := []\<rparr>
         else q\<lparr>xTasksWaitingToSend := xTaskRemoveFromEventList (xTasksWaitingToSend q)\<rparr>)"

text \<open>A new queue at the address \<open>a\<close>, with its storage behind the structure of 72 bytes; the storage is not initialised.\<close>

definition prvInitialiseNewQueue :: "nat \<Rightarrow> nat \<Rightarrow> u8 list \<Rightarrow> nat \<Rightarrow> queue" where
  "prvInitialiseNewQueue uxQueueLength uxItemSz mem a =
     xQueueGenericReset True \<lparr>pcHead = (if uxItemSz = 0 then a else a + 72), pcWriteTo = 0, pcTail = 0, pcReadFrom = 0, storage = mem, xMutexHolder = 0,
       xTasksWaitingToSend = [], xTasksWaitingToReceive = [], uxMessagesWaiting = 0, uxLength = uxQueueLength, uxItemSize = uxItemSz, cRxLock = 0, cTxLock = 0\<rparr>"

definition xQueueGenericCreate :: "heap_env \<Rightarrow> u32 \<Rightarrow> u32 \<Rightarrow> u8 list \<Rightarrow> heap4 \<Rightarrow> (nat \<times> queue option \<times> heap4) option" where
  "xQueueGenericCreate env uxQueueLength uxItemSz mem h =
     (let xQueueSizeInBytes = uxQueueLength * uxItemSz in
      if \<not> uxQueueLength > 0 \<or> \<not> (uxItemSz = 0 \<or> uxQueueLength = xQueueSizeInBytes div uxItemSz) \<or> \<not> 72 + xQueueSizeInBytes > xQueueSizeInBytes
      then None
      else do {
        (pxNewQueue, h) \<leftarrow> pvPortMalloc env (72 + xQueueSizeInBytes) h;
        Some (pxNewQueue, if pxNewQueue \<noteq> 0 then Some (prvInitialiseNewQueue (unat uxQueueLength) (unat uxItemSz) (take (unat xQueueSizeInBytes) mem) pxNewQueue) else None, h)
      })"

definition prvCopyDataToQueue :: "u8 list \<Rightarrow> copy_position \<Rightarrow> queue \<Rightarrow> queue option" where
  "prvCopyDataToQueue pvItemToQueue xPosition q = do {
     (uxMessages, q) \<leftarrow>
       (if uxItemSize q = 0 then Some (uxMessagesWaiting q, if pcHead q = 0 then q\<lparr>xMutexHolder := 0\<rparr> else q)
        else if xPosition = queueSEND_TO_BACK then do {
          st \<leftarrow> memcpy (storage q) (pcWriteTo q - pcHead q) pvItemToQueue 0 (uxItemSize q);
          let w = pcWriteTo q + uxItemSize q;
          Some (uxMessagesWaiting q, q\<lparr>storage := st, pcWriteTo := if w \<ge> pcTail q then pcHead q else w\<rparr>)
        }
        else do {
          st \<leftarrow> memcpy (storage q) (pcReadFrom q - pcHead q) pvItemToQueue 0 (uxItemSize q);
          let r = pcReadFrom q - uxItemSize q;
          Some (if xPosition = queueOVERWRITE \<and> uxMessagesWaiting q > 0 then uxMessagesWaiting q - 1 else uxMessagesWaiting q,
            q\<lparr>storage := st, pcReadFrom := if r < pcHead q then pcTail q - uxItemSize q else r\<rparr>)
        });
     Some (q\<lparr>uxMessagesWaiting := uxMessages + 1\<rparr>)
   }"

definition prvCopyDataFromQueue :: "queue \<Rightarrow> (u8 list \<times> queue) option" where
  "prvCopyDataFromQueue q =
     (if uxItemSize q \<noteq> 0 then do {
        let r = pcReadFrom q + uxItemSize q;
        let q = q\<lparr>pcReadFrom := if r \<ge> pcTail q then pcHead q else r\<rparr>;
        buf \<leftarrow> memcpy (replicate (uxItemSize q) 0) 0 (storage q) (pcReadFrom q - pcHead q) (uxItemSize q);
        Some (buf, q)
      }
      else Some ([], q))"

definition prvLockQueue :: "queue \<Rightarrow> queue" where
  "prvLockQueue q = q\<lparr>cRxLock := if cRxLock q = queueUNLOCKED then queueLOCKED_UNMODIFIED else cRxLock q,
     cTxLock := if cTxLock q = queueUNLOCKED then queueLOCKED_UNMODIFIED else cTxLock q\<rparr>"

text \<open>The loops of \<^verbatim>\<open>prvUnlockQueue\<close>: as many waiting tasks are taken out of the list as items were counted; then its two critical sections.\<close>

fun unlock_loop :: "nat \<Rightarrow> event_list \<Rightarrow> event_list" where
  "unlock_loop (Suc n) (e # es) = unlock_loop n (xTaskRemoveFromEventList (e # es))"
| "unlock_loop n es = es"

definition unlock_tx :: "queue \<Rightarrow> queue" where
  "unlock_tx q = q\<lparr>xTasksWaitingToReceive := unlock_loop (nat (cTxLock q)) (xTasksWaitingToReceive q), cTxLock := queueUNLOCKED\<rparr>"

definition unlock_rx :: "queue \<Rightarrow> queue" where
  "unlock_rx q = q\<lparr>xTasksWaitingToSend := unlock_loop (nat (cRxLock q)) (xTasksWaitingToSend q), cRxLock := queueUNLOCKED\<rparr>"

definition prvUnlockQueue :: "queue \<Rightarrow> queue" where
  "prvUnlockQueue q = unlock_rx (unlock_tx q)"

definition prvIsQueueEmpty :: "queue \<Rightarrow> bool" where
  "prvIsQueueEmpty q \<longleftrightarrow> uxMessagesWaiting q = 0"

definition prvIsQueueFull :: "queue \<Rightarrow> bool" where
  "prvIsQueueFull q \<longleftrightarrow> uxMessagesWaiting q = uxLength q"

text \<open>
  The critical sections at the top of the loops of \<^verbatim>\<open>xQueueGenericSend\<close> and \<^verbatim>\<open>xQueueReceive\<close>: the outer \<open>None\<close> is a failed assertion or a bad access,
  the inner one says that there was no room or no item.
\<close>

definition send_section :: "u8 list \<Rightarrow> copy_position \<Rightarrow> queue \<Rightarrow> queue option option" where
  "send_section pvItemToQueue xCopyPosition q =
     (if uxMessagesWaiting q < uxLength q \<or> xCopyPosition = queueOVERWRITE then do {
        q \<leftarrow> prvCopyDataToQueue pvItemToQueue xCopyPosition q;
        Some (Some (if xTasksWaitingToReceive q \<noteq> [] then q\<lparr>xTasksWaitingToReceive := xTaskRemoveFromEventList (xTasksWaitingToReceive q)\<rparr> else q))
      }
      else Some None)"

definition receive_section :: "queue \<Rightarrow> (u8 list \<times> queue) option option" where
  "receive_section q =
     (if uxMessagesWaiting q > 0 then do {
        let n = uxMessagesWaiting q;
        (buf, q) \<leftarrow> prvCopyDataFromQueue q;
        let q = q\<lparr>uxMessagesWaiting := n - 1\<rparr>;
        Some (Some (buf, if xTasksWaitingToSend q \<noteq> [] then q\<lparr>xTasksWaitingToSend := xTaskRemoveFromEventList (xTasksWaitingToSend q)\<rparr> else q))
      }
      else Some None)"

definition xQueueGenericSendFromISR :: "u8 list \<Rightarrow> copy_position \<Rightarrow> queue \<Rightarrow> (bool \<times> queue) option" where
  "xQueueGenericSendFromISR pvItemToQueue xCopyPosition q =
     (if xCopyPosition = queueOVERWRITE \<and> uxLength q \<noteq> 1 then None
      else if uxMessagesWaiting q < uxLength q \<or> xCopyPosition = queueOVERWRITE then do {
        let lock = cTxLock q;
        q \<leftarrow> prvCopyDataToQueue pvItemToQueue xCopyPosition q;
        if lock = queueUNLOCKED
        then Some (True, if xTasksWaitingToReceive q \<noteq> [] then q\<lparr>xTasksWaitingToReceive := xTaskRemoveFromEventList (xTasksWaitingToReceive q)\<rparr> else q)
        else if lock = queueINT8_MAX then None
        else Some (True, q\<lparr>cTxLock := lock + 1\<rparr>)
      }
      else Some (False, q))"

definition xQueueReceiveFromISR :: "queue \<Rightarrow> (u8 list option \<times> queue) option" where
  "xQueueReceiveFromISR q =
     (if uxMessagesWaiting q > 0 then do {
        let lock = cRxLock q;
        let n = uxMessagesWaiting q;
        (buf, q) \<leftarrow> prvCopyDataFromQueue q;
        let q = q\<lparr>uxMessagesWaiting := n - 1\<rparr>;
        if lock = queueUNLOCKED
        then Some (Some buf, if xTasksWaitingToSend q \<noteq> [] then q\<lparr>xTasksWaitingToSend := xTaskRemoveFromEventList (xTasksWaitingToSend q)\<rparr> else q)
        else if lock = queueINT8_MAX then None
        else Some (Some buf, q\<lparr>cRxLock := lock + 1\<rparr>)
      }
      else Some (None, q))"

definition uxQueueMessagesWaiting :: "queue \<Rightarrow> nat" where
  "uxQueueMessagesWaiting q = uxMessagesWaiting q"

definition uxQueueSpacesAvailable :: "queue \<Rightarrow> nat" where
  "uxQueueSpacesAvailable q = uxLength q - uxMessagesWaiting q"

section \<open>The ring of slots\<close>

definition slot :: "queue \<Rightarrow> nat \<Rightarrow> u8 list" where
  "slot q i = take (uxItemSize q) (drop (i * uxItemSize q) (storage q))"

text \<open>The slot that was read last.\<close>

definition read_slot :: "queue \<Rightarrow> nat" where
  "read_slot q = (pcReadFrom q - pcHead q) div uxItemSize q"

definition queue_items :: "queue \<Rightarrow> u8 list list" where
  "queue_items q = map (\<lambda>k. slot q ((read_slot q + 1 + k) mod uxLength q)) [0..<uxMessagesWaiting q]"

definition ring_at :: "queue \<Rightarrow> nat \<Rightarrow> bool" where
  "ring_at q r \<longleftrightarrow> r < uxLength q \<and> length (storage q) = uxLength q * uxItemSize q \<and> pcTail q = pcHead q + uxLength q * uxItemSize q \<and>
     pcReadFrom q = pcHead q + r * uxItemSize q \<and> pcWriteTo q = pcHead q + ((r + 1 + uxMessagesWaiting q) mod uxLength q) * uxItemSize q"

definition queue_ok :: "queue \<Rightarrow> bool" where
  "queue_ok q \<longleftrightarrow> 0 < uxLength q \<and> uxMessagesWaiting q \<le> uxLength q \<and> 0 < pcHead q \<and> (uxItemSize q \<noteq> 0 \<longrightarrow> (\<exists>r. ring_at q r))"

lemma ring_at_slot: "ring_at q r \<Longrightarrow> uxItemSize q \<noteq> 0 \<Longrightarrow> read_slot q = r"
  by (simp add: ring_at_def read_slot_def)

lemma length_queue_items [simp]: "length (queue_items q) = uxMessagesWaiting q"
  by (simp add: queue_items_def)

lemma queue_items_zero: "uxItemSize q = 0 \<Longrightarrow> queue_items q = replicate (uxMessagesWaiting q) []"
  by (simp add: queue_items_def slot_def map_replicate_trivial)

lemma queue_items_at: "ring_at q r \<Longrightarrow> uxItemSize q \<noteq> 0 \<Longrightarrow> queue_items q = map (\<lambda>k. slot q ((r + 1 + k) mod uxLength q)) [0..<uxMessagesWaiting q]"
  by (simp add: queue_items_def ring_at_slot)

lemma mod_once: "b < n \<Longrightarrow> i < n \<Longrightarrow> (b + i) mod n = (if b + i < n then b + i else b + i - (n :: nat))"
  by (simp add: mod_if)

lemma mod_add_eq_iff:
  assumes "i < n" "j < n"
  shows "(a + i) mod n = (a + j) mod n \<longleftrightarrow> i = (j :: nat)"
proof -
  have "a mod n < n" using assms(1) by simp
  then show ?thesis using mod_once[of "a mod n" n i] mod_once[of "a mod n" n j] assms by (auto simp: mod_add_left_eq split: if_splits)
qed

lemma slot_in: "i < n \<Longrightarrow> i * z + z \<le> n * (z :: nat)"
  by (metis Suc_leI add.commute mult_Suc mult_le_mono1)

lemma slot_write:
  assumes "memcpy (storage q) (i * uxItemSize q) x 0 (uxItemSize q) = Some st" "length x = uxItemSize q" "length (storage q) = n * uxItemSize q" "j < n"
  shows "take (uxItemSize q) (drop (j * uxItemSize q) st) = (if j = i then x else slot q j)"
proof -
  let ?z = "uxItemSize q"
  have jn: "j * ?z + ?z \<le> length (storage q)" using slot_in[OF assms(4)] assms(3) by simp
  have len: "length st = length (storage q)" using memcpy_length[OF assms(1)] .
  have nth: "st ! (j * ?z + k) = (if j = i then x ! k else storage q ! (j * ?z + k))" if "k < ?z" for k
  proof -
    have "i * ?z \<le> j * ?z + k \<and> j * ?z + k < i * ?z + ?z \<longleftrightarrow> j = i"
    proof (cases "j = i")
      case False
      then have "j + 1 \<le> i \<or> i + 1 \<le> j" by linarith
      then have "(j + 1) * ?z \<le> i * ?z \<or> (i + 1) * ?z \<le> j * ?z" by (meson mult_le_mono1)
      then show ?thesis using False that by auto
    qed (use that in simp)
    then show ?thesis using memcpy_nth[OF assms(1), of "j * ?z + k"] jn that by simp
  qed
  show ?thesis by (rule nth_equalityI) (use jn len nth assms(2) in \<open>auto simp: slot_def\<close>)
qed

definition put_item :: "copy_position \<Rightarrow> u8 list \<Rightarrow> u8 list list \<Rightarrow> u8 list list" where
  "put_item cp x xs = (case cp of queueSEND_TO_BACK \<Rightarrow> xs @ [x] | queueSEND_TO_FRONT \<Rightarrow> x # xs | queueOVERWRITE \<Rightarrow> x # tl xs)"

text \<open>What copying leaves alone.\<close>

definition same_lists :: "queue \<Rightarrow> queue \<Rightarrow> bool" where
  "same_lists q q' \<longleftrightarrow> pcHead q' = pcHead q \<and> uxLength q' = uxLength q \<and> uxItemSize q' = uxItemSize q \<and> cRxLock q' = cRxLock q \<and> cTxLock q' = cTxLock q \<and>
     xTasksWaitingToSend q' = xTasksWaitingToSend q \<and> xTasksWaitingToReceive q' = xTasksWaitingToReceive q"

lemma ring_next:
  assumes "ring_at q r" "uxItemSize q \<noteq> 0" "i < uxLength q"
  shows "(if pcHead q + i * uxItemSize q + uxItemSize q \<ge> pcTail q then pcHead q else pcHead q + i * uxItemSize q + uxItemSize q) =
    pcHead q + ((i + 1) mod uxLength q) * uxItemSize q"
proof (cases "i + 1 = uxLength q")
  case True
  then have "pcTail q = pcHead q + i * uxItemSize q + uxItemSize q" using assms(1) by (simp add: ring_at_def flip: True)
  then show ?thesis using True by simp
next
  case False
  then have "i + 1 < uxLength q" using assms(3) by simp
  moreover from this have "(i + 1) * uxItemSize q < uxLength q * uxItemSize q" using assms(2) by (intro mult_strict_right_mono) simp_all
  ultimately show ?thesis using assms(1) by (simp add: ring_at_def)
qed

lemma copy_back_val:
  assumes "ring_at q r" "uxItemSize q \<noteq> 0" "length x = uxItemSize q" "uxMessagesWaiting q < uxLength q"
  shows "\<exists>q'. prvCopyDataToQueue x queueSEND_TO_BACK q = Some q' \<and> ring_at q' r \<and> queue_items q' = queue_items q @ [x] \<and> same_lists q q'"
proof -
  let ?z = "uxItemSize q" and ?L = "uxLength q" and ?n = "uxMessagesWaiting q"
  define w where "w = (r + 1 + ?n) mod ?L"
  note R = assms(1)[unfolded ring_at_def]
  have w: "w < ?L" "pcWriteTo q = pcHead q + w * ?z" using assms(4) R by (simp_all add: w_def)
  obtain st where st: "memcpy (storage q) (w * ?z) x 0 ?z = Some st"
    using memcpy_SomeI[of "w * ?z" ?z "storage q" 0 x] slot_in[OF w(1), of ?z] R assms(3) by simp
  let ?q = "q\<lparr>storage := st, pcWriteTo := pcHead q + ((w + 1) mod ?L) * ?z, uxMessagesWaiting := ?n + 1\<rparr>"
  have run: "prvCopyDataToQueue x queueSEND_TO_BACK q = Some ?q"
    using st w(2) ring_next[OF assms(1,2) w(1)] assms(2) by (simp add: prvCopyDataToQueue_def Let_def)
  have sl: "slot ?q j = (if j = w then x else slot q j)" if "j < ?L" for j
    using slot_write[OF st assms(3) _ that] R unfolding slot_def by simp
  have ring: "ring_at ?q r" using R memcpy_length[OF st] by (simp add: ring_at_def w_def mod_Suc_eq)
  have "queue_items ?q = map (\<lambda>k. slot ?q ((r + 1 + k) mod ?L)) [0..<?n] @ [slot ?q w]"
    using queue_items_at[OF ring] assms(2) by (simp add: w_def)
  moreover have "slot ?q ((r + 1 + k) mod ?L) = slot q ((r + 1 + k) mod ?L)" if "k < ?n" for k
    using sl[of "(r + 1 + k) mod ?L"] mod_add_eq_iff[of k ?L ?n "r + 1"] that assms(4) by (simp add: w_def)
  ultimately have "queue_items ?q = queue_items q @ [x]" using queue_items_at[OF assms(1,2)] sl[OF w(1)] by simp
  then show ?thesis using run ring by (simp add: same_lists_def)
qed

lemma ring_prev:
  assumes "ring_at q r" "uxItemSize q \<noteq> 0" "0 < pcHead q"
  shows "(if pcHead q + r * uxItemSize q - uxItemSize q < pcHead q then pcTail q - uxItemSize q else pcHead q + r * uxItemSize q - uxItemSize q) =
    pcHead q + ((r + uxLength q - 1) mod uxLength q) * uxItemSize q"
proof (cases r)
  case 0
  have "uxLength q * uxItemSize q - uxItemSize q = (uxLength q - 1) * uxItemSize q" by (simp add: diff_mult_distrib)
  moreover have "uxItemSize q \<le> uxLength q * uxItemSize q" using assms(1) by (cases "uxLength q") (simp_all add: ring_at_def)
  ultimately have "pcTail q - uxItemSize q = pcHead q + (uxLength q - 1) * uxItemSize q" using assms(1) by (simp only: ring_at_def)
  then show ?thesis using 0 assms by (auto simp: ring_at_def)
next
  case (Suc k)
  then have "(r + uxLength q - 1) mod uxLength q = k" using assms(1) by (simp add: ring_at_def)
  then show ?thesis using Suc by simp
qed

lemma copy_front_val:
  assumes "ring_at q r" "uxItemSize q \<noteq> 0" "length x = uxItemSize q" "0 < pcHead q" "cp \<noteq> queueSEND_TO_BACK"
    "uxMessagesWaiting q < uxLength q \<or> cp = queueOVERWRITE \<and> uxLength q = 1" "uxMessagesWaiting q \<le> uxLength q" "cp = queueOVERWRITE \<Longrightarrow> uxLength q = 1"
  shows "\<exists>q'. prvCopyDataToQueue x cp q = Some q' \<and> ring_at q' ((r + uxLength q - 1) mod uxLength q) \<and> queue_items q' = put_item cp x (queue_items q) \<and> same_lists q q'"
proof -
  let ?z = "uxItemSize q" and ?L = "uxLength q" and ?n = "uxMessagesWaiting q"
  note R = assms(1)[unfolded ring_at_def]
  define r' where "r' = (r + ?L - 1) mod ?L"
  define m where "m = (if cp = queueOVERWRITE \<and> ?n > 0 then ?n - 1 else ?n)"
  have mL: "m < ?L" using assms(6,7) by (auto simp: m_def)
  have rr: "r' < ?L" "(r' + 1) mod ?L = r"
  proof -
    show "r' < ?L" using R by (simp add: r'_def)
    have "(r + ?L - 1 + 1) mod ?L = r" using R by simp
    then show "(r' + 1) mod ?L = r" by (metis mod_add_left_eq r'_def)
  qed
  obtain st where st: "memcpy (storage q) (r * ?z) x 0 ?z = Some st"
    using memcpy_SomeI[of "r * ?z" ?z "storage q" 0 x] slot_in[of r ?L ?z] R assms(3) by auto
  let ?q = "q\<lparr>storage := st, pcReadFrom := pcHead q + r' * ?z, uxMessagesWaiting := m + 1\<rparr>"
  have run: "prvCopyDataToQueue x cp q = Some ?q"
    using st R ring_prev[OF assms(1,2,4)] assms(2,5) by (simp add: prvCopyDataToQueue_def Let_def m_def r'_def)
  have sl: "slot ?q j = (if j = r then x else slot q j)" if "j < ?L" for j
    using slot_write[OF st assms(3) _ that] R unfolding slot_def by simp
  have shift: "(r' + 1 + Suc k) mod ?L = (r + 1 + k) mod ?L" for k
    using mod_add_left_eq[of "r' + 1" ?L "Suc k"] rr(2) by simp
  have wr: "(r' + 1 + (m + 1)) mod ?L = (r + 1 + ?n) mod ?L"
    using shift[of ?n] assms(8) by (cases "cp = queueOVERWRITE \<and> ?n > 0") (simp_all add: m_def)
  have ring: "ring_at ?q r'" using R rr wr memcpy_length[OF st] by (simp add: ring_at_def)
  have "queue_items ?q = slot ?q r # map (\<lambda>k. slot ?q ((r + 1 + k) mod ?L)) [0..<m]"
    using queue_items_at[OF ring] assms(2) rr(2) shift by (simp add: map_upt_Suc del: upt_Suc)
  moreover have "slot ?q ((r + 1 + k) mod ?L) = slot q ((r + 1 + k) mod ?L)" if "k < m" for k
  proof -
    have "(r + Suc k) mod ?L \<noteq> (r + 0) mod ?L" using mod_add_eq_iff[of "Suc k" ?L 0 r] that mL by simp
    then show ?thesis using sl[of "(r + 1 + k) mod ?L"] R by simp
  qed
  ultimately have "queue_items ?q = x # map (\<lambda>k. slot q ((r + 1 + k) mod ?L)) [0..<m]" using sl[of r] R by simp
  moreover have "map (\<lambda>k. slot q ((r + 1 + k) mod ?L)) [0..<m] = (if cp = queueOVERWRITE then tl (queue_items q) else queue_items q)"
  proof (cases "cp = queueOVERWRITE")
    case True
    then have "m = 0" "length (queue_items q) \<le> 1" using mL assms(7,8) by simp_all
    then show ?thesis using True by (cases "queue_items q") auto
  qed (use queue_items_at[OF assms(1,2)] in \<open>simp add: m_def\<close>)
  ultimately show ?thesis using run ring assms(5) by (cases cp) (simp_all add: same_lists_def put_item_def r'_def)
qed

lemma copy_to_val:
  assumes "queue_ok q" "length x = uxItemSize q" "uxMessagesWaiting q < uxLength q \<or> cp = queueOVERWRITE" "cp = queueOVERWRITE \<Longrightarrow> uxLength q = 1 \<and> uxItemSize q \<noteq> 0"
  shows "\<exists>q'. prvCopyDataToQueue x cp q = Some q' \<and> queue_ok q' \<and> queue_items q' = put_item cp x (queue_items q) \<and> same_lists q q'"
proof (cases "uxItemSize q = 0")
  case True
  then have c: "cp \<noteq> queueOVERWRITE" "uxMessagesWaiting q < uxLength q" "0 < pcHead q" "x = []" using assms by (auto simp: queue_ok_def)
  let ?q = "q\<lparr>uxMessagesWaiting := uxMessagesWaiting q + 1\<rparr>"
  have "queue_items ?q = put_item cp x (queue_items q)"
    using True c queue_items_zero[of q] queue_items_zero[of ?q] by (cases cp) (simp_all add: put_item_def replicate_append_same[symmetric])
  then show ?thesis using True c assms(1) by (intro exI[of _ ?q]) (simp add: prvCopyDataToQueue_def queue_ok_def same_lists_def)
next
  case False
  then obtain r where r: "ring_at q r" using assms(1) by (auto simp: queue_ok_def)
  have Q: "0 < uxLength q" "uxMessagesWaiting q \<le> uxLength q" "0 < pcHead q" using assms(1) by (simp_all add: queue_ok_def)
  obtain q' r' where q': "prvCopyDataToQueue x cp q = Some q'" "ring_at q' r'" "queue_items q' = put_item cp x (queue_items q)" "same_lists q q'"
  proof (cases "cp = queueSEND_TO_BACK")
    case True
    then show ?thesis using copy_back_val[OF r False assms(2)] assms(3) that by (auto simp: put_item_def)
  next
    case front: False
    then show ?thesis using copy_front_val[OF r False assms(2) Q(3) front _ Q(2)] assms(3,4) that by blast
  qed
  have "uxMessagesWaiting q' \<le> uxLength q'"
  proof -
    have "uxMessagesWaiting q' = length (put_item cp x (queue_items q))" using length_queue_items[of q'] q'(3) by metis
    then show ?thesis using q'(4) assms(3,4) Q(2) by (cases cp) (auto simp: put_item_def same_lists_def)
  qed
  then show ?thesis using q' Q by (intro exI[of _ q']) (auto simp: queue_ok_def same_lists_def)
qed

lemma copy_from_val:
  assumes "queue_ok q" "0 < uxMessagesWaiting q"
  shows "\<exists>q'. prvCopyDataFromQueue q = Some (hd (queue_items q), q') \<and> same_lists q q' \<and>
    queue_ok (q'\<lparr>uxMessagesWaiting := uxMessagesWaiting q - 1\<rparr>) \<and> queue_items (q'\<lparr>uxMessagesWaiting := uxMessagesWaiting q - 1\<rparr>) = tl (queue_items q)"
proof (cases "uxItemSize q = 0")
  case True
  let ?q = "q\<lparr>uxMessagesWaiting := uxMessagesWaiting q - 1\<rparr>"
  have "queue_items ?q = tl (queue_items q)" "hd (queue_items q) = []" using True assms(2) queue_items_zero[of q] queue_items_zero[of ?q] by (cases "uxMessagesWaiting q"; simp)+
  then show ?thesis using True assms by (auto simp: prvCopyDataFromQueue_def queue_ok_def same_lists_def)
next
  case False
  let ?z = "uxItemSize q" and ?L = "uxLength q" and ?n = "uxMessagesWaiting q"
  obtain r where r: "ring_at q r" using assms(1) False by (auto simp: queue_ok_def)
  note R = r[unfolded ring_at_def]
  define r' where "r' = (r + 1) mod ?L"
  have rL: "r' < ?L" using R by (simp add: r'_def)
  let ?q = "q\<lparr>pcReadFrom := pcHead q + r' * ?z\<rparr>"
  let ?q' = "?q\<lparr>uxMessagesWaiting := ?n - 1\<rparr>"
  obtain m where n: "?n = Suc m" using assms(2) by (cases ?n) auto
  have items: "queue_items q = slot q r' # map (\<lambda>k. slot q ((r + 1 + Suc k) mod ?L)) [0..<m]"
    using queue_items_at[OF r False] n by (simp add: r'_def map_upt_Suc del: upt_Suc)
  have "memcpy (replicate ?z 0) 0 (storage q) (r' * ?z) ?z = Some (slot q r')"
    using slot_in[OF rL, of ?z] R by (simp add: memcpy_def slot_def add.commute)
  then have run: "prvCopyDataFromQueue q = Some (hd (queue_items q), ?q)"
    using ring_next[OF r False] R False by (simp add: prvCopyDataFromQueue_def Let_def items r'_def)
  have sh: "(r' + 1 + k) mod ?L = (r + 1 + Suc k) mod ?L" for k using mod_add_left_eq[of "r + 1" ?L "Suc k"] by (simp add: r'_def)
  have ring: "ring_at ?q' r'" using R rL sh[of m] n by (simp add: ring_at_def)
  have "queue_items ?q' = map (\<lambda>k. slot ?q' ((r' + 1 + k) mod ?L)) [0..<m]" using queue_items_at[OF ring] False n by simp
  also have "\<dots> = tl (queue_items q)" using sh by (simp add: items slot_def)
  finally show ?thesis using run ring assms(1) by (auto simp: queue_ok_def same_lists_def)
qed

lemma lists_upd [simp]:
  "queue_items (q\<lparr>xTasksWaitingToSend := a\<rparr>) = queue_items q" "queue_items (q\<lparr>xTasksWaitingToReceive := a\<rparr>) = queue_items q"
  "queue_items (q\<lparr>cRxLock := l\<rparr>) = queue_items q" "queue_items (q\<lparr>cTxLock := l\<rparr>) = queue_items q"
  "queue_ok (q\<lparr>xTasksWaitingToSend := a\<rparr>) = queue_ok q" "queue_ok (q\<lparr>xTasksWaitingToReceive := a\<rparr>) = queue_ok q"
  "queue_ok (q\<lparr>cRxLock := l\<rparr>) = queue_ok q" "queue_ok (q\<lparr>cTxLock := l\<rparr>) = queue_ok q"
  by (simp_all add: queue_items_def slot_def read_slot_def queue_ok_def ring_at_def)

end
