(* ===== verification/Rtos_Tasks.thy ===== *)
theory Rtos_Tasks
  imports Rtos_Queue
begin

text \<open>
  Tasks and interrupts on one queue of \<^verbatim>\<open>FreeRTOS/queue.c\<close>: the loops of \<^verbatim>\<open>xQueueGenericSend\<close> and \<^verbatim>\<open>xQueueReceive\<close>, cut at their critical sections, as a step relation with the
  interrupts and the tick between any two steps. An invariant counts the tasks that are on their way back to the top of the loop against the room (the items) there is; it gives
  that no wake-up is lost. Timeouts may expire at any check, so a wait without limit is covered by runs in which they do not.
\<close>

section \<open>Tasks and interrupts\<close>

text \<open>
  Several tasks use the queue, and interrupts come between any two critical sections. A task that calls \<^verbatim>\<open>xQueueGenericSend\<close> or \<^verbatim>\<open>xQueueReceive\<close> goes through the points
  of the loop:

  \<open>Top op block\<close> is the critical section at the top, \<open>block\<close> whether \<^verbatim>\<open>xTicksToWait\<close> is not 0; \<open>Left op\<close> is behind it, before \<^verbatim>\<open>vTaskSuspendAll\<close>; at \<open>Check\<close> the
  scheduler is suspended, the queue locked and the time not over; at \<open>Place\<close> the queue was found full (empty) again; at \<open>Unlock1\<close>, \<open>Unlock2\<close> and \<open>Resume\<close> the halves of
  \<^verbatim>\<open>prvUnlockQueue\<close> and \<^verbatim>\<open>xTaskResumeAll\<close> are next, and the flag says whether the loop goes on; at \<open>Recheck\<close> a receiver whose time is over looks at the queue once
  more. A task on an event list does not run.
\<close>

datatype queue_op = Send "u8 list" copy_position | Receive

datatype pc = Idle | Top queue_op bool | Left queue_op | Check queue_op | Place queue_op
  | Unlock1 queue_op bool | Unlock2 queue_op bool | Resume queue_op bool | Recheck

text \<open>
  The system: the queue, the points of the tasks, the task that has suspended the scheduler, and as a record the items that were accepted and
  delivered so far.
\<close>

record queue_system =
  the_queue :: queue
  tasks :: "pc list"
  holder :: "nat option"
  accepted :: "u8 list list"
  delivered :: "u8 list list"

definition on_list :: "nat \<Rightarrow> queue \<Rightarrow> bool" where
  "on_list t q \<longleftrightarrow> t \<in> snd ` set (xTasksWaitingToSend q) \<or> t \<in> snd ` set (xTasksWaitingToReceive q)"

definition full_for :: "queue_op \<Rightarrow> queue \<Rightarrow> bool" where
  "full_for op q \<longleftrightarrow> (case op of Send _ _ \<Rightarrow> prvIsQueueFull q | Receive \<Rightarrow> prvIsQueueEmpty q)"

definition place :: "queue_op \<Rightarrow> u32 \<Rightarrow> nat \<Rightarrow> queue \<Rightarrow> queue" where
  "place op v t q = (case op of
      Send _ _ \<Rightarrow> q\<lparr>xTasksWaitingToSend := vTaskPlaceOnEventList v t (xTasksWaitingToSend q)\<rparr>
    | Receive \<Rightarrow> q\<lparr>xTasksWaitingToReceive := vTaskPlaceOnEventList v t (xTasksWaitingToReceive q)\<rparr>)"

text \<open>
  One step of a task, up to the end of a critical section. \<open>expired\<close> is what \<^verbatim>\<open>xTaskCheckForTimeOut\<close> says; it sets the remaining time to 0 then. \<open>v\<close> is the value of the
  event list item of the task.
\<close>

definition task_step :: "nat \<Rightarrow> bool \<Rightarrow> u32 \<Rightarrow> queue_system \<Rightarrow> queue_system option" where
  "task_step t expired v s = (let q = the_queue s; go = (\<lambda>p. (tasks s)[t := p]) in case tasks s ! t of
      Idle \<Rightarrow> None
    | Top (Send x cp) block \<Rightarrow> do {
        r \<leftarrow> send_section x cp q;
        Some (case r of
          Some q \<Rightarrow> s\<lparr>the_queue := q, tasks := go Idle, accepted := accepted s @ [x]\<rparr>
        | None \<Rightarrow> s\<lparr>tasks := go (if block then Left (Send x cp) else Idle)\<rparr>)
      }
    | Top Receive block \<Rightarrow> do {
        r \<leftarrow> receive_section q;
        Some (case r of
          Some (x, q) \<Rightarrow> s\<lparr>the_queue := q, tasks := go Idle, delivered := delivered s @ [x]\<rparr>
        | None \<Rightarrow> s\<lparr>tasks := go (if block then Left Receive else Idle)\<rparr>)
      }
    | Left op \<Rightarrow> Some (s\<lparr>the_queue := prvLockQueue q, holder := Some t, tasks := go (if expired then Unlock1 op False else Check op)\<rparr>)
    | Check op \<Rightarrow> Some (s\<lparr>tasks := go (if full_for op q then Place op else Unlock1 op True)\<rparr>)
    | Place op \<Rightarrow> Some (s\<lparr>the_queue := place op v t q, tasks := go (Unlock1 op True)\<rparr>)
    | Unlock1 op again \<Rightarrow> Some (s\<lparr>the_queue := unlock_tx q, tasks := go (Unlock2 op again)\<rparr>)
    | Unlock2 op again \<Rightarrow> Some (s\<lparr>the_queue := unlock_rx q, tasks := go (Resume op again)\<rparr>)
    | Resume op again \<Rightarrow> Some (s\<lparr>holder := None, tasks := go (if again then Top op True else case op of Send _ _ \<Rightarrow> Idle | Receive \<Rightarrow> Recheck)\<rparr>)
    | Recheck \<Rightarrow> Some (s\<lparr>tasks := go (if prvIsQueueEmpty q then Idle else Top Receive False)\<rparr>))"

text \<open>Which task may run.\<close>

definition may_run :: "nat \<Rightarrow> queue_system \<Rightarrow> bool" where
  "may_run t s \<longleftrightarrow> t < length (tasks s) \<and> (holder s = None \<and> \<not> on_list t (the_queue s) \<or> holder s = Some t)"

definition item_ok :: "copy_position set \<Rightarrow> queue \<Rightarrow> u8 list \<Rightarrow> copy_position \<Rightarrow> bool" where
  "item_ok ps q x cp \<longleftrightarrow> cp \<in> ps \<and> length x = uxItemSize q \<and> (cp = queueOVERWRITE \<longrightarrow> uxLength q = 1 \<and> uxItemSize q \<noteq> 0)"

text \<open>
  The steps, with items sent to the positions in \<open>ps\<close>: a task begins a call, runs on, or is taken from its event list by the tick when its time is over; an interrupt sends or
  receives.
\<close>

inductive queue_step :: "copy_position set \<Rightarrow> queue_system \<Rightarrow> queue_system \<Rightarrow> bool" for ps where
  call_send: "t < length (tasks s) \<Longrightarrow> tasks s ! t = Idle \<Longrightarrow> holder s = None \<Longrightarrow> item_ok ps (the_queue s) x cp \<Longrightarrow>
     queue_step ps s (s\<lparr>tasks := (tasks s)[t := Top (Send x cp) block]\<rparr>)"
| call_receive: "t < length (tasks s) \<Longrightarrow> tasks s ! t = Idle \<Longrightarrow> holder s = None \<Longrightarrow>
     queue_step ps s (s\<lparr>tasks := (tasks s)[t := Top Receive block]\<rparr>)"
| run_task: "may_run t s \<Longrightarrow> task_step t expired v s = Some s' \<Longrightarrow> queue_step ps s s'"
| tick: "holder s = None \<Longrightarrow> queue_step ps s (s\<lparr>the_queue := (the_queue s)
     \<lparr>xTasksWaitingToSend := filter (\<lambda>e. snd e \<noteq> t) (xTasksWaitingToSend (the_queue s)),
      xTasksWaitingToReceive := filter (\<lambda>e. snd e \<noteq> t) (xTasksWaitingToReceive (the_queue s))\<rparr>\<rparr>)"
| isr_send: "item_ok ps (the_queue s) x cp \<Longrightarrow> xQueueGenericSendFromISR x cp (the_queue s) = Some (done, q) \<Longrightarrow>
     queue_step ps s (s\<lparr>the_queue := q, accepted := if done then accepted s @ [x] else accepted s\<rparr>)"
| isr_receive: "xQueueReceiveFromISR (the_queue s) = Some (r, q) \<Longrightarrow>
     queue_step ps s (s\<lparr>the_queue := q, delivered := (case r of None \<Rightarrow> delivered s | Some x \<Rightarrow> delivered s @ [x])\<rparr>)"

inductive_cases queue_stepE: "queue_step ps s s'"

inductive queue_reach :: "copy_position set \<Rightarrow> queue_system \<Rightarrow> queue_system \<Rightarrow> bool" for ps s0 where
  start: "queue_reach ps s0 s0"
| step: "queue_reach ps s0 s \<Longrightarrow> queue_step ps s s' \<Longrightarrow> queue_reach ps s0 s'"

section \<open>Both directions at once\<close>

text \<open>Senders wait for room and receivers for items; \<open>True\<close> is the direction of the senders.\<close>

definition wait_list :: "bool \<Rightarrow> queue \<Rightarrow> event_list" where
  "wait_list d q = (if d then xTasksWaitingToSend q else xTasksWaitingToReceive q)"

definition lock_of :: "bool \<Rightarrow> queue \<Rightarrow> int" where
  "lock_of d q = (if d then cRxLock q else cTxLock q)"

definition avail :: "bool \<Rightarrow> queue \<Rightarrow> nat" where
  "avail d q = (if d then uxLength q - uxMessagesWaiting q else uxMessagesWaiting q)"

definition is_send :: "queue_op \<Rightarrow> bool" where
  "is_send op = (case op of Send _ _ \<Rightarrow> True | Receive \<Rightarrow> False)"

lemma is_send_simps [simp]: "is_send (Send x cp)" "\<not> is_send Receive"
  by (simp_all add: is_send_def)

definition waiting :: "bool \<Rightarrow> queue \<Rightarrow> nat set" where
  "waiting d q = snd ` set (wait_list d q)"

text \<open>The task will come to the top of the loop before it leaves the call.\<close>

fun coming :: "bool \<Rightarrow> pc \<Rightarrow> bool" where
  "coming d (Top op b) \<longleftrightarrow> is_send op = d"
| "coming d (Unlock1 op again) \<longleftrightarrow> is_send op = d \<and> again"
| "coming d (Unlock2 op again) \<longleftrightarrow> is_send op = d \<and> again"
| "coming d (Resume op again) \<longleftrightarrow> is_send op = d \<and> again"
| "coming d p \<longleftrightarrow> False"

definition comers :: "bool \<Rightarrow> queue_system \<Rightarrow> nat set" where
  "comers d s = {t. t < length (tasks s) \<and> coming d (tasks s ! t) \<and> t \<notin> waiting d (the_queue s)}"

lemma finite_comers [simp]: "finite (comers d s)"
  by (rule finite_subset[of _ "{..<length (tasks s)}"]) (auto simp: comers_def)

text \<open>An item is put in (\<open>d\<close>) or taken out: what this makes of the counts, and of the lists when it wakes a waiting task itself or counts for the one who has locked the queue.\<close>

definition moved :: "bool \<Rightarrow> queue \<Rightarrow> queue \<Rightarrow> bool" where
  "moved d q q' \<longleftrightarrow> queue_ok q' \<and> uxItemSize q' = uxItemSize q \<and> uxLength q' = uxLength q \<and>
     avail d q' = avail d q - 1 \<and> avail (\<not> d) q' \<le> avail (\<not> d) q + 1 \<and> wait_list d q' = wait_list d q \<and> lock_of d q' = lock_of d q"

definition woken :: "bool \<Rightarrow> queue \<Rightarrow> queue \<Rightarrow> bool" where
  "woken d q q' \<longleftrightarrow> wait_list (\<not> d) q' = tl (wait_list (\<not> d) q) \<and> lock_of (\<not> d) q' = lock_of (\<not> d) q"

definition counted :: "bool \<Rightarrow> queue \<Rightarrow> queue \<Rightarrow> bool" where
  "counted d q q' \<longleftrightarrow> wait_list (\<not> d) q' = wait_list (\<not> d) q \<and> lock_of (\<not> d) q' = lock_of (\<not> d) q + 1"

lemma put_avail:
  assumes "queue_ok q" "item_ok ps q x cp" "uxMessagesWaiting q < uxLength q \<or> cp = queueOVERWRITE"
  shows "\<exists>q'. prvCopyDataToQueue x cp q = Some q' \<and> queue_ok q' \<and> queue_items q' = put_item cp x (queue_items q) \<and> same_lists q q' \<and> moved True q q'"
proof -
  obtain q' where q': "prvCopyDataToQueue x cp q = Some q'" "queue_ok q'" "queue_items q' = put_item cp x (queue_items q)" "same_lists q q'"
    using copy_to_val[OF assms(1) _ assms(3)] assms(2) by (auto simp: item_ok_def)
  have n: "uxMessagesWaiting q' = length (put_item cp x (queue_items q))" using length_queue_items[of q'] q'(3) by metis
  have "uxMessagesWaiting q \<le> uxLength q" using assms(1) by (simp add: queue_ok_def)
  then have "moved True q q'" using n q'(2,4) assms(2,3)
    by (cases cp) (auto simp: moved_def avail_def put_item_def same_lists_def wait_list_def lock_of_def item_ok_def)
  then show ?thesis using q' by blast
qed

lemma get_avail:
  assumes "queue_ok q" "0 < uxMessagesWaiting q"
  shows "\<exists>q'. prvCopyDataFromQueue q = Some (hd (queue_items q), q') \<and> queue_items (q'\<lparr>uxMessagesWaiting := uxMessagesWaiting q - 1\<rparr>) = tl (queue_items q) \<and>
    same_lists q q' \<and> moved False q (q'\<lparr>uxMessagesWaiting := uxMessagesWaiting q - 1\<rparr>)"
  using copy_from_val[OF assms] by (fastforce simp: moved_def avail_def same_lists_def wait_list_def lock_of_def)

lemma send_section_val:
  assumes "queue_ok q" "item_ok ps q x cp"
  shows "avail True q = 0 \<and> send_section x cp q = Some None \<or>
    (\<exists>q'. send_section x cp q = Some (Some q') \<and> queue_items q' = put_item cp x (queue_items q) \<and> moved True q q' \<and> woken True q q')"
proof (cases "uxMessagesWaiting q < uxLength q \<or> cp = queueOVERWRITE")
  case True
  obtain q' where q': "prvCopyDataToQueue x cp q = Some q'" "queue_ok q'" "queue_items q' = put_item cp x (queue_items q)" "same_lists q q'" "moved True q q'"
    using put_avail[OF assms True] by blast
  then show ?thesis using True
    by (simp add: send_section_def xTaskRemoveFromEventList_def moved_def woken_def avail_def wait_list_def lock_of_def same_lists_def)
qed (simp add: send_section_def avail_def)

lemma receive_section_val:
  assumes "queue_ok q"
  shows "avail False q = 0 \<and> receive_section q = Some None \<or>
    (\<exists>q'. receive_section q = Some (Some (hd (queue_items q), q')) \<and> queue_items q \<noteq> [] \<and> queue_items q' = tl (queue_items q) \<and> moved False q q' \<and> woken False q q')"
proof (cases "0 < uxMessagesWaiting q")
  case True
  obtain q' where q': "prvCopyDataFromQueue q = Some (hd (queue_items q), q')" "queue_items (q'\<lparr>uxMessagesWaiting := uxMessagesWaiting q - 1\<rparr>) = tl (queue_items q)"
    "same_lists q q'" "moved False q (q'\<lparr>uxMessagesWaiting := uxMessagesWaiting q - 1\<rparr>)" using get_avail[OF assms True] by blast
  have "queue_items q \<noteq> []" using length_queue_items[of q] True by (metis less_numeral_extra(3) list.size(3))
  then show ?thesis using True q'
    by (simp add: receive_section_def Let_def xTaskRemoveFromEventList_def moved_def woken_def avail_def wait_list_def lock_of_def same_lists_def)
qed (simp add: receive_section_def avail_def)

lemma isr_send_val:
  assumes "queue_ok q" "item_ok ps q x cp" "xQueueGenericSendFromISR x cp q = Some (done, q')"
  shows "\<not> done \<and> q' = q \<or> done \<and> queue_items q' = put_item cp x (queue_items q) \<and> moved True q q' \<and> (if cTxLock q = - 1 then woken True q q' else counted True q q')"
proof (cases "uxMessagesWaiting q < uxLength q \<or> cp = queueOVERWRITE")
  case True
  obtain q1 where q1: "prvCopyDataToQueue x cp q = Some q1" "queue_ok q1" "queue_items q1 = put_item cp x (queue_items q)" "same_lists q q1" "moved True q q1"
    using put_avail[OF assms(1,2) True] by blast
  then show ?thesis using True assms(3)
    by (auto simp: xQueueGenericSendFromISR_def Let_def xTaskRemoveFromEventList_def moved_def woken_def counted_def avail_def wait_list_def lock_of_def same_lists_def split: if_splits)
qed (use assms(3) in \<open>auto simp: xQueueGenericSendFromISR_def split: if_splits\<close>)

lemma isr_receive_val:
  assumes "queue_ok q" "xQueueReceiveFromISR q = Some (r, q')"
  shows "r = None \<and> q' = q \<or> r = Some (hd (queue_items q)) \<and> queue_items q \<noteq> [] \<and> queue_items q' = tl (queue_items q) \<and> moved False q q' \<and>
    (if cRxLock q = - 1 then woken False q q' else counted False q q')"
proof (cases "0 < uxMessagesWaiting q")
  case True
  obtain q1 where q1: "prvCopyDataFromQueue q = Some (hd (queue_items q), q1)" "queue_items (q1\<lparr>uxMessagesWaiting := uxMessagesWaiting q - 1\<rparr>) = tl (queue_items q)"
    "same_lists q q1" "moved False q (q1\<lparr>uxMessagesWaiting := uxMessagesWaiting q - 1\<rparr>)" using get_avail[OF assms(1) True] by blast
  have "queue_items q \<noteq> []" using length_queue_items[of q] True by (metis less_numeral_extra(3) list.size(3))
  then show ?thesis using True assms(2) q1
    by (auto simp: xQueueReceiveFromISR_def Let_def xTaskRemoveFromEventList_def moved_def woken_def counted_def avail_def wait_list_def lock_of_def same_lists_def split: if_splits)
qed (use assms(2) in \<open>auto simp: xQueueReceiveFromISR_def split: if_splits\<close>)

section \<open>The invariant of the system\<close>

fun op_of :: "pc \<Rightarrow> queue_op option" where
  "op_of (Top op b) = Some op"
| "op_of (Left op) = Some op"
| "op_of (Check op) = Some op"
| "op_of (Place op) = Some op"
| "op_of (Unlock1 op b) = Some op"
| "op_of (Unlock2 op b) = Some op"
| "op_of (Resume op b) = Some op"
| "op_of p = None"

text \<open>Points at which the scheduler is not suspended, and what the locks are at the others.\<close>

fun outside :: "pc \<Rightarrow> bool" where
  "outside Idle \<longleftrightarrow> True"
| "outside (Top op b) \<longleftrightarrow> True"
| "outside (Left op) \<longleftrightarrow> True"
| "outside Recheck \<longleftrightarrow> True"
| "outside p \<longleftrightarrow> False"

fun locks_at :: "pc \<Rightarrow> queue \<Rightarrow> bool" where
  "locks_at (Unlock2 op b) q \<longleftrightarrow> lock_of False q = - 1 \<and> 0 \<le> lock_of True q"
| "locks_at (Resume op b) q \<longleftrightarrow> (\<forall>d. lock_of d q = - 1)"
| "locks_at p q \<longleftrightarrow> (\<forall>d. 0 \<le> lock_of d q)"

definition held_ok :: "queue_system \<Rightarrow> bool" where
  "held_ok s \<longleftrightarrow> (case holder s of
      None \<Rightarrow> (\<forall>t < length (tasks s). outside (tasks s ! t)) \<and> (\<forall>d. lock_of d (the_queue s) = - 1)
    | Some h \<Rightarrow> h < length (tasks s) \<and> \<not> outside (tasks s ! h) \<and> (\<forall>t < length (tasks s). t \<noteq> h \<longrightarrow> outside (tasks s ! t)) \<and> locks_at (tasks s ! h) (the_queue s))"

definition lists_ok :: "queue_system \<Rightarrow> bool" where
  "lists_ok s \<longleftrightarrow> (\<forall>d. distinct (map snd (wait_list d (the_queue s))) \<and>
     (\<forall>t \<in> waiting d (the_queue s). t < length (tasks s) \<and> coming d (tasks s ! t)))"

definition count_ok :: "bool \<Rightarrow> queue_system \<Rightarrow> bool" where
  "count_ok d s \<longleftrightarrow> (wait_list d (the_queue s) \<noteq> [] \<longrightarrow> avail d (the_queue s) \<le> card (comers d s) + nat (lock_of d (the_queue s)))"

definition place_ok :: "queue_system \<Rightarrow> bool" where
  "place_ok s \<longleftrightarrow> (\<forall>t op. t < length (tasks s) \<and> tasks s ! t = Place op \<longrightarrow> avail (is_send op) (the_queue s) \<le> nat (lock_of (is_send op) (the_queue s)))"

definition ops_ok :: "copy_position set \<Rightarrow> queue_system \<Rightarrow> bool" where
  "ops_ok ps s \<longleftrightarrow> (\<forall>t x cp. t < length (tasks s) \<and> op_of (tasks s ! t) = Some (Send x cp) \<longrightarrow> item_ok ps (the_queue s) x cp)"

definition sys_ok :: "copy_position set \<Rightarrow> queue_system \<Rightarrow> bool" where
  "sys_ok ps s \<longleftrightarrow> queue_ok (the_queue s) \<and> held_ok s \<and> lists_ok s \<and> (\<forall>d. count_ok d s) \<and> place_ok s \<and> ops_ok ps s"

lemma waiting_coming: "lists_ok s \<Longrightarrow> t \<in> waiting d (the_queue s) \<Longrightarrow> t < length (tasks s) \<and> coming d (tasks s ! t)"
  by (simp add: lists_ok_def)

lemma on_list_iff: "on_list t q \<longleftrightarrow> (\<exists>d. t \<in> waiting d q)"
  by (simp add: on_list_def waiting_def wait_list_def ex_bool_eq)

lemma count_le:
  assumes "count_ok d s" "wait_list d q' \<noteq> [] \<Longrightarrow> wait_list d (the_queue s) \<noteq> [] \<and> A \<subseteq> comers d s' \<and> avail d q' + card (comers d s) + nat (lock_of d (the_queue s)) \<le> avail d (the_queue s) + card A + nat (lock_of d q')"
    "the_queue s' = q'"
  shows "count_ok d s'"
proof -
  have "avail d q' \<le> card (comers d s') + nat (lock_of d q')" if ne: "wait_list d q' \<noteq> []"
    using assms(1) assms(2)[OF ne] card_mono[of "comers d s'" A] by (simp add: count_ok_def)
  then show ?thesis using assms(3) by (simp add: count_ok_def)
qed

text \<open>Only the point of a task changes.\<close>

lemma count_point:
  assumes "count_ok d s" "the_queue s' = the_queue s" "tasks s' = (tasks s)[t := p]" "t < length (tasks s)"
    "coming d (tasks s ! t) \<Longrightarrow> t \<notin> waiting d (the_queue s) \<Longrightarrow> coming d p \<or> avail d (the_queue s) = 0"
  shows "count_ok d s'"
proof (cases "coming d (tasks s ! t) \<and> t \<notin> waiting d (the_queue s) \<and> \<not> coming d p")
  case True
  then show ?thesis using assms(2,5) by (simp add: count_ok_def)
next
  case False
  then have "comers d s \<subseteq> comers d s'" using assms(2-4) by (auto simp: comers_def nth_list_update)
  then show ?thesis using assms(1,2) by (intro count_le[OF assms(1), of "the_queue s" "comers d s"]) simp_all
qed

lemma wait_tl:
  assumes "lists_ok s" "wait_list d q' = tl (wait_list d (the_queue s))" "wait_list d (the_queue s) = e # es"
  shows "snd e \<notin> waiting d q'" "snd e \<in> waiting d (the_queue s)" "waiting d q' \<subseteq> waiting d (the_queue s)"
proof -
  have "distinct (map snd (e # es))" using assms(1,3) by (metis lists_ok_def)
  then show "snd e \<notin> waiting d q'" "snd e \<in> waiting d (the_queue s)" "waiting d q' \<subseteq> waiting d (the_queue s)"
    using assms(2,3) by (auto simp: waiting_def)
qed

lemma count_woken:
  assumes "count_ok e s" "lists_ok s" "wait_list e q' = tl (wait_list e (the_queue s))" "avail e q' \<le> avail e (the_queue s) + 1" "lock_of e q' = lock_of e (the_queue s)"
    "the_queue s' = q'" "length (tasks s') = length (tasks s)" "\<And>u. u < length (tasks s) \<Longrightarrow> coming e (tasks s ! u) \<Longrightarrow> coming e (tasks s' ! u)"
  shows "count_ok e s'"
proof (cases "wait_list e (the_queue s)")
  case Nil
  then show ?thesis using assms(3,6) by (simp add: count_ok_def)
next
  case (Cons w ws)
  note w = wait_tl[OF assms(2,3) Cons]
  have "insert (snd w) (comers e s) \<subseteq> comers e s'"
    using w assms(6-8) waiting_coming[OF assms(2) w(2)] by (auto simp: comers_def)
  moreover have "snd w \<notin> comers e s" using w(2) by (simp add: comers_def)
  ultimately show ?thesis using assms(4-6) Cons
    by (intro count_le[OF assms(1), of q' "insert (snd w) (comers e s)"]) simp_all
qed

lemma count_counted:
  assumes "count_ok e s" "wait_list e q' = wait_list e (the_queue s)" "avail e q' \<le> avail e (the_queue s) + 1" "lock_of e q' = lock_of e (the_queue s) + 1"
    "0 \<le> lock_of e (the_queue s)" "the_queue s' = q'" "tasks s' = tasks s"
  shows "count_ok e s'"
proof -
  have "comers e s \<subseteq> comers e s'" using assms(2,6,7) by (auto simp: comers_def waiting_def)
  then show ?thesis using assms by (intro count_le[OF assms(1), of q' "comers e s"]) (simp_all add: nat_add_distrib)
qed

text \<open>The direction whose room (or items) is used; \<open>t\<close> is the task that leaves its call, if one does.\<close>

lemma count_used:
  assumes "count_ok d s" "wait_list d q' = wait_list d (the_queue s)" "avail d q' = avail d (the_queue s) - 1" "lock_of d q' = lock_of d (the_queue s)"
    "the_queue s' = q'" "length (tasks s') = length (tasks s)" "\<And>u. u < length (tasks s) \<Longrightarrow> u \<noteq> t \<Longrightarrow> coming d (tasks s ! u) \<Longrightarrow> coming d (tasks s' ! u)"
  shows "count_ok d s'"
proof -
  have "comers d s - {t} \<subseteq> comers d s'" using assms(2,5-7) by (auto simp: comers_def waiting_def)
  moreover have "card (comers d s) \<le> card (comers d s - {t}) + 1" by (cases "t \<in> comers d s") (simp_all add: card_Diff_singleton)
  moreover have "avail d (the_queue s) = 0 \<or> avail d (the_queue s) = avail d q' + 1" using assms(3) by linarith
  ultimately show ?thesis
  proof (cases "avail d (the_queue s) = 0")
    case True
    then show ?thesis using assms(3,5) by (simp add: count_ok_def)
  next
    case False
    then show ?thesis using assms(2-5) \<open>comers d s - {t} \<subseteq> comers d s'\<close> \<open>card (comers d s) \<le> card (comers d s - {t}) + 1\<close>
      by (intro count_le[OF assms(1), of q' "comers d s - {t}"]) simp_all
  qed
qed

lemma locks_at_mono:
  assumes "locks_at p q" "\<And>d. lock_of d q' = lock_of d q \<or> 0 \<le> lock_of d q \<and> 0 \<le> lock_of d q'"
  shows "locks_at p q'"
  using assms(1) assms(2)[of True] assms(2)[of False] by (cases p) (auto simp: all_bool_eq)

lemma item_ok_cong: "uxItemSize q' = uxItemSize q \<Longrightarrow> uxLength q' = uxLength q \<Longrightarrow> item_ok ps q' x cp = item_ok ps q x cp"
  by (simp add: item_ok_def)

text \<open>A task or an interrupt puts an item in or takes one out.\<close>

lemma transfer_ok:
  assumes "sys_ok ps s" "moved d (the_queue s) (the_queue s')" "holder s' = holder s"
    "tasks s' = tasks s \<or> holder s = None \<and> t < length (tasks s) \<and> \<not> on_list t (the_queue s) \<and> is_send op = d \<and> tasks s ! t = Top op b \<and> tasks s' = (tasks s)[t := Idle]"
    "lock_of (\<not> d) (the_queue s) = - 1 \<and> woken d (the_queue s) (the_queue s') \<or> 0 \<le> lock_of (\<not> d) (the_queue s) \<and> counted d (the_queue s) (the_queue s') \<and> tasks s' = tasks s"
  shows "sys_ok ps s'"
proof -
  let ?q = "the_queue s" and ?q' = "the_queue s'"
  have S: "queue_ok ?q" "held_ok s" "lists_ok s" "\<And>e. count_ok e s" "place_ok s" "ops_ok ps s" using assms(1) by (simp_all add: sys_ok_def)
  note M = assms(2)[unfolded moved_def]
  have len: "length (tasks s') = length (tasks s)" using assms(4) by auto
  have pc: "tasks s' ! u = tasks s ! u \<or> u = t \<and> tasks s' ! u = Idle \<and> (\<forall>e. u \<notin> waiting e ?q) \<and> tasks s ! u = Top op b \<and> is_send op = d" if "u < length (tasks s)" for u
    using assms(4) that by (cases "u = t") (auto simp: on_list_iff)
  have pc1: "tasks s' ! u = tasks s ! u" if "u < length (tasks s)" "u \<noteq> t" for u using pc[OF that(1)] that(2) by blast
  have pc2: "coming (\<not> d) (tasks s' ! u)" if "u < length (tasks s)" "coming (\<not> d) (tasks s ! u)" for u using pc[OF that(1)] that(2) by fastforce
  have wl: "wait_list d ?q' = wait_list d ?q" "wait_list (\<not> d) ?q' = tl (wait_list (\<not> d) ?q) \<or> wait_list (\<not> d) ?q' = wait_list (\<not> d) ?q"
    using M assms(5) by (auto simp: woken_def counted_def)
  then have wl': "wait_list e ?q' = tl (wait_list e ?q) \<or> wait_list e ?q' = wait_list e ?q" for e by (cases "e = d") auto
  have sub: "waiting e ?q' \<subseteq> waiting e ?q" for e using wl'[of e] by (cases "wait_list e ?q") (auto simp: waiting_def)
  have lk: "lock_of e ?q' = lock_of e ?q \<or> 0 \<le> lock_of e ?q \<and> 0 \<le> lock_of e ?q'" for e
    using M assms(5) by (cases "e = d") (auto simp: woken_def counted_def)
  have lists: "lists_ok s'"
    unfolding lists_ok_def
  proof (intro allI conjI ballI)
    show "distinct (map snd (wait_list e ?q'))" for e using S(3) wl'[of e] by (auto simp: lists_ok_def map_tl distinct_tl)
    show "u < length (tasks s')" "coming e (tasks s' ! u)" if u: "u \<in> waiting e ?q'" for e u
    proof -
      have w: "u \<in> waiting e ?q" using u sub by blast
      show "u < length (tasks s')" "coming e (tasks s' ! u)" using waiting_coming[OF S(3) w] pc[of u] w len by metis+
    qed
  qed
  have held: "held_ok s'"
  proof (cases "holder s")
    case None
    then have o: "outside (tasks s ! u)" "lock_of e ?q = - 1" if "u < length (tasks s)" for u e using S(2) that by (simp_all add: held_ok_def)
    have l: "lock_of e ?q = - 1" for e using S(2) None by (simp add: held_ok_def)
    then have "lock_of e ?q' = - 1" for e using lk[of e] by simp
    moreover have "outside (tasks s' ! u)" if "u < length (tasks s)" for u using pc[OF that] o(1)[OF that] by fastforce
    ultimately show ?thesis using None assms(3) len by (simp add: held_ok_def)
  next
    case (Some h)
    then have "tasks s' = tasks s" using assms(4) by auto
    then show ?thesis using S(2) Some assms(3) locks_at_mono[OF _ lk] by (auto simp: held_ok_def)
  qed
  have "count_ok d s'" using S(4) wl(1) M len pc1 by (intro count_used[of d s ?q' s' t]) simp_all
  moreover have "count_ok (\<not> d) s'"
  proof (cases "lock_of (\<not> d) ?q = - 1 \<and> woken d ?q ?q'")
    case True
    then show ?thesis using M len pc2 S(3,4) by (intro count_woken[of "\<not> d" s ?q' s']) (simp_all add: woken_def)
  next
    case False
    then show ?thesis using M S(4) assms(5) by (intro count_counted[of "\<not> d" s ?q' s']) (auto simp: counted_def)
  qed
  ultimately have counts: "count_ok e s'" for e by (cases "e = d") auto
  have place: "place_ok s'" unfolding place_ok_def
  proof (intro allI impI)
    fix u o1 assume a: "u < length (tasks s') \<and> tasks s' ! u = Place o1"
    then have p: "u < length (tasks s)" "tasks s ! u = Place o1" using pc[of u] len by auto
    then have av: "avail (is_send o1) ?q \<le> nat (lock_of (is_send o1) ?q)" using S(5) by (simp add: place_ok_def)
    have "locks_at (Place o1) ?q" using S(2) p by (auto simp: held_ok_def split: option.splits)
    then have l: "0 \<le> lock_of e ?q" for e by simp
    have "counted d ?q ?q'" using assms(5) l[of "\<not> d"] by simp
    then show "avail (is_send o1) ?q' \<le> nat (lock_of (is_send o1) ?q')" using av M l[of "is_send o1"]
      by (cases "is_send o1 = d") (auto simp: counted_def nat_add_distrib)
  qed
  have "ops_ok ps s'" using S(6) pc len item_ok_cong[of ?q' ?q] M unfolding ops_ok_def by (metis op_of.simps(8) option.distinct(1))
  then show ?thesis using M lists held counts place by (simp add: sys_ok_def)
qed

lemma sys_okD:
  assumes "sys_ok ps s"
  shows "queue_ok (the_queue s)" "held_ok s" "lists_ok s" "count_ok d s" "place_ok s" "ops_ok ps s"
  using assms by (simp_all add: sys_ok_def)

lemma heldD:
  assumes "held_ok s"
  shows "holder s = None \<Longrightarrow> t < length (tasks s) \<Longrightarrow> outside (tasks s ! t)" "holder s = None \<Longrightarrow> lock_of d (the_queue s) = - 1"
    "holder s = Some h \<Longrightarrow> h < length (tasks s) \<and> \<not> outside (tasks s ! h) \<and> locks_at (tasks s ! h) (the_queue s)"
    "holder s = Some h \<Longrightarrow> t < length (tasks s) \<Longrightarrow> t \<noteq> h \<Longrightarrow> outside (tasks s ! t)"
  using assms by (auto simp: held_ok_def)

text \<open>The points of the other tasks stay, and the parts of the invariant that only look at points.\<close>

lemma held_step:
  assumes "held_ok s" "t < length (tasks s)" "tasks s' = (tasks s)[t := p]" "holder s = None \<or> holder s = Some t"
    "if outside p then holder s' = None \<and> (\<forall>d. lock_of d (the_queue s') = - 1) else holder s' = Some t \<and> locks_at p (the_queue s')"
  shows "held_ok s'"
proof -
  have o: "outside (tasks s ! u)" if "u < length (tasks s)" "u \<noteq> t" for u
    using heldD(1)[OF assms(1) _ that(1)] heldD(4)[OF assms(1) _ that(1)] assms(4) that(2) by metis
  have o': "outside (tasks s' ! u)" if "u < length (tasks s)" "u \<noteq> t" for u using o[OF that] assms(3) that(2) by simp
  have t: "tasks s' ! t = p" "length (tasks s') = length (tasks s)" using assms(2,3) by simp_all
  show ?thesis
  proof (cases "outside p")
    case True
    then have "outside (tasks s' ! u)" if "u < length (tasks s)" for u using o'[OF that] t(1) by (cases "u = t") simp_all
    then show ?thesis using True assms(5) t(2) by (simp add: held_ok_def)
  next
    case False
    then show ?thesis using assms(2,5) t o' by (simp add: held_ok_def)
  qed
qed

lemma place_step:
  assumes "held_ok s" "t < length (tasks s)" "tasks s' = (tasks s)[t := p]" "holder s = None \<or> holder s = Some t"
    "\<And>op. p = Place op \<Longrightarrow> avail (is_send op) (the_queue s') \<le> nat (lock_of (is_send op) (the_queue s'))"
  shows "place_ok s'"
  unfolding place_ok_def
proof (intro allI impI)
  fix u op assume a: "u < length (tasks s') \<and> tasks s' ! u = Place op"
  have "u = t"
  proof (rule ccontr)
    assume "u \<noteq> t"
    then have "\<not> outside (tasks s ! u)" "u < length (tasks s)" using a assms(3) by auto
    then show False using heldD(1)[OF assms(1), of u] heldD(4)[OF assms(1), of t u] assms(4) \<open>u \<noteq> t\<close> by metis
  qed
  then show "avail (is_send op) (the_queue s') \<le> nat (lock_of (is_send op) (the_queue s'))" using a assms(2,3,5) by simp
qed

lemma ops_step:
  assumes "ops_ok ps s" "tasks s' = (tasks s)[t := p]" "uxItemSize (the_queue s') = uxItemSize (the_queue s)" "uxLength (the_queue s') = uxLength (the_queue s)"
    "\<And>x cp. op_of p = Some (Send x cp) \<Longrightarrow> item_ok ps (the_queue s) x cp"
  shows "ops_ok ps s'"
  unfolding ops_ok_def
proof (intro allI impI)
  fix u x cp assume a: "u < length (tasks s') \<and> op_of (tasks s' ! u) = Some (Send x cp)"
  have "item_ok ps (the_queue s) x cp"
  proof (cases "u = t")
    case True
    then have "op_of p = Some (Send x cp)" using a assms(2) by auto
    then show ?thesis by (rule assms(5))
  next
    case False
    then show ?thesis using a assms(1,2) by (simp add: ops_ok_def)
  qed
  then show "item_ok ps (the_queue s') x cp" using item_ok_cong[OF assms(3,4)] by simp
qed

lemma lists_step:
  assumes "lists_ok s" "tasks s' = (tasks s)[t := p]" "t < length (tasks s)" "\<And>d. distinct (map snd (wait_list d (the_queue s')))"
    "\<And>d u. u \<in> waiting d (the_queue s') \<Longrightarrow> u \<in> waiting d (the_queue s) \<or> u = t"
    "\<And>d. t \<in> waiting d (the_queue s') \<Longrightarrow> coming d p"
  shows "lists_ok s'"
  unfolding lists_ok_def
proof (intro allI conjI ballI)
  show "u < length (tasks s')" "coming d (tasks s' ! u)" if u: "u \<in> waiting d (the_queue s')" for d u
  proof -
    have "u = t \<or> u \<noteq> t \<and> u < length (tasks s) \<and> coming d (tasks s ! u)" using assms(5)[OF u] waiting_coming[OF assms(1), of u d] by metis
    then show "u < length (tasks s')" "coming d (tasks s' ! u)" using assms(2,3) assms(6)[of d] u by auto
  qed
qed (use assms(4) in simp)

text \<open>Only the point of one task changes.\<close>

lemma point_ok:
  assumes "sys_ok ps s" "t < length (tasks s)" "the_queue s' = the_queue s" "tasks s' = (tasks s)[t := p]" "holder s = None \<or> holder s = Some t"
    "\<And>d. t \<in> waiting d (the_queue s) \<Longrightarrow> coming d p" "\<And>d. coming d (tasks s ! t) \<Longrightarrow> t \<notin> waiting d (the_queue s) \<Longrightarrow> coming d p \<or> avail d (the_queue s) = 0"
    "if outside p then holder s' = None \<and> (\<forall>d. lock_of d (the_queue s) = - 1) else holder s' = Some t \<and> locks_at p (the_queue s)"
    "\<And>op. p = Place op \<Longrightarrow> avail (is_send op) (the_queue s) \<le> nat (lock_of (is_send op) (the_queue s))"
    "\<And>x cp. op_of p = Some (Send x cp) \<Longrightarrow> item_ok ps (the_queue s) x cp"
  shows "sys_ok ps s'"
proof -
  note S = sys_okD[OF assms(1)]
  have "held_ok s'" using held_step[OF S(2) assms(2,4,5)] assms(3,8) by simp
  moreover have "place_ok s'" using place_step[OF S(2) assms(2,4,5)] assms(3,9) by simp
  moreover have "ops_ok ps s'" using ops_step[OF S(6) assms(4)] assms(3,10) by simp
  moreover have "lists_ok s'" using lists_step[OF S(3) assms(4,2)] assms(3,6) S(3) by (simp add: lists_ok_def)
  moreover have "count_ok d s'" for d using count_point[OF S(4) assms(3,4,2)] assms(7) by blast
  ultimately show ?thesis using S(1) assms(3) by (simp add: sys_ok_def)
qed

lemma unlock_loop_drop: "unlock_loop k es = drop k es"
  by (induction k es rule: unlock_loop.induct) (simp_all add: xTaskRemoveFromEventList_def)

lemma count_unlock:
  assumes "count_ok e s" "lists_ok s" "wait_list e q' = drop (nat (lock_of e (the_queue s))) (wait_list e (the_queue s))" "avail e q' = avail e (the_queue s)"
    "the_queue s' = q'" "length (tasks s') = length (tasks s)" "\<And>u. u < length (tasks s) \<Longrightarrow> coming e (tasks s ! u) \<Longrightarrow> coming e (tasks s' ! u)"
  shows "count_ok e s'"
proof (cases "length (wait_list e (the_queue s)) \<le> nat (lock_of e (the_queue s))")
  case True
  then show ?thesis using assms(3,5) by (simp add: count_ok_def)
next
  case False
  let ?k = "nat (lock_of e (the_queue s))" and ?w = "wait_list e (the_queue s)"
  let ?A = "snd ` set (take ?k ?w)"
  have d: "distinct (map snd ?w)" using assms(2) by (simp add: lists_ok_def)
  then have d': "distinct (map snd (take ?k ?w) @ map snd (drop ?k ?w))" by (metis append_take_drop_id map_append)
  have A: "card ?A = ?k"
  proof -
    have "distinct (map snd (take ?k ?w))" using d' by simp
    then have "card (set (map snd (take ?k ?w))) = length (map snd (take ?k ?w))" by (rule distinct_card)
    then show ?thesis using False by simp
  qed
  have in_w: "?A \<subseteq> waiting e (the_queue s)" by (auto simp: waiting_def dest: in_set_takeD)
  have w': "waiting e q' \<subseteq> waiting e (the_queue s)" "?A \<inter> waiting e q' = {}" using d' assms(3) by (auto simp: waiting_def dest: in_set_dropD)
  have "?A \<union> comers e s \<subseteq> comers e s'"
  proof
    fix u assume "u \<in> ?A \<union> comers e s"
    then have "u < length (tasks s)" "coming e (tasks s ! u)" "u \<notin> waiting e q'"
      using in_w w' waiting_coming[OF assms(2), of u e] unfolding comers_def by blast+
    then show "u \<in> comers e s'" using assms(5-7) by (simp add: comers_def)
  qed
  moreover have "?A \<inter> comers e s = {}" using in_w by (auto simp: comers_def)
  then have "card (?A \<union> comers e s) = ?k + card (comers e s)" using A by (simp add: card_Un_disjoint)
  ultimately show ?thesis using assms(3,4,5) False
    by (intro count_le[OF assms(1), of q' "?A \<union> comers e s"]) auto
qed

lemma queue_ok_cong: "uxMessagesWaiting q' = uxMessagesWaiting q \<Longrightarrow> uxLength q' = uxLength q \<Longrightarrow> pcHead q' = pcHead q \<Longrightarrow> uxItemSize q' = uxItemSize q \<Longrightarrow>
  storage q' = storage q \<Longrightarrow> pcTail q' = pcTail q \<Longrightarrow> pcReadFrom q' = pcReadFrom q \<Longrightarrow> pcWriteTo q' = pcWriteTo q \<Longrightarrow> queue_ok q' = queue_ok q"
  by (simp add: queue_ok_def ring_at_def)

text \<open>The holder of the scheduler changes lists and locks.\<close>

lemma locked_ok:
  assumes "sys_ok ps s" "t < length (tasks s)" "tasks s' = (tasks s)[t := p]" "holder s = None \<or> holder s = Some t" "holder s' = Some t" "\<not> outside p" "locks_at p (the_queue s')"
    "queue_ok (the_queue s')" "uxItemSize (the_queue s') = uxItemSize (the_queue s)" "uxLength (the_queue s') = uxLength (the_queue s)"
    "\<And>op. p \<noteq> Place op" "op_of p = op_of (tasks s ! t)"
    "\<And>d. distinct (map snd (wait_list d (the_queue s')))" "\<And>d u. u \<in> waiting d (the_queue s') \<Longrightarrow> u \<in> waiting d (the_queue s) \<or> u = t" "\<And>d. t \<in> waiting d (the_queue s') \<Longrightarrow> coming d p"
    "\<And>d. count_ok d s'"
  shows "sys_ok ps s'"
proof -
  note S = sys_okD[OF assms(1)]
  have "held_ok s'" using held_step[OF S(2) assms(2-4)] assms(5-7) by simp
  moreover have "place_ok s'" using place_step[OF S(2) assms(2-4)] assms(11) by blast
  moreover have "ops_ok ps s'" using ops_step[OF S(6) assms(3,9,10)] S(6) assms(2,12) by (simp add: ops_ok_def)
  moreover have "lists_ok s'" using lists_step[OF S(3) assms(3,2,13)] assms(14,15) by blast
  ultimately show ?thesis using assms(8,16) by (simp add: sys_ok_def)
qed

lemma holder_cases:
  assumes "sys_ok ps s" "may_run t s"
  shows "t < length (tasks s)" "outside (tasks s ! t) \<Longrightarrow> holder s = None \<and> (\<forall>d. t \<notin> waiting d (the_queue s)) \<and> (\<forall>d. lock_of d (the_queue s) = - 1)"
    "\<not> outside (tasks s ! t) \<Longrightarrow> holder s = Some t \<and> locks_at (tasks s ! t) (the_queue s)"
proof -
  note H = heldD[OF sys_okD(2)[OF assms(1)]]
  show t: "t < length (tasks s)" using assms(2) by (simp add: may_run_def)
  show "holder s = None \<and> (\<forall>d. t \<notin> waiting d (the_queue s)) \<and> (\<forall>d. lock_of d (the_queue s) = - 1)" if "outside (tasks s ! t)"
    using assms(2) H(2) H(3)[of t] that by (auto simp: may_run_def on_list_iff)
  show "holder s = Some t \<and> locks_at (tasks s ! t) (the_queue s)" if "\<not> outside (tasks s ! t)"
    using assms(2) H(1)[OF _ t] H(3)[of t] that by (auto simp: may_run_def)
qed

lemma coming_upd: "(coming d (xs ! t) \<Longrightarrow> coming d p) \<Longrightarrow> coming d (xs ! u) \<Longrightarrow> u < length xs \<Longrightarrow> coming d (xs[t := p] ! u)"
  by (cases "u = t") simp_all

lemma comers_upd:
  assumes "tasks s' = (tasks s)[t := p]" "coming d (tasks s ! t) \<Longrightarrow> coming d p" "wait_list d (the_queue s') = wait_list d (the_queue s)"
  shows "comers d s \<subseteq> comers d s'"
  using assms coming_upd[of d "tasks s" t p] by (auto simp: comers_def waiting_def)

lemma step_left:
  assumes "sys_ok ps s" "may_run t s" "tasks s ! t = Left op" "task_step t expired v s = Some s'"
  shows "sys_ok ps s'"
proof -
  note S = sys_okD[OF assms(1)]
  note H = holder_cases[OF assms(1,2)]
  have o: "holder s = None" "t \<notin> waiting d (the_queue s)" "lock_of d (the_queue s) = - 1" for d using H(2) assms(3) by simp_all
  have s': "s' = s\<lparr>the_queue := prvLockQueue (the_queue s), holder := Some t, tasks := (tasks s)[t := if expired then Unlock1 op False else Check op]\<rparr>"
    using assms(3,4) by (simp add: task_step_def)
  have lk: "lock_of d (prvLockQueue (the_queue s)) = 0" for d using o(3)[of d] by (cases d) (simp_all add: lock_of_def prvLockQueue_def)
  have wl: "wait_list d (prvLockQueue (the_queue s)) = wait_list d (the_queue s)" "avail d (prvLockQueue (the_queue s)) = avail d (the_queue s)" for d
    by (simp_all add: wait_list_def avail_def prvLockQueue_def)
  have nc: "\<not> coming d (tasks s ! t)" for d using assms(3) by simp
  have "count_ok d s'" for d
  proof (rule count_le[OF S(4)])
    have "comers d s \<subseteq> comers d s'" using nc wl(1) by (intro comers_upd[of s' s t]) (simp_all add: s')
    then show "wait_list d (the_queue s) \<noteq> [] \<and> comers d s \<subseteq> comers d s' \<and>
        avail d (the_queue s') + card (comers d s) + nat (lock_of d (the_queue s)) \<le> avail d (the_queue s) + card (comers d s) + nat (lock_of d (the_queue s'))"
      if "wait_list d (the_queue s') \<noteq> []" using that wl o(3) lk by (simp add: s')
  qed simp
  moreover have q: "queue_ok (prvLockQueue (the_queue s))" "uxItemSize (prvLockQueue (the_queue s)) = uxItemSize (the_queue s)"
    "uxLength (prvLockQueue (the_queue s)) = uxLength (the_queue s)"
    using S(1) queue_ok_cong[of "prvLockQueue (the_queue s)" "the_queue s"] by (simp_all add: prvLockQueue_def)
  moreover have "\<not> outside p" "locks_at p (prvLockQueue (the_queue s))" "p \<noteq> Place o1" "op_of p = op_of (tasks s ! t)"
    if "p = (if expired then Unlock1 op False else Check op)" for p o1 using that lk assms(3) by simp_all
  moreover have "waiting d (prvLockQueue (the_queue s)) = waiting d (the_queue s)" for d using wl(1) by (simp add: waiting_def)
  ultimately show ?thesis
    using H(1) o S(3) wl(1) by (intro locked_ok[OF assms(1), of t s' "if expired then Unlock1 op False else Check op"]) (simp_all add: s' lists_ok_def)
qed

lemma place_lists:
  assumes "lists_ok s" "\<not> coming (is_send op) (tasks s ! t)" "q = the_queue s"
  shows "distinct (map snd (wait_list d (place op v t q)))" "waiting (is_send op) (place op v t q) = insert t (waiting (is_send op) q)"
    "d \<noteq> is_send op \<Longrightarrow> wait_list d (place op v t q) = wait_list d q"
proof -
  have t: "t \<notin> snd ` set (wait_list (is_send op) q)" using waiting_coming[OF assms(1), of t "is_send op"] assms(2,3) by (auto simp: waiting_def)
  have d: "distinct (map snd (wait_list d q))" for d using assms(1,3) by (simp add: lists_ok_def)
  have ins: "distinct (map snd (vTaskPlaceOnEventList v t es)) \<and> snd ` set (vTaskPlaceOnEventList v t es) = insert t (snd ` set es)"
    if e: "distinct (map snd es)" "t \<notin> snd ` set es" for es
  proof -
    let ?a = "takeWhile (\<lambda>x. fst x \<le> v) es" and ?b = "dropWhile (\<lambda>x. fst x \<le> v) es"
    have es: "es = ?a @ ?b" by simp
    have "distinct (map snd ?a @ map snd ?b)" "t \<notin> snd ` set ?a \<union> snd ` set ?b" "snd ` set es = snd ` set ?a \<union> snd ` set ?b"
      using e by (metis es map_append, metis es image_Un set_append, metis es image_Un set_append)
    then show ?thesis by (auto simp: vTaskPlaceOnEventList_def)
  qed
  show "d \<noteq> is_send op \<Longrightarrow> wait_list d (place op v t q) = wait_list d q" by (cases op) (simp_all add: place_def wait_list_def)
  then show "distinct (map snd (wait_list d (place op v t q)))"
    using ins[OF d t] d[of d] by (cases "d = is_send op"; cases op) (simp_all add: place_def wait_list_def)
  show "waiting (is_send op) (place op v t q) = insert t (waiting (is_send op) q)"
    using ins[OF d t] by (cases op) (simp_all add: place_def wait_list_def waiting_def)
qed

lemma step_place:
  assumes "sys_ok ps s" "may_run t s" "tasks s ! t = Place op" "task_step t expired v s = Some s'"
  shows "sys_ok ps s'"
proof -
  note S = sys_okD[OF assms(1)]
  note H = holder_cases[OF assms(1,2)]
  let ?q = "the_queue s" and ?q' = "place op v t (the_queue s)"
  have h: "holder s = Some t" "0 \<le> lock_of d ?q" for d using H(3) assms(3) by simp_all
  have s': "s' = s\<lparr>the_queue := ?q', tasks := (tasks s)[t := Unlock1 op True]\<rparr>" using assms(3,4) by (simp add: task_step_def)
  note P = place_lists[OF S(3), of op t ?q, OF _ refl]
  have nc: "\<not> coming d (tasks s ! t)" for d using assms(3) by simp
  have same: "lock_of d ?q' = lock_of d ?q" "avail d ?q' = avail d ?q" "queue_ok ?q' = queue_ok ?q" "uxItemSize ?q' = uxItemSize ?q" "uxLength ?q' = uxLength ?q" for d
    by (cases op; simp add: place_def lock_of_def avail_def)+
  have "count_ok d s'" for d
  proof (cases "d = is_send op")
    case True
    have "avail d ?q \<le> nat (lock_of d ?q)" using S(5) H(1) assms(3) True by (simp add: place_ok_def)
    then show ?thesis by (simp add: count_ok_def s' same)
  next
    case False
    then have "comers d s \<subseteq> comers d s'" using P(3)[OF nc] nc by (intro comers_upd[of s' s t]) (simp_all add: s')
    then show ?thesis using P(3)[OF nc False] same S(4)[of d] by (intro count_le[OF S(4), of d ?q' "comers d s" s']) (simp_all add: s')
  qed
  moreover have "t \<notin> waiting d ?q" for d using waiting_coming[OF S(3), of t d] nc by blast
  moreover have "u \<in> waiting d ?q \<or> u = t" if "u \<in> waiting d ?q'" for d u
    using that P(2)[OF nc] P(3)[OF nc, of d] by (cases "d = is_send op") (auto simp: waiting_def)
  moreover have "coming d (Unlock1 op True)" if "t \<in> waiting d ?q'" for d
    using that calculation(2)[of d] P(3)[OF nc, of d] by (cases "d = is_send op") (auto simp: waiting_def)
  ultimately show ?thesis
    using H(1) h S(1) P(1)[OF nc] same assms(3)
    by (intro locked_ok[OF assms(1), of t s' "Unlock1 op True"]) (simp_all add: s')
qed

lemma step_unlock:
  assumes "sys_ok ps s" "may_run t s" "tasks s ! t = (if e then Unlock2 op again else Unlock1 op again)" "task_step t expired v s = Some s'"
  shows "sys_ok ps s'"
proof -
  note S = sys_okD[OF assms(1)]
  note H = holder_cases[OF assms(1,2)]
  let ?q = "the_queue s"
  define q' where "q' = (if e then unlock_rx ?q else unlock_tx ?q)"
  define p where "p = (if e then Resume op again else Unlock2 op again)"
  have s': "s' = s\<lparr>the_queue := q', tasks := (tasks s)[t := p]\<rparr>" using assms(3,4) by (cases e) (simp_all add: task_step_def q'_def p_def)
  have h: "holder s = Some t" "locks_at (tasks s ! t) ?q" using H(3) assms(3) by (cases e; simp)+
  have q': "wait_list e q' = drop (nat (lock_of e ?q)) (wait_list e ?q)" "wait_list (\<not> e) q' = wait_list (\<not> e) ?q" "lock_of e q' = - 1" "lock_of (\<not> e) q' = lock_of (\<not> e) ?q"
    "avail d q' = avail d ?q" "queue_ok q' = queue_ok ?q" "uxItemSize q' = uxItemSize ?q" "uxLength q' = uxLength ?q" for d
    by (cases e; simp add: q'_def unlock_rx_def unlock_tx_def wait_list_def lock_of_def avail_def unlock_loop_drop)+
  have cm: "coming d p = coming d (tasks s ! t)" for d using assms(3) by (cases e) (simp_all add: p_def)
  have "count_ok e s'" using S(3,4) q' cm H(1) coming_upd[of e "tasks s" t p] by (intro count_unlock[of e s q' s']) (simp_all add: s')
  moreover have "count_ok (\<not> e) s'"
  proof (rule count_le[OF S(4)])
    have "comers (\<not> e) s \<subseteq> comers (\<not> e) s'" using q'(2) cm by (intro comers_upd[of s' s t p]) (simp_all add: s')
    then show "wait_list (\<not> e) ?q \<noteq> [] \<and> comers (\<not> e) s \<subseteq> comers (\<not> e) s' \<and>
        avail (\<not> e) (the_queue s') + card (comers (\<not> e) s) + nat (lock_of (\<not> e) ?q) \<le> avail (\<not> e) ?q + card (comers (\<not> e) s) + nat (lock_of (\<not> e) (the_queue s'))"
      if "wait_list (\<not> e) (the_queue s') \<noteq> []" using that q' by (simp add: s')
  qed simp
  ultimately have counts: "count_ok d s'" for d by (cases "d = e") auto
  have sub: "waiting d q' \<subseteq> waiting d ?q" "distinct (map snd (wait_list d q'))" for d
    using q'(1,2) S(3) by (cases "d = e"; auto simp: waiting_def lists_ok_def drop_map[symmetric] dest: in_set_dropD)+
  have "locks_at p q'" using h(2) assms(3) q'(3,4) by (cases e) (simp_all add: p_def all_bool_eq)
  moreover have "\<not> outside p" "op_of p = op_of (tasks s ! t)" "p \<noteq> Place o1" for o1 using assms(3) by (cases e; simp add: p_def)+
  moreover have "coming d p" if "t \<in> waiting d q'" for d using that sub(1) waiting_coming[OF S(3), of t d] cm by blast
  ultimately show ?thesis using H(1) h(1) S(1) q'(6-8) sub counts by (intro locked_ok[OF assms(1), of t s' p]) (auto simp: s')
qed

lemma ops_okD: "ops_ok ps s \<Longrightarrow> t < length (tasks s) \<Longrightarrow> op_of (tasks s ! t) = Some (Send x cp) \<Longrightarrow> item_ok ps (the_queue s) x cp"
  by (simp add: ops_ok_def)

lemma step_resume:
  assumes "sys_ok ps s" "may_run t s" "tasks s ! t = Resume op again" "task_step t expired v s = Some s'"
  shows "sys_ok ps s'"
proof -
  note S = sys_okD[OF assms(1)] and H = holder_cases[OF assms(1,2)]
  define p where "p = (if again then Top op True else case op of Send _ _ \<Rightarrow> Idle | Receive \<Rightarrow> Recheck)"
  have s': "s' = s\<lparr>holder := None, tasks := (tasks s)[t := p]\<rparr>" using assms(3,4) by (simp add: task_step_def p_def)
  have h: "holder s = Some t" "\<And>d. lock_of d (the_queue s) = - 1" using H(3) assms(3) by simp_all
  have w: "again \<and> is_send op = d" if "t \<in> waiting d (the_queue s)" for d using waiting_coming[OF S(3) that] assms(3) by simp
  have p: "outside p" "p \<noteq> Place o1" "coming d p \<longleftrightarrow> again \<and> is_send op = d" "op_of p = Some (Send x cp) \<Longrightarrow> again \<and> op = Send x cp" for d o1 x cp
    by (cases op; cases again; simp add: p_def)+
  have ops: "item_ok ps (the_queue s) x cp" if "op = Send x cp" for x cp using ops_okD[OF S(6) H(1)] assms(3) that by simp
  show ?thesis
    by (rule point_ok[OF assms(1) H(1), of s' p]) (use s' h w p ops assms(3) in auto)
qed

lemma step_check:
  assumes "sys_ok ps s" "may_run t s" "tasks s ! t = Check op" "task_step t expired v s = Some s'"
  shows "sys_ok ps s'"
proof -
  note S = sys_okD[OF assms(1)] and H = holder_cases[OF assms(1,2)]
  have s': "s' = s\<lparr>tasks := (tasks s)[t := if full_for op (the_queue s) then Place op else Unlock1 op True]\<rparr>" using assms(3,4) by (simp add: task_step_def)
  have h: "holder s = Some t" "locks_at (tasks s ! t) (the_queue s)" using H(3) assms(3) by simp_all
  have nw: "t \<notin> waiting d (the_queue s)" for d using waiting_coming[OF S(3), of t d] assms(3) by auto
  have full: "avail (is_send op) (the_queue s) = 0" if "full_for op (the_queue s)"
    using that by (cases op) (simp_all add: full_for_def avail_def prvIsQueueFull_def prvIsQueueEmpty_def)
  have ops: "item_ok ps (the_queue s) x cp" if "op = Send x cp" for x cp using ops_okD[OF S(6) H(1)] assms(3) that by simp
  show ?thesis
    by (rule point_ok[OF assms(1) H(1), of s' "if full_for op (the_queue s) then Place op else Unlock1 op True"]) (use s' h nw full ops assms(3) in \<open>auto split: if_splits\<close>)
qed

lemma step_outside:
  assumes "sys_ok ps s" "may_run t s" "outside (tasks s ! t)" "outside p" "s' = s\<lparr>tasks := (tasks s)[t := p]\<rparr>"
    "\<And>d. coming d (tasks s ! t) \<Longrightarrow> coming d p \<or> avail d (the_queue s) = 0" "\<And>x cp. op_of p = Some (Send x cp) \<Longrightarrow> op_of (tasks s ! t) = Some (Send x cp)"
  shows "sys_ok ps s'"
proof -
  note S = sys_okD[OF assms(1)] and H = holder_cases[OF assms(1,2)]
  have "p \<noteq> Place op" for op using assms(4) by auto
  moreover have "item_ok ps (the_queue s) x cp" if "op_of p = Some (Send x cp)" for x cp
    using ops_okD[OF S(6) H(1) assms(7)[OF that]] .
  ultimately show ?thesis using H(1,2) assms(3-6) by (intro point_ok[OF assms(1) H(1), of s' p]) simp_all
qed

lemma step_recheck:
  assumes "sys_ok ps s" "may_run t s" "tasks s ! t = Recheck" "task_step t expired v s = Some s'"
  shows "sys_ok ps s'"
  by (rule step_outside[OF assms(1,2), of "if prvIsQueueEmpty (the_queue s) then Idle else Top Receive False"])
    (use assms(3,4) in \<open>auto simp: task_step_def split: if_splits\<close>)

lemma step_top:
  assumes "sys_ok ps s" "may_run t s" "tasks s ! t = Top op b" "task_step t expired v s = Some s'"
  shows "sys_ok ps s'"
proof -
  note S = sys_okD[OF assms(1)] and H = holder_cases[OF assms(1,2)]
  have h: "holder s = None" "\<not> on_list t (the_queue s)" "lock_of d (the_queue s) = - 1" for d using H(2) assms(3) by (simp_all add: on_list_iff)
  have fail: "sys_ok ps (s\<lparr>tasks := (tasks s)[t := if b then Left op else Idle]\<rparr>)" if "avail (is_send op) (the_queue s) = 0"
    by (rule step_outside[OF assms(1,2), of "if b then Left op else Idle"]) (use that assms(3) in \<open>auto split: if_splits\<close>)
  have go: "sys_ok ps s1" if "the_queue s1 = q'" "holder s1 = holder s" "tasks s1 = (tasks s)[t := Idle]" "moved (is_send op) (the_queue s) q'" "woken (is_send op) (the_queue s) q'" for s1 q'
    by (rule transfer_ok[OF assms(1), of "is_send op" s1 t op b]) (use that H(1) h assms(3) in simp_all)
  show ?thesis
  proof (cases op)
    case (Send x cp)
    have "item_ok ps (the_queue s) x cp" using ops_okD[OF S(6) H(1)] assms(3) Send by simp
    from send_section_val[OF S(1) this] show ?thesis using fail go assms(3,4) Send by (auto simp: task_step_def)
  next
    case Receive
    from receive_section_val[OF S(1)] show ?thesis using fail go assms(3,4) Receive by (auto simp: task_step_def)
  qed
qed

lemma task_step_ok:
  assumes "sys_ok ps s" "may_run t s" "task_step t expired v s = Some s'"
  shows "sys_ok ps s'"
proof (cases "tasks s ! t")
  case Idle
  then show ?thesis using assms(3) by (simp add: task_step_def)
next
  case (Unlock1 op again)
  then show ?thesis using step_unlock[OF assms(1,2), of False] assms(3) by simp
next
  case (Unlock2 op again)
  then show ?thesis using step_unlock[OF assms(1,2), of True] assms(3) by simp
qed (rule step_top[OF assms(1,2) _ assms(3)] step_left[OF assms(1,2) _ assms(3)] step_check[OF assms(1,2) _ assms(3)] step_place[OF assms(1,2) _ assms(3)]
    step_resume[OF assms(1,2) _ assms(3)] step_recheck[OF assms(1,2) _ assms(3)], assumption)+

lemma tick_ok:
  assumes "sys_ok ps s" "holder s = None" "s' = s\<lparr>the_queue := (the_queue s)
     \<lparr>xTasksWaitingToSend := filter (\<lambda>e. snd e \<noteq> t) (xTasksWaitingToSend (the_queue s)),
      xTasksWaitingToReceive := filter (\<lambda>e. snd e \<noteq> t) (xTasksWaitingToReceive (the_queue s))\<rparr>\<rparr>"
  shows "sys_ok ps s'"
proof -
  note S = sys_okD[OF assms(1)]
  let ?q' = "the_queue s'"
  have wl: "wait_list d ?q' = filter (\<lambda>e. snd e \<noteq> t) (wait_list d (the_queue s))" "lock_of d ?q' = lock_of d (the_queue s)" "avail d ?q' = avail d (the_queue s)" for d
    by (simp_all add: assms(3) wait_list_def lock_of_def avail_def)
  have same: "tasks s' = tasks s" "holder s' = holder s" "queue_ok ?q'" "uxItemSize ?q' = uxItemSize (the_queue s)" "uxLength ?q' = uxLength (the_queue s)" using S(1) by (simp_all add: assms(3))
  have sub: "waiting d ?q' \<subseteq> waiting d (the_queue s)" for d using wl(1) by (auto simp: waiting_def)
  have "count_ok d s'" for d
  proof (rule count_le[OF S(4)])
    have "comers d s \<subseteq> comers d s'" using sub[of d] same(1) by (auto simp: comers_def)
    then show "wait_list d (the_queue s) \<noteq> [] \<and> comers d s \<subseteq> comers d s' \<and>
        avail d ?q' + card (comers d s) + nat (lock_of d (the_queue s)) \<le> avail d (the_queue s) + card (comers d s) + nat (lock_of d ?q')"
      if "wait_list d ?q' \<noteq> []" using that wl by auto
  qed simp
  moreover have "lists_ok s'" using S(3) sub wl(1) same(1) unfolding lists_ok_def by (auto simp: distinct_map_filter)
  moreover have "held_ok s'" using S(2) same(1,2) wl(2) assms(2) by (simp add: held_ok_def)
  moreover have "place_ok s'" using S(5) same(1) wl(2,3) by (simp add: place_ok_def)
  moreover have "ops_ok ps s'" using S(6) same item_ok_cong[OF same(4,5)] by (simp add: ops_ok_def)
  ultimately show ?thesis using same(3) by (simp add: sys_ok_def)
qed

lemma call_ok:
  assumes "sys_ok ps s" "t < length (tasks s)" "tasks s ! t = Idle" "holder s = None" "\<And>x cp. op = Send x cp \<Longrightarrow> item_ok ps (the_queue s) x cp"
  shows "sys_ok ps (s\<lparr>tasks := (tasks s)[t := Top op b]\<rparr>)"
proof -
  note S = sys_okD[OF assms(1)]
  have "t \<notin> waiting d (the_queue s)" for d using waiting_coming[OF S(3), of t d] assms(3) by auto
  then show ?thesis using assms heldD(2)[OF S(2) assms(4)] by (intro point_ok[OF assms(1,2), of _ "Top op b"]) auto
qed

lemma isr_ok:
  assumes "sys_ok ps s" "moved d (the_queue s) (the_queue s')" "holder s' = holder s" "tasks s' = tasks s"
    "if lock_of (\<not> d) (the_queue s) = - 1 then woken d (the_queue s) (the_queue s') else counted d (the_queue s) (the_queue s')"
  shows "sys_ok ps s'"
proof -
  note S = sys_okD[OF assms(1)]
  have "lock_of e (the_queue s) = - 1 \<or> 0 \<le> lock_of e (the_queue s)" for e
  proof (cases "holder s")
    case None
    then show ?thesis using heldD(2)[OF S(2)] by simp
  next
    case (Some h)
    then have "locks_at (tasks s ! h) (the_queue s)" using heldD(3)[OF S(2)] by blast
    then show ?thesis by (cases "tasks s ! h"; cases e) auto
  qed
  from this[of "\<not> d"] show ?thesis using assms(2-5) by (intro transfer_ok[OF assms(1,2)]) (auto split: if_splits)
qed

lemma step_ok:
  assumes "queue_step ps s s'" "sys_ok ps s"
  shows "sys_ok ps s'"
  using assms
proof cases
  case (call_send t x cp block)
  then show ?thesis using call_ok[OF assms(2), of t "Send x cp" block] by simp
next
  case (call_receive t block)
  then show ?thesis using call_ok[OF assms(2), of t Receive block] by simp
next
  case (run_task t expired v)
  then show ?thesis using task_step_ok[OF assms(2)] by blast
next
  case (tick t)
  then show ?thesis using tick_ok[OF assms(2)] by blast
next
  case (isr_send x cp d q)
  then show ?thesis using isr_send_val[OF sys_okD(1)[OF assms(2)] isr_send(2,3)] assms(2) isr_ok[OF assms(2), of True s'] by (auto simp: lock_of_def)
next
  case (isr_receive r q)
  then show ?thesis using isr_receive_val[OF sys_okD(1)[OF assms(2)] isr_receive(2)] assms(2) isr_ok[OF assms(2), of False s'] by (auto simp: lock_of_def)
qed

lemma reach_ok: "queue_reach ps s0 s \<Longrightarrow> sys_ok ps s0 \<Longrightarrow> sys_ok ps s"
  by (induction rule: queue_reach.induct) (auto intro: step_ok)

section \<open>Items in order\<close>

definition fifo_ok :: "nat \<Rightarrow> queue_system \<Rightarrow> bool" where
  "fifo_ok len s \<longleftrightarrow> accepted s = delivered s @ queue_items (the_queue s) \<and> uxLength (the_queue s) = len"

lemma items_keep [simp]: "queue_items (prvLockQueue q) = queue_items q" "queue_items (unlock_tx q) = queue_items q" "queue_items (unlock_rx q) = queue_items q"
  "queue_items (place op v t q) = queue_items q"
  "uxLength (prvLockQueue q) = uxLength q" "uxLength (unlock_tx q) = uxLength q" "uxLength (unlock_rx q) = uxLength q" "uxLength (place op v t q) = uxLength q"
  by (simp_all add: prvLockQueue_def unlock_tx_def unlock_rx_def place_def split: queue_op.split)

lemma put_back: "item_ok {queueSEND_TO_BACK} q x cp \<Longrightarrow> put_item cp x xs = xs @ [x]"
  by (simp add: item_ok_def put_item_def)

lemma task_step_fifo:
  assumes "sys_ok {queueSEND_TO_BACK} s" "may_run t s" "task_step t expired v s = Some s'" "fifo_ok len s"
  shows "fifo_ok len s'"
proof (cases "tasks s ! t")
  case (Top op b)
  note S = sys_okD[OF assms(1)] and H = holder_cases[OF assms(1,2)]
  show ?thesis
  proof (cases op)
    case (Send x cp)
    have i: "item_ok {queueSEND_TO_BACK} (the_queue s) x cp" using ops_okD[OF S(6) H(1)] Top Send by simp
    show ?thesis using send_section_val[OF S(1) i] put_back[OF i] assms(3,4) Top Send by (auto simp: task_step_def fifo_ok_def moved_def)
  next
    case Receive
    show ?thesis using receive_section_val[OF S(1)] assms(3,4) Top Receive by (auto simp: task_step_def fifo_ok_def moved_def)
  qed
qed (use assms(3,4) in \<open>auto simp: task_step_def fifo_ok_def\<close>)

lemma step_fifo:
  assumes "queue_step {queueSEND_TO_BACK} s s'" "sys_ok {queueSEND_TO_BACK} s" "fifo_ok len s"
  shows "fifo_ok len s'"
  using assms
proof cases
  case (run_task t expired v)
  then show ?thesis using task_step_fifo[OF assms(2)] assms(3) by blast
next
  case (isr_send x cp d q)
  then show ?thesis using isr_send_val[OF sys_okD(1)[OF assms(2)] isr_send(2,3)] put_back[OF isr_send(2)] assms(3) by (auto simp: fifo_ok_def moved_def)
next
  case (isr_receive r q)
  then show ?thesis using isr_receive_val[OF sys_okD(1)[OF assms(2)] isr_receive(2)] assms(3) by (auto simp: fifo_ok_def moved_def)
qed (use assms(3) in \<open>simp_all add: fifo_ok_def\<close>)

lemma reach_fifo: "queue_reach {queueSEND_TO_BACK} s0 s \<Longrightarrow> sys_ok {queueSEND_TO_BACK} s0 \<Longrightarrow> fifo_ok len s0 \<Longrightarrow> fifo_ok len s"
  by (induction rule: queue_reach.induct) (auto intro: step_fifo dest: reach_ok)

text \<open>The system at the start: a new queue, \<open>n\<close> tasks that do not use it yet.\<close>

definition queue_start :: "nat \<Rightarrow> nat \<Rightarrow> u8 list \<Rightarrow> nat \<Rightarrow> nat \<Rightarrow> queue_system" where
  "queue_start len sz mem a n = \<lparr>the_queue = prvInitialiseNewQueue len sz mem a, tasks = replicate n Idle, holder = None, accepted = [], delivered = []\<rparr>"

lemma new_queue_ok:
  assumes "0 < len" "length mem = len * sz" "0 < a"
  shows "queue_ok (prvInitialiseNewQueue len sz mem a)" "queue_items (prvInitialiseNewQueue len sz mem a) = []"
    "uxItemSize (prvInitialiseNewQueue len sz mem a) = sz" "uxLength (prvInitialiseNewQueue len sz mem a) = len" "uxMessagesWaiting (prvInitialiseNewQueue len sz mem a) = 0"
proof -
  have "sz \<noteq> 0 \<Longrightarrow> ring_at (prvInitialiseNewQueue len sz mem a) (len - 1)"
    using assms by (simp add: ring_at_def prvInitialiseNewQueue_def xQueueGenericReset_def Let_def)
  then show "queue_ok (prvInitialiseNewQueue len sz mem a)"
    using assms unfolding queue_ok_def by (intro conjI impI exI[of _ "len - 1"]) (simp_all add: prvInitialiseNewQueue_def xQueueGenericReset_def Let_def)
  show "queue_items (prvInitialiseNewQueue len sz mem a) = []" "uxItemSize (prvInitialiseNewQueue len sz mem a) = sz" "uxLength (prvInitialiseNewQueue len sz mem a) = len"
    "uxMessagesWaiting (prvInitialiseNewQueue len sz mem a) = 0"
    by (simp_all add: queue_items_def prvInitialiseNewQueue_def xQueueGenericReset_def Let_def)
qed

lemma start_ok:
  assumes "0 < len" "length mem = len * sz" "0 < a"
  shows "sys_ok ps (queue_start len sz mem a n)" "fifo_ok len (queue_start len sz mem a n)"
proof -
  note N = new_queue_ok[OF assms]
  let ?q = "prvInitialiseNewQueue len sz mem a"
  have "wait_list d ?q = []" "lock_of d ?q = - 1" for d
    by (simp_all add: wait_list_def lock_of_def prvInitialiseNewQueue_def xQueueGenericReset_def Let_def)
  then show "sys_ok ps (queue_start len sz mem a n)" using N(1)
    by (auto simp: sys_ok_def queue_start_def held_ok_def lists_ok_def count_ok_def place_ok_def ops_ok_def waiting_def)
  show "fifo_ok len (queue_start len sz mem a n)" using N(2,4) by (simp add: fifo_ok_def queue_start_def)
qed

lemma coming_dir: "coming d p \<Longrightarrow> coming e p \<Longrightarrow> d = e"
  by (cases p) auto

lemma quiet_no_comers:
  assumes "sys_ok ps s" "\<forall>t < length (tasks s). tasks s ! t = Idle \<or> on_list t (the_queue s)"
  shows "comers d s = {}"
proof -
  have "t \<notin> comers d s" for t
  proof
    assume "t \<in> comers d s"
    then have t: "t < length (tasks s)" "coming d (tasks s ! t)" "t \<notin> waiting d (the_queue s)" by (simp_all add: comers_def)
    then have "tasks s ! t \<noteq> Idle" by auto
    then obtain e where e: "t \<in> waiting e (the_queue s)" using assms(2) t(1) by (auto simp: on_list_iff)
    then have "coming e (tasks s ! t)" using waiting_coming[OF sys_okD(3)[OF assms(1)]] by blast
    then have "e = d" using coming_dir t(2) by blast
    then show False using e t(3) by blast
  qed
  then show ?thesis by blast
qed

text \<open>When a step of a task is possible, it is defined.\<close>

lemma task_step_defined:
  assumes "sys_ok ps s" "may_run t s" "tasks s ! t \<noteq> Idle"
  shows "\<exists>s'. task_step t expired v s = Some s'"
proof (cases "tasks s ! t")
  case (Top op b)
  note S = sys_okD[OF assms(1)] and H = holder_cases[OF assms(1,2)]
  show ?thesis
  proof (cases op)
    case (Send x cp)
    have i: "item_ok ps (the_queue s) x cp" using ops_okD[OF S(6) H(1)] Top Send by simp
    show ?thesis using send_section_val[OF S(1) i] Top Send by (auto simp: task_step_def)
  next
    case Receive
    show ?thesis using receive_section_val[OF S(1)] Top Receive by (auto simp: task_step_def)
  qed
qed (use assms(3) in \<open>simp_all add: task_step_def Let_def\<close>)

section \<open>Properties\<close>

text \<open>
  C36. No wake-up is lost: whatever tasks and interrupts did with the queue, when every task is either outside of its calls or asleep on an event list, senders only sleep if the queue is
  full and receivers only if it is empty. This rests on the counts that interrupts keep while the queue is locked.
\<close>

theorem queue_no_lost_wakeup:
  assumes "0 < len" "length mem = len * sz" "0 < a" "queue_reach ps (queue_start len sz mem a n) s" "holder s = None"
    "\<forall>t < length (tasks s). tasks s ! t = Idle \<or> on_list t (the_queue s)"
  shows "(xTasksWaitingToSend (the_queue s) \<noteq> [] \<longrightarrow> uxQueueSpacesAvailable (the_queue s) = 0) \<and>
    (xTasksWaitingToReceive (the_queue s) \<noteq> [] \<longrightarrow> uxQueueMessagesWaiting (the_queue s) = 0)"
proof -
  have ok: "sys_ok ps s" using reach_ok[OF assms(4) start_ok(1)[OF assms(1-3)]] .
  note S = sys_okD[OF ok]
  have "wait_list d (the_queue s) \<noteq> [] \<longrightarrow> avail d (the_queue s) = 0" for d
    using S(4)[of d] quiet_no_comers[OF ok assms(6)] heldD(2)[OF S(2) assms(5)] by (simp add: count_ok_def)
  from this[of True] this[of False] show ?thesis by (simp add: wait_list_def avail_def uxQueueSpacesAvailable_def uxQueueMessagesWaiting_def)
qed

text \<open>
  C37. With sending to the back, items are delivered in the order in which they were accepted, whatever tasks and interrupts interleave: the accepted ones are the delivered ones and those in
  the queue. No step of a task makes a bad access or fails an assertion.
\<close>

theorem queue_fifo:
  assumes "0 < len" "length mem = len * sz" "0 < a" "queue_reach {queueSEND_TO_BACK} (queue_start len sz mem a n) s"
  shows "accepted s = delivered s @ queue_items (the_queue s) \<and> length (queue_items (the_queue s)) \<le> len \<and>
    (\<forall>t expired v. may_run t s \<and> tasks s ! t \<noteq> Idle \<longrightarrow> (\<exists>s'. task_step t expired v s = Some s'))"
proof -
  have ok: "sys_ok {queueSEND_TO_BACK} s" using reach_ok[OF assms(4) start_ok(1)[OF assms(1-3)]] .
  have "fifo_ok len s" using reach_fifo[OF assms(4) start_ok[OF assms(1-3)]] .
  then show ?thesis using task_step_defined[OF ok] sys_okD(1)[OF ok] by (simp add: fifo_ok_def queue_ok_def)
qed

lemma create_val:
  assumes "heap_rel env h L" "0 < len" "unat len * unat sz < 2 ^ 32 - 72" "unat len * unat sz \<le> length mem"
  shows "\<exists>p r h'. xQueueGenericCreate env len sz mem h = Some (p, r, h') \<and>
    (p = 0 \<and> r = None \<and> heap_rel env h' L \<or>
     p \<noteq> 0 \<and> r = Some (prvInitialiseNewQueue (unat len) (unat sz) (take (unat len * unat sz) mem) p) \<and>
       (\<exists>k. p \<notin> fst ` L \<and> heap_rel env h' (insert (p, k) L) \<and> 72 + unat len * unat sz \<le> k))"
proof -
  let ?n = "len * sz"
  have n: "unat ?n = unat len * unat sz" using assms(3) by (subst unat_mult_lem[THEN iffD1]) simp_all
  have n72: "unat (72 + ?n) = 72 + unat len * unat sz" using assms(3) n by (subst unat_add_lem[THEN iffD1]) simp_all
  have checks: "len > 0" "sz = 0 \<or> len = ?n div sz" "72 + ?n > ?n"
  proof -
    show "sz = 0 \<or> len = ?n div sz" using n by (auto simp: word_unat_eq_iff unat_div_distrib)
    show "72 + ?n > ?n" using n n72 by (simp add: word_less_nat_alt)
  qed (use assms(2) in simp)
  obtain p h' where m: "pvPortMalloc env (72 + ?n) h = Some (p, h')"
    "p = 0 \<and> heap_rel env h' L \<or> p \<noteq> 0 \<and> p \<notin> fst ` L \<and> (\<exists>k. unat (72 + ?n) \<le> k \<and> heap_rel env h' (insert (p, k) L))"
    using heap4.malloc[OF assms(1)] by blast
  let ?q = "prvInitialiseNewQueue (unat len) (unat sz) (take (unat ?n) mem) p"
  have run: "xQueueGenericCreate env len sz mem h = Some (p, if p \<noteq> 0 then Some ?q else None, h')"
    using checks m(1) by (auto simp: xQueueGenericCreate_def Let_def)
  show ?thesis using run m(2) n n72 by (cases "p = 0") auto
qed

text \<open>
  A queue made by \<^verbatim>\<open>xQueueGenericCreate\<close> lies in a piece of the heap of its own that has room for the structure and all slots, and is empty; if the heap has no room, it stays as it was.
\<close>

theorem queue_create:
  assumes "heap_rel env h L" "0 < len" "unat len * unat sz < 2 ^ 32 - 72" "unat len * unat sz \<le> length mem"
  shows "\<exists>p r h'. xQueueGenericCreate env len sz mem h = Some (p, r, h') \<and>
    (p = 0 \<and> r = None \<and> heap_rel env h' L \<or>
     (\<exists>q k. r = Some q \<and> p \<notin> fst ` L \<and> heap_rel env h' (insert (p, k) L) \<and> 72 + unat len * unat sz \<le> k \<and> queue_ok q \<and> queue_items q = [] \<and>
        (sz \<noteq> 0 \<longrightarrow> p + 72 = pcHead q \<and> pcTail q \<le> p + k)))"
proof -
  let ?q = "\<lambda>p. prvInitialiseNewQueue (unat len) (unat sz) (take (unat len * unat sz) mem) p"
  have "queue_ok (?q p)" "queue_items (?q p) = []" if "p \<noteq> 0" for p
    using new_queue_ok[of "unat len" "take (unat len * unat sz) mem" "unat sz" p] assms(2,4) that by (simp_all add: word_less_nat_alt)
  moreover have "sz \<noteq> 0 \<Longrightarrow> pcHead (?q p) = p + 72" "sz \<noteq> 0 \<Longrightarrow> pcTail (?q p) = p + 72 + unat len * unat sz" for p
    by (simp_all add: prvInitialiseNewQueue_def xQueueGenericReset_def Let_def unat_eq_0)
  ultimately show ?thesis using create_val[OF assms] by force
qed

text \<open>A receiver that finds the new queue empty goes to sleep.\<close>

fun drive :: "(nat \<times> bool \<times> u32) list \<Rightarrow> queue_system \<Rightarrow> queue_system option" where
  "drive [] s = Some s"
| "drive ((t, expired, v) # xs) s = (if may_run t s then task_step t expired v s \<bind> drive xs else None)"

lemma drive_reach: "drive xs s = Some s' \<Longrightarrow> queue_reach ps s0 s \<Longrightarrow> queue_reach ps s0 s'"
proof (induction xs s rule: drive.induct)
  case (2 t expired v xs s)
  then obtain s1 where "may_run t s" "task_step t expired v s = Some s1" "drive xs s1 = Some s'" by (auto split: if_splits bind_splits)
  then show ?case using 2 queue_reach.step[OF 2(3) run_task] by blast
qed simp

definition sleeper_start :: queue_system where
  "sleeper_start = (queue_start 1 1 [0] 8 1)\<lparr>tasks := [Top Receive True]\<rparr>"

lemma sleeper_reach: "queue_reach ps (queue_start 1 1 [0] 8 1) sleeper_start"
proof -
  have "queue_step ps (queue_start 1 1 [0] 8 1) sleeper_start"
    using call_receive[of 0 "queue_start 1 1 [0] 8 1" ps True] by (simp add: queue_start_def sleeper_start_def)
  then show ?thesis by (rule queue_reach.step[OF queue_reach.start])
qed

definition sleeper :: queue_system where
  "sleeper = sleeper_start\<lparr>the_queue := (the_queue sleeper_start)\<lparr>xTasksWaitingToReceive := [(5, 0)]\<rparr>\<rparr>"

lemma sleeper_drive: "drive [(0, False, 5), (0, False, 5), (0, False, 5), (0, False, 5), (0, False, 5), (0, False, 5), (0, False, 5)] sleeper_start = Some sleeper"
  by (simp add: sleeper_start_def sleeper_def queue_start_def prvInitialiseNewQueue_def xQueueGenericReset_def may_run_def on_list_def task_step_def receive_section_def
    prvLockQueue_def full_for_def prvIsQueueEmpty_def place_def vTaskPlaceOnEventList_def unlock_tx_def unlock_rx_def)

theorem queue_no_lost_wakeup_witness:
  "queue_reach {queueSEND_TO_BACK} (queue_start 1 1 [0] 8 1) sleeper \<and> xTasksWaitingToReceive (the_queue sleeper) = [(5, 0)] \<and> uxQueueMessagesWaiting (the_queue sleeper) = 0"
proof -
  have r: "queue_reach {queueSEND_TO_BACK} (queue_start 1 1 [0] 8 1) sleeper" using drive_reach[OF sleeper_drive sleeper_reach] .
  have s: "holder sleeper = None" "\<forall>t < length (tasks sleeper). tasks sleeper ! t = Idle \<or> on_list t (the_queue sleeper)" "xTasksWaitingToReceive (the_queue sleeper) = [(5, 0)]"
    by (simp_all add: sleeper_def sleeper_start_def queue_start_def on_list_def)
  then show ?thesis using r queue_no_lost_wakeup[OF _ _ _ r s(1,2)] by simp
qed

definition sender :: queue_system where
  "sender = (queue_start 1 1 [7] 8 1)\<lparr>the_queue := (the_queue (queue_start 1 1 [7] 8 1))\<lparr>uxMessagesWaiting := 1\<rparr>, tasks := [Idle], accepted := [[7]]\<rparr>"

lemma sender_reach: "queue_reach {queueSEND_TO_BACK} (queue_start 1 1 [0] 8 1) sender"
proof -
  let ?s = "(queue_start 1 1 [0] 8 1)\<lparr>tasks := [Top (Send [7] queueSEND_TO_BACK) False]\<rparr>"
  have "queue_step {queueSEND_TO_BACK} (queue_start 1 1 [0] 8 1) ?s"
    using call_send[of 0 "queue_start 1 1 [0] 8 1" "{queueSEND_TO_BACK}" "[7]" queueSEND_TO_BACK False] new_queue_ok(3,4)[of 1 "[0]" 1 8]
    by (simp add: queue_start_def item_ok_def)
  moreover have "drive [(0, False, 0)] ?s = Some sender"
    by (simp add: sender_def queue_start_def prvInitialiseNewQueue_def xQueueGenericReset_def may_run_def on_list_def task_step_def send_section_def prvCopyDataToQueue_def memcpy_def)
  ultimately show ?thesis using drive_reach queue_reach.step[OF queue_reach.start] by blast
qed

theorem queue_fifo_witness:
  "queue_reach {queueSEND_TO_BACK} (queue_start 1 1 [0] 8 1) sender \<and> accepted sender = [[7]] \<and> [[7]] = delivered sender @ queue_items (the_queue sender)"
proof -
  have "accepted sender = [[7]]" by (simp add: sender_def)
  then show ?thesis using sender_reach queue_fifo[OF _ _ _ sender_reach] by simp
qed

theorem queue_create_witness:
  "heap_rel heap_example heap_reset {} \<and> (\<exists>p r h'. xQueueGenericCreate heap_example 6 4 (replicate 24 0) heap_reset = Some (p, r, h'))"
proof -
  have h: "heap_rel heap_example heap_reset {}" by (simp add: heap_rel_def heap_example_ok heap_reset_def)
  show ?thesis using h queue_create[OF h, of 6 4 "replicate 24 0"] by auto
qed

end
