(* ===== verification/Rtos_Sem.thy ===== *)
theory Rtos_Sem
  imports Rtos_Tasks
begin

text \<open>
  Semaphores and mutexes of \<^verbatim>\<open>FreeRTOS/queue.c\<close>: queues of items of size 0 whose number of messages is the count. Taking is a routine of its own, giving is sending (from an
  interrupt a routine of its own). The theorems show that on a semaphore these routines do what the queue routines do, so that what holds for the queue system of \<open>Rtos_Tasks\<close>
  holds for semaphores, and that a mutex has at most one holder.
\<close>

section \<open>The code\<close>

text \<open>The critical section at the top of the loop of \<^verbatim>\<open>xQueueSemaphoreTake\<close>, called by task \<open>t\<close>; the priority that a mutex holder inherits is not modelled.\<close>

definition sem_take_section :: "nat \<Rightarrow> queue \<Rightarrow> queue option option" where
  "sem_take_section t q =
     (if uxItemSize q \<noteq> 0 then None
      else if uxMessagesWaiting q > 0 then
        (let q = q\<lparr>uxMessagesWaiting := uxMessagesWaiting q - 1\<rparr>;
             q = (if pcHead q = 0 then q\<lparr>xMutexHolder := t\<rparr> else q)
         in Some (Some (if xTasksWaitingToSend q \<noteq> [] then q\<lparr>xTasksWaitingToSend := xTaskRemoveFromEventList (xTasksWaitingToSend q)\<rparr> else q)))
      else Some None)"

definition xQueueGiveFromISR :: "queue \<Rightarrow> (bool \<times> queue) option" where
  "xQueueGiveFromISR q =
     (if uxItemSize q \<noteq> 0 \<or> pcHead q = 0 \<and> xMutexHolder q \<noteq> 0 then None
      else if uxMessagesWaiting q < uxLength q then
        (let lock = cTxLock q;
             q = q\<lparr>uxMessagesWaiting := uxMessagesWaiting q + 1\<rparr>
         in if lock = queueUNLOCKED
            then Some (True, if xTasksWaitingToReceive q \<noteq> [] then q\<lparr>xTasksWaitingToReceive := xTaskRemoveFromEventList (xTasksWaitingToReceive q)\<rparr> else q)
            else if lock = queueINT8_MAX then None
            else Some (True, q\<lparr>cTxLock := lock + 1\<rparr>))
      else Some (False, q))"

text \<open>The macros of \<^verbatim>\<open>semphr.h\<close>: giving does not wait, so that the call is the critical section alone, and a binary semaphore is a queue of length 1.\<close>

definition xSemaphoreGive :: "queue \<Rightarrow> (bool \<times> queue) option" where
  "xSemaphoreGive q = map_option (\<lambda>r. case r of Some q' \<Rightarrow> (True, q') | None \<Rightarrow> (False, q)) (send_section [] queueSEND_TO_BACK q)"

definition xSemaphoreCreateBinary :: "heap_env \<Rightarrow> heap4 \<Rightarrow> (nat \<times> queue option \<times> heap4) option" where
  "xSemaphoreCreateBinary env h = xQueueGenericCreate env 1 0 [] h"

text \<open>\<^verbatim>\<open>xSemaphoreTake\<close> with a block time of 0 does not wait either.\<close>

definition xSemaphoreTake_0 :: "nat \<Rightarrow> queue \<Rightarrow> (bool \<times> queue) option" where
  "xSemaphoreTake_0 t q = map_option (\<lambda>r. case r of Some q' \<Rightarrow> (True, q') | None \<Rightarrow> (False, q)) (sem_take_section t q)"

text \<open>A mutex: the member \<^verbatim>\<open>pcHead\<close> is 0, and it is given once.\<close>

definition prvInitialiseMutex :: "queue \<Rightarrow> queue option" where
  "prvInitialiseMutex q = map_option snd (xSemaphoreGive (q\<lparr>xMutexHolder := 0, pcHead := 0\<rparr>))"

definition xQueueCreateMutex :: "heap_env \<Rightarrow> heap4 \<Rightarrow> (nat \<times> queue option \<times> heap4) option" where
  "xQueueCreateMutex env h = do {
     (p, r, h) \<leftarrow> xQueueGenericCreate env 1 0 [] h;
     case r of None \<Rightarrow> Some (p, None, h) | Some q \<Rightarrow> do { q \<leftarrow> prvInitialiseMutex q; Some (p, Some q, h) }
   }"

section \<open>Semaphores are queues\<close>

text \<open>
  On a semaphore (no mutex) taking is receiving, giving from an interrupt is sending an empty item from an interrupt, and giving and taking without waiting are the two critical
  sections: the system of \<open>Rtos_Tasks\<close> with items of size 0 is the system of a semaphore.
\<close>

theorem semaphore_is_queue:
  assumes "queue_ok q" "uxItemSize q = 0"
  shows "sem_take_section t q = map_option (map_option snd) (receive_section q) \<and> xQueueGiveFromISR q = xQueueGenericSendFromISR [] queueSEND_TO_BACK q"
proof -
  have p: "pcHead q \<noteq> 0" using assms(1) by (simp add: queue_ok_def)
  have "sem_take_section t q = map_option (map_option snd) (receive_section q)"
    using assms(2) p by (simp add: sem_take_section_def receive_section_def prvCopyDataFromQueue_def Let_def)
  moreover have "xQueueGiveFromISR q = xQueueGenericSendFromISR [] queueSEND_TO_BACK q"
    using assms(2) p by (simp add: xQueueGiveFromISR_def xQueueGenericSendFromISR_def prvCopyDataToQueue_def Let_def)
  ultimately show ?thesis by blast
qed


section \<open>Mutexes\<close>

text \<open>
  Tasks with a mutex: one takes it, one that holds it gives it back (\<^verbatim>\<open>xTaskPriorityDisinherit\<close> asserts that it holds it), and everything else that tasks and interrupts do only
  touches event lists and locks. A state is the mutex and the tasks that have taken it and not given it back.
\<close>

inductive mutex_step :: "queue \<times> nat list \<Rightarrow> queue \<times> nat list \<Rightarrow> bool" where
  take: "0 < t \<Longrightarrow> sem_take_section t m = Some (Some m') \<Longrightarrow> mutex_step (m, ts) (m', t # ts)"
| give: "t \<in> set ts \<Longrightarrow> send_section [] queueSEND_TO_BACK m = Some (Some m') \<Longrightarrow> mutex_step (m, ts) (m', remove1 t ts)"
| wait_lists: "mutex_step (m, ts) (m\<lparr>xTasksWaitingToSend := es, xTasksWaitingToReceive := er, cRxLock := lr, cTxLock := lt\<rparr>, ts)"

inductive mutex_reach :: "queue \<Rightarrow> queue \<times> nat list \<Rightarrow> bool" for m0 where
  start: "mutex_reach m0 (m0, [])"
| step: "mutex_reach m0 s \<Longrightarrow> mutex_step s s' \<Longrightarrow> mutex_reach m0 s'"

definition mutex_ok :: "queue \<times> nat list \<Rightarrow> bool" where
  "mutex_ok s \<longleftrightarrow> (case s of (m, ts) \<Rightarrow> pcHead m = 0 \<and> uxItemSize m = 0 \<and> uxLength m = 1 \<and> uxMessagesWaiting m + length ts = 1 \<and>
     xMutexHolder m = (case ts of [] \<Rightarrow> 0 | t # _ \<Rightarrow> t))"

lemma take_mutex: "sem_take_section t m = Some (Some m') \<Longrightarrow> mutex_ok (m, ts) \<Longrightarrow> mutex_ok (m', t # ts)"
  by (cases ts) (auto simp: mutex_ok_def sem_take_section_def Let_def split: if_splits)

lemma give_mutex:
  assumes "send_section [] queueSEND_TO_BACK m = Some (Some m')" "t \<in> set ts" "mutex_ok (m, ts)"
  shows "mutex_ok (m', remove1 t ts)"
proof -
  have "ts = [t]" using assms(2,3) by (cases ts) (auto simp: mutex_ok_def)
  then show ?thesis using assms(1,3) by (auto simp: mutex_ok_def send_section_def prvCopyDataToQueue_def split: if_splits)
qed

lemma step_mutex: "mutex_step s s' \<Longrightarrow> mutex_ok s \<Longrightarrow> mutex_ok s'"
proof (induction rule: mutex_step.induct)
  case (wait_lists m ts es er lr lt)
  then show ?case by (simp add: mutex_ok_def)
qed (blast intro: take_mutex give_mutex)+

lemma reach_mutex: "mutex_reach m0 s \<Longrightarrow> mutex_ok (m0, []) \<Longrightarrow> mutex_ok s"
  by (induction rule: mutex_reach.induct) (auto intro: step_mutex)

text \<open>The mutex that \<^verbatim>\<open>xQueueCreateMutex\<close> makes.\<close>

lemma new_mutex: "\<exists>m. prvInitialiseMutex (prvInitialiseNewQueue 1 0 [] a) = Some m \<and> mutex_ok (m, [])"
  by (simp add: prvInitialiseMutex_def xSemaphoreGive_def send_section_def prvCopyDataToQueue_def prvInitialiseNewQueue_def xQueueGenericReset_def mutex_ok_def)

lemma create_mutex_ok:
  assumes "xQueueCreateMutex env h = Some (p, Some m, h')"
  shows "mutex_ok (m, [])"
  using assms new_mutex[of p] by (auto simp: xQueueCreateMutex_def xQueueGenericCreate_def split: if_splits option.splits bind_splits)

text \<open>
  C38. A mutex made by \<^verbatim>\<open>xQueueCreateMutex\<close> is never held by two tasks, its member \<^verbatim>\<open>xMutexHolder\<close> names the task that holds it, and a task can take it exactly when nobody does.
\<close>

theorem mutex_exclusion:
  assumes "xQueueCreateMutex env h = Some (p, Some m0, h')" "mutex_reach m0 (m, ts)"
  shows "length ts \<le> 1 \<and> xMutexHolder m = (case ts of [] \<Rightarrow> 0 | t # _ \<Rightarrow> t) \<and> ((\<exists>m'. sem_take_section t m = Some (Some m')) \<longleftrightarrow> ts = [])"
proof -
  have "mutex_ok (m, ts)" using reach_mutex[OF assms(2) create_mutex_ok[OF assms(1)]] .
  then show ?thesis by (cases ts) (auto simp: mutex_ok_def sem_take_section_def Let_def)
qed

text \<open>A binary semaphore that is free, and a mutex in a fresh heap that task 3 takes.\<close>

definition semaphore_example :: queue where
  "semaphore_example = (prvInitialiseNewQueue 1 0 [] 8)\<lparr>uxMessagesWaiting := 1\<rparr>"

theorem semaphore_is_queue_witness:
  "sem_take_section 3 semaphore_example = map_option (map_option snd) (receive_section semaphore_example) \<and> sem_take_section 3 semaphore_example = Some (Some (prvInitialiseNewQueue 1 0 [] 8))"
proof -
  have q: "queue_ok semaphore_example" "uxItemSize semaphore_example = 0"
    by (simp_all add: semaphore_example_def queue_ok_def prvInitialiseNewQueue_def xQueueGenericReset_def)
  have "sem_take_section 3 semaphore_example = Some (Some (prvInitialiseNewQueue 1 0 [] 8))"
    by (simp add: semaphore_example_def sem_take_section_def prvInitialiseNewQueue_def xQueueGenericReset_def)
  then show ?thesis using semaphore_is_queue[OF q] by blast
qed

definition mutex_example :: queue where
  "mutex_example = the (prvInitialiseMutex (prvInitialiseNewQueue 1 0 [] 0x20001010))"

lemma mutex_example_created: "\<exists>h'. xQueueCreateMutex heap_example (prvHeapInit heap_example heap_reset) = Some (0x20001010, Some mutex_example, h')"
proof -
  have i: "heap_inv heap_example (prvHeapInit heap_example heap_reset) [(40944, False)]" using heap_init_val(2)[OF heap_example_ok(1)] by (simp add: heap_example_ok)
  obtain h' where "pvPortMalloc heap_example 72 (prvHeapInit heap_example heap_reset) = Some (0x20001010, h')"
    using malloc_val[OF i, where w = 72] by (auto simp: heap_example_ok malloc_spec_def alloc_def request_def)
  then show ?thesis using new_mutex[of "0x20001010"] by (auto simp: xQueueCreateMutex_def xQueueGenericCreate_def mutex_example_def)
qed

theorem mutex_exclusion_witness:
  "\<exists>m. mutex_reach mutex_example (m, [3]) \<and> xMutexHolder m = 3 \<and> \<not> (\<exists>m'. sem_take_section 5 m = Some (Some m'))"
proof -
  obtain h' where c: "xQueueCreateMutex heap_example (prvHeapInit heap_example heap_reset) = Some (0x20001010, Some mutex_example, h')"
    using mutex_example_created by blast
  obtain m where m: "sem_take_section 3 mutex_example = Some (Some m)" using mutex_exclusion[OF c mutex_reach.start] by blast
  have "mutex_step (mutex_example, []) (m, [3])" using mutex_step.take[OF _ m, where ts = "[]"] by simp
  then have r: "mutex_reach mutex_example (m, [3])" using mutex_reach.step[OF mutex_reach.start] by blast
  show ?thesis using r mutex_exclusion[OF c r, where t = 5] by auto
qed

end
