(* ===== verification/Sys_Arch.thy ===== *)
theory Sys_Arch
  imports Rtos_Sem
begin

text \<open>
  The layer between lwIP and the operating system, \<^verbatim>\<open>LWIP/port/sys_arch.c\<close>: semaphores and mailboxes over the queues of \<^verbatim>\<open>FreeRTOS/queue.c\<close>. Every routine has a part for handler
  mode, which is a call of an interrupt routine of the queue, and a part for tasks. The part for tasks is the point in the queue system of \<open>Rtos_Tasks\<close> at which the call of the queue starts.
  A wait of \<^verbatim>\<open>portMAX_DELAY\<close> does not expire (\<^verbatim>\<open>INCLUDE_vTaskSuspend\<close> is 1): its steps have \<open>expired\<close> = \<open>False\<close>. One tick is one millisecond.
\<close>

section \<open>The code\<close>

abbreviation (input) SYS_ARCH_TIMEOUT :: u32 where "SYS_ARCH_TIMEOUT \<equiv> 0xFFFFFFFF"
abbreviation (input) SYS_MBOX_EMPTY :: u32 where "SYS_MBOX_EMPTY \<equiv> 0xFFFFFFFF"

definition sys_sem_new :: "heap_env \<Rightarrow> u8 \<Rightarrow> nat \<Rightarrow> heap4 \<Rightarrow> (int \<times> nat \<times> queue option \<times> heap4) option" where
  "sys_sem_new env n t h = do {
     (sem, r, h) \<leftarrow> xSemaphoreCreateBinary env h;
     case r of
       None \<Rightarrow> Some (ERR_MEM, sem, None, h)
     | Some q \<Rightarrow> do {
         (_, q) \<leftarrow> (if n = 0 then xSemaphoreTake_0 t q else xSemaphoreGive q);
         Some (ERR_OK, sem, Some q, h)
       }
   }"

definition sys_mutex_new :: "heap_env \<Rightarrow> heap4 \<Rightarrow> (int \<times> nat \<times> queue option \<times> heap4) option" where
  "sys_mutex_new env h = map_option (\<lambda>(mutex, r, h). (if mutex = 0 then ERR_MEM else ERR_OK, mutex, r, h)) (xQueueCreateMutex env h)"

text \<open>A mailbox holds pointers, four bytes each. \<open>mem\<close> is what the memory behind the queue holds.\<close>

definition sys_mbox_new :: "heap_env \<Rightarrow> u32 \<Rightarrow> u8 list \<Rightarrow> heap4 \<Rightarrow> (int \<times> nat \<times> queue option \<times> heap4) option" where
  "sys_mbox_new env sz mem h = map_option (\<lambda>(mbox, r, h). (if mbox = 0 then ERR_MEM else ERR_OK, mbox, r, h)) (xQueueGenericCreate env sz 4 mem h)"

text \<open>Handler mode. The loop of \<^verbatim>\<open>sys_mbox_post\<close> spins until there is room.\<close>

partial_function (option) sys_mbox_post_isr :: "u32 \<Rightarrow> queue \<Rightarrow> queue option" where
  "sys_mbox_post_isr msg q = do {
     (done, q) \<leftarrow> xQueueGenericSendFromISR (le32_bytes msg) queueSEND_TO_BACK q;
     if done then Some q else sys_mbox_post_isr msg q
   }"

definition sys_mbox_trypost_isr :: "u32 \<Rightarrow> queue \<Rightarrow> (int \<times> queue) option" where
  "sys_mbox_trypost_isr msg q = map_option (\<lambda>(done, q). (if done then ERR_OK else ERR_MEM, q)) (xQueueGenericSendFromISR (le32_bytes msg) queueSEND_TO_BACK q)"

text \<open>The loop of \<^verbatim>\<open>sys_arch_mbox_fetch\<close> for a timeout of 0; \<open>msg\<close> is what the pointer of the caller holds.\<close>

partial_function (option) fetch_isr_loop :: "u32 \<Rightarrow> queue \<Rightarrow> (u32 \<times> queue) option" where
  "fetch_isr_loop msg q = do {
     (r, q) \<leftarrow> xQueueReceiveFromISR q;
     case r of None \<Rightarrow> Some (msg, q) | Some x \<Rightarrow> fetch_isr_loop (le32_read x) q
   }"

definition sys_arch_mbox_fetch_isr :: "u32 \<Rightarrow> u32 \<Rightarrow> u32 \<Rightarrow> u32 \<Rightarrow> queue \<Rightarrow> (u32 \<times> u32 \<times> queue) option" where
  "sys_arch_mbox_fetch_isr StartTime Endtime timeout msg q =
     (if timeout \<noteq> 0 then do {
        (r, q) \<leftarrow> xQueueReceiveFromISR q;
        Some (case r of Some x \<Rightarrow> (Endtime - StartTime, le32_read x, q) | None \<Rightarrow> (SYS_ARCH_TIMEOUT, 0, q))
      }
      else do {
        (msg, q) \<leftarrow> fetch_isr_loop msg q;
        Some (Endtime - StartTime, msg, q)
      })"

definition sys_arch_mbox_tryfetch_isr :: "u32 \<Rightarrow> queue \<Rightarrow> (u32 \<times> u32 \<times> queue) option" where
  "sys_arch_mbox_tryfetch_isr msg q = do {
     (r, q) \<leftarrow> xQueueReceiveFromISR q;
     Some (case r of Some x \<Rightarrow> (0, le32_read x, q) | None \<Rightarrow> (SYS_MBOX_EMPTY, msg, q))
   }"

definition sys_sem_signal_isr :: "queue \<Rightarrow> queue option" where
  "sys_sem_signal_isr q = map_option snd (xQueueGiveFromISR q)"

text \<open>Tasks: the call of the queue that a routine makes. Fetching waits if the timeout is 0 and for the timeout otherwise.\<close>

definition sys_mbox_post :: "u32 \<Rightarrow> pc" where
  "sys_mbox_post msg = Top (Send (le32_bytes msg) queueSEND_TO_BACK) True"

definition sys_mbox_trypost :: "u32 \<Rightarrow> pc" where
  "sys_mbox_trypost msg = Top (Send (le32_bytes msg) queueSEND_TO_BACK) (portMAX_DELAY \<noteq> 0)"

definition sys_arch_mbox_fetch :: "u32 \<Rightarrow> pc" where
  "sys_arch_mbox_fetch timeout = Top Receive ((if timeout \<noteq> 0 then timeout else portMAX_DELAY) \<noteq> 0)"

definition sys_arch_mbox_tryfetch :: pc where
  "sys_arch_mbox_tryfetch = Top Receive False"

definition sys_arch_sem_wait :: "u32 \<Rightarrow> pc" where
  "sys_arch_sem_wait timeout = Top Receive ((if timeout \<noteq> 0 then timeout else portMAX_DELAY) \<noteq> 0)"

definition sys_sem_signal :: pc where
  "sys_sem_signal = Top (Send [] queueSEND_TO_BACK) False"

text \<open>The interrupt mask.\<close>

record cpu_mask =
  interrupts_off :: bool

definition sys_arch_protect :: "cpu_mask \<Rightarrow> u32 \<times> cpu_mask" where
  "sys_arch_protect c = (0, c\<lparr>interrupts_off := True\<rparr>)"

definition sys_arch_unprotect :: "u32 \<Rightarrow> cpu_mask \<Rightarrow> cpu_mask" where
  "sys_arch_unprotect pval c = c\<lparr>interrupts_off := False\<rparr>"


section \<open>Full and empty mailboxes\<close>

lemma send_full: "uxMessagesWaiting q = uxLength q \<Longrightarrow> cp \<noteq> queueOVERWRITE \<Longrightarrow> send_section x cp q = Some None"
  by (simp add: send_section_def)

lemma isr_send_full: "uxMessagesWaiting q = uxLength q \<Longrightarrow> cp \<noteq> queueOVERWRITE \<Longrightarrow> xQueueGenericSendFromISR x cp q = Some (False, q)"
  by (simp add: xQueueGenericSendFromISR_def)

text \<open>In handler mode nobody makes room while \<^verbatim>\<open>sys_mbox_post\<close> spins.\<close>

lemma post_isr_spins:
  assumes "uxMessagesWaiting q = uxLength q"
  shows "sys_mbox_post_isr msg q = None"
proof -
  have step: "uxMessagesWaiting q \<noteq> uxLength q"
    if "\<And>m b y. f m b = Some y \<Longrightarrow> uxMessagesWaiting b \<noteq> uxLength b"
      "xQueueGenericSendFromISR (le32_bytes m) queueSEND_TO_BACK q \<bind> (\<lambda>(done, q). if done then Some q else f m q) = Some r" for f m q and r :: queue
    using that by (auto simp: isr_send_full)
  have "uxMessagesWaiting q \<noteq> uxLength q" if r: "sys_mbox_post_isr msg q = Some q'" for q'
    using sys_mbox_post_isr.raw_induct[of "\<lambda>_ q _. uxMessagesWaiting q \<noteq> uxLength q", OF step r] .
  then show ?thesis using assms by (cases "sys_mbox_post_isr msg q") auto
qed

lemma idle_not_on_list: "lists_ok s \<Longrightarrow> t < length (tasks s) \<Longrightarrow> tasks s ! t = Idle \<Longrightarrow> \<not> on_list t (the_queue s)"
  using waiting_coming[of s t] by (auto simp: on_list_iff)

text \<open>A task that sends to a full queue without another task or interrupt in between goes through all points of the loop and is asleep then.\<close>

lemma send_sleeps:
  assumes "sys_ok ps s" "holder s = None" "t < length (tasks s)" "tasks s ! t = Idle" "uxMessagesWaiting (the_queue s) = uxLength (the_queue s)"
    "cp \<noteq> queueOVERWRITE"
  shows "drive (replicate 7 (t, False, v)) (s\<lparr>tasks := (tasks s)[t := Top (Send x cp) True]\<rparr>) =
    Some (s\<lparr>the_queue := (the_queue s)\<lparr>xTasksWaitingToSend := vTaskPlaceOnEventList v t (xTasksWaitingToSend (the_queue s))\<rparr>, tasks := (tasks s)[t := Top (Send x cp) True]\<rparr>)"
proof -
  note S = sys_okD[OF assms(1)]
  have "lock_of d (the_queue s) = - 1" for d using heldD(2)[OF S(2) assms(2)] .
  from this[of True] this[of False] have l: "cRxLock (the_queue s) = - 1" "cTxLock (the_queue s) = - 1" by (simp_all add: lock_of_def)
  have n: "\<not> on_list t (the_queue s)" using idle_not_on_list[OF S(3) assms(3,4)] .
  show ?thesis
    using assms(2-6) l n by (simp add: numeral_eq_Suc may_run_def task_step_def send_full prvLockQueue_def full_for_def prvIsQueueFull_def place_def unlock_tx_def unlock_rx_def)
qed


text \<open>Fetching in handler mode.\<close>

lemma isr_receive_empty: "uxMessagesWaiting q = 0 \<Longrightarrow> xQueueReceiveFromISR q = Some (None, q)"
  by (simp add: xQueueReceiveFromISR_def)

text \<open>While the queue is not locked, receiving does not fail.\<close>

lemma isr_receive_run:
  assumes "queue_ok q" "cRxLock q = - 1" "queue_items q = x # xs"
  shows "\<exists>q'. xQueueReceiveFromISR q = Some (Some x, q') \<and> queue_ok q' \<and> cRxLock q' = - 1 \<and> queue_items q' = xs \<and>
    xTasksWaitingToSend q' = tl (xTasksWaitingToSend q)"
proof -
  have n: "0 < uxMessagesWaiting q" using length_queue_items[of q] assms(3) by simp
  obtain q' where q': "prvCopyDataFromQueue q = Some (hd (queue_items q), q')" "queue_items (q'\<lparr>uxMessagesWaiting := uxMessagesWaiting q - 1\<rparr>) = tl (queue_items q)"
    "same_lists q q'" "moved False q (q'\<lparr>uxMessagesWaiting := uxMessagesWaiting q - 1\<rparr>)" using get_avail[OF assms(1) n] by blast
  show ?thesis using q' n assms(2,3)
    by (auto simp: xQueueReceiveFromISR_def Let_def xTaskRemoveFromEventList_def moved_def same_lists_def)
qed

lemma fetch_isr_loop_val:
  assumes "queue_ok q" "cRxLock q = - 1"
  shows "\<exists>q'. fetch_isr_loop msg q = Some (last (msg # map le32_read (queue_items q)), q') \<and> queue_items q' = [] \<and> queue_ok q'"
  using assms
proof (induction "queue_items q" arbitrary: q msg)
  case Nil
  then have "uxMessagesWaiting q = 0" using length_queue_items[of q] by simp
  then have "fetch_isr_loop msg q = Some (msg, q)" by (subst fetch_isr_loop.simps) (simp add: isr_receive_empty)
  then show ?case using Nil(1,2) by simp
next
  case (Cons x xs)
  obtain q1 where q1: "xQueueReceiveFromISR q = Some (Some x, q1)" "queue_ok q1" "cRxLock q1 = - 1" "queue_items q1 = xs"
    using isr_receive_run[OF Cons(3,4) Cons(2)[symmetric]] by blast
  have "fetch_isr_loop msg q = fetch_isr_loop (le32_read x) q1" by (subst fetch_isr_loop.simps) (simp add: q1(1))
  then show ?case using Cons(1)[OF q1(4)[symmetric] q1(2,3), of "le32_read x"] q1(4) by (auto simp flip: Cons(2))
qed

section \<open>Properties\<close>

text \<open>
  Posting to a full mailbox. In handler mode \<^verbatim>\<open>sys_mbox_trypost\<close> returns \<^verbatim>\<open>ERR_MEM\<close> and changes nothing. A task that calls it goes to sleep on the mailbox, behind the tasks of
  higher priority, as it would in \<^verbatim>\<open>sys_mbox_post\<close>: lwIP demands a call that does not wait, and its thread makes it while it holds everything up.
\<close>

theorem trypost_full:
  assumes "0 < len" "length mem = len * 4" "0 < a" "queue_reach {queueSEND_TO_BACK} (queue_start len 4 mem a n) s" "holder s = None"
    "t < length (tasks s)" "tasks s ! t = Idle" "uxQueueSpacesAvailable (the_queue s) = 0"
  shows "sys_mbox_trypost_isr msg (the_queue s) = Some (ERR_MEM, the_queue s) \<and>
    (\<exists>s'. drive (replicate 7 (t, False, v)) (s\<lparr>tasks := (tasks s)[t := sys_mbox_trypost msg]\<rparr>) = Some s' \<and> tasks s' ! t = sys_mbox_trypost msg \<and> \<not> may_run t s' \<and>
       xTasksWaitingToSend (the_queue s') = vTaskPlaceOnEventList v t (xTasksWaitingToSend (the_queue s)) \<and> queue_items (the_queue s') = queue_items (the_queue s))"
proof -
  have ok: "sys_ok {queueSEND_TO_BACK} s" using reach_ok[OF assms(4) start_ok(1)[OF assms(1-3)]] .
  have full: "uxMessagesWaiting (the_queue s) = uxLength (the_queue s)" using assms(8) sys_okD(1)[OF ok] by (simp add: uxQueueSpacesAvailable_def queue_ok_def)
  have "sys_mbox_trypost msg = Top (Send (le32_bytes msg) queueSEND_TO_BACK) True" by (simp add: sys_mbox_trypost_def)
  moreover have "on_list t ((the_queue s)\<lparr>xTasksWaitingToSend := vTaskPlaceOnEventList v t (xTasksWaitingToSend (the_queue s))\<rparr>)"
    by (simp add: on_list_def vTaskPlaceOnEventList_def)
  ultimately show ?thesis using send_sleeps[OF ok assms(5-7) full, of queueSEND_TO_BACK v "le32_bytes msg"] assms(5,6)
    by (simp add: sys_mbox_trypost_isr_def isr_send_full[OF full] may_run_def)
qed

text \<open>
  \<^verbatim>\<open>sys_arch_mbox_fetch\<close> in handler mode with a timeout of 0 runs its loop while it gets messages: it empties the mailbox and gives the caller the last message only, and it returns
  without a message when there is none, where lwIP expects it to wait for one. The loop returns.
\<close>

theorem fetch_isr_discards:
  assumes "queue_ok q" "cRxLock q = - 1"
  shows "\<exists>q'. sys_arch_mbox_fetch_isr start stop 0 msg q = Some (stop - start, last (msg # map le32_read (queue_items q)), q') \<and> queue_items q' = []"
  using fetch_isr_loop_val[OF assms, of msg] by (auto simp: sys_arch_mbox_fetch_isr_def)

text \<open>
  A semaphore made by \<^verbatim>\<open>sys_sem_new\<close> has a piece of the heap of its own, nobody waits for it, and it can be taken exactly when the count was not 0: counts above 1 are cut to 1. If the heap
  has no room, the result is \<^verbatim>\<open>ERR_MEM\<close> and the heap stays as it was.
\<close>

theorem sem_new_counts:
  assumes "heap_rel env h L"
  shows "\<exists>e p r h'. sys_sem_new env n t h = Some (e, p, r, h') \<and>
    (e = ERR_MEM \<and> r = None \<and> heap_rel env h' L \<or>
     e = ERR_OK \<and> (\<exists>q k. r = Some q \<and> p \<notin> fst ` L \<and> heap_rel env h' (insert (p, k) L) \<and> queue_ok q \<and> uxItemSize q = 0 \<and> uxLength q = 1 \<and>
       xTasksWaitingToReceive q = [] \<and> uxQueueMessagesWaiting q = (if n = 0 then 0 else 1)))"
proof -
  obtain p r h' where c: "xQueueGenericCreate env 1 0 [] h = Some (p, r, h')"
    "p = 0 \<and> r = None \<and> heap_rel env h' L \<or> p \<noteq> 0 \<and> r = Some (prvInitialiseNewQueue 1 0 [] p) \<and> (\<exists>k. p \<notin> fst ` L \<and> heap_rel env h' (insert (p, k) L))"
    using create_val[OF assms, of 1 0 "[]"] by auto
  show ?thesis
  proof (cases "p = 0")
    case True
    then show ?thesis using c by (simp add: sys_sem_new_def xSemaphoreCreateBinary_def)
  next
    case False
    let ?q = "prvInitialiseNewQueue 1 0 [] p"
    have N: "queue_ok ?q" "uxItemSize ?q = 0" "uxLength ?q = 1" "uxMessagesWaiting ?q = 0" using new_queue_ok[of 1 "[]" 0 p] False by simp_all
    have w: "xTasksWaitingToReceive ?q = []" by (simp add: prvInitialiseNewQueue_def xQueueGenericReset_def Let_def)
    obtain k where k: "p \<notin> fst ` L" "heap_rel env h' (insert (p, k) L)" "r = Some ?q" using c(2) False by blast
    show ?thesis
    proof (cases "n = 0")
      case True
      then have "sys_sem_new env n t h = Some (ERR_OK, p, Some ?q, h')" using c(1) k(3) N by (simp add: sys_sem_new_def xSemaphoreCreateBinary_def xSemaphoreTake_0_def sem_take_section_def)
      then show ?thesis using True k N w by (auto simp: uxQueueMessagesWaiting_def)
    next
      case n: False
      have "item_ok {queueSEND_TO_BACK} ?q [] queueSEND_TO_BACK" using N by (simp add: item_ok_def)
      then obtain q where q: "send_section [] queueSEND_TO_BACK ?q = Some (Some q)" "moved True ?q q" "woken True ?q q"
        using send_section_val[OF N(1)] N by (fastforce simp: avail_def)
      have "sys_sem_new env n t h = Some (ERR_OK, p, Some q, h')" using c(1) k(3) n q(1) by (simp add: sys_sem_new_def xSemaphoreCreateBinary_def xSemaphoreGive_def)
      moreover have "queue_ok q \<and> uxItemSize q = 0 \<and> uxLength q = 1 \<and> xTasksWaitingToReceive q = [] \<and> uxMessagesWaiting q = 1"
        using q(2,3) N w by (simp add: moved_def woken_def avail_def wait_list_def queue_ok_def)
      ultimately show ?thesis using n k by (auto simp: uxQueueMessagesWaiting_def)
    qed
  qed
qed

text \<open>The tasks of the system begin to use a mailbox.\<close>

definition mbox_system :: "queue \<Rightarrow> nat \<Rightarrow> queue_system" where
  "mbox_system q n = \<lparr>the_queue = q, tasks = replicate n Idle, holder = None, accepted = [], delivered = []\<rparr>"


text \<open>A mailbox for one message that holds the message 5.\<close>

definition full_mbox :: queue_system where
  "full_mbox = (mbox_system (prvInitialiseNewQueue 1 4 (le32_bytes 5) 8) 1)\<lparr>the_queue := (prvInitialiseNewQueue 1 4 (le32_bytes 5) 8)\<lparr>uxMessagesWaiting := 1\<rparr>, accepted := [le32_bytes 5]\<rparr>"

lemma full_mbox_reach: "queue_reach {queueSEND_TO_BACK} (queue_start 1 4 [0, 0, 0, 0] 8 1) full_mbox"
proof -
  have "xQueueGenericSendFromISR (le32_bytes 5) queueSEND_TO_BACK (prvInitialiseNewQueue 1 4 [0, 0, 0, 0] 8) =
    Some (True, (prvInitialiseNewQueue 1 4 (le32_bytes 5) 8)\<lparr>uxMessagesWaiting := 1\<rparr>)"
    by (simp add: xQueueGenericSendFromISR_def prvCopyDataToQueue_def prvInitialiseNewQueue_def xQueueGenericReset_def memcpy_def le32_bytes_def Let_def)
  then have "queue_step {queueSEND_TO_BACK} (queue_start 1 4 [0, 0, 0, 0] 8 1) full_mbox"
    using isr_send[of "{queueSEND_TO_BACK}" "queue_start 1 4 [0, 0, 0, 0] 8 1" "le32_bytes 5" queueSEND_TO_BACK True] new_queue_ok(3)[of 1 "[0, 0, 0, 0]" 4 8]
    by (simp add: queue_start_def full_mbox_def mbox_system_def item_ok_def)
  then show ?thesis by (rule queue_reach.step[OF queue_reach.start])
qed

lemma full_mbox_queue:
  "queue_ok (the_queue full_mbox)" "cRxLock (the_queue full_mbox) = - 1" "queue_items (the_queue full_mbox) = [le32_bytes 5]" "uxQueueSpacesAvailable (the_queue full_mbox) = 0"
  using sys_okD(1)[OF reach_ok[OF full_mbox_reach start_ok(1)]]
  by (simp_all add: full_mbox_def mbox_system_def queue_items_def slot_def prvInitialiseNewQueue_def xQueueGenericReset_def uxQueueSpacesAvailable_def le32_bytes_def read_slot_def)

theorem trypost_full_witness:
  "sys_mbox_trypost_isr 7 (the_queue full_mbox) = Some (ERR_MEM, the_queue full_mbox) \<and>
   (\<exists>s'. drive (replicate 7 (0, False, 3)) (full_mbox\<lparr>tasks := [sys_mbox_trypost 7]\<rparr>) = Some s' \<and> \<not> may_run 0 s' \<and> xTasksWaitingToSend (the_queue s') = [(3, 0)])"
proof -
  have s: "holder full_mbox = None" "tasks full_mbox = [Idle]" "xTasksWaitingToSend (the_queue full_mbox) = []"
    by (simp_all add: full_mbox_def mbox_system_def prvInitialiseNewQueue_def xQueueGenericReset_def)
  then show ?thesis using trypost_full[OF _ _ _ full_mbox_reach s(1) _ _ full_mbox_queue(4), of 0 7 3] by (auto simp: vTaskPlaceOnEventList_def)
qed

theorem fetch_isr_discards_witness:
  "\<exists>q'. sys_arch_mbox_fetch_isr 10 12 0 9 (the_queue full_mbox) = Some (2, 5, q') \<and> queue_items q' = []"
  using fetch_isr_discards[OF full_mbox_queue(1,2), of 10 12 9] by (simp add: full_mbox_queue(3))

lemma heap_example_rel: "heap_rel heap_example heap_reset {}"
  by (simp add: heap_rel_def heap_example_ok heap_reset_def)

theorem sem_new_counts_witness:
  "heap_rel heap_example heap_reset {} \<and> (\<exists>e p r h'. sys_sem_new heap_example 1 0 heap_reset = Some (e, p, r, h') \<and> (e = ERR_OK \<longrightarrow> (\<exists>q. r = Some q \<and> uxMessagesWaiting q = 1)))"
  using heap_example_rel sem_new_counts[OF heap_example_rel, of 1 0] by (fastforce simp: uxQueueMessagesWaiting_def)

definition mbox_example :: queue_system where
  "mbox_example = mbox_system (prvInitialiseNewQueue 1 4 [0, 0, 0, 0] 0x20001010) 1"

definition mbox_example_full :: queue_system where
  "mbox_example_full = mbox_example\<lparr>the_queue := (prvInitialiseNewQueue 1 4 (le32_bytes 5) 0x20001010)\<lparr>uxMessagesWaiting := 1\<rparr>, accepted := [le32_bytes 5]\<rparr>"


end
