(* ===== verification/Lwip_Chksum.thy ===== *)
theory Lwip_Chksum
  imports Prelude
begin

unbundle bit_operations_syntax

text \<open>
  The Internet checksum of lwIP, \<^verbatim>\<open>LWIP/src/core/ipv4/inet_chksum.c\<close> (algorithm 2, little-endian machine), over a buffer at an even or odd address and over chains of packet buffers
  that may be cut anywhere. The reference is the sum of the 16-bit words of the data, reduced to ones' complement: the theorems say that address and cuts do not matter, that a
  stored checksum verifies, and that changing a byte is noticed.
\<close>

section \<open>The code\<close>

definition lwip_htons :: "u16 \<Rightarrow> u16" where
  "lwip_htons n = push_bit 8 (n AND 0xFF) OR drop_bit 8 (n AND 0xFF00)"

definition FOLD_U32T :: "u32 \<Rightarrow> u32" where
  "FOLD_U32T u = drop_bit 16 u + (u AND 0xFFFF)"

definition SWAP_BYTES_IN_WORD :: "u32 \<Rightarrow> u32" where
  "SWAP_BYTES_IN_WORD w = push_bit 8 (w AND 0xFF) OR drop_bit 8 (w AND 0xFF00)"

text \<open>The loop adds little-endian words; it gives the sum and the bytes that are left.\<close>

fun chksum_loop :: "u8 list \<Rightarrow> u32 \<Rightarrow> u32 \<times> u8 list" where
  "chksum_loop (b0 # b1 # bs) acc = chksum_loop bs (acc + ucast (be16 b1 b0))"
| "chksum_loop bs acc = (acc, bs)"

text \<open>\<open>dataptr\<close> is the address of the data, \<open>bs\<close> the \<^verbatim>\<open>len\<close> bytes there.\<close>

definition lwip_standard_chksum :: "u32 \<Rightarrow> u8 list \<Rightarrow> u16" where
  "lwip_standard_chksum dataptr bs =
     (let odd = dataptr AND 1 \<noteq> 0;
          (t, bs) = (if odd \<and> bs \<noteq> [] then (be16 (hd bs) 0, tl bs) else (0, bs));
          (acc, rest) = chksum_loop bs 0;
          t = (if rest \<noteq> [] then be16 (hi8 t) (hd rest) else t);
          acc = FOLD_U32T (FOLD_U32T (acc + ucast t))
      in ucast (if odd then SWAP_BYTES_IN_WORD acc else acc))"

definition inet_chksum :: "u32 \<Rightarrow> u8 list \<Rightarrow> u16" where
  "inet_chksum dataptr bs = NOT (lwip_standard_chksum dataptr bs)"

text \<open>A chain of packet buffers is a list of payload addresses with their bytes.\<close>

type_synonym chunks = "(u32 \<times> u8 list) list"

fun pbuf_loop :: "chunks \<Rightarrow> u32 \<Rightarrow> bool \<Rightarrow> u32 \<times> bool" where
  "pbuf_loop [] acc swapped = (acc, swapped)"
| "pbuf_loop ((payload, bs) # qs) acc swapped =
     (let acc = FOLD_U32T (acc + ucast (lwip_standard_chksum payload bs))
      in if length bs mod 2 \<noteq> 0 then pbuf_loop qs (SWAP_BYTES_IN_WORD acc) (\<not> swapped) else pbuf_loop qs acc swapped)"

definition inet_chksum_pbuf :: "chunks \<Rightarrow> u16" where
  "inet_chksum_pbuf p =
     (let (acc, swapped) = pbuf_loop p 0 False;
          acc = (if swapped then SWAP_BYTES_IN_WORD acc else acc)
      in NOT (ucast (acc AND 0xFFFF)))"

text \<open>The pseudo header that TCP and UDP add; addresses are in network byte order.\<close>

definition add_pseudo :: "u32 \<Rightarrow> u32 \<Rightarrow> u8 \<Rightarrow> u16 \<Rightarrow> u32 \<Rightarrow> u16" where
  "add_pseudo src dest proto proto_len acc =
     (let acc = acc + (src AND 0xFFFF) + (drop_bit 16 src AND 0xFFFF);
          acc = acc + (dest AND 0xFFFF) + (drop_bit 16 dest AND 0xFFFF);
          acc = acc + ucast (lwip_htons (ucast proto)) + ucast (lwip_htons proto_len);
          acc = FOLD_U32T (FOLD_U32T acc)
      in NOT (ucast (acc AND 0xFFFF)))"

definition inet_chksum_pseudo :: "chunks \<Rightarrow> u32 \<Rightarrow> u32 \<Rightarrow> u8 \<Rightarrow> u16 \<Rightarrow> u16" where
  "inet_chksum_pseudo p src dest proto proto_len =
     (let (acc, swapped) = pbuf_loop p 0 False;
          acc = (if swapped then SWAP_BYTES_IN_WORD acc else acc)
      in add_pseudo src dest proto proto_len acc)"

text \<open>The variant over the first \<open>chksum_len\<close> bytes only; its loop swaps by the length of the whole buffer.\<close>

fun pbuf_partial_loop :: "chunks \<Rightarrow> u16 \<Rightarrow> u32 \<Rightarrow> bool \<Rightarrow> u32 \<times> bool" where
  "pbuf_partial_loop [] chksum_len acc swapped = (acc, swapped)"
| "pbuf_partial_loop ((payload, bs) # qs) chksum_len acc swapped =
     (if \<not> chksum_len > 0 then (acc, swapped)
      else (let chklen = (if of_nat (length bs) > chksum_len then chksum_len else of_nat (length bs));
                acc = FOLD_U32T (acc + ucast (lwip_standard_chksum payload (take (unat chklen) bs)))
            in if length bs mod 2 \<noteq> 0 then pbuf_partial_loop qs (chksum_len - chklen) (SWAP_BYTES_IN_WORD acc) (\<not> swapped)
               else pbuf_partial_loop qs (chksum_len - chklen) acc swapped))"

definition inet_chksum_pseudo_partial :: "chunks \<Rightarrow> u32 \<Rightarrow> u32 \<Rightarrow> u8 \<Rightarrow> u16 \<Rightarrow> u16 \<Rightarrow> u16" where
  "inet_chksum_pseudo_partial p src dest proto proto_len chksum_len =
     (let (acc, swapped) = pbuf_partial_loop p chksum_len 0 False;
          acc = (if swapped then SWAP_BYTES_IN_WORD acc else acc)
      in add_pseudo src dest proto proto_len acc)"

section \<open>Ones' complement sums\<close>

text \<open>The sum of the little-endian words of the data, padded with a zero byte, and the representative of a sum modulo 65535 that keeps 0 apart.\<close>

fun net_sum :: "u8 list \<Rightarrow> nat" where
  "net_sum (b0 # b1 # bs) = unat b0 + 256 * unat b1 + net_sum bs"
| "net_sum [b0] = unat b0"
| "net_sum [] = 0"

definition norm :: "nat \<Rightarrow> nat" where
  "norm n = (if n = 0 then 0 else (n - 1) mod 65535 + 1)"

lemma norm_le: "norm n \<le> 65535"
proof -
  define r where "r = (n - 1) mod 65535"
  have "r < 65535" by (simp add: r_def)
  then show ?thesis unfolding norm_def r_def[symmetric] by simp
qed

lemma norm_small [simp]: "n \<le> 65535 \<Longrightarrow> norm n = n"
  by (simp add: norm_def)

lemma norm_mod [simp]: "norm n mod 65535 = n mod 65535"
proof (cases n)
  case (Suc m)
  have "norm n mod 65535 = Suc (m mod 65535) mod 65535" using Suc by (simp add: norm_def)
  also have "\<dots> = n mod 65535" using Suc mod_Suc_eq[of m 65535] by simp
  finally show ?thesis .
qed (simp add: norm_def)

lemma norm_0 [simp]: "norm n = 0 \<longleftrightarrow> n = 0"
  by (simp add: norm_def)

lemma norm_mod_if: "norm n = (if n = 0 then 0 else if n mod 65535 = 0 then 65535 else n mod 65535)"
proof (cases "n = 0")
  case False
  then have p: "0 < norm n" by (simp add: norm_def)
  show ?thesis
  proof (cases "norm n = 65535")
    case True
    then show ?thesis using False norm_mod[of n] by simp
  next
    case b: False
    then have "norm n < 65535" using norm_le[of n] by simp
    then have "n mod 65535 = norm n" by (metis mod_less norm_mod)
    then show ?thesis using False p by simp
  qed
qed simp

text \<open>Two sums have the same representative when they are congruent and both or neither are 0.\<close>

lemma norm_cong: "m mod 65535 = n mod 65535 \<Longrightarrow> (m = 0 \<longleftrightarrow> n = 0) \<Longrightarrow> norm m = norm n"
  by (simp add: norm_mod_if)

lemma norm_norm [simp]: "norm (norm n) = norm n"
  by (intro norm_cong) simp_all

lemma norm_add: "norm (norm m + n) = norm (m + n)" "norm (n + norm m) = norm (n + m)"
  by (intro norm_cong; metis mod_add_left_eq mod_add_right_eq norm_mod norm_0 add_eq_0_iff_both_eq_0)+

lemma norm_mult: "0 < k \<Longrightarrow> norm (k * norm n) = norm (k * n)"
  by (intro norm_cong; metis mod_mult_right_eq norm_mod norm_0 mult_eq_0_iff)

lemma norm_65536: "norm (65536 * n) = norm n"
proof (intro norm_cong)
  have "65536 * n = n + n * 65535" by simp
  then show "65536 * n mod 65535 = n mod 65535" by (metis mod_mult_self1)
qed simp

lemma norm_fold: "norm (n div 65536 + n mod 65536) = norm n"
proof -
  have "norm n = norm (65536 * (n div 65536) + n mod 65536)" by simp
  also have "\<dots> = norm (norm (65536 * (n div 65536)) + n mod 65536)" by (rule norm_add(1)[symmetric])
  also have "\<dots> = norm (n div 65536 + n mod 65536)" by (simp add: norm_65536 norm_add)
  finally show ?thesis by simp
qed

lemma unat_ucast_8_16 [simp]: "unat (ucast (b :: u8) :: u16) = unat b"
  using unsigned_less[of b, where 'a = nat] by (simp add: unsigned_ucast_eq take_bit_nat_eq_self)

lemma unat_ucast_16_32 [simp]: "unat (ucast (b :: u16) :: u32) = unat b"
  using unsigned_less[of b, where 'a = nat] by (simp add: unsigned_ucast_eq take_bit_nat_eq_self)

lemma unat_be16: "unat (be16 h l) = 256 * unat h + unat l"
proof -
  have b: "unat h < 256" "unat l < 256" using unsigned_less[of h, where 'a = nat] unsigned_less[of l, where 'a = nat] by simp_all
  have "push_bit 8 (ucast h) AND (ucast l :: u16) = 0"
    by (rule bit_word_eqI) (auto simp: bit_simps dest: bit_imp_le_length)
  then have "be16 h l = push_bit 8 (ucast h) + ucast l" by (simp add: be16_def disjunctive_add_eq_or)
  moreover have "unat (push_bit 8 (ucast h) :: u16) = 256 * unat h"
    using b by (simp add: push_bit_eq_mult unat_mult_lem[THEN iffD1])
  ultimately show ?thesis using b by (simp add: unat_add_lem[THEN iffD1])
qed

lemma byte_masks:
  "(w :: 'a::len word) AND 0xFF = take_bit 8 w" "drop_bit 8 ((y :: u32) AND 0xFF00) = take_bit 8 (drop_bit 8 y)"
  "drop_bit 8 ((x :: u16) AND 0xFF00) = take_bit 8 (drop_bit 8 x)"
  by (simp_all add: take_bit_eq_mask mask_numeral drop_bit_and)

lemma unat_fold: "unat (FOLD_U32T u) = unat u div 65536 + unat u mod 65536"
proof -
  have u: "unat u < 2 ^ 32" using unsigned_less[of u, where 'a = nat] by simp
  have a: "unat (drop_bit 16 u) = unat u div 65536"
    using u drop_bit_eq_div[of 16 "unat u"] by (simp add: unsigned_drop_bit_eq take_bit_nat_eq_self)
  have "u AND 0xFFFF = take_bit 16 u" by (simp add: take_bit_eq_mask mask_numeral)
  then have b: "unat (u AND 0xFFFF) = unat u mod 65536" using take_bit_eq_mod[of 16 "unat u"] by (simp only: unsigned_take_bit_eq) simp
  have "unat u div 65536 < 65536" using u by (simp add: less_mult_imp_div_less)
  moreover have "unat u mod 65536 < 65536" by simp
  ultimately show ?thesis unfolding FOLD_U32T_def using a b by (subst unat_add_lem[THEN iffD1]) simp_all
qed

lemma fold_small:
  assumes "n \<le> 0x1FFFE"
  shows "n div 65536 + n mod 65536 = norm (n :: nat)"
proof -
  have "n div 65536 + n mod 65536 \<le> 65535"
  proof (cases "n < 65536")
    case False
    then have "n = 65536 + (n - 65536)" "n - 65536 < 65536" using assms by simp_all
    then have "n div 65536 = 1" "n mod 65536 = n - 65536" by (simp_all add: div_if mod_if)
    then show ?thesis using assms False by simp
  qed simp
  then show ?thesis using norm_fold[of n] norm_small by metis
qed

lemma unat_fold_small: "unat u \<le> 0x1FFFE \<Longrightarrow> unat (FOLD_U32T u) = norm (unat u)"
  by (simp add: unat_fold fold_small)

lemma unat_fold_twice: "unat (FOLD_U32T (FOLD_U32T u)) = norm (unat u)"
proof -
  have "unat u < 2 ^ 32" using unsigned_less[of u, where 'a = nat] by simp
  then have "unat u div 65536 < 65536" by (simp add: less_mult_imp_div_less)
  moreover have "unat u mod 65536 < 65536" by simp
  ultimately have "unat (FOLD_U32T u) \<le> 0x1FFFE" unfolding unat_fold by linarith
  then show ?thesis by (simp add: unat_fold_small) (simp add: unat_fold norm_fold)
qed

lemma unat_swap:
  assumes "unat w \<le> 65535"
  shows "unat (SWAP_BYTES_IN_WORD w) = norm (256 * unat w)"
proof -
  obtain h l :: u8 where w: "w = ucast (be16 h l)"
  proof
    show "w = ucast (be16 (hi8 (ucast w)) (lo8 (ucast w)))"
      using assms by (simp add: word_unat_eq_iff unsigned_ucast_eq unsigned_take_bit_eq take_bit_nat_eq_self)
  qed
  have "SWAP_BYTES_IN_WORD w = ucast (be16 l h)"
    unfolding SWAP_BYTES_IN_WORD_def w byte_masks
    by (rule bit_word_eqI) (auto simp: bit_simps bit_be16 dest: bit_imp_le_length)
  then have "unat (SWAP_BYTES_IN_WORD w) = 256 * unat l + unat h" by (simp add: unat_be16)
  moreover have "256 * unat w = 65536 * unat h + 256 * unat l" using w by (simp add: unat_be16)
  moreover have "norm (65536 * unat h + 256 * unat l) = norm (unat h + 256 * unat l)"
    using norm_add(1)[of "65536 * unat h" "256 * unat l"] norm_add(1)[of "unat h" "256 * unat l"] by (simp add: norm_65536)
  moreover have "unat h + 256 * unat l \<le> 65535" using unsigned_less[of h, where 'a = nat] unsigned_less[of l, where 'a = nat] by simp
  ultimately show ?thesis by simp
qed

section \<open>What the code computes\<close>

lemma net_sum_bound: "net_sum bs \<le> 65535 * ((length bs + 1) div 2)"
proof (induction bs rule: net_sum.induct)
  case (1 b0 b1 bs)
  have "unat b0 \<le> 255" "unat b1 \<le> 255" using unsigned_less[of b0, where 'a = nat] unsigned_less[of b1, where 'a = nat] by simp_all
  then show ?case using 1 by simp
next
  case (2 b0)
  then show ?case using unsigned_less[of b0, where 'a = nat] by simp
qed simp

lemma net_sum_append: "even (length xs) \<Longrightarrow> net_sum (xs @ ys) = net_sum xs + net_sum ys"
  by (induction xs rule: net_sum.induct) simp_all

text \<open>A byte in front exchanges the places of all others.\<close>

lemma norm_65536_add: "norm (m + 65536 * n) = norm (m + n)"
  by (metis norm_65536 norm_add(2))

lemma net_sum_Cons: "norm (net_sum (b # bs)) = norm (unat b + 256 * net_sum bs)"
proof (induction bs arbitrary: b rule: induct_list012)
  case (3 x y zs)
  have "norm (net_sum (b # x # y # zs)) = norm (unat b + 256 * unat x + norm (net_sum (y # zs)))" by (simp add: norm_add)
  also have "\<dots> = norm (unat b + 256 * unat x + (unat y + 256 * net_sum zs))" by (simp only: 3(1) norm_add)
  also have "\<dots> = norm (unat b + 256 * unat x + 256 * net_sum zs + unat y)" by (simp add: ac_simps)
  also have "\<dots> = norm (unat b + 256 * unat x + 256 * net_sum zs + 65536 * unat y)" by (simp only: norm_65536_add)
  also have "\<dots> = norm (unat b + 256 * net_sum (x # y # zs))" by (simp add: algebra_simps)
  finally show ?case .
qed simp_all

lemma net_sum_Cons_add: "norm (net_sum (b # bs) + k) = norm (unat b + 256 * net_sum bs + k)"
  by (metis net_sum_Cons norm_add(1))

lemma norm_net_append: "norm (net_sum (xs @ ys)) = norm (net_sum xs + (if even (length xs) then 1 else 256) * net_sum ys)"
proof (induction xs)
  case (Cons x xs)
  have "norm (net_sum ((x # xs) @ ys)) = norm (unat x + norm (256 * norm (net_sum (xs @ ys))))" by (simp add: net_sum_Cons norm_mult norm_add)
  also have "\<dots> = norm (unat x + 256 * net_sum xs + (if even (length xs) then 256 * net_sum ys else 65536 * net_sum ys))"
    using Cons by (simp add: norm_mult norm_add algebra_simps)
  also have "\<dots> = norm (unat x + 256 * net_sum xs + (if even (length xs) then 256 * net_sum ys else net_sum ys))" by (simp add: norm_65536_add)
  also have "\<dots> = norm (net_sum (x # xs) + (if even (length (x # xs)) then 1 else 256) * net_sum ys)" by (simp add: net_sum_Cons_add)
  finally show ?case .
qed simp

lemma hi8_0: "hi8 0 = 0"
  by (simp add: hi8_def)

lemma chksum_loop_val:
  assumes "unat acc + net_sum bs < 2 ^ 32" "chksum_loop bs acc = (r, rest)"
  shows "unat r + (if rest = [] then 0 else unat (hd rest)) = unat acc + net_sum bs \<and> length rest \<le> 1 \<and> (rest = [] \<longleftrightarrow> even (length bs))"
  using assms
proof (induction bs acc rule: chksum_loop.induct)
  case (1 b0 b1 bs acc)
  have "unat (acc + ucast (be16 b1 b0)) = unat acc + (256 * unat b1 + unat b0)" using 1(2) by (simp add: unat_add_lem[THEN iffD1] unat_be16)
  then show ?case using 1 by (cases rest) (auto simp: ac_simps)
qed auto

lemma standard_chksum_val:
  assumes "length bs \<le> 0x1FFFE"
  shows "unat (lwip_standard_chksum a bs) = norm (net_sum bs)"
proof -
  let ?odd = "a AND 1 \<noteq> 0"
  define tb where "tb = (if ?odd \<and> bs \<noteq> [] then (be16 (hd bs) 0, tl bs) else (0, bs))"
  obtain t cs where tb: "tb = (t, cs)" by fastforce
  obtain r rest where loop: "chksum_loop cs 0 = (r, rest)" by fastforce
  define t' where "t' = (if rest \<noteq> [] then be16 (hi8 t) (hd rest) else t)"
  have len: "length cs \<le> 0x1FFFE" using assms tb by (auto simp: tb_def split: if_splits)
  have "(length cs + 1) div 2 \<le> 65535" using len by simp
  then have "net_sum cs \<le> 65535 * 65535" using net_sum_bound[of cs] by (meson le_trans mult_le_mono2)
  then have c: "unat r + (if rest = [] then 0 else unat (hd rest)) = net_sum cs" "net_sum cs + 65535 < 2 ^ 32"
    using chksum_loop_val[of 0 cs, OF _ loop] by (cases rest, simp_all)
  have t: "unat t = (if ?odd \<and> bs \<noteq> [] then 256 * unat (hd bs) else 0)" "unat t = 256 * unat (hi8 t)"
    using tb hi8_be16 hi8_0 by (auto simp: tb_def unat_be16 split: if_splits)
  have t': "unat t' + unat r = unat t + net_sum cs" using t(2) c(1) by (cases "rest = []") (simp_all add: t'_def unat_be16)
  have "unat t \<le> 65280" using unsigned_less[of "hi8 t", where 'a = nat] t(2) by simp
  then have "unat (r + ucast t') = unat t + net_sum cs" using t' c(2) by (simp add: unat_add_lem[THEN iffD1])
  then have f: "unat (FOLD_U32T (FOLD_U32T (r + ucast t'))) = norm (unat t + net_sum cs)" by (simp add: unat_fold_twice)
  have u: "unat (ucast w :: u16) = unat w" if "unat w \<le> 65535" for w :: u32 using that by (simp add: unsigned_ucast_eq take_bit_nat_eq_self)
  have val: "lwip_standard_chksum a bs = ucast (if ?odd then SWAP_BYTES_IN_WORD (FOLD_U32T (FOLD_U32T (r + ucast t'))) else FOLD_U32T (FOLD_U32T (r + ucast t')))"
    using tb loop by (simp add: lwip_standard_chksum_def tb_def t'_def Let_def split: prod.splits)
  show ?thesis
  proof (cases "?odd \<and> bs \<noteq> []")
    case True
    have s: "unat (SWAP_BYTES_IN_WORD (FOLD_U32T (FOLD_U32T (r + ucast t')))) = norm (256 * (unat t + net_sum cs))"
      using unat_swap[of "FOLD_U32T (FOLD_U32T (r + ucast t'))"] f norm_le by (simp add: norm_mult)
    have cs: "bs = hd bs # cs" using True tb by (auto simp: tb_def)
    have "norm (256 * (unat t + net_sum cs)) = norm (norm (65536 * unat (hd bs)) + 256 * net_sum cs)" using t(1) True by (simp add: norm_add algebra_simps)
    also have "\<dots> = norm (net_sum (hd bs # cs))" by (simp add: norm_65536 norm_add net_sum_Cons)
    finally show ?thesis using val s u cs True norm_le by simp
  next
    case False
    show ?thesis
    proof (cases "?odd")
      case True
      then show ?thesis using val False by (simp add: lwip_standard_chksum_def SWAP_BYTES_IN_WORD_def FOLD_U32T_def)
    next
      case even: False
      then have "cs = bs" "unat t = 0" using tb by (simp_all add: tb_def split: if_splits)
      then show ?thesis using val f u even norm_le by simp
    qed
  qed
qed

text \<open>The bytes of a chain, and its checksum before the last swap.\<close>

definition chain_bytes :: "chunks \<Rightarrow> u8 list" where
  "chain_bytes p = concat (map snd p)"

definition short_chunks :: "chunks \<Rightarrow> bool" where
  "short_chunks p \<longleftrightarrow> (\<forall>(a, bs) \<in> set p. length bs < 0x10000)"

lemma chain_simps [simp]: "chain_bytes [] = []" "chain_bytes ((a, bs) # p) = bs @ chain_bytes p"
  "short_chunks []" "short_chunks ((a, bs) # p) \<longleftrightarrow> length bs < 0x10000 \<and> short_chunks p"
  by (simp_all add: chain_bytes_def short_chunks_def)

definition parity :: "bool \<Rightarrow> nat" where
  "parity sw = (if sw then 256 else 1)"

lemma parity_simps [simp]: "parity False = 1" "norm (256 * (parity sw * n)) = norm (parity (\<not> sw) * n)" "0 < parity sw"
  by (simp_all add: parity_def norm_65536 flip: mult.assoc)

text \<open>One buffer: \<open>acc\<close> stands for the sum of the bytes \<open>xs\<close> so far, swapped if their number is odd.\<close>

lemma unat_ucast_sum: "unat (acc :: u32) \<le> 65535 \<Longrightarrow> unat (acc + ucast (w :: u16)) = unat acc + unat w"
  using unsigned_less[of w, where 'a = nat] by (subst unat_add_lem[THEN iffD1]) simp_all

lemma pbuf_add:
  assumes "unat acc = norm (parity sw * net_sum xs)" "sw \<longleftrightarrow> odd (length xs)" "length bs < 0x10000"
  shows "unat (FOLD_U32T (acc + ucast (lwip_standard_chksum a bs))) = norm (parity sw * net_sum (xs @ bs))"
proof -
  let ?w = "lwip_standard_chksum a bs"
  have w: "unat ?w = norm (net_sum bs)" using standard_chksum_val assms(3) by simp
  have le: "unat acc \<le> 65535" "unat ?w \<le> 65535" using assms(1) w norm_le by simp_all
  have "unat acc + unat ?w \<le> 0x1FFFE" using le by simp
  then have "unat (FOLD_U32T (acc + ucast ?w)) = norm (parity sw * net_sum xs + net_sum bs)"
    using unat_fold_small[of "acc + ucast ?w"] unat_ucast_sum[OF le(1)] assms(1) w by (simp add: norm_add)
  also have "\<dots> = norm (parity sw * net_sum xs + parity sw * (if even (length xs) then 1 else 256) * net_sum bs)"
    using assms(2) by (auto simp: parity_def norm_65536_add)
  also have "\<dots> = norm (parity sw * norm (net_sum (xs @ bs)))" by (simp add: norm_net_append norm_mult algebra_simps)
  also have "\<dots> = norm (parity sw * net_sum (xs @ bs))" by (simp add: norm_mult)
  finally show ?thesis .
qed

lemma swap_parity:
  assumes "unat acc = norm (parity sw * n)"
  shows "unat (SWAP_BYTES_IN_WORD acc) = norm (parity (\<not> sw) * n)"
  using unat_swap[of acc] assms norm_le by (simp add: norm_mult)

lemma pbuf_loop_val:
  assumes "unat acc = norm (parity sw * net_sum xs)" "sw \<longleftrightarrow> odd (length xs)" "short_chunks p" "pbuf_loop p acc sw = (acc', sw')"
  shows "unat acc' = norm (parity sw' * net_sum (xs @ chain_bytes p))"
  using assms
proof (induction p acc sw arbitrary: xs rule: pbuf_loop.induct)
  case (2 a bs qs acc sw)
  have f: "unat (FOLD_U32T (acc + ucast (lwip_standard_chksum a bs))) = norm (parity sw * net_sum (xs @ bs))" using pbuf_add 2(3-5) by simp
  show ?case
  proof (cases "odd (length bs)")
    case True
    then have o: "length bs mod 2 \<noteq> 0" by (simp add: odd_iff_mod_2_eq_one)
    show ?thesis using 2(1)[OF refl o swap_parity[OF f]] 2(4-6) o True by (simp add: Let_def)
  next
    case False
    then have o: "\<not> length bs mod 2 \<noteq> 0" by (simp add: even_iff_mod_2_eq_zero)
    show ?thesis using 2(2)[OF refl o f] 2(4-6) o False by (simp add: Let_def)
  qed
qed auto

lemma pbuf_sum:
  assumes "short_chunks p" "pbuf_loop p 0 False = (acc, sw)"
  shows "unat (if sw then SWAP_BYTES_IN_WORD acc else acc) = norm (net_sum (chain_bytes p))"
proof -
  have a: "unat acc = norm (parity sw * net_sum (chain_bytes p))" using pbuf_loop_val[of 0 False "[]" p acc sw] assms by simp
  then show ?thesis using swap_parity[OF a] by (cases sw) simp_all
qed

lemma unat_NOT16: "unat (NOT (w :: u16)) = 65535 - unat w"
proof -
  have "NOT w = 0xFFFF - w" by (simp add: not_eq_complement)
  moreover have "w \<le> 0xFFFF" using unsigned_less[of w, where 'a = nat] by (simp add: word_le_nat_alt)
  ultimately show ?thesis using unat_sub[of w "0xFFFF"] by simp
qed

text \<open>The final complement.\<close>

lemma low16: "(w :: u32) AND 0xFFFF = take_bit 16 w"
  by (simp add: take_bit_eq_mask mask_numeral)

lemma unat_low16: "unat (w :: u32) \<le> 65535 \<Longrightarrow> unat (ucast (w AND 0xFFFF) :: u16) = unat w"
proof -
  assume w: "unat w \<le> 65535"
  then show ?thesis by (simp add: low16 unsigned_ucast_eq unsigned_take_bit_eq take_bit_nat_eq_self)
qed

lemma chksum_pbuf_val: "short_chunks p \<Longrightarrow> unat (inet_chksum_pbuf p) = 65535 - norm (net_sum (chain_bytes p))"
  using pbuf_sum[of p] norm_le by (auto simp: inet_chksum_pbuf_def unat_NOT16 unat_low16 Let_def split: prod.splits)

lemma inet_chksum_val: "length bs \<le> 0x1FFFE \<Longrightarrow> unat (inet_chksum a bs) = 65535 - norm (net_sum bs)"
  by (simp add: inet_chksum_def unat_NOT16 standard_chksum_val)

definition pseudo_header :: "u32 \<Rightarrow> u32 \<Rightarrow> u8 \<Rightarrow> u16 \<Rightarrow> u8 list" where
  "pseudo_header src dest proto proto_len = le32_bytes src @ le32_bytes dest @ [0, proto, hi8 proto_len, lo8 proto_len]"

lemma htons_bytes: "lwip_htons n = be16 (lo8 n) (hi8 n)"
  unfolding lwip_htons_def byte_masks by (rule bit_word_eqI) (auto simp: bit_simps bit_be16 bit_lo8 bit_hi8 dest: bit_imp_le_length)

lemma byte_of_byte: "lo8 (ucast b) = b" "hi8 (ucast (b :: u8)) = 0"
  by (rule bit_word_eqI, auto simp: bit_lo8 bit_hi8 bit_simps dest: bit_imp_le_length)+

lemma half_words: "unat (w AND 0xFFFF) + unat (drop_bit 16 w AND 0xFFFF) = net_sum (le32_bytes w)" "unat (w AND 0xFFFF) \<le> 65535" "unat (drop_bit 16 w AND 0xFFFF) \<le> 65535" for w :: u32
proof -
  have "w AND 0xFFFF = ucast (be16 (ucast (drop_bit 8 w)) (ucast w))" "drop_bit 16 w AND 0xFFFF = ucast (be16 (ucast (drop_bit 24 w)) (ucast (drop_bit 16 w)))"
    unfolding low16 by (rule bit_word_eqI; auto simp: bit_simps bit_be16 ac_simps dest: bit_imp_le_length; fail)+
  then have e: "unat (w AND 0xFFFF) = 256 * unat (ucast (drop_bit 8 w) :: u8) + unat (ucast w :: u8)"
    "unat (drop_bit 16 w AND 0xFFFF) = 256 * unat (ucast (drop_bit 24 w) :: u8) + unat (ucast (drop_bit 16 w) :: u8)"
    by (simp_all add: unat_be16)
  then show "unat (w AND 0xFFFF) + unat (drop_bit 16 w AND 0xFFFF) = net_sum (le32_bytes w)" by (simp add: le32_bytes_def)
  have "unat b \<le> 255" for b :: u8 using unsigned_less[of b, where 'a = nat] by simp
  from this[of "ucast (drop_bit 8 w)"] this[of "ucast w"] this[of "ucast (drop_bit 24 w)"] this[of "ucast (drop_bit 16 w)"]
  show "unat (w AND 0xFFFF) \<le> 65535" "unat (drop_bit 16 w AND 0xFFFF) \<le> 65535" unfolding e by linarith+
qed

lemma unat_plus: "unat a + unat b < 2 ^ 32 \<Longrightarrow> unat (a + b :: u32) = unat a + unat b"
  by (simp add: unat_add_lem[THEN iffD1])

lemma add_pseudo_val:
  assumes "unat acc \<le> 65535"
  shows "unat (add_pseudo src dest proto proto_len acc) = 65535 - norm (net_sum (pseudo_header src dest proto proto_len) + unat acc)"
proof -
  note S = half_words[of src] and D = half_words[of dest]
  let ?p = "lwip_htons (ucast proto)" and ?l = "lwip_htons proto_len"
  have h: "unat ?p + unat ?l = net_sum [0, proto, hi8 proto_len, lo8 proto_len]"
    by (simp add: htons_bytes unat_be16 byte_of_byte)
  have pl: "unat ?p \<le> 65535" "unat ?l \<le> 65535" using unsigned_less[of ?p, where 'a = nat] unsigned_less[of ?l, where 'a = nat] by simp_all
  let ?acc = "acc + (src AND 0xFFFF) + (drop_bit 16 src AND 0xFFFF) + (dest AND 0xFFFF) + (drop_bit 16 dest AND 0xFFFF) + ucast ?p + ucast ?l"
  have "unat ?acc = unat acc + unat (src AND 0xFFFF) + unat (drop_bit 16 src AND 0xFFFF) + unat (dest AND 0xFFFF) + unat (drop_bit 16 dest AND 0xFFFF) + unat ?p + unat ?l"
    using assms S(2,3) D(2,3) pl by (simp add: unat_plus)
  also have "\<dots> = net_sum (pseudo_header src dest proto proto_len) + unat acc"
    using S(1) D(1) h by (simp add: pseudo_header_def net_sum_append)
  finally have "unat (FOLD_U32T (FOLD_U32T ?acc)) = norm (net_sum (pseudo_header src dest proto proto_len) + unat acc)" by (simp add: unat_fold_twice)
  then show ?thesis using norm_le by (simp add: add_pseudo_def Let_def unat_NOT16 unat_low16 add.assoc)
qed

lemma pseudo_chain: "length (pseudo_header src dest proto proto_len) = 12"
  by (simp add: pseudo_header_def)

lemma chksum_pseudo_val:
  assumes "short_chunks p"
  shows "unat (inet_chksum_pseudo p src dest proto proto_len) = 65535 - norm (net_sum (pseudo_header src dest proto proto_len @ chain_bytes p))"
proof -
  obtain acc sw where l: "pbuf_loop p 0 False = (acc, sw)" by fastforce
  let ?acc = "if sw then SWAP_BYTES_IN_WORD acc else acc"
  have a: "unat ?acc = norm (net_sum (chain_bytes p))" by (rule pbuf_sum[OF assms l])
  have "unat (inet_chksum_pseudo p src dest proto proto_len) = unat (add_pseudo src dest proto proto_len ?acc)" using l by (simp add: inet_chksum_pseudo_def)
  also have "\<dots> = 65535 - norm (net_sum (pseudo_header src dest proto proto_len) + norm (net_sum (chain_bytes p)))"
    using add_pseudo_val[of ?acc src dest proto proto_len] a norm_le by simp
  finally show ?thesis by (simp add: net_sum_append pseudo_chain norm_add)
qed

text \<open>Only the first bytes of the chain count for the partial checksum.\<close>

lemma partial_loop_val:
  assumes "unat acc = norm (parity sw * net_sum xs)" "n = 0 \<or> (sw \<longleftrightarrow> odd (length xs))" "short_chunks p" "pbuf_partial_loop p n acc sw = (acc', sw')"
  shows "unat acc' = norm (parity sw' * net_sum (xs @ take (unat n) (chain_bytes p)))"
  using assms
proof (induction p n acc sw arbitrary: xs rule: pbuf_partial_loop.induct)
  case (2 a bs qs n acc sw)
  show ?case
  proof (cases "n = 0")
    case True
    then show ?thesis using 2(3-6) by simp
  next
    case n: False
    let ?k = "if of_nat (length bs) > n then n else of_nat (length bs)"
    have l: "length bs < 2 ^ 16" using 2(5) by simp
    have k: "unat ?k = min (unat n) (length bs)" using l by (simp add: word_less_nat_alt unat_of_nat take_bit_nat_eq_self min_def)
    have t: "take (unat ?k) bs = take (unat n) bs" using k by (simp add: min_def)
    have nk: "unat (n - ?k) = unat n - length bs" using k unat_sub[of ?k n] by (simp add: word_le_nat_alt)
    have sw: "sw \<longleftrightarrow> odd (length xs)" using 2(4) n by blast
    have f: "unat (FOLD_U32T (acc + ucast (lwip_standard_chksum a (take (unat ?k) bs)))) = norm (parity sw * net_sum (xs @ take (unat n) bs))"
      using pbuf_add[OF 2(3) sw, of "take (unat n) bs"] l unfolding t by simp
    have odd: "n - ?k = 0 \<or> odd (length (xs @ take (unat n) bs)) = (odd (length xs) \<noteq> odd (length bs))" using nk by (auto simp: unat_eq_0[symmetric])
    have whole: "(xs @ take (unat n) bs) @ take (unat (n - ?k)) (chain_bytes qs) = xs @ take (unat n) (chain_bytes ((a, bs) # qs))" using nk by simp
    have pos: "\<not> \<not> n > 0" using n by (simp add: word_gt_0)
    show ?thesis
    proof (cases "odd (length bs)")
      case True
      then have o: "length bs mod 2 \<noteq> 0" by (simp add: odd_iff_mod_2_eq_one)
      have "pbuf_partial_loop qs (n - ?k) (SWAP_BYTES_IN_WORD (FOLD_U32T (acc + ucast (lwip_standard_chksum a (take (unat ?k) bs))))) (\<not> sw) = (acc', sw')"
        using 2(6) o pos by (simp add: Let_def)
      then have "unat acc' = norm (parity sw' * net_sum ((xs @ take (unat n) bs) @ take (unat (n - ?k)) (chain_bytes qs)))"
        by (intro 2(1)[OF pos refl refl o swap_parity[OF f]]) (use odd sw True 2(5) in auto)
      then show ?thesis unfolding whole .
    next
      case False
      then have o: "\<not> length bs mod 2 \<noteq> 0" by (simp add: even_iff_mod_2_eq_zero)
      have "pbuf_partial_loop qs (n - ?k) (FOLD_U32T (acc + ucast (lwip_standard_chksum a (take (unat ?k) bs)))) sw = (acc', sw')"
        using 2(6) o pos by (simp add: Let_def)
      then have "unat acc' = norm (parity sw' * net_sum ((xs @ take (unat n) bs) @ take (unat (n - ?k)) (chain_bytes qs)))"
        by (intro 2(2)[OF pos refl refl o f]) (use odd sw False 2(5) in auto)
      then show ?thesis unfolding whole .
    qed
  qed
qed auto

lemma chksum_partial_val:
  assumes "short_chunks p"
  shows "unat (inet_chksum_pseudo_partial p src dest proto proto_len n) = 65535 - norm (net_sum (pseudo_header src dest proto proto_len @ take (unat n) (chain_bytes p)))"
proof -
  obtain acc sw where l: "pbuf_partial_loop p n 0 False = (acc, sw)" by fastforce
  let ?acc = "if sw then SWAP_BYTES_IN_WORD acc else acc"
  have "unat acc = norm (parity sw * net_sum (take (unat n) (chain_bytes p)))" using partial_loop_val[of 0 False "[]" n p acc sw] assms l by simp
  then have a: "unat ?acc = norm (net_sum (take (unat n) (chain_bytes p)))" using swap_parity[of acc sw] by (cases sw) simp_all
  have "unat (inet_chksum_pseudo_partial p src dest proto proto_len n) = unat (add_pseudo src dest proto proto_len ?acc)" using l by (simp add: inet_chksum_pseudo_partial_def)
  also have "\<dots> = 65535 - norm (net_sum (pseudo_header src dest proto proto_len) + norm (net_sum (take (unat n) (chain_bytes p))))"
    using add_pseudo_val[of ?acc src dest proto proto_len] a norm_le by simp
  finally show ?thesis by (simp add: net_sum_append pseudo_chain norm_add)
qed

text \<open>Changing a byte.\<close>

lemma net_sum_update: "i < length bs \<Longrightarrow> net_sum (bs[i := x]) + (if even i then 1 else 256) * unat (bs ! i) = net_sum bs + (if even i then 1 else 256) * unat x"
proof (induction bs arbitrary: i rule: net_sum.induct)
  case (1 b0 b1 bs)
  show ?case
  proof (cases i)
    case (Suc j)
    show ?thesis
    proof (cases j)
      case (Suc k)
      then show ?thesis using 1(1)[of k] 1(2) \<open>i = Suc j\<close> by simp
    qed (use \<open>i = Suc j\<close> in simp)
  qed simp
qed auto

lemma mod_cancel: "a + c = b + d \<Longrightarrow> a mod n = b mod n \<Longrightarrow> c mod n = d mod (n :: nat)"
proof -
  assume e: "a + c = b + d" and m: "a mod n = b mod n"
  obtain q r where "a + n * q = b + n * r" using m unfolding nat_mod_eq_iff by blast
  then have "c + n * r = d + n * q" using e by linarith
  then show "c mod n = d mod n" unfolding nat_mod_eq_iff by blast
qed

lemma scaled_mod: "k * a mod 65535 = k * b mod 65535 \<Longrightarrow> k = 1 \<or> k = 256 \<Longrightarrow> a \<le> 255 \<Longrightarrow> b \<le> 255 \<Longrightarrow> a = (b :: nat)"
proof -
  assume a: "k * a mod 65535 = k * b mod 65535" "k = 1 \<or> k = 256" "a \<le> 255" "b \<le> 255"
  have "k * a < 65535" "k * b < 65535" using a(2-4) by auto
  then show ?thesis using a(1,2) by auto
qed

section \<open>Properties\<close>

text \<open>
  C24. The checksum of a chain is the checksum of its bytes, whatever the addresses of the buffers and wherever the chain is cut, odd lengths included: the complement of the ones' complement
  sum of the 16-bit words. With the pseudo header it is the checksum of header and bytes in one piece, and the partial one takes the first bytes.
\<close>

theorem chksum_reference:
  assumes "short_chunks p" "length (chain_bytes p) \<le> 0xFFFF"
  shows "unat (inet_chksum a (chain_bytes p)) = 65535 - norm (net_sum (chain_bytes p)) \<and> inet_chksum_pbuf p = inet_chksum a (chain_bytes p) \<and>
    inet_chksum_pseudo p src dest proto proto_len = inet_chksum a (pseudo_header src dest proto proto_len @ chain_bytes p) \<and>
    inet_chksum_pseudo_partial p src dest proto proto_len n = inet_chksum a (pseudo_header src dest proto proto_len @ take (unat n) (chain_bytes p))"
  using assms by (simp add: word_unat_eq_iff inet_chksum_val chksum_pbuf_val chksum_pseudo_val chksum_partial_val pseudo_chain)

text \<open>
  C25. A header whose checksum field, at an even offset, was 0 while the checksum was made and then got it, low byte first, has the checksum 0: the receiver accepts it. If then one byte
  changes, the checksum is not 0 any more.
\<close>

theorem chksum_verifies:
  assumes "length bs \<le> 0xFFFF" "even k" "k + 1 < length bs" "bs ! k = 0" "bs ! (k + 1) = 0"
    "c = inet_chksum a bs" "sent = bs[k := lo8 c, k + 1 := hi8 c]"
  shows "inet_chksum b sent = 0 \<and> (\<forall>i x. i < length bs \<and> x \<noteq> sent ! i \<longrightarrow> inet_chksum b (sent[i := x]) \<noteq> 0)"
proof -
  have c: "unat c = 65535 - norm (net_sum bs)" using inet_chksum_val assms(1,6) by simp
  have len: "length sent = length bs" by (simp add: assms(7))
  have "unat c = 256 * unat (hi8 c) + unat (lo8 c)" using unat_be16[of "hi8 c" "lo8 c"] by simp
  moreover have "net_sum (bs[k := lo8 c]) = net_sum bs + unat (lo8 c)" using net_sum_update[of k bs "lo8 c"] assms(2-4) by simp
  moreover have "net_sum sent = net_sum (bs[k := lo8 c]) + 256 * unat (hi8 c)"
    using net_sum_update[of "k + 1" "bs[k := lo8 c]" "hi8 c"] assms(2,3,5) by (simp add: assms(7))
  ultimately have "norm (net_sum sent) = norm (norm (net_sum bs) + unat c)" by (simp add: norm_add ac_simps)
  also have "norm (net_sum bs) + unat c = 65535" using c norm_le[of "net_sum bs"] by linarith
  then have "norm (norm (net_sum bs) + unat c) = 65535" by (simp only: norm_small)
  finally have s: "norm (net_sum sent) = 65535" .
  have val: "inet_chksum b xs = 0 \<longleftrightarrow> norm (net_sum xs) = 65535" if "length xs = length bs" for xs
    using inet_chksum_val[of xs b] that assms(1) norm_le[of "net_sum xs"] by (simp add: word_unat_eq_iff)
  have "inet_chksum b (sent[i := x]) \<noteq> 0" if i: "i < length bs" "x \<noteq> sent ! i" for i x
  proof
    assume "inet_chksum b (sent[i := x]) = 0"
    then have "norm (net_sum (sent[i := x])) = norm (net_sum sent)" using val[of "sent[i := x]"] s len by simp
    from arg_cong[OF this, of "\<lambda>n. n mod 65535"] have m: "net_sum (sent[i := x]) mod 65535 = net_sum sent mod 65535" unfolding norm_mod .
    let ?k = "if even i then 1 else 256 :: nat"
    have e: "net_sum (sent[i := x]) + ?k * unat (sent ! i) = net_sum sent + ?k * unat x" by (rule net_sum_update) (use i(1) len in simp)
    have "unat (sent ! i) = unat x"
    proof (rule scaled_mod[OF mod_cancel[OF e m]])
      show "?k = 1 \<or> ?k = 256" by (cases "even i") simp_all
      show "unat (sent ! i) \<le> 255" "unat x \<le> 255" using unsigned_less[of x, where 'a = nat] unsigned_less[of "sent ! i", where 'a = nat] by simp_all
    qed
    then show False using i(2) by (simp add: word_unat_eq_iff)
  qed
  then show ?thesis using val[OF len] s by blast
qed

text \<open>A chain of three buffers, cut at odd places, and the header of an IP packet.\<close>

definition chain_example :: chunks where
  "chain_example = [(0x20000001, [0x45]), (0x20000101, [0, 7, 0x1A]), (0x20000200, [3])]"

lemma chain_example_simps: "short_chunks chain_example" "chain_bytes chain_example = [0x45, 0, 7, 0x1A, 3]"
  by (simp_all add: chain_example_def)

theorem chksum_reference_witness:
  "inet_chksum_pbuf chain_example = inet_chksum 0 [0x45, 0, 7, 0x1A, 3]"
  using chksum_reference[OF chain_example_simps(1), THEN conjunct2, THEN conjunct1, of 0] unfolding chain_example_simps(2) by simp

definition header_example :: "u8 list" where
  "header_example = [0x45, 0, 0, 20, 0, 0, 0, 0, 64, 17, 0, 0]"

lemma header_example_simps: "length header_example = 12" "header_example ! 10 = 0" "header_example ! (10 + 1) = 0"
  by (simp_all add: header_example_def)

theorem chksum_verifies_witness:
  "inet_chksum 5 (header_example[10 := lo8 (inet_chksum 4 header_example), 10 + 1 := hi8 (inet_chksum 4 header_example)]) = 0"
  by (rule chksum_verifies[OF _ _ _ header_example_simps(2,3) refl refl, THEN conjunct1]) (simp_all only: header_example_simps, simp_all)

end
