(* ===== verification/Lwip_Memp.thy ===== *)
theory Lwip_Memp
  imports Prelude "HOL-Library.Multiset"
begin

text \<open>
  The memory pools of lwIP, \<^verbatim>\<open>LWIP/src/core/memp.c\<close> (one block of memory for all pools, no overflow checks): \<^verbatim>\<open>memp_init\<close> cuts the memory into elements of equal size per pool and links the
  free ones through their first word. Against this, a pool is a stack of addresses. The locale \<open>element_pools\<close> is what a client relies on: whatever it allocates and frees, no element is handed out
  twice and none is lost.
\<close>

section \<open>The code\<close>

text \<open>The configuration: where \<^verbatim>\<open>memp_memory\<close> lies, and number and aligned size of the elements of every pool (\<^verbatim>\<open>memp_num\<close>, \<^verbatim>\<open>memp_sizes\<close>).\<close>

record memp_conf =
  memp_memory :: nat
  memp_pools :: "(nat \<times> nat) list"

text \<open>The state: the first free element of every pool, 0 for none, and the link word of free elements. An allocated element has none.\<close>

record memp =
  memp_tab :: "nat list"
  memp_next :: "nat \<Rightarrow> nat option"

definition LWIP_MEM_ALIGN :: "nat \<Rightarrow> nat" where
  "LWIP_MEM_ALIGN a = (a + 3) div 4 * 4"

fun carve_loop :: "nat \<Rightarrow> nat \<Rightarrow> nat \<Rightarrow> nat \<Rightarrow> memp \<Rightarrow> (nat \<times> memp) option" where
  "carve_loop sz 0 i memp st = Some (memp, st)"
| "carve_loop sz (Suc j) i memp st = do {
     head \<leftarrow> rd (memp_tab st) i;
     tab \<leftarrow> wr (memp_tab st) i memp;
     carve_loop sz j i (memp + sz) (st\<lparr>memp_tab := tab, memp_next := (memp_next st)(memp \<mapsto> head)\<rparr>)
   }"

fun init_loop :: "(nat \<times> nat) list \<Rightarrow> nat \<Rightarrow> nat \<Rightarrow> memp \<Rightarrow> memp option" where
  "init_loop [] i memp st = Some st"
| "init_loop ((num, sz) # ps) i memp st = do {
     tab \<leftarrow> wr (memp_tab st) i 0;
     (memp, st) \<leftarrow> carve_loop sz num i memp (st\<lparr>memp_tab := tab\<rparr>);
     init_loop ps (Suc i) memp st
   }"

definition memp_init :: "memp_conf \<Rightarrow> memp option" where
  "memp_init c = init_loop (memp_pools c) 0 (LWIP_MEM_ALIGN (memp_memory c)) \<lparr>memp_tab = replicate (length (memp_pools c)) 0, memp_next = Map.empty\<rparr>"

definition memp_malloc :: "nat \<Rightarrow> memp \<Rightarrow> (nat \<times> memp) option" where
  "memp_malloc type st =
     (if \<not> type < length (memp_tab st) then Some (0, st)
      else do {
        memp \<leftarrow> rd (memp_tab st) type;
        if memp \<noteq> 0 then do {
          next \<leftarrow> memp_next st memp;
          tab \<leftarrow> wr (memp_tab st) type next;
          Some (memp, st\<lparr>memp_tab := tab, memp_next := (memp_next st)(memp := None)\<rparr>)
        }
        else Some (0, st)
      })"

definition memp_free :: "nat \<Rightarrow> nat \<Rightarrow> memp \<Rightarrow> memp option" where
  "memp_free type mem st =
     (if mem = 0 then Some st
      else do {
        head \<leftarrow> rd (memp_tab st) type;
        tab \<leftarrow> wr (memp_tab st) type mem;
        Some (st\<lparr>memp_next := (memp_next st)(mem \<mapsto> head), memp_tab := tab\<rparr>)
      })"

section \<open>Pools as stacks\<close>

fun free_list :: "(nat \<Rightarrow> nat option) \<Rightarrow> nat \<Rightarrow> nat list \<Rightarrow> bool" where
  "free_list m p [] \<longleftrightarrow> p = 0"
| "free_list m p (a # as) \<longleftrightarrow> p = a \<and> a \<noteq> 0 \<and> (\<exists>q. m a = Some q \<and> free_list m q as)"

lemma free_list_upd [simp]: "a \<notin> set as \<Longrightarrow> free_list (m(a := x)) p as = free_list m p as"
  by (induction as arbitrary: p) auto

definition apart :: "nat list list \<Rightarrow> bool" where
  "apart Ls \<longleftrightarrow> (\<forall>i < length Ls. distinct (Ls ! i) \<and> 0 \<notin> set (Ls ! i)) \<and> (\<forall>i < length Ls. \<forall>j < length Ls. i \<noteq> j \<longrightarrow> set (Ls ! i) \<inter> set (Ls ! j) = {})"

lemma apart_less:
  assumes "apart Ls" "i < length Ls" "set as \<subseteq> set (Ls ! i)" "distinct as"
  shows "apart (Ls[i := as])"
proof -
  have "set (Ls[i := as] ! j) \<subseteq> set (Ls ! j)" "distinct (Ls[i := as] ! j)" if "j < length Ls" for j
    using assms that by (cases "j = i"; simp add: apart_def)+
  then show ?thesis using assms(1) unfolding apart_def length_list_update by (meson disjoint_iff subsetD)
qed

definition pool_rel :: "memp \<Rightarrow> nat list list \<Rightarrow> bool" where
  "pool_rel st Ls \<longleftrightarrow> length (memp_tab st) = length Ls \<and> (\<forall>i < length Ls. free_list (memp_next st) (memp_tab st ! i) (Ls ! i)) \<and> apart Ls"

lemma pool_relD:
  assumes "pool_rel st Ls"
  shows "length (memp_tab st) = length Ls" "i < length Ls \<Longrightarrow> free_list (memp_next st) (memp_tab st ! i) (Ls ! i)" "apart Ls"
  using assms by (simp_all add: pool_rel_def)

lemma memp_malloc_val:
  assumes "pool_rel st Ls" "i < length Ls"
  shows "\<exists>st'. memp_malloc i st = Some (case Ls ! i of [] \<Rightarrow> 0 | a # _ \<Rightarrow> a, st') \<and> pool_rel st' (Ls[i := tl (Ls ! i)])"
proof -
  note R = pool_relD[OF assms(1)]
  show ?thesis
  proof (cases "Ls ! i")
    case Nil
    moreover have "Ls[i := tl (Ls ! i)] = Ls" by (metis Nil list.sel(2) list_update_id)
    moreover have "memp_tab st ! i = 0" using R(2)[OF assms(2)] Nil by simp
    ultimately show ?thesis using assms R(1) Nil by (simp add: memp_malloc_def)
  next
    case (Cons a as)
    then obtain q where q: "memp_tab st ! i = a" "a \<noteq> 0" "memp_next st a = Some q" "free_list (memp_next st) q as" using R(2)[OF assms(2)] by auto
    let ?st = "st\<lparr>memp_tab := (memp_tab st)[i := q], memp_next := (memp_next st)(a := None)\<rparr>"
    have n: "a \<notin> set ((Ls[i := as]) ! j)" if j: "j < length Ls" for j
      using R(3) Cons assms(2) j unfolding apart_def by (cases "j = i") force+
    have "free_list (memp_next ?st) (memp_tab ?st ! j) ((Ls[i := as]) ! j)" if j: "j < length Ls" for j
      using n[OF j] R(1) R(2)[OF j] q(4) assms(2) by (cases "j = i") simp_all
    moreover have "apart (Ls[i := as])" using apart_less[OF R(3) assms(2), of as] Cons R(3) assms(2) unfolding apart_def by (metis distinct.simps(2) set_subset_Cons)
    ultimately have "pool_rel ?st (Ls[i := as])" using R(1) by (simp add: pool_rel_def)
    then show ?thesis using assms(2) R(1) q Cons by (simp add: memp_malloc_def)
  qed
qed

lemma memp_free_val:
  assumes "pool_rel st Ls" "i < length Ls" "a \<noteq> 0" "\<forall>j < length Ls. a \<notin> set (Ls ! j)"
  shows "\<exists>st'. memp_free i a st = Some st' \<and> pool_rel st' (Ls[i := a # Ls ! i])"
proof -
  note R = pool_relD[OF assms(1)]
  let ?st = "st\<lparr>memp_next := (memp_next st)(a \<mapsto> memp_tab st ! i), memp_tab := (memp_tab st)[i := a]\<rparr>"
  have "free_list (memp_next ?st) (memp_tab ?st ! j) ((Ls[i := a # Ls ! i]) ! j)" if j: "j < length Ls" for j
    using assms(2-4) R(1) R(2)[OF j] R(2)[OF assms(2)] j by (cases "j = i") simp_all
  moreover have "apart (Ls[i := a # Ls ! i])" using R(3) assms(2-4) unfolding apart_def by (auto simp: nth_list_update)
  ultimately have "pool_rel ?st (Ls[i := a # Ls ! i])" using R(1) by (simp add: pool_rel_def)
  then show ?thesis using assms(2,3) R(1) by (simp add: memp_free_def)
qed

section \<open>What clients rely on\<close>

datatype pool_op = Get nat | Put nat nat

locale element_pools =
  fixes malloc :: "nat \<Rightarrow> 's \<Rightarrow> (nat \<times> 's) option" and release :: "nat \<Rightarrow> nat \<Rightarrow> 's \<Rightarrow> 's option" and rel :: "'s \<Rightarrow> nat list list \<Rightarrow> bool"
  assumes malloc: "rel s Ls \<Longrightarrow> i < length Ls \<Longrightarrow> \<exists>s'. malloc i s = Some (case Ls ! i of [] \<Rightarrow> 0 | a # _ \<Rightarrow> a, s') \<and> rel s' (Ls[i := tl (Ls ! i)])"
    and release: "rel s Ls \<Longrightarrow> i < length Ls \<Longrightarrow> a \<noteq> 0 \<Longrightarrow> \<forall>j < length Ls. a \<notin> set (Ls ! j) \<Longrightarrow> \<exists>s'. release i a s = Some s' \<and> rel s' (Ls[i := a # Ls ! i])"
    and nonzero: "rel s Ls \<Longrightarrow> i < length Ls \<Longrightarrow> 0 \<notin> set (Ls ! i)"
begin

text \<open>A client gets elements and puts back the ones it holds; \<open>Put i k\<close> is the \<open>k\<close>-th of pool \<open>i\<close> that it holds.\<close>

fun run :: "pool_op list \<Rightarrow> 's \<Rightarrow> nat list list \<Rightarrow> ('s \<times> nat list list) option" where
  "run [] s H = Some (s, H)"
| "run (Get i # ops) s H = (if i < length H then do {
     (a, s) \<leftarrow> malloc i s;
     run ops s (if a = 0 then H else H[i := a # H ! i])
   } else run ops s H)"
| "run (Put i k # ops) s H = (if i < length H \<and> k < length (H ! i) then do {
     s \<leftarrow> release i (H ! i ! k) s;
     run ops s (H[i := take k (H ! i) @ drop (Suc k) (H ! i)])
   } else run ops s H)"

definition split_of :: "nat list list \<Rightarrow> nat list list \<Rightarrow> nat list list \<Rightarrow> bool" where
  "split_of E Ls H \<longleftrightarrow> length Ls = length E \<and> length H = length E \<and> (\<forall>i < length E. mset (Ls ! i) + mset (H ! i) = mset (E ! i))"

lemma split_in: "split_of E Ls H \<Longrightarrow> i < length E \<Longrightarrow> set (E ! i) = set (Ls ! i) \<union> set (H ! i)"
proof -
  assume a: "split_of E Ls H" "i < length E"
  then have "mset (E ! i) = mset (Ls ! i) + mset (H ! i)" by (simp add: split_of_def)
  from arg_cong[OF this, of set_mset] show ?thesis by simp
qed

lemma held_not_free:
  assumes "split_of E Ls H" "apart E" "i < length E" "a \<in> set (H ! i)" "j < length E"
  shows "a \<notin> set (Ls ! j)"
proof (cases "j = i")
  case True
  have "mset (Ls ! i @ H ! i) = mset (E ! i)" "distinct (E ! i)" using assms(1-3) by (simp_all add: split_of_def apart_def)
  then have "distinct (Ls ! i @ H ! i)" by (metis mset_eq_imp_distinct_iff)
  then show ?thesis using assms(4) True by auto
next
  case False
  have "a \<in> set (E ! i)" using split_in[OF assms(1,3)] assms(4) by blast
  moreover have "set (E ! i) \<inter> set (E ! j) = {}" using assms(2,3,5) False unfolding apart_def by metis
  ultimately show ?thesis using split_in[OF assms(1,5)] by blast
qed

lemma run_split:
  assumes "rel s Ls" "split_of E Ls H" "apart E"
  shows "\<exists>s' Ls' H'. run ops s H = Some (s', H') \<and> rel s' Ls' \<and> split_of E Ls' H'"
  using assms
proof (induction ops arbitrary: s Ls H)
  case (Cons op ops)
  note rel = Cons.prems(1) and sp = Cons.prems(2)
  have len: "length Ls = length E" "length H = length E" using sp by (simp_all add: split_of_def)
  show ?case
  proof (cases op)
    case (Get i)
    show ?thesis
    proof (cases "i < length E")
      case True
      then obtain s' where s': "malloc i s = Some (case Ls ! i of [] \<Rightarrow> 0 | a # _ \<Rightarrow> a, s')" "rel s' (Ls[i := tl (Ls ! i)])" using malloc[OF rel] len by auto
      show ?thesis
      proof (cases "Ls ! i")
        case Nil
        have "Ls[i := tl (Ls ! i)] = Ls" by (metis Nil list.sel(2) list_update_id)
        then show ?thesis using Cons.IH[of s' Ls H] s' sp Cons.prems(3) Get Nil True len by simp
      next
        case (Cons a as)
        have a: "a \<noteq> 0" using nonzero[OF rel] True len Cons by force
        have "split_of E (Ls[i := as]) (H[i := a # H ! i])" using sp True Cons len unfolding split_of_def by (auto simp: nth_list_update)
        then show ?thesis using Cons.IH[of s' "Ls[i := as]" "H[i := a # H ! i]"] s' Cons.prems(3) Get Cons True len a by simp
      qed
    qed (use Cons.IH[OF Cons.prems] Get len in simp)
  next
    case (Put i k)
    show ?thesis
    proof (cases "i < length E \<and> k < length (H ! i)")
      case True
      let ?a = "H ! i ! k"
      have a: "?a \<in> set (H ! i)" using True by simp
      then have n: "\<forall>j < length Ls. ?a \<notin> set (Ls ! j)" using held_not_free[OF sp Cons.prems(3)] True len by auto
      have "?a \<in> set (E ! i)" using split_in[OF sp] True a by blast
      then have z: "?a \<noteq> 0" using Cons.prems(3) True unfolding apart_def by metis
      obtain s' where s': "release i ?a s = Some s'" "rel s' (Ls[i := ?a # Ls ! i])" using release[OF rel _ z n] True len by auto
      have "H ! i = take k (H ! i) @ ?a # drop (Suc k) (H ! i)" using True by (simp add: id_take_nth_drop)
      then have "mset (H ! i) = add_mset ?a (mset (take k (H ! i) @ drop (Suc k) (H ! i)))" by (metis mset_append mset.simps(2) union_mset_add_mset_right)
      then have "split_of E (Ls[i := ?a # Ls ! i]) (H[i := take k (H ! i) @ drop (Suc k) (H ! i)])"
        using sp True len unfolding split_of_def by (auto simp: nth_list_update)
      then show ?thesis using Cons.IH[OF s'(2)] s'(1) Cons.prems(3) Put True len by auto
    qed (use Cons.IH[OF Cons.prems] Put len in auto)
  qed
qed auto

end

interpretation mp: element_pools memp_malloc memp_free pool_rel
  by unfold_locales (use memp_malloc_val memp_free_val in \<open>auto simp: pool_rel_def apart_def\<close>)

section \<open>The elements\<close>

text \<open>The addresses of the elements, pool by pool.\<close>

fun layout :: "(nat \<times> nat) list \<Rightarrow> nat \<Rightarrow> nat list list" where
  "layout [] a = []"
| "layout ((num, sz) # ps) a = map (\<lambda>j. a + j * sz) [0..<num] # layout ps (a + num * sz)"

definition conf_ok :: "memp_conf \<Rightarrow> bool" where
  "conf_ok c \<longleftrightarrow> 0 < memp_memory c \<and> (\<forall>(num, sz) \<in> set (memp_pools c). 0 < sz \<and> sz mod 4 = 0)"

definition elements :: "memp_conf \<Rightarrow> nat list list" where
  "elements c = layout (memp_pools c) (LWIP_MEM_ALIGN (memp_memory c))"

lemma length_layout [simp]: "length (layout ps a) = length ps"
  by (induction ps a rule: layout.induct) simp_all

lemma carve_val:
  assumes "i < length (memp_tab st)" "free_list (memp_next st) (memp_tab st ! i) L" "\<forall>x \<in> set L. x < a" "0 < a" "0 < sz"
  shows "\<exists>st'. carve_loop sz n i a st = Some (a + n * sz, st') \<and> length (memp_tab st') = length (memp_tab st) \<and> (\<forall>j. j \<noteq> i \<longrightarrow> memp_tab st' ! j = memp_tab st ! j) \<and>
    (\<forall>x < a. memp_next st' x = memp_next st x) \<and> free_list (memp_next st') (memp_tab st' ! i) (rev (map (\<lambda>j. a + j * sz) [0..<n]) @ L)"
  using assms
proof (induction n arbitrary: a st L)
  case (Suc n)
  let ?st = "st\<lparr>memp_tab := (memp_tab st)[i := a], memp_next := (memp_next st)(a \<mapsto> memp_tab st ! i)\<rparr>"
  have fl: "free_list (memp_next ?st) (memp_tab ?st ! i) (a # L)" using Suc.prems by (auto dest: order.strict_implies_not_eq)
  have below: "\<forall>x \<in> set (a # L). x < a + sz" using Suc.prems(3,5) by auto
  have i: "i < length (memp_tab ?st)" "0 < a + sz" using Suc.prems by simp_all
  obtain st' where st': "carve_loop sz n i (a + sz) ?st = Some (a + sz + n * sz, st')" "length (memp_tab st') = length (memp_tab ?st)"
    "\<forall>j. j \<noteq> i \<longrightarrow> memp_tab st' ! j = memp_tab ?st ! j" "\<forall>x < a + sz. memp_next st' x = memp_next ?st x"
    "free_list (memp_next st') (memp_tab st' ! i) (rev (map (\<lambda>j. a + sz + j * sz) [0..<n]) @ a # L)"
    using Suc.IH[OF i(1) fl below i(2) Suc.prems(5)] by blast
  have "map (\<lambda>j. a + j * sz) [0..<Suc n] = a # map (\<lambda>j. a + sz + j * sz) [0..<n]"
    by (simp add: upt_conv_Cons map_Suc_upt[symmetric] add.assoc del: upt_Suc)
  then have "free_list (memp_next st') (memp_tab st' ! i) (rev (map (\<lambda>j. a + j * sz) [0..<Suc n]) @ L)" using st'(5) by simp
  then show ?case using st'(1-4) Suc.prems(1) by (auto simp: ac_simps)
qed auto

lemma free_list_cong: "\<forall>x \<in> set L. m' x = m x \<Longrightarrow> free_list m' p L = free_list m p L"
  by (induction L arbitrary: p) auto

lemma init_loop_val:
  assumes "length (memp_tab st) = length Ls + length ps" "\<forall>j < length Ls. free_list (memp_next st) (memp_tab st ! j) (Ls ! j) \<and> (\<forall>x \<in> set (Ls ! j). x < a)"
    "0 < a" "\<forall>(num, sz) \<in> set ps. 0 < sz"
  shows "\<exists>st'. init_loop ps (length Ls) a st = Some st' \<and> length (memp_tab st') = length Ls + length ps \<and>
    (\<forall>j < length Ls + length ps. free_list (memp_next st') (memp_tab st' ! j) ((Ls @ map rev (layout ps a)) ! j))"
  using assms
proof (induction ps arbitrary: Ls a st)
  case (Cons p ps)
  obtain num sz where p: "p = (num, sz)" by fastforce
  let ?i = "length Ls" and ?E = "map (\<lambda>j. a + j * sz) [0..<num]"
  let ?st = "st\<lparr>memp_tab := (memp_tab st)[?i := 0]\<rparr>"
  have sz: "0 < sz" using Cons.prems(4) p by simp
  obtain st1 where st1: "carve_loop sz num ?i a ?st = Some (a + num * sz, st1)" "length (memp_tab st1) = length (memp_tab st)"
    "\<forall>j. j \<noteq> ?i \<longrightarrow> memp_tab st1 ! j = memp_tab ?st ! j" "\<forall>x < a. memp_next st1 x = memp_next st x" "free_list (memp_next st1) (memp_tab st1 ! ?i) (rev ?E)"
    using carve_val[of ?i ?st "[]" a sz num] Cons.prems(1,3) sz by auto
  have "free_list (memp_next st1) (memp_tab st1 ! j) ((Ls @ [rev ?E]) ! j) \<and> (\<forall>x \<in> set ((Ls @ [rev ?E]) ! j). x < a + num * sz)" if j: "j < Suc ?i" for j
  proof (cases "j = ?i")
    case True
    then show ?thesis using st1(5) sz by auto
  next
    case False
    then have jl: "j < ?i" using j by simp
    then have "\<forall>x \<in> set (Ls ! j). memp_next st1 x = memp_next st x" using Cons.prems(2) st1(4) by blast
    then show ?thesis using Cons.prems(2) st1(3) jl free_list_cong[of "Ls ! j" "memp_next st1" "memp_next st"] by (auto simp: nth_append trans_less_add1)
  qed
  then obtain st' where "init_loop ps (Suc ?i) (a + num * sz) st1 = Some st'" "length (memp_tab st') = Suc ?i + length ps"
    "\<forall>j < Suc ?i + length ps. free_list (memp_next st') (memp_tab st' ! j) (((Ls @ [rev ?E]) @ map rev (layout ps (a + num * sz))) ! j)"
    using Cons.IH[of st1 "Ls @ [rev ?E]" "a + num * sz"] Cons.prems(1,3,4) st1(2) by auto
  then show ?case using st1(1) Cons.prems(1) p by simp
qed simp

lemma layout_above: "j < length ps \<Longrightarrow> x \<in> set (layout ps a ! j) \<Longrightarrow> a \<le> x"
proof (induction ps a arbitrary: j rule: layout.induct)
  case (2 num sz ps a)
  show ?case
  proof (cases j)
    case (Suc i)
    then show ?thesis using 2(1)[of i] 2(2,3) by simp
  qed (use 2(3) in auto)
qed simp

text \<open>The memory of two elements does not overlap.\<close>

lemma layout_disjoint:
  assumes "\<forall>(num, sz) \<in> set ps. 0 < sz" "i < length ps" "j < length ps" "x \<in> set (layout ps a ! i)" "y \<in> set (layout ps a ! j)" "i < j \<or> i = j \<and> x < y"
  shows "x + snd (ps ! i) \<le> y"
  using assms
proof (induction ps a arbitrary: i j rule: layout.induct)
  case (2 num sz ps a)
  show ?case
  proof (cases i)
    case 0
    then obtain k where k: "k < num" "x = a + k * sz" using 2(5) by auto
    then have le: "x + sz \<le> a + num * sz" using mult_le_mono1[of "Suc k" num sz] by simp
    show ?thesis
    proof (cases j)
      case j: 0
      then obtain l where "y = a + l * sz" "k < l" using 2(6,7) 0 k by auto
      then show ?thesis using mult_le_mono1[of "Suc k" l sz] k 0 by simp
    next
      case (Suc j')
      then show ?thesis using layout_above[of j' ps y "a + num * sz"] 2(4,6) le 0 by simp
    qed
  next
    case (Suc i')
    then obtain j' where "j = Suc j'" using 2(7) by (cases j) auto
    then show ?thesis using 2(1)[of i' j'] 2(2-7) Suc by auto
  qed
qed simp

lemma layout_distinct: "\<forall>(num, sz) \<in> set ps. 0 < sz \<Longrightarrow> i < length ps \<Longrightarrow> distinct (layout ps a ! i)"
proof (induction ps a arbitrary: i rule: layout.induct)
  case (2 num sz ps a)
  then show ?case by (cases i) (auto simp: distinct_map inj_on_def)
qed simp

lemma layout_aligned: "\<forall>(num, sz) \<in> set ps. sz mod 4 = 0 \<Longrightarrow> a mod 4 = 0 \<Longrightarrow> i < length ps \<Longrightarrow> x \<in> set (layout ps a ! i) \<Longrightarrow> x mod 4 = 0"
proof (induction ps a arbitrary: i rule: layout.induct)
  case (2 num sz ps a)
  have "(a + k * sz) mod 4 = 0" for k using 2(2,3) by (auto simp: mod_eq_0_iff_dvd)
  then show ?case using 2 by (cases i) auto
qed simp

lemma apart_layout:
  assumes "\<forall>(num, sz) \<in> set ps. 0 < sz" "0 < a"
  shows "apart (layout ps a)"
proof -
  have sz: "0 < snd (ps ! i)" if "i < length ps" for i using assms(1) that by (metis case_prod_beta nth_mem)
  have "0 \<notin> set (layout ps a ! i)" if "i < length ps" for i using layout_above[OF that, of 0 a] assms(2) by auto
  moreover have "x \<noteq> y" if "i < j" "j < length ps" "x \<in> set (layout ps a ! i)" "y \<in> set (layout ps a ! j)" for i j x y
    using layout_disjoint[OF assms(1), of i j x a y] sz[of i] that by auto
  ultimately show ?thesis unfolding apart_def using layout_distinct[OF assms(1)] by (auto simp: disjoint_iff) (metis nat_neq_iff)+
qed

lemma elements_ok:
  assumes "conf_ok c"
  shows "\<forall>(num, sz) \<in> set (memp_pools c). 0 < sz" "\<forall>(num, sz) \<in> set (memp_pools c). sz mod 4 = 0" "0 < LWIP_MEM_ALIGN (memp_memory c)"
    "LWIP_MEM_ALIGN (memp_memory c) mod 4 = 0" "apart (elements c)" "length (elements c) = length (memp_pools c)"
proof -
  show p: "\<forall>(num, sz) \<in> set (memp_pools c). 0 < sz" "\<forall>(num, sz) \<in> set (memp_pools c). sz mod 4 = 0" "0 < LWIP_MEM_ALIGN (memp_memory c)"
    "LWIP_MEM_ALIGN (memp_memory c) mod 4 = 0" using assms by (auto simp: conf_ok_def LWIP_MEM_ALIGN_def)
  show "apart (elements c)" "length (elements c) = length (memp_pools c)" unfolding elements_def using apart_layout[OF p(1,3)] by simp_all
qed

lemma memp_init_val:
  assumes "conf_ok c"
  shows "\<exists>st. memp_init c = Some st \<and> pool_rel st (map rev (elements c))"
proof -
  note E = elements_ok[OF assms]
  obtain st where st: "memp_init c = Some st" "length (memp_tab st) = length (memp_pools c)"
    "\<forall>j < length (memp_pools c). free_list (memp_next st) (memp_tab st ! j) (map rev (elements c) ! j)"
    using init_loop_val[of "\<lparr>memp_tab = replicate (length (memp_pools c)) 0, memp_next = Map.empty\<rparr>" "[]" "memp_pools c" "LWIP_MEM_ALIGN (memp_memory c)"] E(1,3)
    by (auto simp: memp_init_def elements_def)
  have "apart (map rev (elements c))" using E(5) by (simp add: apart_def)
  then show ?thesis using st E(6) by (simp add: pool_rel_def)
qed

section \<open>Properties\<close>

text \<open>
  C26. \<^verbatim>\<open>memp_init\<close> returns, and after it any sequence of allocations and of frees of elements that are held returns: the free elements of a pool and those that are held are together exactly the elements of
  the pool, so that none is handed out twice or lost. They are aligned, and the memory of two of them, of one pool or two, does not overlap.
\<close>

theorem memp_pools_safe:
  assumes "conf_ok c"
  shows "\<exists>st. memp_init c = Some st \<and> (\<exists>st' Ls H. mp.run ops st (replicate (length (memp_pools c)) []) = Some (st', H) \<and> pool_rel st' Ls \<and>
    (\<forall>i < length (memp_pools c). mset (Ls ! i) + mset (H ! i) = mset (elements c ! i) \<and> (\<forall>x \<in> set (H ! i). x mod 4 = 0 \<and>
       (\<forall>j < length (memp_pools c). \<forall>y \<in> set (H ! j). x \<noteq> y \<longrightarrow> x + snd (memp_pools c ! i) \<le> y \<or> y + snd (memp_pools c ! j) \<le> x))))"
proof -
  let ?n = "length (memp_pools c)"
  note E = elements_ok[OF assms]
  obtain st where st: "memp_init c = Some st" "pool_rel st (map rev (elements c))" using memp_init_val[OF assms] by blast
  have sp: "mp.split_of (elements c) (map rev (elements c)) (replicate ?n [])" using E(6) by (simp add: mp.split_of_def)
  obtain st' Ls H where run: "mp.run ops st (replicate ?n []) = Some (st', H)" "pool_rel st' Ls" "mp.split_of (elements c) Ls H"
    using mp.run_split[OF st(2) sp E(5)] by blast
  have H: "set (H ! i) \<subseteq> set (layout (memp_pools c) (LWIP_MEM_ALIGN (memp_memory c)) ! i)" if "i < ?n" for i
    using mp.split_in[OF run(3), of i] that E(6) unfolding elements_def by simp
  have al: "x mod 4 = 0" if "i < ?n" "x \<in> set (H ! i)" for i x by (rule layout_aligned[OF E(2,4) that(1) subsetD[OF H[OF that(1)] that(2)]])
  have ap: "x + snd (memp_pools c ! i) \<le> y \<or> y + snd (memp_pools c ! j) \<le> x"
    if a: "i < ?n" "x \<in> set (H ! i)" "j < ?n" "y \<in> set (H ! j)" "x \<noteq> y" for i j x y
  proof -
    have x: "x \<in> set (layout (memp_pools c) (LWIP_MEM_ALIGN (memp_memory c)) ! i)" and y: "y \<in> set (layout (memp_pools c) (LWIP_MEM_ALIGN (memp_memory c)) ! j)"
      using subsetD[OF H[OF a(1)] a(2)] subsetD[OF H[OF a(3)] a(4)] .
    have "i < j \<or> i = j \<and> x < y \<or> j < i \<or> j = i \<and> y < x" using a(5) by linarith
    then consider "i < j \<or> i = j \<and> x < y" | "j < i \<or> j = i \<and> y < x" by blast
    then show ?thesis
    proof cases
      case 1
      then show ?thesis using layout_disjoint[OF E(1) a(1,3) x y] by simp
    next
      case 2
      then show ?thesis using layout_disjoint[OF E(1) a(3,1) y x] by simp
    qed
  qed
  have sum: "mset (Ls ! i) + mset (H ! i) = mset (elements c ! i)" if "i < ?n" for i using run(3) that E(6) by (simp add: mp.split_of_def)
  show ?thesis
  proof (intro exI conjI)
    show "memp_init c = Some st" by (rule st(1))
    show "mp.run ops st (replicate ?n []) = Some (st', H)" by (rule run(1))
    show "pool_rel st' Ls" by (rule run(2))
    show "\<forall>i < ?n. mset (Ls ! i) + mset (H ! i) = mset (elements c ! i) \<and> (\<forall>x \<in> set (H ! i). x mod 4 = 0 \<and>
       (\<forall>j < ?n. \<forall>y \<in> set (H ! j). x \<noteq> y \<longrightarrow> x + snd (memp_pools c ! i) \<le> y \<or> y + snd (memp_pools c ! j) \<le> x))"
      by (intro allI impI conjI ballI sum al ap) assumption+
  qed
qed

definition pools_example :: memp_conf where
  "pools_example = \<lparr>memp_memory = 5, memp_pools = [(2, 16), (Suc 0, 20)]\<rparr>"

lemma pools_example_run:
  "\<exists>st st'. memp_init pools_example = Some st \<and> mp.run [Get 0, Get 1, Get 0, Put 0 1, Get 0] st [[], []] = Some (st', [[24, 8], [40]])"
  by (simp add: pools_example_def memp_init_def LWIP_MEM_ALIGN_def numeral_2_eq_2 memp_malloc_def memp_free_def)

theorem memp_pools_safe_witness:
  "conf_ok pools_example \<and> (\<exists>st st' H. memp_init pools_example = Some st \<and> mp.run [Get 0, Get 1] st (replicate (length (memp_pools pools_example)) []) = Some (st', H))"
proof -
  have c: "conf_ok pools_example" by (simp add: conf_ok_def pools_example_def)
  show ?thesis using c memp_pools_safe[OF c, of "[Get 0, Get 1]"] by blast
qed

end
