(* ===== verification/Lwip_Pbuf.thy ===== *)
theory Lwip_Pbuf
  imports Lwip_Memp
begin

text \<open>
  Packet buffers, \<^verbatim>\<open>LWIP/src/core/pbuf.c\<close>: chains of reference-counted buffers, with their structures in a store by address and their payload in a byte memory. Reading or changing a structure that
  has been freed, and touching memory that does not exist, is \<open>None\<close>. \<^verbatim>\<open>LWIP_ASSERT\<close> only prints in this port, so a failed assertion goes on as in the code.
  This theory holds the code and what it does to the bytes of a packet: copying in and out, comparing and searching.
\<close>

section \<open>The code\<close>

datatype pbuf_layer = PBUF_TRANSPORT | PBUF_IP | PBUF_LINK | PBUF_RAW
datatype pbuf_type = PBUF_RAM | PBUF_ROM | PBUF_REF | PBUF_POOL

abbreviation (input) PBUF_FLAG_IS_CUSTOM :: u8 where "PBUF_FLAG_IS_CUSTOM \<equiv> 2"
abbreviation (input) SIZEOF_STRUCT_PBUF :: nat where "SIZEOF_STRUCT_PBUF \<equiv> 16"
abbreviation (input) PBUF_POOL_BUFSIZE_ALIGNED :: nat where "PBUF_POOL_BUFSIZE_ALIGNED \<equiv> 2000"
abbreviation (input) MEMP_PBUF :: nat where "MEMP_PBUF \<equiv> 14"
abbreviation (input) MEMP_PBUF_POOL :: nat where "MEMP_PBUF_POOL \<equiv> 15"
abbreviation (input) ERR_ARG :: int where "ERR_ARG \<equiv> - 14"
abbreviation (input) ERR_VAL :: int where "ERR_VAL \<equiv> - 6"

record pbuf =
  pb_next :: nat
  payload :: nat
  tot_len :: u16
  pb_len :: u16
  pb_type :: pbuf_type
  pb_flags :: u8
  pb_ref :: u16

text \<open>
  The state, with the pieces given back to the heap and the custom buffers given back to their owners, the flag \<^verbatim>\<open>pbuf_free_ooseq_pending\<close> and the number of calls of
  \<^verbatim>\<open>pbuf_free_ooseq\<close> that have been queued to the thread of the stack.
\<close>

record pbuf_state =
  pools :: memp
  pbufs :: "nat \<Rightarrow> pbuf option"
  memory :: "nat \<Rightarrow> u8 option"
  heap_freed :: "nat list"
  custom_freed :: "nat list"
  ooseq_pending :: bool
  ooseq_calls :: nat

text \<open>
  What \<^verbatim>\<open>mem_malloc\<close> returns for a size of 16 bits, the flags that an element of the pool still has from its last use, and whether \<^verbatim>\<open>tcpip_callback_with_block\<close> finds room for a message.
\<close>

record pbuf_env =
  mem_malloc :: "u16 \<Rightarrow> nat"
  stale_flags :: u8
  callback_queued :: bool

definition upd_pbuf :: "nat \<Rightarrow> (pbuf \<Rightarrow> pbuf) \<Rightarrow> pbuf_state \<Rightarrow> pbuf_state option" where
  "upd_pbuf p f s = (case pbufs s p of None \<Rightarrow> None | Some b \<Rightarrow> Some (s\<lparr>pbufs := (pbufs s)(p \<mapsto> f b)\<rparr>))"

fun read_mem :: "(nat \<Rightarrow> u8 option) \<Rightarrow> nat \<Rightarrow> nat \<Rightarrow> u8 list option" where
  "read_mem m a 0 = Some []"
| "read_mem m a (Suc n) = do { b \<leftarrow> m a; bs \<leftarrow> read_mem m (Suc a) n; Some (b # bs) }"

fun write_mem :: "(nat \<Rightarrow> u8 option) \<Rightarrow> nat \<Rightarrow> u8 list \<Rightarrow> (nat \<Rightarrow> u8 option) option" where
  "write_mem m a [] = Some m"
| "write_mem m a (b # bs) = (if m a = None then None else write_mem (m(a \<mapsto> b)) (Suc a) bs)"

subsection \<open>Freeing and references\<close>

text \<open>Which pool or heap a buffer goes back to.\<close>

definition release_pbuf :: "nat \<Rightarrow> pbuf \<Rightarrow> pbuf_state \<Rightarrow> pbuf_state option" where
  "release_pbuf p b s =
     (let s = s\<lparr>pbufs := (pbufs s)(p := None)\<rparr> in
      if pb_flags b AND PBUF_FLAG_IS_CUSTOM \<noteq> 0 then Some (s\<lparr>custom_freed := custom_freed s @ [p]\<rparr>)
      else if pb_type b = PBUF_POOL then do { m \<leftarrow> memp_free MEMP_PBUF_POOL p (pools s); Some (s\<lparr>pools := m\<rparr>) }
      else if pb_type b = PBUF_ROM \<or> pb_type b = PBUF_REF then do { m \<leftarrow> memp_free MEMP_PBUF p (pools s); Some (s\<lparr>pools := m\<rparr>) }
      else Some (s\<lparr>heap_freed := heap_freed s @ [p]\<rparr>))"

partial_function (option) free_loop :: "nat \<Rightarrow> u8 \<Rightarrow> pbuf_state \<Rightarrow> (u8 \<times> pbuf_state) option" where
  "free_loop p n s =
     (if p = 0 then Some (n, s)
      else do {
        b \<leftarrow> pbufs s p;
        let ref = pb_ref b - 1;
        s \<leftarrow> upd_pbuf p (\<lambda>b. b\<lparr>pb_ref := ref\<rparr>) s;
        if ref = 0 then do {
          s \<leftarrow> release_pbuf p b s;
          free_loop (pb_next b) (n + 1) s
        }
        else Some (n, s)
      })"

definition pbuf_free :: "nat \<Rightarrow> pbuf_state \<Rightarrow> (u8 \<times> pbuf_state) option" where
  "pbuf_free p s = (if p = 0 then Some (0, s) else free_loop p 0 s)"

definition pbuf_ref :: "nat \<Rightarrow> pbuf_state \<Rightarrow> pbuf_state option" where
  "pbuf_ref p s = (if p \<noteq> 0 then upd_pbuf p (\<lambda>b. b\<lparr>pb_ref := pb_ref b + 1\<rparr>) s else Some s)"

partial_function (option) clen_loop :: "(nat \<Rightarrow> pbuf option) \<Rightarrow> nat \<Rightarrow> u8 \<Rightarrow> u8 option" where
  "clen_loop m p n = (if p = 0 then Some n else do { b \<leftarrow> m p; clen_loop m (pb_next b) (n + 1) })"

definition pbuf_clen :: "nat \<Rightarrow> pbuf_state \<Rightarrow> u8 option" where
  "pbuf_clen p s = clen_loop (pbufs s) p 0"

subsection \<open>Allocation\<close>

definition layer_offset :: "pbuf_layer \<Rightarrow> nat" where
  "layer_offset layer = (case layer of PBUF_TRANSPORT \<Rightarrow> 14 + 20 + 20 | PBUF_IP \<Rightarrow> 14 + 20 | PBUF_LINK \<Rightarrow> 14 | PBUF_RAW \<Rightarrow> 0)"

text \<open>A pool that is empty asks the thread of the stack, once, to drop the segments that are out of order.\<close>

definition pbuf_pool_is_empty :: "pbuf_env \<Rightarrow> pbuf_state \<Rightarrow> pbuf_state" where
  "pbuf_pool_is_empty env s =
     (if ooseq_pending s then s
      else if callback_queued env then s\<lparr>ooseq_pending := True, ooseq_calls := ooseq_calls s + 1\<rparr>
      else s)"

text \<open>The loop that appends buffers of the pool behind \<open>r\<close>; \<open>p\<close> is the head of the chain.\<close>

function alloc_tail :: "pbuf_env \<Rightarrow> nat \<Rightarrow> nat \<Rightarrow> nat \<Rightarrow> pbuf_state \<Rightarrow> (nat \<times> pbuf_state) option" where
  "alloc_tail env p r rem_len s =
     (if rem_len > 0 then do {
        (q, m) \<leftarrow> memp_malloc MEMP_PBUF_POOL (pools s);
        let s = s\<lparr>pools := m\<rparr>;
        if q = 0 then do { (_, s) \<leftarrow> pbuf_free p (pbuf_pool_is_empty env s); Some (0, s) }
        else do {
          let len = min rem_len PBUF_POOL_BUFSIZE_ALIGNED;
          let s = s\<lparr>pbufs := (pbufs s)(q \<mapsto> \<lparr>pb_next = 0, payload = q + SIZEOF_STRUCT_PBUF, tot_len = of_nat rem_len, pb_len = of_nat len,
            pb_type = PBUF_POOL, pb_flags = 0, pb_ref = 1\<rparr>)\<rparr>;
          s \<leftarrow> upd_pbuf r (\<lambda>b. b\<lparr>pb_next := q\<rparr>) s;
          alloc_tail env p q (rem_len - len) s
        }
      }
      else Some (p, s))"
  by pat_completeness auto
termination by (relation "measure (\<lambda>(env, p, r, rem_len, s). rem_len)") auto

definition ram_size :: "pbuf_layer \<Rightarrow> u16 \<Rightarrow> u16" where
  "ram_size layer sz = of_nat (LWIP_MEM_ALIGN (SIZEOF_STRUCT_PBUF + layer_offset layer) + LWIP_MEM_ALIGN (unat sz))"

definition pbuf_alloc :: "pbuf_env \<Rightarrow> pbuf_layer \<Rightarrow> u16 \<Rightarrow> pbuf_type \<Rightarrow> pbuf_state \<Rightarrow> (nat \<times> pbuf_state) option" where
  "pbuf_alloc env layer sz type s =
     (let offset = layer_offset layer in
      case type of
        PBUF_POOL \<Rightarrow> do {
          (p, m) \<leftarrow> memp_malloc MEMP_PBUF_POOL (pools s);
          let s = s\<lparr>pools := m\<rparr>;
          if p = 0 then Some (0, pbuf_pool_is_empty env s)
          else do {
            let len = min (unat sz) (PBUF_POOL_BUFSIZE_ALIGNED - LWIP_MEM_ALIGN offset);
            let s = s\<lparr>pbufs := (pbufs s)(p \<mapsto> \<lparr>pb_next = 0, payload = LWIP_MEM_ALIGN (p + SIZEOF_STRUCT_PBUF + offset), tot_len = sz, pb_len = of_nat len,
              pb_type = type, pb_flags = stale_flags env, pb_ref = 1\<rparr>)\<rparr>;
            (p, s) \<leftarrow> alloc_tail env p p (unat sz - len) s;
            if p = 0 then Some (0, s)
            else do { s \<leftarrow> upd_pbuf p (\<lambda>b. b\<lparr>pb_ref := 1, pb_flags := 0\<rparr>) s; Some (p, s) }
          }
        }
      | PBUF_RAM \<Rightarrow>
          (let p = mem_malloc env (ram_size layer sz) in
           if p = 0 then Some (0, s)
           else Some (p, s\<lparr>pbufs := (pbufs s)(p \<mapsto> \<lparr>pb_next = 0, payload = LWIP_MEM_ALIGN (p + SIZEOF_STRUCT_PBUF + offset), tot_len = sz, pb_len = sz,
             pb_type = type, pb_flags = 0, pb_ref = 1\<rparr>)\<rparr>))
      | _ \<Rightarrow> do {
          (p, m) \<leftarrow> memp_malloc MEMP_PBUF (pools s);
          let s = s\<lparr>pools := m\<rparr>;
          if p = 0 then Some (0, s)
          else Some (p, s\<lparr>pbufs := (pbufs s)(p \<mapsto> \<lparr>pb_next = 0, payload = 0, tot_len = sz, pb_len = sz, pb_type = type, pb_flags = 0, pb_ref = 1\<rparr>)\<rparr>)
        })"

declare alloc_tail.simps [simp del]

text \<open>A buffer of the caller: \<open>p\<close> is its structure.\<close>

definition pbuf_alloced_custom :: "pbuf_layer \<Rightarrow> u16 \<Rightarrow> pbuf_type \<Rightarrow> nat \<Rightarrow> nat \<Rightarrow> u16 \<Rightarrow> pbuf_state \<Rightarrow> nat \<times> pbuf_state" where
  "pbuf_alloced_custom l sz type p payload_mem payload_mem_len s =
     (let offset = layer_offset l in
      if LWIP_MEM_ALIGN offset + unat sz > unat payload_mem_len then (0, s)
      else (p, s\<lparr>pbufs := (pbufs s)(p \<mapsto> \<lparr>pb_next = 0, payload = (if payload_mem \<noteq> 0 then payload_mem + LWIP_MEM_ALIGN offset else 0), tot_len = sz, pb_len = sz,
        pb_type = type, pb_flags = PBUF_FLAG_IS_CUSTOM, pb_ref = 1\<rparr>)\<rparr>))"

subsection \<open>Chains and headers\<close>

partial_function (option) cat_loop :: "nat \<Rightarrow> u16 \<Rightarrow> pbuf_state \<Rightarrow> (nat \<times> pbuf_state) option" where
  "cat_loop p t_len s = do {
     b \<leftarrow> pbufs s p;
     if pb_next b \<noteq> 0 then do {
       s \<leftarrow> upd_pbuf p (\<lambda>b. b\<lparr>tot_len := tot_len b + t_len\<rparr>) s;
       cat_loop (pb_next b) t_len s
     }
     else Some (p, s)
   }"

definition pbuf_cat :: "nat \<Rightarrow> nat \<Rightarrow> pbuf_state \<Rightarrow> pbuf_state option" where
  "pbuf_cat h t s =
     (if h = 0 \<or> t = 0 then Some s
      else do {
        tb \<leftarrow> pbufs s t;
        (p, s) \<leftarrow> cat_loop h (tot_len tb) s;
        upd_pbuf p (\<lambda>b. b\<lparr>tot_len := tot_len b + tot_len tb, pb_next := t\<rparr>) s
      })"

definition pbuf_chain :: "nat \<Rightarrow> nat \<Rightarrow> pbuf_state \<Rightarrow> pbuf_state option" where
  "pbuf_chain h t s = do { s \<leftarrow> pbuf_cat h t s; pbuf_ref t s }"

definition pbuf_dechain :: "nat \<Rightarrow> pbuf_state \<Rightarrow> (nat \<times> pbuf_state) option" where
  "pbuf_dechain p s = do {
     b \<leftarrow> pbufs s p;
     let q = pb_next b;
     if q \<noteq> 0 then do {
       s \<leftarrow> upd_pbuf q (\<lambda>c. c\<lparr>tot_len := tot_len b - pb_len b\<rparr>) s;
       s \<leftarrow> upd_pbuf p (\<lambda>b. b\<lparr>pb_next := 0, tot_len := pb_len b\<rparr>) s;
       (tail_gone, s) \<leftarrow> pbuf_free q s;
       Some (if tail_gone > 0 then 0 else q, s)
     }
     else Some (0, s)
   }"

text \<open>Finding the new last buffer; \<open>grow\<close> is the (negative) growth.\<close>

partial_function (option) realloc_loop :: "nat \<Rightarrow> u16 \<Rightarrow> u16 \<Rightarrow> pbuf_state \<Rightarrow> (nat \<times> u16 \<times> pbuf_state) option" where
  "realloc_loop q rem_len grow s = do {
     b \<leftarrow> pbufs s q;
     if rem_len > pb_len b then do {
       s \<leftarrow> upd_pbuf q (\<lambda>b. b\<lparr>tot_len := tot_len b + grow\<rparr>) s;
       realloc_loop (pb_next b) (rem_len - pb_len b) grow s
     }
     else Some (q, rem_len, s)
   }"

text \<open>\<^verbatim>\<open>mem_trim\<close> shortens the piece of the heap in place and gives back its address.\<close>

definition pbuf_realloc :: "nat \<Rightarrow> u16 \<Rightarrow> pbuf_state \<Rightarrow> pbuf_state option" where
  "pbuf_realloc p new_len s = do {
     b \<leftarrow> pbufs s p;
     if new_len \<ge> tot_len b then Some s
     else do {
       (q, rem_len, s) \<leftarrow> realloc_loop p new_len (new_len - tot_len b) s;
       s \<leftarrow> upd_pbuf q (\<lambda>b. b\<lparr>pb_len := rem_len, tot_len := rem_len\<rparr>) s;
       qb \<leftarrow> pbufs s q;
       s \<leftarrow> (if pb_next qb \<noteq> 0 then map_option snd (pbuf_free (pb_next qb) s) else Some s);
       upd_pbuf q (\<lambda>b. b\<lparr>pb_next := 0\<rparr>) s
     }
   }"

definition pbuf_header :: "nat \<Rightarrow> u16 \<Rightarrow> pbuf_state \<Rightarrow> (u8 \<times> pbuf_state) option" where
  "pbuf_header p header_size_increment s =
     (if header_size_increment = 0 \<or> p = 0 then Some (0, s)
      else do {
        b \<leftarrow> pbufs s p;
        let inc = sint header_size_increment;
        let increment_magnitude = (if inc < 0 then - header_size_increment else header_size_increment);
        if inc < 0 \<and> \<not> increment_magnitude \<le> pb_len b then Some (1, s)
        else do {
          let new_payload = int (payload b) - inc;
          if (pb_type b = PBUF_RAM \<or> pb_type b = PBUF_POOL) \<and> new_payload < int (p + SIZEOF_STRUCT_PBUF) then Some (1, s)
          else if (pb_type b = PBUF_REF \<or> pb_type b = PBUF_ROM) \<and> \<not> (inc < 0 \<and> increment_magnitude \<le> pb_len b) then Some (1, s)
          else do {
            s \<leftarrow> upd_pbuf p (\<lambda>b. b\<lparr>payload := nat new_payload, pb_len := pb_len b + header_size_increment, tot_len := tot_len b + header_size_increment\<rparr>) s;
            Some (0, s)
          }
        }
      })"

subsection \<open>The bytes of a packet\<close>

partial_function (option) copy_partial_loop :: "pbuf_state \<Rightarrow> nat \<Rightarrow> u8 list \<Rightarrow> nat \<Rightarrow> u16 \<Rightarrow> u16 \<Rightarrow> (nat \<times> u8 list) option" where
  "copy_partial_loop s p dataptr left len offset =
     (if len \<noteq> 0 \<and> p \<noteq> 0 then do {
        b \<leftarrow> pbufs s p;
        if offset \<noteq> 0 \<and> offset \<ge> pb_len b then copy_partial_loop s (pb_next b) dataptr left len (offset - pb_len b)
        else do {
          let n = (if pb_len b - offset > len then len else pb_len b - offset);
          bs \<leftarrow> read_mem (memory s) (payload b + unat offset) (unat n);
          dataptr \<leftarrow> memcpy dataptr left bs 0 (unat n);
          copy_partial_loop s (pb_next b) dataptr (left + unat n) (len - n) 0
        }
      }
      else Some (left, dataptr))"

text \<open>The number of bytes copied, and the caller's buffer.\<close>

definition pbuf_copy_partial :: "nat \<Rightarrow> u8 list \<Rightarrow> u16 \<Rightarrow> u16 \<Rightarrow> pbuf_state \<Rightarrow> (nat \<times> u8 list) option" where
  "pbuf_copy_partial buf dataptr len offset s = (if buf = 0 then Some (0, dataptr) else copy_partial_loop s buf dataptr 0 len offset)"

partial_function (option) take_loop :: "nat \<Rightarrow> u8 list \<Rightarrow> u16 \<Rightarrow> nat \<Rightarrow> pbuf_state \<Rightarrow> pbuf_state option" where
  "take_loop p dataptr total_copy_len copied_total s =
     (if total_copy_len \<noteq> 0 then do {
        b \<leftarrow> pbufs s p;
        let n = (if total_copy_len > pb_len b then pb_len b else total_copy_len);
        bs \<leftarrow> memcpy (replicate (unat n) 0) 0 dataptr copied_total (unat n);
        m \<leftarrow> write_mem (memory s) (payload b) bs;
        take_loop (pb_next b) dataptr (total_copy_len - n) (copied_total + unat n) (s\<lparr>memory := m\<rparr>)
      }
      else Some s)"

definition pbuf_take :: "nat \<Rightarrow> u8 list \<Rightarrow> u16 \<Rightarrow> pbuf_state \<Rightarrow> (int \<times> pbuf_state) option" where
  "pbuf_take buf dataptr len s =
     (if buf = 0 then Some (0, s)
      else do {
        b \<leftarrow> pbufs s buf;
        if tot_len b < len then Some (ERR_ARG, s)
        else do { s \<leftarrow> take_loop buf dataptr len 0 s; Some (ERR_OK, s) }
      })"

text \<open>A buffer that is the last of its packet but not of its chain begins a queue of packets.\<close>

definition ends_in_queue :: "pbuf_state \<Rightarrow> nat \<Rightarrow> bool option" where
  "ends_in_queue s p = (if p = 0 then Some False else do { b \<leftarrow> pbufs s p; Some (pb_len b = tot_len b \<and> pb_next b \<noteq> 0) })"

partial_function (option) copy_loop :: "nat \<Rightarrow> nat \<Rightarrow> u16 \<Rightarrow> u16 \<Rightarrow> pbuf_state \<Rightarrow> (int \<times> pbuf_state) option" where
  "copy_loop p_to p_from offset_to offset_from s = do {
     t \<leftarrow> pbufs s p_to;
     f \<leftarrow> pbufs s p_from;
     let len = (if pb_len t - offset_to \<ge> pb_len f - offset_from then pb_len f - offset_from else pb_len t - offset_to);
     bs \<leftarrow> read_mem (memory s) (payload f + unat offset_from) (unat len);
     m \<leftarrow> write_mem (memory s) (payload t + unat offset_to) bs;
     let s = s\<lparr>memory := m\<rparr>;
     let offset_to = offset_to + len;
     let offset_from = offset_from + len;
     let (offset_from, p_from) = (if offset_from \<ge> pb_len f then (0, pb_next f) else (offset_from, p_from));
     let (offset_to, p_to, room) = (if offset_to = pb_len t then (0, pb_next t, pb_next t \<noteq> 0 \<or> p_from = 0) else (offset_to, p_to, True));
     if \<not> room then Some (ERR_ARG, s)
     else do {
       qf \<leftarrow> ends_in_queue s p_from;
       qt \<leftarrow> ends_in_queue s p_to;
       if qf \<or> qt then Some (ERR_VAL, s)
       else if p_from \<noteq> 0 then copy_loop p_to p_from offset_to offset_from s
       else Some (ERR_OK, s)
     }
   }"

definition pbuf_copy :: "nat \<Rightarrow> nat \<Rightarrow> pbuf_state \<Rightarrow> (int \<times> pbuf_state) option" where
  "pbuf_copy p_to p_from s =
     (if p_to = 0 \<or> p_from = 0 then Some (ERR_ARG, s)
      else do {
        t \<leftarrow> pbufs s p_to;
        f \<leftarrow> pbufs s p_from;
        if tot_len t \<ge> tot_len f then copy_loop p_to p_from 0 0 s else Some (ERR_ARG, s)
      })"

definition pbuf_coalesce :: "pbuf_env \<Rightarrow> nat \<Rightarrow> pbuf_layer \<Rightarrow> pbuf_state \<Rightarrow> (nat \<times> pbuf_state) option" where
  "pbuf_coalesce env p layer s = do {
     b \<leftarrow> pbufs s p;
     if pb_next b = 0 then Some (p, s)
     else do {
       (q, s) \<leftarrow> pbuf_alloc env layer (tot_len b) PBUF_RAM s;
       if q = 0 then Some (p, s)
       else do {
         (err, s) \<leftarrow> pbuf_copy q p s;
         (_, s) \<leftarrow> pbuf_free p s;
         Some (q, s)
       }
     }
   }"

subsection \<open>Searching\<close>

text \<open>The buffer that holds the byte at an offset, and the offset there.\<close>

partial_function (option) seek_loop :: "pbuf_state \<Rightarrow> nat \<Rightarrow> u16 \<Rightarrow> (nat \<times> u16) option" where
  "seek_loop s q n =
     (if q = 0 then Some (0, n)
      else do {
        b \<leftarrow> pbufs s q;
        if pb_len b \<le> n then seek_loop s (pb_next b) (n - pb_len b) else Some (q, n)
      })"

definition pbuf_get_at :: "nat \<Rightarrow> u16 \<Rightarrow> pbuf_state \<Rightarrow> u8 option" where
  "pbuf_get_at p offset s = do {
     (q, copy_from) \<leftarrow> seek_loop s p offset;
     if q = 0 then Some 0
     else do { b \<leftarrow> pbufs s q; memory s (payload b + unat copy_from) }
   }"

fun memcmp_loop :: "pbuf_state \<Rightarrow> nat \<Rightarrow> u16 \<Rightarrow> nat \<Rightarrow> u8 list \<Rightarrow> u16 option" where
  "memcmp_loop s q start i [] = Some 0"
| "memcmp_loop s q start i (b # s2) = do {
     a \<leftarrow> pbuf_get_at q (start + of_nat i) s;
     if a \<noteq> b then Some (of_nat (i + 1)) else memcmp_loop s q start (i + 1) s2
   }"

text \<open>\<open>s2\<close> are the \<open>n\<close> bytes to compare with.\<close>

definition pbuf_memcmp :: "nat \<Rightarrow> u16 \<Rightarrow> u8 list \<Rightarrow> pbuf_state \<Rightarrow> u16 option" where
  "pbuf_memcmp p offset s2 s = do {
     (q, start) \<leftarrow> seek_loop s p offset;
     if q \<noteq> 0 then memcmp_loop s q start 0 s2 else Some 0xFFFF
   }"

partial_function (option) memfind_loop :: "pbuf_state \<Rightarrow> nat \<Rightarrow> u8 list \<Rightarrow> u16 \<Rightarrow> u16 \<Rightarrow> u16 option" where
  "memfind_loop s p pat mx i =
     (if i \<le> mx then do {
        plus \<leftarrow> pbuf_memcmp p i pat s;
        if plus = 0 then Some i else memfind_loop s p pat mx (i + plus)
      }
      else Some 0xFFFF)"

definition pbuf_memfind :: "nat \<Rightarrow> u8 list \<Rightarrow> u16 \<Rightarrow> pbuf_state \<Rightarrow> u16 option" where
  "pbuf_memfind p pat start_offset s = do {
     b \<leftarrow> pbufs s p;
     if unat (tot_len b) \<ge> length pat + unat start_offset
     then memfind_loop s p pat (tot_len b - of_nat (length pat)) start_offset
     else Some 0xFFFF
   }"

text \<open>\<open>substr\<close> is the string without its terminating 0.\<close>

definition pbuf_strstr :: "nat \<Rightarrow> u8 list \<Rightarrow> pbuf_state \<Rightarrow> u16 option" where
  "pbuf_strstr p substr s = do {
     b \<leftarrow> pbufs s p;
     if substr = [] \<or> tot_len b = 0xFFFF \<or> length substr \<ge> 0xFFFF then Some 0xFFFF
     else pbuf_memfind p substr 0 s
   }"

end
