(* ===== verification/Lwip_Pbuf_Data.thy ===== *)
theory Lwip_Pbuf_Data
  imports Lwip_Pbuf
begin

text \<open>
  What the routines of \<^verbatim>\<open>pbuf.c\<close> do to the bytes of a packet. A packet is the list of the buffers of a chain; its bytes are those of the payloads one after the other, and the routines are the
  list operations on them, wherever the chain is cut.
\<close>

section \<open>Chains and their bytes\<close>

fun linked :: "(nat \<Rightarrow> pbuf option) \<Rightarrow> nat \<Rightarrow> (nat \<times> pbuf) list \<Rightarrow> bool" where
  "linked m p [] \<longleftrightarrow> p = 0"
| "linked m p ((q, b) # xs) \<longleftrightarrow> p = q \<and> q \<noteq> 0 \<and> m q = Some b \<and> linked m (pb_next b) xs"

definition data_at :: "(nat \<Rightarrow> u8 option) \<Rightarrow> nat \<Rightarrow> nat \<Rightarrow> u8 list" where
  "data_at m a n = map (\<lambda>i. the (m (a + i))) [0..<n]"

definition mapped :: "(nat \<Rightarrow> u8 option) \<Rightarrow> nat \<Rightarrow> nat \<Rightarrow> bool" where
  "mapped m a n \<longleftrightarrow> (\<forall>i < n. m (a + i) \<noteq> None)"

definition buf_data :: "(nat \<Rightarrow> u8 option) \<Rightarrow> pbuf \<Rightarrow> u8 list" where
  "buf_data m b = data_at m (payload b) (unat (pb_len b))"

definition pkt_data :: "(nat \<Rightarrow> u8 option) \<Rightarrow> (nat \<times> pbuf) list \<Rightarrow> u8 list" where
  "pkt_data m xs = concat (map (\<lambda>(p, b). buf_data m b) xs)"

definition pkt_mapped :: "(nat \<Rightarrow> u8 option) \<Rightarrow> (nat \<times> pbuf) list \<Rightarrow> bool" where
  "pkt_mapped m xs \<longleftrightarrow> (\<forall>(p, b) \<in> set xs. mapped m (payload b) (unat (pb_len b)))"

lemma length_data_at [simp]: "length (data_at m a n) = n"
  by (simp add: data_at_def)

lemma data_at_nth [simp]: "i < n \<Longrightarrow> data_at m a n ! i = the (m (a + i))"
  by (simp add: data_at_def)

lemma length_buf_data [simp]: "length (buf_data m b) = unat (pb_len b)"
  by (simp add: buf_data_def)

lemma pkt_simps [simp]:
  "pkt_data m [] = []" "pkt_data m ((p, b) # xs) = buf_data m b @ pkt_data m xs"
  "pkt_mapped m []" "pkt_mapped m ((p, b) # xs) \<longleftrightarrow> mapped m (payload b) (unat (pb_len b)) \<and> pkt_mapped m xs"
  by (simp_all add: pkt_data_def pkt_mapped_def)

lemma pkt_mapped_append: "pkt_mapped m (xs @ ys) \<longleftrightarrow> pkt_mapped m xs \<and> pkt_mapped m ys"
  by (auto simp: pkt_mapped_def)

lemma pkt_data_append: "pkt_data m (xs @ ys) = pkt_data m xs @ pkt_data m ys"
  by (simp add: pkt_data_def)

lemma data_at_Suc: "data_at m a (Suc n) = the (m a) # data_at m (Suc a) n"
  by (simp add: data_at_def upt_conv_Cons map_Suc_upt[symmetric] del: upt_Suc)

lemma data_at_part: "k + n \<le> l \<Longrightarrow> data_at m (a + k) n = take n (drop k (data_at m a l))"
  by (rule nth_equalityI) (simp_all add: add.assoc)

lemma read_mem_val: "mapped m a n \<Longrightarrow> read_mem m a n = Some (data_at m a n)"
proof (induction n arbitrary: a)
  case (Suc n)
  have "m a \<noteq> None" "mapped m (Suc a) n" using Suc.prems unfolding mapped_def by (metis add_0_right zero_less_Suc, metis add_Suc_shift Suc_less_eq)
  then show ?case using Suc.IH by (auto simp: data_at_Suc)
qed (simp add: data_at_def)

lemma mapped_part: "mapped m a l \<Longrightarrow> k + n \<le> l \<Longrightarrow> mapped m (a + k) n"
  unfolding mapped_def by (metis add.assoc add_less_cancel_left less_le_trans)

text \<open>The memory after bytes have been stored from an address on.\<close>

definition store :: "(nat \<Rightarrow> u8 option) \<Rightarrow> nat \<Rightarrow> u8 list \<Rightarrow> (nat \<Rightarrow> u8 option)" where
  "store m a bs = (\<lambda>x. if a \<le> x \<and> x < a + length bs then Some (bs ! (x - a)) else m x)"

lemma write_mem_val: "mapped m a (length bs) \<Longrightarrow> write_mem m a bs = Some (store m a bs)"
proof (induction bs arbitrary: a m)
  case (Cons b bs)
  have m: "m a \<noteq> None" "mapped (m(a \<mapsto> b)) (Suc a) (length bs)" using Cons.prems unfolding mapped_def
    by (metis add_0_right length_greater_0_conv list.discI, metis add_Suc_shift Suc_less_eq fun_upd_apply length_Cons option.discI)
  have "store (m(a \<mapsto> b)) (Suc a) bs = store m a (b # bs)" by (rule ext) (auto simp: store_def nth_Cons')
  then show ?case by (simp only: write_mem.simps m(1) Cons.IH[OF m(2)] if_False)
qed (auto simp: store_def fun_eq_iff)

definition area :: "pbuf \<Rightarrow> nat set" where
  "area b = {payload b..<payload b + unat (pb_len b)}"

fun footprint :: "(nat \<times> pbuf) list \<Rightarrow> nat set" where
  "footprint [] = {}"
| "footprint ((p, b) # xs) = area b \<union> footprint xs"

fun separate :: "(nat \<times> pbuf) list \<Rightarrow> bool" where
  "separate [] \<longleftrightarrow> True"
| "separate ((p, b) # xs) \<longleftrightarrow> area b \<inter> footprint xs = {} \<and> separate xs"

lemma buf_data_cong: "\<forall>x \<in> area b. m' x = m x \<Longrightarrow> buf_data m' b = buf_data m b"
  by (simp add: buf_data_def data_at_def area_def)

lemma pkt_data_cong: "\<forall>x \<in> footprint xs. m' x = m x \<Longrightarrow> pkt_data m' xs = pkt_data m xs"
  by (induction xs rule: footprint.induct) (auto intro: buf_data_cong)

lemma mapped_mono: "dom m \<subseteq> dom m' \<Longrightarrow> mapped m a n \<Longrightarrow> mapped m' a n"
  unfolding mapped_def by blast

lemma pkt_mapped_mono: "dom m \<subseteq> dom m' \<Longrightarrow> pkt_mapped m xs \<Longrightarrow> pkt_mapped m' xs"
  unfolding pkt_mapped_def using mapped_mono by blast

lemma dom_store: "dom m \<subseteq> dom (store m a bs)"
  by (auto simp: store_def)

lemma store_other: "x \<notin> {a..<a + length bs} \<Longrightarrow> store m a bs x = m x"
  by (auto simp: store_def)

lemma outside_area: "y \<notin> area b \<Longrightarrow> k + n \<le> unat (pb_len b) \<Longrightarrow> y \<notin> {payload b + k..<payload b + k + n}"
  by (simp add: area_def) linarith

lemma buf_data_store:
  "k + length bs \<le> unat (pb_len b) \<Longrightarrow>
   buf_data (store m (payload b + k) bs) b = take k (buf_data m b) @ bs @ drop (k + length bs) (buf_data m b)"
proof (rule nth_equalityI)
  fix i assume k: "k + length bs \<le> unat (pb_len b)" and "i < length (buf_data (store m (payload b + k) bs) b)"
  then have i: "i < unat (pb_len b)" by simp
  then have l: "buf_data (store m (payload b + k) bs) b ! i = (if k \<le> i \<and> i < k + length bs then bs ! (i - k) else the (m (payload b + i)))"
    by (simp add: buf_data_def store_def)
  consider "i < k" | "k \<le> i" "i < k + length bs" | "k + length bs \<le> i" by linarith
  then show "buf_data (store m (payload b + k) bs) b ! i = (take k (buf_data m b) @ bs @ drop (k + length bs) (buf_data m b)) ! i"
  proof cases
    case 1
    then show ?thesis using l i k by (simp add: nth_append buf_data_def)
  next
    case 2
    then have "i - k < length bs" "min (unat (pb_len b)) k = k" using k by linarith+
    then show ?thesis using l 2 by (simp add: nth_append)
  next
    case 3
    then have "i - k - length bs + (k + length bs) = i" "\<not> i - k < length bs" by simp_all
    then show ?thesis using l i k 3 by (simp add: nth_append min_def buf_data_def)
  qed
qed simp

section \<open>Copying out\<close>

lemma copy_partial_val:
  assumes "linked (pbufs s) p xs" "pkt_mapped (memory s) xs" "left + unat len \<le> length dst"
  shows "let part = take (unat len) (drop (unat offset) (pkt_data (memory s) xs)) in
    copy_partial_loop s p dst left len offset = Some (left + length part, take left dst @ part @ drop (left + length part) dst)"
  using assms
proof (induction xs arbitrary: p dst left len offset)
  case Nil
  then show ?case by (subst copy_partial_loop.simps) simp
next
  case (Cons x xs)
  obtain q b where x: "x = (q, b)" by fastforce
  have c: "p = q" "q \<noteq> 0" "pbufs s q = Some b" "linked (pbufs s) (pb_next b) xs" "mapped (memory s) (payload b) (unat (pb_len b))" "pkt_mapped (memory s) xs"
    using Cons.prems(1,2) x by simp_all
  show ?case
  proof (cases "len = 0")
    case True
    then show ?thesis by (subst copy_partial_loop.simps) simp
  next
    case len: False
    show ?thesis
    proof (cases "offset \<noteq> 0 \<and> offset \<ge> pb_len b")
      case True
      then have o: "unat (offset - pb_len b) = unat offset - unat (pb_len b)" "unat (pb_len b) \<le> unat offset" by (simp_all add: unat_sub word_le_nat_alt)
      have "copy_partial_loop s p dst left len offset = copy_partial_loop s (pb_next b) dst left len (offset - pb_len b)"
        using True len c by (subst copy_partial_loop.simps) simp
      then show ?thesis using Cons.IH[OF c(4,6) Cons.prems(3), of "offset - pb_len b"] x o by simp
    next
      case False
      then have o: "unat offset \<le> unat (pb_len b)" by (auto simp: word_le_nat_alt not_le)
      have rest: "unat (pb_len b - offset) = unat (pb_len b) - unat offset" using o by (simp add: unat_sub word_le_nat_alt)
      define n where "n = (if pb_len b - offset > len then len else pb_len b - offset)"
      have n: "unat n = min (unat len) (unat (pb_len b) - unat offset)" "n \<le> len" using rest by (auto simp: n_def word_less_nat_alt word_le_nat_alt min_def)
      let ?bs = "take (unat n) (drop (unat offset) (buf_data (memory s) b))"
      have rd: "read_mem (memory s) (payload b + unat offset) (unat n) = Some ?bs"
        using read_mem_val[OF mapped_part[OF c(5), of "unat offset" "unat n"]] n(1) o data_at_part[of "unat offset" "unat n" "unat (pb_len b)"] by (simp add: buf_data_def)
      have lb: "length ?bs = unat n" using n(1) o by simp
      have ln: "left + unat n \<le> length dst" using Cons.prems(3) n by linarith
      let ?dst = "take left dst @ ?bs @ drop (left + unat n) dst"
      have cp: "memcpy dst left ?bs 0 (unat n) = Some ?dst" using ln lb by (simp add: memcpy_def)
      have "unat (len - n) = unat len - unat n" using n(2) by (simp add: unat_sub)
      then have l2: "left + unat n + unat (len - n) \<le> length ?dst" "unat (len - n) = unat len - unat n" using Cons.prems(3) ln lb by simp_all
      have step: "copy_partial_loop s p dst left len offset = copy_partial_loop s (pb_next b) ?dst (left + unat n) (len - n) 0"
        using False len c rd cp by (subst copy_partial_loop.simps) (auto simp: n_def[symmetric] Let_def)
      define part where "part = take (unat (len - n)) (pkt_data (memory s) xs)"
      have run: "copy_partial_loop s p dst left len offset = Some (left + unat n + length part, take (left + unat n) ?dst @ part @ drop (left + unat n + length part) ?dst)"
        unfolding step using Cons.IH[OF c(4,6) l2(1), of 0] by (simp add: part_def)
      have "take (unat len) (drop (unat offset) (pkt_data (memory s) (x # xs))) = ?bs @ part"
      proof (cases "unat len \<le> unat (pb_len b) - unat offset")
        case True
        then show ?thesis using n(1) l2(2) o x by (simp add: part_def)
      next
        case l: False
        then have "unat n = unat (pb_len b) - unat offset" using n(1) by simp
        then show ?thesis using l l2(2) o x by (simp add: part_def)
      qed
      moreover have "take (left + unat n) ?dst = take left dst @ ?bs" "drop (left + unat n + length part) ?dst = drop (left + unat n + length part) dst"
        using lb ln by (simp_all add: add_ac)
      moreover have "left + length (?bs @ part) = left + unat n + length part" using lb by simp
      ultimately show ?thesis unfolding Let_def using run by (simp only: append_assoc)
    qed
  qed
qed

section \<open>Copying in\<close>

lemma take_val:
  assumes "linked (pbufs s) p xs" "pkt_mapped (memory s) xs" "separate xs" "unat tot \<le> length (pkt_data (memory s) xs)"
    "copied + unat tot \<le> length dataptr"
  shows "\<exists>m. take_loop p dataptr tot copied s = Some (s\<lparr>memory := m\<rparr>) \<and>
    pkt_data m xs = take (unat tot) (drop copied dataptr) @ drop (unat tot) (pkt_data (memory s) xs) \<and>
    (\<forall>x. x \<notin> footprint xs \<longrightarrow> m x = memory s x) \<and> dom (memory s) \<subseteq> dom m"
  using assms
proof (induction xs arbitrary: p tot copied s)
  case Nil
  then have "tot = 0" by (simp add: unat_eq_0)
  then show ?case by (intro exI[of _ "memory s"]) (subst take_loop.simps, simp)
next
  case (Cons x xs)
  obtain q b where x: "x = (q, b)" by fastforce
  have c: "p = q" "q \<noteq> 0" "pbufs s q = Some b" "linked (pbufs s) (pb_next b) xs" "mapped (memory s) (payload b) (unat (pb_len b))" "pkt_mapped (memory s) xs"
    "area b \<inter> footprint xs = {}" "separate xs"
    using Cons.prems(1,2,3) x by simp_all
  show ?case
  proof (cases "tot = 0")
    case True
    then show ?thesis by (intro exI[of _ "memory s"]) (subst take_loop.simps, simp)
  next
    case False
    define n where "n = (if tot > pb_len b then pb_len b else tot)"
    have n: "unat n = min (unat tot) (unat (pb_len b))" "n \<le> tot" by (auto simp: n_def word_less_nat_alt word_le_nat_alt min_def)
    let ?bs = "take (unat n) (drop copied dataptr)"
    have lb: "length ?bs = unat n" using n(1) Cons.prems(5) by simp
    have cp: "memcpy (replicate (unat n) 0) 0 dataptr copied (unat n) = Some ?bs" using n(1) Cons.prems(5) by (simp add: memcpy_def)
    let ?m = "store (memory s) (payload b) ?bs"
    have wr: "write_mem (memory s) (payload b) ?bs = Some ?m"
      using write_mem_val[of "memory s" "payload b" ?bs] mapped_part[OF c(5), of 0 "unat n"] n(1) lb by simp
    have step: "take_loop p dataptr tot copied s = take_loop (pb_next b) dataptr (tot - n) (copied + unat n) (s\<lparr>memory := ?m\<rparr>)"
      using False c(1-3) cp wr by (subst take_loop.simps) (simp add: n_def[symmetric] Let_def)
    have sub: "unat (tot - n) = unat tot - unat n" using n(2) by (simp add: unat_sub)
    have other: "\<forall>y \<in> footprint xs. ?m y = memory s y"
    proof
      fix y assume "y \<in> footprint xs"
      then have "y \<notin> {payload b..<payload b + length ?bs}" using c(7) lb n(1) outside_area[of y b 0 "length ?bs"] by auto
      then show "?m y = memory s y" by (rule store_other)
    qed
    have rest: "pkt_data ?m xs = pkt_data (memory s) xs" by (rule pkt_data_cong[OF other])
    have "\<exists>m. take_loop (pb_next b) dataptr (tot - n) (copied + unat n) (s\<lparr>memory := ?m\<rparr>) = Some (s\<lparr>memory := ?m\<rparr>\<lparr>memory := m\<rparr>) \<and>
      pkt_data m xs = take (unat (tot - n)) (drop (copied + unat n) dataptr) @ drop (unat (tot - n)) (pkt_data ?m xs) \<and>
      (\<forall>y. y \<notin> footprint xs \<longrightarrow> m y = ?m y) \<and> dom ?m \<subseteq> dom m"
      using Cons.IH[of "s\<lparr>memory := ?m\<rparr>" "pb_next b" "tot - n" "copied + unat n"] c(4,8) pkt_mapped_mono[OF dom_store c(6)] Cons.prems(4,5) x n(1) sub rest
      by simp
    then obtain m where m: "take_loop (pb_next b) dataptr (tot - n) (copied + unat n) (s\<lparr>memory := ?m\<rparr>) = Some (s\<lparr>memory := m\<rparr>)"
      "pkt_data m xs = take (unat (tot - n)) (drop (copied + unat n) dataptr) @ drop (unat (tot - n)) (pkt_data (memory s) xs)"
      "\<forall>y. y \<notin> footprint xs \<longrightarrow> m y = ?m y" "dom ?m \<subseteq> dom m"
      using rest by auto
    have "buf_data m b = buf_data ?m b" by (rule buf_data_cong) (use c(7) m(3) in blast)
    also have "\<dots> = ?bs @ drop (unat n) (buf_data (memory s) b)" using buf_data_store[of 0 ?bs b "memory s"] lb n(1) by simp
    finally have b: "buf_data m b = ?bs @ drop (unat n) (buf_data (memory s) b)" .
    have "pkt_data m (x # xs) = take (unat tot) (drop copied dataptr) @ drop (unat tot) (pkt_data (memory s) (x # xs))"
    proof (cases "unat tot \<le> unat (pb_len b)")
      case True
      then show ?thesis using b m(2) sub n(1) x by simp
    next
      case l: False
      then have "unat tot = unat n + (unat tot - unat n)" "unat n = unat (pb_len b)" using n(1) by simp_all
      then show ?thesis using b m(2) sub x take_add[of "unat n" "unat tot - unat n" "drop copied dataptr"] by (simp add: add.commute)
    qed
    moreover have "\<forall>y. y \<notin> footprint (x # xs) \<longrightarrow> m y = memory s y"
    proof (intro allI impI)
      fix y assume y: "y \<notin> footprint (x # xs)"
      then have "y \<notin> {payload b..<payload b + length ?bs}" using x lb n(1) outside_area[of y b 0 "length ?bs"] by auto
      then show "m y = memory s y" using m(3) y x store_other[of y "payload b" ?bs] by simp
    qed
    moreover have "take_loop p dataptr tot copied s = Some (s\<lparr>memory := m\<rparr>)" by (rule trans[OF step m(1)])
    moreover have "dom (memory s) \<subseteq> dom m" by (rule subset_trans[OF dom_store m(4)])
    ultimately show ?thesis by blast
  qed
qed

section \<open>From packet to packet\<close>

text \<open>A packet as the stack builds it: no buffer is empty, and each \<^verbatim>\<open>tot_len\<close> counts the bytes from its buffer on.\<close>

fun packet :: "(nat \<times> pbuf) list \<Rightarrow> bool" where
  "packet [] \<longleftrightarrow> True"
| "packet ((p, b) # xs) \<longleftrightarrow> pb_len b \<noteq> 0 \<and> unat (tot_len b) = unat (pb_len b) + (\<Sum>(q, c) \<leftarrow> xs. unat (pb_len c)) \<and> packet xs"

lemma length_pkt_data: "length (pkt_data m xs) = (\<Sum>(q, c) \<leftarrow> xs. unat (pb_len c))"
  by (induction xs) auto

lemma packet_no_queue: "linked (pbufs s) p xs \<Longrightarrow> packet xs \<Longrightarrow> ends_in_queue s p = Some False"
proof (cases xs)
  case (Cons x ys)
  assume *: "linked (pbufs s) p xs" "packet xs"
  obtain b where x: "x = (p, b)" "pbufs s p = Some b" "p \<noteq> 0" "linked (pbufs s) (pb_next b) ys" using * Cons by (cases x) auto
  have "pb_len b = tot_len b \<Longrightarrow> pb_next b = 0"
  proof (cases ys)
    case (Cons y zs)
    then show "pb_len b = tot_len b \<Longrightarrow> pb_next b = 0" using * \<open>xs = x # ys\<close> x by (cases y) (auto simp: unat_eq_0)
  qed (use x in simp)
  then show ?thesis using x by (auto simp: ends_in_queue_def)
qed (simp add: ends_in_queue_def)

definition copyable :: "pbuf_state \<Rightarrow> nat \<Rightarrow> (nat \<times> pbuf) list \<Rightarrow> nat \<Rightarrow> (nat \<times> pbuf) list \<Rightarrow> bool" where
  "copyable s t xs f ys \<longleftrightarrow> linked (pbufs s) t xs \<and> linked (pbufs s) f ys \<and> pkt_mapped (memory s) xs \<and> pkt_mapped (memory s) ys \<and>
     separate xs \<and> footprint xs \<inter> footprint ys = {} \<and> packet xs \<and> packet ys"

text \<open>Copying a part of the first buffer of the one to the first of the other.\<close>

lemma copyable_store:
  assumes "copyable s t ((t, b) # xs) f ys" "k + length bs \<le> unat (pb_len b)"
  defines "m \<equiv> store (memory s) (payload b + k) bs"
  shows "copyable (s\<lparr>memory := m\<rparr>) t ((t, b) # xs) f ys" "pkt_data m ys = pkt_data (memory s) ys" "pkt_data m xs = pkt_data (memory s) xs"
    "buf_data m b = take k (buf_data (memory s) b) @ bs @ drop (k + length bs) (buf_data (memory s) b)"
    "y \<notin> footprint ((t, b) # xs) \<Longrightarrow> m y = memory s y"
proof -
  have o: "y \<notin> area b \<Longrightarrow> m y = memory s y" for y unfolding m_def by (rule store_other[OF outside_area[OF _ assms(2)]])
  have d: "area b \<inter> footprint ys = {}" "area b \<inter> footprint xs = {}" using assms(1) by (auto simp: copyable_def)
  show "pkt_data m ys = pkt_data (memory s) ys" "pkt_data m xs = pkt_data (memory s) xs" using o d by (auto intro!: pkt_data_cong)
  show "buf_data m b = take k (buf_data (memory s) b) @ bs @ drop (k + length bs) (buf_data (memory s) b)" unfolding m_def by (rule buf_data_store[OF assms(2)])
  show "y \<notin> footprint ((t, b) # xs) \<Longrightarrow> m y = memory s y" using o by simp
  have "dom (memory s) \<subseteq> dom m" unfolding m_def by (rule dom_store)
  then show "copyable (s\<lparr>memory := m\<rparr>) t ((t, b) # xs) f ys" using assms(1) pkt_mapped_mono[of "memory s" m] mapped_mono[of "memory s" m] unfolding copyable_def by auto
qed

lemma copyable_tl:
  "copyable s t ((t, b) # xs) f ys \<Longrightarrow> copyable s (pb_next b) xs f ys"
  "copyable s t xs f ((f, c) # ys) \<Longrightarrow> copyable s t xs (pb_next c) ys"
  by (auto simp: copyable_def)

lemma packet_pos: "packet xs \<Longrightarrow> xs \<noteq> [] \<Longrightarrow> 0 < length (pkt_data m xs)"
  unfolding length_pkt_data by (cases xs) (auto simp: unat_gt_0)

lemma copy_step:
  assumes c: "copyable s t ((t, b) # xs) f ((f, c) # ys)" and o: "unat ot < unat (pb_len b)" "unat off < unat (pb_len c)"
  defines "n \<equiv> min (unat (pb_len b) - unat ot) (unat (pb_len c) - unat off)"
  defines "m \<equiv> store (memory s) (payload b + unat ot) (take n (drop (unat off) (buf_data (memory s) c)))"
  defines "f' \<equiv> (if unat off + n = unat (pb_len c) then pb_next c else f)"
    and "off' \<equiv> (if unat off + n = unat (pb_len c) then 0 else off + of_nat n)"
    and "t' \<equiv> (if unat ot + n = unat (pb_len b) then pb_next b else t)"
    and "ot' \<equiv> (if unat ot + n = unat (pb_len b) then 0 else ot + of_nat n)"
  shows "t' \<noteq> 0 \<or> f' = 0 \<Longrightarrow> copy_loop t f ot off s =
    (if f' \<noteq> 0 then copy_loop t' f' ot' off' (s\<lparr>memory := m\<rparr>) else Some (ERR_OK, s\<lparr>memory := m\<rparr>))"
proof -
  assume room: "t' \<noteq> 0 \<or> f' = 0"
  have ch: "pbufs s t = Some b" "pbufs s f = Some c" "t \<noteq> 0" "f \<noteq> 0" "linked (pbufs s) (pb_next b) xs" "linked (pbufs s) (pb_next c) ys"
    "mapped (memory s) (payload b) (unat (pb_len b))" "mapped (memory s) (payload c) (unat (pb_len c))"
    using c by (auto simp: copyable_def)
  have sb: "unat (pb_len b - ot) = unat (pb_len b) - unat ot" "unat (pb_len c - off) = unat (pb_len c) - unat off"
    using o by (simp_all add: unat_sub word_le_nat_alt)
  define len where "len = (if pb_len b - ot \<ge> pb_len c - off then pb_len c - off else pb_len b - ot)"
  have len: "unat len = n" "len = of_nat n" using sb by (auto simp: len_def n_def word_le_nat_alt min_def simp flip: sb)
  have lt: "unat (ot + len) = unat ot + n" "unat (off + len) = unat off + n"
    using len(1) o unsigned_less[of "pb_len b", where 'a = nat] unsigned_less[of "pb_len c", where 'a = nat] n_def by (simp_all add: unat_word_ariths)
  have adv: "(off + len \<ge> pb_len c) = (unat off + n = unat (pb_len c))" "(ot + len = pb_len b) = (unat ot + n = unat (pb_len b))"
    using lt o n_def by (auto simp: word_le_nat_alt word_unat_eq_iff)
  have n: "unat off + n \<le> unat (pb_len c)" "unat ot + n \<le> unat (pb_len b)" using o n_def by simp_all
  define bs where "bs = take n (drop (unat off) (buf_data (memory s) c))"
  have rd: "read_mem (memory s) (payload c + unat off) n = Some bs"
    using read_mem_val[OF mapped_part[OF ch(8) n(1)]] data_at_part[OF n(1)] by (simp add: buf_data_def bs_def)
  have wr: "write_mem (memory s) (payload b + unat ot) bs = Some m"
    unfolding m_def bs_def[symmetric] by (rule write_mem_val) (use mapped_part[OF ch(7) n(2)] n(1) in \<open>simp add: bs_def min_absorb2\<close>)
  let ?s = "s\<lparr>memory := m\<rparr>"
  have pk: "packet ((t, b) # xs)" "packet xs" "packet ((f, c) # ys)" "packet ys" using c by (auto simp: copyable_def)
  have q: "ends_in_queue ?s f' = Some False" "ends_in_queue ?s t' = Some False"
    using packet_no_queue[of ?s f "(f, c) # ys"] packet_no_queue[of ?s "pb_next c" ys] packet_no_queue[of ?s t "(t, b) # xs"] packet_no_queue[of ?s "pb_next b" xs]
      pk ch by (auto simp: f'_def t'_def)
  have z: "ends_in_queue ?s 0 = Some False" by (simp add: ends_in_queue_def)
  have r: "pb_next b \<noteq> 0 \<or> f' = 0" if "unat ot + n = unat (pb_len b)" using room that by (simp add: t'_def)
  show ?thesis using q r ch(3,4)
    by (subst copy_loop.simps, cases "unat off + n = unat (pb_len c)"; cases "unat ot + n = unat (pb_len b)")
      (auto simp: z ch(1,2) len_def[symmetric] len(1) rd wr adv f'_def t'_def off'_def ot'_def len(2)[symmetric] Let_def)
qed

lemma splice:
  assumes "a + n \<le> length bx" "length bs = n"
  shows "take (a + n) ((take a bx @ bs @ drop (a + n) bx) @ rx) = take a bx @ bs"
    "drop (a + n + k) ((take a bx @ bs @ drop (a + n) bx) @ rx) = drop (a + n + k) (bx @ rx)"
proof -
  have "length (take a bx @ bs) = a + n" using assms by simp
  then show "take (a + n) ((take a bx @ bs @ drop (a + n) bx) @ rx) = take a bx @ bs"
    "drop (a + n + k) ((take a bx @ bs @ drop (a + n) bx) @ rx) = drop (a + n + k) (bx @ rx)"
    using assms by (simp_all add: append_assoc[symmetric] drop_append add_ac del: append_assoc)
qed

lemma copy_val:
  assumes "copyable s t xs f ys" "xs \<noteq> []" "ys \<noteq> []" "unat ot < unat (pb_len (snd (hd xs)))" "unat off < unat (pb_len (snd (hd ys)))"
    "length (pkt_data (memory s) ys) - unat off \<le> length (pkt_data (memory s) xs) - unat ot"
  shows "\<exists>m. copy_loop t f ot off s = Some (ERR_OK, s\<lparr>memory := m\<rparr>) \<and>
    pkt_data m xs = take (unat ot) (pkt_data (memory s) xs) @ drop (unat off) (pkt_data (memory s) ys) @
      drop (unat ot + (length (pkt_data (memory s) ys) - unat off)) (pkt_data (memory s) xs) \<and>
    (\<forall>x. x \<notin> footprint xs \<longrightarrow> m x = memory s x)"
  using assms
proof (induction "length xs + length ys" arbitrary: s t xs f ys ot off rule: less_induct)
  case less
  obtain b xs' where xs: "xs = (t, b) # xs'" using less.prems(1,2) by (cases xs) (auto simp: copyable_def)
  obtain c ys' where ys: "ys = (f, c) # ys'" using less.prems(1,3) by (cases ys) (auto simp: copyable_def)
  have o: "unat ot < unat (pb_len b)" "unat off < unat (pb_len c)" using less.prems(4,5) xs ys by simp_all
  define n where "n = min (unat (pb_len b) - unat ot) (unat (pb_len c) - unat off)"
  have n: "unat off + n \<le> unat (pb_len c)" "unat ot + n \<le> unat (pb_len b)" "unat off + n = unat (pb_len c) \<or> unat ot + n = unat (pb_len b)"
    using o unfolding n_def by linarith+
  define bs where "bs = take n (drop (unat off) (buf_data (memory s) c))"
  define m where "m = store (memory s) (payload b + unat ot) bs"
  let ?s = "s\<lparr>memory := m\<rparr>"
  have lb: "length bs = n" using o by (simp add: bs_def n_def)
  have fits: "unat ot + length bs \<le> unat (pb_len b)" using lb o n_def by simp
  note st = copyable_store[OF less.prems(1)[unfolded xs] fits, folded m_def, unfolded lb, folded xs]
  have ch: "t \<noteq> 0" "f \<noteq> 0" "linked (pbufs s) (pb_next b) xs'" "linked (pbufs s) (pb_next c) ys'" "packet xs'" "packet ys'" "area b \<inter> footprint xs' = {}"
    using less.prems(1) xs ys by (auto simp: copyable_def)
  have nx: "xs' \<noteq> [] \<longleftrightarrow> pb_next b \<noteq> 0" "ys' \<noteq> [] \<longleftrightarrow> pb_next c \<noteq> 0" using ch(3,4) by (cases xs', auto)(cases ys', auto)
  let ?X = "pkt_data (memory s) xs" and ?Y = "pkt_data (memory s) ys"
  let ?bx = "buf_data (memory s) b" and ?by = "buf_data (memory s) c" and ?rx = "pkt_data (memory s) xs'" and ?ry = "pkt_data (memory s) ys'"
  have X: "?X = ?bx @ ?rx" "?Y = ?by @ ?ry" using xs ys by simp_all
  let ?done = "\<lambda>r m. r = Some (ERR_OK, s\<lparr>memory := m\<rparr>) \<and>
    pkt_data m xs = take (unat ot) ?X @ drop (unat off) ?Y @ drop (unat ot + (length ?Y - unat off)) ?X \<and> (\<forall>x. x \<notin> footprint xs \<longrightarrow> m x = memory s x)"
  have nxt: "xs' \<noteq> [] \<Longrightarrow> 0 < unat (pb_len (snd (hd xs')))" "ys' \<noteq> [] \<Longrightarrow> 0 < unat (pb_len (snd (hd ys')))"
    using ch(5) ch(6) by (cases xs', auto simp: unat_gt_0)(cases ys', auto simp: unat_gt_0)
  have dat: "pkt_data m ys' = ?ry" "pkt_data m xs' = ?rx" using st(2,3) ys by simp_all
  have len: "length (pkt_data m xs) = length ?bx + length ?rx" using xs by (simp add: length_pkt_data)
  have "bs = take n (drop (unat off) ?Y)" using n(1) X(2) by (simp add: bs_def)
  then have spl: "drop (unat off) ?Y = bs @ drop (unat off + n) ?Y" using append_take_drop_id[of n "drop (unat off) ?Y"] by (simp add: add.commute)
  have fin: "pkt_data m' xs = take (unat ot) ?X @ drop (unat off) ?Y @ drop (unat ot + (length ?Y - unat off)) ?X \<and> (\<forall>x. x \<notin> footprint xs \<longrightarrow> m' x = memory s x)"
    if "unat ot + n = unat (pb_len b)" "pkt_data m' xs' = drop (unat off + n) ?Y @ drop (length ?Y - (unat off + n)) ?rx" "\<forall>x. x \<notin> footprint xs' \<longrightarrow> m' x = m x" for m'
  proof
    have "buf_data m' b = buf_data m b" by (rule buf_data_cong) (use that(3) ch(7) in blast)
    moreover have "unat ot + (length ?Y - unat off) = unat (pb_len b) + (length ?Y - (unat off + n))" using that(1) X(2) n o by simp
    ultimately show "pkt_data m' xs = take (unat ot) ?X @ drop (unat off) ?Y @ drop (unat ot + (length ?Y - unat off)) ?X"
      unfolding spl using st(4) that(1,2) xs by simp
  qed (use that(3) st(5) xs in simp)
  note step = copy_step[OF less.prems(1)[unfolded xs ys] o, folded n_def, folded bs_def, folded m_def]
  have fit: "length ?ry + (unat (pb_len c) - unat off) \<le> length ?rx + (unat (pb_len b) - unat ot)" using less.prems(6) X o by simp
  consider (from_done) "unat off + n = unat (pb_len c)" "ys' = []"
    | (from_on) "unat off + n = unat (pb_len c)" "ys' \<noteq> []" "unat ot + n < unat (pb_len b)"
    | (both_on) "unat off + n = unat (pb_len c)" "ys' \<noteq> []" "unat ot + n = unat (pb_len b)"
    | (to_on) "unat off + n < unat (pb_len c)" "unat ot + n = unat (pb_len b)"
    using n(3) n(1,2)[THEN le_imp_less_or_eq] by blast
  then show ?case
  proof cases
    case from_done
    have "copy_loop t f ot off s = Some (ERR_OK, ?s)" using step from_done nx(2) by simp
    moreover have "pkt_data m xs = take (unat ot) ?X @ drop (unat off) ?Y @ drop (unat ot + (length ?Y - unat off)) ?X"
    proof -
      have l: "length ?Y - unat off = n" using from_done X(2) by simp
      have "bs = drop (unat off) ?by" unfolding bs_def using from_done(1) by simp
      then show ?thesis unfolding l using st(3,4) X xs from_done(2) n(2) o by simp
    qed
    ultimately show ?thesis using st(5) by blast
  next
    case from_on
    have u: "unat (ot + of_nat n) = unat ot + n" using from_on(3) unsigned_less[of "pb_len b", where 'a = nat] by (simp add: unat_word_ariths take_bit_eq_mod unat_of_nat)
    have go: "copy_loop t f ot off s = copy_loop t (pb_next c) (ot + of_nat n) 0 ?s" using step from_on nx(2) ch by simp
    have l: "length ?Y - unat off = n + length ?ry" using from_on(1) X(2) by simp
    have bs: "bs = drop (unat off) ?by" unfolding bs_def using from_on(1) by simp
    have p: "unat (ot + of_nat n) < unat (pb_len (snd (hd xs)))" "unat (0 :: u16) < unat (pb_len (snd (hd ys')))"
      "length (pkt_data (memory ?s) ys') - unat (0 :: u16) \<le> length (pkt_data (memory ?s) xs) - unat (ot + of_nat n)"
      using u from_on fit nxt(2) xs dat len n(2) by simp_all
    have "length xs + length ys' < length xs + length ys" using ys by simp
    from less.hyps[OF this copyable_tl(2)[OF st(1)[unfolded ys]] less.prems(2) from_on(2) p]
    obtain m' where m': "copy_loop t f ot off s = Some (ERR_OK, s\<lparr>memory := m'\<rparr>)"
      "pkt_data m' xs = take (unat ot + n) (pkt_data m xs) @ ?ry @ drop (unat ot + n + length ?ry) (pkt_data m xs)" "\<forall>x. x \<notin> footprint xs \<longrightarrow> m' x = m x"
      using go by (auto simp: u dat)
    have "pkt_data m xs = (take (unat ot) ?bx @ bs @ drop (unat ot + n) ?bx) @ ?rx" using st(3,4) xs by simp
    then have "pkt_data m' xs = take (unat ot) ?X @ drop (unat off) ?Y @ drop (unat ot + (length ?Y - unat off)) ?X"
      unfolding l m'(2) using splice(1)[of "unat ot" n ?bx bs ?rx] splice(2)[of "unat ot" n ?bx bs "length ?ry" ?rx] n(2) lb o bs X by (simp add: add.assoc)
    then show ?thesis using m' st(5) by auto
  next
    case both_on
    have "0 < length ?rx" using fit both_on(1,3) packet_pos[OF ch(6) both_on(2), of "memory s"] by linarith
    then have xn: "xs' \<noteq> []" by auto
    have go: "copy_loop t f ot off s = copy_loop (pb_next b) (pb_next c) 0 0 ?s" using step both_on nx xn by simp
    have p: "unat (0 :: u16) < unat (pb_len (snd (hd xs')))" "unat (0 :: u16) < unat (pb_len (snd (hd ys')))"
      "length (pkt_data (memory ?s) ys') - unat (0 :: u16) \<le> length (pkt_data (memory ?s) xs') - unat (0 :: u16)"
      using both_on fit nxt xn dat by simp_all
    have "length xs' + length ys' < length xs + length ys" using xs ys by simp
    from less.hyps[OF this copyable_tl(2)[OF copyable_tl(1)[OF st(1)[unfolded xs ys]]] xn both_on(2) p]
    show ?thesis using go fin both_on by (auto simp: dat X)
  next
    case to_on
    have u: "unat (off + of_nat n) = unat off + n" using to_on(1) unsigned_less[of "pb_len c", where 'a = nat] by (simp add: unat_word_ariths take_bit_eq_mod unat_of_nat)
    have xn: "xs' \<noteq> []" using less.prems(6) to_on X by auto
    have go: "copy_loop t f ot off s = copy_loop (pb_next b) f 0 (off + of_nat n) ?s" using step to_on nx xn ch by simp
    have p: "unat (0 :: u16) < unat (pb_len (snd (hd xs')))" "unat (off + of_nat n) < unat (pb_len (snd (hd ys)))"
      "length (pkt_data (memory ?s) ys) - unat (off + of_nat n) \<le> length (pkt_data (memory ?s) xs') - unat (0 :: u16)"
      using u to_on less.prems(6) nxt(1) xn dat(2) st(2) X ys by simp_all
    have "length xs' + length ys < length xs + length ys" using xs by simp
    from less.hyps[OF this copyable_tl(1)[OF st(1)[unfolded xs]] xn less.prems(3) p]
    show ?thesis using go fin to_on by (auto simp: dat st(2) u)
  qed
qed

lemma copy_exact:
  assumes "copyable s t xs f ys" "t \<noteq> 0" "f \<noteq> 0"
  shows "if length (pkt_data (memory s) xs) < length (pkt_data (memory s) ys) then pbuf_copy t f s = Some (ERR_ARG, s)
    else \<exists>m. pbuf_copy t f s = Some (ERR_OK, s\<lparr>memory := m\<rparr>) \<and>
      pkt_data m xs = pkt_data (memory s) ys @ drop (length (pkt_data (memory s) ys)) (pkt_data (memory s) xs) \<and> (\<forall>x. x \<notin> footprint xs \<longrightarrow> m x = memory s x)"
proof -
  obtain b xs' where xs: "xs = (t, b) # xs'" "pbufs s t = Some b" "unat (tot_len b) = length (pkt_data (memory s) xs)" "0 < unat (pb_len b)"
    using assms by (cases xs) (auto simp: copyable_def length_pkt_data unat_gt_0)
  obtain c ys' where ys: "ys = (f, c) # ys'" "pbufs s f = Some c" "unat (tot_len c) = length (pkt_data (memory s) ys)" "0 < unat (pb_len c)"
    using assms by (cases ys) (auto simp: copyable_def length_pkt_data unat_gt_0)
  have le: "tot_len b \<ge> tot_len c \<longleftrightarrow> \<not> length (pkt_data (memory s) xs) < length (pkt_data (memory s) ys)" using xs(3) ys(3) by (simp add: word_le_nat_alt not_less)
  show ?thesis
  proof (cases "tot_len b \<ge> tot_len c")
    case True
    have "pbuf_copy t f s = copy_loop t f 0 0 s" using True xs(2) ys(2) assms(2,3) by (simp add: pbuf_copy_def)
    then show ?thesis using copy_val[OF assms(1), of 0 0] True le xs(1,4) ys(1,4) by simp
  next
    case False
    then show ?thesis using le xs(2) ys(2) assms(2,3) by (simp add: pbuf_copy_def)
  qed
qed

section \<open>Properties\<close>

text \<open>
  C19. \<^verbatim>\<open>pbuf_copy_partial\<close> returns, and copies exactly the bytes of the packet from the offset on, up to the length that was asked for or the end of the packet, to the start of the caller's buffer, of which
  it leaves the rest alone; it returns their number. How the packet is cut into buffers does not matter.
\<close>

theorem pbuf_copy_partial_exact:
  assumes "linked (pbufs s) p xs" "pkt_mapped (memory s) xs" "unat len \<le> length dst"
  shows "pbuf_copy_partial p dst len offset s =
    (let part = take (unat len) (drop (unat offset) (pkt_data (memory s) xs)) in Some (length part, part @ drop (length part) dst))"
proof (cases "p = 0")
  case True
  then have "xs = []" using assms(1) by (cases xs) auto
  then show ?thesis using True by (simp add: pbuf_copy_partial_def)
next
  case False
  then show ?thesis using copy_partial_val[OF assms(1,2), of 0 len dst offset] assms(3) by (simp add: pbuf_copy_partial_def Let_def)
qed

text \<open>
  C20. \<^verbatim>\<open>pbuf_take\<close> refuses data longer than the packet and changes nothing; otherwise it returns \<^verbatim>\<open>ERR_OK\<close>, the first bytes of the packet are then the data, the others are as before, and no byte outside the
  payloads has changed.
\<close>

theorem pbuf_take_exact:
  assumes "linked (pbufs s) p xs" "p \<noteq> 0" "pkt_mapped (memory s) xs" "separate xs" "unat len \<le> length dataptr"
    "unat (tot_len (snd (hd xs))) = length (pkt_data (memory s) xs)"
  shows "if length (pkt_data (memory s) xs) < unat len then pbuf_take p dataptr len s = Some (ERR_ARG, s)
    else \<exists>m. pbuf_take p dataptr len s = Some (ERR_OK, s\<lparr>memory := m\<rparr>) \<and>
      pkt_data m xs = take (unat len) dataptr @ drop (unat len) (pkt_data (memory s) xs) \<and> (\<forall>x. x \<notin> footprint xs \<longrightarrow> m x = memory s x)"
proof -
  obtain b ys where xs: "xs = (p, b) # ys" "pbufs s p = Some b" using assms(1,2) by (cases xs) auto
  have lt: "tot_len b < len \<longleftrightarrow> length (pkt_data (memory s) xs) < unat len" using assms(6) xs by (simp add: word_less_nat_alt)
  show ?thesis
  proof (cases "tot_len b < len")
    case True
    then show ?thesis using lt xs(2) assms(2) by (simp add: pbuf_take_def)
  next
    case False
    then have "unat len \<le> length (pkt_data (memory s) xs)" using lt by simp
    then obtain m where m: "take_loop p dataptr len 0 s = Some (s\<lparr>memory := m\<rparr>)"
      "pkt_data m xs = take (unat len) dataptr @ drop (unat len) (pkt_data (memory s) xs)" "\<forall>x. x \<notin> footprint xs \<longrightarrow> m x = memory s x"
      using take_val[OF assms(1,3,4), of len 0 dataptr] assms(5) by auto
    have "pbuf_take p dataptr len s = Some (ERR_OK, s\<lparr>memory := m\<rparr>)" using False xs(2) assms(2) m(1) by (simp add: pbuf_take_def)
    moreover have "\<not> length (pkt_data (memory s) xs) < unat len" using False lt by blast
    ultimately show ?thesis using m(2,3) by auto
  qed
qed

text \<open>
  C18. \<^verbatim>\<open>pbuf_copy\<close> between two packets, cut into buffers in any way, refuses a target that is too short; otherwise it returns, and the target begins with the bytes of the source, keeps its own behind them, and
  no byte outside the target has changed.
\<close>

theorem pbuf_copy_exact:
  assumes "copyable s t xs f ys" "t \<noteq> 0" "f \<noteq> 0"
  shows "if length (pkt_data (memory s) xs) < length (pkt_data (memory s) ys) then pbuf_copy t f s = Some (ERR_ARG, s)
    else \<exists>m. pbuf_copy t f s = Some (ERR_OK, s\<lparr>memory := m\<rparr>) \<and>
      pkt_data m xs = pkt_data (memory s) ys @ drop (length (pkt_data (memory s) ys)) (pkt_data (memory s) xs) \<and> (\<forall>x. x \<notin> footprint xs \<longrightarrow> m x = memory s x)"
  by (rule copy_exact[OF assms])

text \<open>Two packets for the witnesses: one of two buffers, one of three.\<close>

definition buf_ex :: "nat \<Rightarrow> nat \<Rightarrow> u16 \<Rightarrow> u16 \<Rightarrow> pbuf" where
  "buf_ex n a tot len = \<lparr>pb_next = n, payload = a, tot_len = tot, pb_len = len, pb_type = PBUF_POOL, pb_flags = 0, pb_ref = 1\<rparr>"

definition pkt_a :: "(nat \<times> pbuf) list" where
  "pkt_a = [(Suc 0, buf_ex 2 10 5 2), (2, buf_ex 0 20 3 3)]"

definition pkt_b :: "(nat \<times> pbuf) list" where
  "pkt_b = [(3, buf_ex 4 30 4 1), (4, buf_ex 5 40 3 2), (5, buf_ex 0 50 1 1)]"

definition state_ex :: pbuf_state where
  "state_ex = \<lparr>pools = \<lparr>memp_tab = replicate 16 0, memp_next = Map.empty\<rparr>, pbufs = map_of (pkt_a @ pkt_b), memory = (\<lambda>a. if a < 100 then Some (of_nat a) else None),
     heap_freed = [], custom_freed = [], ooseq_pending = False, ooseq_calls = 0\<rparr>"

lemmas ex_defs = state_ex_def pkt_a_def pkt_b_def buf_ex_def

lemma state_ex_ok:
  "linked (pbufs state_ex) 1 pkt_a" "linked (pbufs state_ex) 3 pkt_b" "pkt_mapped (memory state_ex) pkt_a" "pkt_mapped (memory state_ex) pkt_b"
  "separate pkt_a" "packet pkt_a" "packet pkt_b" "footprint pkt_a \<inter> footprint pkt_b = {}"
  "pkt_data (memory state_ex) pkt_a = [10, 11, 20, 21, 22]" "pkt_data (memory state_ex) pkt_b = [30, 40, 41, 50]"
  by (auto simp: ex_defs mapped_def area_def buf_data_def data_at_def upt_rec)

lemma state_ex_copyable: "copyable state_ex 1 pkt_a 3 pkt_b"
  using state_ex_ok by (simp add: copyable_def)

theorem pbuf_copy_partial_exact_witness: "pbuf_copy_partial 1 [0, 0, 0, 0, 0] 3 1 state_ex = Some (3, [11, 20, 21, 0, 0])"
  using pbuf_copy_partial_exact[OF state_ex_ok(1,3), of 3 "[0, 0, 0, 0, 0]" 1] unfolding state_ex_ok(9) by simp

theorem pbuf_take_exact_witness:
  "\<exists>m. pbuf_take 1 [1, 2, 3] 3 state_ex = Some (ERR_OK, state_ex\<lparr>memory := m\<rparr>) \<and> pkt_data m pkt_a = [1, 2, 3, 21, 22]"
proof -
  have t: "unat (tot_len (snd (hd pkt_a))) = length (pkt_data (memory state_ex) pkt_a)" unfolding state_ex_ok(9) by (simp add: ex_defs)
  show ?thesis using pbuf_take_exact[OF state_ex_ok(1) one_neq_zero state_ex_ok(3,5) _ t, of 3 "[1, 2, 3]"] unfolding state_ex_ok(9) by auto
qed

theorem pbuf_copy_exact_witness:
  "\<exists>m. pbuf_copy 1 3 state_ex = Some (ERR_OK, state_ex\<lparr>memory := m\<rparr>) \<and> pkt_data m pkt_a = [30, 40, 41, 50, 22]"
  using pbuf_copy_exact[OF state_ex_copyable] unfolding state_ex_ok(9,10) by auto

end
