(* ===== verification/Lwip_Pbuf_Find.thy ===== *)
theory Lwip_Pbuf_Find
  imports Lwip_Pbuf_Data
begin

text \<open>
  Reading single bytes of a packet, comparing and searching (\<^verbatim>\<open>pbuf_get_at\<close>, \<^verbatim>\<open>pbuf_memcmp\<close>, \<^verbatim>\<open>pbuf_memfind\<close>), against the same operations on the list of its bytes.
\<close>

section \<open>Bytes by their offset\<close>

lemma seek_val:
  assumes "linked (pbufs s) p xs"
  shows "if unat n < length (pkt_data m xs)
    then \<exists>q k b ys zs. seek_loop s p n = Some (q, k) \<and> xs = ys @ (q, b) # zs \<and> unat k < unat (pb_len b) \<and> unat n = length (pkt_data m ys) + unat k \<and>
      linked (pbufs s) q ((q, b) # zs)
    else \<exists>k. seek_loop s p n = Some (0, k)"
  using assms
proof (induction xs arbitrary: p n)
  case Nil
  then show ?case by (subst seek_loop.simps) simp
next
  case (Cons x xs)
  obtain b where x: "x = (p, b)" "p \<noteq> 0" "pbufs s p = Some b" "linked (pbufs s) (pb_next b) xs" using Cons.prems by (cases x) auto
  show ?case
  proof (cases "pb_len b \<le> n")
    case True
    then have u: "unat (n - pb_len b) = unat n - unat (pb_len b)" "unat (pb_len b) \<le> unat n" by (simp_all add: unat_sub word_le_nat_alt)
    have st: "seek_loop s p n = seek_loop s (pb_next b) (n - pb_len b)" using True x by (subst seek_loop.simps) simp
    show ?thesis
    proof (cases "unat n < length (pkt_data m (x # xs))")
      case lt: True
      then obtain q k c ys zs where "seek_loop s p n = Some (q, k)" "xs = ys @ (q, c) # zs" "unat k < unat (pb_len c)"
        "unat (n - pb_len b) = length (pkt_data m ys) + unat k" "linked (pbufs s) q ((q, c) # zs)"
        using Cons.IH[OF x(4), of "n - pb_len b"] st x(1) u by (auto split: if_splits)
      then have "seek_loop s p n = Some (q, k) \<and> x # xs = (x # ys) @ (q, c) # zs \<and> unat k < unat (pb_len c) \<and>
        unat n = length (pkt_data m (x # ys)) + unat k \<and> linked (pbufs s) q ((q, c) # zs)" using x(1) u by simp
      then show ?thesis using lt by (simp only: if_True) blast
    next
      case False
      then show ?thesis using Cons.IH[OF x(4), of "n - pb_len b"] st x(1) u by (auto split: if_splits)
    qed
  next
    case False
    then have lt: "unat n < unat (pb_len b)" by (simp add: word_le_nat_alt)
    have "seek_loop s p n = Some (p, n) \<and> x # xs = [] @ (p, b) # xs \<and> unat n < unat (pb_len b) \<and> unat n = length (pkt_data m []) + unat n \<and> linked (pbufs s) p ((p, b) # xs)"
      using False x lt by (subst seek_loop.simps) simp
    moreover have "unat n < length (pkt_data m (x # xs))" using lt x by simp
    ultimately show ?thesis by (simp only: if_True) blast
  qed
qed

lemma get_at_exact:
  assumes "linked (pbufs s) p xs" "pkt_mapped (memory s) xs"
  shows "pbuf_get_at p offset s = Some (if unat offset < length (pkt_data (memory s) xs) then pkt_data (memory s) xs ! unat offset else 0)"
proof (cases "unat offset < length (pkt_data (memory s) xs)")
  case True
  then obtain q k b ys zs where *: "seek_loop s p offset = Some (q, k)" "xs = ys @ (q, b) # zs" "unat k < unat (pb_len b)"
    "unat offset = length (pkt_data (memory s) ys) + unat k" "linked (pbufs s) q ((q, b) # zs)"
    using seek_val[OF assms(1), of offset "memory s"] by auto
  have "mapped (memory s) (payload b) (unat (pb_len b))" using assms(2) *(2) by (simp add: pkt_mapped_append)
  then have "memory s (payload b + unat k) = Some (buf_data (memory s) b ! unat k)" using *(3) by (auto simp: mapped_def buf_data_def)
  moreover have "pkt_data (memory s) xs ! unat offset = buf_data (memory s) b ! unat k" using *(2,3,4) by (simp add: pkt_data_append nth_append)
  ultimately show ?thesis using True * by (simp add: pbuf_get_at_def)
next
  case False
  then obtain k where "seek_loop s p offset = Some (0, k)" using seek_val[OF assms(1), of offset "memory s"] by auto
  then show ?thesis using False by (simp add: pbuf_get_at_def)
qed

section \<open>Comparing\<close>

text \<open>How many bytes agree.\<close>

definition common :: "u8 list \<Rightarrow> u8 list \<Rightarrow> nat" where
  "common xs ys = length (takeWhile (\<lambda>(x, y). x = y) (zip xs ys))"

lemma common_le: "common xs ys \<le> length xs" "common xs ys \<le> length ys"
  unfolding common_def using length_takeWhile_le[of "\<lambda>(x, y). x = y" "zip xs ys"] by auto

lemma common_Nil [simp]: "common xs [] = 0"
  by (simp add: common_def)

lemma common_Cons: "common (x # xs) (y # ys) = (if x = y then Suc (common xs ys) else 0)"
  by (simp add: common_def)

lemma common_all: "length ys \<le> length xs \<Longrightarrow> common xs ys = length ys \<longleftrightarrow> take (length ys) xs = ys"
  by (induction ys arbitrary: xs) (auto simp: common_Cons Suc_le_length_iff split: if_splits)

lemma memcmp_val:
  assumes "linked (pbufs s) q xs" "pkt_mapped (memory s) xs" "unat start + i + length s2 \<le> length (pkt_data (memory s) xs)"
    "length (pkt_data (memory s) xs) < 65536"
  shows "memcmp_loop s q start i s2 =
    (let c = common (drop (unat start + i) (pkt_data (memory s) xs)) s2 in Some (if c = length s2 then 0 else of_nat (i + c + 1)))"
  using assms(3)
proof (induction s2 arbitrary: i)
  case (Cons b s2)
  let ?D = "pkt_data (memory s) xs"
  have u: "unat (start + of_nat i) = unat start + i" using Cons.prems assms(4) by (simp add: unat_word_ariths take_bit_eq_mod unat_of_nat)
  have d: "drop (unat start + i) ?D = ?D ! (unat start + i) # drop (unat start + (i + 1)) ?D" using Cons.prems by (simp add: Cons_nth_drop_Suc)
  show ?case using Cons.IH[of "i + 1"] Cons.prems get_at_exact[OF assms(1,2), of "start + of_nat i"] u unfolding d by (simp add: common_Cons Let_def add_ac)
qed simp

lemma memcmp_exact:
  assumes "linked (pbufs s) p xs" "pkt_mapped (memory s) xs" "unat offset + length s2 \<le> length (pkt_data (memory s) xs)" "s2 \<noteq> []"
    "length (pkt_data (memory s) xs) < 65536"
  shows "pbuf_memcmp p offset s2 s =
    (let c = common (drop (unat offset) (pkt_data (memory s) xs)) s2 in Some (if c = length s2 then 0 else of_nat (c + 1)))"
proof -
  have "unat offset < length (pkt_data (memory s) xs)" using assms(3,4) by (cases s2) auto
  then obtain q k b ys zs where *: "seek_loop s p offset = Some (q, k)" "xs = ys @ (q, b) # zs" "unat k < unat (pb_len b)"
    "unat offset = length (pkt_data (memory s) ys) + unat k" "linked (pbufs s) q ((q, b) # zs)"
    using seek_val[OF assms(1), of offset "memory s"] by auto
  have "pkt_mapped (memory s) ((q, b) # zs)" using assms(2) *(2) by (simp only: pkt_mapped_append)
  moreover have "length (pkt_data (memory s) xs) = length (pkt_data (memory s) ys) + length (pkt_data (memory s) ((q, b) # zs))"
    using *(2) by (simp add: pkt_data_append)
  moreover have "drop (unat offset) (pkt_data (memory s) xs) = drop (unat k) (pkt_data (memory s) ((q, b) # zs))"
    using *(2,4) by (simp add: pkt_data_append)
  ultimately show ?thesis using memcmp_val[OF *(5), of k 0 s2] *(1,4,5) assms(3,5) by (simp add: pbuf_memcmp_def Let_def del: pkt_simps)
qed

section \<open>Searching\<close>

text \<open>The search on the list of the bytes: after a mismatch it goes on behind the byte that differs.\<close>

function find_skip :: "u8 list \<Rightarrow> u8 list \<Rightarrow> nat \<Rightarrow> nat option" where
  "find_skip xs pat i =
     (if i + length pat \<le> length xs
      then (let c = common (drop i xs) pat in if c = length pat then Some i else find_skip xs pat (i + c + 1))
      else None)"
  by pat_completeness auto
termination by (relation "measure (\<lambda>(xs, pat, i). Suc (length xs) - i)") auto

declare find_skip.simps [simp del]

lemma memfind_val:
  assumes "linked (pbufs s) p xs" "pkt_mapped (memory s) xs" "length (pkt_data (memory s) xs) < 65536" "pat \<noteq> []"
    "length pat \<le> length (pkt_data (memory s) xs)" "unat mx = length (pkt_data (memory s) xs) - length pat"
  shows "memfind_loop s p pat mx i = Some (case find_skip (pkt_data (memory s) xs) pat (unat i) of Some j \<Rightarrow> of_nat j | None \<Rightarrow> 0xFFFF)"
proof (induction "Suc (length (pkt_data (memory s) xs)) - unat i" arbitrary: i rule: less_induct)
  case less
  let ?D = "pkt_data (memory s) xs"
  have le: "i \<le> mx \<longleftrightarrow> unat i + length pat \<le> length ?D" using assms(5,6) by (simp add: word_le_nat_alt le_diff_conv2)
  show ?case
  proof (cases "i \<le> mx")
    case True
    define c where "c = common (drop (unat i) ?D) pat"
    have fit: "unat i + length pat \<le> length ?D" using True le by blast
    have cmp: "pbuf_memcmp p i pat s = Some (if c = length pat then 0 else of_nat (c + 1))"
      using memcmp_exact[OF assms(1,2) fit assms(4,3)] by (simp add: c_def Let_def)
    have cl: "c \<le> length pat" unfolding c_def by (rule common_le)
    show ?thesis
    proof (cases "c = length pat")
      case c: True
      have "find_skip ?D pat (unat i) = Some (unat i)" using fit c by (subst find_skip.simps) (simp add: c_def Let_def)
      then show ?thesis using True cmp c by (subst memfind_loop.simps) simp
    next
      case c: False
      then have b: "c + 1 < 65536" "unat i + (c + 1) < 65536" "unat i + (c + 1) \<le> length ?D" using cl fit assms(3) by linarith+
      have u: "unat (of_nat (c + 1) :: u16) = c + 1" using b(1) by (simp add: unat_of_nat take_bit_eq_mod del: of_nat_add of_nat_Suc)
      then have nz: "(of_nat (c + 1) :: u16) \<noteq> 0" by (metis add_is_0 unat_0 zero_neq_one)
      have ui: "unat (i + of_nat (c + 1)) = unat i + c + 1" using u b(2) by (simp add: unat_add_lem[THEN iffD1])
      have "memfind_loop s p pat mx i = memfind_loop s p pat mx (i + of_nat (c + 1))" using True cmp c nz by (subst memfind_loop.simps) simp
      also have "\<dots> = Some (case find_skip ?D pat (unat i + c + 1) of Some j \<Rightarrow> of_nat j | None \<Rightarrow> 0xFFFF)"
        using less[of "i + of_nat (c + 1)"] ui b(3) by simp
      also have "find_skip ?D pat (unat i + c + 1) = find_skip ?D pat (unat i)" using fit c by (subst (2) find_skip.simps) (simp add: c_def Let_def)
      finally show ?thesis .
    qed
  next
    case False
    then have "find_skip ?D pat (unat i) = None" using le by (subst find_skip.simps) simp
    then show ?thesis using False by (subst memfind_loop.simps) simp
  qed
qed

lemma find_skip_sound: "find_skip xs pat i = Some j \<Longrightarrow> i \<le> j \<and> j + length pat \<le> length xs \<and> take (length pat) (drop j xs) = pat"
proof (induction xs pat i rule: find_skip.induct)
  case (1 xs pat i)
  then show ?case using common_all[of pat "drop i xs"] by (subst (asm) (2) find_skip.simps) (auto simp: Let_def split: if_splits)
qed

text \<open>The first place with the first byte of the pattern is never skipped.\<close>

lemma find_skip_first:
  assumes "take (length pat) (drop j xs) = pat" "pat \<noteq> []" "j + length pat \<le> length xs"
  shows "i \<le> j \<Longrightarrow> \<forall>k. i \<le> k \<and> k < j \<longrightarrow> xs ! k \<noteq> hd pat \<Longrightarrow> find_skip xs pat i = Some j"
proof (induction "j - i" arbitrary: i)
  case 0
  then have "i = j" by simp
  then show ?case using assms common_all[of pat "drop j xs"] by (subst find_skip.simps) simp
next
  case (Suc n)
  then have lt: "i < j" by simp
  have "xs ! i \<noteq> hd pat" using Suc.prems(2) lt by blast
  moreover have "drop i xs = xs ! i # drop (Suc i) xs" using lt assms(2,3) by (simp add: Cons_nth_drop_Suc)
  ultimately have "common (drop i xs) pat = 0" using assms(2) by (cases pat) (simp_all add: common_Cons)
  then have "find_skip xs pat i = find_skip xs pat (Suc i)" using lt assms(2,3) by (subst find_skip.simps) (simp add: Let_def)
  then show ?case using Suc.hyps(1)[of "Suc i"] Suc.hyps(2) Suc.prems lt by simp
qed

lemma memfind_exact:
  assumes "linked (pbufs s) p xs" "pkt_mapped (memory s) xs" "p \<noteq> 0" "unat (tot_len (snd (hd xs))) = length (pkt_data (memory s) xs)" "pat \<noteq> []"
  shows "pbuf_memfind p pat start s = Some (case find_skip (pkt_data (memory s) xs) pat (unat start) of Some j \<Rightarrow> of_nat j | None \<Rightarrow> 0xFFFF)"
proof -
  let ?D = "pkt_data (memory s) xs"
  obtain b ys where xs: "xs = (p, b) # ys" "pbufs s p = Some b" using assms(1,3) by (cases xs) auto
  then have b: "unat (tot_len b) = length ?D" using assms(4) by simp
  have l: "length ?D < 65536" using b unsigned_less[of "tot_len b", where 'a = nat] by simp
  show ?thesis
  proof (cases "unat (tot_len b) \<ge> length pat + unat start")
    case True
    then have fit: "length pat \<le> length ?D" using b by linarith
    have "unat (of_nat (length pat) :: u16) = length pat" using fit l by (simp add: unat_of_nat take_bit_eq_mod)
    then have "unat (tot_len b - of_nat (length pat)) = length ?D - length pat" using fit b by (simp add: unat_sub word_le_nat_alt)
    then show ?thesis using memfind_val[OF assms(1,2) l assms(5) fit] True xs(2) by (simp add: pbuf_memfind_def)
  next
    case False
    then have "find_skip ?D pat (unat start) = None" using b by (subst find_skip.simps) simp
    then show ?thesis using False xs(2) by (simp add: pbuf_memfind_def)
  qed
qed

section \<open>Properties\<close>

text \<open>
  C23. \<^verbatim>\<open>pbuf_memfind\<close> returns on every packet, for every pattern and every start: what it reports is an occurrence of the pattern in the packet, not before the start; and if the first byte from the start on that
  equals the first of the pattern begins an occurrence, it reports that one.
\<close>

theorem pbuf_memfind_sound:
  assumes "linked (pbufs s) p xs" "pkt_mapped (memory s) xs" "p \<noteq> 0" "unat (tot_len (snd (hd xs))) = length (pkt_data (memory s) xs)" "pat \<noteq> []"
  defines "D \<equiv> pkt_data (memory s) xs"
  shows "\<exists>r. pbuf_memfind p pat start s = Some r \<and>
    (r \<noteq> 0xFFFF \<longrightarrow> start \<le> r \<and> unat r + length pat \<le> length D \<and> take (length pat) (drop (unat r) D) = pat) \<and>
    (\<forall>j. unat start \<le> j \<and> j + length pat \<le> length D \<and> take (length pat) (drop j D) = pat \<and> (\<forall>k. unat start \<le> k \<and> k < j \<longrightarrow> D ! k \<noteq> hd pat) \<longrightarrow>
      unat r = j)"
proof -
  have l: "length D < 65536" using assms(4) unsigned_less[of "tot_len (snd (hd xs))", where 'a = nat] by (simp add: D_def)
  have small: "unat (of_nat j :: u16) = j" if "j + length pat \<le> length D" for j using that l by (simp add: unat_of_nat take_bit_eq_mod)
  note run = memfind_exact[OF assms(1-5), of start, folded D_def]
  show ?thesis
  proof (cases "find_skip D pat (unat start)")
    case None
    then show ?thesis using run find_skip_first[of pat _ D "unat start"] assms(5) by auto
  next
    case (Some j)
    note j = find_skip_sound[OF Some]
    then have u: "unat (of_nat j :: u16) = j" using small by blast
    have "unat (of_nat j :: u16) = i" if "unat start \<le> i \<and> i + length pat \<le> length D \<and> take (length pat) (drop i D) = pat \<and> (\<forall>k. unat start \<le> k \<and> k < i \<longrightarrow> D ! k \<noteq> hd pat)" for i
      using find_skip_first[of pat i D "unat start"] that assms(5) Some u by auto
    moreover have "start \<le> of_nat j" using j u by (simp add: word_le_nat_alt)
    moreover have "pbuf_memfind p pat start s = Some (of_nat j)" using run Some by simp
    moreover have "unat (of_nat j :: u16) + length pat \<le> length D" "take (length pat) (drop (unat (of_nat j :: u16)) D) = pat" unfolding u using j by simp_all
    ultimately show ?thesis by (intro exI[of _ "of_nat j"]) blast
  qed
qed

text \<open>
  \<^verbatim>\<open>pbuf_memfind\<close> misses occurrences: after a mismatch it goes on behind the byte that differed, although that byte may begin an occurrence. In \<open>aab\<close> it does not find \<open>ab\<close>.
\<close>

theorem pbuf_memfind_misses:
  assumes "linked (pbufs s) p xs" "pkt_mapped (memory s) xs" "p \<noteq> 0" "unat (tot_len (snd (hd xs))) = length (pkt_data (memory s) xs)"
    "pkt_data (memory s) xs = [a, a, b]" "a \<noteq> b"
  shows "pbuf_memfind p [a, b] 0 s = Some 0xFFFF \<and> take 2 (drop 1 (pkt_data (memory s) xs)) = [a, b]"
proof -
  have "find_skip [a, a, b] [a, b] 0 = None" using assms(6) by (subst find_skip.simps, simp add: common_Cons Let_def) (subst find_skip.simps, simp)
  then show ?thesis using memfind_exact[OF assms(1-4), of "[a, b]" 0] assms(5) by simp
qed

theorem pbuf_memfind_sound_witness:
  "\<exists>r. pbuf_memfind 1 [20, 21] 0 state_ex = Some r \<and> unat r = 2"
proof -
  let ?D = "[10, 11, 20, 21, 22] :: u8 list" and ?p = "[20, 21] :: u8 list"
  have t: "unat (tot_len (snd (hd pkt_a))) = length (pkt_data (memory state_ex) pkt_a)" unfolding state_ex_ok(9) by (simp add: ex_defs)
  have ne: "?p \<noteq> []" by simp
  from pbuf_memfind_sound[OF state_ex_ok(1,3) one_neq_zero t ne, of 0, unfolded state_ex_ok(9)]
  obtain r where r: "pbuf_memfind 1 ?p 0 state_ex = Some r \<and> (r \<noteq> 0xFFFF \<longrightarrow> 0 \<le> r \<and> unat r + length ?p \<le> length ?D \<and> take (length ?p) (drop (unat r) ?D) = ?p) \<and>
    (\<forall>j. unat (0 :: u16) \<le> j \<and> j + length ?p \<le> length ?D \<and> take (length ?p) (drop j ?D) = ?p \<and> (\<forall>k. unat (0 :: u16) \<le> k \<and> k < j \<longrightarrow> ?D ! k \<noteq> hd ?p) \<longrightarrow> unat r = j)"
    by (rule exE)
  have "\<forall>k < 2. [10 :: u8, 11, 20, 21, 22] ! k \<noteq> 20" by (auto simp: less_2_cases_iff)
  then show ?thesis using r[THEN conjunct1] r[THEN conjunct2, THEN conjunct2, rule_format, of 2] by auto
qed

definition pkt_c :: "(nat \<times> pbuf) list" where
  "pkt_c = [(6, buf_ex 7 70 3 1), (7, buf_ex 0 70 2 2)]"

theorem pbuf_memfind_misses_witness:
  "pbuf_memfind 6 [70, 71] 0 (state_ex\<lparr>pbufs := map_of pkt_c\<rparr>) = Some 0xFFFF"
proof -
  let ?s = "state_ex\<lparr>pbufs := map_of pkt_c\<rparr>"
  have c: "linked (pbufs ?s) 6 pkt_c" "pkt_mapped (memory ?s) pkt_c" "(6 :: nat) \<noteq> 0" "pkt_data (memory ?s) pkt_c = [70, 70, 71]" "(70 :: u8) \<noteq> 71"
    by (auto simp: pkt_c_def ex_defs mapped_def buf_data_def data_at_def upt_rec)
  have t: "unat (tot_len (snd (hd pkt_c))) = length (pkt_data (memory ?s) pkt_c)" unfolding c(4) by (simp add: pkt_c_def ex_defs)
  show ?thesis using pbuf_memfind_misses[OF c(1-3) t c(4,5)] by blast
qed

end
