(* ===== verification/Lwip_Pbuf_Ref.thy ===== *)
theory Lwip_Pbuf_Ref
  imports Lwip_Pbuf_Data
begin

text \<open>
  The reference counts of packet buffers. \<open>refs_ok\<close> says that every live buffer is counted exactly: once for each reference that the program holds and once for each buffer whose \<^verbatim>\<open>next\<close> points to it,
  and that following \<^verbatim>\<open>next\<close> ends. Every routine that changes references keeps this, whatever the order of the calls, so no buffer is used or freed after it is gone, and none is lost.
\<close>

section \<open>Chains\<close>

lemma linked_unique: "linked m p xs \<Longrightarrow> linked m p ys \<Longrightarrow> xs = ys"
proof (induction xs arbitrary: p ys)
  case Nil
  then show ?case by (cases ys) auto
next
  case (Cons x xs)
  then show ?case by (cases x; cases ys) auto
qed

lemma linked_live: "linked m p xs \<Longrightarrow> (q, b) \<in> set xs \<Longrightarrow> m q = Some b \<and> q \<noteq> 0"
  by (induction xs arbitrary: p) auto

lemma linked_cong: "\<forall>(q, b) \<in> set xs. m' q = m q \<Longrightarrow> linked m' p xs = linked m p xs"
  by (induction xs arbitrary: p) auto

lemma linked_suffix: "linked m p (as @ (q, b) # bs) \<Longrightarrow> linked m q ((q, b) # bs)"
  by (induction as arbitrary: p) auto

lemma linked_distinct: "linked m p xs \<Longrightarrow> distinct (map fst xs)"
proof (induction xs arbitrary: p)
  case (Cons x xs)
  obtain q b where x: "x = (q, b)" by fastforce
  have "q \<notin> fst ` set xs"
  proof
    assume "q \<in> fst ` set xs"
    then obtain c as bs where s: "xs = as @ (q, c) # bs" by (auto dest: split_list)
    then have "linked m q ((q, c) # bs)" using Cons.prems x by (auto dest: linked_suffix)
    then show False using linked_unique[OF Cons.prems[unfolded x], of "(q, c) # bs"] s Cons.prems x by simp
  qed
  then show ?case using Cons x by auto
qed simp

section \<open>Counting references\<close>

definition preds :: "(nat \<Rightarrow> pbuf option) \<Rightarrow> nat \<Rightarrow> nat set" where
  "preds m q = {r. \<exists>c. m r = Some c \<and> pb_next c = q}"

definition refs_ok :: "(nat \<Rightarrow> pbuf option) \<Rightarrow> nat multiset \<Rightarrow> bool" where
  "refs_ok m H \<longleftrightarrow> finite (dom m) \<and> 0 \<notin> dom m \<and> set_mset H \<subseteq> dom m \<and> (\<forall>q \<in> dom m. \<exists>xs. linked m q xs) \<and>
     (\<forall>q b. m q = Some b \<longrightarrow> unat (pb_ref b) = count H q + card (preds m q) \<and> pb_ref b \<noteq> 0)"

lemma refs_okD:
  assumes "refs_ok m H"
  shows "finite (dom m)" "m 0 = None" "q \<in># H \<Longrightarrow> \<exists>b. m q = Some b" "m q = Some b \<Longrightarrow> \<exists>xs. linked m q xs" "finite (preds m q)"
    "m q = Some b \<Longrightarrow> unat (pb_ref b) = count H q + card (preds m q)" "m q = Some b \<Longrightarrow> pb_ref b \<noteq> 0"
proof -
  show f: "finite (dom m)" using assms by (simp add: refs_ok_def)
  have "preds m q \<subseteq> dom m" by (auto simp: preds_def)
  then show "finite (preds m q)" using f by (rule finite_subset)
qed (use assms in \<open>auto simp: refs_ok_def\<close>)

lemma refs_ok_next: "refs_ok m H \<Longrightarrow> m q = Some b \<Longrightarrow> pb_next b \<noteq> 0 \<Longrightarrow> \<exists>c. m (pb_next b) = Some c"
proof -
  assume *: "refs_ok m H" "m q = Some b" "pb_next b \<noteq> 0"
  obtain xs where "linked m q xs" using refs_okD(4)[OF *(1,2)] by blast
  then show ?thesis using * refs_okD(2)[OF *(1)] by (cases xs; cases "tl xs") auto
qed

lemma refs_okI:
  assumes "finite (dom m)" "m 0 = None" "\<And>q. q \<in># H \<Longrightarrow> m q \<noteq> None" "\<And>q b. m q = Some b \<Longrightarrow> \<exists>xs. linked m q xs"
    "\<And>q b. m q = Some b \<Longrightarrow> unat (pb_ref b) = count H q + card (preds m q) \<and> pb_ref b \<noteq> 0"
  shows "refs_ok m H"
  using assms unfolding refs_ok_def by auto

text \<open>Only \<^verbatim>\<open>next\<close> and \<^verbatim>\<open>ref\<close> matter.\<close>

lemma preds_upd_same: "m p = Some b \<Longrightarrow> pb_next b' = pb_next b \<Longrightarrow> preds (m(p \<mapsto> b')) q = preds m q"
  by (auto simp: preds_def)

lemma linked_upd_same: "linked m q xs \<Longrightarrow> m p = Some b \<Longrightarrow> pb_next b' = pb_next b \<Longrightarrow> \<exists>xs'. linked (m(p \<mapsto> b')) q xs'"
proof (induction xs arbitrary: q)
  case Nil
  then show ?case by (intro exI[of _ "[]"]) simp
next
  case (Cons x xs)
  define m' where "m' = m(p \<mapsto> b')"
  have m': "m' p = Some b'" "q \<noteq> p \<Longrightarrow> m' q = m q" by (simp_all add: m'_def)
  obtain c where x: "x = (q, c)" "q \<noteq> 0" "m q = Some c" "linked m (pb_next c) xs" using Cons.prems(1) by (cases x) auto
  obtain ys where ys: "linked m' (pb_next c) ys" using Cons.IH[OF x(4) Cons.prems(2,3)] unfolding m'_def by blast
  have "\<exists>zs. linked m' q zs"
  proof (cases "q = p")
    case True
    then have "c = b" using x(3) Cons.prems(2) by simp
    then show ?thesis using x True ys Cons.prems(3) m' by (intro exI[of _ "(q, b') # ys"]) simp
  next
    case False
    then show ?thesis using x ys m' by (intro exI[of _ "(q, c) # ys"]) simp
  qed
  then show ?case by (simp only: m'_def)
qed

lemma refs_ok_upd:
  assumes "refs_ok m H" "m p = Some b" "pb_next b' = pb_next b" "set_mset H' \<subseteq> dom m" "\<forall>q. q \<noteq> p \<longrightarrow> count H' q = count H q"
    "unat (pb_ref b') = count H' p + card (preds m p)" "pb_ref b' \<noteq> 0"
  shows "refs_ok (m(p \<mapsto> b')) H'"
proof (rule refs_okI)
  have pr: "preds (m(p \<mapsto> b')) q = preds m q" for q using preds_upd_same[of m p b b' q] assms(2,3) by blast
  show "(m(p \<mapsto> b')) 0 = None" using refs_okD(2)[OF assms(1)] assms(2) by (cases "p = 0") auto
  fix q c assume q: "(m(p \<mapsto> b')) q = Some c"
  show "unat (pb_ref c) = count H' q + card (preds (m(p \<mapsto> b')) q) \<and> pb_ref c \<noteq> 0"
    unfolding pr using q assms(5,6,7) refs_okD(6,7)[OF assms(1), of q c] by (cases "q = p") auto
  have "\<exists>d. m q = Some d" using q assms(2) by (cases "q = p") auto
  then show "\<exists>xs. linked (m(p \<mapsto> b')) q xs" using refs_okD(4)[OF assms(1)] linked_upd_same[of m q _ p b b', OF _ assms(2,3)] by blast
qed (use refs_okD(1)[OF assms(1)] assms(4) in auto)

lemma refs_ok_same: "refs_ok m H \<Longrightarrow> m p = Some b \<Longrightarrow> pb_next b' = pb_next b \<Longrightarrow> pb_ref b' = pb_ref b \<Longrightarrow> refs_ok (m(p \<mapsto> b')) H"
  by (rule refs_ok_upd) (auto simp: refs_ok_def)

lemma refs_ok_ref:
  assumes "refs_ok m H" "m p = Some b" "pb_ref b \<noteq> 0xFFFF"
  shows "refs_ok (m(p \<mapsto> b\<lparr>pb_ref := pb_ref b + 1\<rparr>)) (add_mset p H)"
proof (rule refs_ok_upd[OF assms(1,2)])
  have "unat (pb_ref b) \<noteq> 65535" using assms(3) by (simp add: word_unat_eq_iff)
  then have u: "unat (pb_ref b + 1) = unat (pb_ref b) + 1" using unsigned_less[of "pb_ref b", where 'a = nat] by (simp add: unat_word_ariths)
  then show "unat (pb_ref (b\<lparr>pb_ref := pb_ref b + 1\<rparr>)) = count (add_mset p H) p + card (preds m p)" using refs_okD(6)[OF assms(1,2)] by simp
  show "pb_ref (b\<lparr>pb_ref := pb_ref b + 1\<rparr>) \<noteq> 0" using u by (auto simp: word_unat_eq_iff)
qed (use assms in \<open>auto simp: refs_ok_def\<close>)

lemma refs_ok_drop:
  assumes "refs_ok m (add_mset p H)" "m p = Some b" "pb_ref b - 1 \<noteq> 0"
  shows "refs_ok (m(p \<mapsto> b\<lparr>pb_ref := pb_ref b - 1\<rparr>)) H"
proof (rule refs_ok_upd[OF assms(1,2)])
  have "pb_ref b \<noteq> 0" by (rule refs_okD(7)[OF assms(1,2)])
  then have "unat (pb_ref b - 1) = unat (pb_ref b) - 1" "0 < unat (pb_ref b)" by (simp_all add: unat_gt_0 unat_minus_one)
  then show "unat (pb_ref (b\<lparr>pb_ref := pb_ref b - 1\<rparr>)) = count H p + card (preds m p)" using refs_okD(6)[OF assms(1,2)] by simp
qed (use assms in \<open>auto simp: refs_ok_def\<close>)

lemma refs_ok_new:
  assumes "refs_ok m H" "m p = None" "p \<noteq> 0" "pb_next b = 0" "pb_ref b = 1"
  shows "refs_ok (m(p \<mapsto> b)) (add_mset p H)"
proof (rule refs_okI)
  have np: "preds m p = {}"
  proof (rule equals0I)
    fix r assume "r \<in> preds m p"
    then obtain c where "m r = Some c" "pb_next c = p" by (auto simp: preds_def)
    then show False using refs_ok_next[OF assms(1)] assms(2,3) by fastforce
  qed
  have pr: "preds (m(p \<mapsto> b)) q = preds m q" if "q \<noteq> 0" for q using that assms(2,4) by (auto simp: preds_def)
  have hp: "count H p = 0" using refs_okD(3)[OF assms(1), of p] assms(2) by (auto simp: count_eq_zero_iff)
  fix q c assume q: "(m(p \<mapsto> b)) q = Some c"
  then have "q \<noteq> 0" using refs_okD(2)[OF assms(1)] assms(3) by (cases "q = 0") auto
  then show "unat (pb_ref c) = count (add_mset p H) q + card (preds (m(p \<mapsto> b)) q) \<and> pb_ref c \<noteq> 0"
    unfolding pr[OF \<open>q \<noteq> 0\<close>] using q np hp assms(5) refs_okD(6,7)[OF assms(1), of q c] by (cases "q = p") auto
  show "\<exists>xs. linked (m(p \<mapsto> b)) q xs"
  proof (cases "q = p")
    case True
    then show ?thesis using assms(3,4) by (intro exI[of _ "[(p, b)]"]) simp
  next
    case False
    then obtain xs where xs: "linked m q xs" using q refs_okD(4)[OF assms(1)] by auto
    have "(m(p \<mapsto> b)) r = m r" if "(r, d) \<in> set xs" for r d using linked_live[OF xs that] assms(2) by auto
    then have "linked (m(p \<mapsto> b)) q xs = linked m q xs" by (intro linked_cong) blast
    then show ?thesis using xs by blast
  qed
qed (use refs_okD(1,2,3)[OF assms(1)] assms(2,3) in auto)

text \<open>Making a buffer that ends its chain point to one the program holds moves a reference, and so does cutting a chain.\<close>

lemma linked_set_next:
  assumes "linked m q xs" "linked m t ys" "r \<notin> fst ` set ys" "m r = Some c"
  shows "\<exists>xs'. linked (m(r \<mapsto> c\<lparr>pb_next := t\<rparr>)) q xs'"
  using assms(1)
proof (induction xs arbitrary: q)
  case Nil
  then show ?case by (intro exI[of _ "[]"]) simp
next
  case (Cons x xs)
  define m' where "m' = m(r \<mapsto> c\<lparr>pb_next := t\<rparr>)"
  have m': "m' r = Some (c\<lparr>pb_next := t\<rparr>)" "q \<noteq> r \<Longrightarrow> m' q = m q" by (simp_all add: m'_def)
  obtain d where x: "q \<noteq> 0" "m q = Some d" "linked m (pb_next d) xs" using Cons.prems(1) by (cases x) auto
  obtain zs where zs: "linked m' (pb_next d) zs" using Cons.IH[OF x(3)] unfolding m'_def by blast
  have "\<exists>zs. linked m' q zs"
  proof (cases "q = r")
    case True
    have "linked m' t ys = linked m t ys" by (rule linked_cong) (use assms(3) in \<open>force simp: m'_def\<close>)
    then have "linked m' q ((q, c\<lparr>pb_next := t\<rparr>) # ys)" using True x(1) m'(1) assms(2) by simp
    then show ?thesis by blast
  next
    case False
    then have "linked m' q ((q, d) # zs)" using x zs m'(2) by simp
    then show ?thesis by blast
  qed
  then show ?case by (simp only: m'_def)
qed

lemma refs_ok_link:
  assumes "refs_ok m (add_mset t H)" "m r = Some c" "pb_next c = 0" "linked m t ys" "r \<notin> fst ` set ys"
  shows "refs_ok (m(r \<mapsto> c\<lparr>pb_next := t\<rparr>)) H"
proof (rule refs_okI)
  let ?m = "m(r \<mapsto> c\<lparr>pb_next := t\<rparr>)"
  have t: "t \<noteq> 0" using refs_okD(2)[OF assms(1)] refs_okD(3)[OF assms(1), of t] by (cases "t = 0") auto
  have r: "r \<noteq> 0" using refs_okD(2)[OF assms(1)] assms(2) by (cases "r = 0") auto
  have pt: "preds ?m t = insert r (preds m t)" "r \<notin> preds m t" using assms(2,3) t by (auto simp: preds_def)
  have pq: "preds ?m q = preds m q" if "q \<noteq> t" "q \<noteq> 0" for q using assms(2,3) that by (auto simp: preds_def)
  show "?m 0 = None" using refs_okD(2)[OF assms(1)] r by simp
  fix q d assume q: "?m q = Some d"
  then obtain e where e: "m q = Some e" "pb_ref e = pb_ref d" using assms(2) by (cases "q = r") auto
  have "q \<noteq> 0" using e refs_okD(2)[OF assms(1)] by (cases "q = 0") auto
  then show "unat (pb_ref d) = count H q + card (preds ?m q) \<and> pb_ref d \<noteq> 0"
    using refs_okD(6,7)[OF assms(1) e(1)] e(2) pt pq refs_okD(5)[OF assms(1), of t] by (cases "q = t") auto
  obtain xs where "linked m q xs" using refs_okD(4)[OF assms(1) e(1)] by blast
  then show "\<exists>xs. linked ?m q xs" by (rule linked_set_next[OF _ assms(4,5,2)])
qed (use refs_okD(1,3)[OF assms(1)] assms(2) in auto)

lemma refs_ok_unlink:
  assumes "refs_ok m H" "m r = Some c" "pb_next c = t" "t \<noteq> 0"
  shows "refs_ok (m(r \<mapsto> c\<lparr>pb_next := 0\<rparr>)) (add_mset t H)"
proof (rule refs_okI)
  let ?m = "m(r \<mapsto> c\<lparr>pb_next := 0\<rparr>)"
  have r: "r \<noteq> 0" using refs_okD(2)[OF assms(1)] assms(2) by (cases "r = 0") auto
  have pt: "preds m t = insert r (preds ?m t)" "r \<notin> preds ?m t" using assms(2-4) by (auto simp: preds_def)
  then have ct: "card (preds m t) = Suc (card (preds ?m t))" using refs_okD(5)[OF assms(1), of t] by (metis card_insert_disjoint finite_insert)
  have pq: "preds ?m q = preds m q" if "q \<noteq> t" "q \<noteq> 0" for q using assms(2,3) that by (auto simp: preds_def)
  show "x \<in># add_mset t H \<Longrightarrow> ?m x \<noteq> None" for x
    using refs_okD(3)[OF assms(1), of x] refs_ok_next[OF assms(1,2)] assms(3,4) by (cases "x = t") auto
  show "?m 0 = None" using refs_okD(2)[OF assms(1)] r by simp
  fix q d assume q: "?m q = Some d"
  then obtain e where e: "m q = Some e" "pb_ref e = pb_ref d" using assms(2) by (cases "q = r") auto
  have "q \<noteq> 0" using e refs_okD(2)[OF assms(1)] by (cases "q = 0") auto
  then show "unat (pb_ref d) = count (add_mset t H) q + card (preds ?m q) \<and> pb_ref d \<noteq> 0"
    using refs_okD(6,7)[OF assms(1) e(1)] e(2) ct pq by (cases "q = t") auto
  obtain xs where "linked m q xs" using refs_okD(4)[OF assms(1) e(1)] by blast
  then show "\<exists>xs. linked ?m q xs" using linked_set_next[of m q _ 0 "[]" r c] assms(2) by simp
qed (use refs_okD(1)[OF assms(1)] in auto)

text \<open>Removing a buffer whose last reference goes hands its reference to the next one over.\<close>

lemma linked_remove:
  "linked m q xs \<Longrightarrow> preds m p = {} \<Longrightarrow> q \<noteq> p \<Longrightarrow> linked (m(p := None)) q xs"
proof (induction xs arbitrary: q)
  case (Cons x xs)
  obtain d where x: "x = (q, d)" "q \<noteq> 0" "m q = Some d" "linked m (pb_next d) xs" using Cons.prems(1) by (cases x) auto
  have "pb_next d \<noteq> p" using Cons.prems(2) x(3) by (auto simp: preds_def)
  then have "linked (m(p := None)) (pb_next d) xs" by (rule Cons.IH[OF x(4) Cons.prems(2)])
  then show ?case using x Cons.prems(3) by (simp del: fun_upd_apply) simp
qed simp

lemma refs_ok_remove:
  assumes "refs_ok m (add_mset p H)" "m p = Some b" "pb_ref b = 1"
  shows "refs_ok (m(p := None)) (if pb_next b = 0 then H else add_mset (pb_next b) H)"
proof (rule refs_okI)
  let ?m = "m(p := None)" and ?H = "if pb_next b = 0 then H else add_mset (pb_next b) H"
  have z: "count H p = 0" "preds m p = {}" using refs_okD(5)[OF assms(1), of p] refs_okD(6)[OF assms(1,2)] assms(3) by (auto simp: card_eq_0_iff)
  have nn: "pb_next b \<noteq> p" using z(2) assms(2) by (auto simp: preds_def)
  have pn: "preds m (pb_next b) = insert p (preds ?m (pb_next b))" "p \<notin> preds ?m (pb_next b)" using assms(2) by (auto simp: preds_def)
  then have cn: "card (preds m (pb_next b)) = Suc (card (preds ?m (pb_next b)))" using refs_okD(5)[OF assms(1), of "pb_next b"] by (metis card_insert_disjoint finite_insert)
  have pq: "preds ?m q = preds m q" if "q \<noteq> pb_next b" for q using assms(2) that by (auto simp: preds_def)
  have pH: "p \<notin># H" using z(1) by (simp add: not_in_iff)
  show "x \<in># ?H \<Longrightarrow> ?m x \<noteq> None" for x
    using refs_okD(3)[OF assms(1), of x] refs_ok_next[OF assms(1,2)] pH nn by (cases "x = p") (auto split: if_splits)
  fix q d assume q: "?m q = Some d"
  then have e: "m q = Some d" "q \<noteq> p" by (auto split: if_splits)
  have "q \<noteq> 0" using e refs_okD(2)[OF assms(1)] by (cases "q = 0") auto
  then show "unat (pb_ref d) = count ?H q + card (preds ?m q) \<and> pb_ref d \<noteq> 0"
    using refs_okD(6,7)[OF assms(1) e(1)] e(2) cn pq by (cases "q = pb_next b") auto
  obtain xs where "linked m q xs" using refs_okD(4)[OF assms(1) e(1)] by blast
  then show "\<exists>xs. linked ?m q xs" using linked_remove[OF _ z(2) e(2)] by blast
qed (use refs_okD(1,2)[OF assms(1)] in auto)

section \<open>Where buffers come from\<close>

text \<open>The pool a buffer goes back to, if any.\<close>

definition pool_of :: "pbuf \<Rightarrow> nat option" where
  "pool_of b = (if pb_flags b AND PBUF_FLAG_IS_CUSTOM \<noteq> 0 then None
     else case pb_type b of PBUF_POOL \<Rightarrow> Some MEMP_PBUF_POOL | PBUF_RAM \<Rightarrow> None | _ \<Rightarrow> Some MEMP_PBUF)"

lemma pool_of_upd [simp]:
  "pool_of (b\<lparr>pb_ref := l\<rparr>) = pool_of b" "pool_of (b\<lparr>pb_next := r\<rparr>) = pool_of b" "pool_of (b\<lparr>pb_len := l\<rparr>) = pool_of b"
  "pool_of (b\<lparr>tot_len := l\<rparr>) = pool_of b" "pool_of (b\<lparr>payload := r\<rparr>) = pool_of b"
  by (simp_all add: pool_of_def cong: if_cong)

definition owned :: "nat list list \<Rightarrow> nat \<Rightarrow> pbuf \<Rightarrow> bool" where
  "owned E q b \<longleftrightarrow> (case pool_of b of Some i \<Rightarrow> q \<in> set (E ! i) | None \<Rightarrow> \<forall>j < length E. q \<notin> set (E ! j))"

text \<open>The elements of the two pools that are not live buffers are exactly the free ones.\<close>

definition free_pools :: "nat list list \<Rightarrow> memp \<Rightarrow> nat set \<Rightarrow> nat list list \<Rightarrow> bool" where
  "free_pools E st live Ls \<longleftrightarrow> pool_rel st Ls \<and> length Ls = length E \<and> (\<forall>j < length E. set (Ls ! j) \<subseteq> set (E ! j)) \<and>
     set (Ls ! MEMP_PBUF) = set (E ! MEMP_PBUF) - live \<and> set (Ls ! MEMP_PBUF_POOL) = set (E ! MEMP_PBUF_POOL) - live"

definition pools_ok :: "nat list list \<Rightarrow> memp \<Rightarrow> (nat \<Rightarrow> pbuf option) \<Rightarrow> bool" where
  "pools_ok E st m \<longleftrightarrow> (\<exists>Ls. free_pools E st (dom m) Ls) \<and> (\<forall>q b. m q = Some b \<longrightarrow> owned E q b)"

definition pools_conf :: "nat list list \<Rightarrow> bool" where
  "pools_conf E \<longleftrightarrow> apart E \<and> MEMP_PBUF_POOL < length E"

lemma pools_conf_apart: "pools_conf E \<Longrightarrow> q \<in> set (E ! i) \<Longrightarrow> i < length E \<Longrightarrow> j < length E \<Longrightarrow> j \<noteq> i \<Longrightarrow> q \<notin> set (E ! j)"
  unfolding pools_conf_def apart_def by blast

lemma pools_ok_same:
  assumes "pools_ok E st m" "\<And>q. map_option pool_of (m' q) = map_option pool_of (m q)"
  shows "pools_ok E st m'"
proof -
  have "m' q = None \<longleftrightarrow> m q = None" for q using assms(2)[of q] by (cases "m' q"; cases "m q") simp_all
  then have d: "dom m' = dom m" by (auto simp: dom_def)
  have "owned E q b" if q: "m' q = Some b" for q b
  proof -
    obtain c where c: "m q = Some c" "pool_of c = pool_of b" using assms(2)[of q] q by (cases "m q") auto
    have "pool_of c = pool_of b" by (rule c(2))
    moreover have "owned E q c" using assms(1) c(1) unfolding pools_ok_def by blast
    ultimately show ?thesis by (simp add: owned_def)
  qed
  then show ?thesis using assms(1) unfolding pools_ok_def d by blast
qed

lemma pools_ok_upd: "pools_ok E st m \<Longrightarrow> m p = Some b \<Longrightarrow> pool_of b' = pool_of b \<Longrightarrow> pools_ok E st (m(p \<mapsto> b'))"
  by (erule pools_ok_same) simp

lemma free_pools_get:
  assumes "pools_conf E" "free_pools E st live Ls" "i = MEMP_PBUF \<or> i = MEMP_PBUF_POOL" "Ls ! i = a # as" "pool_rel st' (Ls[i := as])"
  shows "free_pools E st' (insert a live) (Ls[i := as])" "a \<noteq> 0" "a \<notin> live" "a \<in> set (E ! i)"
proof -
  have i: "i < length E" "length Ls = length E" using assms(1-3) by (auto simp: pools_conf_def free_pools_def)
  have "distinct (Ls ! i)" "0 \<notin> set (Ls ! i)" using assms(2) i by (simp_all add: free_pools_def pool_rel_def apart_def)
  then show z: "a \<noteq> 0" and "a \<notin> live" and e: "a \<in> set (E ! i)" using assms(2,3,4) by (auto simp: free_pools_def)
  have as: "a \<notin> set as" using \<open>distinct (Ls ! i)\<close> assms(4) by simp
  have sub: "set (Ls[i := as] ! j) \<subseteq> set (E ! j)" if "j < length E" for j
  proof -
    have L: "set (Ls ! j) \<subseteq> set (E ! j)" using assms(2) that by (simp add: free_pools_def)
    show ?thesis using L assms(4) i by (cases "j = i") auto
  qed
  have free: "set (Ls[i := as] ! j) = set (E ! j) - insert a live" if j: "j = MEMP_PBUF \<or> j = MEMP_PBUF_POOL" for j
  proof -
    have L: "set (Ls ! j) = set (E ! j) - live" using assms(2) j by (auto simp: free_pools_def)
    show ?thesis
    proof (cases "j = i")
      case True
      then show ?thesis using L as i assms(4) by auto
    next
      case False
      then have "a \<notin> set (E ! j)" using pools_conf_apart[OF assms(1) e i(1), of j] j assms(1) by (auto simp: pools_conf_def)
      then show ?thesis using L False by simp
    qed
  qed
  show "free_pools E st' (insert a live) (Ls[i := as])" unfolding free_pools_def using assms(5) i(2) sub free by simp
qed

lemma pools_ok_get:
  assumes "pools_conf E" "pools_ok E st m" "i = MEMP_PBUF \<or> i = MEMP_PBUF_POOL"
  shows "\<exists>p st'. memp_malloc i st = Some (p, st') \<and> (p = 0 \<longrightarrow> pools_ok E st' m) \<and>
    (p \<noteq> 0 \<longrightarrow> m p = None \<and> (\<forall>b. pool_of b = Some i \<longrightarrow> pools_ok E st' (m(p \<mapsto> b))))"
proof -
  obtain Ls where L: "free_pools E st (dom m) Ls" and O: "\<forall>q b. m q = Some b \<longrightarrow> owned E q b" using assms(2) unfolding pools_ok_def by blast
  have i: "i < length Ls" "pool_rel st Ls" using assms(1,3) L by (auto simp: pools_conf_def free_pools_def)
  obtain st' where st': "memp_malloc i st = Some (case Ls ! i of [] \<Rightarrow> 0 | a # _ \<Rightarrow> a, st')" "pool_rel st' (Ls[i := tl (Ls ! i)])"
    using memp_malloc_val[OF i(2,1)] by blast
  show ?thesis
  proof (cases "Ls ! i")
    case Nil
    have "Ls[i := tl (Ls ! i)] = Ls" by (metis Nil list.sel(2) list_update_id)
    then have "free_pools E st' (dom m) Ls" using st'(2) L by (simp add: free_pools_def)
    then have "pools_ok E st' m" using O unfolding pools_ok_def by blast
    then show ?thesis using st'(1) Nil by simp
  next
    case (Cons a as)
    have rel: "pool_rel st' (Ls[i := as])" using st'(2) Cons by simp
    note G = free_pools_get[OF assms(1) L assms(3) Cons rel]
    have "pools_ok E st' (m(a \<mapsto> b))" if "pool_of b = Some i" for b
    proof -
      have "owned E a b" using that G(4) by (simp add: owned_def)
      then have "\<forall>q c. (m(a \<mapsto> b)) q = Some c \<longrightarrow> owned E q c" using O by simp
      moreover have "dom (m(a \<mapsto> b)) = insert a (dom m)" by auto
      ultimately show ?thesis using G(1) unfolding pools_ok_def by metis
    qed
    then show ?thesis using st'(1) Cons G(2,3) by auto
  qed
qed

lemma free_pools_put:
  assumes "pools_conf E" "free_pools E st live Ls" "i = MEMP_PBUF \<or> i = MEMP_PBUF_POOL" "p \<in> set (E ! i)" "p \<in> live" "p \<noteq> 0"
  shows "\<exists>st'. memp_free i p st = Some st' \<and> free_pools E st' (live - {p}) (Ls[i := p # Ls ! i])"
proof -
  have i: "i < length E" "length Ls = length E" "pool_rel st Ls" using assms(1-3) by (auto simp: pools_conf_def free_pools_def)
  have other: "p \<notin> set (E ! j)" if "j < length E" "j \<noteq> i" for j using pools_conf_apart[OF assms(1,4) i(1) that] .
  have nf: "\<forall>j < length Ls. p \<notin> set (Ls ! j)"
  proof (intro allI impI)
    fix j assume j: "j < length Ls"
    show "p \<notin> set (Ls ! j)"
    proof (cases "j = i")
      case True
      then show ?thesis using assms(2,3,5) by (auto simp: free_pools_def)
    next
      case False
      then show ?thesis using other[of j] assms(2) j i(2) by (auto simp: free_pools_def)
    qed
  qed
  obtain st' where st': "memp_free i p st = Some st'" "pool_rel st' (Ls[i := p # Ls ! i])" using memp_free_val[OF i(3) _ assms(6) nf, of i] i by auto
  have sub: "set (Ls[i := p # Ls ! i] ! j) \<subseteq> set (E ! j)" if "j < length E" for j
    using assms(2,4) i that by (cases "j = i") (auto simp: free_pools_def)
  have free: "set (Ls[i := p # Ls ! i] ! j) = set (E ! j) - (live - {p})" if j: "j = MEMP_PBUF \<or> j = MEMP_PBUF_POOL" for j
  proof -
    have L: "set (Ls ! j) = set (E ! j) - live" using assms(2) j by (auto simp: free_pools_def)
    show ?thesis
    proof (cases "j = i")
      case True
      then show ?thesis using L i assms(4) by auto
    next
      case False
      then have "p \<notin> set (E ! j)" using other[of j] j assms(1) by (auto simp: pools_conf_def)
      then show ?thesis using L False by auto
    qed
  qed
  have "free_pools E st' (live - {p}) (Ls[i := p # Ls ! i])" unfolding free_pools_def using st'(2) i(2) sub free by simp
  then show ?thesis using st'(1) by blast
qed

lemma release_ok:
  assumes "pools_conf E" "pools_ok E (pools s) (pbufs s)" "pbufs s p = Some b'" "pool_of b' = pool_of b" "p \<noteq> 0"
  shows "\<exists>s'. release_pbuf p b s = Some s' \<and> pools_ok E (pools s') (pbufs s') \<and> pbufs s' = (pbufs s)(p := None) \<and> memory s' = memory s"
proof -
  let ?m = "(pbufs s)(p := None)"
  obtain Ls where L: "free_pools E (pools s) (dom (pbufs s)) Ls" and O: "\<forall>q b. pbufs s q = Some b \<longrightarrow> owned E q b" using assms(2) unfolding pools_ok_def by blast
  have O': "\<forall>q b. ?m q = Some b \<longrightarrow> owned E q b" using O by simp
  have d: "dom ?m = dom (pbufs s) - {p}" by simp
  have "owned E p b'" using O assms(3) by blast
  then have o: "owned E p b" using assms(4) by (simp add: owned_def)
  show ?thesis
  proof (cases "pool_of b")
    case None
    have "p \<notin> set (E ! MEMP_PBUF)" "p \<notin> set (E ! MEMP_PBUF_POOL)" using o None assms(1) by (auto simp: owned_def pools_conf_def)
    then have "free_pools E (pools s) (dom ?m) Ls" using L unfolding free_pools_def d by auto
    then have "pools_ok E (pools s) ?m" using O' unfolding pools_ok_def by blast
    then show ?thesis using None by (auto simp: release_pbuf_def pool_of_def split: if_splits pbuf_type.splits)
  next
    case (Some i)
    then have i: "i = MEMP_PBUF \<or> i = MEMP_PBUF_POOL" by (auto simp: pool_of_def split: if_splits pbuf_type.splits)
    have "p \<in> set (E ! i)" "p \<in> dom (pbufs s)" using o Some assms(3) by (auto simp: owned_def)
    then obtain st' where st': "memp_free i p (pools s) = Some st'" "free_pools E st' (dom ?m) (Ls[i := p # Ls ! i])"
      using free_pools_put[OF assms(1) L i _ _ assms(5)] unfolding d by blast
    then have "pools_ok E st' ?m" using O' unfolding pools_ok_def by blast
    then show ?thesis using Some st'(1) by (auto simp: release_pbuf_def pool_of_def split: if_splits pbuf_type.splits)
  qed
qed

section \<open>Freeing\<close>

text \<open>The buffers with one reference go, up to the first with more, which loses one.\<close>

fun after_free :: "(nat \<times> pbuf) list \<Rightarrow> (nat \<Rightarrow> pbuf option) \<Rightarrow> nat \<Rightarrow> pbuf option" where
  "after_free [] m = m"
| "after_free ((q, b) # xs) m = (if pb_ref b = 1 then after_free xs (m(q := None)) else m(q \<mapsto> b\<lparr>pb_ref := pb_ref b - 1\<rparr>))"

definition freed :: "(nat \<times> pbuf) list \<Rightarrow> nat" where
  "freed xs = length (takeWhile (\<lambda>(q, b). pb_ref b = 1) xs)"

lemma linked_minus: "linked m p ((p, b) # xs) \<Longrightarrow> linked (m(p := None)) (pb_next b) xs"
proof -
  assume c: "linked m p ((p, b) # xs)"
  have "p \<notin> fst ` set xs" using linked_distinct[OF c] by simp
  then have "linked (m(p := None)) (pb_next b) xs = linked m (pb_next b) xs" by (intro linked_cong) force
  then show ?thesis using c by simp
qed

lemma free_loop_val:
  assumes "pools_conf E" "pools_ok E (pools s) (pbufs s)" "linked (pbufs s) p xs"
  shows "\<exists>s'. free_loop p n s = Some (n + of_nat (freed xs), s') \<and> pbufs s' = after_free xs (pbufs s) \<and> pools_ok E (pools s') (pbufs s') \<and> memory s' = memory s"
  using assms(2,3)
proof (induction xs arbitrary: p n s)
  case Nil
  then show ?case by (subst free_loop.simps) (simp add: freed_def)
next
  case (Cons x xs)
  obtain b where x: "x = (p, b)" "p \<noteq> 0" "pbufs s p = Some b" using Cons.prems(2) by (cases x) auto
  let ?b = "b\<lparr>pb_ref := pb_ref b - 1\<rparr>"
  let ?s = "s\<lparr>pbufs := (pbufs s)(p \<mapsto> ?b)\<rparr>"
  have up: "upd_pbuf p (\<lambda>c. c\<lparr>pb_ref := pb_ref b - 1\<rparr>) s = Some ?s" using x(3) by (simp add: upd_pbuf_def)
  have ok: "pools_ok E (pools ?s) (pbufs ?s)" using pools_ok_upd[OF Cons.prems(1) x(3), of ?b] by simp
  show ?case
  proof (cases "pb_ref b = 1")
    case False
    then have "pb_ref b - 1 \<noteq> 0" by simp
    then have "free_loop p n s = Some (n, ?s)" using x(2,3) up by (subst free_loop.simps) (simp add: Let_def)
    then show ?thesis using False x(1) ok by (simp add: freed_def del: fun_upd_apply)
  next
    case True
    obtain s' where s': "release_pbuf p b ?s = Some s'" "pools_ok E (pools s') (pbufs s')" "pbufs s' = (pbufs s)(p := None)" "memory s' = memory s"
      using release_ok[OF assms(1) ok, of p ?b b] x(2) by auto
    have "linked (pbufs s') (pb_next b) xs" unfolding s'(3) using Cons.prems(2) x(1) by (intro linked_minus) simp
    then obtain t where t: "free_loop (pb_next b) (n + 1) s' = Some (n + 1 + of_nat (freed xs), t)" "pbufs t = after_free xs (pbufs s')" "pools_ok E (pools t) (pbufs t)"
      "memory t = memory s'" using Cons.IH[OF s'(2)] by blast
    have "free_loop p n s = free_loop (pb_next b) (n + 1) s'" using True x(2,3) up s'(1) by (subst free_loop.simps) (simp add: Let_def)
    then show ?thesis using t s'(3,4) True x(1) by (simp add: freed_def add.assoc)
  qed
qed

lemma refs_ok_free:
  "refs_ok m (add_mset p H) \<Longrightarrow> linked m p xs \<Longrightarrow> refs_ok (after_free xs m) H"
proof (induction xs arbitrary: p m)
  case Nil
  then show ?case using refs_okD(2)[of m "add_mset p H"] refs_okD(3)[OF Nil.prems(1), of p] by simp
next
  case (Cons x xs)
  obtain b where x: "x = (p, b)" "p \<noteq> 0" "m p = Some b" "linked m (pb_next b) xs" using Cons.prems(2) by (cases x) auto
  show ?case
  proof (cases "pb_ref b = 1")
    case False
    then show ?thesis using refs_ok_drop[OF Cons.prems(1) x(3)] x(1) by (simp del: fun_upd_apply)
  next
    case True
    note r = refs_ok_remove[OF Cons.prems(1) x(3) True]
    have c: "linked (m(p := None)) (pb_next b) xs" using Cons.prems(2) x(1) by (intro linked_minus) simp
    show ?thesis
    proof (cases "pb_next b = 0")
      case n: True
      then have "xs = []" using x(4) by (cases xs) auto
      then show ?thesis using r n x(1) True by (simp del: fun_upd_apply)
    next
      case False
      then show ?thesis using Cons.IH[OF _ c] r x(1) True by (simp del: fun_upd_apply)
    qed
  qed
qed

text \<open>The state that the calls keep: \<open>H\<close> are the references the program holds.\<close>

definition pbufs_ok :: "nat list list \<Rightarrow> nat multiset \<Rightarrow> pbuf_state \<Rightarrow> bool" where
  "pbufs_ok E H s \<longleftrightarrow> refs_ok (pbufs s) H \<and> pools_ok E (pools s) (pbufs s)"

lemma pbufs_okD:
  assumes "pbufs_ok E H s"
  shows "refs_ok (pbufs s) H" "pools_ok E (pools s) (pbufs s)" "p \<in># H \<Longrightarrow> p \<noteq> 0 \<and> (\<exists>b xs. pbufs s p = Some b \<and> linked (pbufs s) p ((p, b) # xs))"
proof -
  show r: "refs_ok (pbufs s) H" and "pools_ok E (pools s) (pbufs s)" using assms by (simp_all add: pbufs_ok_def)
  assume "p \<in># H"
  then obtain b where b: "pbufs s p = Some b" using refs_okD(3)[OF r] by blast
  then have p: "p \<noteq> 0" using refs_okD(2)[OF r] by (cases "p = 0") auto
  obtain xs where "linked (pbufs s) p xs" using refs_okD(4)[OF r b] by blast
  then show "p \<noteq> 0 \<and> (\<exists>b xs. pbufs s p = Some b \<and> linked (pbufs s) p ((p, b) # xs))" using p by (cases xs) auto
qed

lemma pbufs_ok_upd:
  assumes "pbufs_ok E H s" "pbufs s p = Some b" "pb_next (f b) = pb_next b" "pb_ref (f b) = pb_ref b" "pool_of (f b) = pool_of b"
  shows "upd_pbuf p f s = Some (s\<lparr>pbufs := (pbufs s)(p \<mapsto> f b)\<rparr>)" "pbufs_ok E H (s\<lparr>pbufs := (pbufs s)(p \<mapsto> f b)\<rparr>)"
proof -
  show "upd_pbuf p f s = Some (s\<lparr>pbufs := (pbufs s)(p \<mapsto> f b)\<rparr>)" using assms(2) by (simp add: upd_pbuf_def)
  have "refs_ok ((pbufs s)(p \<mapsto> f b)) H" by (rule refs_ok_same[OF pbufs_okD(1)[OF assms(1)] assms(2-4)])
  moreover have "pools_ok E (pools s) ((pbufs s)(p \<mapsto> f b))" by (rule pools_ok_upd[OF pbufs_okD(2)[OF assms(1)] assms(2,5)])
  ultimately show "pbufs_ok E H (s\<lparr>pbufs := (pbufs s)(p \<mapsto> f b)\<rparr>)" by (simp add: pbufs_ok_def)
qed

lemma pbuf_free_ok:
  assumes "pools_conf E" "pbufs_ok E (add_mset p H) s"
  shows "\<exists>xs s'. linked (pbufs s) p xs \<and> pbuf_free p s = Some (of_nat (freed xs), s') \<and> pbufs s' = after_free xs (pbufs s) \<and> memory s' = memory s \<and> pbufs_ok E H s'"
proof -
  obtain b ys where p: "p \<noteq> 0" "linked (pbufs s) p ((p, b) # ys)" using pbufs_okD(3)[OF assms(2), of p] by auto
  obtain s' where s': "free_loop p 0 s = Some (of_nat (freed ((p, b) # ys)), s')" "pbufs s' = after_free ((p, b) # ys) (pbufs s)" "pools_ok E (pools s') (pbufs s')" "memory s' = memory s"
    using free_loop_val[OF assms(1) pbufs_okD(2)[OF assms(2)] p(2), of 0] by auto
  have "refs_ok (pbufs s') H" unfolding s'(2) by (rule refs_ok_free[OF pbufs_okD(1)[OF assms(2)] p(2)])
  then show ?thesis using p s' by (intro exI[of _ "(p, b) # ys"] exI[of _ s']) (simp add: pbuf_free_def pbufs_ok_def)
qed

end
