(* ===== verification/Lwip_Pbuf_Ops.thy ===== *)
theory Lwip_Pbuf_Ops
  imports Lwip_Pbuf_Ref
begin

text \<open>
  Allocation, concatenation and cutting of packet buffers keep the counts, and a program that calls the routines in any order on references it holds never uses a buffer that is gone and loses none.
\<close>

section \<open>Allocation\<close>

lemma new_ok:
  assumes "pools_conf E" "pbufs_ok E H s" "i = MEMP_PBUF \<or> i = MEMP_PBUF_POOL" "memp_malloc i (pools s) = Some (p, m)"
  shows "p = 0 \<Longrightarrow> pbufs_ok E H (s\<lparr>pools := m\<rparr>)" "p \<noteq> 0 \<Longrightarrow> pbufs s p = None"
    "p \<noteq> 0 \<Longrightarrow> pool_of b = Some i \<Longrightarrow> pb_next b = 0 \<Longrightarrow> pb_ref b = 1 \<Longrightarrow> pbufs_ok E (add_mset p H) (s\<lparr>pools := m, pbufs := (pbufs s)(p \<mapsto> b)\<rparr>)"
proof -
  note R = pbufs_okD[OF assms(2)]
  have G: "p = 0 \<longrightarrow> pools_ok E m (pbufs s)" "p \<noteq> 0 \<longrightarrow> pbufs s p = None \<and> (\<forall>b. pool_of b = Some i \<longrightarrow> pools_ok E m ((pbufs s)(p \<mapsto> b)))"
    using pools_ok_get[OF assms(1) R(2) assms(3)] assms(4) by auto
  show "p = 0 \<Longrightarrow> pbufs_ok E H (s\<lparr>pools := m\<rparr>)" using G(1) R(1) by (simp add: pbufs_ok_def)
  show "p \<noteq> 0 \<Longrightarrow> pbufs s p = None" using G(2) by blast
  assume b: "p \<noteq> 0" "pool_of b = Some i" "pb_next b = 0" "pb_ref b = 1"
  have "refs_ok ((pbufs s)(p \<mapsto> b)) (add_mset p H)" by (rule refs_ok_new[OF R(1)]) (use G(2) b in auto)
  then show "pbufs_ok E (add_mset p H) (s\<lparr>pools := m, pbufs := (pbufs s)(p \<mapsto> b)\<rparr>)" using G(2) b(1,2) by (simp add: pbufs_ok_def)
qed

lemma malloc_ok: "pools_conf E \<Longrightarrow> pbufs_ok E H s \<Longrightarrow> i = MEMP_PBUF \<or> i = MEMP_PBUF_POOL \<Longrightarrow> \<exists>p m. memp_malloc i (pools s) = Some (p, m)"
  using pools_ok_get[of E "pools s" "pbufs s" i] pbufs_okD(2)[of E H s] by blast

lemma link_ok:
  assumes "pbufs_ok E (add_mset t H) s" "pbufs s r = Some c" "pb_next c = 0" "linked (pbufs s) t ys" "r \<notin> fst ` set ys"
  shows "pbufs_ok E H (s\<lparr>pbufs := (pbufs s)(r \<mapsto> c\<lparr>pb_next := t\<rparr>)\<rparr>)"
proof -
  have "refs_ok ((pbufs s)(r \<mapsto> c\<lparr>pb_next := t\<rparr>)) H" by (rule refs_ok_link[OF pbufs_okD(1)[OF assms(1)] assms(2-5)])
  moreover have "pools_ok E (pools s) ((pbufs s)(r \<mapsto> c\<lparr>pb_next := t\<rparr>))" by (rule pools_ok_upd[OF pbufs_okD(2)[OF assms(1)] assms(2)]) simp
  ultimately show ?thesis by (simp add: pbufs_ok_def)
qed

lemma pool_is_empty_simps [simp]:
  "pbufs (pbuf_pool_is_empty env s) = pbufs s" "pools (pbuf_pool_is_empty env s) = pools s" "memory (pbuf_pool_is_empty env s) = memory s"
  "pbufs_ok E H (pbuf_pool_is_empty env s) = pbufs_ok E H s"
  by (simp_all add: pbuf_pool_is_empty_def pbufs_ok_def)

text \<open>Every byte of a buffer of the pool lies in its element.\<close>

definition inside :: "nat \<times> pbuf \<Rightarrow> bool" where
  "inside x \<longleftrightarrow> payload (snd x) + unat (pb_len (snd x)) \<le> fst x + SIZEOF_STRUCT_PBUF + PBUF_POOL_BUFSIZE_ALIGNED \<and> fst x + SIZEOF_STRUCT_PBUF \<le> payload (snd x)"

abbreviation lens :: "(nat \<times> pbuf) list \<Rightarrow> nat" where "lens xs \<equiv> (\<Sum>(q, c) \<leftarrow> xs. unat (pb_len c))"

definition tail_done :: "nat list list \<Rightarrow> nat multiset \<Rightarrow> nat \<Rightarrow> nat \<Rightarrow> pbuf \<Rightarrow> nat \<Rightarrow> pbuf_state \<Rightarrow> pbuf_state \<Rightarrow> bool" where
  "tail_done E H p r c rem_len s s' \<longleftrightarrow> pbufs_ok E (add_mset p H) s' \<and> memory s' = memory s \<and> (\<forall>x. x \<noteq> r \<and> pbufs s x \<noteq> None \<longrightarrow> pbufs s' x = pbufs s x) \<and>
     (\<exists>n ys. linked (pbufs s') r ((r, c\<lparr>pb_next := n\<rparr>) # ys) \<and> packet ys \<and> lens ys = rem_len \<and> (\<forall>y \<in> set ys. inside y))"

lemma alloc_tail_ok:
  assumes "pools_conf E"
  shows "pbufs_ok E (add_mset p H) s \<Longrightarrow> pbufs s r = Some c \<Longrightarrow> pb_next c = 0 \<Longrightarrow> rem_len < 65536 \<Longrightarrow>
    \<exists>q s'. alloc_tail env p r rem_len s = Some (q, s') \<and> (q = 0 \<and> pbufs_ok E H s' \<and> memory s' = memory s \<or> q = p \<and> tail_done E H p r c rem_len s s')"
proof (induction rem_len arbitrary: r c s rule: less_induct)
  case (less rem_len)
  have r: "r \<noteq> 0" using refs_okD(2)[OF pbufs_okD(1)[OF less.prems(1)]] less.prems(2) by (cases "r = 0") auto
  show ?case
  proof (cases "rem_len = 0")
    case True
    have "alloc_tail env p r rem_len s = Some (p, s)" using True by (subst alloc_tail.simps) simp
    moreover have "linked (pbufs s) r ((r, c\<lparr>pb_next := 0\<rparr>) # [])" using r less.prems(2,3) by (cases c) simp
    ultimately show ?thesis using less.prems(1) True unfolding tail_done_def by (intro exI[of _ p] exI[of _ s]) fastforce
  next
    case False
    obtain q m where q: "memp_malloc MEMP_PBUF_POOL (pools s) = Some (q, m)" using malloc_ok[OF assms less.prems(1)] by blast
    note N = new_ok[OF assms less.prems(1) disjI2[OF refl] q]
    show ?thesis
    proof (cases "q = 0")
      case z: True
      let ?s = "pbuf_pool_is_empty env (s\<lparr>pools := m\<rparr>)"
      have "pbufs_ok E (add_mset p H) ?s" using N(1)[OF z] by simp
      then obtain k s' where "pbuf_free p ?s = Some (k, s')" "memory s' = memory s" "pbufs_ok E H s'" using pbuf_free_ok[OF assms, of p H ?s] by auto
      moreover have "alloc_tail env p r rem_len s = do { (_, s) \<leftarrow> pbuf_free p ?s; Some (0, s) }" using False q z by (subst alloc_tail.simps) simp
      ultimately show ?thesis by auto
    next
      case nz: False
      define len where "len = min rem_len PBUF_POOL_BUFSIZE_ALIGNED"
      define b where "b = \<lparr>pb_next = 0, payload = q + SIZEOF_STRUCT_PBUF, tot_len = of_nat rem_len :: u16, pb_len = of_nat len :: u16, pb_type = PBUF_POOL, pb_flags = 0 :: u8, pb_ref = 1 :: u16\<rparr>"
      define s1 where "s1 = s\<lparr>pools := m, pbufs := (pbufs s)(q \<mapsto> b)\<rparr>"
      have len: "0 < len" "len \<le> rem_len" "len \<le> 2000" "rem_len - len < rem_len" "rem_len - len < 65536" using False less.prems(4) by (simp_all add: len_def)
      have u: "unat (pb_len b) = len" "unat (tot_len b) = rem_len" using len less.prems(4) by (simp_all add: b_def unat_of_nat take_bit_eq_mod)
      have ok1: "pbufs_ok E (add_mset q (add_mset p H)) s1" unfolding s1_def by (rule N(3)[OF nz]) (simp_all add: b_def pool_of_def)
      have rq: "r \<noteq> q" using N(2)[OF nz] less.prems(2) by auto
      define s2 where "s2 = s1\<lparr>pbufs := (pbufs s1)(r \<mapsto> c\<lparr>pb_next := q\<rparr>)\<rparr>"
      have r1: "pbufs s1 r = Some c" using less.prems(2) rq by (simp add: s1_def)
      have cq: "linked (pbufs s1) q [(q, b)]" using nz by (simp add: s1_def b_def)
      have ok2: "pbufs_ok E (add_mset p H) s2" unfolding s2_def by (rule link_ok[OF ok1 r1 less.prems(3) cq]) (use rq in simp)
      have q2: "pbufs s2 q = Some b" "pb_next b = 0" "pbufs s2 r = Some (c\<lparr>pb_next := q\<rparr>)" "memory s2 = memory s" using rq by (simp_all add: s2_def s1_def b_def)
      have up: "upd_pbuf r (\<lambda>b. b\<lparr>pb_next := q\<rparr>) s1 = Some s2" using r1 by (simp add: upd_pbuf_def s2_def)
      have step: "alloc_tail env p r rem_len s = alloc_tail env p q (rem_len - len) s2"
        using False q nz up by (subst alloc_tail.simps) (simp add: len_def b_def s1_def Let_def)
      obtain k s' where k: "alloc_tail env p q (rem_len - len) s2 = Some (k, s')"
        "k = 0 \<and> pbufs_ok E H s' \<and> memory s' = memory s2 \<or> k = p \<and> tail_done E H p q b (rem_len - len) s2 s'"
        using less.IH[OF len(4) ok2 q2(1,2) len(5)] by blast
      have "tail_done E H p r c rem_len s s'" if t: "tail_done E H p q b (rem_len - len) s2 s'"
      proof -
        obtain n ys where ys: "linked (pbufs s') q ((q, b\<lparr>pb_next := n\<rparr>) # ys)" "packet ys" "lens ys = rem_len - len" "\<forall>y \<in> set ys. inside y"
          using t unfolding tail_done_def by blast
        have fr: "\<forall>x. x \<noteq> q \<and> pbufs s2 x \<noteq> None \<longrightarrow> pbufs s' x = pbufs s2 x" using t unfolding tail_done_def by blast
        have "pbufs s' x = pbufs s x" if x: "x \<noteq> r" "pbufs s x \<noteq> None" for x
        proof -
          have "x \<noteq> q" using N(2)[OF nz] x(2) by auto
          then have "pbufs s2 x = pbufs s x" using x by (simp add: s2_def s1_def)
          then show ?thesis using fr \<open>x \<noteq> q\<close> x(2) by simp
        qed
        moreover have "pbufs s' r = Some (c\<lparr>pb_next := q\<rparr>)" using fr rq q2(3) by simp
        then have "linked (pbufs s') r ((r, c\<lparr>pb_next := q\<rparr>) # (q, b\<lparr>pb_next := n\<rparr>) # ys)" using r ys(1) by simp
        moreover have "packet ((q, b\<lparr>pb_next := n\<rparr>) # ys)" "lens ((q, b\<lparr>pb_next := n\<rparr>) # ys) = rem_len" using ys(2,3) u len(1,2) by (auto simp: word_unat_eq_iff)
        moreover have "inside (q, b\<lparr>pb_next := n\<rparr>)" using u(1) len(3) by (simp add: inside_def b_def)
        then have "\<forall>y \<in> set ((q, b\<lparr>pb_next := n\<rparr>) # ys). inside y" using ys(4) by simp
        ultimately show ?thesis using t q2(4) unfolding tail_done_def by metis
      qed
      then show ?thesis using step k q2(4) by auto
    qed
  qed
qed

lemma unat_u16: "n < 65536 \<Longrightarrow> unat (of_nat n :: u16) = n"
  by (simp add: unat_of_nat take_bit_eq_mod)

text \<open>What the heap promises for a buffer of type \<^verbatim>\<open>PBUF_RAM\<close>: a piece that is not in use.\<close>

definition heap_ok :: "nat list list \<Rightarrow> pbuf_env \<Rightarrow> pbuf_layer \<Rightarrow> u16 \<Rightarrow> pbuf_state \<Rightarrow> bool" where
  "heap_ok E env layer sz s \<longleftrightarrow> (let p = mem_malloc env (ram_size layer sz) in p = 0 \<or> pbufs s p = None \<and> (\<forall>j < length E. p \<notin> set (E ! j)))"

definition allocated :: "nat list list \<Rightarrow> nat multiset \<Rightarrow> pbuf_type \<Rightarrow> u16 \<Rightarrow> nat \<Rightarrow> pbuf_state \<Rightarrow> pbuf_state \<Rightarrow> bool" where
  "allocated E H type sz p s s' \<longleftrightarrow> memory s' = memory s \<and> (p = 0 \<and> pbufs_ok E H s' \<or> pbufs s p = None \<and> pbufs_ok E (add_mset p H) s' \<and>
     (\<exists>b ys. linked (pbufs s') p ((p, b) # ys) \<and> pb_type b = type \<and> tot_len b = sz \<and> unat sz = unat (pb_len b) + lens ys \<and> packet ys \<and>
       (type = PBUF_POOL \<and> p mod 4 = 0 \<longrightarrow> (\<forall>y \<in> set ((p, b) # ys). inside y))))"

lemma alloc_pool_ok:
  assumes "pools_conf E" "pbufs_ok E H s" "stale_flags env AND PBUF_FLAG_IS_CUSTOM = 0"
  shows "\<exists>p s'. pbuf_alloc env layer sz PBUF_POOL s = Some (p, s') \<and> allocated E H PBUF_POOL sz p s s'"
proof -
  obtain p m where p: "memp_malloc MEMP_PBUF_POOL (pools s) = Some (p, m)" using malloc_ok[OF assms(1,2)] by blast
  note N = new_ok[OF assms(1,2) disjI2[OF refl] p]
  show ?thesis
  proof (cases "p = 0")
    case True
    then show ?thesis using p N(1) by (simp add: pbuf_alloc_def allocated_def Let_def)
  next
    case nz: False
    let ?o = "layer_offset layer"
    define len where "len = min (unat sz) (PBUF_POOL_BUFSIZE_ALIGNED - LWIP_MEM_ALIGN ?o)"
    define b where "b = \<lparr>pb_next = 0, payload = LWIP_MEM_ALIGN (p + SIZEOF_STRUCT_PBUF + ?o), tot_len = sz, pb_len = of_nat len :: u16, pb_type = PBUF_POOL, pb_flags = stale_flags env, pb_ref = 1 :: u16\<rparr>"
    define s1 where "s1 = s\<lparr>pools := m, pbufs := (pbufs s)(p \<mapsto> b)\<rparr>"
    have sz: "unat sz < 65536" "len \<le> unat sz" "len \<le> 2000 - LWIP_MEM_ALIGN ?o" using unsigned_less[of sz, where 'a = nat] by (simp_all add: len_def)
    have pb: "pool_of b = Some MEMP_PBUF_POOL" using assms(3) by (simp add: b_def pool_of_def)
    have ok1: "pbufs_ok E (add_mset p H) s1" unfolding s1_def by (rule N(3)[OF nz pb]) (simp_all add: b_def)
    have p1: "pbufs s1 p = Some b" "pb_next b = 0" "memory s1 = memory s" by (simp_all add: s1_def b_def)
    have "unat sz - len < 65536" using sz(1) by simp
    then obtain q s2 where q: "alloc_tail env p p (unat sz - len) s1 = Some (q, s2)"
      "q = 0 \<and> pbufs_ok E H s2 \<and> memory s2 = memory s1 \<or> q = p \<and> tail_done E H p p b (unat sz - len) s1 s2"
      using alloc_tail_ok[OF assms(1) ok1 p1(1,2)] by blast
    have run: "pbuf_alloc env layer sz PBUF_POOL s = (if q = 0 then Some (0, s2) else do { s \<leftarrow> upd_pbuf q (\<lambda>b. b\<lparr>pb_ref := 1, pb_flags := 0\<rparr>) s2; Some (q, s) })"
      using p nz q(1) by (simp add: pbuf_alloc_def len_def b_def s1_def Let_def)
    from q(2) consider "q = 0" "pbufs_ok E H s2" "memory s2 = memory s" | "q = p" "tail_done E H p p b (unat sz - len) s1 s2" using p1(3) by auto
    then show ?thesis
    proof cases
      case 1
      then show ?thesis using run by (simp add: allocated_def)
    next
      case 2
      obtain n ys where ys: "linked (pbufs s2) p ((p, b\<lparr>pb_next := n\<rparr>) # ys)" "packet ys" "lens ys = unat sz - len" "\<forall>y \<in> set ys. inside y"
        and ok2: "pbufs_ok E (add_mset p H) s2" "memory s2 = memory s" using 2(2) p1(3) unfolding tail_done_def by auto
      let ?b = "b\<lparr>pb_next := n, pb_ref := 1, pb_flags := 0\<rparr>"
      let ?s = "s2\<lparr>pbufs := (pbufs s2)(p \<mapsto> ?b)\<rparr>"
      have p2: "pbufs s2 p = Some (b\<lparr>pb_next := n\<rparr>)" using ys(1) by simp
      have po: "pool_of ?b = pool_of (b\<lparr>pb_next := n\<rparr>)" using pb unfolding pool_of_upd by (simp add: pool_of_def b_def)
      note U = pbufs_ok_upd[OF ok2(1) p2, of "\<lambda>b. b\<lparr>pb_ref := 1, pb_flags := 0\<rparr>"]
      have u: "upd_pbuf p (\<lambda>b. b\<lparr>pb_ref := 1, pb_flags := 0\<rparr>) s2 = Some ?s" "pbufs_ok E (add_mset p H) ?s" using U po by (simp_all add: b_def)
      have "p \<notin> fst ` set ys" using linked_distinct[OF ys(1)] by simp
      then have "linked (pbufs ?s) n ys = linked (pbufs s2) n ys" by (intro linked_cong) (force)
      then have ch: "linked (pbufs ?s) p ((p, ?b) # ys)" using ys(1) nz by simp
      have lb: "unat (pb_len ?b) = len" using sz by (simp add: b_def unat_u16)
      have "inside (p, ?b)" if "p mod 4 = 0"
      proof -
        have "LWIP_MEM_ALIGN (p + SIZEOF_STRUCT_PBUF + ?o) = p + SIZEOF_STRUCT_PBUF + LWIP_MEM_ALIGN ?o" using that unfolding LWIP_MEM_ALIGN_def by presburger
        moreover have "LWIP_MEM_ALIGN ?o \<le> 2000" by (cases layer) (simp_all add: layer_offset_def LWIP_MEM_ALIGN_def)
        ultimately show ?thesis using lb sz(3) by (simp add: inside_def b_def)
      qed
      then have "allocated E H PBUF_POOL sz p s ?s"
        using u(2) ok2(2) N(2)[OF nz] ch ys lb sz(2) unfolding allocated_def by (intro conjI disjI2 exI[of _ ?b] exI[of _ ys]) (auto simp: b_def)
      then show ?thesis using run u(1) 2(1) nz by simp
    qed
  qed
qed

lemma alloc_ok:
  assumes "pools_conf E" "pbufs_ok E H s" "stale_flags env AND PBUF_FLAG_IS_CUSTOM = 0" "type = PBUF_RAM \<Longrightarrow> heap_ok E env layer sz s"
  shows "\<exists>p s'. pbuf_alloc env layer sz type s = Some (p, s') \<and> allocated E H type sz p s s'"
proof -
  consider (pool) "type = PBUF_POOL" | (ram) "type = PBUF_RAM" | (ref) "type = PBUF_ROM \<or> type = PBUF_REF" by (cases type) auto
  then show ?thesis
  proof cases
    case pool
    then show ?thesis using alloc_pool_ok[OF assms(1-3)] by simp
  next
    case ram
    let ?p = "mem_malloc env (ram_size layer sz)"
    show ?thesis
    proof (cases "?p = 0")
      case True
      then show ?thesis using ram assms(2) by (simp add: pbuf_alloc_def allocated_def Let_def)
    next
      case False
      define b where "b = \<lparr>pb_next = 0, payload = LWIP_MEM_ALIGN (?p + SIZEOF_STRUCT_PBUF + layer_offset layer), tot_len = sz, pb_len = sz, pb_type = PBUF_RAM, pb_flags = 0 :: u8, pb_ref = 1 :: u16\<rparr>"
      have h: "pbufs s ?p = None" "\<forall>j < length E. ?p \<notin> set (E ! j)" using assms(4)[OF ram] False by (auto simp: heap_ok_def Let_def)
      have r: "refs_ok ((pbufs s)(?p \<mapsto> b)) (add_mset ?p H)" by (rule refs_ok_new[OF pbufs_okD(1)[OF assms(2)] h(1) False]) (simp_all add: b_def)
      obtain Ls where L: "free_pools E (pools s) (dom (pbufs s)) Ls" and O: "\<forall>q b. pbufs s q = Some b \<longrightarrow> owned E q b"
        using pbufs_okD(2)[OF assms(2)] unfolding pools_ok_def by blast
      have "free_pools E (pools s) (dom ((pbufs s)(?p \<mapsto> b))) Ls" using L h(2) assms(1) unfolding free_pools_def pools_conf_def by auto
      moreover have "owned E ?p b" using h(2) by (simp add: owned_def pool_of_def b_def)
      ultimately have "pools_ok E (pools s) ((pbufs s)(?p \<mapsto> b))" using O unfolding pools_ok_def by auto
      then have "pbufs_ok E (add_mset ?p H) (s\<lparr>pbufs := (pbufs s)(?p \<mapsto> b)\<rparr>)" using r by (simp add: pbufs_ok_def)
      then show ?thesis using ram False h(1)
        by (intro exI[of _ ?p] exI[of _ "s\<lparr>pbufs := (pbufs s)(?p \<mapsto> b)\<rparr>"]) (auto simp: pbuf_alloc_def allocated_def b_def Let_def intro!: exI[of _ b] exI[of _ "[]"])
    qed
  next
    case ref
    obtain p m where p: "memp_malloc MEMP_PBUF (pools s) = Some (p, m)" using malloc_ok[OF assms(1,2)] by blast
    note N = new_ok[OF assms(1,2) disjI1[OF refl] p]
    show ?thesis
    proof (cases "p = 0")
      case True
      then show ?thesis using ref p N(1) by (auto simp: pbuf_alloc_def allocated_def Let_def)
    next
      case False
      define b where "b = \<lparr>pb_next = 0, payload = 0, tot_len = sz, pb_len = sz, pb_type = type, pb_flags = 0 :: u8, pb_ref = 1 :: u16\<rparr>"
      have "pbufs_ok E (add_mset p H) (s\<lparr>pools := m, pbufs := (pbufs s)(p \<mapsto> b)\<rparr>)" by (rule N(3)[OF False]) (use ref in \<open>auto simp: b_def pool_of_def\<close>)
      then show ?thesis using ref False p N(2)[OF False]
        by (intro exI[of _ p] exI[of _ "s\<lparr>pools := m, pbufs := (pbufs s)(p \<mapsto> b)\<rparr>"]) (auto simp: pbuf_alloc_def allocated_def b_def Let_def intro!: exI[of _ b] exI[of _ "[]"])
    qed
  qed
qed

section \<open>Concatenation\<close>

definition bump :: "u16 \<Rightarrow> nat \<times> pbuf \<Rightarrow> nat \<times> pbuf" where
  "bump k x = (fst x, (snd x)\<lparr>tot_len := tot_len (snd x) + k\<rparr>)"

lemma fst_bump [simp]: "fst (bump k x) = fst x"
  by (simp add: bump_def)

lemma cat_loop_ok:
  assumes "pbufs_ok E H s" "linked (pbufs s) p (xs @ [(l, c)])"
  shows "\<exists>s'. cat_loop p k s = Some (l, s') \<and> pbufs_ok E H s' \<and> memory s' = memory s \<and> linked (pbufs s') p (map (bump k) xs @ [(l, c)]) \<and>
    (\<forall>q. q \<notin> fst ` set xs \<longrightarrow> pbufs s' q = pbufs s q)"
  using assms
proof (induction xs arbitrary: p s)
  case Nil
  then show ?case by (subst cat_loop.simps) auto
next
  case (Cons x xs)
  obtain b where x: "x = (p, b)" "p \<noteq> 0" "pbufs s p = Some b" "linked (pbufs s) (pb_next b) (xs @ [(l, c)])" using Cons.prems(2) by (cases x) auto
  have nx: "pb_next b \<noteq> 0" using x(4) by (cases xs) auto
  note U = pbufs_ok_upd[OF Cons.prems(1) x(3), of "\<lambda>b. b\<lparr>tot_len := tot_len b + k\<rparr>"]
  let ?b = "b\<lparr>tot_len := tot_len b + k\<rparr>"
  let ?s = "s\<lparr>pbufs := (pbufs s)(p \<mapsto> ?b)\<rparr>"
  have u: "upd_pbuf p (\<lambda>b. b\<lparr>tot_len := tot_len b + k\<rparr>) s = Some ?s" "pbufs_ok E H ?s" using U by simp_all
  have dis: "p \<notin> fst ` set (xs @ [(l, c)])" using linked_distinct[OF Cons.prems(2)] x(1) by auto
  then have "linked (pbufs ?s) (pb_next b) (xs @ [(l, c)]) = linked (pbufs s) (pb_next b) (xs @ [(l, c)])" by (intro linked_cong) force
  then have ch: "linked (pbufs ?s) (pb_next b) (xs @ [(l, c)])" using x(4) by blast
  obtain s' where s': "cat_loop (pb_next b) k ?s = Some (l, s')" "pbufs_ok E H s'" "memory s' = memory s" "linked (pbufs s') (pb_next b) (map (bump k) xs @ [(l, c)])"
    "\<forall>q. q \<notin> fst ` set xs \<longrightarrow> pbufs s' q = pbufs ?s q" using Cons.IH[OF u(2) ch] by auto
  have "cat_loop p k s = cat_loop (pb_next b) k ?s" using x(3) nx u(1) by (subst cat_loop.simps) simp
  moreover have "pbufs s' p = Some ?b" using s'(5) dis by simp
  then have "linked (pbufs s') p (map (bump k) (x # xs) @ [(l, c)])" using s'(4) x(1,2) by (simp add: bump_def)
  ultimately show ?case using s' x(1) by auto
qed

lemma cat_ok:
  assumes "pbufs_ok E (add_mset t H) s" "linked (pbufs s) h (xs @ [(l, c)])" "linked (pbufs s) t ys" "fst ` set ys \<inter> fst ` set (xs @ [(l, c)]) = {}"
  defines "k \<equiv> tot_len (snd (hd ys))"
  shows "\<exists>s'. pbuf_cat h t s = Some s' \<and> pbufs_ok E H s' \<and> memory s' = memory s \<and>
    linked (pbufs s') h (map (bump k) xs @ (l, c\<lparr>tot_len := tot_len c + k, pb_next := t\<rparr>) # ys)"
proof -
  have t: "t \<noteq> 0" "\<exists>b. pbufs s t = Some b" using pbufs_okD(3)[OF assms(1), of t] by auto
  then obtain b ys' where b: "ys = (t, b) # ys'" "pbufs s t = Some b" "k = tot_len b" using assms(3) unfolding k_def by (cases ys) auto
  have h: "h \<noteq> 0" using assms(2) by (cases xs) auto
  obtain s1 where s1: "cat_loop h k s = Some (l, s1)" "pbufs_ok E (add_mset t H) s1" "memory s1 = memory s" "linked (pbufs s1) h (map (bump k) xs @ [(l, c)])"
    "\<forall>q. q \<notin> fst ` set xs \<longrightarrow> pbufs s1 q = pbufs s q" using cat_loop_ok[OF assms(1,2)] by blast
  have l: "pbufs s1 l = Some c" "l \<noteq> 0" "pb_next c = 0" using linked_suffix[OF s1(4)] by auto
  have "linked (pbufs s1) t ys = linked (pbufs s) t ys" by (rule linked_cong) (use s1(5) assms(4) in \<open>force\<close>)
  then have cy: "linked (pbufs s1) t ys" using assms(3) by simp
  let ?c = "c\<lparr>tot_len := tot_len c + k\<rparr>"
  let ?s = "s1\<lparr>pbufs := (pbufs s1)(l \<mapsto> ?c)\<rparr>"
  have ok: "pbufs_ok E (add_mset t H) ?s" using pbufs_ok_upd(2)[OF s1(2) l(1), of "\<lambda>b. b\<lparr>tot_len := tot_len b + k\<rparr>"] by simp
  have ln: "l \<notin> fst ` set ys" using assms(4) by auto
  then have "linked (pbufs ?s) t ys = linked (pbufs s1) t ys" by (intro linked_cong) force
  then have cy2: "linked (pbufs ?s) t ys" using cy by simp
  have ok2: "pbufs_ok E H (?s\<lparr>pbufs := (pbufs ?s)(l \<mapsto> ?c\<lparr>pb_next := t\<rparr>)\<rparr>)" by (rule link_ok[OF ok _ _ cy2 ln]) (simp_all add: l)
  let ?m = "(pbufs s1)(l \<mapsto> ?c\<lparr>pb_next := t\<rparr>)"
  have "pbuf_cat h t s = Some (s1\<lparr>pbufs := ?m\<rparr>)" using h t(1) b(2,3) s1(1) l(1) by (simp add: pbuf_cat_def upd_pbuf_def)
  moreover have "pbufs_ok E H (s1\<lparr>pbufs := ?m\<rparr>)" using ok2 by simp
  moreover have "linked ?m h (map (bump k) xs @ (l, ?c\<lparr>pb_next := t\<rparr>) # ys)"
  proof -
    have "linked ?m t ys = linked (pbufs s1) t ys" by (rule linked_cong) (use ln in force)
    then have tl: "linked ?m l ((l, ?c\<lparr>pb_next := t\<rparr>) # ys)" using cy l(2) by simp
    have "linked (pbufs s1) p (as @ [(l, c)]) \<Longrightarrow> l \<notin> fst ` set as \<Longrightarrow> linked ?m p (as @ (l, ?c\<lparr>pb_next := t\<rparr>) # ys)" for p as
      using tl by (induction as arbitrary: p) auto
    moreover have "l \<notin> fst ` set (map (bump k) xs)" using linked_distinct[OF s1(4)] by (simp add: comp_def image_comp)
    ultimately show ?thesis using s1(4) by blast
  qed
  ultimately show ?thesis using s1(3) by auto
qed

lemma ref_ok:
  assumes "pbufs_ok E H s" "pbufs s p = Some b" "pb_ref b \<noteq> 0xFFFF"
  shows "\<exists>s'. pbuf_ref p s = Some s' \<and> pbufs_ok E (add_mset p H) s' \<and> memory s' = memory s \<and> pbufs s' = (pbufs s)(p \<mapsto> b\<lparr>pb_ref := pb_ref b + 1\<rparr>)"
proof -
  have "p \<noteq> 0" using refs_okD(2)[OF pbufs_okD(1)[OF assms(1)]] assms(2) by (cases "p = 0") auto
  moreover have "refs_ok ((pbufs s)(p \<mapsto> b\<lparr>pb_ref := pb_ref b + 1\<rparr>)) (add_mset p H)" by (rule refs_ok_ref[OF pbufs_okD(1)[OF assms(1)] assms(2,3)])
  moreover have "pools_ok E (pools s) ((pbufs s)(p \<mapsto> b\<lparr>pb_ref := pb_ref b + 1\<rparr>))" by (rule pools_ok_upd[OF pbufs_okD(2)[OF assms(1)] assms(2)]) simp
  ultimately show ?thesis using assms(2) by (simp add: pbuf_ref_def upd_pbuf_def pbufs_ok_def)
qed

text \<open>Both packets of a concatenation hold, and \<open>t\<close> can take one more reference.\<close>

lemma pbuf_chain_ok:
  assumes "pbufs_ok E (add_mset t H) s" "linked (pbufs s) h xs" "xs \<noteq> []" "linked (pbufs s) t ys" "fst ` set ys \<inter> fst ` set xs = {}"
    "pbufs s t = Some b" "pb_ref b \<noteq> 0xFFFF"
  shows "\<exists>s'. pbuf_chain h t s = Some s' \<and> pbufs_ok E (add_mset t H) s' \<and> memory s' = memory s"
proof -
  obtain as l c where xs: "xs = as @ [(l, c)]" using assms(3) by (metis rev_exhaust surj_pair)
  obtain s1 where s1: "pbuf_cat h t s = Some s1" "pbufs_ok E H s1" "memory s1 = memory s"
    "linked (pbufs s1) h (map (bump (tot_len (snd (hd ys)))) as @ (l, c\<lparr>tot_len := tot_len c + tot_len (snd (hd ys)), pb_next := t\<rparr>) # ys)"
    using cat_ok[OF assms(1) _ assms(4)] assms(2,5) unfolding xs by blast
  have "ys \<noteq> []" using assms(4) pbufs_okD(3)[OF assms(1), of t] by (cases ys) auto
  then have "hd ys = (t, b)" using assms(4,6) by (cases ys) auto
  then have "(t, b) \<in> set ys" using \<open>ys \<noteq> []\<close> by (metis hd_in_set)
  then have "pbufs s1 t = Some b" using linked_live[OF s1(4), of t b] by simp
  then show ?thesis using ref_ok[OF s1(2) _ assms(7)] s1(1,3) by (auto simp: pbuf_chain_def)
qed

section \<open>Cutting\<close>

lemma after_free_upd: "r \<notin> fst ` set xs \<Longrightarrow> after_free xs (m(r := v)) = (after_free xs m)(r := v)"
  by (induction xs arbitrary: m) (auto simp: fun_upd_twist simp del: fun_upd_apply)

lemma after_free_other: "r \<notin> fst ` set xs \<Longrightarrow> after_free xs m r = m r"
  by (induction xs arbitrary: m) auto

lemma unlink_ok:
  assumes "pbufs_ok E H s" "pbufs s r = Some c" "pb_next c = t" "t \<noteq> 0"
  shows "pbufs_ok E (add_mset t H) (s\<lparr>pbufs := (pbufs s)(r \<mapsto> c\<lparr>pb_next := 0\<rparr>)\<rparr>)"
proof -
  have "refs_ok ((pbufs s)(r \<mapsto> c\<lparr>pb_next := 0\<rparr>)) (add_mset t H)" by (rule refs_ok_unlink[OF pbufs_okD(1)[OF assms(1)] assms(2-4)])
  moreover have "pools_ok E (pools s) ((pbufs s)(r \<mapsto> c\<lparr>pb_next := 0\<rparr>))" by (rule pools_ok_upd[OF pbufs_okD(2)[OF assms(1)] assms(2)]) simp
  ultimately show ?thesis by (simp add: pbufs_ok_def)
qed

lemma dechain_ok:
  assumes "pools_conf E" "pbufs_ok E H s" "p \<in># H"
  shows "\<exists>q s'. pbuf_dechain p s = Some (q, s') \<and> pbufs_ok E H s' \<and> memory s' = memory s"
proof -
  obtain b where b: "pbufs s p = Some b" using pbufs_okD(3)[OF assms(2,3)] by blast
  show ?thesis
  proof (cases "pb_next b = 0")
    case True
    then show ?thesis using b assms(2) by (simp add: pbuf_dechain_def)
  next
    case nz: False
    obtain c where c: "pbufs s (pb_next b) = Some c" using refs_ok_next[OF pbufs_okD(1)[OF assms(2)] b nz] by blast
    let ?q = "pb_next b" and ?n = "tot_len b - pb_len b"
    obtain xs where xs: "linked (pbufs s) p ((p, b) # xs)" using pbufs_okD(3)[OF assms(2,3)] b by auto
    then have "p \<notin> fst ` set xs" "xs \<noteq> []" using linked_distinct[OF xs] nz by (simp, cases xs, auto)
    then have pq: "p \<noteq> ?q" using xs by (cases xs) auto
    define s1 where "s1 = s\<lparr>pbufs := (pbufs s)(?q \<mapsto> c\<lparr>tot_len := ?n\<rparr>)\<rparr>"
    have u1: "upd_pbuf ?q (\<lambda>c. c\<lparr>tot_len := ?n\<rparr>) s = Some s1" "pbufs_ok E H s1" unfolding s1_def
      using pbufs_ok_upd[OF assms(2) c, of "\<lambda>c. c\<lparr>tot_len := ?n\<rparr>"] by simp_all
    have p1: "pbufs s1 p = Some b" using b pq by (simp add: s1_def)
    define s2 where "s2 = s1\<lparr>pbufs := (pbufs s1)(p \<mapsto> b\<lparr>pb_next := 0\<rparr>)\<rparr>"
    have ok2: "pbufs_ok E (add_mset ?q H) s2" unfolding s2_def by (rule unlink_ok[OF u1(2) p1 refl nz])
    define s3 where "s3 = s1\<lparr>pbufs := (pbufs s1)(p \<mapsto> b\<lparr>pb_next := 0, tot_len := pb_len b\<rparr>)\<rparr>"
    have p2: "pbufs s2 p = Some (b\<lparr>pb_next := 0\<rparr>)" by (simp add: s2_def)
    have ok3: "pbufs_ok E (add_mset ?q H) s3"
      using pbufs_ok_upd(2)[OF ok2 p2, of "\<lambda>b. b\<lparr>tot_len := pb_len b\<rparr>"] by (simp add: s2_def s3_def)
    have u3: "upd_pbuf p (\<lambda>b. b\<lparr>pb_next := 0, tot_len := pb_len b\<rparr>) s1 = Some s3" using p1 by (simp add: upd_pbuf_def s3_def)
    obtain n s' where f: "pbuf_free ?q s3 = Some (n, s')" "memory s' = memory s3" "pbufs_ok E H s'" using pbuf_free_ok[OF assms(1) ok3] by blast
    have "pbuf_dechain p s = Some (if n > 0 then 0 else ?q, s')" using b nz u1(1) u3 f(1) by (simp add: pbuf_dechain_def Let_def)
    then show ?thesis using f(2,3) by (simp add: s3_def s1_def)
  qed
qed

lemma realloc_loop_ok:
  assumes "pbufs_ok E H s" "linked (pbufs s) p xs" "unat rem_len \<le> lens xs" "p \<noteq> 0"
  shows "\<exists>as q c bs n s'. xs = as @ (q, c) # bs \<and> lens as + unat n = unat rem_len \<and> n \<le> pb_len c \<and> realloc_loop p rem_len grow s = Some (q, n, s') \<and>
    pbufs_ok E H s' \<and> memory s' = memory s \<and> linked (pbufs s') p (map (bump grow) as @ (q, c) # bs) \<and> (\<forall>r. r \<notin> fst ` set xs \<longrightarrow> pbufs s' r = pbufs s r)"
  using assms
proof (induction xs arbitrary: p s rem_len)
  case (Cons x xs)
  obtain b where x: "x = (p, b)" "p \<noteq> 0" "pbufs s p = Some b" "linked (pbufs s) (pb_next b) xs" using Cons.prems(2) by (cases x) auto
  show ?case
  proof (cases "rem_len > pb_len b")
    case False
    then have "realloc_loop p rem_len grow s = Some (p, rem_len, s)" using x(3) by (subst realloc_loop.simps) simp
    then show ?thesis using False x Cons.prems(1,2) by (intro exI[of _ "[]"] exI[of _ p] exI[of _ b] exI[of _ xs] exI[of _ rem_len] exI[of _ s]) (simp add: not_less)
  next
    case True
    let ?b = "b\<lparr>tot_len := tot_len b + grow\<rparr>"
    let ?s = "s\<lparr>pbufs := (pbufs s)(p \<mapsto> ?b)\<rparr>"
    have u: "upd_pbuf p (\<lambda>b. b\<lparr>tot_len := tot_len b + grow\<rparr>) s = Some ?s" "pbufs_ok E H ?s"
      using pbufs_ok_upd[OF Cons.prems(1) x(3), of "\<lambda>b. b\<lparr>tot_len := tot_len b + grow\<rparr>"] by simp_all
    have r: "unat (rem_len - pb_len b) = unat rem_len - unat (pb_len b)" "unat (pb_len b) < unat rem_len" using True by (simp_all add: unat_sub less_imp_le word_less_nat_alt)
    have le: "unat (rem_len - pb_len b) \<le> lens xs" using r Cons.prems(3) x(1) by simp
    have "lens xs > 0" using r Cons.prems(3) x(1) by simp
    then have nz: "pb_next b \<noteq> 0" using x(4) by (cases xs) auto
    have dis: "p \<notin> fst ` set xs" using linked_distinct[OF Cons.prems(2)] x(1) by auto
    then have "linked (pbufs ?s) (pb_next b) xs = linked (pbufs s) (pb_next b) xs" by (intro linked_cong) force
    then have ch: "linked (pbufs ?s) (pb_next b) xs" using x(4) by blast
    obtain as q c bs n s' where *: "xs = as @ (q, c) # bs" "lens as + unat n = unat (rem_len - pb_len b)" "n \<le> pb_len c"
      "realloc_loop (pb_next b) (rem_len - pb_len b) grow ?s = Some (q, n, s')" "pbufs_ok E H s'" "memory s' = memory s"
      "linked (pbufs s') (pb_next b) (map (bump grow) as @ (q, c) # bs)" and fr: "\<forall>r. r \<notin> fst ` set xs \<longrightarrow> pbufs s' r = pbufs ?s r"
      using Cons.IH[OF u(2) ch le nz] by auto
    have "realloc_loop p rem_len grow s = realloc_loop (pb_next b) (rem_len - pb_len b) grow ?s" using True x(3) u(1) by (subst realloc_loop.simps) simp
    moreover have "pbufs s' p = Some ?b" using fr dis by simp
    then have "linked (pbufs s') p (map (bump grow) (x # as) @ (q, c) # bs)" using *(7) x(1,2) by (simp add: bump_def)
    moreover have "\<forall>r. r \<notin> fst ` set (x # xs) \<longrightarrow> pbufs s' r = pbufs s r" using fr x(1) by simp
    moreover have "x # xs = (x # as) @ (q, c) # bs" "lens (x # as) + unat n = unat rem_len" using *(1,2) r x(1) by simp_all
    ultimately show ?thesis using *(3-6) by (intro exI[of _ "x # as"] exI[of _ q] exI[of _ c] exI[of _ bs] exI[of _ n] exI[of _ s']) simp
  qed
qed simp

lemma pkt_data_bump: "pkt_data m (map (bump k) xs) = pkt_data m xs"
  by (induction xs) (auto simp: bump_def buf_data_def)

lemma pkt_data_split: "pkt_data m (xs @ x # ys) = pkt_data m xs @ buf_data m (snd x) @ pkt_data m ys"
  by (cases x) (simp add: pkt_data_append)

lemma realloc_ok:
  assumes "pools_conf E" "pbufs_ok E H s" "linked (pbufs s) p ((p, b) # xs)" "unat new_len \<le> lens ((p, b) # xs)" "new_len < tot_len b"
  shows "\<exists>s' ys. pbuf_realloc p new_len s = Some s' \<and> pbufs_ok E H s' \<and> memory s' = memory s \<and> linked (pbufs s') p ys \<and> ys \<noteq> [] \<and>
    pkt_data (memory s) ys = take (unat new_len) (pkt_data (memory s) ((p, b) # xs))"
proof -
  let ?X = "(p, b) # xs" and ?g = "new_len - tot_len b"
  have p: "p \<noteq> 0" "pbufs s p = Some b" using assms(3) by auto
  obtain as q c bs n s1 where 1: "?X = as @ (q, c) # bs" "lens as + unat n = unat new_len" "n \<le> pb_len c" "realloc_loop p new_len ?g s = Some (q, n, s1)"
    "pbufs_ok E H s1" "memory s1 = memory s" "linked (pbufs s1) p (map (bump ?g) as @ (q, c) # bs)"
    using realloc_loop_ok[OF assms(2,3,4) p(1), of ?g] by blast
  have tl: "linked (pbufs s1) q ((q, c) # bs)" using linked_suffix[OF 1(7)] .
  then have q: "pbufs s1 q = Some c" "q \<noteq> 0" "linked (pbufs s1) (pb_next c) bs" "q \<notin> fst ` set bs" using linked_distinct[OF tl] by auto
  have dis: "q \<notin> fst ` set as" "fst ` set as \<inter> fst ` set bs = {}" using linked_distinct[OF 1(7)] by (auto simp: comp_def image_comp)
  let ?c = "c\<lparr>pb_len := n, tot_len := n\<rparr>"
  define s2 where "s2 = s1\<lparr>pbufs := (pbufs s1)(q \<mapsto> ?c)\<rparr>"
  have u2: "upd_pbuf q (\<lambda>b. b\<lparr>pb_len := n, tot_len := n\<rparr>) s1 = Some s2" "pbufs_ok E H s2" unfolding s2_def
    using pbufs_ok_upd[OF 1(5) q(1), of "\<lambda>b. b\<lparr>pb_len := n, tot_len := n\<rparr>"] by simp_all
  have q2: "pbufs s2 q = Some ?c" by (simp add: s2_def)
  have "linked (pbufs s2) (pb_next c) bs = linked (pbufs s1) (pb_next c) bs" by (rule linked_cong) (use q(4) in \<open>force simp: s2_def\<close>)
  then have cb: "linked (pbufs s2) (pb_next c) bs" using q(3) by blast
  let ?e = "?c\<lparr>pb_next := 0\<rparr>"
  have "\<exists>s4. (if pb_next c \<noteq> 0 then map_option snd (pbuf_free (pb_next c) s2) else Some s2) = Some s4 \<and> pbufs_ok E H (s4\<lparr>pbufs := (pbufs s4)(q \<mapsto> ?e)\<rparr>) \<and>
    memory s4 = memory s \<and> pbufs s4 q = Some ?c \<and> (\<forall>r \<in> fst ` set as. pbufs s4 r = pbufs s1 r)"
  proof (cases "pb_next c = 0")
    case True
    then have "?e = ?c" by (cases c) simp
    then have "s2\<lparr>pbufs := (pbufs s2)(q \<mapsto> ?e)\<rparr> = s2" using q2 by (simp add: fun_upd_idem)
    then show ?thesis using True u2(2) 1(6) q2 dis(1) by (auto simp: s2_def)
  next
    case nz: False
    define s3 where "s3 = s2\<lparr>pbufs := (pbufs s2)(q \<mapsto> ?e)\<rparr>"
    have ok3: "pbufs_ok E (add_mset (pb_next c) H) s3" unfolding s3_def using unlink_ok[OF u2(2) q2 _ nz] by simp
    have fl: "\<exists>s4. free_loop (pb_next c) 0 s2 = Some (0 + of_nat (freed bs), s4) \<and> pbufs s4 = after_free bs (pbufs s2) \<and> pools_ok E (pools s4) (pbufs s4) \<and> memory s4 = memory s2"
      by (rule free_loop_val[OF assms(1) pbufs_okD(2)[OF u2(2)] cb])
    then obtain s4 where s4: "pbuf_free (pb_next c) s2 = Some (of_nat (freed bs), s4)" "pbufs s4 = after_free bs (pbufs s2)" "pools_ok E (pools s4) (pbufs s4)" "memory s4 = memory s2"
      using nz by (auto simp: pbuf_free_def)
    have "linked (pbufs s3) (pb_next c) bs = linked (pbufs s2) (pb_next c) bs" by (rule linked_cong) (use q(4) in \<open>force simp: s3_def\<close>)
    then have "refs_ok (after_free bs (pbufs s3)) H" using refs_ok_free[OF pbufs_okD(1)[OF ok3]] cb by blast
    moreover have "after_free bs (pbufs s3) = (pbufs s4)(q \<mapsto> ?e)" unfolding s3_def s4(2) using after_free_upd[OF q(4)] by simp
    moreover have q4: "pbufs s4 q = Some ?c" unfolding s4(2) using after_free_other[OF q(4)] q2 by metis
    moreover have "pools_ok E (pools s4) ((pbufs s4)(q \<mapsto> ?e))" by (rule pools_ok_upd[OF s4(3) q4]) simp
    ultimately have "pbufs_ok E H (s4\<lparr>pbufs := (pbufs s4)(q \<mapsto> ?e)\<rparr>)" by (simp add: pbufs_ok_def)
    moreover have "pbufs s4 r = pbufs s1 r" if r: "r \<in> fst ` set as" for r
    proof -
      have "r \<notin> fst ` set bs" "r \<noteq> q" using dis r by auto
      then show ?thesis unfolding s4(2) using after_free_other[of r bs "pbufs s2"] by (simp add: s2_def)
    qed
    ultimately show ?thesis using nz s4(1,4) q4 1(6) by (auto simp: s2_def)
  qed
  then obtain s4 where s4: "(if pb_next c \<noteq> 0 then map_option snd (pbuf_free (pb_next c) s2) else Some s2) = Some s4" "pbufs_ok E H (s4\<lparr>pbufs := (pbufs s4)(q \<mapsto> ?e)\<rparr>)"
    "memory s4 = memory s" "pbufs s4 q = Some ?c" "\<forall>r \<in> fst ` set as. pbufs s4 r = pbufs s1 r" by blast
  let ?s = "s4\<lparr>pbufs := (pbufs s4)(q \<mapsto> ?e)\<rparr>" and ?Y = "map (bump ?g) as @ [(q, ?e)]"
  have "upd_pbuf q (\<lambda>b. b\<lparr>pb_next := 0\<rparr>) s4 = Some ?s" using s4(4) by (simp add: upd_pbuf_def)
  then have run: "pbuf_realloc p new_len s = Some ?s" using p(2) assms(5) 1(4) u2(1) q2 s4(1) by (cases "pb_next c = 0") (auto simp: pbuf_realloc_def not_le)
  have ch: "linked (pbufs s1) r (zs @ (q, c) # bs) \<Longrightarrow> \<forall>z \<in> fst ` set zs. pbufs s4 z = pbufs s1 z \<and> z \<noteq> q \<Longrightarrow> linked (pbufs ?s) r (zs @ [(q, ?e)])" for r zs
    using q(2) by (induction zs arbitrary: r) auto
  have "linked (pbufs ?s) p ?Y" by (rule ch[OF 1(7)]) (use s4(5) dis(1) in \<open>auto simp: comp_def image_comp\<close>)
  moreover have "pkt_data (memory s) ?Y = take (unat new_len) (pkt_data (memory s) ?X)"
  proof -
    have "buf_data (memory s) ?e = take (unat n) (buf_data (memory s) c)"
      using 1(3) data_at_part[of 0 "unat n" "unat (pb_len c)" "memory s" "payload c"] by (simp add: buf_data_def word_le_nat_alt)
    moreover have "length (pkt_data (memory s) as) = lens as" by (rule length_pkt_data)
    ultimately show ?thesis unfolding 1(1) pkt_data_split using 1(2,3) by (simp add: pkt_data_split pkt_data_bump flip: 1(2)) (simp add: word_le_nat_alt)
  qed
  ultimately show ?thesis using run s4(2,3) by (intro exI[of _ ?s] exI[of _ ?Y]) simp
qed

lemma header_ok:
  assumes "pbufs_ok E H s" "p \<in># H"
  shows "\<exists>r s'. pbuf_header p inc s = Some (r, s') \<and> pbufs_ok E H s' \<and> memory s' = memory s"
proof -
  obtain b where b: "pbufs s p = Some b" "p \<noteq> 0" using pbufs_okD(3)[OF assms] by blast
  have u: "upd_pbuf p (\<lambda>b. b\<lparr>payload := a, pb_len := pb_len b + inc, tot_len := tot_len b + inc\<rparr>) s =
      Some (s\<lparr>pbufs := (pbufs s)(p \<mapsto> b\<lparr>payload := a, pb_len := pb_len b + inc, tot_len := tot_len b + inc\<rparr>)\<rparr>) \<and>
    pbufs_ok E H (s\<lparr>pbufs := (pbufs s)(p \<mapsto> b\<lparr>payload := a, pb_len := pb_len b + inc, tot_len := tot_len b + inc\<rparr>)\<rparr>)" for a
    using pbufs_ok_upd[OF assms(1) b(1), of "\<lambda>b. b\<lparr>payload := a, pb_len := pb_len b + inc, tot_len := tot_len b + inc\<rparr>"] by simp
  show ?thesis using b assms(1) u by (auto simp: pbuf_header_def Let_def)
qed

section \<open>Any program\<close>

datatype pbuf_call = Alloc pbuf_env pbuf_layer u16 pbuf_type | Ref nat | Free nat | Cat nat nat | Chain nat nat | Dechain nat | Realloc nat u16 | Header nat u16

text \<open>What a call does to the state and to the references the program holds: \<^verbatim>\<open>pbuf_cat\<close> takes over the one to its tail.\<close>

fun call_pbuf :: "pbuf_call \<Rightarrow> pbuf_state \<Rightarrow> nat multiset \<Rightarrow> (pbuf_state \<times> nat multiset) option" where
  "call_pbuf (Alloc env layer sz type) s H = do { (p, s') \<leftarrow> pbuf_alloc env layer sz type s; Some (s', if p = 0 then H else add_mset p H) }"
| "call_pbuf (Ref p) s H = do { s' \<leftarrow> pbuf_ref p s; Some (s', add_mset p H) }"
| "call_pbuf (Free p) s H = do { (_, s') \<leftarrow> pbuf_free p s; Some (s', H - {#p#}) }"
| "call_pbuf (Cat h t) s H = do { s' \<leftarrow> pbuf_cat h t s; Some (s', H - {#t#}) }"
| "call_pbuf (Chain h t) s H = do { s' \<leftarrow> pbuf_chain h t s; Some (s', H) }"
| "call_pbuf (Dechain p) s H = do { (_, s') \<leftarrow> pbuf_dechain p s; Some (s', H) }"
| "call_pbuf (Realloc p n) s H = do { s' \<leftarrow> pbuf_realloc p n s; Some (s', H) }"
| "call_pbuf (Header p n) s H = do { (_, s') \<leftarrow> pbuf_header p n s; Some (s', H) }"

definition disjoint_chains :: "pbuf_state \<Rightarrow> nat \<Rightarrow> nat \<Rightarrow> bool" where
  "disjoint_chains s h t \<longleftrightarrow> (\<forall>xs ys. linked (pbufs s) h xs \<longrightarrow> linked (pbufs s) t ys \<longrightarrow> fst ` set ys \<inter> fst ` set xs = {})"

text \<open>
  What the caller owes: it holds the references it passes, does not tie a chain to itself, does not count beyond 16 bits, and shortens a packet only to a length that the buffers really have.
\<close>

fun permitted :: "nat list list \<Rightarrow> pbuf_state \<Rightarrow> nat multiset \<Rightarrow> pbuf_call \<Rightarrow> bool" where
  "permitted E s H (Alloc env layer sz type) \<longleftrightarrow> stale_flags env AND PBUF_FLAG_IS_CUSTOM = 0 \<and> (type = PBUF_RAM \<longrightarrow> heap_ok E env layer sz s)"
| "permitted E s H (Ref p) \<longleftrightarrow> p \<in># H \<and> (\<forall>b. pbufs s p = Some b \<longrightarrow> pb_ref b \<noteq> 0xFFFF)"
| "permitted E s H (Free p) \<longleftrightarrow> p \<in># H"
| "permitted E s H (Cat h t) \<longleftrightarrow> h \<in># H \<and> t \<in># H \<and> disjoint_chains s h t"
| "permitted E s H (Chain h t) \<longleftrightarrow> h \<in># H \<and> t \<in># H \<and> disjoint_chains s h t \<and> (\<forall>b. pbufs s t = Some b \<longrightarrow> pb_ref b \<noteq> 0xFFFF)"
| "permitted E s H (Dechain p) \<longleftrightarrow> p \<in># H"
| "permitted E s H (Realloc p n) \<longleftrightarrow> p \<in># H \<and> (\<forall>b xs. linked (pbufs s) p ((p, b) # xs) \<longrightarrow> n < tot_len b \<longrightarrow> unat n \<le> lens ((p, b) # xs))"
| "permitted E s H (Header p n) \<longleftrightarrow> p \<in># H"

lemma pbuf_call_ok:
  assumes "pools_conf E" "pbufs_ok E H s" "permitted E s H call"
  shows "\<exists>s' H'. call_pbuf call s H = Some (s', H') \<and> pbufs_ok E H' s'"
proof (cases call)
  case (Alloc env layer sz type)
  obtain p s' where "pbuf_alloc env layer sz type s = Some (p, s')" "allocated E H type sz p s s'" using alloc_ok[OF assms(1,2), of env type layer sz] assms(3) Alloc by auto
  then show ?thesis using Alloc refs_okD(2)[OF pbufs_okD(1)] unfolding allocated_def by auto
next
  case (Ref p)
  then obtain b where "pbufs s p = Some b" "pb_ref b \<noteq> 0xFFFF" using pbufs_okD(3)[OF assms(2), of p] assms(3) by auto
  then obtain s' where "pbuf_ref p s = Some s'" "pbufs_ok E (add_mset p H) s'" using ref_ok[OF assms(2)] by blast
  then show ?thesis using Ref by simp
next
  case (Free p)
  then have "H = add_mset p (H - {#p#})" using assms(3) by simp
  then show ?thesis using pbuf_free_ok[OF assms(1), of p "H - {#p#}" s] assms(2) Free by auto
next
  case (Cat h t)
  then have H: "H = add_mset t (H - {#t#})" and dis: "disjoint_chains s h t" using assms(3) by simp_all
  obtain b xs where xs: "linked (pbufs s) h ((h, b) # xs)" using pbufs_okD(3)[OF assms(2), of h] assms(3) Cat by auto
  obtain c ys where ys: "linked (pbufs s) t ((t, c) # ys)" using pbufs_okD(3)[OF assms(2), of t] assms(3) Cat by auto
  obtain as l d where as: "(h, b) # xs = as @ [(l, d)]" by (metis list.discI rev_exhaust surj_pair)
  have fs: "fst ` set ((t, c) # ys) \<inter> fst ` set (as @ [(l, d)]) = {}" using dis xs ys unfolding disjoint_chains_def as by blast
  show ?thesis using cat_ok[of E t "H - {#t#}" s h as l d "(t, c) # ys"] H assms(2) xs ys fs Cat as by auto
next
  case (Chain h t)
  then have H: "H = add_mset t (H - {#t#})" and dis: "disjoint_chains s h t" using assms(3) by simp_all
  obtain b xs where xs: "linked (pbufs s) h ((h, b) # xs)" using pbufs_okD(3)[OF assms(2), of h] assms(3) Chain by auto
  obtain c ys where ys: "pbufs s t = Some c" "linked (pbufs s) t ((t, c) # ys)" using pbufs_okD(3)[OF assms(2), of t] assms(3) Chain by auto
  have fs: "fst ` set ((t, c) # ys) \<inter> fst ` set ((h, b) # xs) = {}" using dis xs ys unfolding disjoint_chains_def by blast
  have "pb_ref c \<noteq> 0xFFFF" using assms(3) Chain ys by simp
  then show ?thesis using pbuf_chain_ok[of E t "H - {#t#}" s h "(h, b) # xs" "(t, c) # ys" c] H assms(2) xs ys fs Chain by auto
next
  case (Dechain p)
  then show ?thesis using dechain_ok[OF assms(1,2), of p] assms(3) by auto
next
  case (Realloc p n)
  then obtain b xs where xs: "pbufs s p = Some b" "linked (pbufs s) p ((p, b) # xs)" using pbufs_okD(3)[OF assms(2), of p] assms(3) by auto
  show ?thesis
  proof (cases "n < tot_len b")
    case True
    then have "unat n \<le> lens ((p, b) # xs)" using xs assms(3) Realloc by simp
    then show ?thesis using realloc_ok[OF assms(1,2) xs(2) _ True] Realloc by auto
  next
    case False
    then show ?thesis using Realloc xs(1) assms(2) by (simp add: pbuf_realloc_def not_less)
  qed
next
  case (Header p n)
  then show ?thesis using header_ok[OF assms(2), of p n] assms(3) by auto
qed

inductive pbuf_run :: "nat list list \<Rightarrow> pbuf_state \<Rightarrow> pbuf_state \<Rightarrow> nat multiset \<Rightarrow> bool" for E s0 where
  start: "pbuf_run E s0 s0 {#}"
| call: "pbuf_run E s0 s H \<Longrightarrow> permitted E s H c \<Longrightarrow> call_pbuf c s H = Some (s', H') \<Longrightarrow> pbuf_run E s0 s' H'"

lemma run_ok: "pbuf_run E s0 s H \<Longrightarrow> pools_conf E \<Longrightarrow> pbufs_ok E {#} s0 \<Longrightarrow> pbufs_ok E H s"
proof (induction rule: pbuf_run.induct)
  case (call s H c s' H')
  then show ?case using pbuf_call_ok[of E H s c] by auto
qed simp

lemma no_refs_empty:
  assumes "refs_ok m {#}"
  shows "m = Map.empty"
proof (rule ccontr)
  assume "m \<noteq> Map.empty"
  then have ne: "dom m \<noteq> {}" by auto
  define f where "f q = length (SOME xs. linked m q xs)" for q
  have f: "f q = length xs" if "linked m q xs" for q xs unfolding f_def using linked_unique[OF someI[of "linked m q", OF that] that] by simp
  have fin: "finite (f ` dom m)" "f ` dom m \<noteq> {}" using refs_okD(1)[OF assms] ne by simp_all
  obtain q where q: "q \<in> dom m" "Max (f ` dom m) = f q" using Max_in[OF fin] by blast
  have mx: "f r \<le> f q" if "r \<in> dom m" for r using Max_ge[OF fin(1), of "f r"] that q(2) by simp
  have "\<exists>b. m q = Some b" using q(1) by blast
  then obtain b where b: "m q = Some b" by blast
  have "0 < unat (pb_ref b)" using refs_okD(7)[OF assms b] by (simp add: unat_gt_0)
  then have "card (preds m q) \<noteq> 0" using refs_okD(6)[OF assms b] by simp
  then have "preds m q \<noteq> {}" by auto
  then obtain r c where r: "m r = Some c" "pb_next c = q" unfolding preds_def by blast
  obtain xs where xs: "linked m q xs" using refs_okD(4)[OF assms b] by blast
  have "r \<noteq> 0" using r(1) refs_okD(2)[OF assms] by (cases "r = 0") auto
  then have "linked m r ((r, c) # xs)" using r xs by simp
  then have "f r = length ((r, c) # xs)" by (rule f)
  then show False using mx[of r] r(1) f[OF xs] by auto
qed

definition pbuf_start :: "memp \<Rightarrow> (nat \<Rightarrow> u8 option) \<Rightarrow> pbuf_state" where
  "pbuf_start st mem = \<lparr>pools = st, pbufs = Map.empty, memory = mem, heap_freed = [], custom_freed = [], ooseq_pending = False, ooseq_calls = 0\<rparr>"

lemma pbuf_start_ok:
  assumes "conf_ok c" "MEMP_PBUF_POOL < length (memp_pools c)" "memp_init c = Some st"
  shows "pools_conf (elements c)" "pbufs_ok (elements c) {#} (pbuf_start st mem)"
proof -
  note E = elements_ok[OF assms(1)]
  show conf: "pools_conf (elements c)" using E(5,6) assms(2) by (simp add: pools_conf_def)
  have "pool_rel st (map rev (elements c))" using memp_init_val[OF assms(1)] assms(3) by simp
  then have "free_pools (elements c) st {} (map rev (elements c))" using E(6) assms(2) by (simp add: free_pools_def)
  moreover have "refs_ok Map.empty {#}" by (simp add: refs_ok_def)
  ultimately show "pbufs_ok (elements c) {#} (pbuf_start st mem)" unfolding pbufs_ok_def pools_ok_def pbuf_start_def by auto
qed

section \<open>Properties\<close>

text \<open>
  C17. A program may call the routines in any order, as long as it passes references it holds: after any such sequence from \<^verbatim>\<open>memp_init\<close> on, every permitted call returns, so that no buffer is touched that
  has been freed; every buffer it holds is live, with a chain that ends; the count of every buffer is the number of references to it; and when the program holds none, no buffer is live and the two pools are full
  again.
\<close>

theorem pbuf_refs_safe:
  assumes "conf_ok c" "MEMP_PBUF_POOL < length (memp_pools c)" "memp_init c = Some st" "pbuf_run (elements c) (pbuf_start st mem) s H"
  shows "(\<forall>call. permitted (elements c) s H call \<longrightarrow> call_pbuf call s H \<noteq> None) \<and>
    (\<forall>q \<in># H. \<exists>b xs. pbufs s q = Some b \<and> linked (pbufs s) q xs) \<and>
    (\<forall>q b. pbufs s q = Some b \<longrightarrow> unat (pb_ref b) = count H q + card {r. \<exists>d. pbufs s r = Some d \<and> pb_next d = q}) \<and>
    (H = {#} \<longrightarrow> pbufs s = Map.empty \<and> (\<exists>Ls. pool_rel (pools s) Ls \<and> set (Ls ! MEMP_PBUF) = set (elements c ! MEMP_PBUF) \<and>
      set (Ls ! MEMP_PBUF_POOL) = set (elements c ! MEMP_PBUF_POOL)))"
proof -
  note S = pbuf_start_ok[OF assms(1-3)]
  have ok: "pbufs_ok (elements c) H s" by (rule run_ok[OF assms(4) S])
  note R = pbufs_okD[OF ok]
  have live: "\<forall>call. permitted (elements c) s H call \<longrightarrow> call_pbuf call s H \<noteq> None"
  proof (intro allI impI)
    fix call assume "permitted (elements c) s H call"
    then obtain s' H' where "call_pbuf call s H = Some (s', H')" using pbuf_call_ok[OF S(1) ok, of call] by blast
    then show "call_pbuf call s H \<noteq> None" by simp
  qed
  have held: "\<forall>q \<in># H. \<exists>b xs. pbufs s q = Some b \<and> linked (pbufs s) q xs" using R(3) by meson
  have cnt: "\<forall>q b. pbufs s q = Some b \<longrightarrow> unat (pb_ref b) = count H q + card {r. \<exists>d. pbufs s r = Some d \<and> pb_next d = q}"
    using refs_okD(6)[OF R(1), unfolded preds_def] by (intro allI impI)
  have fin: "H = {#} \<longrightarrow> pbufs s = Map.empty \<and> (\<exists>Ls. pool_rel (pools s) Ls \<and> set (Ls ! MEMP_PBUF) = set (elements c ! MEMP_PBUF) \<and>
      set (Ls ! MEMP_PBUF_POOL) = set (elements c ! MEMP_PBUF_POOL))"
  proof
    assume H: "H = {#}"
    have e: "pbufs s = Map.empty" by (rule no_refs_empty[OF R(1)[unfolded H]])
    obtain Ls where "free_pools (elements c) (pools s) (dom (pbufs s)) Ls" using R(2) unfolding pools_ok_def by blast
    then have "pool_rel (pools s) Ls \<and> set (Ls ! MEMP_PBUF) = set (elements c ! MEMP_PBUF) \<and> set (Ls ! MEMP_PBUF_POOL) = set (elements c ! MEMP_PBUF_POOL)"
      unfolding free_pools_def e by simp
    then show "pbufs s = Map.empty \<and> (\<exists>Ls. pool_rel (pools s) Ls \<and> set (Ls ! MEMP_PBUF) = set (elements c ! MEMP_PBUF) \<and>
      set (Ls ! MEMP_PBUF_POOL) = set (elements c ! MEMP_PBUF_POOL))" using e by (intro conjI exI[of _ Ls]) auto
  qed
  show ?thesis by (intro conjI live held cnt fin)
qed

definition conf_example :: memp_conf where
  "conf_example = \<lparr>memp_memory = 5, memp_pools = replicate 14 (0, 4) @ [(1, 16), (2, 2016)]\<rparr>"

definition env_example :: pbuf_env where
  "env_example = \<lparr>mem_malloc = (\<lambda>n. 0), stale_flags = 0, callback_queued = True\<rparr>"

lemma conf_example_ok: "conf_ok conf_example" "MEMP_PBUF_POOL < length (memp_pools conf_example)"
  by (simp_all add: conf_ok_def conf_example_def)

theorem pbuf_refs_safe_witness:
  "\<exists>st s H. memp_init conf_example = Some st \<and> pbuf_run (elements conf_example) (pbuf_start st Map.empty) s H \<and>
     call_pbuf (Alloc env_example PBUF_RAW 100 PBUF_POOL) (pbuf_start st Map.empty) {#} = Some (s, H) \<and> (\<forall>q \<in># H. pbufs s q \<noteq> None)"
proof -
  obtain st where st: "memp_init conf_example = Some st" using memp_init_val[OF conf_example_ok(1)] by blast
  let ?c = "Alloc env_example PBUF_RAW 100 PBUF_POOL" and ?s0 = "pbuf_start st Map.empty"
  note safe = pbuf_refs_safe[OF conf_example_ok st]
  have p: "permitted (elements conf_example) ?s0 {#} ?c" by (simp add: env_example_def)
  obtain s H where sH: "call_pbuf ?c ?s0 {#} = Some (s, H)" using conjunct1[OF safe[OF pbuf_run.start]] p by fastforce
  have run: "pbuf_run (elements conf_example) ?s0 s H" by (rule pbuf_run.call[OF pbuf_run.start p sH])
  have "\<forall>q \<in># H. pbufs s q \<noteq> None" using conjunct1[OF conjunct2[OF safe[OF run]]] by fastforce
  then show ?thesis using st run sH by blast
qed

text \<open>
  C21. \<^verbatim>\<open>pbuf_alloc\<close> with a pool returns, and either gives nothing and keeps no element, or a chain of which the payloads hold exactly the length that was asked for, whose \<^verbatim>\<open>tot_len\<close> fields count what follows, and
  in which every payload lies within its element of the pool behind the structure.
\<close>

theorem pbuf_alloc_fits:
  assumes "pools_conf E" "pbufs_ok E H s" "stale_flags env AND PBUF_FLAG_IS_CUSTOM = 0"
  shows "\<exists>p s'. pbuf_alloc env layer sz PBUF_POOL s = Some (p, s') \<and> memory s' = memory s \<and> (p = 0 \<and> pbufs_ok E H s' \<or>
    pbufs s p = None \<and> pbufs_ok E (add_mset p H) s' \<and> (\<exists>b xs. linked (pbufs s') p ((p, b) # xs) \<and> tot_len b = sz \<and> length (pkt_data (memory s') ((p, b) # xs)) = unat sz \<and>
      packet xs \<and> (p mod 4 = 0 \<longrightarrow> (\<forall>(q, c) \<in> set ((p, b) # xs). q + 16 \<le> payload c \<and> payload c + unat (pb_len c) \<le> q + 16 + 2000))))"
proof -
  obtain p s' where a: "pbuf_alloc env layer sz PBUF_POOL s = Some (p, s')" "allocated E H PBUF_POOL sz p s s'" using alloc_pool_ok[OF assms] by blast
  have m: "memory s' = memory s" using a(2) by (simp add: allocated_def)
  from a(2) consider "p = 0" "pbufs_ok E H s'"
    | b ys where "pbufs s p = None" "pbufs_ok E (add_mset p H) s'" "linked (pbufs s') p ((p, b) # ys)" "tot_len b = sz" "unat sz = unat (pb_len b) + lens ys" "packet ys"
      "p mod 4 = 0 \<longrightarrow> (\<forall>y \<in> set ((p, b) # ys). inside y)" unfolding allocated_def by blast
  then show ?thesis
  proof cases
    case 1
    then show ?thesis using a(1) m by blast
  next
    case (2 b ys)
    have len: "length (pkt_data (memory s') ((p, b) # ys)) = unat sz" using 2(5) by (simp add: length_pkt_data)
    have ins: "p mod 4 = 0 \<longrightarrow> (\<forall>(q, c) \<in> set ((p, b) # ys). q + 16 \<le> payload c \<and> payload c + unat (pb_len c) \<le> q + 16 + 2000)"
      using 2(7) by (force simp: inside_def)
    show ?thesis
      by (rule exI[of _ p], rule exI[of _ s'], intro conjI a(1) m disjI2 2(1,2), rule exI[of _ b], rule exI[of _ ys], intro conjI 2(3,4,6) len ins)
  qed
qed

theorem pbuf_alloc_fits_witness:
  "\<exists>st p s'. memp_init conf_example = Some st \<and> pbuf_alloc env_example PBUF_TRANSPORT 2500 PBUF_POOL (pbuf_start st Map.empty) = Some (p, s')"
proof -
  obtain st where st: "memp_init conf_example = Some st" using memp_init_val[OF conf_example_ok(1)] by blast
  have f: "stale_flags env_example AND PBUF_FLAG_IS_CUSTOM = 0" by (simp add: env_example_def)
  show ?thesis using st pbuf_alloc_fits[OF pbuf_start_ok(1)[OF conf_example_ok st] pbuf_start_ok(2)[OF conf_example_ok st, of Map.empty] f, of PBUF_TRANSPORT 2500] by blast
qed

text \<open>
  \<^verbatim>\<open>pbuf_free\<close> on a reference the program holds returns: the buffers from the head on that had one reference are gone and counted, the first that had more has lost one, and every other is as it was.
\<close>

theorem pbuf_free_prefix:
  assumes "pools_conf E" "pbufs_ok E (add_mset p H) s"
  shows "\<exists>as bs s'. linked (pbufs s) p (as @ bs) \<and> (\<forall>(q, b) \<in> set as. pb_ref b = 1) \<and> (bs \<noteq> [] \<longrightarrow> pb_ref (snd (hd bs)) \<noteq> 1) \<and>
    pbuf_free p s = Some (of_nat (length as), s') \<and> pbufs_ok E H s' \<and> memory s' = memory s \<and>
    (\<forall>q. pbufs s' q = (if q \<in> fst ` set as then None else if bs \<noteq> [] \<and> q = fst (hd bs) then Some ((snd (hd bs))\<lparr>pb_ref := pb_ref (snd (hd bs)) - 1\<rparr>) else pbufs s q))"
proof -
  obtain xs s' where x: "linked (pbufs s) p xs" "pbuf_free p s = Some (of_nat (freed xs), s')" "pbufs s' = after_free xs (pbufs s)" "memory s' = memory s" "pbufs_ok E H s'"
    using pbuf_free_ok[OF assms] by blast
  let ?P = "\<lambda>(q :: nat, b). pb_ref b = 1"
  let ?as = "takeWhile ?P xs" and ?bs = "dropWhile ?P xs"
  have split: "after_free xs m = (\<lambda>q. if q \<in> fst ` set ?as then None else if ?bs \<noteq> [] \<and> q = fst (hd ?bs) then Some ((snd (hd ?bs))\<lparr>pb_ref := pb_ref (snd (hd ?bs)) - 1\<rparr>) else m q)"
    if "distinct (map fst xs)" for m using that
  proof (induction xs arbitrary: m)
    case (Cons x xs)
    obtain q b where x: "x = (q, b)" by fastforce
    show ?case
    proof (cases "pb_ref b = 1")
      case True
      have "hd (dropWhile ?P xs) \<in> set xs" if "dropWhile ?P xs \<noteq> []" using hd_in_set[OF that] set_dropWhileD by fast
      then have "dropWhile ?P xs \<noteq> [] \<Longrightarrow> q \<noteq> fst (hd (dropWhile ?P xs))" using Cons.prems x by fastforce
      then show ?thesis using Cons x True by (auto simp: fun_eq_iff)
    qed (auto simp: x fun_eq_iff)
  qed (simp add: fun_eq_iff)
  have "\<forall>(q, b) \<in> set ?as. pb_ref b = 1" using set_takeWhileD[of _ ?P xs] by fast
  moreover have "?bs \<noteq> [] \<longrightarrow> pb_ref (snd (hd ?bs)) \<noteq> 1" using hd_dropWhile[of ?P xs] by (auto simp: case_prod_beta)
  ultimately show ?thesis using x split[OF linked_distinct[OF x(1)], of "pbufs s"]
    by (intro exI[of _ ?as] exI[of _ ?bs] exI[of _ s']) (simp add: freed_def)
qed

text \<open>
  C22. \<^verbatim>\<open>pbuf_realloc\<close> to a length below the present one returns: the packet has exactly its first bytes, the buffers behind them have lost the reference of the chain, and every other reference is still counted.
\<close>

theorem pbuf_realloc_shortens:
  assumes "pools_conf E" "pbufs_ok E H s" "linked (pbufs s) p ((p, b) # xs)" "unat new_len \<le> length (pkt_data (memory s) ((p, b) # xs))" "new_len < tot_len b"
  shows "\<exists>s' ys. pbuf_realloc p new_len s = Some s' \<and> pbufs_ok E H s' \<and> memory s' = memory s \<and> linked (pbufs s') p ys \<and>
    pkt_data (memory s) ys = take (unat new_len) (pkt_data (memory s) ((p, b) # xs))"
proof -
  have "unat new_len \<le> lens ((p, b) # xs)" using assms(4) unfolding length_pkt_data .
  then show ?thesis using realloc_ok[OF assms(1-3) _ assms(5)] by blast
qed

text \<open>For a length near \<open>2\<^sup>1\<^sup>6\<close> the size that \<^verbatim>\<open>pbuf_alloc\<close> asks the heap for wraps around: it is handed a piece shorter than the payload, and still claims the whole length.\<close>

theorem pbuf_ram_size_wraps:
  assumes "p \<noteq> 0" "mem_malloc env (ram_size PBUF_RAW sz) = p" "unat sz > 65516"
  shows "unat (ram_size PBUF_RAW sz) < unat sz \<and>
    (\<exists>s' b. pbuf_alloc env PBUF_RAW sz PBUF_RAM s = Some (p, s') \<and> pbufs s' p = Some b \<and> pb_len b = sz)"
proof -
  have u: "unat (ram_size PBUF_RAW sz) = (16 + (unat sz + 3) div 4 * 4) mod 65536" unfolding ram_size_def layer_offset_def LWIP_MEM_ALIGN_def
    by (simp add: unat_of_nat take_bit_eq_mod del: of_nat_add of_nat_mult)
  have "unat sz < 65536" using unsigned_less[of sz, where 'a = nat] by simp
  moreover define d where "d = (unat sz + 3) div 4"
  have "16380 \<le> d" using div_le_mono[of 65520 "unat sz + 3" 4] assms(3) by (simp add: d_def)
  moreover have "d * 4 \<le> unat sz + 3" using div_times_less_eq_dividend[of "unat sz + 3" 4] by (simp add: d_def)
  ultimately have "(16 + d * 4) mod 65536 = 16 + d * 4 - 65536" "16 + d * 4 - 65536 < unat sz" by (simp add: le_mod_geq, linarith)
  then have "(16 + (unat sz + 3) div 4 * 4) mod 65536 < unat sz" by (simp add: d_def)
  then show ?thesis using u assms(1,2) by (simp add: pbuf_alloc_def Let_def)
qed

theorem pbuf_ram_size_wraps_witness:
  "unat (ram_size PBUF_RAW 65530) < unat (65530 :: u16) \<and>
   (\<exists>s' b. pbuf_alloc (env_example\<lparr>mem_malloc := (\<lambda>n. 64)\<rparr>) PBUF_RAW 65530 PBUF_RAM (pbuf_start \<lparr>memp_tab = [], memp_next = Map.empty\<rparr> Map.empty) = Some (64, s') \<and>
     pbufs s' 64 = Some b \<and> pb_len b = 65530)"
  by (rule pbuf_ram_size_wraps) simp_all

text \<open>
  \<^verbatim>\<open>pbuf_cat\<close> of two packets returns: the head is then the packet with the bytes of both, one after the other, with \<^verbatim>\<open>tot_len\<close> right in every buffer if the sum fits 16 bits; no byte is moved, and
  the reference to the tail is now the one of the last buffer of the head.
\<close>

theorem pbuf_cat_joins:
  assumes "pbufs_ok E (add_mset t H) s" "linked (pbufs s) h xs" "xs \<noteq> []" "linked (pbufs s) t ys" "fst ` set ys \<inter> fst ` set xs = {}" "packet xs" "packet ys"
  shows "\<exists>s' zs. pbuf_cat h t s = Some s' \<and> pbufs_ok E H s' \<and> memory s' = memory s \<and> linked (pbufs s') h zs \<and>
    pkt_data (memory s') zs = pkt_data (memory s) xs @ pkt_data (memory s) ys \<and> (length (pkt_data (memory s') zs) < 65536 \<longrightarrow> packet zs)"
proof -
  obtain as l c where xs: "xs = as @ [(l, c)]" using assms(3) by (metis rev_exhaust surj_pair)
  define k where "k = tot_len (snd (hd ys))"
  let ?c = "c\<lparr>tot_len := tot_len c + k, pb_next := t\<rparr>"
  let ?Z = "map (bump k) as @ (l, ?c) # ys"
  obtain s' where s': "pbuf_cat h t s = Some s'" "pbufs_ok E H s'" "memory s' = memory s" "linked (pbufs s') h ?Z"
    using cat_ok[OF assms(1) _ assms(4)] assms(2,5) unfolding xs k_def by blast
  have dat: "pkt_data (memory s) ?Z = pkt_data (memory s) xs @ pkt_data (memory s) ys"
    by (simp add: xs pkt_data_split pkt_data_bump pkt_data_append buf_data_def)
  have "ys \<noteq> []" using assms(4) pbufs_okD(3)[OF assms(1), of t] by (cases ys) auto
  then have k: "unat k = lens ys" using assms(7) by (cases ys) (auto simp: k_def)
  have lz: "length (pkt_data (memory s) ?Z) = lens as + unat (pb_len c) + lens ys" by (simp add: dat xs length_pkt_data)
  have add: "unat (a + k) = unat a + lens ys" if "unat a + lens ys < 65536" for a using that k by (simp add: unat_word_ariths)
  have tail: "packet ((l, ?c) # ys)" if "unat (pb_len c) + lens ys < 65536" "packet [(l, c)]" using that assms(7) add[of "tot_len c"] by simp
  have all: "packet (zs @ [(l, c)]) \<Longrightarrow> lens zs + unat (pb_len c) + lens ys < 65536 \<Longrightarrow> packet (map (bump k) zs @ (l, ?c) # ys)" for zs
  proof (induction zs)
    case (Cons z zs)
    obtain q b where z: "z = (q, b)" by fastforce
    have m: "lens (map (bump k) zs) = lens zs" by (induction zs) (auto simp: bump_def)
    have "unat (tot_len b) + lens ys < 65536" using Cons.prems z by simp
    moreover have "bump k z = (q, b\<lparr>tot_len := tot_len b + k\<rparr>)" by (simp add: z bump_def)
    ultimately show ?case using Cons z m add[of "tot_len b"] by simp
  qed (use tail in simp)
  have "packet ?Z" if "length (pkt_data (memory s) ?Z) < 65536" by (rule all) (use that lz assms(6) xs in simp_all)
  then show ?thesis using s' dat by (intro exI[of _ s'] exI[of _ ?Z]) simp
qed

text \<open>
  \<^verbatim>\<open>pbuf_coalesce\<close> gives back one buffer with the bytes of the packet, if the heap has a piece for it, and the old chain has lost the reference; without one it gives back the packet itself. Either way no byte
  outside the new piece changes and every other reference is still counted.
\<close>

theorem pbuf_coalesce_same_bytes:
  assumes "pools_conf E" "pbufs_ok E (add_mset p H) s" "linked (pbufs s) p ((p, b) # xs)" "packet ((p, b) # xs)" "xs \<noteq> []" "pkt_mapped (memory s) ((p, b) # xs)"
    "stale_flags env AND PBUF_FLAG_IS_CUSTOM = 0" "heap_ok E env layer (tot_len b) s"
    "\<forall>a. a \<noteq> 0 \<and> mem_malloc env (ram_size layer (tot_len b)) = a \<longrightarrow> (let d = LWIP_MEM_ALIGN (a + SIZEOF_STRUCT_PBUF + layer_offset layer) in
      mapped (memory s) d (unat (tot_len b)) \<and> {d..<d + unat (tot_len b)} \<inter> footprint ((p, b) # xs) = {})"
  shows "\<exists>q s' ys. pbuf_coalesce env p layer s = Some (q, s') \<and> pbufs_ok E (add_mset q H) s' \<and> linked (pbufs s') q ys \<and> (q = p \<or> length ys = 1) \<and>
    pkt_data (memory s') ys = pkt_data (memory s) ((p, b) # xs)"
proof -
  let ?X = "(p, b) # xs" and ?q = "mem_malloc env (ram_size layer (tot_len b))"
  have p: "pbufs s p = Some b" "p \<noteq> 0" "pb_next b \<noteq> 0" using assms(3,5) by (auto, cases xs, auto)
  show ?thesis
  proof (cases "?q = 0")
    case True
    then have "pbuf_coalesce env p layer s = Some (p, s)" using p by (simp add: pbuf_coalesce_def pbuf_alloc_def Let_def)
    then show ?thesis using assms(2,3) by blast
  next
    case False
    let ?d = "LWIP_MEM_ALIGN (?q + SIZEOF_STRUCT_PBUF + layer_offset layer)"
    define c where "c = \<lparr>pb_next = 0, payload = ?d, tot_len = tot_len b, pb_len = tot_len b, pb_type = PBUF_RAM, pb_flags = 0 :: u8, pb_ref = 1 :: u16\<rparr>"
    let ?s = "s\<lparr>pbufs := (pbufs s)(?q \<mapsto> c)\<rparr>"
    have al: "pbuf_alloc env layer (tot_len b) PBUF_RAM s = Some (?q, ?s)" using False by (simp add: pbuf_alloc_def c_def Let_def)
    obtain p' s' where "pbuf_alloc env layer (tot_len b) PBUF_RAM s = Some (p', s')" "allocated E (add_mset p H) PBUF_RAM (tot_len b) p' s s'"
      using alloc_ok[OF assms(1,2,7,8)] by blast
    then have ok: "pbufs_ok E (add_mset p (add_mset ?q H)) ?s" "pbufs s ?q = None" using al False by (auto simp: allocated_def add_mset_commute)
    have "linked (pbufs ?s) p ?X = linked (pbufs s) p ?X" by (rule linked_cong) (use linked_live[OF assms(3)] ok(2) in fastforce)
    then have lx: "linked (pbufs ?s) p ?X" using assms(3) by blast
    have lq: "linked (pbufs ?s) ?q [(?q, c)]" using False by (simp add: c_def)
    have d: "mapped (memory s) ?d (unat (tot_len b))" "{?d..<?d + unat (tot_len b)} \<inter> footprint ?X = {}" using assms(9) False by (simp_all add: Let_def)
    have tl: "unat (tot_len b) = length (pkt_data (memory s) ?X)" "tot_len b \<noteq> 0" using assms(4) by (auto simp: length_pkt_data unat_eq_0)
    have cp: "copyable ?s ?q [(?q, c)] p ?X" unfolding copyable_def using lx lq d tl(2) assms(4,6) by (simp add: c_def area_def)
    obtain m where m: "pbuf_copy ?q p ?s = Some (ERR_OK, ?s\<lparr>memory := m\<rparr>)" "pkt_data m [(?q, c)] = pkt_data (memory s) ?X"
      using copy_exact[OF cp False p(2)] tl(1) by (auto simp: c_def length_pkt_data)
    have ok2: "pbufs_ok E (add_mset p (add_mset ?q H)) (?s\<lparr>memory := m\<rparr>)" using ok(1) by (simp add: pbufs_ok_def)
    obtain zs s' where f: "linked (pbufs ?s) p zs" "pbuf_free p (?s\<lparr>memory := m\<rparr>) = Some (of_nat (freed zs), s')" "pbufs s' = after_free zs (pbufs ?s)" "memory s' = m" "pbufs_ok E (add_mset ?q H) s'"
      using pbuf_free_ok[OF assms(1) ok2] by auto
    have "zs = ?X" by (rule linked_unique[OF f(1) lx])
    then have "?q \<notin> fst ` set zs" using linked_live[OF assms(3)] ok(2) by fastforce
    then have "pbufs s' ?q = Some c" unfolding f(3) by (simp add: after_free_other)
    then have "linked (pbufs s') ?q [(?q, c)]" using False by (simp add: c_def)
    moreover have "pbuf_coalesce env p layer s = Some (?q, s')" using p al False m(1) f(2) by (simp add: pbuf_coalesce_def)
    ultimately show ?thesis using f(4,5) m(2) by (intro exI[of _ ?q] exI[of _ s'] exI[of _ "[(?q, c)]"]) simp
  qed
qed

section \<open>Witnesses\<close>

text \<open>The two packets of \<open>state_ex\<close> hold all five elements of the pool.\<close>

definition elements_ex :: "nat list list" where
  "elements_ex = replicate 15 [] @ [[1, 2, 3, 4, 5]]"

lemma elements_ex_nth: "j < 16 \<Longrightarrow> elements_ex ! j = (if j = 15 then [1, 2, 3, 4, 5] else [])"
  by (auto simp: elements_ex_def nth_append)

lemma elements_ex_ok: "length elements_ex = 16" "pools_conf elements_ex"
proof -
  show l: "length elements_ex = 16" by (simp add: elements_ex_def)
  show "pools_conf elements_ex" unfolding pools_conf_def apart_def l by (auto simp: elements_ex_nth)
qed

lemma state_ex_live: "pbufs state_ex q = Some b \<longleftrightarrow>
    q = 1 \<and> b = buf_ex 2 10 5 2 \<or> q = 2 \<and> b = buf_ex 0 20 3 3 \<or> q = 3 \<and> b = buf_ex 4 30 4 1 \<or> q = 4 \<and> b = buf_ex 5 40 3 2 \<or> q = 5 \<and> b = buf_ex 0 50 1 1"
  by (auto simp: state_ex_def pkt_a_def pkt_b_def split: if_splits)

lemma buf_ex_simps [simp]: "pb_next (buf_ex n a t l) = n" "pb_ref (buf_ex n a t l) = 1" "pool_of (buf_ex n a t l) = Some 15" "tot_len (buf_ex n a t l) = t"
  by (simp_all add: buf_ex_def pool_of_def)

lemma state_ex_preds:
  "preds (pbufs state_ex) 1 = {}" "preds (pbufs state_ex) 2 = {1}" "preds (pbufs state_ex) 3 = {}" "preds (pbufs state_ex) 4 = {3}" "preds (pbufs state_ex) 5 = {4}"
  unfolding preds_def state_ex_live by auto

lemma state_ex_pbufs_ok: "pbufs_ok elements_ex {#1, 3#} state_ex"
proof -
  have d: "dom (pbufs state_ex) = {1, 2, 3, 4, 5}" by (auto simp: dom_def state_ex_live)
  have c: "linked (pbufs state_ex) 1 pkt_a" "linked (pbufs state_ex) 3 pkt_b" by (rule state_ex_ok)+
  have "\<exists>xs. linked (pbufs state_ex) q xs" if q: "q \<in> {1, 2, 3, 4, 5}" for q
  proof -
    have "linked (pbufs state_ex) 2 (tl pkt_a)" "linked (pbufs state_ex) 4 (tl pkt_b)" "linked (pbufs state_ex) 5 (tl (tl pkt_b))" using c by (auto simp: pkt_a_def pkt_b_def)
    then show ?thesis using c q by blast
  qed
  moreover have "unat (pb_ref b) = count {#1, 3#} q + card (preds (pbufs state_ex) q) \<and> pb_ref b \<noteq> 0" if "pbufs state_ex q = Some b" for q b
    using that unfolding state_ex_live by (auto simp: state_ex_preds simp del: One_nat_def)
  ultimately have "refs_ok (pbufs state_ex) {#1, 3#}" unfolding refs_ok_def d by auto
  moreover have "pool_rel (pools state_ex) (replicate 16 [])" by (simp add: pool_rel_def apart_def state_ex_def)
  then have "free_pools elements_ex (pools state_ex) (dom (pbufs state_ex)) (replicate 16 [])" unfolding free_pools_def d using elements_ex_ok(1) by (auto simp: elements_ex_nth)
  moreover have "owned elements_ex q b" if "pbufs state_ex q = Some b" for q b using that unfolding state_ex_live by (auto simp: owned_def elements_ex_nth)
  ultimately show ?thesis unfolding pbufs_ok_def pools_ok_def by blast
qed

theorem pbuf_free_prefix_witness:
  "\<exists>as bs s'. linked (pbufs state_ex) 1 (as @ bs) \<and> pbuf_free 1 state_ex = Some (of_nat (length as), s') \<and> pbufs_ok elements_ex {#3#} s'"
  using pbuf_free_prefix[OF elements_ex_ok(2) state_ex_pbufs_ok] by blast

theorem pbuf_realloc_shortens_witness:
  "\<exists>s' ys. pbuf_realloc 1 3 state_ex = Some s' \<and> linked (pbufs s') 1 ys \<and> pkt_data (memory state_ex) ys = [10, 11, 20]"
proof -
  have l: "linked (pbufs state_ex) 1 ((1, buf_ex 2 10 5 2) # tl pkt_a)" "(1, buf_ex 2 10 5 2) # tl pkt_a = pkt_a" using state_ex_ok(1) by (simp_all add: pkt_a_def)
  show ?thesis using pbuf_realloc_shortens[OF elements_ex_ok(2) state_ex_pbufs_ok l(1), of 3] unfolding l(2) state_ex_ok(9) by auto
qed

theorem pbuf_cat_joins_witness:
  "\<exists>s' zs. pbuf_cat 1 3 state_ex = Some s' \<and> linked (pbufs s') 1 zs \<and> pkt_data (memory s') zs = [10, 11, 20, 21, 22, 30, 40, 41, 50] \<and> packet zs"
proof -
  have H: "pbufs_ok elements_ex (add_mset 3 {#1#}) state_ex" using state_ex_pbufs_ok by (simp add: add_mset_commute)
  have x: "pkt_a \<noteq> []" "fst ` set pkt_b \<inter> fst ` set pkt_a = {}" by (simp_all add: pkt_a_def pkt_b_def)
  show ?thesis using pbuf_cat_joins[OF H state_ex_ok(1) x(1) state_ex_ok(2) x(2) state_ex_ok(6,7)] unfolding state_ex_ok(9,10) by auto
qed

theorem pbuf_coalesce_same_bytes_witness:
  "\<exists>q s' ys. pbuf_coalesce (env_example\<lparr>mem_malloc := (\<lambda>n. 60)\<rparr>) 1 PBUF_RAW state_ex = Some (q, s') \<and> linked (pbufs s') q ys \<and> pkt_data (memory s') ys = [10, 11, 20, 21, 22]"
proof -
  let ?e = "env_example\<lparr>mem_malloc := (\<lambda>n. 60)\<rparr>" and ?b = "buf_ex 2 10 5 2"
  have l: "linked (pbufs state_ex) 1 ((1, ?b) # tl pkt_a)" "(1, ?b) # tl pkt_a = pkt_a" using state_ex_ok(1) by (simp_all add: pkt_a_def)
  have f: "stale_flags ?e AND PBUF_FLAG_IS_CUSTOM = 0" "tl pkt_a \<noteq> []" by (simp_all add: env_example_def pkt_a_def)
  have n: "pbufs state_ex 60 = None" by (simp add: state_ex_def pkt_a_def pkt_b_def)
  have h: "heap_ok elements_ex ?e PBUF_RAW (tot_len ?b) state_ex" unfolding heap_ok_def elements_ex_ok(1) by (auto simp: env_example_def n elements_ex_nth Let_def)
  have d: "\<forall>a. a \<noteq> 0 \<and> mem_malloc ?e (ram_size PBUF_RAW (tot_len ?b)) = a \<longrightarrow> (let d = LWIP_MEM_ALIGN (a + SIZEOF_STRUCT_PBUF + layer_offset PBUF_RAW) in
      mapped (memory state_ex) d (unat (tot_len ?b)) \<and> {d..<d + unat (tot_len ?b)} \<inter> footprint ((1, ?b) # tl pkt_a) = {})"
    by (auto simp: env_example_def LWIP_MEM_ALIGN_def layer_offset_def mapped_def state_ex_def pkt_a_def area_def buf_ex_def)
  show ?thesis
    using pbuf_coalesce_same_bytes[OF elements_ex_ok(2) state_ex_pbufs_ok l(1) _ f(2) _ f(1) h d] state_ex_ok(3,6) unfolding l(2) state_ex_ok(9) by blast
qed

end
