(* ===== verification/Spec2Isabelle.thy ===== *)
theory Spec2Isabelle
  imports Mb_Stack Usbd_Proofs Net_Timers Eth_Link Sys_Arch Lwip_Chksum Lwip_Pbuf_Find Lwip_Pbuf_Ops
begin

text \<open>
  This development models the firmware of an AT32F437 board and proves what makes its parts correct. The firmware runs a Modbus
  RTU slave over a USB virtual serial port, exports an SPI flash chip as a USB mass storage device and as a FatFs volume, and runs
  lwIP on an Ethernet interface, all as FreeRTOS tasks that \<^verbatim>\<open>USER/main.c\<close> creates.

  \<^bold>\<open>How the code is modelled.\<close> A structure is a record with the fields of the source, an enumeration a datatype, an integer a word of
  its width; counters that cannot overflow are natural numbers. Functions pass their state explicitly. An access outside an array or
  through a null pointer, an endless loop and exhausted fuel are the value \<open>None\<close>, so that a theorem that something is \<open>Some\<close>
  states that the code returns. Hardware (the flash chip, the USB host, the Ethernet transceiver), the operating system and code outside
  the repository are arguments of the definitions, with their documented behaviour as named hypotheses or locale assumptions.

  \<^bold>\<open>Prelude\<close> holds the shared types, the array accesses \<open>rd\<close> and \<open>wr\<close>, the loop \<open>for_range\<close> with its invariant rule,
  \<open>memcpy\<close>, byte and word lemmas, and the locale \<open>bounded_fifo\<close> of a queue of bounded length, whose lemma \<open>run_fifo\<close> says
  that puts and gets in any order keep the order and lose nothing. It is interpreted on the Modbus receive ring and on both DMA rings.

  \<^bold>\<open>Modbus\<close> (\<^verbatim>\<open>FreeModbus/\<close>). \<open>Mb_Types\<close> and \<open>Mb_Crc\<close>: enumerations, bit utilities (\<^verbatim>\<open>mbutils.c\<close>) and CRC
  (\<^verbatim>\<open>mbcrc.c\<close>, equal to the bitwise CRC). \<open>Mb_Regs\<close>: the register banks (\<^verbatim>\<open>mb_callback.c\<close>). \<open>Mb_Func\<close>: the function
  handlers (\<^verbatim>\<open>modbus/functions\<close>), their responses and round trips. \<open>Mb_Port\<close>: events, serial line and timer (\<^verbatim>\<open>port/\<close>).
  \<open>Mb_Rtu\<close>: framing (\<^verbatim>\<open>mbrtu.c\<close>), reception of frames and the round trip between two stations. \<open>Mb_Stack\<close>: \<^verbatim>\<open>mb.c\<close> and
  the part of the USB task that drives it: \<^verbatim>\<open>eMBPoll\<close> returns on every input and keeps the invariant, and what it answers. The recursion
  of the transmitter has fuel, and the theorems on it say that no amount of fuel is enough.

  \<^bold>\<open>Storage.\<close> \<open>Flash\<close>: \<^verbatim>\<open>SPI-FLASH/\<close> over a chip that is an argument; the busy wait has fuel and is shown to end within the chip's busy
  time. \<open>Msc_Disk\<close>: \<^verbatim>\<open>USER/msc_diskio.c\<close> and the FatFs glue \<^verbatim>\<open>FATFS/diskio.c\<close>, with the write/read round trip. \<open>Msc_Bot\<close>: the bulk-only
  transport and SCSI commands of \<^verbatim>\<open>msc_bot_scsi.c\<close>, reading and writing of sectors. \<open>Msc_Cmd\<close>: single commands and error paths.
  \<open>Msc_Safe\<close>: under an arbitrary host the state machine never gets stuck.

  \<^bold>\<open>USB device.\<close> \<open>Cdc_Class\<close> and \<open>Cdc_Desc\<close>: class driver and descriptors (\<^verbatim>\<open>usbd_class/composite_cdc_msc\<close>). \<open>Usbd_Core\<close>, \<open>Usbd_Sdr\<close>,
  \<open>Usbd_Int\<close>: device core, standard requests and interrupt handlers (\<^verbatim>\<open>usb_drivers\<close>). \<open>Usbd_Proofs\<close>: control transfers, enumeration, FIFO
  filling and bounds.

  \<^bold>\<open>Network.\<close> \<open>Net_Timers\<close>: the timeout list of lwIP (\<^verbatim>\<open>LWIP/src/core/timers.c\<close>) with both of its drivers, against an abstract timer queue
  (locale \<open>timer_queue\<close>). \<open>Eth_Ring\<close>: rings of DMA descriptors. \<open>Eth_If\<close>: \<^verbatim>\<open>LWIP/port/ethernetif.c\<close>, the descriptor
  routines of \<^verbatim>\<open>at32f435_437_emac.c\<close> and the receive loop of the network task; both rings are queues, and what happens when they are full or meet a
  frame with an error. \<open>Eth_Link\<close>: \<^verbatim>\<open>AT_ETH/at32_emac_phy.c\<close>, the link part of \<^verbatim>\<open>netif.c\<close> and the start-up of the network task; the loops on the
  transceiver end, and the state of interface and MAC follows the link. \<open>Lwip_Chksum\<close>: the Internet checksum (\<^verbatim>\<open>inet_chksum.c\<close>), equal to the ones' complement sum of the bytes however a
  chain is cut. \<open>Lwip_Memp\<close>: the memory pools (\<^verbatim>\<open>memp.c\<close>), linked lists in memory that implement stacks of elements; the locale \<open>element_pools\<close> is what clients rely on. \<open>Lwip_Pbuf\<close>: packet buffers
  (\<^verbatim>\<open>pbuf.c\<close>) in a store by address, with their payload in a byte memory. \<open>Lwip_Pbuf_Data\<close> and \<open>Lwip_Pbuf_Find\<close>: copying in, out and between packets and searching, as operations on the list of the bytes.
  \<open>Lwip_Pbuf_Ref\<close> and \<open>Lwip_Pbuf_Ops\<close>: reference counts and ownership of the pool elements, kept by every routine, so that any program that passes references it holds is safe.

  \<^bold>\<open>Operating system\<close> (\<^verbatim>\<open>FreeRTOS/\<close>). \<open>Rtos_Heap\<close>: the allocator \<^verbatim>\<open>heap_4.c\<close>, whose free list in memory implements first fit with merging on a
  list of blocks; the locale \<open>allocator\<close> is what its clients rely on, for any sequence of calls. \<open>Rtos_List\<close>: the linked lists of \<^verbatim>\<open>list.c\<close> in a store, related to the list
  of their items. \<open>Rtos_Queue\<close>: the data of \<^verbatim>\<open>queue.c\<close>, a ring of slots, with event lists and locks. \<open>Rtos_Tasks\<close>: tasks and interrupts on one queue as a step relation whose
  steps are the critical sections; an invariant counts the tasks on their way against the room there is. \<open>Rtos_Sem\<close>: semaphores, which are such queues, and mutexes.
  \<open>Sys_Arch\<close>: the port of lwIP, \<^verbatim>\<open>LWIP/port/sys_arch.c\<close>, over these queues.

  \<^bold>\<open>Not modelled.\<close> Clock, pin and interrupt set-up are plain register writes without logic. The protocols of lwIP and its heap \<^verbatim>\<open>mem.c\<close>, the choices of the FreeRTOS scheduler, priority inheritance, the
  FatFs file system, the CMSIS libraries, the USB host stack and the other class drivers are third-party code; what the models need
  of them is an argument or recorded as a call. Modbus ASCII and TCP are switched off in \<^verbatim>\<open>mbconfig.h\<close>. Interrupts and task switches inside a function are modelled for the queues
  only; elsewhere calls are arbitrary sequences of steps.
\<close>

end
